(* ===== verification/Prelude.thy ===== *)
theory Prelude
  imports Main "HOL-Library.Word" "HOL-Library.Monad_Syntax" "HOL-Library.Multiset"
begin

unbundle bit_operations_syntax

text \<open>
  What the components of the server share: the error word and the allocator of
  \<^verbatim>\<open>server/thread.h\<close> and \<^verbatim>\<open>server/object.c\<close>, the NT status codes the modelled code
  stores, array accesses that are undefined out of range, and the list lemmas and the
  \<^theory_text>\<open>named_theorems\<close> collections the component proofs use.

  A C function that reads and writes the server's memory is a HOL function of the state
  into \<open>('a \<times> 's) option\<close>.  \<open>None\<close> stands for a failed \<^verbatim>\<open>assert\<close> and for undefined
  behaviour (a NULL or freed pointer, an array index out of range, a signed overflow):
  nothing is known of the server after it.  An error the code reports with
  \<^verbatim>\<open>set_error\<close> is an ordinary result whose state holds the status.
\<close>

named_theorems env_simps "how the environment operations act on the environment fields"


subsection \<open>Status codes\<close>

type_synonym status = "32 word"

abbreviation "STATUS_SUCCESS \<equiv> (0x00000000 :: status)"
abbreviation "STATUS_ABANDONED_WAIT_0 \<equiv> (0x00000080 :: status)"
abbreviation "STATUS_USER_APC \<equiv> (0x000000C0 :: status)"
abbreviation "STATUS_TIMEOUT \<equiv> (0x00000102 :: status)"
abbreviation "STATUS_PENDING \<equiv> (0x00000103 :: status)"
abbreviation "STATUS_OBJECT_NAME_EXISTS \<equiv> (0x40000000 :: status)"
abbreviation "STATUS_BUFFER_OVERFLOW \<equiv> (0x80000005 :: status)"
abbreviation "STATUS_NO_MORE_ENTRIES \<equiv> (0x8000001A :: status)"
abbreviation "STATUS_WAS_LOCKED \<equiv> (0x40000019 :: status)"
abbreviation "STATUS_INVALID_HANDLE \<equiv> (0xC0000008 :: status)"
abbreviation "STATUS_INVALID_PARAMETER \<equiv> (0xC000000D :: status)"
abbreviation "STATUS_NO_MEMORY \<equiv> (0xC0000017 :: status)"
abbreviation "STATUS_ACCESS_DENIED \<equiv> (0xC0000022 :: status)"
abbreviation "STATUS_BUFFER_TOO_SMALL \<equiv> (0xC0000023 :: status)"
abbreviation "STATUS_OBJECT_TYPE_MISMATCH \<equiv> (0xC0000024 :: status)"
abbreviation "STATUS_OBJECT_NAME_INVALID \<equiv> (0xC0000033 :: status)"
abbreviation "STATUS_OBJECT_NAME_NOT_FOUND \<equiv> (0xC0000034 :: status)"
abbreviation "STATUS_OBJECT_NAME_COLLISION \<equiv> (0xC0000035 :: status)"
abbreviation "STATUS_OBJECT_PATH_INVALID \<equiv> (0xC0000039 :: status)"
abbreviation "STATUS_OBJECT_PATH_NOT_FOUND \<equiv> (0xC000003A :: status)"
abbreviation "STATUS_OBJECT_PATH_SYNTAX_BAD \<equiv> (0xC000003B :: status)"
abbreviation "STATUS_MUTANT_NOT_OWNED \<equiv> (0xC0000046 :: status)"
abbreviation "STATUS_SEMAPHORE_LIMIT_EXCEEDED \<equiv> (0xC0000047 :: status)"
abbreviation "STATUS_SUSPEND_COUNT_EXCEEDED \<equiv> (0xC000004A :: status)"
abbreviation "STATUS_FILE_LOCK_CONFLICT \<equiv> (0xC0000054 :: status)"
abbreviation "STATUS_NAME_TOO_LONG \<equiv> (0xC0000106 :: status)"
abbreviation "STATUS_KEY_DELETED \<equiv> (0xC000017C :: status)"
abbreviation "STATUS_CHILD_MUST_BE_VOLATILE \<equiv> (0xC0000181 :: status)"
abbreviation "STATUS_HANDLE_NOT_CLOSABLE \<equiv> (0xC0000235 :: status)"


subsection \<open>The environment: current thread, error words, allocator\<close>

text \<open>
  \<open>current\<close> is the thread whose request is being served, by the number of its object, and
  \<open>thread_error\<close> the \<^verbatim>\<open>error\<close> field of each thread.  The C allocator may fail at any
  call; \<open>mem_oracle\<close> lists the outcomes of the coming calls and an exhausted list means
  that they all succeed, so a theorem for every state covers every pattern of failures.
\<close>

record env =
  current :: "nat option"
  global_error :: status
  thread_error :: "nat \<Rightarrow> status"
  mem_oracle :: "bool list"

definition get_error :: "'a env_scheme \<Rightarrow> status" where
  "get_error s = (case current s of Some t \<Rightarrow> thread_error s t | None \<Rightarrow> global_error s)"

definition set_error :: "status \<Rightarrow> 'a env_scheme \<Rightarrow> 'a env_scheme" where
  "set_error e s = s\<lparr>global_error := e,
     thread_error := (case current s of Some t \<Rightarrow> (thread_error s)(t := e)
                                      | None \<Rightarrow> thread_error s)\<rparr>"

definition clear_error :: "'a env_scheme \<Rightarrow> 'a env_scheme" where
  "clear_error s = set_error STATUS_SUCCESS s"

text \<open>\<^verbatim>\<open>malloc\<close> and \<^verbatim>\<open>realloc\<close>: did the call return memory?\<close>

definition malloc :: "'a env_scheme \<Rightarrow> bool \<times> 'a env_scheme" where
  "malloc s = (case mem_oracle s of [] \<Rightarrow> (True, s)
                                  | b # bs \<Rightarrow> (b, s\<lparr>mem_oracle := bs\<rparr>))"

definition mem_alloc :: "'a env_scheme \<Rightarrow> bool \<times> 'a env_scheme" where
  "mem_alloc s = (case malloc s of (ptr, s') \<Rightarrow>
     if ptr then (True, s') else (False, set_error STATUS_NO_MEMORY s'))"

text \<open>The block of memory \<^verbatim>\<open>memdup\<close> returns holds a copy of the data.\<close>

definition memdup :: "'b list \<Rightarrow> 'a env_scheme \<Rightarrow> 'b list option \<times> 'a env_scheme" where
  "memdup data s = (case malloc s of (ptr, s') \<Rightarrow>
     if ptr then (Some data, s') else (None, set_error STATUS_NO_MEMORY s'))"

text \<open>The data of a reply that fits the client's buffer: a copy, when there is memory for it.\<close>

definition set_reply_data :: "'b list \<Rightarrow> 'a env_scheme \<Rightarrow> 'b list \<times> 'a env_scheme" where
  "set_reply_data data s =
     (if data = [] then ([], s) else case mem_alloc s of (ok, s) \<Rightarrow> (if ok then data else [], s))"

lemma get_error_set_error [env_simps, simp]: "get_error (set_error e s) = e"
  by (simp add: get_error_def set_error_def split: option.splits)

lemma set_error_fields [env_simps, simp]:
  "current (set_error e s) = current s"
  "mem_oracle (set_error e s) = mem_oracle s"
  "env.more (set_error e s) = env.more s"
  by (simp_all add: set_error_def)

lemma clear_error_fields [env_simps, simp]:
  "get_error (clear_error s) = STATUS_SUCCESS"
  "current (clear_error s) = current s"
  "mem_oracle (clear_error s) = mem_oracle s"
  "env.more (clear_error s) = env.more s"
  by (simp_all add: clear_error_def)

lemma malloc_oracle: "malloc s = (b, s') \<Longrightarrow> \<exists>m. s' = s\<lparr>mem_oracle := m\<rparr>"
  by (cases "mem_oracle s") (auto simp: malloc_def intro: exI [of _ "mem_oracle s"])

lemma malloc_more [env_simps]: "malloc s = (b, s') \<Longrightarrow> env.more s' = env.more s"
  by (auto simp: malloc_def split: list.splits)

lemma mem_alloc_more [env_simps]: "mem_alloc s = (b, s') \<Longrightarrow> env.more s' = env.more s"
  by (auto simp: mem_alloc_def dest: malloc_more split: prod.splits if_splits)

lemma memdup_more [env_simps]: "memdup xs s = (b, s') \<Longrightarrow> env.more s' = env.more s"
  by (auto simp: memdup_def dest: malloc_more split: prod.splits if_splits)

lemma memdup_SomeD: "memdup xs s = (Some ys, s') \<Longrightarrow> ys = xs"
  by (auto simp: memdup_def split: prod.splits if_splits)

lemma malloc_exhausted [simp]: "mem_oracle s = [] \<Longrightarrow> malloc s = (True, s)"
  by (simp add: malloc_def)

lemma mem_alloc_exhausted [simp]: "mem_oracle s = [] \<Longrightarrow> mem_alloc s = (True, s)"
  by (simp add: mem_alloc_def)

lemma memdup_exhausted [simp]: "mem_oracle s = [] \<Longrightarrow> memdup xs s = (Some xs, s)"
  by (simp add: memdup_def)


text \<open>
  A step that only allocates memory: it changes nothing but the error words and the
  oracle, succeeds when no call fails, and reports \<^verbatim>\<open>STATUS_NO_MEMORY\<close> when it fails.
\<close>

definition alloc_step :: "bool \<Rightarrow> 'a env_scheme \<Rightarrow> 'a env_scheme \<Rightarrow> bool" where
  "alloc_step ok s s' \<longleftrightarrow> env.more s' = env.more s \<and> current s' = current s \<and>
     (mem_oracle s = [] \<longrightarrow> ok \<and> s' = s) \<and> (\<not> ok \<longrightarrow> get_error s' = STATUS_NO_MEMORY)"

lemma alloc_step_refl [simp]: "alloc_step True s s"
  by (simp add: alloc_step_def)

lemma alloc_step_trans [trans]: "alloc_step True s s1 \<Longrightarrow> alloc_step ok s1 s2 \<Longrightarrow> alloc_step ok s s2"
  by (auto simp: alloc_step_def)

lemma mem_alloc_step: "mem_alloc s = (ok, s') \<Longrightarrow> alloc_step ok s s'"
  by (auto simp: alloc_step_def mem_alloc_def malloc_def split: list.splits prod.splits if_splits)

lemma memdup_step: "memdup xs s = (r, s') \<Longrightarrow> alloc_step (r \<noteq> None) s s'"
  by (auto simp: alloc_step_def memdup_def malloc_def split: list.splits prod.splits if_splits)

lemma malloc_step: "malloc s = (True, s') \<Longrightarrow> alloc_step True s s'"
  by (auto simp: alloc_step_def malloc_def split: list.splits)

lemma realloc_step: "malloc s = (b, s') \<Longrightarrow> alloc_step True s s'"
  by (auto simp: alloc_step_def malloc_def split: list.splits)

lemma malloc_no_memory_step:
  "malloc s = (False, s') \<Longrightarrow> alloc_step False s (set_error STATUS_NO_MEMORY s')"
  by (auto simp: alloc_step_def malloc_def split: list.splits)


subsection \<open>Arrays\<close>

text \<open>A read or a write at an index outside an array is undefined behaviour.\<close>

definition read_at :: "'a list \<Rightarrow> int \<Rightarrow> 'a option" where
  "read_at xs i = (if 0 \<le> i \<and> i < int (length xs) then Some (xs ! nat i) else None)"

definition write_at :: "'a list \<Rightarrow> int \<Rightarrow> 'a \<Rightarrow> 'a list option" where
  "write_at xs i x = (if 0 \<le> i \<and> i < int (length xs) then Some (xs[nat i := x]) else None)"

lemma read_at_Some_iff: "read_at xs i = Some x \<longleftrightarrow> 0 \<le> i \<and> i < int (length xs) \<and> x = xs ! nat i"
  by (auto simp: read_at_def)

lemma write_at_Some_iff:
  "write_at xs i x = Some ys \<longleftrightarrow> 0 \<le> i \<and> i < int (length xs) \<and> ys = xs[nat i := x]"
  by (auto simp: write_at_def)

lemma uint_less_int: "uint i < int n \<longleftrightarrow> unat i < n"
  unfolding uint_nat by (rule of_nat_less_iff)

lemma array_word:
  "read_at xs (uint i) = (if unat i < length xs then Some (xs ! unat i) else None)"
  "write_at xs (uint i) x = (if unat i < length xs then Some (xs[unat i := x]) else None)"
  by (simp_all add: read_at_def write_at_def uint_less_int)

text \<open>A signed 32-bit result that does not fit is undefined behaviour.\<close>

definition INT_MAX :: int where "INT_MAX = 2 ^ 31 - 1"

definition int32_ok :: "int \<Rightarrow> bool" where
  "int32_ok i \<longleftrightarrow> - (2 ^ 31) \<le> i \<and> i < 2 ^ 31"


subsection \<open>Lists\<close>

lemma takeWhile_dropWhile_hd:
  "xs \<noteq> [] \<Longrightarrow> P (hd xs) \<Longrightarrow> length (dropWhile P xs) < length xs"
  by (cases xs) (simp_all add: le_imp_less_Suc length_dropWhile_le)

lemma sorted_wrt_takeWhile: "sorted_wrt R xs \<Longrightarrow> sorted_wrt R (takeWhile P xs)"
  by (metis sorted_wrt_append takeWhile_dropWhile_id)

lemma sorted_wrt_dropWhile: "sorted_wrt R xs \<Longrightarrow> sorted_wrt R (dropWhile P xs)"
  by (metis sorted_wrt_append takeWhile_dropWhile_id)

lemma sorted_wrt_remove1: "sorted_wrt R xs \<Longrightarrow> sorted_wrt R (remove1 x xs)"
  by (induction xs) (use set_remove1_subset in fastforce)+

lemma list_eq_take_nth_drop: "i < length xs \<Longrightarrow> xs = take i xs @ xs ! i # drop (Suc i) xs"
  by (rule id_take_nth_drop)

lemma sum_list_update_nat:
  "i < length xs \<Longrightarrow> sum_list (map f (xs[i := x])) + f (xs ! i) = sum_list (map f xs) + (f x :: nat)"
  by (induction xs arbitrary: i) (auto split: nat.splits)

end
