(* ===== verification/Region.thy ===== *)
theory Region
  imports Prelude
begin

text \<open>
  \<^verbatim>\<open>server/region.c\<close>: regions of the screen as arrays of rectangles in y-x-banded order.
  A \<^verbatim>\<open>struct region\<close> is the record \<open>region\<close>; its \<open>rects\<close> list holds the
  \<^verbatim>\<open>num_rects\<close> rectangles in use and \<open>rgn_size\<close> the allocated size of the array.
  Pointers into a source array (\<^verbatim>\<open>r1\<close>, \<^verbatim>\<open>r1BandEnd\<close>) are the suffixes of its list
  they point at, a pair of pointers is the list between them.  The public functions work
  on region pointers, which may alias: they act on a heap of regions.
\<close>

subsection \<open>Data\<close>

record rectangle =
  rleft :: int
  rtop :: int
  rright :: int
  rbottom :: int

record region =
  rgn_size :: nat
  rects :: "rectangle list"
  extents :: rectangle

definition num_rects :: "region \<Rightarrow> nat" where
  "num_rects reg = length (rects reg)"

definition RGN_DEFAULT_RECTS :: nat where "RGN_DEFAULT_RECTS = 2"

definition empty_rect :: rectangle where
  "empty_rect = \<lparr>rleft = 0, rtop = 0, rright = 0, rbottom = 0\<rparr>"

definition EXTENTCHECK :: "rectangle \<Rightarrow> rectangle \<Rightarrow> bool" where
  "EXTENTCHECK r1 r2 \<longleftrightarrow> rright r1 > rleft r2 \<and> rleft r1 < rright r2 \<and>
                         rbottom r1 > rtop r2 \<and> rtop r1 < rbottom r2"

type_synonym 'a rgn_result = "((bool \<times> region) \<times> 'a env_scheme) option"

type_synonym 'a overlap_func =
  "region \<Rightarrow> rectangle list \<Rightarrow> rectangle list \<Rightarrow> int \<Rightarrow> int \<Rightarrow> 'a env_scheme \<Rightarrow> 'a rgn_result"

type_synonym 'a non_overlap_func =
  "region \<Rightarrow> rectangle list \<Rightarrow> int \<Rightarrow> int \<Rightarrow> 'a env_scheme \<Rightarrow> 'a rgn_result"

subsection \<open>Building blocks\<close>

text \<open>
  \<^verbatim>\<open>add_rect\<close> returns the next free slot, which its callers fill at once: the rectangle
  they store is an argument here.  Storing beyond the allocated array is undefined.
\<close>

definition add_rect :: "region \<Rightarrow> rectangle \<Rightarrow> 'a env_scheme \<Rightarrow> 'a rgn_result" where
  "add_rect reg rect s =
     do { (ok, reg, s) \<leftarrow>
            (if int (num_rects reg) \<ge> int (rgn_size reg) - 1
             then (case malloc s of (new_rect, s) \<Rightarrow>
                     if \<not> new_rect then Some (False, reg, set_error STATUS_NO_MEMORY s)
                     else Some (True, reg\<lparr>rgn_size := 2 * rgn_size reg\<rparr>, s))
             else Some (True, reg, s));
          if \<not> ok then Some ((False, reg), s)
          else if num_rects reg < rgn_size reg
          then Some ((True, reg\<lparr>rects := rects reg @ [rect]\<rparr>), s)
          else None }"

fun validate_rectangles :: "rectangle list \<Rightarrow> bool" where
  "validate_rectangles [] = True"
| "validate_rectangles [p] = (\<not> (rleft p \<ge> rright p \<or> rtop p \<ge> rbottom p))"
| "validate_rectangles (p # q # rs) =
     (if rleft p \<ge> rright p \<or> rtop p \<ge> rbottom p then False
      else if rtop p = rtop q then
        (if rbottom p \<noteq> rbottom q then False
         else if rright p \<ge> rleft q then False
         else validate_rectangles (q # rs))
      else (if rbottom p > rtop q then False else validate_rectangles (q # rs)))"

text \<open>
  The rectangles at \<open>prevStart\<close> and \<open>curStart\<close> are the previous and the current band; when
  the current band continues the previous one, the two are merged.  The result is the
  region and the index the caller uses as the previous band from then on.
\<close>

definition coalesce_region :: "region \<Rightarrow> nat \<Rightarrow> nat \<Rightarrow> region \<times> nat" where
  "coalesce_region pReg prevStart curStart =
     (let rs = rects pReg;
          prevNumRects = curStart - prevStart;
          bandtop = rtop (rs ! curStart);
          curNumRects = length (takeWhile (\<lambda>r. rtop r = bandtop) (drop curStart rs));
          pCurRect = curStart + curNumRects;
          lastBand = length rs - length (takeWhile (\<lambda>r. rtop r = rtop (last rs)) (rev rs));
          newStart = (if pCurRect \<noteq> length rs then lastBand else curStart);
          prevRects = take prevNumRects (drop prevStart rs);
          curRects = take curNumRects (drop curStart rs)
      in if curNumRects = prevNumRects \<and> curNumRects \<noteq> 0 \<and>
            rbottom (rs ! prevStart) = rtop (rs ! curStart)
         then (if list_ex (\<lambda>(p, c). rleft p \<noteq> rleft c \<or> rright p \<noteq> rright c) (zip prevRects curRects)
               then (pReg, newStart)
               else (pReg\<lparr>rects := take prevStart rs
                            @ map (\<lambda>(p, c). p\<lparr>rbottom := rbottom c\<rparr>) (zip prevRects curRects)
                            @ drop pCurRect rs\<rparr>,
                     if pCurRect = length rs then prevStart else newStart))
         else (pReg, newStart))"

definition BandEnd :: "rectangle list \<Rightarrow> rectangle list" where
  "BandEnd r = dropWhile (\<lambda>q. rtop q = rtop (hd r)) r"

definition Band :: "rectangle list \<Rightarrow> rectangle list" where
  "Band r = takeWhile (\<lambda>q. rtop q = rtop (hd r)) r"

lemma Band_BandEnd: "Band r @ BandEnd r = r"
  by (simp add: Band_def BandEnd_def)

lemma length_BandEnd: "r \<noteq> [] \<Longrightarrow> length (BandEnd r) < length r"
  by (simp add: BandEnd_def takeWhile_dropWhile_hd)

lemma length_BandEnd_le: "length (BandEnd r) \<le> length r"
  by (simp add: BandEnd_def length_dropWhile_le)

subsection \<open>The band-by-band loop\<close>

text \<open>
  The do-while loop of \<^verbatim>\<open>region_op\<close>, with \<open>None\<close> for a NULL non-overlap function.  It
  returns the variables the code after the loop reads.
\<close>

definition opt_band :: "'a non_overlap_func option \<Rightarrow> region \<Rightarrow> rectangle list \<Rightarrow> int \<Rightarrow> int
    \<Rightarrow> 'a env_scheme \<Rightarrow> 'a rgn_result" where
  "opt_band f reg r t b s =
     (case f of Some g \<Rightarrow> if t \<noteq> b then g reg r t b s else Some ((True, reg), s)
              | None \<Rightarrow> Some ((True, reg), s))"

definition coalesce_if :: "region \<Rightarrow> nat \<Rightarrow> nat \<Rightarrow> region \<times> nat" where
  "coalesce_if newReg prevBand curBand =
     (if num_rects newReg \<noteq> curBand then coalesce_region newReg prevBand curBand
      else (newReg, prevBand))"

definition region_op_step :: "'a overlap_func \<Rightarrow> 'a non_overlap_func option \<Rightarrow> 'a non_overlap_func option
    \<Rightarrow> region \<Rightarrow> nat \<Rightarrow> int \<Rightarrow> rectangle list \<Rightarrow> rectangle list \<Rightarrow> 'a env_scheme
    \<Rightarrow> ((bool \<times> region \<times> nat) \<times> 'a env_scheme) option" where
  "region_op_step overlap non_overlap1 non_overlap2 newReg prevBand ybot r1 r2 s =
     (let p1 = hd r1; p2 = hd r2; curBand = num_rects newReg;
          ytop = (if rtop p1 < rtop p2 then rtop p2
                  else if rtop p2 < rtop p1 then rtop p1 else rtop p1)
      in do {
        ((ok, newReg), s) \<leftarrow>
          (if rtop p1 < rtop p2
           then opt_band non_overlap1 newReg (Band r1)
                  (max (rtop p1) ybot) (min (rbottom p1) (rtop p2)) s
           else if rtop p2 < rtop p1
           then opt_band non_overlap2 newReg (Band r2)
                  (max (rtop p2) ybot) (min (rbottom p2) (rtop p1)) s
           else Some ((True, newReg), s));
        if \<not> ok then Some ((False, newReg, prevBand), s) else do {
          let (newReg, prevBand) = coalesce_if newReg prevBand curBand;
          let ybot = min (rbottom p1) (rbottom p2);
          let curBand = num_rects newReg;
          ((ok, newReg), s) \<leftarrow>
            (if ybot > ytop then overlap newReg (Band r1) (Band r2) ytop ybot s
             else Some ((True, newReg), s));
          if \<not> ok then Some ((False, newReg, prevBand), s) else do {
            let (newReg, prevBand) = coalesce_if newReg prevBand curBand;
            Some ((True, newReg, prevBand), s) } } })"

function region_op_loop :: "'a overlap_func \<Rightarrow> 'a non_overlap_func option \<Rightarrow> 'a non_overlap_func option
    \<Rightarrow> region \<Rightarrow> nat \<Rightarrow> int \<Rightarrow> rectangle list \<Rightarrow> rectangle list \<Rightarrow> 'a env_scheme
    \<Rightarrow> ((bool \<times> region \<times> nat \<times> int \<times> rectangle list \<times> rectangle list) \<times> 'a env_scheme) option" where
  "region_op_loop overlap non_overlap1 non_overlap2 newReg prevBand ybot r1 r2 s =
     (if r1 = [] \<or> r2 = [] then None else
      let bottom1 = rbottom (hd r1); bottom2 = rbottom (hd r2); ynext = min bottom1 bottom2;
          r1' = (if bottom1 = ynext then BandEnd r1 else r1);
          r2' = (if bottom2 = ynext then BandEnd r2 else r2)
      in do {
        ((ok, newReg, prevBand), s) \<leftarrow>
           region_op_step overlap non_overlap1 non_overlap2 newReg prevBand ybot r1 r2 s;
        if \<not> ok then Some ((False, newReg, prevBand, ynext, r1, r2), s)
        else if r1' \<noteq> [] \<and> r2' \<noteq> []
        then region_op_loop overlap non_overlap1 non_overlap2 newReg prevBand ynext r1' r2' s
        else Some ((True, newReg, prevBand, ynext, r1', r2'), s) })"
  by pat_completeness auto
termination
proof (relation "measure (\<lambda>(ov, n1, n2, reg, pb, y, r1, r2, s). length r1 + length r2)", goal_cases)
  case 1
  then show ?case by simp
next
  case (2 ov n1 n2 reg pb y r1 r2 s)
  then show ?case
    using length_BandEnd [of r1] length_BandEnd [of r2] length_BandEnd_le [of r1]
      length_BandEnd_le [of r2]
    by (auto simp: min_def split: if_splits)
qed

declare region_op_loop.simps [simp del]

text \<open>The loops over what is left of one region after the other one has ended.\<close>

function region_op_tail :: "'a non_overlap_func \<Rightarrow> region \<Rightarrow> int \<Rightarrow> rectangle list \<Rightarrow> 'a env_scheme
    \<Rightarrow> 'a rgn_result" where
  "region_op_tail non_overlap newReg ybot r s =
     (if r = [] then Some ((True, newReg), s) else
      do { ((ok, newReg), s) \<leftarrow>
             non_overlap newReg (Band r) (max (rtop (hd r)) ybot) (rbottom (hd r)) s;
           if \<not> ok then Some ((False, newReg), s)
           else region_op_tail non_overlap newReg ybot (BandEnd r) s })"
  by pat_completeness auto
termination
  by (relation "measure (\<lambda>(f, reg, y, r, s). length r)") (auto simp: length_BandEnd)

declare region_op_tail.simps [simp del]

definition region_op :: "region \<Rightarrow> region \<Rightarrow> region \<Rightarrow> 'a overlap_func
    \<Rightarrow> 'a non_overlap_func option \<Rightarrow> 'a non_overlap_func option \<Rightarrow> 'a env_scheme \<Rightarrow> 'a rgn_result" where
  "region_op newReg reg1 reg2 overlap non_overlap1 non_overlap2 s =
     (let new_size = max (num_rects reg1) (num_rects reg2) * 2 in
      case mem_alloc s of (new_rects, s) \<Rightarrow>
      if \<not> new_rects then Some ((False, newReg), s) else
      let newReg = newReg\<lparr>rgn_size := new_size, rects := []\<rparr>;
          ybot = (if rtop (extents reg1) < rtop (extents reg2) then rtop (extents reg1)
                  else rtop (extents reg2))
      in do {
        ((ok, newReg, prevBand, ybot, r1, r2), s) \<leftarrow>
           region_op_loop overlap non_overlap1 non_overlap2 newReg 0 ybot (rects reg1) (rects reg2) s;
        if \<not> ok then Some ((False, newReg), s) else do {
          let curBand = num_rects newReg;
          ((ok, newReg), s) \<leftarrow>
            (if r1 \<noteq> [] then (case non_overlap1 of Some f \<Rightarrow> region_op_tail f newReg ybot r1 s
                                               | None \<Rightarrow> Some ((True, newReg), s))
             else if r2 \<noteq> [] then (case non_overlap2 of Some f \<Rightarrow> region_op_tail f newReg ybot r2 s
                                                    | None \<Rightarrow> Some ((True, newReg), s))
             else Some ((True, newReg), s));
          if \<not> ok then Some ((False, newReg), s) else do {
            let newReg = fst (coalesce_if newReg prevBand curBand);
            if num_rects newReg < rgn_size newReg div 2 \<and> rgn_size newReg > 2
            then (case malloc s of (new_rects, s) \<Rightarrow>
                    if new_rects
                    then Some ((True, newReg\<lparr>rgn_size := max (num_rects newReg) RGN_DEFAULT_RECTS\<rparr>), s)
                    else Some ((True, newReg), s))
            else Some ((True, newReg), s) } } })"

definition set_region_extents :: "region \<Rightarrow> region" where
  "set_region_extents reg =
     (if num_rects reg = 0 then reg\<lparr>extents := empty_rect\<rparr>
      else let p = hd (rects reg); pEnd = last (rects reg);
               ext = \<lparr>rleft = rleft p, rtop = rtop p, rright = rright pEnd, rbottom = rbottom pEnd\<rparr>
           in reg\<lparr>extents := fold (\<lambda>r e.
                let e = (if rleft r < rleft e then e\<lparr>rleft := rleft r\<rparr> else e)
                in if rright r > rright e then e\<lparr>rright := rright r\<rparr> else e) (rects reg) ext\<rparr>)"

subsection \<open>The functions called for each band\<close>

fun intersect_overlapping :: "region \<Rightarrow> rectangle list \<Rightarrow> rectangle list \<Rightarrow> int \<Rightarrow> int
    \<Rightarrow> 'a env_scheme \<Rightarrow> 'a rgn_result" where
  "intersect_overlapping pReg (r1 # r1s) (r2 # r2s) btop bbot s =
     (let left = max (rleft r1) (rleft r2); right = min (rright r1) (rright r2) in
      do { ((ok, pReg), s) \<leftarrow>
             (if left < right
              then add_rect pReg \<lparr>rleft = left, rtop = btop, rright = right, rbottom = bbot\<rparr> s
              else Some ((True, pReg), s));
           if \<not> ok then Some ((False, pReg), s)
           else if rright r1 < rright r2
           then intersect_overlapping pReg r1s (r2 # r2s) btop bbot s
           else if rright r2 < rright r1
           then intersect_overlapping pReg (r1 # r1s) r2s btop bbot s
           else intersect_overlapping pReg r1s r2s btop bbot s })"
| "intersect_overlapping pReg _ _ btop bbot s = Some ((True, pReg), s)"

fun subtract_non_overlapping :: "region \<Rightarrow> rectangle list \<Rightarrow> int \<Rightarrow> int
    \<Rightarrow> 'a env_scheme \<Rightarrow> 'a rgn_result" where
  "subtract_non_overlapping pReg [] btop bbot s = Some ((True, pReg), s)"
| "subtract_non_overlapping pReg (r # rs) btop bbot s =
     do { ((ok, pReg), s) \<leftarrow>
            add_rect pReg \<lparr>rleft = rleft r, rtop = btop, rright = rright r, rbottom = bbot\<rparr> s;
          if \<not> ok then Some ((False, pReg), s)
          else subtract_non_overlapping pReg rs btop bbot s }"

text \<open>
  \<open>left\<close> is the variable of the same name: everything of \<open>r1\<close> to its left is done.  In its
  last branch the loop reads \<^verbatim>\<open>r1->left\<close> even when \<^verbatim>\<open>r1\<close> has reached \<^verbatim>\<open>r1End\<close>; the
  value read there is never used, since the loop and the one after it end at once, and
  the model keeps the old one.
\<close>

definition next_left :: "rectangle list \<Rightarrow> int \<Rightarrow> int" where
  "next_left r left = (case r of [] \<Rightarrow> left | q # _ \<Rightarrow> rleft q)"

fun subtract_rest :: "region \<Rightarrow> rectangle list \<Rightarrow> int \<Rightarrow> int \<Rightarrow> int
    \<Rightarrow> 'a env_scheme \<Rightarrow> 'a rgn_result" where
  "subtract_rest pReg [] left btop bbot s = Some ((True, pReg), s)"
| "subtract_rest pReg (r1 # r1s) left btop bbot s =
     do { ((ok, pReg), s) \<leftarrow>
            add_rect pReg \<lparr>rleft = left, rtop = btop, rright = rright r1, rbottom = bbot\<rparr> s;
          if \<not> ok then Some ((False, pReg), s)
          else subtract_rest pReg r1s (next_left r1s left) btop bbot s }"

fun subtract_loop :: "region \<Rightarrow> rectangle list \<Rightarrow> rectangle list \<Rightarrow> int \<Rightarrow> int \<Rightarrow> int
    \<Rightarrow> 'a env_scheme \<Rightarrow> 'a rgn_result" where
  "subtract_loop pReg (r1 # r1s) (r2 # r2s) left btop bbot s =
     (if rright r2 \<le> left then subtract_loop pReg (r1 # r1s) r2s left btop bbot s
      else if rleft r2 \<le> left then
        (let left = rright r2 in
         if left \<ge> rright r1
         then subtract_loop pReg r1s (r2 # r2s) (next_left r1s left) btop bbot s
         else subtract_loop pReg (r1 # r1s) r2s left btop bbot s)
      else if rleft r2 < rright r1 then
        do { ((ok, pReg), s) \<leftarrow>
               add_rect pReg \<lparr>rleft = left, rtop = btop, rright = rleft r2, rbottom = bbot\<rparr> s;
             if \<not> ok then Some ((False, pReg), s) else
             let left = rright r2 in
             if left \<ge> rright r1
             then subtract_loop pReg r1s (r2 # r2s) (next_left r1s left) btop bbot s
             else subtract_loop pReg (r1 # r1s) r2s left btop bbot s }
      else
        do { ((ok, pReg), s) \<leftarrow>
               (if rright r1 > left
                then add_rect pReg \<lparr>rleft = left, rtop = btop, rright = rright r1, rbottom = bbot\<rparr> s
                else Some ((True, pReg), s));
             if \<not> ok then Some ((False, pReg), s)
             else subtract_loop pReg r1s (r2 # r2s) (next_left r1s left) btop bbot s })"
| "subtract_loop pReg r1 _ left btop bbot s = subtract_rest pReg r1 left btop bbot s"

text \<open>The first read of \<^verbatim>\<open>r1->left\<close> is outside the loops: \<open>r1\<close> must not be empty.\<close>

definition subtract_overlapping :: "region \<Rightarrow> rectangle list \<Rightarrow> rectangle list \<Rightarrow> int \<Rightarrow> int
    \<Rightarrow> 'a env_scheme \<Rightarrow> 'a rgn_result" where
  "subtract_overlapping pReg r1 r2 btop bbot s =
     (case r1 of [] \<Rightarrow> None
      | q # _ \<Rightarrow> subtract_loop pReg r1 r2 (rleft q) btop bbot s)"

fun union_non_overlapping :: "region \<Rightarrow> rectangle list \<Rightarrow> int \<Rightarrow> int
    \<Rightarrow> 'a env_scheme \<Rightarrow> 'a rgn_result" where
  "union_non_overlapping pReg [] btop bbot s = Some ((True, pReg), s)"
| "union_non_overlapping pReg (r # rs) btop bbot s =
     do { ((ok, pReg), s) \<leftarrow>
            add_rect pReg \<lparr>rleft = rleft r, rtop = btop, rright = rright r, rbottom = bbot\<rparr> s;
          if \<not> ok then Some ((False, pReg), s)
          else union_non_overlapping pReg rs btop bbot s }"

text \<open>The macro \<^verbatim>\<open>MERGERECT\<close>, without its final \<^verbatim>\<open>r++\<close>.\<close>

definition MERGERECT :: "region \<Rightarrow> rectangle \<Rightarrow> int \<Rightarrow> int \<Rightarrow> 'a env_scheme \<Rightarrow> 'a rgn_result" where
  "MERGERECT pReg r btop bbot s =
     (let q = last (rects pReg) in
      if num_rects pReg \<noteq> 0 \<and> rtop q = btop \<and> rbottom q = bbot \<and> rright q \<ge> rleft r
      then (if rright q < rright r
            then Some ((True, pReg\<lparr>rects := butlast (rects pReg) @ [q\<lparr>rright := rright r\<rparr>]\<rparr>), s)
            else Some ((True, pReg), s))
      else add_rect pReg \<lparr>rleft = rleft r, rtop = btop, rright = rright r, rbottom = bbot\<rparr> s)"

fun union_overlapping :: "region \<Rightarrow> rectangle list \<Rightarrow> rectangle list \<Rightarrow> int \<Rightarrow> int
    \<Rightarrow> 'a env_scheme \<Rightarrow> 'a rgn_result" where
  "union_overlapping pReg (r1 # r1s) (r2 # r2s) btop bbot s =
     (if rleft r1 < rleft r2
      then do { ((ok, pReg), s) \<leftarrow> MERGERECT pReg r1 btop bbot s;
                if \<not> ok then Some ((False, pReg), s)
                else union_overlapping pReg r1s (r2 # r2s) btop bbot s }
      else do { ((ok, pReg), s) \<leftarrow> MERGERECT pReg r2 btop bbot s;
                if \<not> ok then Some ((False, pReg), s)
                else union_overlapping pReg (r1 # r1s) r2s btop bbot s })"
| "union_overlapping pReg (r1 # r1s) [] btop bbot s =
     do { ((ok, pReg), s) \<leftarrow> MERGERECT pReg r1 btop bbot s;
          if \<not> ok then Some ((False, pReg), s)
          else union_overlapping pReg r1s [] btop bbot s }"
| "union_overlapping pReg [] (r2 # r2s) btop bbot s =
     do { ((ok, pReg), s) \<leftarrow> MERGERECT pReg r2 btop bbot s;
          if \<not> ok then Some ((False, pReg), s)
          else union_overlapping pReg [] r2s btop bbot s }"
| "union_overlapping pReg [] [] btop bbot s = Some ((True, pReg), s)"

subsection \<open>The public functions, on region pointers\<close>

record region_env = env +
  regions :: "nat \<Rightarrow> region option"
  next_region :: nat

definition rgn_upd :: "nat \<Rightarrow> region \<Rightarrow> 'a region_env_scheme \<Rightarrow> 'a region_env_scheme" where
  "rgn_upd p reg s = s\<lparr>regions := (regions s)(p \<mapsto> reg)\<rparr>"

definition create_empty_region :: "'a region_env_scheme \<Rightarrow> nat option \<times> 'a region_env_scheme" where
  "create_empty_region s =
     (case mem_alloc s of (region, s) \<Rightarrow> if \<not> region then (None, s) else
      case mem_alloc s of (rs, s) \<Rightarrow> if \<not> rs then (None, s) else
      let p = next_region s in
      (Some p, (rgn_upd p \<lparr>rgn_size = RGN_DEFAULT_RECTS, rects = [], extents = empty_rect\<rparr> s)
                 \<lparr>next_region := Suc p\<rparr>))"

text \<open>The request data is an array of rectangles.\<close>

definition create_region_from_req_data :: "rectangle list \<Rightarrow> 'a region_env_scheme
    \<Rightarrow> nat option \<times> 'a region_env_scheme" where
  "create_region_from_req_data data s =
     (let rs = (if length data = 1 \<and> hd data = empty_rect then [] else data) in
      if \<not> validate_rectangles rs then (None, set_error STATUS_INVALID_PARAMETER s) else
      case mem_alloc s of (region, s) \<Rightarrow> if \<not> region then (None, s) else
      let alloc_rects = max (length rs) RGN_DEFAULT_RECTS in
      case mem_alloc s of (new_rects, s) \<Rightarrow> if \<not> new_rects then (None, s) else
      let p = next_region s in
      (Some p, (rgn_upd p (set_region_extents
                  \<lparr>rgn_size = alloc_rects, rects = rs, extents = empty_rect\<rparr>) s)
                 \<lparr>next_region := Suc p\<rparr>))"

definition free_region :: "nat \<Rightarrow> 'a region_env_scheme \<Rightarrow> 'a region_env_scheme option" where
  "free_region p s = do { _ \<leftarrow> regions s p; Some (s\<lparr>regions := (regions s)(p := None)\<rparr>) }"

definition set_region_rect :: "nat \<Rightarrow> rectangle \<Rightarrow> 'a region_env_scheme \<Rightarrow> 'a region_env_scheme option" where
  "set_region_rect p rect s =
     do { region \<leftarrow> regions s p;
          if rleft rect < rright rect \<and> rtop rect < rbottom rect
          then (if 0 < rgn_size region
                then Some (rgn_upd p (region\<lparr>rects := [rect], extents := rect\<rparr>) s) else None)
          else Some (rgn_upd p (region\<lparr>rects := [], extents := empty_rect\<rparr>) s) }"

text \<open>The size of a \<^verbatim>\<open>rectangle_t\<close> in bytes.  The result is the data and the total size.\<close>

definition sizeof_rectangle :: nat where "sizeof_rectangle = 16"

definition get_region_data :: "nat \<Rightarrow> nat \<Rightarrow> 'a region_env_scheme
    \<Rightarrow> ((rectangle list option \<times> nat) \<times> 'a region_env_scheme) option" where
  "get_region_data p max_size s =
     do { region \<leftarrow> regions s p;
          let total = num_rects region * sizeof_rectangle;
          let (total_size, data) = (if total = 0 then (sizeof_rectangle, [empty_rect])
                                    else (total, rects region));
          if max_size \<ge> total_size
          then (case memdup data s of (d, s) \<Rightarrow> Some ((d, total_size), s))
          else Some ((None, total_size), set_error STATUS_BUFFER_OVERFLOW s) }"

definition get_region_data_and_free :: "nat \<Rightarrow> nat \<Rightarrow> 'a region_env_scheme
    \<Rightarrow> ((rectangle list option \<times> nat) \<times> 'a region_env_scheme) option" where
  "get_region_data_and_free p max_size s =
     do { region \<leftarrow> regions s p;
          let total = num_rects region * sizeof_rectangle;
          ((ret, total_size), s) \<leftarrow>
            (if total = 0
             then (if max_size \<ge> sizeof_rectangle
                   then (case memdup [empty_rect] s of (d, s) \<Rightarrow> Some ((d, sizeof_rectangle), s))
                   else Some ((Some (rects region), sizeof_rectangle), s))
             else Some ((Some (rects region), total), s));
          let (ret, s) = (if max_size < total_size
                          then (None, set_error STATUS_BUFFER_OVERFLOW s) else (ret, s));
          s \<leftarrow> free_region p s;
          Some ((ret, total_size), s) }"

definition is_region_empty :: "nat \<Rightarrow> 'a region_env_scheme \<Rightarrow> bool option" where
  "is_region_empty p s = do { region \<leftarrow> regions s p; Some (num_rects region = 0) }"

definition get_region_extents :: "nat \<Rightarrow> 'a region_env_scheme \<Rightarrow> rectangle option" where
  "get_region_extents p s = do { region \<leftarrow> regions s p; Some (extents region) }"

definition offset_rect :: "int \<Rightarrow> int \<Rightarrow> rectangle \<Rightarrow> rectangle" where
  "offset_rect x y r = \<lparr>rleft = rleft r + x, rtop = rtop r + y,
                        rright = rright r + x, rbottom = rbottom r + y\<rparr>"

definition rect_int32 :: "rectangle \<Rightarrow> bool" where
  "rect_int32 r \<longleftrightarrow> int32_ok (rleft r) \<and> int32_ok (rtop r) \<and> int32_ok (rright r) \<and> int32_ok (rbottom r)"

definition offset_region :: "nat \<Rightarrow> int \<Rightarrow> int \<Rightarrow> 'a region_env_scheme \<Rightarrow> 'a region_env_scheme option" where
  "offset_region p x y s =
     do { region \<leftarrow> regions s p;
          if num_rects region = 0 then Some s else
          let rs = map (offset_rect x y) (rects region); ext = offset_rect x y (extents region)
          in if list_all rect_int32 (ext # rs)
             then Some (rgn_upd p (region\<lparr>rects := rs, extents := ext\<rparr>) s)
             else None }"

definition copy_region :: "nat \<Rightarrow> nat \<Rightarrow> 'a region_env_scheme
    \<Rightarrow> (nat option \<times> 'a region_env_scheme) option" where
  "copy_region dst src s =
     (if dst = src then Some (Some dst, s) else
      do { d \<leftarrow> regions s dst;
           sr \<leftarrow> regions s src;
           (ok, d, s) \<leftarrow>
             (if rgn_size d < num_rects sr
              then (case malloc s of (rect, s) \<Rightarrow>
                      if \<not> rect then Some (False, d, set_error STATUS_NO_MEMORY s)
                      else Some (True, d\<lparr>rgn_size := num_rects sr\<rparr>, s))
              else Some (True, d, s));
           if \<not> ok then Some (None, s)
           else Some (Some dst, rgn_upd dst (d\<lparr>rects := rects sr, extents := extents sr\<rparr>) s) })"

definition intersect_region :: "nat \<Rightarrow> nat \<Rightarrow> nat \<Rightarrow> 'a region_env_scheme
    \<Rightarrow> (nat option \<times> 'a region_env_scheme) option" where
  "intersect_region dst src1 src2 s =
     do { d \<leftarrow> regions s dst; s1 \<leftarrow> regions s src1; s2 \<leftarrow> regions s src2;
          if num_rects s1 = 0 \<or> num_rects s2 = 0 \<or> \<not> EXTENTCHECK (extents s1) (extents s2)
          then Some (Some dst, rgn_upd dst (d\<lparr>rects := [], extents := empty_rect\<rparr>) s)
          else do {
            ((ok, d), s) \<leftarrow> region_op d s1 s2 intersect_overlapping None None s;
            let s = rgn_upd dst d s;
            if \<not> ok then Some (None, s)
            else Some (Some dst, rgn_upd dst (set_region_extents d) s) } }"

definition subtract_region :: "nat \<Rightarrow> nat \<Rightarrow> nat \<Rightarrow> 'a region_env_scheme
    \<Rightarrow> (nat option \<times> 'a region_env_scheme) option" where
  "subtract_region dst src1 src2 s =
     do { d \<leftarrow> regions s dst; s1 \<leftarrow> regions s src1; s2 \<leftarrow> regions s src2;
          if num_rects s1 = 0 \<or> num_rects s2 = 0 \<or> \<not> EXTENTCHECK (extents s1) (extents s2)
          then copy_region dst src1 s
          else do {
            ((ok, d), s) \<leftarrow> region_op d s1 s2 subtract_overlapping (Some subtract_non_overlapping) None s;
            let s = rgn_upd dst d s;
            if \<not> ok then Some (None, s)
            else Some (Some dst, rgn_upd dst (set_region_extents d) s) } }"

definition extents_cover :: "rectangle \<Rightarrow> rectangle \<Rightarrow> bool" where
  "extents_cover e1 e2 \<longleftrightarrow> rleft e1 \<le> rleft e2 \<and> rtop e1 \<le> rtop e2 \<and>
                           rright e1 \<ge> rright e2 \<and> rbottom e1 \<ge> rbottom e2"

definition union_region :: "nat \<Rightarrow> nat \<Rightarrow> nat \<Rightarrow> 'a region_env_scheme
    \<Rightarrow> (nat option \<times> 'a region_env_scheme) option" where
  "union_region dst src1 src2 s =
     (if src1 = src2 then copy_region dst src1 s else
      do { d \<leftarrow> regions s dst; s1 \<leftarrow> regions s src1; s2 \<leftarrow> regions s src2;
           if num_rects s1 = 0 then copy_region dst src2 s
           else if num_rects s2 = 0 then copy_region dst src1 s
           else if num_rects s1 = 1 \<and> extents_cover (extents s1) (extents s2)
           then copy_region dst src1 s
           else if num_rects s2 = 1 \<and> extents_cover (extents s2) (extents s1)
           then copy_region dst src2 s
           else do {
             ((ok, d), s) \<leftarrow> region_op d s1 s2 union_overlapping
                (Some union_non_overlapping) (Some union_non_overlapping) s;
             let s = rgn_upd dst d s;
             if \<not> ok then Some (None, s)
             else Some (Some dst, rgn_upd dst (d\<lparr>extents :=
               \<lparr>rleft = min (rleft (extents s1)) (rleft (extents s2)),
                rtop = min (rtop (extents s1)) (rtop (extents s2)),
                rright = max (rright (extents s1)) (rright (extents s2)),
                rbottom = max (rbottom (extents s1)) (rbottom (extents s2))\<rparr>\<rparr>) s) } })"

definition xor_region :: "nat \<Rightarrow> nat \<Rightarrow> nat \<Rightarrow> 'a region_env_scheme
    \<Rightarrow> (nat option \<times> 'a region_env_scheme) option" where
  "xor_region dst src1 src2 s =
     (case create_empty_region s of (tmp, s) \<Rightarrow>
      case tmp of None \<Rightarrow> Some (None, s)
      | Some t \<Rightarrow> do {
          (a, s) \<leftarrow> subtract_region t src1 src2 s;
          (ret, s) \<leftarrow>
            (if a = None then Some (None, s) else do {
               (b, s) \<leftarrow> subtract_region dst src2 src1 s;
               if b = None then Some (None, s) else do {
                 (c, s) \<leftarrow> union_region dst dst t s;
                 if c = None then Some (None, s) else Some (Some dst, s) } });
          s \<leftarrow> free_region t s;
          Some (ret, s) })"

fun point_in_rects :: "rectangle list \<Rightarrow> int \<Rightarrow> int \<Rightarrow> bool" where
  "point_in_rects [] x y = False"
| "point_in_rects (p # ps) x y =
     (if rtop p > y then False
      else if rbottom p \<le> y then point_in_rects ps x y
      else if rleft p > x then False
      else if rright p \<le> x then point_in_rects ps x y
      else True)"

definition point_in_region :: "nat \<Rightarrow> int \<Rightarrow> int \<Rightarrow> 'a region_env_scheme \<Rightarrow> bool option" where
  "point_in_region p x y s = do { region \<leftarrow> regions s p; Some (point_in_rects (rects region) x y) }"

fun rect_in_rects :: "rectangle list \<Rightarrow> rectangle \<Rightarrow> bool" where
  "rect_in_rects [] rect = False"
| "rect_in_rects (p # ps) rect =
     (if rtop p \<ge> rbottom rect then False
      else if rbottom p \<le> rtop rect then rect_in_rects ps rect
      else if rleft p \<ge> rright rect then rect_in_rects ps rect
      else if rright p \<le> rleft rect then rect_in_rects ps rect
      else True)"

definition rect_in_region :: "nat \<Rightarrow> rectangle \<Rightarrow> 'a region_env_scheme \<Rightarrow> bool option" where
  "rect_in_region p rect s = do { region \<leftarrow> regions s p; Some (rect_in_rects (rects region) rect) }"

end
