(* ===== verification/Region_Correct.thy ===== *)
theory Region_Correct
  imports Region
begin

text \<open>
  What the region operations compute: the set of points of the screen a region covers.
  The band functions share one contract (the locale \<open>banded_op\<close>), inside which
  \<^verbatim>\<open>region_op\<close> is proved once; intersection, difference and union interpret it.
\<close>

subsection \<open>Points, bands and well-formed regions\<close>

definition nonempty :: "rectangle \<Rightarrow> bool" where
  "nonempty r \<longleftrightarrow> rleft r < rright r \<and> rtop r < rbottom r"

definition before :: "rectangle \<Rightarrow> rectangle \<Rightarrow> bool" where
  "before a b \<longleftrightarrow> rtop a = rtop b \<and> rbottom a = rbottom b \<and> rright a < rleft b
                  \<or> rbottom a \<le> rtop b"

definition banded :: "rectangle list \<Rightarrow> bool" where
  "banded rs \<longleftrightarrow> (\<forall>r\<in>set rs. nonempty r) \<and> sorted_wrt before rs"

definition points :: "rectangle list \<Rightarrow> (int \<times> int) set" where
  "points rs = {(x, y). \<exists>r\<in>set rs. rleft r \<le> x \<and> x < rright r \<and> rtop r \<le> y \<and> y < rbottom r}"

definition columns :: "rectangle list \<Rightarrow> int set" where
  "columns rs = {x. \<exists>r\<in>set rs. rleft r \<le> x \<and> x < rright r}"

definition x_ordered :: "rectangle list \<Rightarrow> bool" where
  "x_ordered rs \<longleftrightarrow> (\<forall>r\<in>set rs. rleft r < rright r) \<and> sorted_wrt (\<lambda>a b. rright a < rleft b) rs"

definition is_band :: "int \<Rightarrow> int \<Rightarrow> rectangle list \<Rightarrow> bool" where
  "is_band t b rs \<longleftrightarrow> x_ordered rs \<and> (\<forall>r\<in>set rs. rtop r = t \<and> rbottom r = b)"

definition cap :: "region \<Rightarrow> bool" where
  "cap reg \<longleftrightarrow> num_rects reg \<le> rgn_size reg \<and> 2 \<le> rgn_size reg"

lemma points_Nil [simp]: "points [] = {}"
  and columns_Nil [simp]: "columns [] = {}"
  by (simp_all add: points_def columns_def)

lemma points_append [simp]: "points (xs @ ys) = points xs \<union> points ys"
  by (auto simp: points_def)

lemma points_Cons: "points (r # rs) = points [r] \<union> points rs"
  by (auto simp: points_def)

lemma columns_append [simp]: "columns (xs @ ys) = columns xs \<union> columns ys"
  by (auto simp: columns_def)

lemma mem_columns_Cons:
  "x \<in> columns (r # rs) \<longleftrightarrow> (rleft r \<le> x \<and> x < rright r) \<or> x \<in> columns rs"
  by (auto simp: columns_def)

lemma x_ordered_Nil [simp]: "x_ordered []"
  by (simp add: x_ordered_def)

lemma is_band_Nil [simp]: "is_band t b []"
  by (simp add: is_band_def)

lemma x_ordered_Cons:
  "x_ordered (r # rs) \<longleftrightarrow> rleft r < rright r \<and> (\<forall>q\<in>set rs. rright r < rleft q) \<and> x_ordered rs"
  by (auto simp: x_ordered_def)

lemma x_ordered_right: "x_ordered (r # rs) \<Longrightarrow> x \<in> columns rs \<Longrightarrow> rright r < x"
  by (auto simp: x_ordered_Cons columns_def)

lemma banded_append:
  "banded (xs @ ys) \<longleftrightarrow> banded xs \<and> banded ys \<and> (\<forall>a\<in>set xs. \<forall>b\<in>set ys. before a b)"
  by (auto simp: banded_def sorted_wrt_append)

lemma banded_Nil [simp]: "banded []"
  by (simp add: banded_def)

lemma is_band_banded: "is_band t b rs \<Longrightarrow> t < b \<Longrightarrow> banded rs"
  unfolding is_band_def x_ordered_def banded_def nonempty_def before_def
  by (auto intro: sorted_wrt_mono_rel [rotated])

lemma points_band: "is_band t b rs \<Longrightarrow> points rs = {(x, y). x \<in> columns rs \<and> t \<le> y \<and> y < b}"
  by (auto simp: is_band_def points_def columns_def)

lemma columns_empty_iff: "x_ordered rs \<Longrightarrow> columns rs = {} \<longleftrightarrow> rs = []"
  by (cases rs) (auto simp: x_ordered_Cons columns_def)

lemma banded_Band:
  assumes "banded r" "r \<noteq> []"
  shows "is_band (rtop (hd r)) (rbottom (hd r)) (Band r)" "Band r \<noteq> []"
    "\<forall>q\<in>set (BandEnd r). rbottom (hd r) \<le> rtop q" "banded (BandEnd r)"
proof -
  obtain p ps where r: "r = p # ps" using assms(2) by (cases r) auto
  have ord: "sorted_wrt before (Band r)" "\<forall>q\<in>set (Band r). nonempty q"
    using assms(1) by (auto simp: banded_def Band_def sorted_wrt_takeWhile dest: set_takeWhileD)
  have hd: "\<forall>q\<in>set (Band r). rtop q = rtop p" by (auto simp: r Band_def dest: set_takeWhileD)
  have bot: "rbottom q = rbottom p" if "q \<in> set (Band r)" for q
  proof (cases "q = p")
    case False
    then have "before p q" "nonempty p"
      using that assms(1) by (auto simp: r banded_def Band_def dest: set_takeWhileD split: if_splits)
    then show ?thesis using hd that by (auto simp: before_def nonempty_def)
  qed simp
  have "sorted_wrt (\<lambda>a b. rright a < rleft b) (Band r)"
    using ord(1)
  proof (rule sorted_wrt_mono_rel [rotated])
    fix a b assume "a \<in> set (Band r)" "b \<in> set (Band r)" "before a b"
    then show "rright a < rleft b" using hd bot ord(2) by (auto simp: before_def nonempty_def)
  qed
  then show "is_band (rtop (hd r)) (rbottom (hd r)) (Band r)"
    using hd bot ord(2) by (auto simp: r is_band_def x_ordered_def nonempty_def)
  show "Band r \<noteq> []" by (simp add: r Band_def)
  have sp: "banded (Band r @ BandEnd r)" using assms(1) by (simp add: Band_BandEnd)
  then show "banded (BandEnd r)" by (simp add: banded_append)
  have pin: "p \<in> set (Band r)" by (simp add: r Band_def)
  show "\<forall>q\<in>set (BandEnd r). rbottom (hd r) \<le> rtop q"
  proof (cases "BandEnd r")
    case (Cons e es)
    have ne: "rtop e \<noteq> rtop p" using Cons by (auto simp: r BandEnd_def dropWhile_eq_Cons_conv)
    have "before p e" using sp pin Cons by (auto simp: banded_append)
    then have pe: "rbottom p \<le> rtop e" using ne by (auto simp: before_def)
    have "rbottom p \<le> rtop q" if "q \<in> set es" for q
    proof -
      have "banded (e # es)" using sp Cons by (simp add: banded_append)
      then have "before e q" "nonempty e" using that by (auto simp: banded_def)
      then show ?thesis using pe by (auto simp: before_def nonempty_def)
    qed
    then show ?thesis using pe Cons by (auto simp: r)
  qed simp
qed

lemma points_first_band:
  assumes "banded r" "r \<noteq> []" "y < rbottom (hd r)"
  shows "(x, y) \<in> points r \<longleftrightarrow> rtop (hd r) \<le> y \<and> x \<in> columns (Band r)"
proof -
  have "(x, y) \<notin> points (BandEnd r)"
    using banded_Band(3) [OF assms(1,2)] assms(3) by (auto simp: points_def)
  moreover have "points r = points (Band r) \<union> points (BandEnd r)"
    by (metis points_append Band_BandEnd)
  ultimately show ?thesis
    using points_band [OF banded_Band(1) [OF assms(1,2)]] assms(3) by auto
qed

lemma points_after_band:
  assumes "banded r" "r \<noteq> []" "rbottom (hd r) \<le> y"
  shows "(x, y) \<in> points (BandEnd r) \<longleftrightarrow> (x, y) \<in> points r"
proof -
  have "points r = points (Band r) \<union> points (BandEnd r)"
    by (metis points_append Band_BandEnd)
  then show ?thesis
    using points_band [OF banded_Band(1) [OF assms(1,2)]] assms(3) by auto
qed

lemma banded_bottom_mono:
  assumes "banded r" "r \<noteq> []" "q \<in> set r"
  shows "rtop (hd r) \<le> rtop q \<and> rbottom (hd r) \<le> rbottom q"
  using assms by (cases r) (fastforce simp: banded_def before_def nonempty_def)+

lemma validate_rectangles_banded: "validate_rectangles rs \<longleftrightarrow> banded rs"
proof (induction rs rule: validate_rectangles.induct)
  case (2 p)
  then show ?case by (auto simp: banded_def nonempty_def)
next
  case (3 p q rs)
  have "before p r" if "before p q" "before q r" "nonempty q" for r
    using that by (auto simp: before_def nonempty_def)
  then have "banded (p # q # rs) \<longleftrightarrow> nonempty p \<and> before p q \<and> banded (q # rs)"
    by (auto simp: banded_def)
  with 3 show ?case by (auto simp: before_def nonempty_def)
qed simp


subsection \<open>Adding rectangles\<close>

text \<open>
  What a function that fills one band guarantees: it never runs outside the array, and
  if it succeeds it has appended the rectangles of one band that covers the columns
  \<open>S\<close> between \<open>t\<close> and \<open>b\<close>.
\<close>

definition extends :: "region \<Rightarrow> 'a env_scheme \<Rightarrow> 'a rgn_result \<Rightarrow> (rectangle list \<Rightarrow> bool) \<Rightarrow> bool" where
  "extends reg s res P \<longleftrightarrow>
     (case res of None \<Rightarrow> False
      | Some ((ok, reg'), s') \<Rightarrow> alloc_step ok s s' \<and> cap reg' \<and> extents reg' = extents reg \<and>
          (ok \<longrightarrow> (\<exists>B. rects reg' = rects reg @ B \<and> P B)))"

lemma extendsE:
  assumes "extends reg s res P"
  obtains ok reg' s' where "res = Some ((ok, reg'), s')" "alloc_step ok s s'" "cap reg'"
    "extents reg' = extents reg" "ok \<longrightarrow> (\<exists>B. rects reg' = rects reg @ B \<and> P B)"
  using assms unfolding extends_def by (auto split: option.splits prod.splits)

lemma extends_mono: "extends reg s res P \<Longrightarrow> (\<And>B. P B \<Longrightarrow> Q B) \<Longrightarrow> extends reg s res Q"
  unfolding extends_def by (auto split: option.splits)

lemma extends_none: "cap reg \<Longrightarrow> P [] \<Longrightarrow> extends reg s (Some ((True, reg), s)) P"
  by (simp add: extends_def)

lemma add_rect_extends: "cap reg \<Longrightarrow> extends reg s (add_rect reg r s) (\<lambda>B. B = [r])"
proof (cases "int (num_rects reg) \<ge> int (rgn_size reg) - 1")
  case True
  obtain b s1 where m: "malloc s = (b, s1)" by (cases "malloc s")
  assume "cap reg"
  with True m show ?thesis
    by (cases b) (auto simp: extends_def add_rect_def cap_def num_rects_def malloc_step malloc_no_memory_step)
next
  case False
  assume "cap reg"
  with False show ?thesis
    by (auto simp: extends_def add_rect_def cap_def num_rects_def)
qed

text \<open>Sequencing: the first part appends \<open>B1\<close>, the second \<open>B2\<close>.\<close>

lemma extends_bind:
  assumes "extends reg s res P"
    and "\<And>reg1 s1 B. rects reg1 = rects reg @ B \<Longrightarrow> P B \<Longrightarrow> cap reg1 \<Longrightarrow>
           extends reg1 s1 (f reg1 s1) (\<lambda>B'. Q (B @ B'))"
  shows "extends reg s (do { ((ok, reg1), s1) \<leftarrow> res;
                             if \<not> ok then Some ((False, reg1), s1) else f reg1 s1 }) Q"
proof -
  obtain ok reg1 s1 where 1: "res = Some ((ok, reg1), s1)" "alloc_step ok s s1" "cap reg1"
    "extents reg1 = extents reg" "ok \<longrightarrow> (\<exists>B. rects reg1 = rects reg @ B \<and> P B)"
    using assms(1) by (rule extendsE)
  show ?thesis
  proof (cases ok)
    case False
    then show ?thesis using 1(1-4) by (simp add: extends_def)
  next
    case True
    then obtain B where B: "rects reg1 = rects reg @ B" "P B" using 1(5) by blast
    obtain ok2 reg2 s2 where 2: "f reg1 s1 = Some ((ok2, reg2), s2)" "alloc_step ok2 s1 s2"
      "cap reg2" "extents reg2 = extents reg1" "ok2 \<longrightarrow> (\<exists>B'. rects reg2 = rects reg1 @ B' \<and> Q (B @ B'))"
      using assms(2) [OF B 1(3)] by (rule extendsE)
    have "alloc_step ok2 s s2" using 1(2) 2(2) True by (auto intro: alloc_step_trans)
    moreover have "\<exists>B'. rects reg2 = rects reg @ B' \<and> Q B'" if ok2
      using 2(5) that B(1) by auto
    ultimately show ?thesis using 1(1,4) 2(1,3,4) True by (simp add: extends_def)
  qed
qed

subsection \<open>Coalescing\<close>

text \<open>The band that ends the array starts at \<open>n\<close>.\<close>

definition last_band_at :: "region \<Rightarrow> nat \<Rightarrow> bool" where
  "last_band_at reg n \<longleftrightarrow> n \<le> num_rects reg \<and>
     (\<exists>t b. is_band t b (drop n (rects reg)) \<and> (\<forall>r\<in>set (take n (rects reg)). rbottom r \<le> t))"

definition same_cover :: "region \<Rightarrow> region \<Rightarrow> bool" where
  "same_cover reg reg' \<longleftrightarrow> points (rects reg') = points (rects reg) \<and> banded (rects reg') \<and>
     num_rects reg' \<le> num_rects reg \<and> rgn_size reg' = rgn_size reg \<and> extents reg' = extents reg \<and>
     (\<forall>M. (\<forall>r\<in>set (rects reg). rbottom r \<le> M) \<longrightarrow> (\<forall>r\<in>set (rects reg'). rbottom r \<le> M))"

lemma same_cover_refl: "banded (rects reg) \<Longrightarrow> same_cover reg reg"
  by (simp add: same_cover_def)

lemma takeWhile_band:
  assumes "is_band t b C" "\<forall>r\<in>set D. rtop r \<noteq> t"
  shows "takeWhile (\<lambda>r. rtop r = t) (C @ D) = C"
proof -
  have "\<forall>r\<in>set C. rtop r = t" using assms(1) by (simp add: is_band_def)
  moreover have "takeWhile (\<lambda>r. rtop r = t) D = []" using assms(2) by (cases D) auto
  ultimately show ?thesis by (simp add: takeWhile_append2)
qed

lemma zip_same_columns:
  assumes "length P = length C" "\<forall>c\<in>set C. rbottom c = b"
    and "\<not> list_ex (\<lambda>(p, c). rleft p \<noteq> rleft c \<or> rright p \<noteq> rright c) (zip P C)"
  shows "map (\<lambda>(p, c). p\<lparr>rbottom := rbottom c\<rparr>) (zip P C) = map (\<lambda>p. p\<lparr>rbottom := b\<rparr>) P"
    and "columns C = columns P"
  using assms
  by (induction P C rule: list_induct2) (auto simp: mem_columns_Cons)

lemma is_band_stretch: "is_band t b P \<Longrightarrow> is_band t b' (map (\<lambda>p. p\<lparr>rbottom := b'\<rparr>) P)"
  and columns_stretch: "columns (map (\<lambda>p. p\<lparr>rbottom := b'\<rparr>) P) = columns P"
  by (auto simp: is_band_def x_ordered_def columns_def sorted_wrt_map)

lemma merge_bands:
  assumes rs: "banded (A @ P @ C @ D)"
    and P: "is_band t1 b1 P" "\<forall>r\<in>set A. rbottom r \<le> t1"
    and C: "is_band b1 b2 C" "C \<noteq> []" and D: "\<forall>r\<in>set D. rtop r \<noteq> b1" and "P \<noteq> []"
    and cols: "columns C = columns P"
  shows "banded (A @ map (\<lambda>p. p\<lparr>rbottom := b2\<rparr>) P @ D)"
    and "points (A @ map (\<lambda>p. p\<lparr>rbottom := b2\<rparr>) P @ D) = points (A @ P @ C @ D)"
proof -
  let ?P = "map (\<lambda>p. p\<lparr>rbottom := b2\<rparr>) P"
  obtain p c where p: "p \<in> set P" and c: "c \<in> set C" using \<open>P \<noteq> []\<close> C(2) by fastforce
  have t: "t1 < b1" "b1 < b2"
    using p c rs P(1) C(1) by (auto simp: banded_append is_band_def banded_def nonempty_def)
  have DC: "b2 \<le> rtop d" if "d \<in> set D" for d
  proof -
    have "before c d" using that c rs by (auto simp: banded_append)
    then show ?thesis using that c D C(1) by (auto simp: is_band_def before_def)
  qed
  have P': "is_band t1 b2 ?P" using P(1) by (rule is_band_stretch)
  have AD: "before a d" if "a \<in> set A" "d \<in> set D" for a d
    using that rs by (auto simp: banded_append)
  have "banded ?P" using P' t by (simp add: is_band_banded)
  then show "banded (A @ ?P @ D)"
    using rs P(2) P' DC AD by (auto simp: banded_append is_band_def before_def)
  have "points ?P = points P \<union> points C"
    using t by (auto simp: points_band [OF P'] points_band [OF P(1)] points_band [OF C(1)]
        columns_stretch cols)
  then show "points (A @ ?P @ D) = points (A @ P @ C @ D)" by auto
qed

lemma coalesce_region_correct:
  assumes rs: "rects reg = A @ P @ C @ D" and ord: "banded (rects reg)"
    and P: "is_band t1 b1 P" "\<forall>r\<in>set A. rbottom r \<le> t1"
    and C: "is_band t2 b2 C" "C \<noteq> []" "\<forall>r\<in>set (A @ P). rbottom r \<le> t2"
    and D: "\<forall>r\<in>set D. rtop r \<noteq> t2"
    and res: "coalesce_region reg (length A) (length A + length P) = (reg', n)"
  shows "same_cover reg reg'" and "D = [] \<Longrightarrow> last_band_at reg' n"
proof -
  let ?P = "map (\<lambda>p. p\<lparr>rbottom := b2\<rparr>) P"
  obtain c cs where c: "C = c # cs" using C(2) by (cases C) auto
  have ctop: "rtop c = t2" "rbottom c = b2" using C(1) c by (auto simp: is_band_def)
  have cur: "rects reg ! (length A + length P) = c" "drop (length A + length P) (rects reg) = C @ D"
    by (simp_all add: rs c nth_append)
  have tw: "takeWhile (\<lambda>r. rtop r = t2) (C @ D) = C" using C(1) D by (rule takeWhile_band)
  have fin: "length A + length P + length C = length (rects reg) \<longleftrightarrow> D = []" by (simp add: rs)
  have parts: "take (length A) (rects reg) = A" "take (length P) (drop (length A) (rects reg)) = P"
    "drop (length A + length P + length C) (rects reg) = D"
    "length C = length P \<Longrightarrow> drop (length A + length P + length P) (rects reg) = D"
    "length C = length P \<Longrightarrow> length A + length P + length P = length (rects reg) \<longleftrightarrow> D = []"
    by (simp_all add: rs)
  obtain N where N: "D = [] \<longrightarrow> N = length A + length P" and co:
    "coalesce_region reg (length A) (length A + length P) =
       (if length C = length P \<and> rbottom (rects reg ! length A) = t2
        then (if list_ex (\<lambda>(p, c). rleft p \<noteq> rleft c \<or> rright p \<noteq> rright c) (zip P C) then (reg, N)
              else (reg\<lparr>rects := A @ map (\<lambda>(p, c). p\<lparr>rbottom := rbottom c\<rparr>) (zip P C) @ D\<rparr>,
                    if D = [] then length A else N))
        else (reg, N))"
    by (rule that [of "if D \<noteq> [] then length (rects reg)
          - length (takeWhile (\<lambda>r. rtop r = rtop (last (rects reg))) (rev (rects reg)))
          else length A + length P"])
      (simp_all add: coalesce_region_def Let_def cur ctop tw fin parts C(2) cong: if_cong)
  have keep: "same_cover reg reg" "D = [] \<Longrightarrow> last_band_at reg (length A + length P)"
    using ord C by (auto simp: same_cover_refl last_band_at_def num_rects_def rs)
  show "same_cover reg reg'" and "D = [] \<Longrightarrow> last_band_at reg' n"
  proof (atomize (full), cases "length C = length P \<and> rbottom (rects reg ! length A) = t2")
    case True
    then have "P \<noteq> []" using C(2) by auto
    then have hdP: "rects reg ! length A = hd P" by (cases P) (simp_all add: rs nth_append)
    then have b1: "b1 = t2" using True P(1) \<open>P \<noteq> []\<close> by (cases P) (auto simp: is_band_def)
    show "same_cover reg reg' \<and> (D = [] \<longrightarrow> last_band_at reg' n)"
    proof (cases "list_ex (\<lambda>(p, c). rleft p \<noteq> rleft c \<or> rright p \<noteq> rright c) (zip P C)")
      case mismatch: True
      then have "reg' = reg" "D = [] \<longrightarrow> n = length A + length P"
        using res True N by (auto simp: co)
      then show ?thesis using keep by auto
    next
      case False
      have bot: "\<forall>c\<in>set C. rbottom c = b2" using C(1) by (simp add: is_band_def)
      note z = zip_same_columns [OF True [THEN conjunct1, symmetric] bot False]
      have reg': "reg' = reg\<lparr>rects := A @ ?P @ D\<rparr>" "D = [] \<longrightarrow> n = length A"
        using res True False by (auto simp: co z)
      note m = merge_bands [OF ord [unfolded rs] P C(1) [folded b1] C(2) D [folded b1] \<open>P \<noteq> []\<close> z(2)]
      have "same_cover reg reg'"
        using m c ctop True by (auto simp: same_cover_def reg' rs num_rects_def)
      moreover have "last_band_at reg' (length A)" if "D = []"
        using that is_band_stretch [OF P(1)] P(2)
        by (auto simp: last_band_at_def reg' num_rects_def)
      ultimately show ?thesis using reg'(2) by auto
    qed
  next
    case False
    then have "reg' = reg" "D = [] \<longrightarrow> n = length A + length P"
      using res N by (auto simp: co)
    then show "same_cover reg reg' \<and> (D = [] \<longrightarrow> last_band_at reg' n)" using keep by auto
  qed
qed


subsection \<open>The sweep\<close>

text \<open>
  After the sweep has reached the line \<open>Y\<close>, the new region holds exactly the points of
  the result above it, and the pointers into the sources stand where the points at or
  below \<open>Y\<close> begin.
\<close>

definition swept :: "(bool \<Rightarrow> bool \<Rightarrow> bool) \<Rightarrow> (int \<times> int) set \<Rightarrow> (int \<times> int) set \<Rightarrow> region \<Rightarrow> nat \<Rightarrow> int \<Rightarrow> bool" where
  "swept op P1 P2 reg pb Y \<longleftrightarrow> cap reg \<and> banded (rects reg) \<and> last_band_at reg pb \<and>
     (\<forall>r\<in>set (rects reg). rbottom r \<le> Y) \<and>
     points (rects reg) = {(x, y). y < Y \<and> op ((x, y) \<in> P1) ((x, y) \<in> P2)}"

definition remains :: "(int \<times> int) set \<Rightarrow> int \<Rightarrow> rectangle list \<Rightarrow> bool" where
  "remains P Y r \<longleftrightarrow> banded r \<and> (\<forall>q\<in>set r. Y < rbottom q) \<and>
     (\<forall>x y. Y \<le> y \<longrightarrow> (x, y) \<in> points r \<longleftrightarrow> (x, y) \<in> P)"

lemma remains_next:
  assumes "remains P Y r" "r \<noteq> []" "Y \<le> M" "M \<le> rbottom (hd r)"
  shows "remains P M (if rbottom (hd r) = M then BandEnd r else r)"
proof (cases "rbottom (hd r) = M")
  case True
  have b: "banded r" using assms(1) by (simp add: remains_def)
  have "M < rbottom q" if "q \<in> set (BandEnd r)" for q
    using banded_Band(3,4) [OF b assms(2)] that True by (fastforce simp: banded_def nonempty_def)
  then show ?thesis
    using assms True banded_Band(4) [OF b assms(2)] points_after_band [OF b assms(2)]
    by (auto simp: remains_def)
next
  case False
  then have "M < rbottom q" if "q \<in> set r" for q
    using assms banded_bottom_mono [of r q] that by (auto simp: remains_def)
  with False assms show ?thesis by (auto simp: remains_def)
qed

lemma swept_extend:
  assumes sw: "swept op P1 P2 reg pb Y" and "Y \<le> M"
    and reg': "rects reg' = rects reg @ B" "cap reg'"
    and B: "is_band t b B" "B \<noteq> [] \<Longrightarrow> Y \<le> t \<and> t < b \<and> b \<le> M"
    and pts: "\<And>x y. Y \<le> y \<Longrightarrow> y < M \<Longrightarrow>
        op ((x, y) \<in> P1) ((x, y) \<in> P2) \<longleftrightarrow> t \<le> y \<and> y < b \<and> x \<in> columns B"
    and res: "coalesce_if reg' pb (num_rects reg) = (reg'', pb'')"
  shows "swept op P1 P2 reg'' pb'' M"
proof (cases "B = []")
  case True
  then have "reg'' = reg'" "pb'' = pb"
    using res reg' by (auto simp: coalesce_if_def num_rects_def)
  moreover have "\<not> op ((x, y) \<in> P1) ((x, y) \<in> P2)" if "Y \<le> y" "y < M" for x y
    using pts [OF that] True by simp
  then have "points (rects reg) = {(x, y). y < M \<and> op ((x, y) \<in> P1) ((x, y) \<in> P2)}"
    using sw \<open>Y \<le> M\<close> by (auto simp: swept_def not_less) (meson not_le)+
  moreover have "\<forall>r\<in>set (rects reg). rbottom r \<le> M"
    using sw \<open>Y \<le> M\<close> by (auto simp: swept_def)
  ultimately show ?thesis
    using sw reg' True by (auto simp: swept_def last_band_at_def num_rects_def)
next
  case False
  have Yt: "Y \<le> t" "t < b" "b \<le> M" using B(2) False by auto
  have old: "\<forall>r\<in>set (rects reg). rbottom r \<le> t"
    using sw Yt by (force simp: swept_def)
  obtain t1 b1 where P: "is_band t1 b1 (drop pb (rects reg))"
      "\<forall>r\<in>set (take pb (rects reg)). rbottom r \<le> t1" and le: "pb \<le> num_rects reg"
    using sw by (auto simp: swept_def last_band_at_def)
  have ord: "banded (rects reg')"
    using sw old is_band_banded [OF B(1) Yt(2)] B(1)
    by (auto simp: swept_def reg' banded_append before_def is_band_def)
  have eq: "coalesce_region reg' (length (take pb (rects reg)))
      (length (take pb (rects reg)) + length (drop pb (rects reg))) = (reg'', pb'')"
    using res reg' False le by (auto simp: coalesce_if_def num_rects_def min_def)
  have "same_cover reg' reg''" "last_band_at reg'' pb''"
    using coalesce_region_correct [OF _ ord P B(1) False _ _ eq, of "[]"] old
    by (auto simp: reg' dest: in_set_takeD in_set_dropD)
  moreover have "points (rects reg') = {(x, y). y < M \<and> op ((x, y) \<in> P1) ((x, y) \<in> P2)}"
  proof (rule set_eqI, clarify)
    fix x y
    have old_pts: "(x, y) \<in> points (rects reg) \<longleftrightarrow> y < Y \<and> op ((x, y) \<in> P1) ((x, y) \<in> P2)"
      using sw by (simp add: swept_def)
    show "(x, y) \<in> points (rects reg') \<longleftrightarrow> (x, y) \<in> {(x, y). y < M \<and> op ((x, y) \<in> P1) ((x, y) \<in> P2)}"
      using old_pts pts [of y x] Yt
      by (cases "y < Y"; cases "y < M") (auto simp: reg' points_band [OF B(1)])
  qed
  moreover have "\<forall>r\<in>set (rects reg'). rbottom r \<le> M"
    using old B(1) Yt by (force simp: reg' is_band_def)
  ultimately show ?thesis
    using reg'(2) by (auto simp: swept_def same_cover_def cap_def)
qed

text \<open>The contract of the three functions \<^verbatim>\<open>region_op\<close> is called with.\<close>

locale banded_op =
  fixes op :: "bool \<Rightarrow> bool \<Rightarrow> bool"
    and overlap :: "'a overlap_func"
    and non_overlap1 non_overlap2 :: "'a non_overlap_func option"
  assumes op_none: "\<not> op False False"
    and overlap_band: "cap reg \<Longrightarrow> is_band t1 b1 B1 \<Longrightarrow> is_band t2 b2 B2 \<Longrightarrow> B1 \<noteq> [] \<Longrightarrow> B2 \<noteq> [] \<Longrightarrow>
      t < b \<Longrightarrow> \<forall>r\<in>set (rects reg). rbottom r \<le> t \<and> nonempty r \<Longrightarrow>
      extends reg s (overlap reg B1 B2 t b s)
        (\<lambda>B. is_band t b B \<and> columns B = {x. op (x \<in> columns B1) (x \<in> columns B2)})"
    and band1: "cap reg \<Longrightarrow> is_band t1 b1 B1 \<Longrightarrow> t < b \<Longrightarrow>
      extends reg s (opt_band non_overlap1 reg B1 t b s)
        (\<lambda>B. is_band t b B \<and> columns B = {x \<in> columns B1. op True False})"
    and band2: "cap reg \<Longrightarrow> is_band t2 b2 B2 \<Longrightarrow> t < b \<Longrightarrow>
      extends reg s (opt_band non_overlap2 reg B2 t b s)
        (\<lambda>B. is_band t b B \<and> columns B = {x \<in> columns B2. op False True})"
    and null1: "non_overlap1 = None \<longleftrightarrow> \<not> op True False"
    and null2: "non_overlap2 = None \<longleftrightarrow> \<not> op False True"
begin

lemma opt_band1:
  assumes "cap reg" "is_band t1 b1 B1" "t \<le> b"
  shows "extends reg s (opt_band non_overlap1 reg B1 t b s)
    (\<lambda>B. is_band t b B \<and> (t < b \<longrightarrow> columns B = {x \<in> columns B1. op True False}) \<and> (t = b \<longrightarrow> B = []))"
  using assms band1 [OF assms(1,2), of t b s]
  by (cases "t = b")
    (auto simp: opt_band_def extends_none split: option.splits elim!: extends_mono)

lemma opt_band2:
  assumes "cap reg" "is_band t2 b2 B2" "t \<le> b"
  shows "extends reg s (opt_band non_overlap2 reg B2 t b s)
    (\<lambda>B. is_band t b B \<and> (t < b \<longrightarrow> columns B = {x \<in> columns B2. op False True}) \<and> (t = b \<longrightarrow> B = []))"
  using assms band2 [OF assms(1,2), of t b s]
  by (cases "t = b")
    (auto simp: opt_band_def extends_none split: option.splits elim!: extends_mono)

text \<open>Between \<open>Y\<close> and \<open>M\<close> the result consists of the columns of \<open>B\<close> from \<open>t\<close> to \<open>b\<close>.\<close>

definition strip :: "(int \<times> int) set \<Rightarrow> (int \<times> int) set \<Rightarrow> int \<Rightarrow> int \<Rightarrow> int \<Rightarrow> int \<Rightarrow> rectangle list \<Rightarrow> bool" where
  "strip P1 P2 Y M t b B \<longleftrightarrow> is_band t b B \<and> (B \<noteq> [] \<longrightarrow> Y \<le> t \<and> t < b \<and> b \<le> M) \<and>
     (\<forall>x y. Y \<le> y \<and> y < M \<longrightarrow>
        (op ((x, y) \<in> P1) ((x, y) \<in> P2) \<longleftrightarrow> t \<le> y \<and> y < b \<and> x \<in> columns B))"

lemma remains_line:
  assumes "remains P Y r" "r \<noteq> []" "Y \<le> y" "y < rbottom (hd r)"
  shows "(x, y) \<in> P \<longleftrightarrow> rtop (hd r) \<le> y \<and> x \<in> columns (Band r)"
  using assms points_first_band [of r y x] by (auto simp: remains_def)

text \<open>The first half of the body: the lines where only one of the regions has a band.\<close>

lemma first_half1:
  assumes c: "cap reg" and r1: "remains P1 Y r1" "r1 \<noteq> []" and r2: "remains P2 Y r2" "r2 \<noteq> []"
    and Y: "Y \<le> rtop (hd r2)" and lt: "rtop (hd r1) < rtop (hd r2)"
    and M: "M = min (rbottom (hd r1)) (rtop (hd r2))"
  shows "extends reg s (opt_band non_overlap1 reg (Band r1) (max (rtop (hd r1)) Y) M s)
           (strip P1 P2 Y M (max (rtop (hd r1)) Y) M)"
proof -
  have b: "banded r1" "banded r2" using r1 r2 by (simp_all add: remains_def)
  have hd: "rtop (hd r1) < rbottom (hd r1)" "Y < rbottom (hd r1)" "rtop (hd r2) < rbottom (hd r2)"
    using r1 r2 by (auto simp: remains_def banded_def nonempty_def)
  have tM: "max (rtop (hd r1)) Y \<le> M" using hd lt Y by (simp add: M)
  have line: "op ((x, y) \<in> P1) ((x, y) \<in> P2) \<longleftrightarrow>
      rtop (hd r1) \<le> y \<and> x \<in> columns (Band r1) \<and> op True False" if "Y \<le> y" "y < M" for x y
    using remains_line [OF r1, of y x] remains_line [OF r2, of y x] that hd op_none
    by (auto simp: M)
  have B1: "is_band (rtop (hd r1)) (rbottom (hd r1)) (Band r1)" using banded_Band(1) [OF b(1) r1(2)] .
  show ?thesis
    by (rule extends_mono [OF opt_band1 [OF c B1 tM]])
      (use line tM in \<open>auto simp: strip_def\<close>)
qed

lemma first_half2:
  assumes c: "cap reg" and r1: "remains P1 Y r1" "r1 \<noteq> []" and r2: "remains P2 Y r2" "r2 \<noteq> []"
    and Y: "Y \<le> rtop (hd r1)" and lt: "rtop (hd r2) < rtop (hd r1)"
    and M: "M = min (rbottom (hd r2)) (rtop (hd r1))"
  shows "extends reg s (opt_band non_overlap2 reg (Band r2) (max (rtop (hd r2)) Y) M s)
           (strip P1 P2 Y M (max (rtop (hd r2)) Y) M)"
proof -
  have b: "banded r1" "banded r2" using r1 r2 by (simp_all add: remains_def)
  have hd: "rtop (hd r1) < rbottom (hd r1)" "Y < rbottom (hd r2)" "rtop (hd r2) < rbottom (hd r2)"
    using r1 r2 by (auto simp: remains_def banded_def nonempty_def)
  have tM: "max (rtop (hd r2)) Y \<le> M" using hd lt Y by (simp add: M)
  have line: "op ((x, y) \<in> P1) ((x, y) \<in> P2) \<longleftrightarrow>
      rtop (hd r2) \<le> y \<and> x \<in> columns (Band r2) \<and> op False True" if "Y \<le> y" "y < M" for x y
    using remains_line [OF r1, of y x] remains_line [OF r2, of y x] that hd op_none
    by (auto simp: M)
  have B2: "is_band (rtop (hd r2)) (rbottom (hd r2)) (Band r2)" using banded_Band(1) [OF b(2) r2(2)] .
  show ?thesis
    by (rule extends_mono [OF opt_band2 [OF c B2 tM]])
      (use line tM in \<open>auto simp: strip_def\<close>)
qed

text \<open>The second half: the lines where both have a band.\<close>

lemma second_half:
  assumes c: "cap reg" and r1: "remains P1 Y r1" "r1 \<noteq> []" and r2: "remains P2 Y r2" "r2 \<noteq> []"
    and Y: "Y \<le> t" and t: "t = max (rtop (hd r1)) (rtop (hd r2))"
    and M: "M = min (rbottom (hd r1)) (rbottom (hd r2))" and "t < M"
    and old: "\<forall>r\<in>set (rects reg). rbottom r \<le> t \<and> nonempty r"
  shows "extends reg s (overlap reg (Band r1) (Band r2) t M s) (strip P1 P2 t M t M)"
proof -
  have b: "banded r1" "banded r2" using r1 r2 by (simp_all add: remains_def)
  have line: "op ((x, y) \<in> P1) ((x, y) \<in> P2) \<longleftrightarrow> op (x \<in> columns (Band r1)) (x \<in> columns (Band r2))"
    if "t \<le> y" "y < M" for x y
    using remains_line [OF r1, of y x] remains_line [OF r2, of y x] that Y by (auto simp: M t)
  show ?thesis
    by (rule extends_mono [OF overlap_band [OF c banded_Band(1) [OF b(1) r1(2)]
            banded_Band(1) [OF b(2) r2(2)] banded_Band(2) [OF b(1) r1(2)]
            banded_Band(2) [OF b(2) r2(2)] \<open>t < M\<close> old]])
      (use line \<open>t < M\<close> in \<open>auto simp: strip_def\<close>)
qed

lemma swept_strip:
  assumes sw: "swept op P1 P2 reg pb Y" and "Y \<le> M"
    and ext: "extends reg s res (strip P1 P2 Y M t b)"
  obtains ok reg' s' where "res = Some ((ok, reg'), s')" "alloc_step ok s s'" "cap reg'"
    "ok \<longrightarrow> swept op P1 P2 (fst (coalesce_if reg' pb (num_rects reg)))
              (snd (coalesce_if reg' pb (num_rects reg))) M"
proof -
  obtain ok reg' s' where 1: "res = Some ((ok, reg'), s')" "alloc_step ok s s'" "cap reg'"
      "ok \<longrightarrow> (\<exists>B. rects reg' = rects reg @ B \<and> strip P1 P2 Y M t b B)"
    using ext by (rule extendsE)
  show thesis
  proof (rule that [OF 1(1-3)], rule impI)
    assume ok
    then obtain B where B: "rects reg' = rects reg @ B" "strip P1 P2 Y M t b B" using 1(4) by blast
    show "swept op P1 P2 (fst (coalesce_if reg' pb (num_rects reg)))
              (snd (coalesce_if reg' pb (num_rects reg))) M"
      by (rule swept_extend [OF sw \<open>Y \<le> M\<close> B(1) 1(3), of t b])
        (use B(2) in \<open>auto simp: strip_def\<close>)
  qed
qed

lemma swept_still:
  assumes "swept op P1 P2 reg pb Y" "Y \<le> M"
    and "\<And>x y. Y \<le> y \<Longrightarrow> y < M \<Longrightarrow> \<not> op ((x, y) \<in> P1) ((x, y) \<in> P2)"
  shows "swept op P1 P2 reg pb M"
  using swept_extend [OF assms(1,2), of reg "[]" 0 0 reg pb] assms
  by (auto simp: swept_def coalesce_if_def)

lemma first_half:
  assumes sw: "swept op P1 P2 reg pb Y"
    and r1: "remains P1 Y r1" "r1 \<noteq> []" and r2: "remains P2 Y r2" "r2 \<noteq> []"
    and t: "t = max (rtop (hd r1)) (rtop (hd r2))" "Y \<le> t"
    and M: "M = min t (min (rbottom (hd r1)) (rbottom (hd r2)))"
  obtains ok reg' s' where
    "(if rtop (hd r1) < rtop (hd r2)
      then opt_band non_overlap1 reg (Band r1) (max (rtop (hd r1)) Y) (min (rbottom (hd r1)) (rtop (hd r2))) s
      else if rtop (hd r2) < rtop (hd r1)
      then opt_band non_overlap2 reg (Band r2) (max (rtop (hd r2)) Y) (min (rbottom (hd r2)) (rtop (hd r1))) s
      else Some ((True, reg), s)) = Some ((ok, reg'), s')"
    "alloc_step ok s s'" "cap reg'"
    "ok \<longrightarrow> swept op P1 P2 (fst (coalesce_if reg' pb (num_rects reg)))
              (snd (coalesce_if reg' pb (num_rects reg))) M"
proof -
  have hd: "rtop (hd r1) < rbottom (hd r1)" "Y < rbottom (hd r1)"
    "rtop (hd r2) < rbottom (hd r2)" "Y < rbottom (hd r2)"
    using r1 r2 by (auto simp: remains_def banded_def nonempty_def)
  have c: "cap reg" using sw by (simp add: swept_def)
  have YM: "Y \<le> M" using hd t M by auto
  consider (less) "rtop (hd r1) < rtop (hd r2)" | (greater) "rtop (hd r2) < rtop (hd r1)"
    | (equal) "rtop (hd r1) = rtop (hd r2)" by linarith
  then show thesis
  proof cases
    case less
    then have "M = min (rbottom (hd r1)) (rtop (hd r2))" "Y \<le> rtop (hd r2)" using hd t M by auto
    then show thesis
      using swept_strip [OF sw YM first_half1 [OF c r1 r2 _ less]] less that by auto
  next
    case greater
    then have "M = min (rbottom (hd r2)) (rtop (hd r1))" "Y \<le> rtop (hd r1)" using hd t M by auto
    then show thesis
      using swept_strip [OF sw YM first_half2 [OF c r1 r2 _ greater]] greater that by auto
  next
    case equal
    then have tM: "t = rtop (hd r1)" "t = rtop (hd r2)" "M = t" using hd t M by auto
    have "\<not> op ((x, y) \<in> P1) ((x, y) \<in> P2)" if "Y \<le> y" "y < M" for x y
      using remains_line [OF r1, of y x] remains_line [OF r2, of y x] that hd tM op_none by auto
    then have "swept op P1 P2 reg pb M" using swept_still [OF sw YM] by blast
    then show thesis
      using equal c that [of True reg s] by (simp add: coalesce_if_def)
  qed
qed

lemma region_op_step_correct:
  assumes sw: "swept op P1 P2 reg pb Y"
    and r1: "remains P1 Y r1" "r1 \<noteq> []" and r2: "remains P2 Y r2" "r2 \<noteq> []"
    and tops: "Y \<le> max (rtop (hd r1)) (rtop (hd r2))"
    and M: "M = min (rbottom (hd r1)) (rbottom (hd r2))"
  obtains ok reg' pb' s' where
    "region_op_step overlap non_overlap1 non_overlap2 reg pb Y r1 r2 s = Some ((ok, reg', pb'), s')"
    "alloc_step ok s s'" "cap reg'" "ok \<longrightarrow> swept op P1 P2 reg' pb' M"
proof -
  define t where "t = max (rtop (hd r1)) (rtop (hd r2))"
  have yt: "(if rtop (hd r1) < rtop (hd r2) then rtop (hd r2)
      else if rtop (hd r2) < rtop (hd r1) then rtop (hd r1) else rtop (hd r1)) = t"
    by (auto simp: t_def)
  obtain ok1 reg1 s1 where 1: "(if rtop (hd r1) < rtop (hd r2)
      then opt_band non_overlap1 reg (Band r1) (max (rtop (hd r1)) Y) (min (rbottom (hd r1)) (rtop (hd r2))) s
      else if rtop (hd r2) < rtop (hd r1)
      then opt_band non_overlap2 reg (Band r2) (max (rtop (hd r2)) Y) (min (rbottom (hd r2)) (rtop (hd r1))) s
      else Some ((True, reg), s)) = Some ((ok1, reg1), s1)"
    "alloc_step ok1 s s1" "cap reg1"
    "ok1 \<longrightarrow> swept op P1 P2 (fst (coalesce_if reg1 pb (num_rects reg)))
              (snd (coalesce_if reg1 pb (num_rects reg)))
              (min t (min (rbottom (hd r1)) (rbottom (hd r2))))"
    by (rule first_half [OF sw r1 r2 t_def _ refl]) (use tops in \<open>auto simp: t_def intro: that\<close>)
  note step = region_op_step_def [of overlap non_overlap1 non_overlap2 reg pb Y r1 r2 s,
      unfolded Let_def yt 1(1) M [symmetric]]
  show thesis
  proof (cases ok1)
    case False
    then show thesis using that 1(2,3) step by simp
  next
    case True
    obtain reg2 pb2 where c2: "coalesce_if reg1 pb (num_rects reg) = (reg2, pb2)" by fastforce
    have sw2: "swept op P1 P2 reg2 pb2 (min t M)" using 1(4) True by (simp add: c2 M)
    have cap2: "cap reg2" using sw2 by (simp add: swept_def)
    show thesis
    proof (cases "t < M")
      case lt: True
      have old: "\<forall>r\<in>set (rects reg2). rbottom r \<le> t \<and> nonempty r"
        using sw2 lt by (auto simp: swept_def banded_def)
      have "Y \<le> t" using tops by (simp add: t_def)
      note ext = second_half [OF cap2 r1 r2 this t_def M lt old, of s1]
      have swt: "swept op P1 P2 reg2 pb2 t" using sw2 lt by (simp add: min_def)
      obtain ok3 reg3 s3 where 3: "overlap reg2 (Band r1) (Band r2) t M s1 = Some ((ok3, reg3), s3)"
        "alloc_step ok3 s1 s3" "cap reg3"
        "ok3 \<longrightarrow> swept op P1 P2 (fst (coalesce_if reg3 pb2 (num_rects reg2)))
              (snd (coalesce_if reg3 pb2 (num_rects reg2))) M"
        by (rule swept_strip [OF swt less_imp_le [OF lt] ext]) (rule that)
      have "alloc_step ok3 s s3" using 1(2) 3(2) True by (auto intro: alloc_step_trans)
      moreover obtain reg4 pb4 where c4: "coalesce_if reg3 pb2 (num_rects reg2) = (reg4, pb4)" by fastforce
      moreover have "cap reg4" if ok3 using 3(4) that by (simp add: c4 swept_def)
      ultimately show thesis
        using that [of ok3 "if ok3 then reg4 else reg3" "if ok3 then pb4 else pb2" s3]
          step True lt c2 3 by (cases ok3) simp_all
    next
      case False
      then have "min t M = M" by simp
      then show thesis
        using that step True False c2 1(2) cap2 sw2 by (simp add: coalesce_if_def)
    qed
  qed
qed

lemma region_op_loop_correct:
  assumes "swept op P1 P2 reg pb Y"
    and "remains P1 Y r1" "r1 \<noteq> []" and "remains P2 Y r2" "r2 \<noteq> []"
    and "Y \<le> max (rtop (hd r1)) (rtop (hd r2))"
  shows "\<exists>ok reg' pb' Y' r1' r2' s'.
    region_op_loop overlap non_overlap1 non_overlap2 reg pb Y r1 r2 s
      = Some ((ok, reg', pb', Y', r1', r2'), s') \<and> alloc_step ok s s' \<and> cap reg' \<and>
    (ok \<longrightarrow> swept op P1 P2 reg' pb' Y' \<and> remains P1 Y' r1' \<and> remains P2 Y' r2' \<and>
            (r1' = [] \<or> r2' = []))"
  using assms
proof (induction "length r1 + length r2" arbitrary: reg pb Y r1 r2 s rule: less_induct)
  case less
  define M where "M = min (rbottom (hd r1)) (rbottom (hd r2))"
  define r1' where "r1' = (if rbottom (hd r1) = M then BandEnd r1 else r1)"
  define r2' where "r2' = (if rbottom (hd r2) = M then BandEnd r2 else r2)"
  obtain ok1 reg1 pb1 s1 where step:
    "region_op_step overlap non_overlap1 non_overlap2 reg pb Y r1 r2 s = Some ((ok1, reg1, pb1), s1)"
    "alloc_step ok1 s s1" "cap reg1" "ok1 \<longrightarrow> swept op P1 P2 reg1 pb1 M"
    using region_op_step_correct [OF less.prems M_def] by blast
  have unf: "region_op_loop overlap non_overlap1 non_overlap2 reg pb Y r1 r2 s =
     (if \<not> ok1 then Some ((False, reg1, pb1, M, r1, r2), s1)
      else if r1' \<noteq> [] \<and> r2' \<noteq> []
      then region_op_loop overlap non_overlap1 non_overlap2 reg1 pb1 M r1' r2' s1
      else Some ((True, reg1, pb1, M, r1', r2'), s1))"
    using less.prems by (simp add: region_op_loop.simps [of _ _ _ reg] step(1) r1'_def r2'_def M_def Let_def)
  have YM: "Y \<le> M"
    using less.prems hd_in_set [of r1] hd_in_set [of r2] by (auto simp: M_def remains_def less_imp_le)
  have rem: "remains P1 M r1'" "remains P2 M r2'"
    using remains_next less.prems YM unfolding r1'_def r2'_def M_def by simp_all
  show ?case
  proof (cases "ok1 \<and> r1' \<noteq> [] \<and> r2' \<noteq> []")
    case True
    have shorter: "length r1' + length r2' < length r1 + length r2"
      using length_BandEnd [of r1] length_BandEnd [of r2] length_BandEnd_le [of r1]
        length_BandEnd_le [of r2] less.prems(3,5)
      by (auto simp: r1'_def r2'_def M_def min_def)
    have tops: "M \<le> max (rtop (hd r1')) (rtop (hd r2'))"
    proof (cases "rbottom (hd r1) = M")
      case eq: True
      then have "M \<le> rtop (hd r1')"
        using banded_Band(3) [of r1] less.prems True by (auto simp: r1'_def remains_def)
      then show ?thesis by simp
    next
      case False
      then have "rbottom (hd r2) = M" by (auto simp: M_def min_def split: if_splits)
      then have "M \<le> rtop (hd r2')"
        using banded_Band(3) [of r2] less.prems True by (auto simp: r2'_def remains_def)
      then show ?thesis by simp
    qed
    obtain ok2 reg2 pb2 Y2 q1 q2 s2 where
      "region_op_loop overlap non_overlap1 non_overlap2 reg1 pb1 M r1' r2' s1
        = Some ((ok2, reg2, pb2, Y2, q1, q2), s2)" "alloc_step ok2 s1 s2" "cap reg2"
      "ok2 \<longrightarrow> swept op P1 P2 reg2 pb2 Y2 \<and> remains P1 Y2 q1 \<and> remains P2 Y2 q2 \<and> (q1 = [] \<or> q2 = [])"
      using less.hyps [OF shorter _ rem(1) _ rem(2) _ tops, of reg1 pb1 s1] step(4) True by blast
    then show ?thesis
      using unf True step(2) alloc_step_trans [of s s1 ok2 s2] by auto
  next
    case False
    then show ?thesis using unf step(2-4) rem by auto
  qed
qed

end

text \<open>The tail: one region is left, no band is merged.\<close>

definition starts_band :: "int \<Rightarrow> rectangle list \<Rightarrow> bool" where
  "starts_band Y T \<longleftrightarrow>
     (\<exists>C D t b. T = C @ D \<and> C \<noteq> [] \<and> is_band t b C \<and> Y \<le> t \<and> (\<forall>d\<in>set D. rtop d \<noteq> t))"

definition tail_ok :: "int \<Rightarrow> rectangle list \<Rightarrow> rectangle list \<Rightarrow> rectangle list \<Rightarrow> bool" where
  "tail_ok Y r old T \<longleftrightarrow> banded (old @ T) \<and> points T = {(x, y). (x, y) \<in> points r \<and> Y \<le> y} \<and>
     (r \<noteq> [] \<longrightarrow> starts_band Y T)"

lemma tail_Cons:
  assumes r: "banded r" "r \<noteq> []" "\<forall>q\<in>set r. Y < rbottom q"
    and B: "is_band (max (rtop (hd r)) Y) (rbottom (hd r)) B \<and> columns B = columns (Band r)"
    and T: "tail_ok Y (BandEnd r) (old @ B) T"
  shows "tail_ok Y r old (B @ T)"
proof -
  have ne: "B \<noteq> []"
    using banded_Band(1,2) [OF r(1,2)] B columns_empty_iff [of "Band r"]
    by (auto simp: is_band_def)
  have lt: "max (rtop (hd r)) Y < rbottom (hd r)"
    using r by (cases r) (auto simp: banded_def nonempty_def)
  have hd: "(x, y) \<in> points r \<longleftrightarrow> (x \<in> columns (Band r) \<and> rtop (hd r) \<le> y \<and> y < rbottom (hd r))
      \<or> (x, y) \<in> points (BandEnd r)" for x y
  proof -
    have "points r = points (Band r) \<union> points (BandEnd r)" by (metis points_append Band_BandEnd)
    then show ?thesis using points_band [OF banded_Band(1) [OF r(1,2)]] by auto
  qed
  have pts: "points (B @ T) = {(x, y). (x, y) \<in> points r \<and> Y \<le> y}"
    using T hd B by (auto simp: tail_ok_def points_band [OF conjunct1 [OF B]])
  obtain q where q: "q \<in> set B" using ne by fastforce
  have "rtop d \<noteq> max (rtop (hd r)) Y" if "d \<in> set T" for d
  proof
    assume top: "rtop d = max (rtop (hd r)) Y"
    have "rleft d < rright d" "rtop d < rbottom d"
      using T that by (auto simp: tail_ok_def banded_append banded_def nonempty_def)
    then have "(rleft d, rtop d) \<in> points T" using that by (auto simp: points_def)
    then have "(rleft d, rtop d) \<in> points (BandEnd r)" using T by (simp add: tail_ok_def)
    then obtain e where "e \<in> set (BandEnd r)" "rtop e \<le> rtop d" by (auto simp: points_def)
    then show False using banded_Band(3) [OF r(1,2)] top lt by fastforce
  qed
  then have "starts_band Y (B @ T)"
    unfolding starts_band_def using ne B by (intro exI [of _ B] exI [of _ T]) auto
  then show ?thesis using T pts by (simp add: tail_ok_def)
qed

lemma region_op_tail_correct:
  assumes f: "\<And>reg B1 t b t1 b1 s. cap reg \<Longrightarrow> is_band t1 b1 B1 \<Longrightarrow> t < b \<Longrightarrow>
      extends reg s (f reg B1 t b s) (\<lambda>B. is_band t b B \<and> columns B = columns B1)"
    and "cap reg" "banded (rects reg)" "banded r" "\<forall>q\<in>set r. Y < rbottom q"
    and "\<forall>p\<in>set (rects reg). \<forall>q\<in>set r. rbottom p \<le> max (rtop q) Y"
  shows "extends reg s (region_op_tail f reg Y r s) (tail_ok Y r (rects reg))"
  using assms(2-)
proof (induction "length r" arbitrary: reg r s rule: less_induct)
  case less
  show ?case
  proof (cases "r = []")
    case True
    then show ?thesis using less.prems by (simp add: region_op_tail.simps extends_none tail_ok_def)
  next
    case ne: False
    let ?t = "max (rtop (hd r)) Y" and ?b = "rbottom (hd r)"
    have b: "banded r" using less.prems by auto
    have lt: "?t < ?b" using less.prems ne by (cases r) (auto simp: banded_def nonempty_def)
    have ext: "extends reg s (f reg (Band r) ?t ?b s) (\<lambda>B. is_band ?t ?b B \<and> columns B = columns (Band r))"
      by (rule f [OF less.prems(1) banded_Band(1) [OF b ne] lt])
    have sub: "set (BandEnd r) \<subseteq> set r" by (auto simp: BandEnd_def dest: set_dropWhileD)
    have unf: "region_op_tail f reg Y r s = do { ((ok, reg1), s1) \<leftarrow> f reg (Band r) ?t ?b s;
        if \<not> ok then Some ((False, reg1), s1) else region_op_tail f reg1 Y (BandEnd r) s1 }"
      using ne by (simp add: region_op_tail.simps [of f reg Y r s])
    show ?thesis
      unfolding unf
    proof (rule extends_bind [OF ext])
      fix reg1 s1 B
      assume r1: "rects reg1 = rects reg @ B" and c1: "cap reg1"
        and B: "is_band ?t ?b B \<and> columns B = columns (Band r)"
      have o1: "banded (rects reg1)"
        using r1 B less.prems lt ne is_band_banded [of ?t ?b B]
        by (auto simp: banded_append before_def is_band_def)
      have o2: "\<forall>p\<in>set (rects reg1). \<forall>q\<in>set (BandEnd r). rbottom p \<le> max (rtop q) Y"
        using r1 B less.prems(5) sub banded_Band(3) [OF b ne] by (auto simp: is_band_def)
      have o3: "\<forall>q\<in>set (BandEnd r). Y < rbottom q" using sub less.prems(4) by blast
      show "extends reg1 s1 (region_op_tail f reg1 Y (BandEnd r) s1) (\<lambda>T. tail_ok Y r (rects reg) (B @ T))"
        by (rule extends_mono [OF less.hyps [OF length_BandEnd [OF ne] c1 o1 banded_Band(4) [OF b ne] o3 o2]])
          (use tail_Cons [OF b ne less.prems(4) B] r1 in auto)
    qed
  qed
qed

lemma coalesce_tail:
  assumes sw: "swept op P1 P2 reg pb Y"
    and reg': "rects reg' = rects reg @ T" "cap reg'" "banded (rects reg')" "T = [] \<or> starts_band Y T"
    and res: "coalesce_if reg' pb (num_rects reg) = (reg'', pb'')"
  shows "cap reg''" "banded (rects reg'')" "points (rects reg'') = points (rects reg')"
proof (atomize (full), cases "T = []")
  case True
  then have "reg'' = reg'" using res reg'(1) by (auto simp: coalesce_if_def num_rects_def)
  then show "cap reg'' \<and> banded (rects reg'') \<and> points (rects reg'') = points (rects reg')"
    using reg' by simp
next
  case False
  then obtain C D t b where CD: "T = C @ D" "C \<noteq> []" "is_band t b C" "Y \<le> t" "\<forall>d\<in>set D. rtop d \<noteq> t"
    using reg'(4) unfolding starts_band_def by blast
  obtain t1 b1 where P: "is_band t1 b1 (drop pb (rects reg))"
      "\<forall>r\<in>set (take pb (rects reg)). rbottom r \<le> t1" and le: "pb \<le> num_rects reg"
    using sw by (auto simp: swept_def last_band_at_def)
  have old: "\<forall>r\<in>set (take pb (rects reg) @ drop pb (rects reg)). rbottom r \<le> t"
    using sw CD(4) by (force simp: swept_def)
  have eq: "coalesce_region reg' (length (take pb (rects reg)))
      (length (take pb (rects reg)) + length (drop pb (rects reg))) = (reg'', pb'')"
    using res reg'(1) False le by (auto simp: coalesce_if_def num_rects_def min_def)
  have "same_cover reg' reg''"
    by (rule coalesce_region_correct(1) [OF _ reg'(3) P CD(3,2) old CD(5) eq]) (simp add: reg' CD(1))
  then show "cap reg'' \<and> banded (rects reg'') \<and> points (rects reg'') = points (rects reg')"
    using reg'(2) by (simp add: same_cover_def cap_def)
qed

text \<open>The exact bounding box of a set of points.\<close>

definition bounds :: "rectangle \<Rightarrow> (int \<times> int) set \<Rightarrow> bool" where
  "bounds e P \<longleftrightarrow>
     (\<forall>x y. (x, y) \<in> P \<longrightarrow> rleft e \<le> x \<and> x < rright e \<and> rtop e \<le> y \<and> y < rbottom e) \<and>
     (\<exists>y. (rleft e, y) \<in> P) \<and> (\<exists>y. (rright e - 1, y) \<in> P) \<and>
     (\<exists>x. (x, rtop e) \<in> P) \<and> (\<exists>x. (x, rbottom e - 1) \<in> P)"

definition extents_ok :: "region \<Rightarrow> bool" where
  "extents_ok reg \<longleftrightarrow>
     (if rects reg = [] then extents reg = empty_rect else bounds (extents reg) (points (rects reg)))"

definition region_ok :: "region \<Rightarrow> bool" where
  "region_ok reg \<longleftrightarrow> cap reg \<and> banded (rects reg) \<and> extents_ok reg"

lemma nonempty_corner: "nonempty r \<Longrightarrow> r \<in> set rs \<Longrightarrow> (rleft r, rtop r) \<in> points rs"
  by (auto simp: points_def nonempty_def)

lemma region_ok_top:
  assumes "region_ok reg" "r \<in> set (rects reg)"
  shows "rtop (extents reg) \<le> rtop r" "rtop r < rbottom r"
proof -
  have ne: "nonempty r" using assms by (auto simp: region_ok_def banded_def)
  have "rects reg \<noteq> []" using assms(2) by auto
  with assms nonempty_corner [OF ne assms(2)] show "rtop (extents reg) \<le> rtop r"
    by (auto simp: region_ok_def extents_ok_def bounds_def)
  show "rtop r < rbottom r" using ne by (simp add: nonempty_def)
qed

lemma points_top: "region_ok reg \<Longrightarrow> (x, y) \<in> points (rects reg) \<Longrightarrow> rtop (extents reg) \<le> y"
  by (cases "rects reg") (auto simp: region_ok_def extents_ok_def bounds_def)

context banded_op
begin

lemma tail1:
  assumes "non_overlap1 = Some f" "cap reg" "is_band t1 b1 B1" "t < b"
  shows "extends reg s (f reg B1 t b s) (\<lambda>B. is_band t b B \<and> columns B = columns B1)"
  using band1 [OF assms(2-4), of s] assms(1,4) null1 by (simp add: opt_band_def)

lemma tail2:
  assumes "non_overlap2 = Some f" "cap reg" "is_band t2 b2 B2" "t < b"
  shows "extends reg s (f reg B2 t b s) (\<lambda>B. is_band t b B \<and> columns B = columns B2)"
  using band2 [OF assms(2-4), of s] assms(1,4) null2 by (simp add: opt_band_def)

lemma swept_start:
  assumes "region_ok reg1" "region_ok reg2" "cap reg" "rects reg = []"
    and Y: "Y = min (rtop (extents reg1)) (rtop (extents reg2))"
  shows "swept op (points (rects reg1)) (points (rects reg2)) reg 0 Y"
    and "remains (points (rects reg1)) Y (rects reg1)" "remains (points (rects reg2)) Y (rects reg2)"
proof -
  have "\<not> op ((x, y) \<in> points (rects reg1)) ((x, y) \<in> points (rects reg2))" if "y < Y" for x y
  proof -
    have "(x, y) \<notin> points (rects reg1)" "(x, y) \<notin> points (rects reg2)"
      using points_top [OF assms(1), of x y] points_top [OF assms(2), of x y] that by (auto simp: Y)
    then show ?thesis using op_none by simp
  qed
  then show "swept op (points (rects reg1)) (points (rects reg2)) reg 0 Y"
    using assms(3,4) by (auto simp: swept_def last_band_at_def)
  show "remains (points (rects reg1)) Y (rects reg1)"
    using assms(1) region_ok_top [OF assms(1)] by (fastforce simp: remains_def region_ok_def Y)
  show "remains (points (rects reg2)) Y (rects reg2)"
    using assms(2) region_ok_top [OF assms(2)] by (fastforce simp: remains_def region_ok_def Y)
qed

text \<open>What is left of the sources is copied or dropped.\<close>

lemma region_op_rest:
  assumes sw: "swept op P1 P2 reg pb Y" and r1: "remains P1 Y r1" and r2: "remains P2 Y r2"
    and one: "r1 = [] \<or> r2 = []"
  shows "extends reg s
     (if r1 \<noteq> [] then (case non_overlap1 of Some f \<Rightarrow> region_op_tail f reg Y r1 s
                                        | None \<Rightarrow> Some ((True, reg), s))
      else if r2 \<noteq> [] then (case non_overlap2 of Some f \<Rightarrow> region_op_tail f reg Y r2 s
                                             | None \<Rightarrow> Some ((True, reg), s))
      else Some ((True, reg), s))
     (\<lambda>T. banded (rects reg @ T) \<and> (T = [] \<or> starts_band Y T) \<and>
        points (rects reg @ T) = {(x, y). op ((x, y) \<in> P1) ((x, y) \<in> P2)})"
proof -
  have c: "cap reg" and ord: "banded (rects reg)" using sw by (auto simp: swept_def)
  have pre: "\<forall>p\<in>set (rects reg). \<forall>q\<in>set r. rbottom p \<le> max (rtop q) Y" for r
    using sw by (force simp: swept_def)
  have out: "points (rects reg) = {(x, y). y < Y \<and> op ((x, y) \<in> P1) ((x, y) \<in> P2)}"
    using sw by (simp add: swept_def)
  have p1: "(x, y) \<in> P1 \<longleftrightarrow> (x, y) \<in> points r1" if "Y \<le> y" for x y
    using r1 that by (simp add: remains_def)
  have p2: "(x, y) \<in> P2 \<longleftrightarrow> (x, y) \<in> points r2" if "Y \<le> y" for x y
    using r2 that by (simp add: remains_def)
  have join: "points (rects reg @ T) = {(x, y). op ((x, y) \<in> P1) ((x, y) \<in> P2)}"
    if "\<And>x y. (x, y) \<in> points T \<longleftrightarrow> Y \<le> y \<and> op ((x, y) \<in> P1) ((x, y) \<in> P2)" for T
    using that by (auto simp: out not_less)
  have dropped: "points (rects reg @ []) = {(x, y). op ((x, y) \<in> P1) ((x, y) \<in> P2)}"
    if "\<And>x y. Y \<le> y \<Longrightarrow> \<not> op ((x, y) \<in> P1) ((x, y) \<in> P2)"
    by (rule join) (use that in auto)
  consider (one) "r1 \<noteq> []" "r2 = []" | (two) "r1 = []" "r2 \<noteq> []" | (none) "r1 = []" "r2 = []"
    using assms(4) by blast
  then show ?thesis
  proof cases
    case one
    show ?thesis
    proof (cases non_overlap1)
      case None
      then have "\<not> op ((x, y) \<in> P1) ((x, y) \<in> P2)" if "Y \<le> y" for x y
        using null1 op_none p2 [OF that, of x] one by auto (metis (full_types))
      then show ?thesis using one None c ord dropped by (simp add: extends_none)
    next
      case (Some f)
      then have "op True False" using null1 by simp
      have "extends reg s (region_op_tail f reg Y r1 s) (tail_ok Y r1 (rects reg))"
        by (rule region_op_tail_correct [OF tail1 [OF Some] c ord _ _ pre]) (use r1 in \<open>auto simp: remains_def\<close>)
      then show ?thesis
        using one Some
      proof (simp, elim extends_mono)
        fix T assume T: "tail_ok Y r1 (rects reg) T"
        have "points (rects reg @ T) = {(x, y). op ((x, y) \<in> P1) ((x, y) \<in> P2)}"
        proof (rule join)
          fix x y
          show "(x, y) \<in> points T \<longleftrightarrow> Y \<le> y \<and> op ((x, y) \<in> P1) ((x, y) \<in> P2)"
            using T p1 [of y x] p2 [of y x] one \<open>op True False\<close> op_none
            by (cases "(x, y) \<in> points r1"; cases "Y \<le> y") (auto simp: tail_ok_def)
        qed
        then show "banded (rects reg @ T) \<and> (T = [] \<or> starts_band Y T) \<and>
            points (rects reg) \<union> points T = {(x, y). op ((x, y) \<in> P1) ((x, y) \<in> P2)}"
          using T one by (simp add: tail_ok_def)
      qed
    qed
  next
    case two
    show ?thesis
    proof (cases non_overlap2)
      case None
      then have "\<not> op ((x, y) \<in> P1) ((x, y) \<in> P2)" if "Y \<le> y" for x y
        using null2 op_none p1 [OF that, of x] two by auto (metis (full_types))
      then show ?thesis using two None c ord dropped by (simp add: extends_none)
    next
      case (Some f)
      then have "op False True" using null2 by simp
      have "extends reg s (region_op_tail f reg Y r2 s) (tail_ok Y r2 (rects reg))"
        by (rule region_op_tail_correct [OF tail2 [OF Some] c ord _ _ pre]) (use r2 in \<open>auto simp: remains_def\<close>)
      then show ?thesis
        using two Some
      proof (simp, elim extends_mono)
        fix T assume T: "tail_ok Y r2 (rects reg) T"
        have "points (rects reg @ T) = {(x, y). op ((x, y) \<in> P1) ((x, y) \<in> P2)}"
        proof (rule join)
          fix x y
          show "(x, y) \<in> points T \<longleftrightarrow> Y \<le> y \<and> op ((x, y) \<in> P1) ((x, y) \<in> P2)"
            using T p1 [of y x] p2 [of y x] two \<open>op False True\<close> op_none
            by (cases "(x, y) \<in> points r2"; cases "Y \<le> y") (auto simp: tail_ok_def)
        qed
        then show "banded (rects reg @ T) \<and> (T = [] \<or> starts_band Y T) \<and>
            points (rects reg) \<union> points T = {(x, y). op ((x, y) \<in> P1) ((x, y) \<in> P2)}"
          using T two by (simp add: tail_ok_def)
      qed
    qed
  next
    case none
    then have "\<not> op ((x, y) \<in> P1) ((x, y) \<in> P2)" if "Y \<le> y" for x y
      using op_none p1 [OF that, of x] p2 [OF that, of x] by auto
    then show ?thesis using none c ord dropped by (simp add: extends_none)
  qed
qed

lemma region_op_correct:
  assumes ok: "region_ok reg1" "region_ok reg2" and ne: "rects reg1 \<noteq> []" "rects reg2 \<noteq> []"
    and d: "cap d"
  shows "\<exists>ok reg' s'. region_op d reg1 reg2 overlap non_overlap1 non_overlap2 s = Some ((ok, reg'), s') \<and>
    alloc_step ok s s' \<and> cap reg' \<and>
    (ok \<longrightarrow> banded (rects reg') \<and>
       points (rects reg') = {(x, y). op ((x, y) \<in> points (rects reg1)) ((x, y) \<in> points (rects reg2))})"
proof -
  define Y where "Y = (if rtop (extents reg1) < rtop (extents reg2) then rtop (extents reg1)
    else rtop (extents reg2))"
  define d0 where "d0 = d\<lparr>rgn_size := max (num_rects reg1) (num_rects reg2) * 2, rects := []\<rparr>"
  have Ymin: "Y = min (rtop (extents reg1)) (rtop (extents reg2))" by (auto simp: Y_def)
  have d0: "cap d0" "rects d0 = []" using ne by (auto simp: d0_def cap_def num_rects_def Suc_le_eq less_max_iff_disj)
  note start = swept_start [OF ok d0 Ymin]
  have tops: "Y \<le> max (rtop (hd (rects reg1))) (rtop (hd (rects reg2)))"
    using region_ok_top(1) [OF ok(1), of "hd (rects reg1)"] ne by (auto simp: Ymin)
  obtain m s1 where m: "mem_alloc s = (m, s1)" by (cases "mem_alloc s")
  note op_def = region_op_def [of d reg1 reg2 overlap non_overlap1 non_overlap2 s, unfolded Let_def m
      Y_def [symmetric] d0_def [symmetric]]
  show ?thesis
  proof (cases m)
    case False
    then show ?thesis using m d mem_alloc_step [of s False s1] by (auto simp: op_def)
  next
    case True
    obtain ok2 reg2' pb Y2 q1 q2 s2 where loop:
      "region_op_loop overlap non_overlap1 non_overlap2 d0 0 Y (rects reg1) (rects reg2) s1
         = Some ((ok2, reg2', pb, Y2, q1, q2), s2)" "alloc_step ok2 s1 s2" "cap reg2'"
      "ok2 \<longrightarrow> swept op (points (rects reg1)) (points (rects reg2)) reg2' pb Y2 \<and>
         remains (points (rects reg1)) Y2 q1 \<and> remains (points (rects reg2)) Y2 q2 \<and> (q1 = [] \<or> q2 = [])"
      using region_op_loop_correct [OF start(1,2) ne(1) start(3) ne(2) tops, of s1] by blast
    have s12: "alloc_step ok2 s s2" using m True loop(2) by (auto dest: mem_alloc_step intro: alloc_step_trans)
    show ?thesis
    proof (cases ok2)
      case False
      then show ?thesis
        using True loop(1,3) s12 by (intro exI [of _ False] exI [of _ reg2'] exI [of _ s2]) (simp add: op_def)
    next
      case ok2: True
      have sw: "swept op (points (rects reg1)) (points (rects reg2)) reg2' pb Y2"
        and rem: "remains (points (rects reg1)) Y2 q1" "remains (points (rects reg2)) Y2 q2" "q1 = [] \<or> q2 = []"
        using loop(4) ok2 by auto
      obtain ok3 reg3 s3 where 3:
        "(if q1 \<noteq> [] then (case non_overlap1 of Some f \<Rightarrow> region_op_tail f reg2' Y2 q1 s2
                                        | None \<Rightarrow> Some ((True, reg2'), s2))
          else if q2 \<noteq> [] then (case non_overlap2 of Some f \<Rightarrow> region_op_tail f reg2' Y2 q2 s2
                                             | None \<Rightarrow> Some ((True, reg2'), s2))
          else Some ((True, reg2'), s2)) = Some ((ok3, reg3), s3)"
        "alloc_step ok3 s2 s3" "cap reg3"
        "ok3 \<longrightarrow> (\<exists>T. rects reg3 = rects reg2' @ T \<and> banded (rects reg2' @ T) \<and> (T = [] \<or> starts_band Y2 T) \<and>
           points (rects reg2' @ T) =
             {(x, y). op ((x, y) \<in> points (rects reg1)) ((x, y) \<in> points (rects reg2))})"
        using region_op_rest [OF sw rem, of s2] by (rule extendsE)
      have s13: "alloc_step ok3 s s3" using s12 3(2) ok2 by (auto intro: alloc_step_trans)
      show ?thesis
      proof (cases ok3)
        case False
        then show ?thesis
          using True ok2 loop(1) 3(1,3) s13
          by (intro exI [of _ False] exI [of _ reg3] exI [of _ s3]) (simp add: op_def)
      next
        case ok3: True
        then obtain T where T: "rects reg3 = rects reg2' @ T" "banded (rects reg3)" "T = [] \<or> starts_band Y2 T"
          "points (rects reg3) = {(x, y). op ((x, y) \<in> points (rects reg1)) ((x, y) \<in> points (rects reg2))}"
          using 3(4) by auto
        obtain reg4 pb4 where c4: "coalesce_if reg3 pb (num_rects reg2') = (reg4, pb4)" by fastforce
        note fin = coalesce_tail [OF sw T(1) 3(3) T(2,3) c4]
        obtain b s4 where m4: "malloc s3 = (b, s4)" by fastforce
        have s14: "alloc_step True s s4"
          using s13 ok3 realloc_step [OF m4] by (auto intro: alloc_step_trans)
        show ?thesis
          using True ok2 ok3 loop(1) 3(1) c4 m4 s13 s14 fin T(4)
          by (auto simp: op_def cap_def num_rects_def RGN_DEFAULT_RECTS_def)
      qed
    qed
  qed
qed

end

subsection \<open>The three operations keep the contract\<close>

lemma is_band_Cons:
  assumes "is_band t b B" "l < r" "\<And>x. x \<in> columns B \<Longrightarrow> r < x"
  shows "is_band t b (\<lparr>rleft = l, rtop = t, rright = r, rbottom = b\<rparr> # B)"
proof -
  have "r < rleft q" if "q \<in> set B" for q
    using assms(1) assms(3) [of "rleft q"] that by (auto simp: is_band_def x_ordered_def columns_def)
  then show ?thesis using assms(1,2) by (simp add: is_band_def x_ordered_Cons)
qed

lemma maybe_add_rect:
  "cap reg \<Longrightarrow> extends reg s (if c then add_rect reg r s else Some ((True, reg), s))
                  (\<lambda>B. B = (if c then [r] else []))"
  by (simp add: add_rect_extends extends_none)

text \<open>One step of the intersection: the columns up to where the first of the two ends.\<close>

lemma intersect_columns_step:
  assumes o: "x_ordered (r1 # r1s)" "x_ordered (r2 # r2s)"
    and B': "is_band t b B'" and r: "r = min (rright r1) (rright r2)" "l = max (rleft r1) (rleft r2)"
    and C: "columns B' = {x. r < x \<and> x \<in> columns (r1 # r1s) \<and> x \<in> columns (r2 # r2s)}"
    and B: "B = (if l < r then [\<lparr>rleft = l, rtop = t, rright = r, rbottom = b\<rparr>] else [])"
  shows "is_band t b (B @ B') \<and> columns (B @ B') = columns (r1 # r1s) \<inter> columns (r2 # r2s)"
proof -
  have g: "x \<in> columns r1s \<Longrightarrow> rright r1 < x" "x \<in> columns r2s \<Longrightarrow> rright r2 < x" for x
    using x_ordered_right o by blast+
  have "x \<in> columns (B @ B') \<longleftrightarrow> x \<in> columns (r1 # r1s) \<inter> columns (r2 # r2s)" for x
    using g [of x] by (cases x r rule: linorder_cases) (auto simp: mem_columns_Cons B C r)
  moreover have "is_band t b (B @ B')"
    using B' C by (auto simp: B intro: is_band_Cons)
  ultimately show ?thesis by blast
qed

lemma intersect_overlapping_band:
  fixes s :: "'a env_scheme"
  assumes "cap reg" "x_ordered B1" "x_ordered B2"
  shows "extends reg s (intersect_overlapping reg B1 B2 t b s)
           (\<lambda>B. is_band t b B \<and> columns B = columns B1 \<inter> columns B2)"
  using assms
proof (induction "length B1 + length B2" arbitrary: reg B1 B2 s rule: less_induct)
  case less
  consider "B1 = [] \<or> B2 = []" | r1 r1s r2 r2s where "B1 = r1 # r1s" "B2 = r2 # r2s"
    by (cases B1; cases B2) auto
  then show ?case
  proof cases
    case 1
    then show ?thesis using less.prems by (cases B1) (auto simp: extends_none)
  next
    case 2
    have o: "x_ordered (r1 # r1s)" "x_ordered (r2 # r2s)" using less.prems 2 by simp_all
    then have o': "x_ordered r1s" "x_ordered r2s" by (simp_all add: x_ordered_Cons)
    have g: "x \<in> columns r1s \<Longrightarrow> rright r1 < x" "x \<in> columns r2s \<Longrightarrow> rright r2 < x" for x
      using x_ordered_right o by blast+
    let ?r = "min (rright r1) (rright r2)"
    show ?thesis
      unfolding 2 intersect_overlapping.simps Let_def
    proof (rule extends_bind [OF maybe_add_rect [OF less.prems(1)]])
      fix reg1 and s1 :: "'a env_scheme" and B
      assume c: "cap reg1" and B: "B = (if max (rleft r1) (rleft r2) < ?r
        then [\<lparr>rleft = max (rleft r1) (rleft r2), rtop = t, rright = ?r, rbottom = b\<rparr>] else [])"
      have IH1: "extends reg1 s1 (intersect_overlapping reg1 r1s (r2 # r2s) t b s1)
          (\<lambda>B. is_band t b B \<and> columns B = columns r1s \<inter> columns (r2 # r2s))"
        by (rule less.hyps) (use o o' c in \<open>simp_all add: 2\<close>)
      have IH2: "extends reg1 s1 (intersect_overlapping reg1 (r1 # r1s) r2s t b s1)
          (\<lambda>B. is_band t b B \<and> columns B = columns (r1 # r1s) \<inter> columns r2s)"
        by (rule less.hyps) (use o o' c in \<open>simp_all add: 2\<close>)
      have IH3: "extends reg1 s1 (intersect_overlapping reg1 r1s r2s t b s1)
          (\<lambda>B. is_band t b B \<and> columns B = columns r1s \<inter> columns r2s)"
        by (rule less.hyps) (use o o' c in \<open>simp_all add: 2\<close>)
      have C: "rright r1 < rright r2 \<Longrightarrow> columns r1s \<inter> columns (r2 # r2s) =
            {x. ?r < x \<and> x \<in> columns (r1 # r1s) \<and> x \<in> columns (r2 # r2s)}"
        "rright r2 < rright r1 \<Longrightarrow> columns (r1 # r1s) \<inter> columns r2s =
            {x. ?r < x \<and> x \<in> columns (r1 # r1s) \<and> x \<in> columns (r2 # r2s)}"
        "rright r1 = rright r2 \<Longrightarrow> columns r1s \<inter> columns r2s =
            {x. ?r < x \<and> x \<in> columns (r1 # r1s) \<and> x \<in> columns (r2 # r2s)}"
        using g by (auto simp: mem_columns_Cons dest: less_imp_le)
      show "extends reg1 s1
        (if rright r1 < rright r2 then intersect_overlapping reg1 r1s (r2 # r2s) t b s1
         else if rright r2 < rright r1 then intersect_overlapping reg1 (r1 # r1s) r2s t b s1
         else intersect_overlapping reg1 r1s r2s t b s1)
        (\<lambda>B'. is_band t b (B @ B') \<and> columns (B @ B') = columns (r1 # r1s) \<inter> columns (r2 # r2s))"
        using intersect_columns_step [OF o _ refl refl _ B] C
        by (auto intro!: extends_mono [OF IH1] extends_mono [OF IH2] extends_mono [OF IH3]
            simp del: columns_append)
    qed
  qed
qed

lemma subtract_non_overlapping_band:
  fixes s :: "'a env_scheme"
  assumes "cap reg" "x_ordered B1"
  shows "extends reg s (subtract_non_overlapping reg B1 t b s) (\<lambda>B. is_band t b B \<and> columns B = columns B1)"
  using assms
proof (induction B1 arbitrary: reg s)
  case Nil
  then show ?case by (simp add: extends_none)
next
  case (Cons r rs)
  show ?case
    unfolding subtract_non_overlapping.simps
  proof (rule extends_bind [OF add_rect_extends [OF Cons.prems(1)]])
    fix reg1 and s1 :: "'a env_scheme" and B
    assume c: "cap reg1" and B: "B = [\<lparr>rleft = rleft r, rtop = t, rright = rright r, rbottom = b\<rparr>]"
    show "extends reg1 s1 (subtract_non_overlapping reg1 rs t b s1)
      (\<lambda>B'. is_band t b (B @ B') \<and> columns (B @ B') = columns (r # rs))"
      by (rule extends_mono [OF Cons.IH [OF c]])
        (use Cons.prems(2) x_ordered_right [of r rs] in
          \<open>auto simp: B x_ordered_Cons mem_columns_Cons intro!: is_band_Cons\<close>)
  qed
qed

lemma union_non_overlapping_eq: "union_non_overlapping = subtract_non_overlapping"
proof (intro ext)
  fix reg rs t b and s :: "'a env_scheme"
  show "union_non_overlapping reg rs t b s = subtract_non_overlapping reg rs t b s"
    by (induction rs arbitrary: reg s) (simp_all cong: if_cong)
qed

text \<open>What the subtraction has still to cover when it has reached the column \<open>left\<close>.\<close>

definition rest_columns :: "rectangle list \<Rightarrow> int \<Rightarrow> int set" where
  "rest_columns B1 left = (case B1 of [] \<Rightarrow> {} | r # rs \<Rightarrow> {x. left \<le> x \<and> x < rright r} \<union> columns rs)"

definition at_left :: "rectangle list \<Rightarrow> int \<Rightarrow> bool" where
  "at_left B1 left \<longleftrightarrow> x_ordered B1 \<and> (case B1 of [] \<Rightarrow> True | r # rs \<Rightarrow> rleft r \<le> left \<and> left < rright r)"

lemma rest_columns_Cons: "rest_columns (r # rs) left = {x. left \<le> x \<and> x < rright r} \<union> columns rs"
  by (simp add: rest_columns_def)

lemma rest_columns_next: "x_ordered rs \<Longrightarrow> rest_columns rs (next_left rs l) = columns rs"
  by (cases rs) (auto simp: rest_columns_def next_left_def mem_columns_Cons)

lemma at_left_next: "x_ordered rs \<Longrightarrow> at_left rs (next_left rs l)"
  by (cases rs) (auto simp: at_left_def next_left_def x_ordered_Cons)

lemma subtract_rest_band:
  fixes s :: "'a env_scheme"
  assumes "cap reg" "at_left B1 left"
  shows "extends reg s (subtract_rest reg B1 left t b s) (\<lambda>B. is_band t b B \<and> columns B = rest_columns B1 left)"
  using assms
proof (induction B1 arbitrary: reg left s)
  case Nil
  then show ?case by (simp add: extends_none rest_columns_def)
next
  case (Cons r rs)
  have o: "x_ordered rs" "left < rright r" using Cons.prems(2) by (auto simp: at_left_def x_ordered_Cons)
  show ?case
    unfolding subtract_rest.simps
  proof (rule extends_bind [OF add_rect_extends [OF Cons.prems(1)]])
    fix reg1 and s1 :: "'a env_scheme" and B
    assume c: "cap reg1" and B: "B = [\<lparr>rleft = left, rtop = t, rright = rright r, rbottom = b\<rparr>]"
    show "extends reg1 s1 (subtract_rest reg1 rs (next_left rs left) t b s1)
      (\<lambda>B'. is_band t b (B @ B') \<and> columns (B @ B') = rest_columns (r # rs) left)"
      by (rule extends_mono [OF Cons.IH [OF c at_left_next [OF o(1)]]])
        (use o Cons.prems(2) x_ordered_right [of r rs] in
          \<open>auto simp: B rest_columns_next rest_columns_Cons at_left_def mem_columns_Cons intro!: is_band_Cons\<close>)
  qed
qed

lemma subtract_loop_band:
  fixes s :: "'a env_scheme"
  assumes "cap reg" "at_left B1 left" "x_ordered B2"
  shows "extends reg s (subtract_loop reg B1 B2 left t b s)
           (\<lambda>B. is_band t b B \<and> columns B = rest_columns B1 left - columns B2)"
  using assms
proof (induction "length B1 + length B2" arbitrary: reg B1 B2 left s rule: less_induct)
  case less
  consider "B1 = []" | "B2 = []" "B1 \<noteq> []" | r1 r1s r2 r2s where "B1 = r1 # r1s" "B2 = r2 # r2s"
    by (cases B1; cases B2) auto
  then show ?case
  proof cases
    case 1
    then show ?thesis using less.prems by (simp add: extends_none rest_columns_def)
  next
    case 2
    then obtain q qs where "B1 = q # qs" by (cases B1) auto
    then show ?thesis using 2 subtract_rest_band [OF less.prems(1,2), of s t b] by simp
  next
    case 3
    have o1: "x_ordered (r1 # r1s)" "rleft r1 \<le> left" "left < rright r1"
      and o2: "x_ordered (r2 # r2s)" using less.prems 3 by (auto simp: at_left_def)
    have o1': "x_ordered r1s" and o2': "x_ordered r2s" "rleft r2 < rright r2"
      using o1 o2 by (simp_all add: x_ordered_Cons)
    have g: "x \<in> columns r1s \<Longrightarrow> rright r1 < x" "x \<in> columns r2s \<Longrightarrow> rright r2 < x" for x
      using x_ordered_right o1(1) o2 by blast+
    \<comment> \<open>the three ways the loop goes on\<close>
    have next1: "extends reg' s' (subtract_loop reg' r1s (r2 # r2s) (next_left r1s l) t b s')
        (\<lambda>B. is_band t b B \<and> columns B = columns r1s - columns (r2 # r2s))"
      if "cap reg'" for reg' l and s' :: "'a env_scheme"
      using less.hyps [of r1s "r2 # r2s" reg' "next_left r1s l" s'] that o1' o2
      by (simp add: 3 at_left_next rest_columns_next)
    have next2: "extends reg' s' (subtract_loop reg' (r1 # r1s) r2s l t b s')
        (\<lambda>B. is_band t b B \<and> columns B = rest_columns (r1 # r1s) l - columns r2s)"
      if "cap reg'" "left \<le> l" "l < rright r1" for reg' l and s' :: "'a env_scheme"
      using less.hyps [of "r1 # r1s" r2s reg' l s'] that o1 o2' by (simp add: 3 at_left_def)
    have cut: "extends reg' s'
        (if rright r2 \<ge> rright r1
         then subtract_loop reg' r1s (r2 # r2s) (next_left r1s (rright r2)) t b s'
         else subtract_loop reg' (r1 # r1s) r2s (rright r2) t b s')
        (\<lambda>B. is_band t b B \<and> columns B =
           {x. rright r2 \<le> x} \<inter> (rest_columns (r1 # r1s) left - columns (r2 # r2s)))"
      if "cap reg'" "left < rright r2" "rleft r2 \<le> rright r1" for reg' and s' :: "'a env_scheme"
    proof (cases "rright r2 \<ge> rright r1")
      case True
      have "columns r1s - columns (r2 # r2s) =
          {x. rright r2 \<le> x} \<inter> (rest_columns (r1 # r1s) left - columns (r2 # r2s))"
        using True g that(3) by (auto simp: rest_columns_def mem_columns_Cons) (smt (verit))+
      then show ?thesis using True next1 [OF that(1), of s' "rright r2"] by simp
    next
      case False
      have "rest_columns (r1 # r1s) (rright r2) - columns r2s =
          {x. rright r2 \<le> x} \<inter> (rest_columns (r1 # r1s) left - columns (r2 # r2s))"
        using False that(2) g by (fastforce simp: rest_columns_def mem_columns_Cons)
      then show ?thesis using False next2 [OF that(1), of "rright r2" s'] that(2) by simp
    qed
    consider (skip) "rright r2 \<le> left" | (over) "left < rright r2" "rleft r2 \<le> left"
      | (inside) "left < rright r2" "left < rleft r2" "rleft r2 < rright r1"
      | (beyond) "left < rright r2" "left < rleft r2" "rright r1 \<le> rleft r2" by linarith
    then show ?thesis
    proof cases
      case skip
      then have "rest_columns (r1 # r1s) left - columns r2s = rest_columns (r1 # r1s) left - columns (r2 # r2s)"
        using g o1 by (fastforce simp: rest_columns_def mem_columns_Cons)
      then show ?thesis using skip next2 [OF less.prems(1), of left s] o1 by (simp add: 3)
    next
      case over
      have "{x. rright r2 \<le> x} \<inter> (rest_columns (r1 # r1s) left - columns (r2 # r2s)) =
          rest_columns (r1 # r1s) left - columns (r2 # r2s)"
        using over g o1 by (fastforce simp: rest_columns_def mem_columns_Cons)
      then show ?thesis using over cut [OF less.prems(1), of s] o1 by (simp add: 3 Let_def)
    next
      case inside
      let ?R = "\<lparr>rleft = left, rtop = t, rright = rleft r2, rbottom = b\<rparr>"
      have unf: "subtract_loop reg B1 B2 left t b s = do { ((ok, pReg), s) \<leftarrow> add_rect reg ?R s;
          if \<not> ok then Some ((False, pReg), s)
          else (if rright r2 \<ge> rright r1
                then subtract_loop pReg r1s (r2 # r2s) (next_left r1s (rright r2)) t b s
                else subtract_loop pReg (r1 # r1s) r2s (rright r2) t b s) }"
        using inside by (simp add: 3 Let_def cong: if_cong)
      show ?thesis
        unfolding unf
      proof (rule extends_bind [OF add_rect_extends [OF less.prems(1)]])
        fix reg1 and s1 :: "'a env_scheme" and B
        assume c: "cap reg1" and B: "B = [?R]"
        show "extends reg1 s1
          (if rright r2 \<ge> rright r1
           then subtract_loop reg1 r1s (r2 # r2s) (next_left r1s (rright r2)) t b s1
           else subtract_loop reg1 (r1 # r1s) r2s (rright r2) t b s1)
          (\<lambda>B'. is_band t b (B @ B') \<and> columns (B @ B') = rest_columns B1 left - columns B2)"
        proof (rule extends_mono [OF cut [OF c]])
          fix B'
          assume B': "is_band t b B' \<and> columns B' =
             {x. rright r2 \<le> x} \<inter> (rest_columns (r1 # r1s) left - columns (r2 # r2s))"
          have "is_band t b (B @ B')"
            using B' inside o2'(2) by (auto simp: B intro!: is_band_Cons)
          moreover have "columns (B @ B') = rest_columns B1 left - columns B2"
            using B' inside o2'(2) g
            by (auto simp: B 3 mem_columns_Cons rest_columns_def) (smt (verit))+
          ultimately show "is_band t b (B @ B') \<and> columns (B @ B') = rest_columns B1 left - columns B2" by blast
        qed (use inside in auto)
      qed
    next
      case beyond
      let ?R = "\<lparr>rleft = left, rtop = t, rright = rright r1, rbottom = b\<rparr>"
      have unf: "subtract_loop reg B1 B2 left t b s = do { ((ok, pReg), s) \<leftarrow> add_rect reg ?R s;
          if \<not> ok then Some ((False, pReg), s)
          else subtract_loop pReg r1s (r2 # r2s) (next_left r1s left) t b s }"
        using beyond o1 by (simp add: 3 Let_def)
      show ?thesis
        unfolding unf
      proof (rule extends_bind [OF add_rect_extends [OF less.prems(1)]])
        fix reg1 and s1 :: "'a env_scheme" and B
        assume c: "cap reg1" and B: "B = [?R]"
        show "extends reg1 s1 (subtract_loop reg1 r1s (r2 # r2s) (next_left r1s left) t b s1)
          (\<lambda>B'. is_band t b (B @ B') \<and> columns (B @ B') = rest_columns B1 left - columns B2)"
        proof (rule extends_mono [OF next1 [OF c]])
          fix B'
          assume B': "is_band t b B' \<and> columns B' = columns r1s - columns (r2 # r2s)"
          have "is_band t b (B @ B')"
            using B' beyond o1 g by (auto simp: B intro!: is_band_Cons)
          moreover have "x \<in> columns (B @ B') \<longleftrightarrow> x \<in> rest_columns B1 left - columns B2" for x
            using B' beyond o1 o2'(2) g [of x]
            by (cases "x < rright r1") (auto simp: B 3 mem_columns_Cons rest_columns_Cons)
          ultimately show "is_band t b (B @ B') \<and> columns (B @ B') = rest_columns B1 left - columns B2" by blast
        qed
      qed
    qed
  qed
qed

lemma subtract_overlapping_band:
  fixes s :: "'a env_scheme"
  assumes "cap reg" "x_ordered B1" "B1 \<noteq> []" "x_ordered B2"
  shows "extends reg s (subtract_overlapping reg B1 B2 t b s)
           (\<lambda>B. is_band t b B \<and> columns B = columns B1 - columns B2)"
proof -
  obtain r rs where B1: "B1 = r # rs" using assms(3) by (cases B1) auto
  have "at_left B1 (rleft r)" "rest_columns B1 (rleft r) = columns B1"
    using assms(2) by (auto simp: B1 at_left_def x_ordered_Cons rest_columns_Cons mem_columns_Cons)
  then show ?thesis
    using subtract_loop_band [OF assms(1) _ assms(4), of B1 "rleft r" s t b]
    by (simp add: subtract_overlapping_def B1)
qed

text \<open>
  The union may widen the last rectangle instead of adding one: what it has put after the
  rectangles \<open>old\<close> is measured from a region that holds \<open>old\<close> only.
\<close>

lemma extends_bind_over:
  fixes s :: "'a env_scheme"
  assumes "extends reg0 s res P"
    and "\<And>reg1 (s1 :: 'a env_scheme) B. rects reg1 = rects reg0 @ B \<Longrightarrow> P B \<Longrightarrow> cap reg1 \<Longrightarrow>
           extends (reg1\<lparr>rects := rects reg0\<rparr>) s1 (f reg1 s1) Q"
  shows "extends reg0 s (do { ((ok, reg1), s1) \<leftarrow> res;
                              if \<not> ok then Some ((False, reg1), s1) else f reg1 s1 }) Q"
proof -
  obtain ok reg1 s1 where 1: "res = Some ((ok, reg1), s1)" "alloc_step ok s s1" "cap reg1"
    "extents reg1 = extents reg0" "ok \<longrightarrow> (\<exists>B. rects reg1 = rects reg0 @ B \<and> P B)"
    using assms(1) by (rule extendsE)
  show ?thesis
  proof (cases ok)
    case False
    then show ?thesis using 1(1-4) by (simp add: extends_def)
  next
    case True
    then obtain B where B: "rects reg1 = rects reg0 @ B" "P B" using 1(5) by blast
    obtain ok2 reg2 s2 where 2: "f reg1 s1 = Some ((ok2, reg2), s2)" "alloc_step ok2 s1 s2"
      "cap reg2" "extents reg2 = extents (reg1\<lparr>rects := rects reg0\<rparr>)"
      "ok2 \<longrightarrow> (\<exists>B'. rects reg2 = rects (reg1\<lparr>rects := rects reg0\<rparr>) @ B' \<and> Q B')"
      using assms(2) [OF B 1(3)] by (rule extendsE)
    have "alloc_step ok2 s s2" using 1(2) 2(2) True by (auto intro: alloc_step_trans)
    then show ?thesis using 1(1,4) 2 True by (simp add: extends_def)
  qed
qed

definition merging :: "int \<Rightarrow> int \<Rightarrow> rectangle list \<Rightarrow> rectangle list \<Rightarrow> rectangle list \<Rightarrow> rectangle list \<Rightarrow> bool" where
  "merging t b old B B1 B2 \<longleftrightarrow> is_band t b B \<and> x_ordered B1 \<and> x_ordered B2 \<and>
     (\<forall>r\<in>set old. rtop r \<noteq> t) \<and> (\<forall>q\<in>set B1 \<union> set B2. B \<noteq> [] \<longrightarrow> rleft (last B) \<le> rleft q)"

lemma MERGERECT_band:
  fixes s :: "'a env_scheme"
  assumes c: "cap reg" and reg: "rects reg = old @ B" and B: "is_band t b B" and r: "rleft r < rright r"
    and old: "\<forall>q\<in>set old. rtop q \<noteq> t" and le: "B \<noteq> [] \<Longrightarrow> rleft (last B) \<le> rleft r"
  shows "extends (reg\<lparr>rects := old\<rparr>) s (MERGERECT reg r t b s)
    (\<lambda>B'. is_band t b B' \<and> columns B' = columns B \<union> columns [r] \<and> B' \<noteq> [] \<and> rleft (last B') \<le> rleft r)"
proof -
  let ?q = "last (rects reg)"
  let ?R = "\<lparr>rleft = rleft r, rtop = t, rright = rright r, rbottom = b\<rparr>"
  have same: "num_rects reg \<noteq> 0 \<and> rtop ?q = t \<and> rbottom ?q = b \<longleftrightarrow> B \<noteq> []"
  proof (cases "B = []")
    case True
    then show ?thesis using reg old last_in_set [of old] by (auto simp: num_rects_def)
  next
    case False
    then show ?thesis using reg B last_in_set [OF False] by (auto simp: num_rects_def is_band_def)
  qed
  show ?thesis
  proof (cases "B \<noteq> [] \<and> rright (last B) \<ge> rleft r")
    case True
    then obtain B0 q where Bq: "B = B0 @ [q]" by (metis append_butlast_last_id)
    have q: "?q = q" "rright q \<ge> rleft r" "rleft q \<le> rleft r" "rleft q < rright q"
      using True reg le B by (auto simp: Bq is_band_def x_ordered_def)
    have MR: "MERGERECT reg r t b s =
        Some ((True, if rright q < rright r then reg\<lparr>rects := old @ B0 @ [q\<lparr>rright := rright r\<rparr>]\<rparr> else reg), s)"
      using same True q reg by (auto simp: MERGERECT_def Let_def Bq butlast_append)
    let ?B' = "B0 @ [q\<lparr>rright := max (rright q) (rright r)\<rparr>]"
    have "is_band t b ?B'"
      using B q by (auto simp: Bq is_band_def x_ordered_def sorted_wrt_append)
    moreover have "columns ?B' = columns B \<union> columns [r]"
      using q r by (auto simp: Bq mem_columns_Cons)
    moreover have "rects (if rright q < rright r then reg\<lparr>rects := old @ B0 @ [q\<lparr>rright := rright r\<rparr>]\<rparr> else reg)
        = old @ ?B'"
      using reg by (auto simp: Bq max_def)
    ultimately show ?thesis
      using c reg q MR by (auto simp: extends_def cap_def num_rects_def Bq split: if_splits)
  next
    case False
    have MR: "MERGERECT reg r t b s = add_rect reg ?R s"
      using same False reg by (auto simp: MERGERECT_def Let_def)
    have "x \<in> columns B \<Longrightarrow> x < rleft r" for x
    proof -
      assume "x \<in> columns B"
      then obtain p where p: "p \<in> set B" "x < rright p" by (auto simp: columns_def)
      have "rright p \<le> rright (last B)"
      proof (cases "p = last B")
        case no: False
        obtain B0 q where Bq: "B = B0 @ [q]" using p by (metis append_butlast_last_id empty_iff list.set(1))
        then show ?thesis
          using B p no by (fastforce simp: is_band_def x_ordered_def sorted_wrt_append)
      qed simp
      then show "x < rleft r" using p False by auto
    qed
    have o: "is_band t b (B @ [?R])"
    proof -
      have "rright p < rleft r" if "p \<in> set B" for p
      proof -
        have "B \<noteq> []" using that by auto
        then have "rright (last B) < rleft r" using False by auto
        moreover have "rright p \<le> rright (last B)"
        proof (cases "p = last B")
          case no: False
          obtain B0 q where Bq: "B = B0 @ [q]" using \<open>B \<noteq> []\<close> by (metis append_butlast_last_id)
          then show ?thesis
            using B that no by (fastforce simp: is_band_def x_ordered_def sorted_wrt_append)
        qed simp
        ultimately show ?thesis by simp
      qed
      then show ?thesis using B r by (auto simp: is_band_def x_ordered_def sorted_wrt_append)
    qed
    obtain ok reg' s' where a: "add_rect reg ?R s = Some ((ok, reg'), s')" "alloc_step ok s s'" "cap reg'"
      "extents reg' = extents reg" "ok \<longrightarrow> (\<exists>C. rects reg' = rects reg @ C \<and> C = [?R])"
      using add_rect_extends [OF c] by (rule extendsE)
    have "ok \<Longrightarrow> rects reg' = old @ B @ [?R]" using a(5) reg by simp
    then show ?thesis
      using a(1-4) o by (auto simp: MR extends_def mem_columns_Cons intro!: exI [of _ "B @ [?R]"])
  qed
qed

lemma union_overlapping_band:
  fixes s :: "'a env_scheme"
  assumes "cap reg" "rects reg = old @ B" "merging t b old B B1 B2"
  shows "extends (reg\<lparr>rects := old\<rparr>) s (union_overlapping reg B1 B2 t b s)
           (\<lambda>B'. is_band t b B' \<and> columns B' = columns B \<union> columns B1 \<union> columns B2)"
  using assms
proof (induction "length B1 + length B2" arbitrary: reg B B1 B2 s rule: less_induct)
  case less
  have step: "extends (reg\<lparr>rects := old\<rparr>) s
      (do { ((ok, pReg), s) \<leftarrow> MERGERECT reg r t b s;
            if \<not> ok then Some ((False, pReg), s) else union_overlapping pReg C1 C2 t b s })
      (\<lambda>B'. is_band t b B' \<and> columns B' = columns B \<union> columns B1 \<union> columns B2)"
    if len: "length C1 + length C2 < length B1 + length B2"
      and x: "x_ordered C1" "x_ordered C2" "rleft r < rright r" "r \<in> set B1 \<union> set B2"
      and le: "\<forall>q\<in>set C1 \<union> set C2. rleft r \<le> rleft q"
      and cols: "columns B1 \<union> columns B2 = columns [r] \<union> columns C1 \<union> columns C2" for r C1 C2
  proof (rule extends_bind_over)
    have m: "is_band t b B" "\<forall>q\<in>set old. rtop q \<noteq> t" "B \<noteq> [] \<Longrightarrow> rleft (last B) \<le> rleft r"
      using less.prems(3) x(4) by (auto simp: merging_def)
    show "extends (reg\<lparr>rects := old\<rparr>) s (MERGERECT reg r t b s)
      (\<lambda>B'. is_band t b B' \<and> columns B' = columns B \<union> columns [r] \<and> B' \<noteq> [] \<and> rleft (last B') \<le> rleft r)"
      by (rule MERGERECT_band [OF less.prems(1,2) m(1) x(3) m(2,3)])
  next
    fix reg1 and s1 :: "'a env_scheme" and B'
    assume 1: "rects reg1 = rects (reg\<lparr>rects := old\<rparr>) @ B'"
      "is_band t b B' \<and> columns B' = columns B \<union> columns [r] \<and> B' \<noteq> [] \<and> rleft (last B') \<le> rleft r" "cap reg1"
    have "rleft (last B') \<le> rleft q" if "q \<in> set C1 \<union> set C2" for q
      using 1(2) le that by force
    then have "merging t b old B' C1 C2"
      using less.prems(3) 1(2) x(1,2) unfolding merging_def by blast
    then have "extends (reg1\<lparr>rects := old\<rparr>) s1 (union_overlapping reg1 C1 C2 t b s1)
        (\<lambda>B''. is_band t b B'' \<and> columns B'' = columns B' \<union> columns C1 \<union> columns C2)"
      using less.hyps [OF len 1(3)] 1(1) by simp
    then show "extends (reg1\<lparr>rects := rects (reg\<lparr>rects := old\<rparr>)\<rparr>) s1 (union_overlapping reg1 C1 C2 t b s1)
        (\<lambda>B'. is_band t b B' \<and> columns B' = columns B \<union> columns B1 \<union> columns B2)"
      by (simp, elim extends_mono) (use 1(2) cols in auto)
  qed
  have o: "x_ordered B1" "x_ordered B2" using less.prems(3) by (auto simp: merging_def)
  consider (1) "B1 = []" "B2 = []" | (2) r1 r1s where "B1 = r1 # r1s" "B2 = []"
    | (3) r2 r2s where "B1 = []" "B2 = r2 # r2s" | (4) r1 r1s r2 r2s where "B1 = r1 # r1s" "B2 = r2 # r2s"
    by (cases B1; cases B2) auto
  note split = this
  have hd_le: "rleft p \<le> rleft q" if "x_ordered (p # ps)" "q \<in> set ps" for p q ps
    using that by (fastforce simp: x_ordered_Cons)
  have col: "columns (p # ps) = columns [p] \<union> columns ps" for p ps
    by (auto simp: mem_columns_Cons)
  from split show ?case
  proof cases
    case 1
    then show ?thesis
      using less.prems by (simp add: extends_def merging_def cap_def num_rects_def)
  next
    case 2
    have "columns B1 \<union> columns B2 = columns [r1] \<union> columns r1s \<union> columns []"
      using 2 col [of r1 r1s] by auto
    then show ?thesis
      using step [of r1s "[]" r1] o hd_le [of r1 r1s] by (simp add: 2 x_ordered_Cons)
  next
    case 3
    have "columns B1 \<union> columns B2 = columns [r2] \<union> columns [] \<union> columns r2s"
      using 3 col [of r2 r2s] by auto
    then show ?thesis
      using step [of "[]" r2s r2] o hd_le [of r2 r2s] by (simp add: 3 x_ordered_Cons)
  next
    case 4
    show ?thesis
    proof (cases "rleft r1 < rleft r2")
      case True
      have "columns B1 \<union> columns B2 = columns [r1] \<union> columns r1s \<union> columns (r2 # r2s)"
        using 4 col [of r1 r1s] by auto
      moreover have "\<forall>q\<in>set r1s \<union> set (r2 # r2s). rleft r1 \<le> rleft q"
        using True o hd_le [of r1 r1s] hd_le [of r2 r2s] 4 by fastforce
      ultimately show ?thesis
        using step [of r1s "r2 # r2s" r1] o True by (simp add: 4 x_ordered_Cons)
    next
      case False
      have "columns B1 \<union> columns B2 = columns [r2] \<union> columns (r1 # r1s) \<union> columns r2s"
        using 4 col [of r2 r2s] by auto
      moreover have "\<forall>q\<in>set (r1 # r1s) \<union> set r2s. rleft r2 \<le> rleft q"
        using False o hd_le [of r1 r1s] hd_le [of r2 r2s] 4 by fastforce
      ultimately show ?thesis
        using step [of "r1 # r1s" r2s r2] o False by (simp add: 4 x_ordered_Cons)
    qed
  qed
qed

interpretation inter: banded_op "(\<and>)" intersect_overlapping None None
proof
  fix reg t1 b1 B1 t2 b2 B2 t b and s :: "'a env_scheme"
  assume "cap reg" "is_band t1 b1 B1" "is_band t2 b2 B2"
  then show "extends reg s (intersect_overlapping reg B1 B2 t b s)
     (\<lambda>B. is_band t b B \<and> columns B = {x. x \<in> columns B1 \<and> x \<in> columns B2})"
    using intersect_overlapping_band [of reg B1 B2 s t b] by (simp add: is_band_def Collect_conj_eq)
qed (simp_all add: opt_band_def extends_none)

interpretation diff: banded_op "\<lambda>a b. a \<and> \<not> b" subtract_overlapping "Some subtract_non_overlapping" None
proof
  fix reg t1 b1 B1 t2 b2 B2 t b and s :: "'a env_scheme"
  assume "cap reg" "is_band t1 b1 B1" "is_band t2 b2 B2" "B1 \<noteq> []"
  then show "extends reg s (subtract_overlapping reg B1 B2 t b s)
     (\<lambda>B. is_band t b B \<and> columns B = {x. x \<in> columns B1 \<and> x \<notin> columns B2})"
    using subtract_overlapping_band [of reg B1 B2 s t b] by (simp add: is_band_def set_diff_eq)
next
  fix reg :: region and t1 b1 t b :: int and B1 :: "rectangle list" and s :: "'a env_scheme"
  assume "cap reg" "is_band t1 b1 B1" "t < b"
  then show "extends reg s (opt_band (Some subtract_non_overlapping) reg B1 t b s)
     (\<lambda>B. is_band t b B \<and> columns B = {x \<in> columns B1. True \<and> \<not> False})"
    using subtract_non_overlapping_band [of reg B1 s t b] by (simp add: is_band_def opt_band_def)
qed (simp_all add: opt_band_def extends_none)

interpretation union: banded_op "(\<or>)" union_overlapping "Some union_non_overlapping" "Some union_non_overlapping"
proof
  fix reg t1 b1 B1 t2 b2 B2 t b and s :: "'a env_scheme"
  assume "cap reg" "is_band t1 b1 B1" "is_band t2 b2 B2"
    and "\<forall>r\<in>set (rects reg). rbottom r \<le> t \<and> nonempty r"
  then show "extends reg s (union_overlapping reg B1 B2 t b s)
     (\<lambda>B. is_band t b B \<and> columns B = {x. x \<in> columns B1 \<or> x \<in> columns B2})"
    using union_overlapping_band [of reg "rects reg" "[]" t b B1 B2 s]
    by (fastforce simp: merging_def is_band_def nonempty_def Un_def)
next
  fix reg :: region and t1 b1 t b :: int and B1 :: "rectangle list" and s :: "'a env_scheme"
  assume "cap reg" "is_band t1 b1 B1" "t < b"
  then show "extends reg s (opt_band (Some union_non_overlapping) reg B1 t b s)
     (\<lambda>B. is_band t b B \<and> columns B = {x \<in> columns B1. True \<or> False})"
    "extends reg s (opt_band (Some union_non_overlapping) reg B1 t b s)
     (\<lambda>B. is_band t b B \<and> columns B = {x \<in> columns B1. False \<or> True})"
    using subtract_non_overlapping_band [of reg B1 s t b]
    by (simp_all add: is_band_def opt_band_def union_non_overlapping_eq)
qed simp_all

end
