(* ===== verification/Region_Ops.thy ===== *)
theory Region_Ops
  imports Region_Correct
begin

text \<open>
  The public functions of \<^verbatim>\<open>server/region.c\<close>.  Whatever pointers the caller passes, equal
  or not, the destination ends up with the set of points the operation names, in banded
  order and with exact extents, and no other region changes.  An operation fails only when
  the allocator does, and then reports \<^verbatim>\<open>STATUS_NO_MEMORY\<close>.
\<close>

subsection \<open>Extents\<close>

definition extend_x :: "rectangle \<Rightarrow> rectangle \<Rightarrow> rectangle" where
  "extend_x r e = (let e = (if rleft r < rleft e then e\<lparr>rleft := rleft r\<rparr> else e)
                   in if rright r > rright e then e\<lparr>rright := rright r\<rparr> else e)"

lemma extend_x_sel [simp]:
  "rtop (extend_x r e) = rtop e" "rbottom (extend_x r e) = rbottom e"
  "rleft (extend_x r e) = min (rleft r) (rleft e)" "rright (extend_x r e) = max (rright r) (rright e)"
  by (simp_all add: extend_x_def Let_def)

lemma fold_extend_x:
  "rtop (fold extend_x rs e) = rtop e \<and> rbottom (fold extend_x rs e) = rbottom e \<and>
   (\<forall>r\<in>set rs. rleft (fold extend_x rs e) \<le> rleft r \<and> rright r \<le> rright (fold extend_x rs e)) \<and>
   rleft (fold extend_x rs e) \<le> rleft e \<and> rright e \<le> rright (fold extend_x rs e) \<and>
   rleft (fold extend_x rs e) \<in> insert (rleft e) (rleft ` set rs) \<and>
   rright (fold extend_x rs e) \<in> insert (rright e) (rright ` set rs)"
proof (induction rs arbitrary: e)
  case (Cons r rs)
  show ?case using Cons.IH [of "extend_x r e"] by (auto simp: min_def max_def split: if_splits)
qed simp

lemma set_region_extents_fold:
  "set_region_extents reg = (if rects reg = [] then reg\<lparr>extents := empty_rect\<rparr>
     else reg\<lparr>extents := fold extend_x (rects reg)
       \<lparr>rleft = rleft (hd (rects reg)), rtop = rtop (hd (rects reg)),
        rright = rright (last (rects reg)), rbottom = rbottom (last (rects reg))\<rparr>\<rparr>)"
  by (simp add: set_region_extents_def num_rects_def extend_x_def [abs_def] Let_def)

lemma banded_ends:
  assumes "banded rs" "r \<in> set rs"
  shows "rtop (hd rs) \<le> rtop r \<and> rbottom r \<le> rbottom (last rs)"
proof
  show "rtop (hd rs) \<le> rtop r"
    using assms by (cases rs) (auto simp: banded_def before_def nonempty_def)
  obtain ys z where rs: "rs = ys @ [z]" using assms(2) by (metis empty_iff list.set(1) rev_exhaust)
  show "rbottom r \<le> rbottom (last rs)"
    using assms by (fastforce simp: rs banded_def before_def nonempty_def sorted_wrt_append)
qed

lemma set_region_extents_ok:
  assumes "cap reg" "banded (rects reg)"
  shows "region_ok (set_region_extents reg)" "rects (set_region_extents reg) = rects reg"
proof -
  show "rects (set_region_extents reg) = rects reg" by (simp add: set_region_extents_fold)
  show "region_ok (set_region_extents reg)"
  proof (cases "rects reg = []")
    case True
    then show ?thesis
      using assms by (simp add: set_region_extents_fold region_ok_def extents_ok_def cap_def num_rects_def)
  next
    case False
    define e0 where "e0 = \<lparr>rleft = rleft (hd (rects reg)), rtop = rtop (hd (rects reg)),
        rright = rright (last (rects reg)), rbottom = rbottom (last (rects reg))\<rparr>"
    define e where "e = fold extend_x (rects reg) e0"
    note f = fold_extend_x [of "rects reg" e0, folded e_def]
    have ne: "nonempty r" if "r \<in> set (rects reg)" for r using assms(2) that by (simp add: banded_def)
    have hl: "hd (rects reg) \<in> set (rects reg)" "last (rects reg) \<in> set (rects reg)" using False by auto
    have "\<exists>r\<in>set (rects reg). rleft r = rleft e" "\<exists>r\<in>set (rects reg). rright r = rright e"
      using f hl by (auto simp: e0_def)
    then obtain l r where l: "l \<in> set (rects reg)" "rleft l = rleft e"
      and r: "r \<in> set (rects reg)" "rright r = rright e" by blast
    have "bounds e (points (rects reg))"
      unfolding bounds_def
    proof (intro conjI allI impI)
      fix x y assume "(x, y) \<in> points (rects reg)"
      then obtain q where q: "q \<in> set (rects reg)" "rleft q \<le> x" "x < rright q" "rtop q \<le> y" "y < rbottom q"
        by (auto simp: points_def)
      then show "rleft e \<le> x" "x < rright e" "rtop e \<le> y" "y < rbottom e"
        using f banded_ends [OF assms(2) q(1)] by (force simp: e0_def)+
    next
      show "\<exists>y. (rleft e, y) \<in> points (rects reg)"
        using nonempty_corner [OF ne [OF l(1)] l(1)] l(2) by auto
      show "\<exists>y. (rright e - 1, y) \<in> points (rects reg)"
        using ne [OF r(1)] r by (auto simp: points_def nonempty_def intro!: exI [of _ "rtop r"] bexI [of _ r])
      show "\<exists>x. (x, rtop e) \<in> points (rects reg)"
        using nonempty_corner [OF ne [OF hl(1)] hl(1)] f by (auto simp: e0_def)
      show "\<exists>x. (x, rbottom e - 1) \<in> points (rects reg)"
        using ne [OF hl(2)] hl(2) f
        by (auto simp: points_def nonempty_def e0_def intro!: exI [of _ "rleft (last (rects reg))"] bexI [of _ "last (rects reg)"])
    qed
    then show ?thesis
      using assms False
      by (simp add: set_region_extents_fold region_ok_def extents_ok_def cap_def num_rects_def e_def e0_def)
  qed
qed

lemma region_ok_outside:
  assumes "region_ok reg1" "region_ok reg2"
    "num_rects reg1 = 0 \<or> num_rects reg2 = 0 \<or> \<not> EXTENTCHECK (extents reg1) (extents reg2)"
  shows "points (rects reg1) \<inter> points (rects reg2) = {}"
proof (cases "rects reg1 = [] \<or> rects reg2 = []")
  case False
  have "bounds (extents reg1) (points (rects reg1))" "bounds (extents reg2) (points (rects reg2))"
    using assms(1,2) False by (simp_all add: region_ok_def extents_ok_def)
  then show ?thesis
    using assms(3) False by (fastforce simp: bounds_def EXTENTCHECK_def num_rects_def)
qed auto

lemma bounds_union:
  assumes "bounds e1 P1" "bounds e2 P2"
  shows "bounds \<lparr>rleft = min (rleft e1) (rleft e2), rtop = min (rtop e1) (rtop e2),
     rright = max (rright e1) (rright e2), rbottom = max (rbottom e1) (rbottom e2)\<rparr> (P1 \<union> P2)"
proof -
  have i: "(x, y) \<in> P1 \<Longrightarrow> rleft e1 \<le> x \<and> x < rright e1 \<and> rtop e1 \<le> y \<and> y < rbottom e1"
    "(x, y) \<in> P2 \<Longrightarrow> rleft e2 \<le> x \<and> x < rright e2 \<and> rtop e2 \<le> y \<and> y < rbottom e2" for x y
    using assms by (simp_all add: bounds_def)
  have w: "\<exists>y. (rleft e1, y) \<in> P1" "\<exists>y. (rright e1 - 1, y) \<in> P1" "\<exists>x. (x, rtop e1) \<in> P1"
    "\<exists>x. (x, rbottom e1 - 1) \<in> P1" "\<exists>y. (rleft e2, y) \<in> P2" "\<exists>y. (rright e2 - 1, y) \<in> P2"
    "\<exists>x. (x, rtop e2) \<in> P2" "\<exists>x. (x, rbottom e2 - 1) \<in> P2"
    using assms by (simp_all add: bounds_def)
  show ?thesis
    unfolding bounds_def
  proof (intro conjI allI impI; (elim UnE)?)
  qed (use w in \<open>auto simp: min_le_iff_disj less_max_iff_disj dest: i split: split_min split_max\<close>)
qed

lemma region_ok_single:
  assumes "region_ok reg" "num_rects reg = 1"
  shows "points (rects reg) = {(x, y). rleft (extents reg) \<le> x \<and> x < rright (extents reg) \<and>
           rtop (extents reg) \<le> y \<and> y < rbottom (extents reg)}"
proof -
  obtain r where r: "rects reg = [r]" using assms(2) by (auto simp: num_rects_def length_Suc_conv)
  have b: "bounds (extents reg) (points [r])" "nonempty r"
    using assms(1) r by (auto simp: region_ok_def extents_ok_def banded_def)
  have "(rleft r, rtop r) \<in> points [r]" "(rright r - 1, rbottom r - 1) \<in> points [r]"
    using b(2) by (auto simp: points_def nonempty_def)
  then have "rleft (extents reg) \<le> rleft r" "rright r - 1 < rright (extents reg)"
    "rtop (extents reg) \<le> rtop r" "rbottom r - 1 < rbottom (extents reg)"
    using b(1) by (simp_all add: bounds_def)
  moreover have "rleft r \<le> rleft (extents reg)" "rright (extents reg) - 1 < rright r"
    "rtop r \<le> rtop (extents reg)" "rbottom (extents reg) - 1 < rbottom r"
    using b(1) by (auto simp: bounds_def points_def)
  ultimately have "rleft (extents reg) = rleft r" "rright (extents reg) = rright r"
    "rtop (extents reg) = rtop r" "rbottom (extents reg) = rbottom r" by linarith+
  then show ?thesis by (simp add: r points_def)
qed


subsection \<open>What an operation promises\<close>

text \<open>
  \<open>computes dst P s res\<close>: the call returns; it changes no region but \<open>dst\<close>; when it
  succeeds \<open>dst\<close> is a well-formed region that covers \<open>P\<close>; it succeeds when memory does
  not run out, and otherwise says that memory ran out.
\<close>

definition computes :: "nat \<Rightarrow> (int \<times> int) set \<Rightarrow> 'a region_env_scheme
    \<Rightarrow> (nat option \<times> 'a region_env_scheme) option \<Rightarrow> bool" where
  "computes dst P s res \<longleftrightarrow>
     (\<exists>ret s'. res = Some (ret, s') \<and> (\<forall>p. p \<noteq> dst \<longrightarrow> regions s' p = regions s p) \<and>
        (mem_oracle s = [] \<longrightarrow> ret \<noteq> None \<and> mem_oracle s' = []) \<and>
        next_region s' = next_region s \<and> current s' = current s \<and>
        (case ret of
           None \<Rightarrow> get_error s' = STATUS_NO_MEMORY \<and> (\<exists>d. regions s' dst = Some d \<and> cap d)
         | Some q \<Rightarrow> q = dst \<and> (\<exists>d. regions s' dst = Some d \<and> region_ok d \<and> points (rects d) = P)))"

lemma computesI:
  assumes "res = Some (ret, s')" "\<And>p. p \<noteq> dst \<Longrightarrow> regions s' p = regions s p"
    "mem_oracle s = [] \<Longrightarrow> ret \<noteq> None \<and> mem_oracle s' = []"
    "next_region s' = next_region s" "current s' = current s"
    "regions s' dst = Some d" "cap d" "ret = None \<Longrightarrow> get_error s' = STATUS_NO_MEMORY"
    "ret = None \<or> ret = Some dst \<and> region_ok d \<and> points (rects d) = P"
  shows "computes dst P s res"
  using assms unfolding computes_def by (cases ret) auto

lemma rgn_upd_sel [simp]:
  "regions (rgn_upd p reg s) = (regions s)(p \<mapsto> reg)"
  "next_region (rgn_upd p reg s) = next_region s" "current (rgn_upd p reg s) = current s"
  "mem_oracle (rgn_upd p reg s) = mem_oracle s"
  "get_error (rgn_upd p reg s) = get_error s"
  by (simp_all add: rgn_upd_def get_error_def split: option.split)

lemma set_error_region_env [simp]:
  "regions (set_error e s) = regions s" "next_region (set_error e s) = next_region s"
  by (simp_all add: set_error_def)

lemma alloc_step_regions:
  assumes "alloc_step ok s s'"
  shows "regions s' = regions s" "next_region s' = next_region s" "current s' = current s"
    "mem_oracle s = [] \<Longrightarrow> ok \<and> mem_oracle s' = []" "\<not> ok \<Longrightarrow> get_error s' = STATUS_NO_MEMORY"
  using assms by (cases s; cases s'; auto simp: alloc_step_def)+

text \<open>The extents after a call of \<^verbatim>\<open>region_op\<close> are recomputed by \<open>f\<close>.\<close>

lemma computes_region_op:
  assumes op: "\<exists>ok reg' s'. res = Some ((ok, reg'), s') \<and> alloc_step ok s s' \<and> cap reg' \<and>
      (ok \<longrightarrow> banded (rects reg') \<and> points (rects reg') = P)"
    and f: "\<And>reg'. cap reg' \<Longrightarrow> banded (rects reg') \<Longrightarrow> points (rects reg') = P \<Longrightarrow>
      region_ok (f reg') \<and> rects (f reg') = rects reg'"
  shows "computes dst P s (do { ((ok, d), s) \<leftarrow> res;
            let s = rgn_upd dst d s;
            if \<not> ok then Some (None, s) else Some (Some dst, rgn_upd dst (f d) s) })"
proof -
  obtain ok reg' s' where r: "res = Some ((ok, reg'), s')" "alloc_step ok s s'" "cap reg'"
    "ok \<longrightarrow> banded (rects reg') \<and> points (rects reg') = P" using op by blast
  show ?thesis
  proof (cases ok)
    case True
    then have "region_ok (f reg') \<and> rects (f reg') = rects reg'" using r f by blast
    then show ?thesis
      using r True by (auto intro!: computesI simp: alloc_step_regions [OF r(2)] region_ok_def)
  next
    case False
    then show ?thesis
      using r by (auto intro!: computesI simp: alloc_step_regions [OF r(2)])
  qed
qed

lemma copy_region_computes:
  assumes d: "regions s dst = Some d" and src: "regions s src = Some r"
    and ok: "cap d" "region_ok r" "P = points (rects r)"
  shows "computes dst P s (copy_region dst src s)"
proof (cases "dst = src")
  case True
  then show ?thesis
    using assms by (auto simp: copy_region_def region_ok_def intro!: computesI)
next
  case False
  obtain b s1 where m: "malloc s = (b, s1)" by (cases "malloc s")
  then have "alloc_step True s s1" by (rule realloc_step)
  note st = alloc_step_regions [OF this]
  have mem: "mem_oracle s = [] \<Longrightarrow> b" using m by simp
  have fit: "region_ok (d\<lparr>rgn_size := n, rects := rects r, extents := extents r\<rparr>) \<and>
      cap (d\<lparr>rgn_size := n, rects := rects r, extents := extents r\<rparr>)"
    if "num_rects r \<le> n" "2 \<le> n" for n
    using ok that by (simp add: region_ok_def cap_def num_rects_def extents_ok_def)
  have fit': "region_ok (d\<lparr>rects := rects r, extents := extents r\<rparr>) \<and>
      cap (d\<lparr>rects := rects r, extents := extents r\<rparr>)" if "\<not> rgn_size d < num_rects r"
    using ok that by (simp add: region_ok_def cap_def num_rects_def extents_ok_def)
  show ?thesis
  proof (cases "rgn_size d < num_rects r")
    case grow: True
    then have big: "2 \<le> num_rects r" using ok(1) by (simp add: cap_def)
    show ?thesis
    proof (cases b)
      case True
      then have "copy_region dst src s = Some (Some dst, rgn_upd dst
          (d\<lparr>rgn_size := num_rects r, rects := rects r, extents := extents r\<rparr>) s1)"
        using False assms m grow by (simp add: copy_region_def)
      then show ?thesis
        by (rule computesI) (use fit [OF order_refl big] st(1-4) ok(3) in auto)
    next
      case no: False
      then have "copy_region dst src s = Some (None, set_error STATUS_NO_MEMORY s1)"
        using False assms m grow by (simp add: copy_region_def)
      then show ?thesis
        by (rule computesI) (use st(1-4) ok(1) d mem no in auto)
    qed
  next
    case no: False
    then have "copy_region dst src s = Some (Some dst, rgn_upd dst (d\<lparr>rects := rects r, extents := extents r\<rparr>) s)"
      using False assms by (simp add: copy_region_def)
    then show ?thesis
      by (rule computesI) (use fit' [OF no] ok(3) in auto)
  qed
qed

lemma empty_region_ok: "cap d \<Longrightarrow> region_ok (d\<lparr>rects := [], extents := empty_rect\<rparr>)"
  by (simp add: region_ok_def cap_def num_rects_def extents_ok_def)

lemma Collect_pair_op:
  "{(x, y). (x, y) \<in> A \<and> (x, y) \<in> B} = A \<inter> B" "{(x, y). (x, y) \<in> A \<and> (x, y) \<notin> B} = A - B"
  "{(x, y). (x, y) \<in> A \<or> (x, y) \<in> B} = A \<union> B"
  by auto

lemma set_region_extents_finish:
  "cap reg \<Longrightarrow> banded (rects reg) \<Longrightarrow>
   region_ok (set_region_extents reg) \<and> rects (set_region_extents reg) = rects reg"
  using set_region_extents_ok by blast

lemma intersect_region_computes:
  assumes "regions s dst = Some d" "regions s src1 = Some r1" "regions s src2 = Some r2"
    and ok: "cap d" "region_ok r1" "region_ok r2"
  shows "computes dst (points (rects r1) \<inter> points (rects r2)) s (intersect_region dst src1 src2 s)"
proof (cases "num_rects r1 = 0 \<or> num_rects r2 = 0 \<or> \<not> EXTENTCHECK (extents r1) (extents r2)")
  case True
  then have "points (rects r1) \<inter> points (rects r2) = {}"
    using region_ok_outside [OF ok(2,3)] by auto
  then show ?thesis
    using assms True empty_region_ok [OF ok(1)]
    by (auto simp: intersect_region_def region_ok_def intro!: computesI)
next
  case False
  then have ne: "rects r1 \<noteq> []" "rects r2 \<noteq> []" by (auto simp: num_rects_def)
  have "computes dst (points (rects r1) \<inter> points (rects r2)) s
      (do { ((ok, d), s) \<leftarrow> region_op d r1 r2 intersect_overlapping None None s;
            let s = rgn_upd dst d s;
            if \<not> ok then Some (None, s) else Some (Some dst, rgn_upd dst (set_region_extents d) s) })"
    by (rule computes_region_op)
      (use inter.region_op_correct [OF ok(2,3) ne ok(1)] set_region_extents_finish in
        \<open>simp_all add: Collect_pair_op\<close>)
  then show ?thesis
    using assms False by (simp add: intersect_region_def)
qed

lemma subtract_region_computes:
  assumes "regions s dst = Some d" "regions s src1 = Some r1" "regions s src2 = Some r2"
    and ok: "cap d" "region_ok r1" "region_ok r2"
  shows "computes dst (points (rects r1) - points (rects r2)) s (subtract_region dst src1 src2 s)"
proof (cases "num_rects r1 = 0 \<or> num_rects r2 = 0 \<or> \<not> EXTENTCHECK (extents r1) (extents r2)")
  case True
  then have P: "points (rects r1) - points (rects r2) = points (rects r1)"
    using region_ok_outside [OF ok(2,3)] by auto
  then show ?thesis
    using assms True by (auto simp: subtract_region_def intro!: copy_region_computes)
next
  case False
  then have ne: "rects r1 \<noteq> []" "rects r2 \<noteq> []" by (auto simp: num_rects_def)
  have "computes dst (points (rects r1) - points (rects r2)) s
      (do { ((ok, d), s) \<leftarrow> region_op d r1 r2 subtract_overlapping (Some subtract_non_overlapping) None s;
            let s = rgn_upd dst d s;
            if \<not> ok then Some (None, s) else Some (Some dst, rgn_upd dst (set_region_extents d) s) })"
    by (rule computes_region_op)
      (use diff.region_op_correct [OF ok(2,3) ne ok(1)] set_region_extents_finish in
        \<open>simp_all add: Collect_pair_op\<close>)
  then show ?thesis
    using assms False by (simp add: subtract_region_def)
qed

lemma extents_cover_points:
  assumes "region_ok r1" "region_ok r2" "num_rects r1 = 1" "extents_cover (extents r1) (extents r2)"
  shows "points (rects r2) \<subseteq> points (rects r1)"
proof (cases "rects r2 = []")
  case False
  then have "bounds (extents r2) (points (rects r2))" using assms(2) by (simp add: region_ok_def extents_ok_def)
  then show ?thesis
    using assms(4) by (fastforce simp: region_ok_single [OF assms(1,3)] bounds_def extents_cover_def)
qed simp

lemma union_region_computes:
  assumes at: "regions s dst = Some d" "regions s src1 = Some r1" "regions s src2 = Some r2"
    and ok: "cap d" "region_ok r1" "region_ok r2"
  shows "computes dst (points (rects r1) \<union> points (rects r2)) s (union_region dst src1 src2 s)"
proof -
  let ?P = "points (rects r1) \<union> points (rects r2)"
  have copy1: "computes dst ?P s (copy_region dst src1 s)" if "points (rects r2) \<subseteq> points (rects r1)"
    by (rule copy_region_computes [OF at(1,2) ok(1,2)]) (use that in blast)
  have copy2: "computes dst ?P s (copy_region dst src2 s)" if "points (rects r1) \<subseteq> points (rects r2)"
    by (rule copy_region_computes [OF at(1,3) ok(1,3)]) (use that in blast)
  consider "src1 = src2" | "num_rects r1 = 0" "src1 \<noteq> src2"
    | "src1 \<noteq> src2" "num_rects r1 \<noteq> 0" "num_rects r2 = 0"
    | "src1 \<noteq> src2" "num_rects r1 = 1" "num_rects r2 \<noteq> 0" "extents_cover (extents r1) (extents r2)"
    | "src1 \<noteq> src2" "num_rects r1 \<noteq> 0" "\<not> (num_rects r1 = 1 \<and> extents_cover (extents r1) (extents r2))"
      "num_rects r2 = 1" "extents_cover (extents r2) (extents r1)"
    | (op) "src1 \<noteq> src2" "num_rects r1 \<noteq> 0" "num_rects r2 \<noteq> 0"
      "\<not> (num_rects r1 = 1 \<and> extents_cover (extents r1) (extents r2))"
      "\<not> (num_rects r2 = 1 \<and> extents_cover (extents r2) (extents r1))"
    by (cases "src1 = src2"; cases "num_rects r1 = 0"; cases "num_rects r2 = 0") auto
  then show ?thesis
  proof cases
    case 1
    then show ?thesis using copy1 at by (simp add: union_region_def)
  next
    case 2
    then show ?thesis using copy2 at by (simp add: union_region_def num_rects_def)
  next
    case 3
    then show ?thesis using copy1 at by (simp add: union_region_def num_rects_def)
  next
    case 4
    then show ?thesis
      using copy1 [OF extents_cover_points [OF ok(2,3)]] at by (simp add: union_region_def)
  next
    case 5
    then show ?thesis
      using copy2 [OF extents_cover_points [OF ok(3,2)]] at by (auto simp: union_region_def)
  next
    case op
    then have ne: "rects r1 \<noteq> []" "rects r2 \<noteq> []" by (auto simp: num_rects_def)
    define e where "e = \<lparr>rleft = min (rleft (extents r1)) (rleft (extents r2)),
                rtop = min (rtop (extents r1)) (rtop (extents r2)),
                rright = max (rright (extents r1)) (rright (extents r2)),
                rbottom = max (rbottom (extents r1)) (rbottom (extents r2))\<rparr>"
    have "bounds (extents r1) (points (rects r1))" "bounds (extents r2) (points (rects r2))"
      using ok(2,3) ne by (simp_all add: region_ok_def extents_ok_def)
    then have e: "bounds e ?P" unfolding e_def by (rule bounds_union)
    have f: "region_ok (reg'\<lparr>extents := e\<rparr>) \<and> rects (reg'\<lparr>extents := e\<rparr>) = rects reg'"
      if "cap reg'" "banded (rects reg')" "points (rects reg') = ?P" for reg'
    proof -
      have "rects reg' \<noteq> []" using e that(3) by (auto simp: bounds_def)
      then show ?thesis using that e by (simp add: region_ok_def extents_ok_def cap_def num_rects_def)
    qed
    have "computes dst ?P s
        (do { ((ok, d), s) \<leftarrow> region_op d r1 r2 union_overlapping
                (Some union_non_overlapping) (Some union_non_overlapping) s;
              let s = rgn_upd dst d s;
              if \<not> ok then Some (None, s) else Some (Some dst, rgn_upd dst (d\<lparr>extents := e\<rparr>) s) })"
      by (rule computes_region_op)
        (use union.region_op_correct [OF ok(2,3) ne ok(1)] f in \<open>simp_all add: Collect_pair_op\<close>)
    moreover have "union_region dst src1 src2 s =
        (do { ((ok, d), s) \<leftarrow> region_op d r1 r2 union_overlapping
                (Some union_non_overlapping) (Some union_non_overlapping) s;
              let s = rgn_upd dst d s;
              if \<not> ok then Some (None, s) else Some (Some dst, rgn_upd dst (d\<lparr>extents := e\<rparr>) s) })"
      using at op(1) unfolding union_region_def e_def
      by (simp only: if_False Option.bind_lunit op if_not_P [OF op(4)] if_not_P [OF op(5)] simp_thms)
    ultimately show ?thesis by simp
  qed
qed

lemma computesE:
  assumes "computes dst P s res"
  obtains ret s' d where "res = Some (ret, s')" "\<And>p. p \<noteq> dst \<Longrightarrow> regions s' p = regions s p"
    "mem_oracle s = [] \<Longrightarrow> ret \<noteq> None \<and> mem_oracle s' = []"
    "next_region s' = next_region s" "current s' = current s" "regions s' dst = Some d" "cap d"
    "ret = None \<Longrightarrow> get_error s' = STATUS_NO_MEMORY"
    "ret \<noteq> None \<Longrightarrow> ret = Some dst \<and> region_ok d \<and> points (rects d) = P"
  using assms unfolding computes_def by (fastforce simp: region_ok_def split: option.splits)

lemma create_empty_region_cases:
  obtains s1 where "create_empty_region s = (None, s1)" "mem_oracle s \<noteq> []" "regions s1 = regions s"
      "get_error s1 = STATUS_NO_MEMORY" "next_region s1 = next_region s" "current s1 = current s"
  | s1 where "create_empty_region s = (Some (next_region s), s1)"
      "regions s1 = (regions s)(next_region s \<mapsto> \<lparr>rgn_size = 2, rects = [], extents = empty_rect\<rparr>)"
      "next_region s1 = Suc (next_region s)" "current s1 = current s" "mem_oracle s = [] \<Longrightarrow> mem_oracle s1 = []"
proof -
  obtain b1 s1 where m1: "mem_alloc s = (b1, s1)" by (cases "mem_alloc s")
  obtain b2 s2 where m2: "mem_alloc s1 = (b2, s2)" by (cases "mem_alloc s1")
  note st1 = alloc_step_regions [OF mem_alloc_step [OF m1]]
  note st2 = alloc_step_regions [OF mem_alloc_step [OF m2]]
  show ?thesis
  proof (cases "b1 \<and> b2")
    case True
    then show ?thesis
      using m1 m2 st1(1-4) st2(1-4)
      by (intro that(2) [of "(rgn_upd (next_region s) \<lparr>rgn_size = 2, rects = [], extents = empty_rect\<rparr> s2)
                 \<lparr>next_region := Suc (next_region s)\<rparr>"])
        (auto simp: create_empty_region_def RGN_DEFAULT_RECTS_def Let_def)
  next
    case False
    show ?thesis
    proof (cases b1)
      case True
      then show ?thesis
        using False m1 m2 st1(1-4) st2
        by (intro that(1) [of s2]) (auto simp: create_empty_region_def)
    next
      case no: False
      then show ?thesis
        using m1 st1 by (intro that(1) [of s1]) (auto simp: create_empty_region_def)
    qed
  qed
qed

lemma xor_region_computes:
  fixes s :: "'a region_env_scheme"
  assumes at: "regions s dst = Some d" "regions s src1 = Some r1" "regions s src2 = Some r2"
    and ok: "cap d" "region_ok r1" "region_ok r2"
    and fresh: "regions s (next_region s) = None"
  shows "\<exists>ret s'. xor_region dst src1 src2 s = Some (ret, s') \<and>
     (\<forall>p. p \<noteq> dst \<longrightarrow> regions s' p = regions s p) \<and> (mem_oracle s = [] \<longrightarrow> ret \<noteq> None) \<and>
     (case ret of None \<Rightarrow> get_error s' = STATUS_NO_MEMORY
      | Some q \<Rightarrow> q = dst \<and> (\<exists>d. regions s' dst = Some d \<and> region_ok d \<and>
          points (rects d) = (points (rects r1) - points (rects r2)) \<union> (points (rects r2) - points (rects r1))))"
proof -
  define t where "t = next_region s"
  have tn: "t \<noteq> dst" "t \<noteq> src1" "t \<noteq> src2" using at fresh by (auto simp: t_def)
  have free: "free_region t u = Some (u\<lparr>regions := (regions u)(t := None)\<rparr>)" if "regions u t = Some x" for u x
    using that by (simp add: free_region_def)
  have err: "get_error (u\<lparr>regions := r\<rparr>) = get_error u" for u :: "'a region_env_scheme" and r
    by (simp add: get_error_def split: option.split)
  from create_empty_region_cases [of s] show ?thesis
  proof cases
    case (1 s1)
    then show ?thesis by (auto simp: xor_region_def)
  next
    case (2 s1)
    note c = 2
    have "cap \<lparr>rgn_size = 2, rects = [], extents = empty_rect\<rparr>" by (simp add: cap_def num_rects_def)
    with c at tn ok have "computes t (points (rects r1) - points (rects r2)) s1 (subtract_region t src1 src2 s1)"
      by (intro subtract_region_computes [where d = "\<lparr>rgn_size = 2, rects = [], extents = empty_rect\<rparr>"])
        (auto simp: t_def)
    then obtain a s2 dt where a: "subtract_region t src1 src2 s1 = Some (a, s2)"
      "\<And>p. p \<noteq> t \<Longrightarrow> regions s2 p = regions s1 p" "mem_oracle s1 = [] \<Longrightarrow> a \<noteq> None \<and> mem_oracle s2 = []"
      "regions s2 t = Some dt" "a = None \<Longrightarrow> get_error s2 = STATUS_NO_MEMORY"
      "a \<noteq> None \<Longrightarrow> region_ok dt \<and> points (rects dt) = points (rects r1) - points (rects r2)"
      by (rule computesE) blast
    have s2: "regions s2 p = regions s p" if "p \<noteq> t" for p using that a(2) c by (simp add: t_def)
    show ?thesis
    proof (cases a)
      case None
      then show ?thesis
        using c a free [OF a(4)] s2 fresh by (auto simp: xor_region_def err t_def [symmetric])
    next
      case (Some a')
      have "computes dst (points (rects r2) - points (rects r1)) s2 (subtract_region dst src2 src1 s2)"
        using at tn ok s2 by (intro subtract_region_computes) auto
      then obtain b s3 d3 where b: "subtract_region dst src2 src1 s2 = Some (b, s3)"
        "\<And>p. p \<noteq> dst \<Longrightarrow> regions s3 p = regions s2 p" "mem_oracle s2 = [] \<Longrightarrow> b \<noteq> None \<and> mem_oracle s3 = []"
        "regions s3 dst = Some d3" "cap d3" "b = None \<Longrightarrow> get_error s3 = STATUS_NO_MEMORY"
        "b \<noteq> None \<Longrightarrow> region_ok d3 \<and> points (rects d3) = points (rects r2) - points (rects r1)"
        by (rule computesE) blast
      have t3: "regions s3 t = Some dt" using b(2) tn a(4) by simp
      show ?thesis
      proof (cases b)
        case None
        then show ?thesis
          using c a b Some free [OF t3] s2 fresh tn by (auto simp: xor_region_def err t_def [symmetric])
      next
        case (Some b')
        have "computes dst (points (rects d3) \<union> points (rects dt)) s3 (union_region dst dst t s3)"
          using b(4,5,7) a(6) \<open>a = Some a'\<close> Some t3 by (intro union_region_computes) auto
        then obtain e s4 d4 where e: "union_region dst dst t s3 = Some (e, s4)"
          "\<And>p. p \<noteq> dst \<Longrightarrow> regions s4 p = regions s3 p" "mem_oracle s3 = [] \<Longrightarrow> e \<noteq> None \<and> mem_oracle s4 = []"
          "regions s4 dst = Some d4" "e = None \<Longrightarrow> get_error s4 = STATUS_NO_MEMORY"
          "e \<noteq> None \<Longrightarrow> e = Some dst \<and> region_ok d4 \<and> points (rects d4) = points (rects d3) \<union> points (rects dt)"
          by (rule computesE) blast
        have t4: "regions s4 t = Some dt" using e(2) tn t3 by simp
        have x: "xor_region dst src1 src2 s =
            Some (if e = None then None else Some dst, s4\<lparr>regions := (regions s4)(t := None)\<rparr>)"
          using c a(1) b(1) e(1) Some \<open>a = Some a'\<close> free [OF t4] by (simp add: xor_region_def t_def [symmetric])
        have r4: "regions s4 p = regions s p" if "p \<noteq> dst" "p \<noteq> t" for p
          using that e(2) b(2) s2 by simp
        have m: "mem_oracle s = [] \<Longrightarrow> e \<noteq> None" using c a(3) b(3) e(3) by blast
        show ?thesis
          using x r4 m e b(7) a(6) Some \<open>a = Some a'\<close> fresh tn t4
          by (cases e) (auto simp: err t_def Un_commute)
      qed
    qed
  qed
qed


subsection \<open>Reading a region, moving it, and its wire form\<close>

lemma banded_Cons:
  "banded (r # rs) \<longleftrightarrow> nonempty r \<and> (\<forall>q\<in>set rs. before r q) \<and> banded rs"
  by (auto simp: banded_def)

lemma point_in_rects_points: "banded rs \<Longrightarrow> point_in_rects rs x y \<longleftrightarrow> (x, y) \<in> points rs"
proof (induction rs)
  case (Cons p ps)
  have "(x, y) \<notin> points ps" if "rtop p > y \<or> (y < rbottom p \<and> rleft p > x)"
  proof
    assume "(x, y) \<in> points ps"
    then obtain q where "q \<in> set ps" "rleft q \<le> x" "x < rright q" "rtop q \<le> y" "y < rbottom q"
      by (auto simp: points_def)
    then show False using that Cons.prems by (fastforce simp: banded_Cons before_def nonempty_def)
  qed
  then show ?case using Cons by (auto simp: points_Cons [of p ps] banded_Cons points_def [of "[p]"])
qed simp

lemma rect_in_rects_points:
  assumes "banded rs" "nonempty rect"
  shows "rect_in_rects rs rect \<longleftrightarrow> points rs \<inter> points [rect] \<noteq> {}"
  using assms(1)
proof (induction rs)
  case (Cons p ps)
  have far: "points ps \<inter> points [rect] = {}" if "rtop p \<ge> rbottom rect"
  proof -
    have "rbottom rect \<le> rtop q" if "q \<in> set ps" for q
      using that Cons.prems \<open>rtop p \<ge> rbottom rect\<close> by (force simp: banded_Cons before_def nonempty_def)
    then show ?thesis by (force simp: points_def)
  qed
  have meet: "points [p] \<inter> points [rect] \<noteq> {} \<longleftrightarrow>
      rtop p < rbottom rect \<and> rtop rect < rbottom p \<and> rleft p < rright rect \<and> rleft rect < rright p"
  proof
    assume m: "rtop p < rbottom rect \<and> rtop rect < rbottom p \<and> rleft p < rright rect \<and> rleft rect < rright p"
    then have "(max (rleft p) (rleft rect), max (rtop p) (rtop rect)) \<in> points [p] \<inter> points [rect]"
      using Cons.prems assms(2) by (auto simp: points_def banded_Cons nonempty_def)
    then show "points [p] \<inter> points [rect] \<noteq> {}" by blast
  qed (auto simp: points_def)
  show ?case
    using Cons far meet by (subst points_Cons) (auto simp: banded_Cons Int_Un_distrib2)
qed simp

lemma points_offset: "points (map (offset_rect x y) rs) = (\<lambda>(a, b). (a + x, b + y)) ` points rs"
proof -
  have "(a, b) \<in> points (map (offset_rect x y) rs) \<longleftrightarrow> (a - x, b - y) \<in> points rs" for a b
    by (auto simp: points_def offset_rect_def le_diff_eq diff_less_eq)
  then show ?thesis by (force simp: image_iff)
qed

lemma banded_offset: "banded rs \<Longrightarrow> banded (map (offset_rect x y) rs)"
  by (auto simp: banded_def nonempty_def before_def offset_rect_def sorted_wrt_map
      elim: sorted_wrt_mono_rel [rotated])

lemma bounds_offset:
  assumes "bounds e P"
  shows "bounds (offset_rect x y e) ((\<lambda>(a, b). (a + x, b + y)) ` P)"
proof -
  have i: "(a, b) \<in> (\<lambda>(a, b). (a + x, b + y)) ` P \<longleftrightarrow> (a - x, b - y) \<in> P" for a b
    by (force simp: image_iff)
  have "\<exists>b. (c, b - y) \<in> P" if "\<exists>b. (c, b) \<in> P" for c
    using that by (metis add_diff_cancel)
  moreover have "\<exists>a. (a - x, c) \<in> P" if "\<exists>a. (a, c) \<in> P" for c
    using that by (metis add_diff_cancel)
  moreover have "rleft e + x \<le> a \<and> a < rright e + x \<and> rtop e + y \<le> b \<and> b < rbottom e + y"
    if "(a - x, b - y) \<in> P" for a b
    using assms that unfolding bounds_def by (meson diff_less_eq le_diff_eq)
  moreover have "rright e + x - 1 - x = rright e - 1" "rbottom e + y - 1 - y = rbottom e - 1" by simp_all
  ultimately show ?thesis
    using assms unfolding bounds_def i offset_rect_def
    by (simp only: rectangle.simps add_diff_cancel_right' simp_thms) blast
qed

lemma region_ok_offset:
  "region_ok reg \<Longrightarrow> rects reg \<noteq> [] \<Longrightarrow>
   region_ok (reg\<lparr>rects := map (offset_rect x y) (rects reg), extents := offset_rect x y (extents reg)\<rparr>)"
  by (simp add: region_ok_def cap_def num_rects_def banded_offset extents_ok_def points_offset bounds_offset)

text \<open>A single rectangle of zeroes stands for the empty region in a request.\<close>

definition wire_rects :: "rectangle list \<Rightarrow> rectangle list" where
  "wire_rects data = (if length data = 1 \<and> hd data = empty_rect then [] else data)"

lemma create_region_from_req_data_ok:
  fixes s :: "'a region_env_scheme"
  assumes b: "banded (wire_rects data)" and mem: "mem_oracle s = []"
  obtains reg where "create_region_from_req_data data s =
      (Some (next_region s), (rgn_upd (next_region s) reg s)\<lparr>next_region := Suc (next_region s)\<rparr>)"
    "region_ok reg" "rects reg = wire_rects data"
proof -
  define reg where "reg = \<lparr>rgn_size = max (length (wire_rects data)) RGN_DEFAULT_RECTS,
    rects = wire_rects data, extents = empty_rect\<rparr>"
  have "cap reg" "rects reg = wire_rects data"
    by (simp_all add: reg_def cap_def num_rects_def RGN_DEFAULT_RECTS_def)
  then have "region_ok (set_region_extents reg)" "rects (set_region_extents reg) = wire_rects data"
    using set_region_extents_ok [of reg] b by simp_all
  moreover have "create_region_from_req_data data s = (Some (next_region s),
      (rgn_upd (next_region s) (set_region_extents reg) s)\<lparr>next_region := Suc (next_region s)\<rparr>)"
    using b mem unfolding create_region_from_req_data_def reg_def wire_rects_def [symmetric]
    by (simp add: Let_def validate_rectangles_banded)
  ultimately show ?thesis using that by blast
qed


subsection \<open>Properties\<close>

text \<open>The state of the witnesses: an empty region, two overlapping squares, an L shape.\<close>

definition square :: "int \<Rightarrow> int \<Rightarrow> int \<Rightarrow> rectangle" where
  "square x y n = \<lparr>rleft = x, rtop = y, rright = x + n, rbottom = y + n\<rparr>"

definition empty_rgn :: region where
  "empty_rgn = \<lparr>rgn_size = 2, rects = [], extents = empty_rect\<rparr>"

definition rgn_a :: region where
  "rgn_a = \<lparr>rgn_size = 2, rects = [square 0 0 10], extents = square 0 0 10\<rparr>"

definition rgn_b :: region where
  "rgn_b = \<lparr>rgn_size = 4, rects = [square 5 5 10, square 5 15 5],
            extents = \<lparr>rleft = 5, rtop = 5, rright = 15, rbottom = 20\<rparr>\<rparr>"

definition rgn_state :: region_env where
  "rgn_state = \<lparr>current = None, global_error = 0, thread_error = (\<lambda>_. 0), mem_oracle = [],
     regions = [10 \<mapsto> empty_rgn, 11 \<mapsto> rgn_a, 12 \<mapsto> rgn_b], next_region = 13\<rparr>"

lemma rgn_state_ok [simp]:
  "cap empty_rgn" "cap rgn_a" "cap rgn_b" "region_ok rgn_a" "region_ok rgn_b"
  "regions rgn_state 10 = Some empty_rgn" "regions rgn_state 11 = Some rgn_a" "regions rgn_state 12 = Some rgn_b"
  "regions rgn_state 13 = None" "next_region rgn_state = 13" "mem_oracle rgn_state = []"
proof -
  have "bounds (square 0 0 10) (points [square 0 0 10])"
    by (auto simp: bounds_def points_def square_def)
  then show "region_ok rgn_a"
    by (simp add: region_ok_def cap_def num_rects_def banded_def nonempty_def square_def extents_ok_def rgn_a_def)
  have "bounds (extents rgn_b) (points (rects rgn_b))"
    by (auto simp: bounds_def points_def square_def rgn_b_def)
  then show "region_ok rgn_b"
    by (simp add: region_ok_def cap_def num_rects_def banded_def nonempty_def before_def square_def extents_ok_def rgn_b_def)
qed (simp_all add: rgn_state_def empty_rgn_def rgn_a_def rgn_b_def cap_def num_rects_def)

text \<open>
  C36: \<^verbatim>\<open>intersect_region\<close> returns for any destination and sources, which may be the same
  region; it leaves every other region alone, and either stores in the destination a
  well-formed region that covers exactly the points both sources cover, or reports that
  memory ran out.
\<close>

theorem intersect_region_correct:
  assumes "regions s dst = Some d" "regions s src1 = Some r1" "regions s src2 = Some r2"
    and "cap d" "region_ok r1" "region_ok r2"
  shows "computes dst (points (rects r1) \<inter> points (rects r2)) s (intersect_region dst src1 src2 s)"
  using assms by (rule intersect_region_computes)

theorem intersect_region_correct_witness:
  "computes 10 (points (rects rgn_a) \<inter> points (rects rgn_b)) rgn_state (intersect_region 10 11 12 rgn_state)"
  using intersect_region_correct [of rgn_state 10 empty_rgn 11 rgn_a 12 rgn_b] by simp



text \<open>
  C35: \<^verbatim>\<open>union_region\<close> stores in the destination a well-formed region that covers the
  points of either source, or reports that memory ran out; the short cuts for equal, empty
  and covering sources included.
\<close>

theorem union_region_correct:
  assumes "regions s dst = Some d" "regions s src1 = Some r1" "regions s src2 = Some r2"
    and "cap d" "region_ok r1" "region_ok r2"
  shows "computes dst (points (rects r1) \<union> points (rects r2)) s (union_region dst src1 src2 s)"
  using assms by (rule union_region_computes)

theorem union_region_correct_witness:
  "computes 12 (points (rects rgn_a) \<union> points (rects rgn_b)) rgn_state (union_region 12 11 12 rgn_state)"
  using union_region_correct [of rgn_state 12 rgn_b 11 rgn_a 12 rgn_b] by simp



text \<open>
  C38: \<^verbatim>\<open>point_in_region\<close> and \<^verbatim>\<open>rect_in_region\<close>, which stop at the first band or rectangle
  past the one they look for, answer for a well-formed region whether the point is covered
  and whether a nonempty rectangle overlaps the region; \<^verbatim>\<open>is_region_empty\<close> answers
  whether no point is covered.
\<close>

theorem region_queries_correct:
  assumes "regions s p = Some r" "region_ok r"
  shows "point_in_region p x y s = Some ((x, y) \<in> points (rects r)) \<and>
    is_region_empty p s = Some (points (rects r) = {}) \<and>
    (nonempty rect \<longrightarrow> rect_in_region p rect s = Some (points (rects r) \<inter> points [rect] \<noteq> {}))"
proof -
  have b: "banded (rects r)" using assms(2) by (simp add: region_ok_def)
  have "points (rects r) = {} \<longleftrightarrow> rects r = []"
    using b nonempty_corner [of "hd (rects r)" "rects r"] by (cases "rects r") (auto simp: banded_def)
  then show ?thesis
    using assms(1) by (auto simp: point_in_region_def is_region_empty_def rect_in_region_def num_rects_def
        point_in_rects_points [OF b] rect_in_rects_points [OF b])
qed

theorem region_queries_correct_witness:
  "point_in_region 12 7 17 rgn_state = Some True \<and> is_region_empty 12 rgn_state = Some False \<and>
   rect_in_region 12 (square 12 12 10) rgn_state = Some True"
proof -
  have p: "(7, 17) \<in> points (rects rgn_b)" "(13, 13) \<in> points (rects rgn_b) \<inter> points [square 12 12 10]"
    "nonempty (square 12 12 10)"
    by (simp_all add: points_def rgn_b_def square_def nonempty_def)
  show ?thesis
    using region_queries_correct [of rgn_state 12 rgn_b 7 17 "square 12 12 10"] p by auto
qed

text \<open>
  C39: what a client sends with \<^verbatim>\<open>create_region_from_req_data\<close> is what
  \<^verbatim>\<open>get_region_data\<close> gives back, when the data is in banded order (or the one rectangle
  that stands for the empty region) and fits; the region made is well formed, and data in
  any other order is refused with \<^verbatim>\<open>STATUS_INVALID_PARAMETER\<close>.
\<close>

theorem region_data_roundtrip:
  fixes s :: "'a region_env_scheme"
  assumes mem: "mem_oracle s = []" and data: "data \<noteq> []" "max_size \<ge> 16 * length data"
  shows "if banded (wire_rects data)
    then (\<exists>p s' reg. create_region_from_req_data data s = (Some p, s') \<and> regions s' p = Some reg \<and>
            region_ok reg \<and> (\<forall>q. q \<noteq> p \<longrightarrow> regions s' q = regions s q) \<and>
            get_region_data p max_size s' = Some ((Some data, 16 * length data), s'))
    else create_region_from_req_data data s = (None, set_error STATUS_INVALID_PARAMETER s)"
proof (cases "banded (wire_rects data)")
  case True
  obtain reg where c: "create_region_from_req_data data s =
      (Some (next_region s), (rgn_upd (next_region s) reg s)\<lparr>next_region := Suc (next_region s)\<rparr>)"
    "region_ok reg" "rects reg = wire_rects data"
    by (rule create_region_from_req_data_ok [OF True mem])
  have "data = [empty_rect]" if "wire_rects data = []"
    using that data(1) by (auto simp: wire_rects_def length_Suc_conv split: if_splits)
  then show ?thesis
    using c data mem True
    by (auto simp: get_region_data_def Let_def num_rects_def sizeof_rectangle_def wire_rects_def split: if_splits)
next
  case False
  then show ?thesis
    unfolding create_region_from_req_data_def wire_rects_def [symmetric]
    by (simp add: Let_def validate_rectangles_banded)
qed

theorem region_data_roundtrip_witness:
  "\<exists>p s'. create_region_from_req_data [square 0 0 10, square 20 0 10] rgn_state = (Some p, s') \<and>
     get_region_data p 64 s' = Some ((Some [square 0 0 10, square 20 0 10], 32), s')"
  using region_data_roundtrip [of rgn_state "[square 0 0 10, square 20 0 10]" 64]
  by (auto simp: wire_rects_def banded_def nonempty_def before_def square_def split: if_splits)

text \<open>
  C40: \<^verbatim>\<open>offset_region\<close> shifts every point of the region by the offset and keeps the region
  well formed, as long as the shifted coordinates are 32-bit integers.
\<close>

theorem offset_region_correct:
  assumes "regions s p = Some r" "region_ok r"
    and "\<forall>q\<in>set (extents r # rects r). rect_int32 (offset_rect x y q)"
  shows "\<exists>s' r'. offset_region p x y s = Some s' \<and> regions s' = (regions s)(p \<mapsto> r') \<and> region_ok r' \<and>
    points (rects r') = (\<lambda>(a, b). (a + x, b + y)) ` points (rects r)"
proof (cases "rects r = []")
  case True
  then show ?thesis
    using assms by (auto simp: offset_region_def num_rects_def intro!: exI [of _ r])
next
  case False
  then show ?thesis
    using assms region_ok_offset [OF assms(2) False, of x y]
    by (simp add: offset_region_def num_rects_def list_all_iff Let_def points_offset
        exI [of _ "r\<lparr>rects := map (offset_rect x y) (rects r), extents := offset_rect x y (extents r)\<rparr>"])
qed

theorem offset_region_correct_witness:
  "\<exists>s' r'. offset_region 12 100 (-50) rgn_state = Some s' \<and> regions s' = (regions rgn_state)(12 \<mapsto> r') \<and>
     region_ok r' \<and> points (rects r') = (\<lambda>(a, b). (a + 100, b + -50)) ` points (rects rgn_b)"
  by (rule offset_region_correct)
    (simp, simp, simp add: rgn_b_def square_def offset_rect_def rect_int32_def int32_ok_def)

end
