(* ===== verification/Server.thy ===== *)
theory Server
  imports Prelude
begin

text \<open>
  The data of the kernel objects of the server (\<^verbatim>\<open>object.h\<close>, \<^verbatim>\<open>thread.h\<close>, \<^verbatim>\<open>process.h\<close> and the
  structures of \<^verbatim>\<open>handle.c\<close>, \<^verbatim>\<open>event.c\<close>, \<^verbatim>\<open>mutex.c\<close>, \<^verbatim>\<open>semaphore.c\<close>, \<^verbatim>\<open>timer.c\<close>, \<^verbatim>\<open>directory.c\<close>,
  \<^verbatim>\<open>symlink.c\<close>) and the state they live in.

  An object is addressed by a number; \<open>objects\<close> maps the addresses in use to the objects.
  A C structure that starts with \<^verbatim>\<open>struct object\<close> is an \<open>object\<close> record whose \<open>body\<close> holds
  the fields behind the header; the constructor of the body plays the role of the
  \<^verbatim>\<open>ops\<close> pointer.  Lists linked through a field of the objects are lists of addresses.
  Other allocated structures that are linked from several places (waits, wait queue
  entries, timeouts, hash tables) have an address of their own, the first field.

  A pointer that owns a reference is an \<open>option\<close>; where the C code releases what such a
  pointer refers to and leaves the dangling pointer in memory it frees next, the model
  sets the pointer to \<open>None\<close>.
\<close>

subsection \<open>Handle tables\<close>

type_synonym oid = nat
type_synonym obj_handle = "32 word"
type_synonym wchar = "16 word"

record handle_entry =
  he_ptr :: "oid option"
  he_access :: "32 word"
  he_fd :: int

text \<open>
  \<open>entries\<close> has one slot for each of the \<^verbatim>\<open>count\<close> allocated entries; a slot that has been
  allocated but never stored into is \<open>None\<close>.
\<close>

record handle_table =
  ht_process :: "oid option"
  ht_last :: int
  ht_free :: int
  entries :: "handle_entry option list"

definition ht_count :: "handle_table \<Rightarrow> int" where
  "ht_count ht = int (length (entries ht))"

subsection \<open>Waits, timeouts and asynchronous calls\<close>

record timeval =
  tv_sec :: int
  tv_usec :: int

definition time_before :: "timeval \<Rightarrow> timeval \<Rightarrow> bool" where
  "time_before t1 t2 \<longleftrightarrow> tv_sec t1 < tv_sec t2 \<or> tv_sec t1 = tv_sec t2 \<and> tv_usec t1 < tv_usec t2"

record wait_queue_entry =
  e_id :: nat
  e_obj :: oid
  e_thread :: oid

record thread_wait =
  w_id :: nat
  w_flags :: "32 word"
  w_cookie :: "nat option"
  w_timeout :: timeval
  w_user :: "nat option"
  queues :: "wait_queue_entry list"

datatype timeout_callback = Thread_timeout oid nat | Timer_callback oid

record timeout_user =
  tu_id :: nat
  tu_when :: timeval
  tu_callback :: timeout_callback

datatype apc_kind = APC_NONE | APC_USER | APC_TIMER | APC_ASYNC_IO

record thread_apc =
  apc_owner :: "oid option"
  apc_func :: nat
  apc_type :: apc_kind
  apc_args :: "int list"

subsection \<open>Objects\<close>

datatype run_state = RUNNING | TERMINATED

record thread =
  t_process :: "oid option"
  mutex_list :: "oid list"
  waits :: "thread_wait list"
  system_apc :: "thread_apc list"
  user_apc :: "thread_apc list"
  t_state :: run_state
  t_exit_code :: int
  t_suspend :: int
  t_context :: bool

record process =
  p_parent :: "oid option"
  thread_list :: "oid list"
  handles :: "oid option"
  running_threads :: int
  p_exit_code :: int
  p_suspend :: int
  idle_event :: "oid option"
  init_done :: bool

record event =
  manual_reset :: bool
  signaled :: bool

record mutex =
  owner :: "oid option"
  mx_count :: "32 word"
  abandoned :: bool

record semaphore =
  sem_count :: "32 word"
  sem_max :: "32 word"

record timer =
  tm_manual :: bool
  tm_signaled :: bool
  tm_period :: int
  tm_when :: timeval
  tm_timeout :: "nat option"
  tm_thread :: "oid option"
  tm_callback :: nat
  tm_arg :: int

text \<open>A directory holds the address of its hash table, a symbolic link its target.\<close>

datatype obj_body =
    Handle_table handle_table
  | Process process
  | Thread thread
  | Event event
  | Mutex mutex
  | Semaphore semaphore
  | Timer timer
  | Directory "nat option"
  | Symlink "wchar list"

datatype obj_ops = handle_table_ops | process_ops | thread_ops | event_ops | mutex_ops
  | semaphore_ops | timer_ops | directory_ops | symlink_ops

fun ops :: "obj_body \<Rightarrow> obj_ops" where
  "ops (Handle_table _) = handle_table_ops"
| "ops (Process _) = process_ops"
| "ops (Thread _) = thread_ops"
| "ops (Event _) = event_ops"
| "ops (Mutex _) = mutex_ops"
| "ops (Semaphore _) = semaphore_ops"
| "ops (Timer _) = timer_ops"
| "ops (Directory _) = directory_ops"
| "ops (Symlink _) = symlink_ops"

text \<open>
  A name is linked in bucket \<open>n_hash\<close> of the hash table at address \<open>n_space\<close>; the table
  itself is the list of its buckets, each the list of the objects named in it.
\<close>

record object_name =
  n_space :: nat
  n_hash :: nat
  n_parent :: "oid option"
  n_name :: "wchar list"

record object =
  refcount :: nat
  wait_queue :: "wait_queue_entry list"
  obj_name :: "object_name option"
  body :: obj_body

subsection \<open>The state of the server\<close>

text \<open>
  \<open>next_addr\<close> is the next free address of the structures that are not objects,
  \<open>sent\<close> what the server has written to its clients: wake-ups with their cookie and
  result, and Unix signals.  \<open>expired\<close> is the list of the timeouts whose callbacks are about
  to be called, a local variable of \<^verbatim>\<open>get_next_timeout\<close> that \<^verbatim>\<open>remove_timeout_user\<close> can reach
  through the links.  \<open>now\<close> is what \<^verbatim>\<open>gettimeofday\<close> returns, \<open>tolowerW\<close> the case map of \<^verbatim>\<open>libs/wine/casemap.c\<close>, a table no definition looks into.
\<close>

datatype client_message = Wakeup oid "nat option" int | Signal oid int

record server = env +
  objects :: "oid \<Rightarrow> object option"
  next_oid :: oid
  next_addr :: nat
  namespaces :: "nat \<Rightarrow> oid list list option"
  global_table :: "oid option"
  root_directory :: "oid option"
  timeout_list :: "timeout_user list"
  expired :: "timeout_user list"
  sent :: "client_message list"
  now :: timeval
  tolowerW :: "wchar \<Rightarrow> wchar"

definition set_obj :: "oid \<Rightarrow> object \<Rightarrow> server \<Rightarrow> server" where
  "set_obj o1 ob s = s\<lparr>objects := (objects s)(o1 \<mapsto> ob)\<rparr>"

definition set_body :: "oid \<Rightarrow> obj_body \<Rightarrow> server \<Rightarrow> server option" where
  "set_body o1 b s = do { ob \<leftarrow> objects s o1; Some (set_obj o1 (ob\<lparr>body := b\<rparr>) s) }"

text \<open>Casts: reading an object as another type than its own is undefined.\<close>

definition get_table :: "server \<Rightarrow> oid \<Rightarrow> handle_table option" where
  "get_table s o1 = do { ob \<leftarrow> objects s o1; case body ob of Handle_table x \<Rightarrow> Some x | _ \<Rightarrow> None }"

definition get_process :: "server \<Rightarrow> oid \<Rightarrow> process option" where
  "get_process s o1 = do { ob \<leftarrow> objects s o1; case body ob of Process x \<Rightarrow> Some x | _ \<Rightarrow> None }"

definition get_thread :: "server \<Rightarrow> oid \<Rightarrow> thread option" where
  "get_thread s o1 = do { ob \<leftarrow> objects s o1; case body ob of Thread x \<Rightarrow> Some x | _ \<Rightarrow> None }"

definition get_event :: "server \<Rightarrow> oid \<Rightarrow> event option" where
  "get_event s o1 = do { ob \<leftarrow> objects s o1; case body ob of Event x \<Rightarrow> Some x | _ \<Rightarrow> None }"

definition get_mutex :: "server \<Rightarrow> oid \<Rightarrow> mutex option" where
  "get_mutex s o1 = do { ob \<leftarrow> objects s o1; case body ob of Mutex x \<Rightarrow> Some x | _ \<Rightarrow> None }"

definition get_semaphore :: "server \<Rightarrow> oid \<Rightarrow> semaphore option" where
  "get_semaphore s o1 = do { ob \<leftarrow> objects s o1; case body ob of Semaphore x \<Rightarrow> Some x | _ \<Rightarrow> None }"

definition get_timer :: "server \<Rightarrow> oid \<Rightarrow> timer option" where
  "get_timer s o1 = do { ob \<leftarrow> objects s o1; case body ob of Timer x \<Rightarrow> Some x | _ \<Rightarrow> None }"

definition get_namespace :: "server \<Rightarrow> oid \<Rightarrow> nat option option" where
  "get_namespace s o1 = do { ob \<leftarrow> objects s o1; case body ob of Directory x \<Rightarrow> Some x | _ \<Rightarrow> None }"

lemmas get_defs = get_table_def get_process_def get_thread_def get_event_def get_mutex_def
  get_semaphore_def get_timer_def get_namespace_def

lemma get_Some_iff:
  "get_table s p = Some ht \<longleftrightarrow> (\<exists>ob. objects s p = Some ob \<and> body ob = Handle_table ht)"
  "get_process s p = Some pr \<longleftrightarrow> (\<exists>ob. objects s p = Some ob \<and> body ob = Process pr)"
  "get_thread s p = Some th \<longleftrightarrow> (\<exists>ob. objects s p = Some ob \<and> body ob = Thread th)"
  "get_event s p = Some ev \<longleftrightarrow> (\<exists>ob. objects s p = Some ob \<and> body ob = Event ev)"
  "get_mutex s p = Some mx \<longleftrightarrow> (\<exists>ob. objects s p = Some ob \<and> body ob = Mutex mx)"
  "get_semaphore s p = Some sm \<longleftrightarrow> (\<exists>ob. objects s p = Some ob \<and> body ob = Semaphore sm)"
  "get_timer s p = Some tm \<longleftrightarrow> (\<exists>ob. objects s p = Some ob \<and> body ob = Timer tm)"
  "get_namespace s p = Some ns \<longleftrightarrow> (\<exists>ob. objects s p = Some ob \<and> body ob = Directory ns)"
  by (auto simp: get_defs split: bind_splits obj_body.splits)

subsection \<open>Linked lists\<close>

text \<open>\<^verbatim>\<open>list_remove\<close> of an element that is not linked is undefined.\<close>

definition list_remove :: "'b \<Rightarrow> 'b list \<Rightarrow> 'b list option" where
  "list_remove x xs = (if x \<in> set xs then Some (remove1 x xs) else None)"

text \<open>
  \<^verbatim>\<open>cursor->next\<close> for an element of a list: undefined when the element is no longer
  linked, \<open>Some None\<close> when the list ends after it.
\<close>

definition next_in :: "'b \<Rightarrow> 'b list \<Rightarrow> 'b option option" where
  "next_in x xs = (case dropWhile (\<lambda>y. y \<noteq> x) xs of [] \<Rightarrow> None | [_] \<Rightarrow> Some None | _ # y # _ \<Rightarrow> Some (Some y))"

lemma list_remove_Some_iff: "list_remove x xs = Some ys \<longleftrightarrow> x \<in> set xs \<and> ys = remove1 x xs"
  by (auto simp: list_remove_def)

subsection \<open>Constants\<close>

abbreviation "GENERIC_READ \<equiv> (0x80000000 :: 32 word)"
abbreviation "GENERIC_WRITE \<equiv> (0x40000000 :: 32 word)"
abbreviation "GENERIC_EXECUTE \<equiv> (0x20000000 :: 32 word)"
abbreviation "GENERIC_ALL \<equiv> (0x10000000 :: 32 word)"
abbreviation "READ_CONTROL \<equiv> (0x00020000 :: 32 word)"
abbreviation "SYNCHRONIZE \<equiv> (0x00100000 :: 32 word)"
abbreviation "STANDARD_RIGHTS_READ \<equiv> READ_CONTROL"
abbreviation "STANDARD_RIGHTS_WRITE \<equiv> READ_CONTROL"
abbreviation "STANDARD_RIGHTS_EXECUTE \<equiv> READ_CONTROL"
abbreviation "STANDARD_RIGHTS_ALL \<equiv> (0x001F0000 :: 32 word)"
abbreviation "SPECIFIC_RIGHTS_ALL \<equiv> (0x0000FFFF :: 32 word)"
abbreviation "EVENT_QUERY_STATE \<equiv> (0x0001 :: 32 word)"
abbreviation "EVENT_MODIFY_STATE \<equiv> (0x0002 :: 32 word)"
abbreviation "EVENT_ALL_ACCESS \<equiv> (0x001F0003 :: 32 word)"
abbreviation "SEMAPHORE_MODIFY_STATE \<equiv> (0x0002 :: 32 word)"
abbreviation "SEMAPHORE_ALL_ACCESS \<equiv> (0x001F0003 :: 32 word)"
abbreviation "MUTEX_MODIFY_STATE \<equiv> (0x0001 :: 32 word)"
abbreviation "MUTEX_ALL_ACCESS \<equiv> (0x001F0001 :: 32 word)"
abbreviation "TIMER_QUERY_STATE \<equiv> (0x0001 :: 32 word)"
abbreviation "TIMER_MODIFY_STATE \<equiv> (0x0002 :: 32 word)"
abbreviation "TIMER_ALL_ACCESS \<equiv> (0x001F0003 :: 32 word)"
abbreviation "THREAD_ALL_ACCESS \<equiv> (0x001F03FF :: 32 word)"
abbreviation "PROCESS_ALL_ACCESS \<equiv> (0x001F0FFF :: 32 word)"
abbreviation "PROCESS_DUP_HANDLE \<equiv> (0x0040 :: 32 word)"
abbreviation "SYMBOLIC_LINK_QUERY \<equiv> (0x0001 :: 32 word)"
abbreviation "SYMBOLIC_LINK_ALL_ACCESS \<equiv> (0x000F0001 :: 32 word)"
abbreviation "FILE_GENERIC_READ \<equiv> (0x00120089 :: 32 word)"
abbreviation "FILE_GENERIC_WRITE \<equiv> (0x00120116 :: 32 word)"
abbreviation "FILE_GENERIC_EXECUTE \<equiv> (0x001200A0 :: 32 word)"
abbreviation "FILE_ALL_ACCESS \<equiv> (0x001F01FF :: 32 word)"

abbreviation "OBJ_INHERIT \<equiv> (0x0002 :: 32 word)"
abbreviation "OBJ_CASE_INSENSITIVE \<equiv> (0x0040 :: 32 word)"
abbreviation "OBJ_OPENIF \<equiv> (0x0080 :: 32 word)"
abbreviation "OBJ_OPENLINK \<equiv> (0x0100 :: 32 word)"

abbreviation "SELECT_ALL \<equiv> (1 :: 32 word)"
abbreviation "SELECT_ALERTABLE \<equiv> (2 :: 32 word)"
abbreviation "SELECT_INTERRUPTIBLE \<equiv> (4 :: 32 word)"
abbreviation "SELECT_TIMEOUT \<equiv> (8 :: 32 word)"

abbreviation "MAXIMUM_WAIT_OBJECTS \<equiv> (64 :: int)"
abbreviation "MAXIMUM_SUSPEND_COUNT \<equiv> (127 :: int)"

abbreviation "DUP_HANDLE_CLOSE_SOURCE \<equiv> (0x00000001 :: 32 word)"
abbreviation "DUP_HANDLE_SAME_ACCESS \<equiv> (0x00000002 :: 32 word)"
abbreviation "DUP_HANDLE_MAKE_GLOBAL \<equiv> (0x80000000 :: 32 word)"

text \<open>\<open>has f m\<close>: the C condition \<^verbatim>\<open>f & m\<close>.\<close>

definition has :: "32 word \<Rightarrow> 32 word \<Rightarrow> bool" where
  "has f m \<longleftrightarrow> f AND m \<noteq> 0"

end
