(* ===== verification/Objects.thy ===== *)
theory Objects
  imports Server
begin

text \<open>
  \<^verbatim>\<open>server/object.c\<close>: reference counts, object names and the hash tables that hold them,
  and the default object operations.

  \<^verbatim>\<open>release_object\<close> calls the \<^verbatim>\<open>destroy\<close> operation of the object, which may release other
  objects.  The functions that \<^verbatim>\<open>destroy\<close> can reach take the \<^verbatim>\<open>release_object\<close> they call
  as their argument \<open>rel\<close>; the theory \<open>Release\<close> ties the knot.
\<close>

type_synonym release = "oid \<Rightarrow> server \<Rightarrow> server option"

subsection \<open>Reference counts\<close>

text \<open>The assertion keeps the count below \<^verbatim>\<open>INT_MAX\<close>.\<close>

definition grab_object :: "oid \<Rightarrow> server \<Rightarrow> server option" where
  "grab_object o1 s =
     do { ob \<leftarrow> objects s o1;
          if int (refcount ob) < INT_MAX
          then Some (set_obj o1 (ob\<lparr>refcount := refcount ob + 1\<rparr>) s) else None }"

text \<open>
  The caller fills in the fields behind the header at once: \<open>b\<close> is what it stores there.
  In the same way \<^verbatim>\<open>ops\<close> is the constructor of \<open>b\<close>.
\<close>

definition alloc_object :: "obj_body \<Rightarrow> server \<Rightarrow> oid option \<times> server" where
  "alloc_object b s =
     (case mem_alloc s of (obj, s) \<Rightarrow>
        if obj
        then (Some (next_oid s),
              (set_obj (next_oid s) \<lparr>refcount = 1, wait_queue = [], obj_name = None, body = b\<rparr> s)
                \<lparr>next_oid := Suc (next_oid s)\<rparr>)
        else (None, s))"

subsection \<open>Names\<close>

text \<open>Division by a zero \<^verbatim>\<open>hash_size\<close> is undefined.\<close>

definition get_name_hash :: "server \<Rightarrow> nat \<Rightarrow> wchar list \<Rightarrow> nat option" where
  "get_name_hash s ns name =
     do { buckets \<leftarrow> namespaces s ns;
          if buckets = [] then None
          else Some (unat (foldl (\<lambda>hash c. hash XOR tolowerW s c) 0 name) mod length buckets) }"

text \<open>A name that is allocated but not yet linked; \<open>ns\<close> and the bucket are set when it is.\<close>

definition alloc_name :: "wchar list \<Rightarrow> server \<Rightarrow> object_name option \<times> server" where
  "alloc_name name s =
     (case mem_alloc s of (p, s) \<Rightarrow>
        (if p then Some \<lparr>n_space = 0, n_hash = 0, n_parent = None, n_name = name\<rparr> else None, s))"

definition free_name :: "release \<Rightarrow> oid \<Rightarrow> server \<Rightarrow> server option" where
  "free_name rel o1 s =
     do { ob \<leftarrow> objects s o1;
          nm \<leftarrow> obj_name ob;
          buckets \<leftarrow> namespaces s (n_space nm);
          bucket \<leftarrow> read_at buckets (int (n_hash nm));
          bucket \<leftarrow> list_remove o1 bucket;
          let s = s\<lparr>namespaces := (namespaces s)(n_space nm \<mapsto> buckets[n_hash nm := bucket])\<rparr>;
          let s = set_obj o1 (ob\<lparr>obj_name := None\<rparr>) s;
          case n_parent nm of None \<Rightarrow> Some s | Some p \<Rightarrow> rel p s }"

definition set_object_name :: "nat \<Rightarrow> oid \<Rightarrow> object_name \<Rightarrow> server \<Rightarrow> server option" where
  "set_object_name ns o1 nm s =
     do { hash \<leftarrow> get_name_hash s ns (n_name nm);
          buckets \<leftarrow> namespaces s ns;
          ob \<leftarrow> objects s o1;
          let s = s\<lparr>namespaces := (namespaces s)(ns \<mapsto> buckets[hash := o1 # buckets ! hash])\<rparr>;
          Some (set_obj o1 (ob\<lparr>obj_name := Some (nm\<lparr>n_space := ns, n_hash := hash\<rparr>)\<rparr>) s) }"

definition get_object_name :: "oid \<Rightarrow> server \<Rightarrow> wchar list option option" where
  "get_object_name o1 s = do { ob \<leftarrow> objects s o1; Some (map_option n_name (obj_name ob)) }"

definition create_object :: "nat \<Rightarrow> obj_body \<Rightarrow> wchar list \<Rightarrow> oid option \<Rightarrow> server
    \<Rightarrow> (oid option \<times> server) option" where
  "create_object ns b name parent s =
     (case alloc_name name s of
        (None, s) \<Rightarrow> Some (None, s)
      | (Some name_ptr, s) \<Rightarrow>
          (case alloc_object b s of
             (None, s) \<Rightarrow> Some (None, s)
           | (Some o1, s) \<Rightarrow>
               do { s \<leftarrow> set_object_name ns o1 name_ptr s;
                    s \<leftarrow> (case parent of None \<Rightarrow> Some s
                          | Some p \<Rightarrow> do {
                              s \<leftarrow> grab_object p s;
                              ob \<leftarrow> objects s o1;
                              nm \<leftarrow> obj_name ob;
                              Some (set_obj o1 (ob\<lparr>obj_name := Some (nm\<lparr>n_parent := Some p\<rparr>)\<rparr>) s) });
                    Some (Some o1, s) }))"

definition unlink_named_object :: "release \<Rightarrow> oid \<Rightarrow> server \<Rightarrow> server option" where
  "unlink_named_object rel o1 s =
     do { ob \<leftarrow> objects s o1; if obj_name ob \<noteq> None then free_name rel o1 s else Some s }"

text \<open>\<^verbatim>\<open>strncmpiW\<close> of \<^verbatim>\<open>libs/wine/string.c\<close> on two names of one length: it stops at a zero.\<close>

fun strncmpiW_eq :: "(wchar \<Rightarrow> wchar) \<Rightarrow> wchar list \<Rightarrow> wchar list \<Rightarrow> bool" where
  "strncmpiW_eq lower (x # xs) (y # ys) =
     (if lower x \<noteq> lower y then False else if x = 0 then True else strncmpiW_eq lower xs ys)"
| "strncmpiW_eq lower _ _ = True"

fun find_in_bucket :: "oid list \<Rightarrow> wchar list \<Rightarrow> 32 word \<Rightarrow> server \<Rightarrow> oid option option" where
  "find_in_bucket [] name attributes s = Some None"
| "find_in_bucket (o1 # os) name attributes s =
     do { ob \<leftarrow> objects s o1;
          nm \<leftarrow> obj_name ob;
          if length (n_name nm) \<noteq> length name then find_in_bucket os name attributes s
          else if (if has attributes OBJ_CASE_INSENSITIVE then strncmpiW_eq (tolowerW s) (n_name nm) name
                   else n_name nm = name)
          then Some (Some o1)
          else find_in_bucket os name attributes s }"

definition find_object :: "nat \<Rightarrow> wchar list \<Rightarrow> 32 word \<Rightarrow> server \<Rightarrow> (oid option \<times> server) option" where
  "find_object ns name attributes s =
     (if name = [] then Some (None, s) else
      do { hash \<leftarrow> get_name_hash s ns name;
           buckets \<leftarrow> namespaces s ns;
           found \<leftarrow> find_in_bucket (buckets ! hash) name attributes s;
           case found of None \<Rightarrow> Some (None, s)
           | Some o1 \<Rightarrow> do { s \<leftarrow> grab_object o1 s; Some (Some o1, s) } })"

text \<open>
  \<^verbatim>\<open>create_named_object\<close>; as in \<open>alloc_object\<close>, \<open>b\<close> is what the caller stores in a new
  object, and the caller looks at the error to tell a new object from an old one.
\<close>

definition create_named_object :: "release \<Rightarrow> nat \<Rightarrow> obj_body \<Rightarrow> wchar list \<Rightarrow> 32 word \<Rightarrow> server
    \<Rightarrow> (oid option \<times> server) option" where
  "create_named_object rel ns b name attributes s =
     (if name = [] then Some (alloc_object b s) else
      do { (obj, s) \<leftarrow> find_object ns name attributes s;
           case obj of
             Some o1 \<Rightarrow> do {
               ob \<leftarrow> objects s o1;
               if has attributes OBJ_OPENIF \<and> ops (body ob) = ops b
               then Some (Some o1, set_error STATUS_OBJECT_NAME_EXISTS s)
               else do {
                 s \<leftarrow> rel o1 s;
                 Some (None, set_error (if has attributes OBJ_OPENIF then STATUS_OBJECT_TYPE_MISMATCH
                                        else STATUS_OBJECT_NAME_COLLISION) s) } }
           | None \<Rightarrow> do {
               (obj, s) \<leftarrow> create_object ns b name None s;
               Some (obj, if obj \<noteq> None then clear_error s else s) } })"

definition create_namespace :: "nat \<Rightarrow> server \<Rightarrow> nat option \<times> server" where
  "create_namespace hash_size s =
     (case mem_alloc s of (p, s) \<Rightarrow>
        if p then (Some (next_addr s),
                   s\<lparr>namespaces := (namespaces s)(next_addr s \<mapsto> replicate hash_size []),
                     next_addr := Suc (next_addr s)\<rparr>)
        else (None, s))"

subsection \<open>Access rights\<close>

definition map_generic :: "32 word \<Rightarrow> 32 word \<Rightarrow> 32 word \<Rightarrow> 32 word \<Rightarrow> 32 word \<Rightarrow> 32 word" where
  "map_generic r w x a acc =
     (let acc = (if has acc GENERIC_READ then acc OR r else acc);
          acc = (if has acc GENERIC_WRITE then acc OR w else acc);
          acc = (if has acc GENERIC_EXECUTE then acc OR x else acc);
          acc = (if has acc GENERIC_ALL then acc OR a else acc)
      in acc AND NOT (GENERIC_READ OR GENERIC_WRITE OR GENERIC_EXECUTE OR GENERIC_ALL))"

definition no_map_access :: "32 word \<Rightarrow> 32 word" where
  "no_map_access =
     map_generic STANDARD_RIGHTS_READ STANDARD_RIGHTS_WRITE STANDARD_RIGHTS_EXECUTE STANDARD_RIGHTS_ALL"

definition event_map_access :: "32 word \<Rightarrow> 32 word" where
  "event_map_access =
     map_generic (STANDARD_RIGHTS_READ OR SYNCHRONIZE OR EVENT_QUERY_STATE) STANDARD_RIGHTS_WRITE
       STANDARD_RIGHTS_EXECUTE (STANDARD_RIGHTS_ALL OR EVENT_ALL_ACCESS)"

definition mutex_map_access :: "32 word \<Rightarrow> 32 word" where
  "mutex_map_access =
     map_generic (STANDARD_RIGHTS_READ OR SYNCHRONIZE) (STANDARD_RIGHTS_WRITE OR MUTEX_MODIFY_STATE)
       STANDARD_RIGHTS_EXECUTE (STANDARD_RIGHTS_ALL OR MUTEX_ALL_ACCESS)"

definition semaphore_map_access :: "32 word \<Rightarrow> 32 word" where
  "semaphore_map_access =
     map_generic (STANDARD_RIGHTS_READ OR SYNCHRONIZE) (STANDARD_RIGHTS_WRITE OR SEMAPHORE_MODIFY_STATE)
       STANDARD_RIGHTS_EXECUTE (STANDARD_RIGHTS_ALL OR SEMAPHORE_ALL_ACCESS)"

definition timer_map_access :: "32 word \<Rightarrow> 32 word" where
  "timer_map_access =
     map_generic (STANDARD_RIGHTS_READ OR SYNCHRONIZE OR TIMER_QUERY_STATE)
       (STANDARD_RIGHTS_WRITE OR TIMER_MODIFY_STATE) STANDARD_RIGHTS_EXECUTE TIMER_ALL_ACCESS"

definition thread_map_access :: "32 word \<Rightarrow> 32 word" where
  "thread_map_access =
     map_generic (STANDARD_RIGHTS_READ OR SYNCHRONIZE) (STANDARD_RIGHTS_WRITE OR SYNCHRONIZE)
       STANDARD_RIGHTS_EXECUTE THREAD_ALL_ACCESS"

definition process_map_access :: "32 word \<Rightarrow> 32 word" where
  "process_map_access =
     map_generic (STANDARD_RIGHTS_READ OR SYNCHRONIZE) (STANDARD_RIGHTS_WRITE OR SYNCHRONIZE)
       STANDARD_RIGHTS_EXECUTE PROCESS_ALL_ACCESS"

definition directory_map_access :: "32 word \<Rightarrow> 32 word" where
  "directory_map_access =
     map_generic FILE_GENERIC_READ FILE_GENERIC_WRITE FILE_GENERIC_EXECUTE FILE_ALL_ACCESS"

definition symlink_map_access :: "32 word \<Rightarrow> 32 word" where
  "symlink_map_access =
     map_generic (STANDARD_RIGHTS_READ OR SYMBOLIC_LINK_QUERY) STANDARD_RIGHTS_WRITE
       STANDARD_RIGHTS_EXECUTE SYMBOLIC_LINK_ALL_ACCESS"

fun map_access :: "obj_ops \<Rightarrow> 32 word \<Rightarrow> 32 word" where
  "map_access handle_table_ops = no_map_access"
| "map_access process_ops = process_map_access"
| "map_access thread_ops = thread_map_access"
| "map_access event_ops = event_map_access"
| "map_access mutex_ops = mutex_map_access"
| "map_access semaphore_ops = semaphore_map_access"
| "map_access timer_ops = timer_map_access"
| "map_access directory_ops = directory_map_access"
| "map_access symlink_ops = symlink_map_access"

text \<open>The objects modelled here all have \<^verbatim>\<open>no_close_handle\<close>, which allows the close.\<close>

definition no_close_handle :: "oid \<Rightarrow> oid \<Rightarrow> obj_handle \<Rightarrow> server \<Rightarrow> (bool \<times> server) option" where
  "no_close_handle o1 process handle s = Some (True, s)"

end
