(* ===== verification/Waits.thy ===== *)
theory Waits
  imports Objects
begin

text \<open>
  Waiting and waking (\<^verbatim>\<open>server/thread.c\<close>), the sorted timeout list of \<^verbatim>\<open>server/fd.c\<close>, and the
  operations of events, mutexes, semaphores and timers that waiting calls.

  A thread's \<open>waits\<close> is the list that starts at \<^verbatim>\<open>thread->wait\<close> and continues through the
  \<^verbatim>\<open>next\<close> fields.  \<^verbatim>\<open>end_wait\<close> takes the entries off the wait one by one and the wait off
  the thread at the end.
\<close>

subsection \<open>Timeouts\<close>

definition add_timeout_user :: "timeval \<Rightarrow> timeout_callback \<Rightarrow> server \<Rightarrow> nat option \<times> server" where
  "add_timeout_user when func s =
     (case mem_alloc s of (user, s) \<Rightarrow> if \<not> user then (None, s) else
      let before = takeWhile (\<lambda>t. time_before (tu_when t) when) (timeout_list s);
          after = dropWhile (\<lambda>t. time_before (tu_when t) when) (timeout_list s);
          u = \<lparr>tu_id = next_addr s, tu_when = when, tu_callback = func\<rparr>
      in (Some (next_addr s), s\<lparr>timeout_list := before @ u # after, next_addr := Suc (next_addr s)\<rparr>))"

definition remove_timeout_user :: "nat \<Rightarrow> server \<Rightarrow> server option" where
  "remove_timeout_user user s =
     (case List.find (\<lambda>t. tu_id t = user) (timeout_list s) of
        Some u \<Rightarrow> Some (s\<lparr>timeout_list := remove1 u (timeout_list s)\<rparr>)
      | None \<Rightarrow> do { u \<leftarrow> List.find (\<lambda>t. tu_id t = user) (expired s);
                     Some (s\<lparr>expired := remove1 u (expired s)\<rparr>) })"

subsection \<open>Is an object signaled?\<close>

text \<open>\<open>t\<close> is the thread that waits.  The types left out have no \<^verbatim>\<open>signaled\<close> operation.\<close>

definition thread_signaled :: "thread \<Rightarrow> bool" where
  "thread_signaled mythread \<longleftrightarrow> t_state mythread = TERMINATED"

definition process_signaled :: "process \<Rightarrow> bool" where
  "process_signaled pr \<longleftrightarrow> running_threads pr = 0"

definition event_signaled :: "event \<Rightarrow> bool" where
  "event_signaled ev \<longleftrightarrow> signaled ev"

definition mutex_signaled :: "mutex \<Rightarrow> oid \<Rightarrow> bool" where
  "mutex_signaled mx t \<longleftrightarrow> mx_count mx = 0 \<or> owner mx = Some t"

definition semaphore_signaled :: "semaphore \<Rightarrow> bool" where
  "semaphore_signaled sem \<longleftrightarrow> sem_count sem > 0"

definition timer_signaled :: "timer \<Rightarrow> bool" where
  "timer_signaled tm \<longleftrightarrow> tm_signaled tm"

fun body_signaled :: "obj_body \<Rightarrow> oid \<Rightarrow> bool option" where
  "body_signaled (Thread th) t = Some (thread_signaled th)"
| "body_signaled (Process pr) t = Some (process_signaled pr)"
| "body_signaled (Event ev) t = Some (event_signaled ev)"
| "body_signaled (Mutex mx) t = Some (mutex_signaled mx t)"
| "body_signaled (Semaphore sem) t = Some (semaphore_signaled sem)"
| "body_signaled (Timer tm) t = Some (timer_signaled tm)"
| "body_signaled _ t = None"

definition obj_signaled :: "oid \<Rightarrow> oid \<Rightarrow> server \<Rightarrow> bool option" where
  "obj_signaled o1 t s = do { ob \<leftarrow> objects s o1; body_signaled (body ob) t }"

subsection \<open>The wait is satisfied\<close>

text \<open>The result says whether the object had been abandoned.\<close>

definition no_satisfied :: "oid \<Rightarrow> oid \<Rightarrow> server \<Rightarrow> (bool \<times> server) option" where
  "no_satisfied o1 t s = Some (False, s)"

definition event_satisfied :: "oid \<Rightarrow> server \<Rightarrow> (bool \<times> server) option" where
  "event_satisfied o1 s =
     do { ev \<leftarrow> get_event s o1;
          s \<leftarrow> (if \<not> manual_reset ev then set_body o1 (Event (ev\<lparr>signaled := False\<rparr>)) s else Some s);
          Some (False, s) }"

definition mutex_satisfied :: "oid \<Rightarrow> oid \<Rightarrow> server \<Rightarrow> (bool \<times> server) option" where
  "mutex_satisfied o1 t s =
     do { mx \<leftarrow> get_mutex s o1;
          if \<not> (mx_count mx = 0 \<or> owner mx = Some t) then None else do {
          s \<leftarrow> (if mx_count mx = 0
                then (if owner mx \<noteq> None then None else do {
                  th \<leftarrow> get_thread s t;
                  s \<leftarrow> set_body o1 (Mutex (mx\<lparr>mx_count := mx_count mx + 1, owner := Some t\<rparr>)) s;
                  set_body t (Thread (th\<lparr>mutex_list := o1 # mutex_list th\<rparr>)) s })
                else set_body o1 (Mutex (mx\<lparr>mx_count := mx_count mx + 1\<rparr>)) s);
          mx \<leftarrow> get_mutex s o1;
          if \<not> abandoned mx then Some (False, s)
          else do { s \<leftarrow> set_body o1 (Mutex (mx\<lparr>abandoned := False\<rparr>)) s; Some (True, s) } } }"

definition semaphore_satisfied :: "oid \<Rightarrow> server \<Rightarrow> (bool \<times> server) option" where
  "semaphore_satisfied o1 s =
     do { sem \<leftarrow> get_semaphore s o1;
          if sem_count sem = 0 then None else do {
          s \<leftarrow> set_body o1 (Semaphore (sem\<lparr>sem_count := sem_count sem - 1\<rparr>)) s;
          Some (False, s) } }"

definition timer_satisfied :: "oid \<Rightarrow> server \<Rightarrow> (bool \<times> server) option" where
  "timer_satisfied o1 s =
     do { tm \<leftarrow> get_timer s o1;
          s \<leftarrow> (if \<not> tm_manual tm then set_body o1 (Timer (tm\<lparr>tm_signaled := False\<rparr>)) s else Some s);
          Some (False, s) }"

definition obj_satisfied :: "oid \<Rightarrow> oid \<Rightarrow> server \<Rightarrow> (bool \<times> server) option" where
  "obj_satisfied o1 t s =
     do { ob \<leftarrow> objects s o1;
          case body ob of
            Thread _ \<Rightarrow> no_satisfied o1 t s
          | Process _ \<Rightarrow> no_satisfied o1 t s
          | Event _ \<Rightarrow> event_satisfied o1 s
          | Mutex _ \<Rightarrow> mutex_satisfied o1 t s
          | Semaphore _ \<Rightarrow> semaphore_satisfied o1 s
          | Timer _ \<Rightarrow> timer_satisfied o1 s
          | _ \<Rightarrow> None }"

subsection \<open>Wait queues\<close>

definition add_queue :: "wait_queue_entry \<Rightarrow> server \<Rightarrow> (bool \<times> server) option" where
  "add_queue entry s =
     do { s \<leftarrow> grab_object (e_obj entry) s;
          ob \<leftarrow> objects s (e_obj entry);
          Some (True, set_obj (e_obj entry) (ob\<lparr>wait_queue := wait_queue ob @ [entry]\<rparr>) s) }"

definition no_add_queue :: "wait_queue_entry \<Rightarrow> server \<Rightarrow> (bool \<times> server) option" where
  "no_add_queue entry s = Some (False, set_error STATUS_OBJECT_TYPE_MISMATCH s)"

definition remove_queue :: "release \<Rightarrow> wait_queue_entry \<Rightarrow> server \<Rightarrow> server option" where
  "remove_queue rel entry s =
     do { ob \<leftarrow> objects s (e_obj entry);
          q \<leftarrow> list_remove entry (wait_queue ob);
          rel (e_obj entry) (set_obj (e_obj entry) (ob\<lparr>wait_queue := q\<rparr>) s) }"

definition waitable :: "obj_ops \<Rightarrow> bool" where
  "waitable t \<longleftrightarrow> t \<in> {process_ops, thread_ops, event_ops, mutex_ops, semaphore_ops, timer_ops}"

definition obj_add_queue :: "wait_queue_entry \<Rightarrow> server \<Rightarrow> (bool \<times> server) option" where
  "obj_add_queue entry s =
     do { ob \<leftarrow> objects s (e_obj entry);
          if waitable (ops (body ob)) then add_queue entry s else no_add_queue entry s }"

definition obj_remove_queue :: "release \<Rightarrow> wait_queue_entry \<Rightarrow> server \<Rightarrow> server option" where
  "obj_remove_queue rel entry s =
     do { ob \<leftarrow> objects s (e_obj entry);
          if waitable (ops (body ob)) then remove_queue rel entry s else None }"

text \<open>\<open>upd_wait f t\<close> changes the current wait of the thread.\<close>

definition upd_wait :: "(thread_wait \<Rightarrow> thread_wait) \<Rightarrow> oid \<Rightarrow> server \<Rightarrow> server option" where
  "upd_wait f t s =
     do { th \<leftarrow> get_thread s t;
          case waits th of [] \<Rightarrow> None
          | w # ws \<Rightarrow> set_body t (Thread (th\<lparr>waits := f w # ws\<rparr>)) s }"

fun drop_queues :: "release \<Rightarrow> oid \<Rightarrow> wait_queue_entry list \<Rightarrow> server \<Rightarrow> server option" where
  "drop_queues rel t [] s = Some s"
| "drop_queues rel t (e # es) s =
     do { s \<leftarrow> upd_wait (\<lambda>w. w\<lparr>queues := es\<rparr>) t s;
          s \<leftarrow> obj_remove_queue rel e s;
          drop_queues rel t es s }"

definition end_wait :: "release \<Rightarrow> oid \<Rightarrow> server \<Rightarrow> server option" where
  "end_wait rel t s =
     do { th \<leftarrow> get_thread s t;
          case waits th of [] \<Rightarrow> None
          | w # _ \<Rightarrow> do {
              s \<leftarrow> drop_queues rel t (queues w) s;
              s \<leftarrow> (case w_user w of Some u \<Rightarrow> remove_timeout_user u s | None \<Rightarrow> Some s);
              th \<leftarrow> get_thread s t;
              set_body t (Thread (th\<lparr>waits := tl (waits th)\<rparr>)) s } }"

text \<open>The loop of \<^verbatim>\<open>wait_on\<close>, for the objects that are left.\<close>

fun queue_objects :: "release \<Rightarrow> oid \<Rightarrow> oid list \<Rightarrow> server \<Rightarrow> (bool \<times> server) option" where
  "queue_objects rel t [] s = Some (True, s)"
| "queue_objects rel t (o1 # os) s =
     do { let entry = \<lparr>e_id = next_addr s, e_obj = o1, e_thread = t\<rparr>;
          (ok, s) \<leftarrow> obj_add_queue entry (s\<lparr>next_addr := Suc (next_addr s)\<rparr>);
          if \<not> ok then do { s \<leftarrow> end_wait rel t s; Some (False, s) }
          else do { s \<leftarrow> upd_wait (\<lambda>w. w\<lparr>queues := queues w @ [entry]\<rparr>) t s;
                    queue_objects rel t os s } }"

definition wait_on :: "release \<Rightarrow> oid list \<Rightarrow> 32 word \<Rightarrow> timeval \<Rightarrow> server \<Rightarrow> (bool \<times> server) option" where
  "wait_on rel objs flags timeout s =
     (case mem_alloc s of (wait, s) \<Rightarrow>
      if \<not> wait then Some (False, s) else
      do { t \<leftarrow> current s;
           th \<leftarrow> get_thread s t;
           let w = \<lparr>w_id = next_addr s, w_flags = flags, w_cookie = None, w_timeout = timeout,
                    w_user = None, queues = []\<rparr>;
           s \<leftarrow> set_body t (Thread (th\<lparr>waits := w # waits th\<rparr>)) (s\<lparr>next_addr := Suc (next_addr s)\<rparr>);
           queue_objects rel t objs s })"

subsection \<open>Checking and waking\<close>

fun all_signaled :: "wait_queue_entry list \<Rightarrow> oid \<Rightarrow> server \<Rightarrow> bool option" where
  "all_signaled [] t s = Some True"
| "all_signaled (e # es) t s =
     do { sg \<leftarrow> obj_signaled (e_obj e) t s; rest \<leftarrow> all_signaled es t s; Some (sg \<and> rest) }"

fun satisfy_all :: "wait_queue_entry list \<Rightarrow> oid \<Rightarrow> server \<Rightarrow> (bool \<times> server) option" where
  "satisfy_all [] t s = Some (False, s)"
| "satisfy_all (e # es) t s =
     do { (ab, s) \<leftarrow> obj_satisfied (e_obj e) t s;
          (rest, s) \<leftarrow> satisfy_all es t s;
          Some (ab \<or> rest, s) }"

text \<open>The index of the first signaled object, with \<open>i\<close> the index of the first entry.\<close>

fun first_signaled :: "wait_queue_entry list \<Rightarrow> int \<Rightarrow> oid \<Rightarrow> server \<Rightarrow> (int \<times> oid) option option" where
  "first_signaled [] i t s = Some None"
| "first_signaled (e # es) i t s =
     do { sg \<leftarrow> obj_signaled (e_obj e) t s;
          if sg then Some (Some (i, e_obj e)) else first_signaled es (i + 1) t s }"

definition other_checks :: "thread \<Rightarrow> thread_wait \<Rightarrow> server \<Rightarrow> int" where
  "other_checks th w s =
     (if has (w_flags w) SELECT_INTERRUPTIBLE \<and> system_apc th \<noteq> [] then uint STATUS_USER_APC
      else if has (w_flags w) SELECT_ALERTABLE \<and> user_apc th \<noteq> [] then uint STATUS_USER_APC
      else if has (w_flags w) SELECT_TIMEOUT \<and> \<not> time_before (now s) (w_timeout w) then uint STATUS_TIMEOUT
      else -1)"

definition is_suspended :: "oid \<Rightarrow> server \<Rightarrow> bool option" where
  "is_suspended t s =
     do { th \<leftarrow> get_thread s t; p \<leftarrow> t_process th; pr \<leftarrow> get_process s p;
          Some (p_suspend pr + t_suspend th > 0) }"

definition check_wait :: "oid \<Rightarrow> server \<Rightarrow> (int \<times> server) option" where
  "check_wait t s =
     do { th \<leftarrow> get_thread s t;
          susp \<leftarrow> is_suspended t s;
          if susp then Some (-1, s) else
          case waits th of [] \<Rightarrow> None
          | w # _ \<Rightarrow>
            if has (w_flags w) SELECT_ALL then do {
              ok \<leftarrow> all_signaled (queues w) t s;
              if \<not> ok then Some (other_checks th w s, s)
              else do { (ab, s) \<leftarrow> satisfy_all (queues w) t s;
                        Some (if ab then uint STATUS_ABANDONED_WAIT_0 else 0, s) } }
            else do {
              sg \<leftarrow> first_signaled (queues w) 0 t s;
              case sg of None \<Rightarrow> Some (other_checks th w s, s)
              | Some (i, o1) \<Rightarrow> do {
                  (ab, s) \<leftarrow> obj_satisfied o1 t s;
                  Some (if ab then i + uint STATUS_ABANDONED_WAIT_0 else i, s) } } }"

text \<open>The client keeps its end of the pipe open, so the write succeeds.\<close>

definition send_thread_wakeup :: "oid \<Rightarrow> nat option \<Rightarrow> int \<Rightarrow> server \<Rightarrow> server" where
  "send_thread_wakeup t cookie sg s = s\<lparr>sent := sent s @ [Wakeup t cookie sg]\<rparr>"

text \<open>Each round of the loop ends one of the thread's waits; \<open>n\<close> bounds the rounds.\<close>

fun wake_thread_loop :: "nat \<Rightarrow> release \<Rightarrow> oid \<Rightarrow> nat \<Rightarrow> server \<Rightarrow> (nat \<times> server) option" where
  "wake_thread_loop n rel t woken s =
     do { th \<leftarrow> get_thread s t;
          case waits th of [] \<Rightarrow> Some (woken, s)
          | w # _ \<Rightarrow> do {
              (sg, s) \<leftarrow> check_wait t s;
              if sg = -1 then Some (woken, s)
              else do {
                s \<leftarrow> end_wait rel t s;
                let s = send_thread_wakeup t (w_cookie w) sg s;
                case n of 0 \<Rightarrow> None | Suc m \<Rightarrow> wake_thread_loop m rel t (woken + 1) s } } }"

declare wake_thread_loop.simps [simp del]

definition wake_thread :: "release \<Rightarrow> oid \<Rightarrow> server \<Rightarrow> (nat \<times> server) option" where
  "wake_thread rel t s =
     do { th \<leftarrow> get_thread s t; wake_thread_loop (length (waits th)) rel t 0 s }"

text \<open>
  The loop of \<^verbatim>\<open>wake_up\<close> at the entry \<open>ptr\<close>: the entry after it is read before its thread
  is woken.  Like the C macro it reads the list once more when it gets back to the head.
  The queue never grows while threads are woken, so its length bounds the rounds.
\<close>

fun wake_up_loop :: "nat \<Rightarrow> release \<Rightarrow> oid \<Rightarrow> wait_queue_entry option \<Rightarrow> int \<Rightarrow> server \<Rightarrow> server option" where
  "wake_up_loop n rel o1 cursor mx s =
     do { ob \<leftarrow> objects s o1;
          case cursor of None \<Rightarrow> Some s
          | Some ptr \<Rightarrow> do {
              nxt \<leftarrow> next_in ptr (wait_queue ob);
              (woken, s) \<leftarrow> wake_thread rel (e_thread ptr) s;
              if woken > 0 \<and> mx \<noteq> 0 \<and> mx - 1 = 0 then Some s
              else (case n of 0 \<Rightarrow> None
                    | Suc m \<Rightarrow> wake_up_loop m rel o1 nxt (if woken > 0 \<and> mx \<noteq> 0 then mx - 1 else mx) s) } }"

declare wake_up_loop.simps [simp del]

definition wake_up :: "release \<Rightarrow> oid \<Rightarrow> int \<Rightarrow> server \<Rightarrow> server option" where
  "wake_up rel o1 mx s =
     do { ob \<leftarrow> objects s o1;
          wake_up_loop (length (wait_queue ob)) rel o1
            (case wait_queue ob of [] \<Rightarrow> None | e # _ \<Rightarrow> Some e) mx s }"

subsection \<open>Mutexes\<close>

definition do_release :: "release \<Rightarrow> oid \<Rightarrow> server \<Rightarrow> server option" where
  "do_release rel o1 s =
     do { mx \<leftarrow> get_mutex s o1;
          if mx_count mx \<noteq> 0 then None else do {
          t \<leftarrow> owner mx;
          th \<leftarrow> get_thread s t;
          ms \<leftarrow> list_remove o1 (mutex_list th);
          s \<leftarrow> set_body t (Thread (th\<lparr>mutex_list := ms\<rparr>)) s;
          s \<leftarrow> set_body o1 (Mutex (mx\<lparr>owner := None\<rparr>)) s;
          wake_up rel o1 0 s } }"

definition mutex_destroy :: "release \<Rightarrow> oid \<Rightarrow> server \<Rightarrow> server option" where
  "mutex_destroy rel o1 s =
     do { mx \<leftarrow> get_mutex s o1;
          if mx_count mx = 0 then Some s else do {
          s \<leftarrow> set_body o1 (Mutex (mx\<lparr>mx_count := 0\<rparr>)) s;
          do_release rel o1 s } }"

end
