(* ===== verification/Release.thy ===== *)
theory Release
  imports Waits
begin

text \<open>
  The \<^verbatim>\<open>destroy\<close> operations and \<^verbatim>\<open>release_object\<close> itself.
\<close>

subsection \<open>Destroying objects\<close>

text \<open>
  \<^verbatim>\<open>handle_table_destroy\<close> of \<^verbatim>\<open>handle.c\<close>.  The two loops run over the first \<open>n\<close> entries
  from \<open>i\<close> on; reading an entry that was never stored into is undefined.
\<close>

definition entry_at :: "handle_table \<Rightarrow> int \<Rightarrow> handle_entry option" where
  "entry_at ht i = Option.bind (read_at (entries ht) i) id"

definition set_entry :: "oid \<Rightarrow> int \<Rightarrow> handle_entry \<Rightarrow> server \<Rightarrow> server option" where
  "set_entry tb i e s =
     do { ht \<leftarrow> get_table s tb;
          es \<leftarrow> write_at (entries ht) i (Some e);
          set_body tb (Handle_table (ht\<lparr>entries := es\<rparr>)) s }"

definition index_to_handle :: "int \<Rightarrow> obj_handle" where
  "index_to_handle i = push_bit 2 (word_of_int (i + 1))"

fun notify_handles :: "nat \<Rightarrow> int \<Rightarrow> oid \<Rightarrow> oid \<Rightarrow> server \<Rightarrow> server option" where
  "notify_handles 0 i tb process s = Some s"
| "notify_handles (Suc n) i tb process s =
     do { ht \<leftarrow> get_table s tb;
          e \<leftarrow> entry_at ht i;
          s \<leftarrow> (case he_ptr e of None \<Rightarrow> Some s
                | Some o1 \<Rightarrow> do { (_, s) \<leftarrow> no_close_handle o1 process (index_to_handle i) s; Some s });
          notify_handles n (i + 1) tb process s }"

fun release_handles :: "nat \<Rightarrow> release \<Rightarrow> int \<Rightarrow> oid \<Rightarrow> server \<Rightarrow> server option" where
  "release_handles 0 rel i tb s = Some s"
| "release_handles (Suc n) rel i tb s =
     do { ht \<leftarrow> get_table s tb;
          e \<leftarrow> entry_at ht i;
          s \<leftarrow> set_entry tb i (e\<lparr>he_ptr := None\<rparr>) s;
          s \<leftarrow> (case he_ptr e of None \<Rightarrow> Some s | Some o1 \<Rightarrow> rel o1 s);
          release_handles n rel (i + 1) tb s }"

definition handle_table_destroy :: "release \<Rightarrow> oid \<Rightarrow> server \<Rightarrow> server option" where
  "handle_table_destroy rel tb s =
     do { ht \<leftarrow> get_table s tb;
          s \<leftarrow> (case ht_process ht of None \<Rightarrow> Some s
                | Some p \<Rightarrow> notify_handles (nat (ht_last ht + 1)) 0 tb p s);
          release_handles (nat (ht_last ht + 1)) rel 0 tb s }"

text \<open>\<^verbatim>\<open>release_object\<close> of a pointer that may be \<^verbatim>\<open>NULL\<close>.\<close>

definition release_opt :: "release \<Rightarrow> oid option \<Rightarrow> server \<Rightarrow> server option" where
  "release_opt rel p s = (case p of None \<Rightarrow> Some s | Some o1 \<Rightarrow> rel o1 s)"

text \<open>
  \<^verbatim>\<open>process_destroy\<close>: the parent and the idle event; console, message queue, message fd
  and token are not part of the model.
\<close>

definition process_destroy :: "release \<Rightarrow> oid \<Rightarrow> server \<Rightarrow> server option" where
  "process_destroy rel o1 s =
     do { pr \<leftarrow> get_process s o1;
          if thread_list pr \<noteq> [] then None else do {
          s \<leftarrow> set_body o1 (Process (pr\<lparr>p_parent := None\<rparr>)) s;
          s \<leftarrow> release_opt rel (p_parent pr) s;
          pr \<leftarrow> get_process s o1;
          s \<leftarrow> set_body o1 (Process (pr\<lparr>idle_event := None\<rparr>)) s;
          release_opt rel (idle_event pr) s } }"

text \<open>\<^verbatim>\<open>cleanup_thread\<close>, as far as the model knows the thread: its calls and its context.\<close>

definition cleanup_thread :: "oid \<Rightarrow> server \<Rightarrow> server option" where
  "cleanup_thread t s =
     do { th \<leftarrow> get_thread s t;
          set_body t (Thread (th\<lparr>system_apc := [], user_apc := [], t_context := False\<rparr>)) s }"

definition destroy_thread :: "release \<Rightarrow> oid \<Rightarrow> server \<Rightarrow> server option" where
  "destroy_thread rel t s =
     do { s \<leftarrow> cleanup_thread t s;
          th \<leftarrow> get_thread s t;
          s \<leftarrow> set_body t (Thread (th\<lparr>t_process := None\<rparr>)) s;
          p \<leftarrow> t_process th;
          rel p s }"

definition timer_destroy :: "release \<Rightarrow> oid \<Rightarrow> server \<Rightarrow> server option" where
  "timer_destroy rel o1 s =
     do { tm \<leftarrow> get_timer s o1;
          s \<leftarrow> (case tm_timeout tm of None \<Rightarrow> Some s | Some u \<Rightarrow> remove_timeout_user u s);
          s \<leftarrow> set_body o1 (Timer (tm\<lparr>tm_timeout := None, tm_thread := None\<rparr>)) s;
          release_opt rel (tm_thread tm) s }"

text \<open>Freeing the hash table of a directory; \<^verbatim>\<open>free(NULL)\<close> does nothing.\<close>

definition directory_destroy :: "oid \<Rightarrow> server \<Rightarrow> server option" where
  "directory_destroy o1 s =
     do { ns \<leftarrow> get_namespace s o1;
          case ns of None \<Rightarrow> Some s
          | Some n \<Rightarrow> do { _ \<leftarrow> namespaces s n; Some (s\<lparr>namespaces := (namespaces s)(n := None)\<rparr>) } }"

definition no_destroy :: "oid \<Rightarrow> server \<Rightarrow> server option" where
  "no_destroy o1 s = Some s"

text \<open>The string of a symbolic link is part of its body and goes with it.\<close>

definition symlink_destroy :: "oid \<Rightarrow> server \<Rightarrow> server option" where
  "symlink_destroy o1 s = Some s"

definition destroy :: "release \<Rightarrow> oid \<Rightarrow> server \<Rightarrow> server option" where
  "destroy rel o1 s =
     do { ob \<leftarrow> objects s o1;
          case ops (body ob) of
            handle_table_ops \<Rightarrow> handle_table_destroy rel o1 s
          | process_ops \<Rightarrow> process_destroy rel o1 s
          | thread_ops \<Rightarrow> destroy_thread rel o1 s
          | event_ops \<Rightarrow> no_destroy o1 s
          | mutex_ops \<Rightarrow> mutex_destroy rel o1 s
          | semaphore_ops \<Rightarrow> no_destroy o1 s
          | timer_ops \<Rightarrow> timer_destroy rel o1 s
          | directory_ops \<Rightarrow> directory_destroy o1 s
          | symlink_ops \<Rightarrow> symlink_destroy o1 s }"

subsection \<open>Releasing a reference\<close>

text \<open>
  \<^verbatim>\<open>release_object\<close> with at most \<open>n\<close> nested calls.  Every nested call releases a reference
  held by an object whose own count has just become zero, so the number of objects
  bounds the nesting: \<open>release_object\<close> starts with one call more than there can be objects.
\<close>

fun release_n :: "nat \<Rightarrow> release" where
  "release_n 0 o1 s = None"
| "release_n (Suc n) o1 s =
     do { ob \<leftarrow> objects s o1;
          if refcount ob = 0 then None else do {
          let s = set_obj o1 (ob\<lparr>refcount := refcount ob - 1\<rparr>) s;
          if refcount ob - 1 \<noteq> 0 then Some s
          else if wait_queue ob \<noteq> [] then None
          else do {
            s \<leftarrow> destroy (release_n n) o1 s;
            ob \<leftarrow> objects s o1;
            s \<leftarrow> (if obj_name ob \<noteq> None then free_name (release_n n) o1 s else Some s);
            Some (s\<lparr>objects := (objects s)(o1 := None)\<rparr>) } } }"

definition release_object :: release where
  "release_object o1 s = release_n (Suc (next_oid s)) o1 s"

end
