(* ===== verification/Server_Inv.thy ===== *)
theory Server_Inv
  imports Release
begin

text \<open>
  What holds of the objects between any two steps of the server: every reference count is
  the number of the references there are, wait queues and waits, mutexes and their owners,
  processes and their threads, names and hash tables, timeouts and those who wait for them
  agree with each other.  \<open>E\<close> is the multiset of the references held outside the objects: by
  the local variables of the code that runs, and by the parts of the server that are not
  modelled.
\<close>

subsection \<open>What the invariant sees of a body\<close>

definition opt :: "'a option \<Rightarrow> 'a multiset" where
  "opt x = (case x of None \<Rightarrow> {#} | Some y \<Rightarrow> {#y#})"

lemma opt_simps [simp]: "opt None = {#}" "opt (Some y) = {#y#}"
  by (simp_all add: opt_def)

definition entry_refs :: "handle_entry option \<Rightarrow> oid multiset" where
  "entry_refs e = opt (Option.bind e he_ptr)"

definition table_refs :: "handle_table \<Rightarrow> oid multiset" where
  "table_refs ht = sum_list (map entry_refs (entries ht))"

fun w_entries :: "obj_body \<Rightarrow> wait_queue_entry list" where
  "w_entries (Thread th) = concat (map queues (waits th))"
| "w_entries _ = []"

fun owned :: "obj_body \<Rightarrow> oid list" where
  "owned (Thread th) = mutex_list th"
| "owned _ = []"

fun owned_by :: "obj_body \<Rightarrow> oid option" where
  "owned_by (Mutex mx) = owner mx"
| "owned_by _ = None"

fun threads_of :: "obj_body \<Rightarrow> oid list" where
  "threads_of (Process pr) = thread_list pr"
| "threads_of _ = []"

fun proc_of :: "obj_body \<Rightarrow> oid option" where
  "proc_of (Thread th) = t_process th"
| "proc_of _ = None"

fun handles_of :: "obj_body \<Rightarrow> oid option" where
  "handles_of (Process pr) = handles pr"
| "handles_of _ = None"

fun space_of :: "obj_body \<Rightarrow> nat option" where
  "space_of (Directory ns) = ns"
| "space_of _ = None"

fun busy :: "obj_body \<Rightarrow> bool" where
  "busy (Thread th) = (waits th \<noteq> [] \<or> mutex_list th \<noteq> [])"
| "busy _ = False"

fun timeouts_of :: "oid \<Rightarrow> obj_body \<Rightarrow> (nat \<times> timeout_callback) multiset" where
  "timeouts_of o1 (Thread th) =
     sum_list (map (\<lambda>w. image_mset (\<lambda>u. (u, Thread_timeout o1 (w_id w))) (opt (w_user w))) (waits th))"
| "timeouts_of o1 (Timer tm) = image_mset (\<lambda>u. (u, Timer_callback o1)) (opt (tm_timeout tm))"
| "timeouts_of o1 _ = {#}"

fun out_refs :: "obj_body \<Rightarrow> oid multiset" where
  "out_refs (Handle_table ht) = table_refs ht"
| "out_refs (Process pr) = opt (p_parent pr) + opt (handles pr) + opt (idle_event pr) + mset (thread_list pr)"
| "out_refs (Thread th) = opt (t_process th) + image_mset e_obj (mset (concat (map queues (waits th))))"
| "out_refs (Timer tm) = opt (tm_thread tm)"
| "out_refs _ = {#}"

text \<open>
  A handle table: the slots up to \<^verbatim>\<open>last\<close> have been stored into, those after it hold no
  object, and all those before \<^verbatim>\<open>free\<close> do.
\<close>

definition table_ok :: "handle_table \<Rightarrow> bool" where
  "table_ok ht \<longleftrightarrow> -1 \<le> ht_last ht \<and> ht_last ht < ht_count ht \<and> 0 \<le> ht_free ht \<and>
     ht_free ht \<le> ht_last ht + 1 \<and> ht_count ht \<le> INT_MAX \<and> 0 < ht_count ht \<and>
     (\<forall>i. 0 \<le> i \<and> i \<le> ht_last ht \<longrightarrow> entry_at ht i \<noteq> None) \<and>
     (\<forall>i e. ht_last ht < i \<and> entry_at ht i = Some e \<longrightarrow> he_ptr e = None) \<and>
     (\<forall>i e. 0 \<le> i \<and> i < ht_free ht \<and> entry_at ht i = Some e \<longrightarrow> he_ptr e \<noteq> None)"

fun body_ok :: "obj_body \<Rightarrow> bool" where
  "body_ok (Handle_table ht) = table_ok ht"
| "body_ok (Mutex mx) = (mx_count mx = 0 \<longleftrightarrow> owner mx = None)"
| "body_ok (Thread th) = (distinct (mutex_list th) \<and> distinct (map w_id (waits th)))"
| "body_ok (Process pr) = distinct (thread_list pr)"
| "body_ok _ = True"

definition obj_refs :: "object \<Rightarrow> oid multiset" where
  "obj_refs ob = out_refs (body ob) + (case obj_name ob of None \<Rightarrow> {#} | Some nm \<Rightarrow> opt (n_parent nm))"

subsection \<open>The links between objects\<close>

text \<open>
  One function for each kind of link, with a default for addresses not in use.  Two states
  with the same functions have the same links, and replacing one object updates the
  functions at one point.
\<close>

definition look :: "'b \<Rightarrow> (oid \<Rightarrow> object \<Rightarrow> 'b) \<Rightarrow> server \<Rightarrow> oid \<Rightarrow> 'b" where
  "look d f s o1 = (case objects s o1 of None \<Rightarrow> d | Some ob \<Rightarrow> f o1 ob)"

abbreviation "type_at \<equiv> look None (\<lambda>_ ob. Some (ops (body ob)))"
abbreviation "alive_at \<equiv> look False (\<lambda>_ ob. 0 < refcount ob)"
abbreviation "queue_at \<equiv> look {#} (\<lambda>_ ob. mset (wait_queue ob))"
abbreviation "entries_at \<equiv> look {#} (\<lambda>_ ob. mset (w_entries (body ob)))"
abbreviation "owned_at \<equiv> look {} (\<lambda>_ ob. set (owned (body ob)))"
abbreviation "owner_at \<equiv> look None (\<lambda>_ ob. owned_by (body ob))"
abbreviation "threads_at \<equiv> look {} (\<lambda>_ ob. set (threads_of (body ob)))"
abbreviation "proc_at \<equiv> look None (\<lambda>_ ob. proc_of (body ob))"
abbreviation "busy_at \<equiv> look False (\<lambda>_ ob. busy (body ob))"
abbreviation "handles_at \<equiv> look None (\<lambda>_ ob. handles_of (body ob))"
abbreviation "space_at \<equiv> look None (\<lambda>_ ob. space_of (body ob))"
abbreviation "name_at \<equiv> look None (\<lambda>_ ob. obj_name ob)"
abbreviation "timeouts_at \<equiv> look {#} (\<lambda>o1 ob. timeouts_of o1 (body ob))"
abbreviation "refs_at \<equiv> look {#} (\<lambda>_. obj_refs)"

definition linked :: "server \<Rightarrow> nat \<Rightarrow> nat \<Rightarrow> oid list" where
  "linked s n h = (case namespaces s n of None \<Rightarrow> [] | Some b \<Rightarrow> if h < length b then b ! h else [])"

lemma look_Some: "objects s o1 = Some ob \<Longrightarrow> look d f s o1 = f o1 ob"
  by (simp add: look_def)

lemma look_None: "objects s o1 = None \<Longrightarrow> look d f s o1 = d"
  by (simp add: look_def)

lemma look_cong: "objects s' = objects s \<Longrightarrow> look d f s' = look d f s"
  by (auto simp: look_def)

lemma set_obj_sel [simp]:
  "objects (set_obj o1 ob s) = (objects s)(o1 \<mapsto> ob)" "next_oid (set_obj o1 ob s) = next_oid s"
  "next_addr (set_obj o1 ob s) = next_addr s" "namespaces (set_obj o1 ob s) = namespaces s"
  "global_table (set_obj o1 ob s) = global_table s" "root_directory (set_obj o1 ob s) = root_directory s"
  "timeout_list (set_obj o1 ob s) = timeout_list s" "expired (set_obj o1 ob s) = expired s" "sent (set_obj o1 ob s) = sent s"
  "now (set_obj o1 ob s) = now s" "tolowerW (set_obj o1 ob s) = tolowerW s"
  "current (set_obj o1 ob s) = current s" "mem_oracle (set_obj o1 ob s) = mem_oracle s"
  "global_error (set_obj o1 ob s) = global_error s" "thread_error (set_obj o1 ob s) = thread_error s"
  by (simp_all add: set_obj_def)

lemma get_error_set_obj [simp]: "get_error (set_obj o1 ob s) = get_error s"
  by (simp add: get_error_def split: option.split)

lemma look_set_obj [simp]: "look d f (set_obj o1 ob s) = (look d f s)(o1 := f o1 ob)"
  by (auto simp: look_def)

lemma look_free [simp]: "look d f (s\<lparr>objects := (objects s)(o1 := None)\<rparr>) = (look d f s)(o1 := d)"
  by (auto simp: look_def)

lemma linked_set_obj [simp]: "linked (set_obj o1 ob s) = linked s"
  by (intro ext) (simp add: linked_def)

lemma get_name_hash_cong:
  "namespaces s' = namespaces s \<Longrightarrow> tolowerW s' = tolowerW s \<Longrightarrow> get_name_hash s' = get_name_hash s"
  by (simp add: get_name_hash_def [abs_def] cong: if_cong)

lemma get_name_hash_set_obj [simp]: "get_name_hash (set_obj o1 ob s) = get_name_hash s"
  by (rule get_name_hash_cong) simp_all

subsection \<open>Sums over all objects\<close>

definition total :: "nat \<Rightarrow> (oid \<Rightarrow> 'a multiset) \<Rightarrow> 'a multiset" where
  "total n f = (\<Sum>o1<n. f o1)"

definition refs :: "server \<Rightarrow> oid multiset" where
  "refs s = total (next_oid s) (refs_at s) + opt (global_table s) + opt (root_directory s)"

definition wait_entries :: "server \<Rightarrow> wait_queue_entry multiset" where
  "wait_entries s = total (next_oid s) (entries_at s)"

definition timeouts :: "server \<Rightarrow> (nat \<times> timeout_callback) multiset" where
  "timeouts s = total (next_oid s) (timeouts_at s)"

lemma in_total_iff: "x \<in># total n f \<longleftrightarrow> (\<exists>o1<n. x \<in># f o1)"
  unfolding total_def by (auto simp: set_mset_sum)

lemma total_upd:
  assumes "o1 < n"
  shows "total n (f(o1 := y)) + f o1 = total n f + y"
proof -
  have "(\<Sum>p\<in>{..<n} - {o1}. (f(o1 := y)) p) = (\<Sum>p\<in>{..<n} - {o1}. f p)"
    by (rule sum.cong) auto
  then show ?thesis
    using assms unfolding total_def by (simp add: sum.remove [of "{..<n}" o1] ac_simps)
qed

lemma total_alloc: "total (Suc n) (f(n := x)) = total n f + x"
proof -
  have "(\<Sum>p<n. (f(n := x)) p) = total n f" unfolding total_def by (rule sum.cong) auto
  then show ?thesis by (simp add: total_def)
qed

subsection \<open>The invariant\<close>

definition alloc_ok :: "server \<Rightarrow> bool" where
  "alloc_ok s \<longleftrightarrow>
     (\<forall>o1 ob. objects s o1 = Some ob \<longrightarrow> o1 < next_oid s \<and> (0 < refcount ob \<longrightarrow> body_ok (body ob)))"

definition refs_ok :: "oid multiset \<Rightarrow> server \<Rightarrow> bool" where
  "refs_ok E s \<longleftrightarrow> (\<forall>o1. count (refs s + E) o1 = look 0 (\<lambda>_. refcount) s o1)"

text \<open>Every wait queue holds the entries of the waits for its object, each in one place.\<close>

definition waits_ok :: "server \<Rightarrow> bool" where
  "waits_ok s \<longleftrightarrow>
     (\<forall>o1. queue_at s o1 = filter_mset (\<lambda>e. e_obj e = o1) (wait_entries s)) \<and>
     (\<forall>t. \<forall>e\<in>#entries_at s t. e_thread e = t \<and> e_id e < next_addr s \<and>
        (\<exists>ty. type_at s (e_obj e) = Some ty \<and> waitable ty)) \<and>
     (\<forall>i. count (image_mset e_id (wait_entries s)) i \<le> 1)"

definition threads_ok :: "server \<Rightarrow> bool" where
  "threads_ok s \<longleftrightarrow>
     (\<forall>p. \<forall>t\<in>threads_at s p. proc_at s t = Some p) \<and>
     (\<forall>t p. proc_at s t = Some p \<longrightarrow> type_at s p = Some process_ops) \<and>
     (\<forall>t. type_at s t = Some thread_ops \<longrightarrow> alive_at s t \<longrightarrow> proc_at s t \<noteq> None) \<and>
     (\<forall>t. busy_at s t \<longrightarrow> (\<exists>p. proc_at s t = Some p \<and> t \<in> threads_at s p))"

definition mutexes_ok :: "server \<Rightarrow> bool" where
  "mutexes_ok s \<longleftrightarrow> (\<forall>m t. owner_at s m = Some t \<longleftrightarrow> m \<in> owned_at s t)"

definition timeouts_ok :: "server \<Rightarrow> bool" where
  "timeouts_ok s \<longleftrightarrow>
     image_mset (\<lambda>u. (tu_id u, tu_callback u)) (mset (expired s @ timeout_list s)) = timeouts s \<and>
     distinct (map tu_id (expired s @ timeout_list s)) \<and>
     (\<forall>u\<in>set (expired s @ timeout_list s). tu_id u < next_addr s) \<and>
     sorted_wrt (\<lambda>u v. \<not> time_before (tu_when v) (tu_when u)) (timeout_list s)"

text \<open>
  A name is linked in the table of its parent directory, in the bucket of its hash value,
  and a table links only the objects so named.
\<close>

definition names_ok :: "server \<Rightarrow> bool" where
  "names_ok s \<longleftrightarrow>
     (\<forall>o1 nm. name_at s o1 = Some nm \<longrightarrow>
        (\<exists>d. n_parent nm = Some d \<and> space_at s d = Some (n_space nm)) \<and> n_name nm \<noteq> [] \<and>
        get_name_hash s (n_space nm) (n_name nm) = Some (n_hash nm)) \<and>
     (\<forall>o1 n h. o1 \<in> set (linked s n h) \<longleftrightarrow>
        (\<exists>nm. name_at s o1 = Some nm \<and> n_space nm = n \<and> n_hash nm = h)) \<and>
     (\<forall>n h. distinct (linked s n h)) \<and>
     (\<forall>d n. space_at s d = Some n \<longrightarrow> alive_at s d \<longrightarrow>
        (\<exists>buckets. namespaces s n = Some buckets \<and> buckets \<noteq> [])) \<and>
     (\<forall>d d' n. space_at s d = Some n \<longrightarrow> space_at s d' = Some n \<longrightarrow> d = d') \<and>
     (\<forall>n. namespaces s n \<noteq> None \<longrightarrow> n < next_addr s) \<and>
     (\<forall>d n. space_at s d = Some n \<longrightarrow> n < next_addr s)"

text \<open>The pointers to objects of a fixed type; only a process that runs has a handle table.\<close>

definition typed_ok :: "server \<Rightarrow> bool" where
  "typed_ok s \<longleftrightarrow>
     (\<forall>p h. handles_at s p = Some h \<longrightarrow> type_at s h = Some handle_table_ops \<and> threads_at s p \<noteq> {}) \<and>
     (\<forall>h. global_table s = Some h \<longrightarrow> type_at s h = Some handle_table_ops) \<and>
     (\<forall>d. root_directory s = Some d \<longrightarrow> space_at s d \<noteq> None)"

definition links_ok :: "server \<Rightarrow> bool" where
  "links_ok s \<longleftrightarrow> waits_ok s \<and> threads_ok s \<and> mutexes_ok s \<and> timeouts_ok s \<and> names_ok s \<and> typed_ok s"

definition server_ok :: "oid multiset \<Rightarrow> server \<Rightarrow> bool" where
  "server_ok E s \<longleftrightarrow> alloc_ok s \<and> refs_ok E s \<and> links_ok s"

lemmas links_defs = waits_ok_def threads_ok_def mutexes_ok_def timeouts_ok_def names_ok_def typed_ok_def

subsection \<open>Consequences\<close>

lemma names_okD:
  assumes "names_ok s"
  shows names_ok_parent: "name_at s o1 = Some nm \<Longrightarrow> \<exists>d. n_parent nm = Some d \<and> space_at s d = Some (n_space nm)"
    and names_ok_name: "name_at s o1 = Some nm \<Longrightarrow>
      n_name nm \<noteq> [] \<and> get_name_hash s (n_space nm) (n_name nm) = Some (n_hash nm)"
    and names_ok_linked: "o1 \<in> set (linked s n h) \<longleftrightarrow>
      (\<exists>nm. name_at s o1 = Some nm \<and> n_space nm = n \<and> n_hash nm = h)"
    and names_ok_distinct: "distinct (linked s n h)"
    and names_ok_alive: "space_at s d = Some n \<Longrightarrow> alive_at s d \<Longrightarrow> \<exists>b. namespaces s n = Some b \<and> b \<noteq> []"
    and names_ok_unique: "space_at s d = Some n \<Longrightarrow> space_at s d' = Some n \<Longrightarrow> d = d'"
    and names_ok_addr: "namespaces s n \<noteq> None \<Longrightarrow> n < next_addr s"
    and names_ok_space: "space_at s d = Some n \<Longrightarrow> n < next_addr s"
  using assms unfolding names_ok_def by (elim conjE, blast)+

lemma threads_okD:
  assumes "threads_ok s"
  shows threads_ok_member: "t \<in> threads_at s p \<Longrightarrow> proc_at s t = Some p"
    and threads_ok_type: "proc_at s t = Some p \<Longrightarrow> type_at s p = Some process_ops"
    and threads_ok_alive: "type_at s t = Some thread_ops \<Longrightarrow> alive_at s t \<Longrightarrow> proc_at s t \<noteq> None"
    and threads_ok_busy: "busy_at s t \<Longrightarrow> \<exists>p. proc_at s t = Some p \<and> t \<in> threads_at s p"
  using assms unfolding threads_ok_def by (elim conjE, blast)+

lemma waits_okD:
  assumes "waits_ok s"
  shows waits_ok_queue: "queue_at s o1 = filter_mset (\<lambda>e. e_obj e = o1) (wait_entries s)"
    and waits_ok_entry: "e \<in># entries_at s t \<Longrightarrow> e_thread e = t \<and> e_id e < next_addr s"
    and waits_ok_type: "e \<in># entries_at s t \<Longrightarrow> \<exists>ty. type_at s (e_obj e) = Some ty \<and> waitable ty"
    and waits_ok_id: "count (image_mset e_id (wait_entries s)) i \<le> 1"
  using assms unfolding waits_ok_def by (elim conjE, blast)+

lemma typed_okD:
  assumes "typed_ok s"
  shows typed_ok_handles: "handles_at s p = Some h \<Longrightarrow>
      type_at s h = Some handle_table_ops \<and> threads_at s p \<noteq> {}"
    and typed_ok_global: "global_table s = Some h \<Longrightarrow> type_at s h = Some handle_table_ops"
    and typed_ok_root: "root_directory s = Some d \<Longrightarrow> space_at s d \<noteq> None"
  using assms unfolding typed_ok_def by (elim conjE, blast)+

lemma refs_ok_count:
  "refs_ok E s \<Longrightarrow> objects s o1 = Some ob \<Longrightarrow> refcount ob = count (refs s) o1 + count E o1"
  unfolding refs_ok_def by (metis count_union look_Some)

lemma refs_ok_alive:
  assumes "refs_ok E s" "o1 \<in># refs s + E"
  obtains ob where "objects s o1 = Some ob" "0 < refcount ob"
proof -
  have "0 < count (refs s + E) o1" using assms(2) by (simp add: count_greater_zero_iff)
  then have "0 < look 0 (\<lambda>_. refcount) s o1" using assms(1) unfolding refs_ok_def by metis
  then show ?thesis using that by (cases "objects s o1") (auto simp: look_def)
qed

lemma in_refsI:
  "objects s p = Some ob \<Longrightarrow> alloc_ok s \<Longrightarrow> x \<in># obj_refs ob \<Longrightarrow> x \<in># refs s"
  by (auto simp: refs_def in_total_iff alloc_ok_def look_def intro!: exI [of _ p])

text \<open>
  References move between the outside world and the body of an object, or the count of
  the object and the references to it change together.
\<close>

lemma refs_ok_set_obj:
  assumes ok: "refs_ok E s" "alloc_ok s" and ob: "objects s o1 = Some ob"
    and moved: "\<And>x. count (obj_refs ob') x + count E' x + (if x = o1 then refcount ob else 0) =
                 count (obj_refs ob) x + count E x + (if x = o1 then refcount ob' else 0)"
  shows "refs_ok E' (set_obj o1 ob' s)"
  unfolding refs_ok_def
proof
  fix x
  have "o1 < next_oid s" using ok(2) ob by (auto simp: alloc_ok_def)
  from total_upd [OF this, of "refs_at s" "obj_refs ob'"]
  have "refs (set_obj o1 ob' s) + obj_refs ob = refs s + obj_refs ob'"
    using ob by (simp add: refs_def look_Some ac_simps)
  then have "count (refs (set_obj o1 ob' s)) x + count (obj_refs ob) x = count (refs s) x + count (obj_refs ob') x"
    by (metis count_union)
  moreover have "count (refs s + E) x = look 0 (\<lambda>_. refcount) s x"
    using ok(1) by (simp add: refs_ok_def)
  ultimately show "count (refs (set_obj o1 ob' s) + E') x = look 0 (\<lambda>_. refcount) (set_obj o1 ob' s) x"
    using moved [of x] ob by (cases "x = o1") (simp_all add: look_Some)
qed

lemma links_ok_cong:
  assumes "objects s' = objects s" "next_oid s' = next_oid s" "next_addr s' = next_addr s"
    "namespaces s' = namespaces s" "tolowerW s' = tolowerW s" "timeout_list s' = timeout_list s" "expired s' = expired s"
    "global_table s' = global_table s" "root_directory s' = root_directory s"
  shows "links_ok s' \<longleftrightarrow> links_ok s"
proof -
  have "linked s' = linked s" using assms(4) by (intro ext) (simp add: linked_def)
  with assms show ?thesis
    by (simp add: links_ok_def links_defs wait_entries_def timeouts_def look_cong [OF assms(1)]
        get_name_hash_cong [OF assms(4,5)])
qed

text \<open>Two objects in the same place with the same links; the count may have fallen to zero.\<close>

definition same_links :: "oid \<Rightarrow> object \<Rightarrow> object \<Rightarrow> bool" where
  "same_links o1 ob ob' \<longleftrightarrow> ops (body ob') = ops (body ob) \<and> mset (wait_queue ob') = mset (wait_queue ob) \<and>
     mset (w_entries (body ob')) = mset (w_entries (body ob)) \<and> set (owned (body ob')) = set (owned (body ob)) \<and>
     owned_by (body ob') = owned_by (body ob) \<and> set (threads_of (body ob')) = set (threads_of (body ob)) \<and>
     proc_of (body ob') = proc_of (body ob) \<and> busy (body ob') = busy (body ob) \<and>
     handles_of (body ob') = handles_of (body ob) \<and> space_of (body ob') = space_of (body ob) \<and>
     obj_name ob' = obj_name ob \<and> timeouts_of o1 (body ob') = timeouts_of o1 (body ob) \<and>
     (0 < refcount ob' \<longrightarrow> 0 < refcount ob)"

lemma upd_at: "objects s o1 = Some ob \<Longrightarrow> f o1 ob' = f o1 ob \<Longrightarrow> look d f (set_obj o1 ob' s) = look d f s"
  by (auto simp: look_def)

lemma links_ok_same:
  assumes links: "links_ok s" and ob: "objects s o1 = Some ob" and same: "same_links o1 ob ob'"
  shows "links_ok (set_obj o1 ob' s)"
proof -
  note S = same [unfolded same_links_def]
  note U = upd_at [OF ob]
  have L: "type_at (set_obj o1 ob' s) = type_at s" "queue_at (set_obj o1 ob' s) = queue_at s"
    "entries_at (set_obj o1 ob' s) = entries_at s" "owned_at (set_obj o1 ob' s) = owned_at s"
    "owner_at (set_obj o1 ob' s) = owner_at s" "threads_at (set_obj o1 ob' s) = threads_at s"
    "proc_at (set_obj o1 ob' s) = proc_at s" "busy_at (set_obj o1 ob' s) = busy_at s"
    "handles_at (set_obj o1 ob' s) = handles_at s" "space_at (set_obj o1 ob' s) = space_at s"
    "name_at (set_obj o1 ob' s) = name_at s" "timeouts_at (set_obj o1 ob' s) = timeouts_at s"
    by (rule U; use S in simp)+
  have A: "alive_at (set_obj o1 ob' s) p \<Longrightarrow> alive_at s p" for p
    using S ob by (auto simp: look_Some split: if_splits)
  have W: "wait_entries (set_obj o1 ob' s) = wait_entries s" "timeouts (set_obj o1 ob' s) = timeouts s"
    unfolding wait_entries_def timeouts_def by (simp_all only: L set_obj_sel)
  have ok: "waits_ok s" "threads_ok s" "mutexes_ok s" "timeouts_ok s" "names_ok s" "typed_ok s"
    using links by (simp_all add: links_ok_def)
  have "waits_ok (set_obj o1 ob' s)"
    using ok(1) unfolding waits_ok_def L W set_obj_sel by blast
  moreover have "threads_ok (set_obj o1 ob' s)"
    using ok(2) A unfolding threads_ok_def L by blast
  moreover have "mutexes_ok (set_obj o1 ob' s)"
    using ok(3) unfolding mutexes_ok_def L by blast
  moreover have "timeouts_ok (set_obj o1 ob' s)"
    using ok(4) unfolding timeouts_ok_def W set_obj_sel by blast
  moreover have "names_ok (set_obj o1 ob' s)"
    using ok(5) A unfolding names_ok_def L linked_set_obj get_name_hash_set_obj set_obj_sel by blast
  moreover have "typed_ok (set_obj o1 ob' s)"
    using ok(6) unfolding typed_ok_def L set_obj_sel by blast
  ultimately show ?thesis by (simp add: links_ok_def)
qed


lemma server_okD:
  assumes "server_ok E s"
  shows "alloc_ok s" "refs_ok E s" "waits_ok s" "threads_ok s" "mutexes_ok s" "timeouts_ok s"
    "names_ok s" "typed_ok s" "links_ok s"
  using assms by (simp_all add: server_ok_def links_ok_def)

lemma server_ok_range: "server_ok E s \<Longrightarrow> objects s o1 = Some ob \<Longrightarrow> o1 < next_oid s"
  by (simp add: server_ok_def alloc_ok_def)

lemma server_ok_body: "server_ok E s \<Longrightarrow> objects s o1 = Some ob \<Longrightarrow> 0 < refcount ob \<Longrightarrow> body_ok (body ob)"
  by (simp add: server_ok_def alloc_ok_def)

text \<open>An object of which only the count, the references and what is not linked change.\<close>

lemma server_ok_set_obj:
  assumes ok: "server_ok E s" and ob: "objects s o1 = Some ob" and same: "same_links o1 ob ob'"
    and body: "0 < refcount ob' \<Longrightarrow> body_ok (body ob')"
    and moved: "\<And>x. count (obj_refs ob') x + count E' x + (if x = o1 then refcount ob else 0) =
                 count (obj_refs ob) x + count E x + (if x = o1 then refcount ob' else 0)"
  shows "server_ok E' (set_obj o1 ob' s)"
  using assms links_ok_same [OF _ ob same] refs_ok_set_obj [OF _ _ ob moved]
  unfolding server_ok_def alloc_ok_def by simp

lemma server_ok_grab:
  assumes "server_ok E s" "objects s o1 = Some ob" "0 < refcount ob"
  shows "server_ok (E + {#o1#}) (set_obj o1 (ob\<lparr>refcount := refcount ob + 1\<rparr>) s)"
  by (rule server_ok_set_obj [OF assms(1,2)])
    (use assms in \<open>auto simp: same_links_def obj_refs_def server_ok_body\<close>)

lemma server_ok_drop:
  assumes "server_ok (E + {#o1#}) s" "objects s o1 = Some ob"
  shows "server_ok E (set_obj o1 (ob\<lparr>refcount := refcount ob - 1\<rparr>) s)" "0 < refcount ob"
proof -
  show "0 < refcount ob" using refs_ok_count [OF server_okD(2) [OF assms(1)] assms(2)] by simp
  then show "server_ok E (set_obj o1 (ob\<lparr>refcount := refcount ob - 1\<rparr>) s)"
    by (intro server_ok_set_obj [OF assms(1,2)])
      (use assms in \<open>auto simp: same_links_def obj_refs_def server_ok_body\<close>)
qed

text \<open>Steps that touch nothing the invariant depends on.\<close>

lemma server_ok_cong:
  assumes "objects s' = objects s" "next_oid s' = next_oid s" "next_addr s' = next_addr s"
    "namespaces s' = namespaces s" "tolowerW s' = tolowerW s" "timeout_list s' = timeout_list s" "expired s' = expired s"
    "global_table s' = global_table s" "root_directory s' = root_directory s"
  shows "server_ok E s' \<longleftrightarrow> server_ok E s"
  using links_ok_cong [OF assms] assms look_cong [OF assms(1)]
  by (simp add: server_ok_def alloc_ok_def refs_ok_def refs_def look_cong [OF assms(1)])

text \<open>An object no reference is left to.\<close>

lemma no_refs:
  assumes ok: "server_ok E s" and ob: "objects s x = Some ob" and zero: "refcount ob = 0"
  shows "x \<notin># refs s" "x \<notin># E" "wait_queue ob = []" "\<not> busy (body ob)" "w_entries (body ob) = []"
    "owned (body ob) = []" "x \<notin> threads_at s p" "ops (body ob) = process_ops \<Longrightarrow> threads_of (body ob) = []"
    "\<And>o1 nm. name_at s o1 = Some nm \<Longrightarrow> n_parent nm \<noteq> Some x"
    "\<And>t. proc_at s t \<noteq> Some x" "\<And>p. handles_at s p \<noteq> Some x"
    "global_table s \<noteq> Some x" "root_directory s \<noteq> Some x" "handles_at s x = None"
proof -
  have "count (refs s) x + count E x = 0"
    using refs_ok_count [OF server_okD(2) [OF ok] ob] zero by simp
  then show nr: "x \<notin># refs s" "x \<notin># E" by (simp_all add: not_in_iff)
  have at: "x \<notin># obj_refs obp" if "objects s p = Some obp" for p obp
    using in_refsI [OF that server_okD(1) [OF ok]] nr by blast
  show thr: "x \<notin> threads_at s p" for p
  proof
    assume "x \<in> threads_at s p"
    then obtain obp where obp: "objects s p = Some obp" "x \<in> set (threads_of (body obp))"
      by (auto simp: look_def split: option.splits)
    then have "x \<in># obj_refs obp" by (cases "body obp") (simp_all add: obj_refs_def)
    then show False using at obp by blast
  qed
  then show nb: "\<not> busy (body ob)"
    using server_okD(4) [OF ok] ob unfolding threads_ok_def by (metis look_Some)
  then show "w_entries (body ob) = []" "owned (body ob) = []" by (cases "body ob"; simp)+
  show proc: "proc_at s t \<noteq> Some x" for t
  proof
    assume "proc_at s t = Some x"
    then obtain obt where obt: "objects s t = Some obt" "proc_of (body obt) = Some x"
      by (auto simp: look_def split: option.splits)
    then have "x \<in># obj_refs obt" by (cases "body obt") (simp_all add: obj_refs_def)
    then show False using at obt by blast
  qed
  show "n_parent nm \<noteq> Some x" if named: "name_at s o1 = Some nm" for o1 nm
  proof
    assume "n_parent nm = Some x"
    moreover obtain obo where "objects s o1 = Some obo" "obj_name obo = Some nm"
      using named by (auto simp: look_def split: option.splits)
    ultimately show False using at [of o1 obo] by (simp add: obj_refs_def)
  qed
  show "handles_at s p \<noteq> Some x" for p
  proof
    assume "handles_at s p = Some x"
    then obtain obp where obp: "objects s p = Some obp" "handles_of (body obp) = Some x"
      by (auto simp: look_def split: option.splits)
    then have "x \<in># obj_refs obp" by (cases "body obp") (simp_all add: obj_refs_def)
    then show False using at obp by blast
  qed
  show "global_table s \<noteq> Some x" "root_directory s \<noteq> Some x"
    using nr by (auto simp: refs_def)
  show tof: "threads_of (body ob) = []" if "ops (body ob) = process_ops"
  proof (rule ccontr)
    assume "threads_of (body ob) \<noteq> []"
    then have "hd (threads_of (body ob)) \<in> threads_at s x" using ob by (simp add: look_Some)
    then have "proc_at s (hd (threads_of (body ob))) = Some x"
      using server_okD(4) [OF ok] unfolding threads_ok_def by blast
    then show False using proc by blast
  qed
  show "handles_at s x = None"
  proof (rule ccontr)
    assume h: "handles_at s x \<noteq> None"
    then have "ops (body ob) = process_ops" using ob by (cases "body ob") (simp_all add: look_Some)
    moreover have "threads_at s x \<noteq> {}"
      using h server_okD(8) [OF ok] unfolding typed_ok_def by blast
    ultimately show False using tof ob by (simp add: look_Some)
  qed
  show "wait_queue ob = []"
  proof (rule ccontr)
    assume "wait_queue ob \<noteq> []"
    then have "hd (wait_queue ob) \<in># queue_at s x" using ob by (simp add: look_Some)
    then have "hd (wait_queue ob) \<in># filter_mset (\<lambda>e. e_obj e = x) (wait_entries s)"
      using server_okD(3) [OF ok] unfolding waits_ok_def by metis
    then obtain t e where e: "e \<in># entries_at s t" "e_obj e = x"
      by (auto simp: wait_entries_def in_total_iff)
    then obtain obt where obt: "objects s t = Some obt" "e \<in> set (w_entries (body obt))"
      by (auto simp: look_def split: option.splits)
    then have "x \<in># obj_refs obt" using e(2) by (cases "body obt") (auto simp: obj_refs_def)
    then show False using at obt by blast
  qed
qed

end
