(* ===== verification/Release_Correct.thy ===== *)
theory Release_Correct
  imports Server_Inv
begin

text \<open>
  \<^verbatim>\<open>release_object\<close> on a state where the invariant holds: no assertion fails, whatever the
  release destroys, the invariant holds again, and the objects that survive keep their
  links.  The functions that release objects are proved once for any \<open>rel\<close> that keeps
  this contract (the locale \<open>release_contract\<close>); the induction over the nesting of
  \<open>release_n\<close> gives it for \<open>release_object\<close>.
\<close>

subsection \<open>What a release may change\<close>

text \<open>An object may only lose references; a thread may lose mutexes that are destroyed.\<close>

definition body_shrinks :: "obj_body \<Rightarrow> obj_body \<Rightarrow> bool" where
  "body_shrinks b b' \<longleftrightarrow> b' = b \<or> (\<exists>th ms. b = Thread th \<and> b' = Thread (th\<lparr>mutex_list := ms\<rparr>))"

definition obj_shrinks :: "object \<Rightarrow> object \<Rightarrow> bool" where
  "obj_shrinks ob ob' \<longleftrightarrow> ob' = ob \<or>
     0 < refcount ob' \<and> refcount ob' \<le> refcount ob \<and> wait_queue ob' = wait_queue ob \<and>
     obj_name ob' = obj_name ob \<and> body_shrinks (body ob) (body ob')"

text \<open>What stays: all but the objects, the hash tables and the timeouts.\<close>

definition same_rest :: "server \<Rightarrow> server \<Rightarrow> bool" where
  "same_rest s s' \<longleftrightarrow> next_oid s' = next_oid s \<and> next_addr s' = next_addr s \<and>
     global_table s' = global_table s \<and> root_directory s' = root_directory s \<and> sent s' = sent s \<and>
     now s' = now s \<and> tolowerW s' = tolowerW s \<and> current s' = current s \<and> mem_oracle s' = mem_oracle s \<and>
     global_error s' = global_error s \<and> thread_error s' = thread_error s"

text \<open>Nothing is said of the objects in \<open>X\<close>.\<close>

definition shrinks :: "oid set \<Rightarrow> server \<Rightarrow> server \<Rightarrow> bool" where
  "shrinks X s s' \<longleftrightarrow> same_rest s s' \<and>
     (\<forall>o1. o1 \<notin> X \<longrightarrow>
        (case objects s o1 of
           None \<Rightarrow> objects s' o1 = None
         | Some ob \<Rightarrow> (case objects s' o1 of None \<Rightarrow> 0 < refcount ob | Some ob' \<Rightarrow> obj_shrinks ob ob')))"

definition live :: "server \<Rightarrow> nat" where
  "live s = card {o1. o1 < next_oid s \<and> alive_at s o1}"

lemma body_shrinks_refl [simp]: "body_shrinks b b"
  by (simp add: body_shrinks_def)

lemma body_shrinks_trans: "body_shrinks a b \<Longrightarrow> body_shrinks b c \<Longrightarrow> body_shrinks a c"
  by (auto simp: body_shrinks_def)

lemma body_shrinks_eq: "body_shrinks b b' \<Longrightarrow> ops b \<noteq> thread_ops \<Longrightarrow> b' = b"
  by (auto simp: body_shrinks_def)

lemma obj_shrinks_refl [simp]: "obj_shrinks ob ob"
  by (simp add: obj_shrinks_def)

lemma obj_shrinks_trans: "obj_shrinks a b \<Longrightarrow> obj_shrinks b c \<Longrightarrow> obj_shrinks a c"
  using body_shrinks_trans by (auto simp: obj_shrinks_def)

lemma obj_shrinks_dead: "obj_shrinks ob ob' \<Longrightarrow> refcount ob = 0 \<Longrightarrow> ob' = ob"
  by (auto simp: obj_shrinks_def)

lemma obj_shrinks_alive: "obj_shrinks ob ob' \<Longrightarrow> 0 < refcount ob \<longleftrightarrow> 0 < refcount ob'"
  by (auto simp: obj_shrinks_def)

lemma shrinks_refl [simp]: "shrinks X s s"
  by (simp add: shrinks_def same_rest_def split: option.split)

lemma shrinks_rest:
  assumes "shrinks X s s'"
  shows "next_oid s' = next_oid s" "next_addr s' = next_addr s" "global_table s' = global_table s"
    "root_directory s' = root_directory s" "sent s' = sent s" "now s' = now s" "tolowerW s' = tolowerW s"
    "current s' = current s" "mem_oracle s' = mem_oracle s" "get_error s' = get_error s"
  using assms by (auto simp: shrinks_def same_rest_def get_error_def split: option.split)

lemma shrinks_None: "shrinks X s s' \<Longrightarrow> o1 \<notin> X \<Longrightarrow> objects s o1 = None \<Longrightarrow> objects s' o1 = None"
  unfolding shrinks_def by (auto dest!: spec [of _ o1] split: option.splits)

lemma shrinks_Some:
  assumes "shrinks X s s'" "o1 \<notin> X" "objects s o1 = Some ob"
  shows "objects s' o1 = None \<and> 0 < refcount ob \<or> (\<exists>ob'. objects s' o1 = Some ob' \<and> obj_shrinks ob ob')"
  using assms unfolding shrinks_def by (auto dest!: spec [of _ o1] split: option.splits)

lemma shrinks_dead:
  assumes "shrinks X s s'" "o1 \<notin> X" "objects s o1 = Some ob" "refcount ob = 0"
  shows "objects s' o1 = Some ob"
  using shrinks_Some [OF assms(1-3)] assms(4) by (auto dest: obj_shrinks_dead)

lemma shrinks_survivor:
  assumes "shrinks X s s'" "o1 \<notin> X" "objects s o1 = Some ob" "objects s' o1 = Some ob'"
  shows "obj_shrinks ob ob'"
  using shrinks_Some [OF assms(1-3)] assms(4) by auto

lemma shrinksI:
  assumes "same_rest s s'" "\<And>o1. o1 \<notin> X \<Longrightarrow> objects s o1 = None \<Longrightarrow> objects s' o1 = None"
    "\<And>o1 ob. o1 \<notin> X \<Longrightarrow> objects s o1 = Some ob \<Longrightarrow>
       objects s' o1 = None \<and> 0 < refcount ob \<or> (\<exists>ob'. objects s' o1 = Some ob' \<and> obj_shrinks ob ob')"
  shows "shrinks X s s'"
  using assms(1) assms(2,3) unfolding shrinks_def by (auto split: option.split dest: assms(3))

lemma shrinks_trans:
  assumes 1: "shrinks X s s1" and 2: "shrinks Y s1 s2"
  shows "shrinks (X \<union> Y) s s2"
proof (rule shrinksI)
  show "same_rest s s2" using 1 2 by (simp add: shrinks_def same_rest_def)
next
  fix o1 ob
  assume o: "o1 \<notin> X \<union> Y" "objects s o1 = Some ob"
  show "objects s2 o1 = None \<and> 0 < refcount ob \<or> (\<exists>ob'. objects s2 o1 = Some ob' \<and> obj_shrinks ob ob')"
  proof (cases "objects s1 o1")
    case None
    then show ?thesis using shrinks_Some [OF 1 _ o(2)] shrinks_None [OF 2 _ None] o by auto
  next
    case (Some ob1)
    then have "obj_shrinks ob ob1" using shrinks_survivor [OF 1 _ o(2) Some] o by simp
    then show ?thesis
      using shrinks_Some [OF 2 _ Some] obj_shrinks_trans obj_shrinks_alive o by fastforce
  qed
qed (use shrinks_None [OF 1] shrinks_None [OF 2] in blast)

lemma shrinks_mono: "shrinks X s s' \<Longrightarrow> X \<subseteq> Y \<Longrightarrow> shrinks Y s s'"
  by (auto simp: shrinks_def)

lemma shrinks_trans1: "shrinks {x} s s1 \<Longrightarrow> shrinks {x} s1 s2 \<Longrightarrow> shrinks {x} s s2"
  using shrinks_trans [of "{x}" s s1 "{x}" s2] by simp

lemma shrinks_upd: "same_rest s s' \<Longrightarrow> \<forall>o1. o1 \<notin> X \<longrightarrow> objects s' o1 = objects s o1 \<Longrightarrow> shrinks X s s'"
  by (rule shrinksI) auto

lemma shrinks_set_obj: "shrinks {o1} s (set_obj o1 ob s)"
  by (rule shrinks_upd) (simp_all add: same_rest_def)

lemma shrinks_alive:
  assumes "shrinks X s s'" "o1 \<notin> X" "alive_at s' o1"
  shows "alive_at s o1"
proof (cases "objects s o1")
  case None
  then show ?thesis using shrinks_None [OF assms(1,2)] assms(3) by (simp add: look_None)
next
  case (Some ob)
  then show ?thesis
    using shrinks_Some [OF assms(1,2) Some] assms(3) by (auto simp: look_None look_Some obj_shrinks_alive)
qed

lemma shrinks_live:
  assumes "shrinks X s s'" "\<And>x. x \<in> X \<Longrightarrow> alive_at s' x \<Longrightarrow> alive_at s x"
  shows "live s' \<le> live s"
proof -
  have "alive_at s o1" if "alive_at s' o1" for o1
    using shrinks_alive [OF assms(1) _ that] assms(2) [OF _ that] by blast
  then have "{o1. o1 < next_oid s' \<and> alive_at s' o1} \<subseteq> {o1. o1 < next_oid s \<and> alive_at s o1}"
    by (simp only: shrinks_rest(1) [OF assms(1)]) blast
  then show ?thesis unfolding live_def by (rule card_mono [rotated]) simp
qed


subsection \<open>The references of a handle table\<close>

lemma entry_at_Some: "entry_at ht i = Some e \<longleftrightarrow> 0 \<le> i \<and> i < ht_count ht \<and> entries ht ! nat i = Some e"
  by (auto simp: entry_at_def read_at_def ht_count_def split: if_splits)

lemma table_refs_upd:
  assumes "0 \<le> i" "i < ht_count ht"
  shows "table_refs (ht\<lparr>entries := (entries ht)[nat i := e]\<rparr>) + entry_refs (entries ht ! nat i) =
    table_refs ht + entry_refs e"
proof -
  have i: "nat i < length (entries ht)" using assms by (simp add: ht_count_def)
  have "sum_list (map f (xs[k := y])) + f (xs ! k) = sum_list (map f xs) + (f y :: oid multiset)"
    if "k < length xs" for f k y and xs :: "'a list"
    using that by (induction xs arbitrary: k) (auto split: nat.splits)
  from this [OF i] show ?thesis by (simp add: table_refs_def)
qed

lemma table_refs_none:
  assumes "\<And>j e. entry_at ht j = Some e \<Longrightarrow> he_ptr e = None"
  shows "table_refs ht = {#}"
proof -
  have "entry_refs e = {#}" if mem: "e \<in> set (entries ht)" for e
  proof -
    obtain k where k: "k < length (entries ht)" "entries ht ! k = e" using mem by (auto simp: in_set_conv_nth)
    show ?thesis
    proof (cases e)
      case (Some h)
      then have "entry_at ht (int k) = Some h" using k by (simp add: entry_at_Some ht_count_def)
      then show ?thesis using assms Some by (simp add: entry_refs_def)
    qed (simp add: entry_refs_def)
  qed
  moreover have "\<forall>e\<in>set es. entry_refs e = {#} \<Longrightarrow> sum_list (map entry_refs es) = {#}" for es
    by (induction es) auto
  ultimately show ?thesis by (simp add: table_refs_def)
qed

lemma entry_at_upd:
  "0 \<le> i \<Longrightarrow> i < ht_count ht \<Longrightarrow>
   entry_at (ht\<lparr>entries := (entries ht)[nat i := e]\<rparr>) j = (if j = i then e else entry_at ht j)"
  by (auto simp: entry_at_def read_at_def ht_count_def nth_list_update)

subsection \<open>Functions that release objects\<close>

lemma live_set_obj:
  assumes "objects s x = Some ob" "0 < refcount ob' \<Longrightarrow> 0 < refcount ob"
  shows "live (set_obj x ob' s) \<le> live s"
  by (rule shrinks_live [OF shrinks_set_obj]) (use assms in \<open>auto simp: look_Some\<close>)

text \<open>Taking a mutex from its owner.\<close>

lemma disown:
  assumes ok: "server_ok E s" and ob: "objects s x = Some ob" and mx: "body ob = Mutex mx"
    and ow: "owner mx = Some t"
  obtains obt th where "objects s t = Some obt" "body obt = Thread th" "x \<in> set (mutex_list th)"
    "0 < refcount obt" "t \<noteq> x"
    "server_ok E (set_obj x (ob\<lparr>body := Mutex (mx\<lparr>mx_count := 0, owner := None\<rparr>)\<rparr>)
       (set_obj t (obt\<lparr>body := Thread (th\<lparr>mutex_list := remove1 x (mutex_list th)\<rparr>)\<rparr>) s))"
proof -
  note ok' = server_okD [OF ok]
  have "owner_at s x = Some t" using ob mx ow by (simp add: look_Some)
  then have "x \<in> owned_at s t" using ok'(5) by (simp add: mutexes_ok_def)
  then obtain obt where obt: "objects s t = Some obt" "x \<in> set (owned (body obt))"
    by (auto simp: look_def split: option.splits)
  then obtain th where th: "body obt = Thread th" "x \<in> set (mutex_list th)" by (cases "body obt") auto
  have "\<not> refcount obt = 0"
  proof
    assume "refcount obt = 0"
    from no_refs(6) [OF ok obt(1) this] show False using obt(2) by simp
  qed
  then have pos: "0 < refcount obt" by simp
  have ne: "t \<noteq> x" using obt(1) th(1) ob mx by auto
  have dist: "distinct (mutex_list th)" "distinct (map w_id (waits th))"
    using server_ok_body [OF ok obt(1) pos] th(1) by simp_all
  define obt' where "obt' = obt\<lparr>body := Thread (th\<lparr>mutex_list := remove1 x (mutex_list th)\<rparr>)\<rparr>"
  define ob' where "ob' = ob\<lparr>body := Mutex (mx\<lparr>mx_count := 0, owner := None\<rparr>)\<rparr>"
  define s1 where "s1 = set_obj t obt' s"
  define s2 where "s2 = set_obj x ob' s1"
  have ob1: "objects s1 x = Some ob" using ob ne by (simp add: s1_def)
  have al1: "alloc_ok s1"
    using ok'(1) obt th dist unfolding alloc_ok_def s1_def obt'_def by auto
  have al: "alloc_ok s2"
    using al1 ob1 unfolding alloc_ok_def s2_def ob'_def by auto
  have "refs_ok E s1"
    unfolding s1_def by (rule refs_ok_set_obj [OF ok'(2,1) obt(1)]) (simp add: obt'_def obj_refs_def th)
  then have refs: "refs_ok E s2"
    unfolding s2_def by (rule refs_ok_set_obj [OF _ al1 ob1]) (simp add: ob'_def obj_refs_def mx)
  have keep: "look d f s2 = look d f s" if "f t obt' = f t obt" "f x ob' = f x ob" for f and d :: 'b
    using upd_at [OF obt(1), of f obt' d] upd_at [OF ob1, of f ob' d] that by (simp add: s2_def s1_def)
  have L: "type_at s2 = type_at s" "queue_at s2 = queue_at s" "entries_at s2 = entries_at s"
    "threads_at s2 = threads_at s" "proc_at s2 = proc_at s" "handles_at s2 = handles_at s"
    "space_at s2 = space_at s" "name_at s2 = name_at s" "timeouts_at s2 = timeouts_at s"
    "alive_at s2 = alive_at s"
    by (rule keep; simp add: obt'_def ob'_def mx th)+
  have B: "busy_at s2 p \<Longrightarrow> busy_at s p" for p
    using obt ob by (auto simp: s2_def s1_def ob'_def obt'_def look_Some th split: if_splits)
  have R: "next_oid s2 = next_oid s" "next_addr s2 = next_addr s" "namespaces s2 = namespaces s"
    "timeout_list s2 = timeout_list s" "expired s2 = expired s" "global_table s2 = global_table s" "root_directory s2 = root_directory s"
    "linked s2 = linked s" "get_name_hash s2 = get_name_hash s"
    by (simp_all add: s2_def s1_def)
  have W: "wait_entries s2 = wait_entries s" "timeouts s2 = timeouts s"
    unfolding wait_entries_def timeouts_def by (simp_all only: L R)
  have own: "owner_at s2 = (owner_at s)(x := None)" "owned_at s2 = (owned_at s)(t := owned_at s t - {x})"
    using ob obt dist ne by (auto simp: s2_def s1_def obt'_def ob'_def th look_Some fun_eq_iff look_def mx split: option.splits)
  have "p = t" if "x \<in> owned_at s p" for p
    using that ok'(5) \<open>owner_at s x = Some t\<close> unfolding mutexes_ok_def by (metis option.inject)
  then have "mutexes_ok s2"
    using ok'(5) unfolding mutexes_ok_def own by auto
  moreover have "waits_ok s2" using ok'(3) unfolding waits_ok_def L W R by blast
  moreover have "threads_ok s2" using ok'(4) B unfolding threads_ok_def L by blast
  moreover have "timeouts_ok s2" using ok'(6) unfolding timeouts_ok_def W R by blast
  moreover have "names_ok s2" using ok'(7) unfolding names_ok_def L R by blast
  moreover have "typed_ok s2" using ok'(8) unfolding typed_ok_def L R by blast
  ultimately have "server_ok E s2" using al refs by (simp add: server_ok_def links_ok_def)
  then show ?thesis
    using that [OF obt(1) th pos ne] by (simp add: s2_def s1_def obt'_def ob'_def)
qed

text \<open>A dying thread forgets its process.\<close>

lemma forget_process:
  assumes ok: "server_ok E s" and ob: "objects s x = Some ob" and th: "body ob = Thread th"
    and z: "refcount ob = 0"
  shows "server_ok (E + opt (t_process th)) (set_obj x (ob\<lparr>body := Thread (th\<lparr>t_process := None\<rparr>)\<rparr>) s)"
proof -
  note ok' = server_okD [OF ok]
  note nr = no_refs [OF ok ob z]
  define ob' where "ob' = ob\<lparr>body := Thread (th\<lparr>t_process := None\<rparr>)\<rparr>"
  define s2 where "s2 = set_obj x ob' s"
  have al: "alloc_ok s2" using ok'(1) ob z unfolding alloc_ok_def s2_def ob'_def by auto
  have refs: "refs_ok (E + opt (t_process th)) s2"
    unfolding s2_def by (rule refs_ok_set_obj [OF ok'(2,1) ob]) (simp add: ob'_def obj_refs_def th)
  have keep: "look d f s2 = look d f s" if "f x ob' = f x ob" for f and d :: 'b
    unfolding s2_def by (rule upd_at [where f = f, OF ob that])
  have L: "type_at s2 = type_at s" "queue_at s2 = queue_at s" "entries_at s2 = entries_at s"
    "threads_at s2 = threads_at s" "handles_at s2 = handles_at s" "owner_at s2 = owner_at s"
    "owned_at s2 = owned_at s" "busy_at s2 = busy_at s"
    "space_at s2 = space_at s" "name_at s2 = name_at s" "timeouts_at s2 = timeouts_at s"
    "alive_at s2 = alive_at s"
    by (rule keep; simp add: ob'_def th)+
  have R: "next_oid s2 = next_oid s" "next_addr s2 = next_addr s" "namespaces s2 = namespaces s"
    "timeout_list s2 = timeout_list s" "expired s2 = expired s" "global_table s2 = global_table s" "root_directory s2 = root_directory s"
    "linked s2 = linked s" "get_name_hash s2 = get_name_hash s"
    by (simp_all add: s2_def)
  have W: "wait_entries s2 = wait_entries s" "timeouts s2 = timeouts s"
    unfolding wait_entries_def timeouts_def by (simp_all only: L R)
  have proc: "proc_at s2 = (proc_at s)(x := None)" by (simp add: s2_def ob'_def)
  have dead: "\<not> alive_at s x" "\<not> busy_at s x" "\<And>p. x \<notin> threads_at s p"
    using ob z nr(4,7) by (simp_all add: look_Some)
  have "threads_ok s2" using ok'(4) dead unfolding threads_ok_def L proc by (auto split: if_splits)
  moreover have "mutexes_ok s2" using ok'(5) unfolding mutexes_ok_def L by blast
  moreover have "waits_ok s2" using ok'(3) unfolding waits_ok_def L W R by blast
  moreover have "timeouts_ok s2" using ok'(6) unfolding timeouts_ok_def W R by blast
  moreover have "names_ok s2" using ok'(7) unfolding names_ok_def L R by blast
  moreover have "typed_ok s2" using ok'(8) unfolding typed_ok_def L R by blast
  ultimately show ?thesis using al refs by (simp add: server_ok_def links_ok_def s2_def ob'_def)
qed

lemma find_by_id:
  assumes "distinct (map tu_id us)" "v \<in> set us"
  shows "List.find (\<lambda>t. tu_id t = tu_id v) us = Some v"
  using assms by (induction us) (auto simp: image_iff)

lemma distinct_id_remove1: "distinct (map tu_id us) \<Longrightarrow> distinct (map tu_id (remove1 v us))"
  by (induction us) (use set_remove1_subset in fastforce)+

text \<open>A timeout that is linked is found in its list and taken off.\<close>

lemma remove_timeout_found:
  assumes ok: "timeouts_ok s" and v: "v \<in> set (expired s @ timeout_list s)"
  shows "\<exists>X T. remove_timeout_user (tu_id v) s = Some (s\<lparr>timeout_list := T, expired := X\<rparr>) \<and>
    mset (X @ T) + {#v#} = mset (expired s @ timeout_list s) \<and> distinct (map tu_id (X @ T)) \<and>
    set (X @ T) \<subseteq> set (expired s @ timeout_list s) \<and>
    sorted_wrt (\<lambda>u v. \<not> time_before (tu_when v) (tu_when u)) T"
proof -
  have d: "distinct (map tu_id (expired s @ timeout_list s))"
    and srt: "sorted_wrt (\<lambda>u v. \<not> time_before (tu_when v) (tu_when u)) (timeout_list s)"
    using ok by (simp_all only: timeouts_ok_def)
  then have d1: "distinct (map tu_id (expired s))" "distinct (map tu_id (timeout_list s))"
    and disj: "tu_id ` set (expired s) \<inter> tu_id ` set (timeout_list s) = {}" by simp_all
  have sub: "set (remove1 v us) \<subseteq> set us" for us by (rule set_remove1_subset)
  show ?thesis
  proof (cases "v \<in> set (timeout_list s)")
    case True
    have "remove_timeout_user (tu_id v) s = Some (s\<lparr>timeout_list := remove1 v (timeout_list s), expired := expired s\<rparr>)"
      using find_by_id [OF d1(2) True] by (simp add: remove_timeout_user_def)
    moreover have "distinct (map tu_id (expired s @ remove1 v (timeout_list s)))"
      using d1 disj distinct_id_remove1 [OF d1(2)] sub [of "timeout_list s"] by (auto simp: disjoint_iff)
    moreover have "mset (expired s @ remove1 v (timeout_list s)) + {#v#} = mset (expired s @ timeout_list s)"
      using True by simp
    moreover have "set (expired s @ remove1 v (timeout_list s)) \<subseteq> set (expired s @ timeout_list s)"
      using sub by fastforce
    ultimately show ?thesis using sorted_wrt_remove1 [OF srt] by blast
  next
    case False
    then have v': "v \<in> set (expired s)" using v by simp
    then have "List.find (\<lambda>t. tu_id t = tu_id v) (timeout_list s) = None"
      using disj by (auto simp: find_None_iff disjoint_iff)
    then have "remove_timeout_user (tu_id v) s = Some (s\<lparr>timeout_list := timeout_list s, expired := remove1 v (expired s)\<rparr>)"
      using find_by_id [OF d1(1) v'] by (simp add: remove_timeout_user_def)
    moreover have "distinct (map tu_id (remove1 v (expired s) @ timeout_list s))"
      using d1 disj distinct_id_remove1 [OF d1(1)] sub [of "expired s"] by (auto simp: disjoint_iff)
    moreover have "mset (remove1 v (expired s) @ timeout_list s) + {#v#} = mset (expired s @ timeout_list s)"
      using v' by simp
    moreover have "set (remove1 v (expired s) @ timeout_list s) \<subseteq> set (expired s @ timeout_list s)"
      using sub by fastforce
    ultimately show ?thesis using srt by blast
  qed
qed

text \<open>An object gives up a timeout; it may give up references in the same step.\<close>

lemma drop_timeout:
  assumes ok: "server_ok E s" and ob: "objects s x = Some ob"
    and to: "timeouts_of x (body ob') + {#(u, c)#} = timeouts_of x (body ob)"
    and same: "same_links x ob (ob'\<lparr>body := body ob\<rparr>)" "ops (body ob') = ops (body ob)"
      "w_entries (body ob') = w_entries (body ob)" "owned (body ob') = owned (body ob)"
      "owned_by (body ob') = owned_by (body ob)" "threads_of (body ob') = threads_of (body ob)"
      "proc_of (body ob') = proc_of (body ob)" "busy (body ob') = busy (body ob)"
      "handles_of (body ob') = handles_of (body ob)" "space_of (body ob') = space_of (body ob)"
    and body: "0 < refcount ob' \<Longrightarrow> body_ok (body ob')"
    and moved: "\<And>y. count (obj_refs ob') y + count E' y + (if y = x then refcount ob else 0) =
                 count (obj_refs ob) y + count E y + (if y = x then refcount ob' else 0)"
  shows "\<exists>s1. remove_timeout_user u s = Some s1 \<and> shrinks {} s s1 \<and> objects s1 = objects s \<and>
    server_ok E' (set_obj x ob' s1)"
proof -
  note ok' = server_okD [OF ok]
  have x: "x < next_oid s" by (rule server_ok_range [OF ok ob])
  have "(u, c) \<in># timeouts_at s x" using to ob by (simp add: look_Some) (metis union_single_eq_member)
  then have "(u, c) \<in># timeouts s" using x by (auto simp: timeouts_def in_total_iff)
  then have "(u, c) \<in># image_mset (\<lambda>u. (tu_id u, tu_callback u)) (mset (expired s @ timeout_list s))"
    using ok'(6) by (simp add: timeouts_ok_def)
  then obtain v where v: "v \<in> set (expired s @ timeout_list s)" "tu_id v = u" "tu_callback v = c" by auto
  obtain X T where rem: "remove_timeout_user u s = Some (s\<lparr>timeout_list := T, expired := X\<rparr>)"
    and XT: "mset (X @ T) + {#v#} = mset (expired s @ timeout_list s)" "distinct (map tu_id (X @ T))"
      "set (X @ T) \<subseteq> set (expired s @ timeout_list s)"
      "sorted_wrt (\<lambda>u v. \<not> time_before (tu_when v) (tu_when u)) T"
    using remove_timeout_found [OF ok'(6) v(1)] v(2) by blast
  define s1 where "s1 = s\<lparr>timeout_list := T, expired := X\<rparr>"
  define s2 where "s2 = set_obj x ob' s1"
  have objs: "objects s1 = objects s" and R1: "next_oid s1 = next_oid s" "global_table s1 = global_table s"
    "root_directory s1 = root_directory s" by (simp_all add: s1_def)
  have al1: "alloc_ok s1" using ok'(1) by (simp add: alloc_ok_def s1_def)
  have al: "alloc_ok s2" using al1 ob body unfolding alloc_ok_def s2_def by (auto simp: objs)
  have "refs_ok E s1"
    using ok'(2) by (simp add: refs_ok_def refs_def look_cong [OF objs] R1)
  then have refs: "refs_ok E' s2"
    unfolding s2_def using refs_ok_set_obj [OF _ al1 _ moved] ob objs by simp
  have keep: "look d f s2 = look d f s" if "f x ob' = f x ob" for f and d :: 'b
    using that ob by (auto simp: look_def s2_def objs)
  note S = same [unfolded same_links_def]
  have L: "type_at s2 = type_at s" "queue_at s2 = queue_at s" "entries_at s2 = entries_at s"
    "threads_at s2 = threads_at s" "handles_at s2 = handles_at s" "owner_at s2 = owner_at s"
    "owned_at s2 = owned_at s" "busy_at s2 = busy_at s" "proc_at s2 = proc_at s"
    "space_at s2 = space_at s" "name_at s2 = name_at s"
    by (rule keep; use S in simp)+
  have A: "alive_at s2 p \<Longrightarrow> alive_at s p" for p
    using S ob by (auto simp: s2_def look_Some look_cong [OF objs] split: if_splits)
  have R: "next_oid s2 = next_oid s" "next_addr s2 = next_addr s" "namespaces s2 = namespaces s"
    "timeout_list s2 = T" "expired s2 = X" "global_table s2 = global_table s"
    "root_directory s2 = root_directory s" "linked s2 = linked s" "get_name_hash s2 = get_name_hash s"
    by (simp_all add: s2_def s1_def linked_def [abs_def] get_name_hash_def [abs_def] cong: if_cong)
  have W: "wait_entries s2 = wait_entries s"
    unfolding wait_entries_def by (simp only: L R)
  have "timeouts_at s2 = (timeouts_at s)(x := timeouts_of x (body ob'))"
    by (simp add: s2_def look_cong [OF objs])
  then have "timeouts s2 + timeouts_of x (body ob) = timeouts s + timeouts_of x (body ob')"
    using total_upd [OF x, of "timeouts_at s" "timeouts_of x (body ob')"] ob
    by (simp add: timeouts_def R look_Some)
  then have "timeouts s2 + {#(u, c)#} + timeouts_of x (body ob') = timeouts s + timeouts_of x (body ob')"
    by (simp add: to [symmetric])
  then have T: "timeouts s2 + {#(u, c)#} = timeouts s" by (simp only: add_right_cancel)
  have "image_mset (\<lambda>u. (tu_id u, tu_callback u)) (mset (X @ T) + {#v#}) = timeouts s"
    using ok'(6) unfolding XT(1) timeouts_ok_def by blast
  then have "image_mset (\<lambda>u. (tu_id u, tu_callback u)) (mset (X @ T)) + {#(u, c)#} = timeouts s2 + {#(u, c)#}"
    using T v by simp
  then have "image_mset (\<lambda>u. (tu_id u, tu_callback u)) (mset (X @ T)) = timeouts s2" by simp
  then have "timeouts_ok s2"
    using ok'(6) XT(2-4) unfolding timeouts_ok_def R by blast
  moreover have "threads_ok s2" using ok'(4) A unfolding threads_ok_def L by blast
  moreover have "mutexes_ok s2" using ok'(5) unfolding mutexes_ok_def L by blast
  moreover have "waits_ok s2" using ok'(3) unfolding waits_ok_def L W R by blast
  moreover have "names_ok s2" using ok'(7) A unfolding names_ok_def L R by blast
  moreover have "typed_ok s2" using ok'(8) unfolding typed_ok_def L R by blast
  ultimately have "server_ok E' s2" using al refs by (simp add: server_ok_def links_ok_def)
  moreover have "shrinks {} s s1" by (rule shrinks_upd) (simp_all add: s1_def same_rest_def)
  ultimately show ?thesis using rem objs by (auto simp: s1_def [symmetric] s2_def)
qed

text \<open>Names: what unlinking one leaves.\<close>

lemma linked_upd:
  assumes "namespaces s n = Some buckets" "h < length buckets"
  shows "linked (s\<lparr>namespaces := (namespaces s)(n \<mapsto> buckets[h := b])\<rparr>) =
    (\<lambda>n' h'. if n' = n \<and> h' = h then b else linked s n' h')"
  using assms by (auto simp: linked_def fun_eq_iff nth_list_update)

lemma get_name_hash_upd:
  assumes "namespaces s n = Some buckets" "length buckets' = length buckets"
  shows "get_name_hash (s\<lparr>namespaces := (namespaces s)(n \<mapsto> buckets')\<rparr>) = get_name_hash s"
proof -
  have "buckets' = [] \<longleftrightarrow> buckets = []" using assms(2) by auto
  then show ?thesis
    using assms by (auto simp: get_name_hash_def fun_eq_iff cong: if_cong)
qed

lemma linked_name:
  assumes "names_ok s" "name_at s x = Some nm"
  obtains buckets where "namespaces s (n_space nm) = Some buckets" "n_hash nm < length buckets"
    "linked s (n_space nm) (n_hash nm) = buckets ! n_hash nm" "x \<in> set (buckets ! n_hash nm)"
proof -
  have "x \<in> set (linked s (n_space nm) (n_hash nm))"
    using assms unfolding names_ok_def by blast
  then show ?thesis
    using that by (cases "namespaces s (n_space nm)") (auto simp: linked_def split: if_splits)
qed

lemma unlink_name:
  assumes ok: "server_ok E s" and ob: "objects s x = Some ob" and nm: "obj_name ob = Some nm"
    and buckets: "namespaces s (n_space nm) = Some buckets" "n_hash nm < length buckets"
      "linked s (n_space nm) (n_hash nm) = buckets ! n_hash nm"
  shows "server_ok (E + opt (n_parent nm)) (set_obj x (ob\<lparr>obj_name := None\<rparr>)
    (s\<lparr>namespaces := (namespaces s)(n_space nm \<mapsto> buckets[n_hash nm := remove1 x (buckets ! n_hash nm)])\<rparr>))"
proof -
  note ok' = server_okD [OF ok]
  define ob' where "ob' = ob\<lparr>obj_name := None\<rparr>"
  define s1 where "s1 = s\<lparr>namespaces := (namespaces s)
     (n_space nm \<mapsto> buckets[n_hash nm := remove1 x (buckets ! n_hash nm)])\<rparr>"
  define s2 where "s2 = set_obj x ob' s1"
  have objs: "objects s1 = objects s" and R1: "next_oid s1 = next_oid s" "global_table s1 = global_table s"
    "root_directory s1 = root_directory s" by (simp_all add: s1_def)
  have al1: "alloc_ok s1" using ok'(1) by (simp add: alloc_ok_def s1_def)
  have al: "alloc_ok s2" using al1 ob unfolding alloc_ok_def s2_def ob'_def by (auto simp: objs)
  have "refs_ok E s1"
    using ok'(2) by (simp add: refs_ok_def refs_def look_cong [OF objs] R1)
  then have refs: "refs_ok (E + opt (n_parent nm)) s2"
    unfolding s2_def
    by (rule refs_ok_set_obj [OF _ al1]) (use ob objs nm in \<open>auto simp: ob'_def obj_refs_def\<close>)
  have keep: "look d f s2 = look d f s" if "f x ob' = f x ob" for f and d :: 'b
    using that ob by (auto simp: look_def s2_def objs)
  have L: "type_at s2 = type_at s" "queue_at s2 = queue_at s" "entries_at s2 = entries_at s"
    "threads_at s2 = threads_at s" "handles_at s2 = handles_at s" "owner_at s2 = owner_at s"
    "owned_at s2 = owned_at s" "busy_at s2 = busy_at s" "proc_at s2 = proc_at s"
    "space_at s2 = space_at s" "timeouts_at s2 = timeouts_at s" "alive_at s2 = alive_at s"
    by (rule keep; simp add: ob'_def)+
  have R: "next_oid s2 = next_oid s" "next_addr s2 = next_addr s" "timeout_list s2 = timeout_list s" "expired s2 = expired s"
    "global_table s2 = global_table s" "root_directory s2 = root_directory s"
    by (simp_all add: s2_def s1_def)
  have W: "wait_entries s2 = wait_entries s" "timeouts s2 = timeouts s"
    unfolding wait_entries_def timeouts_def by (simp_all only: L R)
  have N: "name_at s2 = (name_at s)(x := None)" by (simp add: s2_def ob'_def look_cong [OF objs])
  have H: "get_name_hash s2 = get_name_hash s"
    unfolding s2_def get_name_hash_set_obj s1_def by (rule get_name_hash_upd [OF buckets(1)]) simp
  have K: "linked s2 = (\<lambda>n h. if n = n_space nm \<and> h = n_hash nm
      then remove1 x (linked s (n_space nm) (n_hash nm)) else linked s n h)"
    unfolding s2_def linked_set_obj s1_def linked_upd [OF buckets(1,2)] buckets(3) ..
  have S: "namespaces s2 n = None \<longleftrightarrow> namespaces s n = None"
    "(\<exists>b. namespaces s2 n = Some b \<and> b \<noteq> []) \<longleftrightarrow> (\<exists>b. namespaces s n = Some b \<and> b \<noteq> [])" for n
    using buckets(1,2) by (auto simp: s2_def s1_def)
  have nmx: "name_at s x = Some nm" using ob nm by (simp add: look_Some)
  have "names_ok s2"
    using ok'(7) nmx unfolding names_ok_def L R N H K S by auto
  moreover have "threads_ok s2" using ok'(4) unfolding threads_ok_def L by blast
  moreover have "mutexes_ok s2" using ok'(5) unfolding mutexes_ok_def L by blast
  moreover have "waits_ok s2" using ok'(3) unfolding waits_ok_def L W R by blast
  moreover have "timeouts_ok s2" using ok'(6) unfolding timeouts_ok_def W R by blast
  moreover have "typed_ok s2" using ok'(8) unfolding typed_ok_def L R by blast
  ultimately have "server_ok (E + opt (n_parent nm)) s2" using al refs by (simp add: server_ok_def links_ok_def)
  then show ?thesis by (simp add: s2_def s1_def ob'_def)
qed

text \<open>The hash table of a dead directory is empty: a name in it would refer to the directory.\<close>

lemma free_namespace:
  assumes ok: "server_ok E s" and ob: "objects s x = Some ob" and z: "refcount ob = 0"
    and n: "space_of (body ob) = Some n"
  shows "server_ok E (s\<lparr>namespaces := (namespaces s)(n := None)\<rparr>)"
proof -
  note ok' = server_okD [OF ok]
  note nr = no_refs [OF ok ob z]
  define s2 where "s2 = s\<lparr>namespaces := (namespaces s)(n := None)\<rparr>"
  have objs: "objects s2 = objects s" and R: "next_oid s2 = next_oid s" "global_table s2 = global_table s"
    "root_directory s2 = root_directory s" "next_addr s2 = next_addr s" "timeout_list s2 = timeout_list s" "expired s2 = expired s"
    by (simp_all add: s2_def)
  note L = look_cong [OF objs]
  have sp: "space_at s x = Some n" using ob n by (simp add: look_Some)
  have none: "n_space nm \<noteq> n" if nm: "name_at s o1 = Some nm" for o1 nm
  proof
    assume "n_space nm = n"
    then obtain d where "n_parent nm = Some d" "space_at s d = Some n"
      using ok'(7) nm unfolding names_ok_def by blast
    moreover have "\<And>d d' n. space_at s d = Some n \<Longrightarrow> space_at s d' = Some n \<Longrightarrow> d = d'"
      using ok'(7) unfolding names_ok_def by blast
    ultimately show False using nr(9) [OF nm] sp by blast
  qed
  have empty: "linked s n h = []" for h
  proof (rule ccontr)
    assume "linked s n h \<noteq> []"
    then have "hd (linked s n h) \<in> set (linked s n h)" by simp
    then obtain nm where "name_at s (hd (linked s n h)) = Some nm" "n_space nm = n"
      using ok'(7) unfolding names_ok_def by blast
    then show False using none by blast
  qed
  have K: "linked s2 = linked s"
  proof (intro ext)
    fix n' h show "linked s2 n' h = linked s n' h"
      using empty [of h] by (cases "n' = n") (simp_all add: linked_def s2_def)
  qed
  have H: "get_name_hash s2 m = get_name_hash s m" if "m \<noteq> n" for m
    using that by (intro ext) (simp add: get_name_hash_def s2_def cong: if_cong)
  have N: "namespaces s2 = (namespaces s)(n := None)" by (simp add: s2_def)
  have dead: "\<not> alive_at s x" using ob z by (simp add: look_Some)
  have al: "alloc_ok s2" using ok'(1) by (simp add: alloc_ok_def objs R)
  have refs: "refs_ok E s2" using ok'(2) by (simp add: refs_ok_def refs_def L R)
  have W: "wait_entries s2 = wait_entries s" "timeouts s2 = timeouts s"
    by (simp_all add: wait_entries_def timeouts_def L R)
  have old: "\<And>o1 nm. name_at s o1 = Some nm \<Longrightarrow> (\<exists>d. n_parent nm = Some d \<and> space_at s d = Some (n_space nm)) \<and>
      n_name nm \<noteq> [] \<and> get_name_hash s (n_space nm) (n_name nm) = Some (n_hash nm)"
    "\<And>d m. space_at s d = Some m \<Longrightarrow> alive_at s d \<Longrightarrow> \<exists>b. namespaces s m = Some b \<and> b \<noteq> []"
    "\<And>d d' m. space_at s d = Some m \<Longrightarrow> space_at s d' = Some m \<Longrightarrow> d = d'"
    using ok'(7) unfolding names_ok_def by blast+
  have "names_ok s2"
    unfolding names_ok_def L R K
  proof (intro conjI allI impI)
    fix o1 nm assume nm: "name_at s o1 = Some nm"
    show "\<exists>d. n_parent nm = Some d \<and> space_at s d = Some (n_space nm)" "n_name nm \<noteq> []"
      "get_name_hash s2 (n_space nm) (n_name nm) = Some (n_hash nm)"
      using old(1) [OF nm] H [OF none [OF nm]] by auto
  next
    fix d m assume "space_at s d = Some m" "alive_at s d"
    then show "\<exists>b. namespaces s2 m = Some b \<and> b \<noteq> []"
      using old(2,3) sp dead unfolding N by (metis fun_upd_other)
  next
    fix m assume "namespaces s2 m \<noteq> None"
    then show "m < next_addr s" using ok'(7) unfolding names_ok_def N by (metis fun_upd_apply)
  qed (use ok'(7) in \<open>unfold names_ok_def, blast\<close>)+
  moreover have "threads_ok s2" using ok'(4) unfolding threads_ok_def L by blast
  moreover have "mutexes_ok s2" using ok'(5) unfolding mutexes_ok_def L by blast
  moreover have "waits_ok s2" using ok'(3) unfolding waits_ok_def L W R by blast
  moreover have "timeouts_ok s2" using ok'(6) unfolding timeouts_ok_def W R by blast
  moreover have "typed_ok s2" using ok'(8) unfolding typed_ok_def L R by blast
  ultimately show ?thesis using al refs by (simp add: server_ok_def links_ok_def s2_def)
qed

text \<open>What \<open>destroy\<close> leaves of an object: a body that refers to nothing and is linked nowhere.\<close>

definition hollow :: "obj_body \<Rightarrow> bool" where
  "hollow b \<longleftrightarrow> out_refs b = {#} \<and> w_entries b = [] \<and> owned b = [] \<and> owned_by b = None \<and>
     threads_of b = [] \<and> proc_of b = None \<and> \<not> busy b \<and> (\<forall>o1. timeouts_of o1 b = {#})"

definition destroyed :: "oid multiset \<Rightarrow> oid \<Rightarrow> object \<Rightarrow> server \<Rightarrow> server \<Rightarrow> bool" where
  "destroyed E x ob s s' \<longleftrightarrow> server_ok E s' \<and> shrinks {x} s s' \<and>
     (\<exists>b. objects s' x = Some (ob\<lparr>body := b\<rparr>) \<and> hollow b)"

lemma destroyedI:
  "server_ok E s' \<Longrightarrow> shrinks {x} s s' \<Longrightarrow> objects s' x = Some (ob\<lparr>body := b\<rparr>) \<Longrightarrow> hollow b
   \<Longrightarrow> destroyed E x ob s s'"
  by (auto simp: destroyed_def)

locale release_contract =
  fixes rel :: release and fits :: "server \<Rightarrow> bool"
  assumes fits_mono: "fits s \<Longrightarrow> live s' \<le> live s \<Longrightarrow> fits s'"
    and rel_ok: "server_ok (E + {#x#}) s \<Longrightarrow> fits s \<Longrightarrow>
      \<exists>s'. rel x s = Some s' \<and> server_ok E s' \<and> shrinks {} s s'"
begin

lemma release_opt_ok:
  "server_ok (E + opt p) s \<Longrightarrow> fits s \<Longrightarrow>
   \<exists>s'. release_opt rel p s = Some s' \<and> server_ok E s' \<and> shrinks {} s s'"
  using rel_ok by (cases p) (auto simp: release_opt_def)

lemma fits_shrinks: "fits s \<Longrightarrow> shrinks {} s s' \<Longrightarrow> fits s'"
  using shrinks_live [of "{}" s s'] fits_mono by simp

text \<open>A step of a destroy function: part of a dead object's body is given up, then released.\<close>

lemma give_up:
  assumes ok: "server_ok E s" and ob: "objects s x = Some ob" and dead: "refcount ob = 0" and f: "fits s"
    and same: "same_links x ob (ob\<lparr>body := b\<rparr>)" and out: "out_refs b + opt p = out_refs (body ob)"
  shows "\<exists>s'. release_opt rel p (set_obj x (ob\<lparr>body := b\<rparr>) s) = Some s' \<and> server_ok E s' \<and>
    shrinks {x} s s' \<and> objects s' x = Some (ob\<lparr>body := b\<rparr>) \<and> fits s'"
proof -
  let ?s = "set_obj x (ob\<lparr>body := b\<rparr>) s"
  have "server_ok (E + opt p) ?s"
    by (rule server_ok_set_obj [OF ok ob same]) (use dead in \<open>auto simp: obj_refs_def out [symmetric]\<close>)
  moreover have f': "fits ?s" by (rule fits_mono [OF f live_set_obj [OF ob]]) (simp add: dead)
  ultimately obtain s' where s': "release_opt rel p ?s = Some s'" "server_ok E s'" "shrinks {} ?s s'"
    using release_opt_ok by blast
  have "objects s' x = Some (ob\<lparr>body := b\<rparr>)"
    by (rule shrinks_dead [OF s'(3)]) (use dead in simp_all)
  moreover have "shrinks {x} s s'"
    using shrinks_trans [OF shrinks_set_obj s'(3)] by simp
  ultimately show ?thesis using s' fits_shrinks [OF f' s'(3)] by blast
qed

lemma release_handles_ok:
  assumes "server_ok E s" "objects s x = Some ob" "body ob = Handle_table ht" "refcount ob = 0" "fits s"
    and "0 \<le> i" "\<forall>j. i \<le> j \<and> j < i + int n \<longrightarrow> entry_at ht j \<noteq> None"
  shows "\<exists>s' ht'. release_handles n rel i x s = Some s' \<and> server_ok E s' \<and> shrinks {x} s s' \<and>
    objects s' x = Some (ob\<lparr>body := Handle_table ht'\<rparr>) \<and>
    (\<forall>j. entry_at ht' j = (if i \<le> j \<and> j < i + int n
        then map_option (\<lambda>e. e\<lparr>he_ptr := None\<rparr>) (entry_at ht j) else entry_at ht j))"
  using assms
proof (induction n arbitrary: i s ob ht)
  case 0
  then show ?case by (auto intro!: exI [of _ ht])
next
  case (Suc n)
  obtain e where e: "entry_at ht i = Some e" using Suc.prems(7) [rule_format, of i] by auto
  then have i: "0 \<le> i" "i < ht_count ht" "entries ht ! nat i = Some e" by (simp_all add: entry_at_Some)
  define ht1 where "ht1 = ht\<lparr>entries := (entries ht)[nat i := Some (e\<lparr>he_ptr := None\<rparr>)]\<rparr>"
  define ob1 where "ob1 = ob\<lparr>body := Handle_table ht1\<rparr>"
  have "table_refs ht1 + opt (he_ptr e) = table_refs ht"
    using table_refs_upd [OF i(1,2), of "Some (e\<lparr>he_ptr := None\<rparr>)"] i(3) by (simp add: ht1_def entry_refs_def)
  then obtain s1 where s1: "release_opt rel (he_ptr e) (set_obj x ob1 s) = Some s1" "server_ok E s1"
    "shrinks {x} s s1" "objects s1 x = Some ob1" "fits s1"
    using give_up [OF Suc.prems(1,2,4,5), of "Handle_table ht1" "he_ptr e"] Suc.prems(3)
    unfolding ob1_def by (auto simp: same_links_def)
  have set: "set_entry x i (e\<lparr>he_ptr := None\<rparr>) s = Some (set_obj x ob1 s)"
    using Suc.prems(2,3) i by (simp add: set_entry_def get_table_def write_at_def set_body_def ht1_def ob1_def ht_count_def)
  have at1: "entry_at ht1 j = (if j = i then Some (e\<lparr>he_ptr := None\<rparr>) else entry_at ht j)" for j
    unfolding ht1_def by (rule entry_at_upd [OF i(1,2)])
  have "\<forall>j. i + 1 \<le> j \<and> j < i + 1 + int n \<longrightarrow> entry_at ht1 j \<noteq> None"
    using Suc.prems(7) at1 by simp
  then obtain s' ht' where s': "release_handles n rel (i + 1) x s1 = Some s'" "server_ok E s'" "shrinks {x} s1 s'"
    "objects s' x = Some (ob1\<lparr>body := Handle_table ht'\<rparr>)"
    "\<forall>j. entry_at ht' j = (if i + 1 \<le> j \<and> j < i + 1 + int n
        then map_option (\<lambda>e. e\<lparr>he_ptr := None\<rparr>) (entry_at ht1 j) else entry_at ht1 j)"
    using Suc.IH [OF s1(2,4) _ _ s1(5), of ht1 "i + 1"] Suc.prems(4,6) by (auto simp: ob1_def)
  have "release_handles (Suc n) rel i x s = Some s'"
    using Suc.prems(2,3) e set s1(1) s'(1) by (simp add: get_table_def release_opt_def split: option.splits)
  moreover have "shrinks {x} s s'" using shrinks_trans1 [OF s1(3) s'(3)] .
  moreover have "objects s' x = Some (ob\<lparr>body := Handle_table ht'\<rparr>)" using s'(4) by (simp add: ob1_def)
  moreover have "\<forall>j. entry_at ht' j = (if i \<le> j \<and> j < i + int (Suc n)
        then map_option (\<lambda>e. e\<lparr>he_ptr := None\<rparr>) (entry_at ht j) else entry_at ht j)"
    using s'(5) at1 e by auto
  ultimately show ?case using s'(2) by blast
qed

lemma notify_handles_ok:
  assumes "get_table s x = Some ht" "\<forall>j. i \<le> j \<and> j < i + int n \<longrightarrow> entry_at ht j \<noteq> None"
  shows "notify_handles n i x p s = Some s"
  using assms
proof (induction n arbitrary: i)
  case (Suc n)
  obtain e where "entry_at ht i = Some e" using Suc.prems(2) [rule_format, of i] by auto
  moreover have "notify_handles n (i + 1) x p s = Some s"
    by (rule Suc.IH [OF Suc.prems(1)]) (use Suc.prems(2) in auto)
  ultimately show ?case
    using Suc.prems(1) by (simp add: no_close_handle_def split: option.split)
qed simp

lemma handle_table_destroy_ok:
  assumes ok: "server_ok E s" and ob: "objects s x = Some ob" and b: "body ob = Handle_table ht"
    and t: "table_ok ht" and z: "refcount ob = 0" and f: "fits s"
  shows "\<exists>s'. handle_table_destroy rel x s = Some s' \<and> destroyed E x ob s s'"
proof -
  let ?n = "nat (ht_last ht + 1)"
  have get: "get_table s x = Some ht" using ob b by (simp add: get_table_def)
  have init: "\<forall>j. 0 \<le> j \<and> j < 0 + int ?n \<longrightarrow> entry_at ht j \<noteq> None"
    using t by (auto simp: table_ok_def)
  obtain s' ht' where s': "release_handles ?n rel 0 x s = Some s'" "server_ok E s'" "shrinks {x} s s'"
    "objects s' x = Some (ob\<lparr>body := Handle_table ht'\<rparr>)"
    "\<forall>j. entry_at ht' j = (if 0 \<le> j \<and> j < 0 + int ?n
        then map_option (\<lambda>e. e\<lparr>he_ptr := None\<rparr>) (entry_at ht j) else entry_at ht j)"
    using release_handles_ok [OF ok ob b z f _ init] by auto
  have "he_ptr e = None" if "entry_at ht' j = Some e" for j e
  proof (cases "0 \<le> j \<and> j < int ?n")
    case True
    then show ?thesis using s'(5) that by auto
  next
    case False
    then have "entry_at ht j = Some e" using s'(5) that by auto
    moreover from this have "ht_last ht < j" using False t by (auto simp: entry_at_Some table_ok_def)
    ultimately show ?thesis using t by (auto simp: table_ok_def)
  qed
  then have "table_refs ht' = {#}" by (rule table_refs_none)
  then have "hollow (Handle_table ht')" by (simp add: hollow_def)
  moreover have "handle_table_destroy rel x s = Some s'"
    using get s'(1) notify_handles_ok [OF get init] by (simp add: handle_table_destroy_def split: option.split)
  ultimately show ?thesis using s' destroyedI by blast
qed

lemma process_destroy_ok:
  assumes ok: "server_ok E s" and ob: "objects s x = Some ob" and b: "body ob = Process pr"
    and z: "refcount ob = 0" and f: "fits s"
  shows "\<exists>s'. process_destroy rel x s = Some s' \<and> destroyed E x ob s s'"
proof -
  have tl: "thread_list pr = []" using no_refs(8) [OF ok ob z] b by simp
  have h: "handles pr = None" using no_refs(14) [OF ok ob z] ob b by (simp add: look_Some)
  let ?ob1 = "ob\<lparr>body := Process (pr\<lparr>p_parent := None\<rparr>)\<rparr>"
  obtain s1 where s1: "release_opt rel (p_parent pr) (set_obj x ?ob1 s) = Some s1" "server_ok E s1"
    "shrinks {x} s s1" "objects s1 x = Some ?ob1" "fits s1"
    using give_up [OF ok ob z f, of "Process (pr\<lparr>p_parent := None\<rparr>)" "p_parent pr"] b
    by (auto simp: same_links_def ac_simps)
  let ?ob2 = "ob\<lparr>body := Process (pr\<lparr>p_parent := None, idle_event := None\<rparr>)\<rparr>"
  obtain s2 where s2: "release_opt rel (idle_event pr) (set_obj x ?ob2 s1) = Some s2" "server_ok E s2"
    "shrinks {x} s1 s2" "objects s2 x = Some ?ob2"
    using give_up [OF s1(2,4) _ s1(5), of "Process (pr\<lparr>p_parent := None, idle_event := None\<rparr>)" "idle_event pr"] z
    by (auto simp: same_links_def)
  have "process_destroy rel x s = Some s2"
    using ob b tl s1(1,4) s2(1) by (simp add: process_destroy_def get_process_def set_body_def)
  moreover have "hollow (Process (pr\<lparr>p_parent := None, idle_event := None\<rparr>))"
    using tl h by (simp add: hollow_def)
  ultimately show ?thesis
    using destroyedI [OF s2(2) shrinks_trans1 [OF s1(3) s2(3)] s2(4)] by blast
qed

lemma destroy_thread_ok:
  assumes ok: "server_ok E s" and ob: "objects s x = Some ob" and b: "body ob = Thread th"
    and p: "t_process th \<noteq> None" and z: "refcount ob = 0" and f: "fits s"
  shows "\<exists>s'. destroy_thread rel x s = Some s' \<and> destroyed E x ob s s'"
proof -
  note nr = no_refs [OF ok ob z]
  have idle: "waits th = []" "mutex_list th = []" using nr(4) b by simp_all
  define th1 where "th1 = th\<lparr>system_apc := [], user_apc := [], t_context := False\<rparr>"
  let ?ob1 = "ob\<lparr>body := Thread th1\<rparr>" and ?ob2 = "ob\<lparr>body := Thread (th1\<lparr>t_process := None\<rparr>)\<rparr>"
  let ?s1 = "set_obj x ?ob1 s" and ?s2 = "set_obj x ?ob2 (set_obj x ?ob1 s)"
  have "server_ok E ?s1"
    by (rule server_ok_set_obj [OF ok ob]) (use z in \<open>auto simp: same_links_def obj_refs_def b th1_def\<close>)
  from forget_process [OF this, of x ?ob1 th1]
  have ok2: "server_ok (E + opt (t_process th)) ?s2" using z by (simp add: th1_def)
  have sh: "shrinks {x} s ?s2" by (rule shrinks_trans1 [OF shrinks_set_obj shrinks_set_obj])
  have "fits ?s2"
    by (rule fits_mono [OF f shrinks_live [OF sh]]) (use z in auto)
  then obtain s' where s': "release_opt rel (t_process th) ?s2 = Some s'" "server_ok E s'" "shrinks {} ?s2 s'"
    using release_opt_ok [OF ok2] by blast
  have "objects s' x = Some ?ob2" by (rule shrinks_dead [OF s'(3)]) (use z in simp_all)
  moreover have "shrinks {x} s s'"
    using shrinks_trans [OF sh s'(3)] by simp
  moreover have "hollow (Thread (th1\<lparr>t_process := None\<rparr>))" using idle by (simp add: hollow_def th1_def)
  moreover have "destroy_thread rel x s = Some s'"
    using ob b p s'(1)
    by (auto simp: destroy_thread_def cleanup_thread_def get_thread_def set_body_def th1_def release_opt_def)
  ultimately show ?thesis using destroyedI [OF s'(2)] by blast
qed

lemma timer_destroy_ok:
  assumes ok: "server_ok E s" and ob: "objects s x = Some ob" and b: "body ob = Timer tm"
    and z: "refcount ob = 0" and f: "fits s"
  shows "\<exists>s'. timer_destroy rel x s = Some s' \<and> destroyed E x ob s s'"
proof -
  let ?b = "Timer (tm\<lparr>tm_timeout := None, tm_thread := None\<rparr>)"
  let ?ob = "ob\<lparr>body := ?b\<rparr>"
  obtain s1 where s1: "(case tm_timeout tm of None \<Rightarrow> Some s | Some u \<Rightarrow> remove_timeout_user u s) = Some s1"
    "objects s1 = objects s" "shrinks {} s s1" "server_ok (E + opt (tm_thread tm)) (set_obj x ?ob s1)"
  proof (cases "tm_timeout tm")
    case None
    have "server_ok (E + opt (tm_thread tm)) (set_obj x ?ob s)"
      by (rule server_ok_set_obj [OF ok ob]) (use None z in \<open>auto simp: same_links_def obj_refs_def b\<close>)
    then show ?thesis using that None by simp
  next
    case (Some u)
    have "\<exists>s1. remove_timeout_user u s = Some s1 \<and> shrinks {} s s1 \<and> objects s1 = objects s \<and>
      server_ok (E + opt (tm_thread tm)) (set_obj x ?ob s1)"
      by (rule drop_timeout [OF ok ob, where c = "Timer_callback x"])
        (use Some z in \<open>auto simp: same_links_def obj_refs_def b\<close>)
    then show ?thesis using that Some by auto
  qed
  have sh: "shrinks {x} s (set_obj x ?ob s1)"
    using shrinks_trans [OF s1(3) shrinks_set_obj] by simp
  have "fits (set_obj x ?ob s1)"
    by (rule fits_mono [OF f shrinks_live [OF sh]]) (use z in auto)
  then obtain s' where s': "release_opt rel (tm_thread tm) (set_obj x ?ob s1) = Some s'" "server_ok E s'"
    "shrinks {} (set_obj x ?ob s1) s'"
    using release_opt_ok [OF s1(4)] by blast
  have "objects s' x = Some ?ob" by (rule shrinks_dead [OF s'(3)]) (use z in simp_all)
  moreover have "shrinks {x} s s'" using shrinks_trans [OF sh s'(3)] by simp
  moreover have "hollow ?b" by (simp add: hollow_def)
  moreover have "timer_destroy rel x s = Some s'"
    using ob b s1(1,2) s'(1) by (simp add: timer_destroy_def get_timer_def set_body_def)
  ultimately show ?thesis using destroyedI [OF s'(2)] by blast
qed

lemma directory_destroy_ok:
  assumes ok: "server_ok E s" and ob: "objects s x = Some ob" and b: "body ob = Directory ns"
    and n: "\<And>n. ns = Some n \<Longrightarrow> namespaces s n \<noteq> None" and z: "refcount ob = 0"
  shows "\<exists>s'. directory_destroy x s = Some s' \<and> destroyed E x ob s s'"
proof -
  have h: "hollow (body ob)" "ob = ob\<lparr>body := body ob\<rparr>" by (simp_all add: hollow_def b)
  show ?thesis
  proof (cases ns)
    case None
    then show ?thesis
      using ob b ok h destroyedI [of E s x s "body ob" ob]
      by (auto simp: directory_destroy_def get_namespace_def)
  next
    case (Some n)
    let ?s = "s\<lparr>namespaces := (namespaces s)(n := None)\<rparr>"
    have "server_ok E ?s" by (rule free_namespace [OF ok ob z]) (simp add: b Some)
    moreover have "shrinks {x} s ?s" by (rule shrinks_upd) (simp_all add: same_rest_def)
    ultimately have "destroyed E x ob s ?s" by (rule destroyedI [where b = "body ob"]) (use ob h in simp_all)
    then show ?thesis
      using ob b Some \<open>\<And>n. ns = Some n \<Longrightarrow> namespaces s n \<noteq> None\<close> [OF Some]
      by (auto simp: directory_destroy_def get_namespace_def)
  qed
qed

end

lemma wake_up_empty: "objects s x = Some ob \<Longrightarrow> wait_queue ob = [] \<Longrightarrow> wake_up rel x n s = Some s"
  by (simp add: wake_up_def wake_up_loop.simps)

lemma mutex_destroy_ok:
  assumes ok: "server_ok E s" and ob: "objects s x = Some ob" and b: "body ob = Mutex mx"
    and bo: "body_ok (body ob)" and q: "wait_queue ob = []"
  shows "\<exists>s'. mutex_destroy rel x s = Some s' \<and> destroyed E x ob s s'"
proof (cases "mx_count mx = 0")
  case True
  then have "hollow (body ob)" using bo by (simp add: b hollow_def)
  then show ?thesis
    using ob b True ok destroyedI [of E s x s "body ob" ob]
    by (auto simp: mutex_destroy_def get_mutex_def)
next
  case False
  then obtain t where t: "owner mx = Some t" using bo b by auto
  define mx' where "mx' = mx\<lparr>mx_count := 0, owner := None\<rparr>"
  obtain obt th where d: "objects s t = Some obt" "body obt = Thread th" "x \<in> set (mutex_list th)"
    "0 < refcount obt" "t \<noteq> x"
    "server_ok E (set_obj x (ob\<lparr>body := Mutex mx'\<rparr>)
       (set_obj t (obt\<lparr>body := Thread (th\<lparr>mutex_list := remove1 x (mutex_list th)\<rparr>)\<rparr>) s))"
    using disown [OF ok ob b t] unfolding mx'_def by blast
  let ?s = "set_obj x (ob\<lparr>body := Mutex mx'\<rparr>)
       (set_obj t (obt\<lparr>body := Thread (th\<lparr>mutex_list := remove1 x (mutex_list th)\<rparr>)\<rparr>) s)"
  have eq: "set_obj x (ob\<lparr>body := Mutex mx'\<rparr>)
       (set_obj t obt' (set_obj x (ob\<lparr>body := c\<rparr>) s)) = set_obj x (ob\<lparr>body := Mutex mx'\<rparr>) (set_obj t obt' s)"
    for obt' c using d(5) by (simp add: set_obj_def fun_upd_twist)
  have "do_release rel x (set_obj x (ob\<lparr>body := Mutex (mx\<lparr>mx_count := 0\<rparr>)\<rparr>) s) = Some ?s"
    using d(1-5) t q
    by (simp add: do_release_def get_mutex_def get_thread_def set_body_def list_remove_def mx'_def [symmetric] eq
        wake_up_empty)
  then have "mutex_destroy rel x s = Some ?s"
    using ob b False by (simp add: mutex_destroy_def get_mutex_def set_body_def)
  moreover have "shrinks {x} s ?s"
    by (rule shrinksI) (use d in \<open>auto simp: same_rest_def obj_shrinks_def body_shrinks_def\<close>)
  moreover have "hollow (Mutex mx')" by (simp add: hollow_def mx'_def)
  moreover have "objects ?s x = Some (ob\<lparr>body := Mutex mx'\<rparr>)" by simp
  ultimately show ?thesis using destroyedI [OF d(6)] by blast
qed

text \<open>Freeing an object nothing is left of.\<close>

lemma free_object:
  assumes ok: "server_ok E s" and ob: "objects s x = Some ob" and z: "refcount ob = 0"
    and h: "hollow (body ob)" and nm: "obj_name ob = None"
  shows "server_ok E (s\<lparr>objects := (objects s)(x := None)\<rparr>)"
proof -
  note ok' = server_okD [OF ok]
  note nr = no_refs [OF ok ob z]
  define s2 where "s2 = s\<lparr>objects := (objects s)(x := None)\<rparr>"
  have R: "next_oid s2 = next_oid s" "next_addr s2 = next_addr s" "namespaces s2 = namespaces s"
    "timeout_list s2 = timeout_list s" "expired s2 = expired s" "global_table s2 = global_table s" "root_directory s2 = root_directory s"
    "linked s2 = linked s" "get_name_hash s2 = get_name_hash s"
    by (simp_all add: s2_def linked_def [abs_def] get_name_hash_def [abs_def] cong: if_cong)
  have keep: "look d f s2 = look d f s" if "f x ob = d" for f and d :: 'b
    using that ob by (auto simp: look_def s2_def)
  have hx: "handles_of (body ob) = None" using nr(14) ob by (simp add: look_Some)
  have L: "queue_at s2 = queue_at s" "entries_at s2 = entries_at s" "owned_at s2 = owned_at s"
    "owner_at s2 = owner_at s" "threads_at s2 = threads_at s" "proc_at s2 = proc_at s" "busy_at s2 = busy_at s"
    "handles_at s2 = handles_at s" "name_at s2 = name_at s" "timeouts_at s2 = timeouts_at s"
    "alive_at s2 = alive_at s" "refs_at s2 = refs_at s" "look 0 (\<lambda>_. refcount) s2 = look 0 (\<lambda>_. refcount) s"
    by (rule keep; use h nm hx nr(3) z in \<open>simp add: hollow_def obj_refs_def\<close>)+
  have C: "type_at s2 = (type_at s)(x := None)" "space_at s2 = (space_at s)(x := None)"
    by (simp_all add: s2_def)
  have W: "wait_entries s2 = wait_entries s" "timeouts s2 = timeouts s" "refs s2 = refs s"
    unfolding wait_entries_def timeouts_def refs_def by (simp_all only: L R)
  have al: "alloc_ok s2" using ok'(1) by (auto simp: alloc_ok_def s2_def)
  have refs: "refs_ok E s2" using ok'(2) unfolding refs_ok_def W L by blast
  have ent: "e_obj e \<noteq> x" if e: "e \<in># entries_at s t" for e t
  proof
    assume "e_obj e = x"
    moreover obtain obt where "objects s t = Some obt" "e \<in> set (w_entries (body obt))"
      using e by (auto simp: look_def split: option.splits)
    ultimately have "x \<in># obj_refs obt" by (cases "body obt") (auto simp: obj_refs_def)
    then show False using in_refsI [OF \<open>objects s t = Some obt\<close> ok'(1)] nr(1) by blast
  qed
  have "waits_ok s2" using ok'(3) ent unfolding waits_ok_def L W R C by auto
  moreover have "threads_ok s2" using ok'(4) nr(10) ob z unfolding threads_ok_def L C by auto
  moreover have "mutexes_ok s2" using ok'(5) unfolding mutexes_ok_def L by blast
  moreover have "timeouts_ok s2" using ok'(6) unfolding timeouts_ok_def W R by blast
  moreover have "names_ok s2"
  proof -
    note N = names_okD [OF ok'(7)]
    have par: "\<exists>d. n_parent m = Some d \<and> space_at s2 d = Some (n_space m)" if m: "name_at s o1 = Some m" for o1 m
      using N(1) [OF m] nr(9) [OF m] unfolding C by auto
    have sp: "space_at s2 d = Some n \<Longrightarrow> space_at s d = Some n" for d n
      unfolding C by (simp split: if_splits)
    show ?thesis
      unfolding names_ok_def L R
      by (intro conjI allI impI; (drule sp)?; (drule sp)?; (rule par N(3,4) | erule N(6,7,8) | simp add: N(2,5)))
  qed
  moreover have "typed_ok s2" using ok'(8) nr(11,12,13) unfolding typed_ok_def L R C by auto
  ultimately show ?thesis using al refs by (simp add: server_ok_def links_ok_def s2_def)
qed

text \<open>What \<open>destroy\<close> relies on: what held of the object while it was alive.\<close>

definition intact :: "server \<Rightarrow> object \<Rightarrow> bool" where
  "intact s ob \<longleftrightarrow> body_ok (body ob) \<and> (ops (body ob) = thread_ops \<longrightarrow> proc_of (body ob) \<noteq> None) \<and>
     (\<forall>n. space_of (body ob) = Some n \<longrightarrow> namespaces s n \<noteq> None)"

lemma intactI:
  assumes "server_ok E s" "objects s x = Some ob" "0 < refcount ob"
  shows "intact s ob"
proof -
  have "alive_at s x" using assms(2,3) by (simp add: look_Some)
  then have "type_at s x = Some thread_ops \<longrightarrow> proc_at s x \<noteq> None"
    "\<And>n. space_at s x = Some n \<Longrightarrow> namespaces s n \<noteq> None"
    using threads_ok_alive [OF server_okD(4) [OF assms(1)]] names_ok_alive [OF server_okD(7) [OF assms(1)]]
    by blast+
  then show ?thesis
    using server_ok_body [OF assms] assms(2) by (simp add: intact_def look_Some)
qed

context release_contract
begin

lemma destroy_ok:
  assumes ok: "server_ok E s" and ob: "objects s x = Some ob" and int: "intact s ob"
    and z: "refcount ob = 0" and f: "fits s"
  shows "\<exists>s'. destroy rel x s = Some s' \<and> destroyed E x ob s s'"
proof (cases "body ob")
  case (Handle_table ht)
  then show ?thesis
    using handle_table_destroy_ok [OF ok ob Handle_table _ z f] int ob by (simp add: destroy_def intact_def)
next
  case (Process pr)
  then show ?thesis using process_destroy_ok [OF ok ob Process z f] ob by (simp add: destroy_def)
next
  case (Thread th)
  then show ?thesis
    using destroy_thread_ok [OF ok ob Thread _ z f] int ob by (simp add: destroy_def intact_def)
next
  case (Mutex mx)
  then show ?thesis
    using mutex_destroy_ok [OF ok ob Mutex _ no_refs(3) [OF ok ob z]] int ob
    by (simp add: destroy_def intact_def)
next
  case (Timer tm)
  then show ?thesis using timer_destroy_ok [OF ok ob Timer z f] ob by (simp add: destroy_def)
next
  case (Directory ns)
  then show ?thesis
    using directory_destroy_ok [OF ok ob Directory _ z] int ob by (simp add: destroy_def intact_def)
next
  case (Event ev)
  then have "destroyed E x ob s s"
    using destroyedI [of E s x s "body ob" ob] ok ob by (simp add: hollow_def)
  then show ?thesis using Event ob by (simp add: destroy_def no_destroy_def)
next
  case (Semaphore sm)
  then have "destroyed E x ob s s"
    using destroyedI [of E s x s "body ob" ob] ok ob by (simp add: hollow_def)
  then show ?thesis using Semaphore ob by (simp add: destroy_def no_destroy_def)
next
  case (Symlink tg)
  then have "destroyed E x ob s s"
    using destroyedI [of E s x s "body ob" ob] ok ob by (simp add: hollow_def)
  then show ?thesis using Symlink ob by (simp add: destroy_def symlink_destroy_def)
qed

lemma free_name_ok:
  assumes ok: "server_ok E s" and ob: "objects s x = Some ob" and nm: "obj_name ob = Some nm"
    and z: "refcount ob = 0" and f: "fits s"
  shows "\<exists>s'. free_name rel x s = Some s' \<and> server_ok E s' \<and> shrinks {x} s s' \<and>
    objects s' x = Some (ob\<lparr>obj_name := None\<rparr>)"
proof -
  have "name_at s x = Some nm" using ob nm by (simp add: look_Some)
  from linked_name [OF server_okD(7) [OF ok] this]
  obtain buckets where b: "namespaces s (n_space nm) = Some buckets" "n_hash nm < length buckets"
    "linked s (n_space nm) (n_hash nm) = buckets ! n_hash nm" "x \<in> set (buckets ! n_hash nm)" by blast
  let ?s = "set_obj x (ob\<lparr>obj_name := None\<rparr>) (s\<lparr>namespaces := (namespaces s)
      (n_space nm \<mapsto> buckets[n_hash nm := remove1 x (buckets ! n_hash nm)])\<rparr>)"
  have sh: "shrinks {x} s ?s" by (rule shrinks_upd) (simp_all add: same_rest_def)
  have "fits ?s" by (rule fits_mono [OF f shrinks_live [OF sh]]) (use z in auto)
  then obtain s' where s': "release_opt rel (n_parent nm) ?s = Some s'" "server_ok E s'" "shrinks {} ?s s'"
    using release_opt_ok [OF unlink_name [OF ok ob nm b(1-3)]] by blast
  have "free_name rel x s = Some s'"
    using ob nm b s'(1)
    by (simp add: free_name_def read_at_def list_remove_def Let_def release_opt_def)
  moreover have "objects s' x = Some (ob\<lparr>obj_name := None\<rparr>)"
    by (rule shrinks_dead [OF s'(3)]) (use z in simp_all)
  moreover have "shrinks {x} s s'" using shrinks_trans [OF sh s'(3)] by simp
  ultimately show ?thesis using s'(2) by blast
qed

end

lemma shrinks_close:
  assumes "shrinks {x} s s'" "objects s x = Some ob" "0 < refcount ob" "objects s' x = None"
  shows "shrinks {} s s'"
proof (rule shrinksI)
  show "same_rest s s'" using assms(1) by (simp add: shrinks_def)
next
  fix o1 assume "objects s o1 = None"
  then show "objects s' o1 = None" using shrinks_None [OF assms(1)] assms(2) by (cases "o1 = x") auto
next
  fix o1 ob1 assume "objects s o1 = Some ob1"
  then show "objects s' o1 = None \<and> 0 < refcount ob1 \<or> (\<exists>ob'. objects s' o1 = Some ob' \<and> obj_shrinks ob1 ob')"
    using shrinks_Some [OF assms(1)] assms(2-4) by (cases "o1 = x") auto
qed

lemma live_drop:
  assumes "objects s x = Some ob" "x < next_oid s" "0 < refcount ob" "refcount ob' = 0"
  shows "live (set_obj x ob' s) < live s"
proof -
  have "{p. p < next_oid (set_obj x ob' s) \<and> alive_at (set_obj x ob' s) p} =
      {p. p < next_oid s \<and> alive_at s p} - {x}"
    using assms by auto
  moreover have "x \<in> {p. p < next_oid s \<and> alive_at s p}" using assms by (simp add: look_Some)
  moreover have "finite {p. p < next_oid s \<and> alive_at s p}" by simp
  ultimately show ?thesis unfolding live_def by (metis (no_types, lifting) card_Diff1_less)
qed

theorem release_n_ok:
  "server_ok (E + {#x#}) s \<Longrightarrow> live s < n \<Longrightarrow>
   \<exists>s'. release_n n x s = Some s' \<and> server_ok E s' \<and> shrinks {} s s'"
proof (induction n arbitrary: E x s)
  case (Suc n)
  have contract: "release_contract (release_n n) (\<lambda>s. live s < n)"
    by unfold_locales (use Suc.IH in auto)
  note ok = Suc.prems(1)
  have "x \<in># refs s + (E + {#x#})" by simp
  from refs_ok_alive [OF server_okD(2) [OF ok] this]
  obtain ob where ob: "objects s x = Some ob" "0 < refcount ob" .
  let ?ob1 = "ob\<lparr>refcount := refcount ob - 1\<rparr>"
  have ok1: "server_ok E (set_obj x ?ob1 s)" by (rule server_ok_drop(1) [OF ok ob(1)])
  show ?case
  proof (cases "refcount ob - 1 = 0")
    case False
    then have "release_n (Suc n) x s = Some (set_obj x ?ob1 s)" using ob by (simp add: Let_def)
    moreover have "shrinks {} s (set_obj x ?ob1 s)"
      by (rule shrinksI) (use ob False in \<open>auto simp: same_rest_def obj_shrinks_def\<close>)
    ultimately show ?thesis using ok1 by blast
  next
    case True
    let ?s1 = "set_obj x ?ob1 s"
    have f1: "live ?s1 < n"
      using live_drop [OF ob(1) server_ok_range [OF ok ob(1)] ob(2), of ?ob1] True Suc.prems(2) by simp
    have "intact s ob" by (rule intactI [OF ok ob])
    then have int: "intact ?s1 ?ob1" by (simp add: intact_def)
    have at1: "objects ?s1 x = Some ?ob1" and z1: "refcount ?ob1 = 0" using True by simp_all
    obtain s2 where s2: "destroy (release_n n) x ?s1 = Some s2" "destroyed E x ?ob1 ?s1 s2"
      using release_contract.destroy_ok [OF contract ok1 at1 int z1 f1] by blast
    then obtain b where b: "server_ok E s2" "shrinks {x} ?s1 s2" "objects s2 x = Some (?ob1\<lparr>body := b\<rparr>)" "hollow b"
      by (auto simp: destroyed_def)
    have live2: "live s2 < n"
      using shrinks_live [OF b(2)] b(3) True f1 by (force simp: look_Some)
    obtain s3 where s3: "(if obj_name ob \<noteq> None then free_name (release_n n) x s2 else Some s2) = Some s3"
      "server_ok E s3" "shrinks {x} s2 s3" "objects s3 x = Some (?ob1\<lparr>body := b, obj_name := None\<rparr>)"
    proof (cases "obj_name ob")
      case None
      then show ?thesis using that [of s2] b by simp
    next
      case (Some nm)
      then show ?thesis
        using that release_contract.free_name_ok [OF contract b(1,3) _ _ live2, of nm] True by auto
    qed
    let ?s4 = "s3\<lparr>objects := (objects s3)(x := None)\<rparr>"
    have "server_ok E ?s4" by (rule free_object [OF s3(2,4)]) (use True b(4) in simp_all)
    moreover have "release_n (Suc n) x s = Some ?s4"
      using ob True no_refs(3) [OF ok1 at1 z1] s2(1) b(3) s3(1) by (simp add: Let_def)
    moreover have "shrinks {} s ?s4"
    proof (rule shrinks_close [OF _ ob])
      have "shrinks {x} s3 ?s4" by (rule shrinks_upd) (simp_all add: same_rest_def)
      then show "shrinks {x} s ?s4"
        using shrinks_trans1 [OF shrinks_set_obj] shrinks_trans1 b(2) s3(3) by blast
    qed simp
    ultimately show ?thesis by blast
  qed
qed simp

lemma live_le: "live s \<le> next_oid s"
proof -
  have "live s \<le> card {..<next_oid s}" unfolding live_def by (rule card_mono) auto
  then show ?thesis by simp
qed

interpretation rel: release_contract release_object "\<lambda>s. True"
  using release_n_ok [OF _ le_imp_less_Suc [OF live_le]]
  by unfold_locales (unfold release_object_def, blast)

end
