(* ===== verification/Handles.thy ===== *)
theory Handles
  imports Release_Correct
begin

text \<open>
  \<^verbatim>\<open>server/handle.c\<close>: the handle tables of the processes and the table of global handles.
  A pointer to an entry is the address of the table and the index of the entry.
\<close>

subsection \<open>Handles and indices\<close>

definition MIN_HANDLE_ENTRIES :: int where "MIN_HANDLE_ENTRIES = 32"

abbreviation "RESERVED_INHERIT \<equiv> (0x04000000 :: 32 word)"
abbreviation "RESERVED_CLOSE_PROTECT \<equiv> (0x08000000 :: 32 word)"
abbreviation "RESERVED_ALL \<equiv> (0x0C000000 :: 32 word)"
abbreviation "HANDLE_OBFUSCATOR \<equiv> (0x544A4DEF :: 32 word)"

definition handle_to_index :: "obj_handle \<Rightarrow> int" where
  "handle_to_index handle = uint (drop_bit 2 handle) - 1"

definition handle_is_global :: "obj_handle \<Rightarrow> bool" where
  "handle_is_global handle \<longleftrightarrow> (handle XOR HANDLE_OBFUSCATOR) < 0x10000"

definition handle_local_to_global :: "obj_handle \<Rightarrow> obj_handle" where
  "handle_local_to_global handle = (if handle = 0 then 0 else handle XOR HANDLE_OBFUSCATOR)"

definition handle_global_to_local :: "obj_handle \<Rightarrow> obj_handle" where
  "handle_global_to_local handle = handle XOR HANDLE_OBFUSCATOR"

subsection \<open>Tables\<close>

definition alloc_handle_table :: "oid option \<Rightarrow> int \<Rightarrow> server \<Rightarrow> (oid option \<times> server) option" where
  "alloc_handle_table process n s =
     (let n = max n MIN_HANDLE_ENTRIES in
      case alloc_object (Handle_table \<lparr>ht_process = process, ht_last = -1, ht_free = 0, entries = []\<rparr>) s of
        (None, s) \<Rightarrow> Some (None, s)
      | (Some table, s) \<Rightarrow>
          (case mem_alloc s of (ok, s) \<Rightarrow>
             if ok then do {
               s \<leftarrow> set_body table (Handle_table \<lparr>ht_process = process, ht_last = -1, ht_free = 0,
                                      entries = replicate (nat n) None\<rparr>) s;
               Some (Some table, s) }
             else do { s \<leftarrow> release_object table s; Some (None, s) }))"

definition grow_handle_table :: "oid \<Rightarrow> server \<Rightarrow> (bool \<times> server) option" where
  "grow_handle_table tb s =
     do { ht \<leftarrow> get_table s tb;
          if ht_count ht \<ge> INT_MAX div 2 then Some (False, s) else
          case malloc s of (ok, s) \<Rightarrow>
            if \<not> ok then Some (False, set_error STATUS_NO_MEMORY s)
            else do { s \<leftarrow> set_body tb (Handle_table
                             (ht\<lparr>entries := entries ht @ replicate (length (entries ht)) None\<rparr>)) s;
                      Some (True, s) } }"

text \<open>The search of \<^verbatim>\<open>alloc_entry\<close>: the first entry from \<open>i\<close> on without an object.\<close>

function free_slot :: "handle_table \<Rightarrow> int \<Rightarrow> int option" where
  "free_slot ht i =
     (if i \<le> ht_last ht
      then do { e \<leftarrow> entry_at ht i; if he_ptr e = None then Some i else free_slot ht (i + 1) }
      else Some i)"
  by pat_completeness auto
termination
  by (relation "measure (\<lambda>(ht, i). nat (ht_last ht + 1 - i))") auto

declare free_slot.simps [simp del]

definition alloc_entry :: "oid \<Rightarrow> oid \<Rightarrow> 32 word \<Rightarrow> server \<Rightarrow> (obj_handle \<times> server) option" where
  "alloc_entry tb obj acc s =
     do { ht \<leftarrow> get_table s tb;
          i \<leftarrow> free_slot ht (ht_free ht);
          (ok, s) \<leftarrow> (if i > ht_last ht \<and> i \<ge> ht_count ht then grow_handle_table tb s else Some (True, s));
          if \<not> ok then Some (0, s) else do {
          ht \<leftarrow> get_table s tb;
          s \<leftarrow> grab_object obj s;
          es \<leftarrow> write_at (entries ht) i (Some \<lparr>he_ptr = Some obj, he_access = acc, he_fd = -1\<rparr>);
          s \<leftarrow> set_body tb (Handle_table
                 (ht\<lparr>ht_last := max i (ht_last ht), ht_free := i + 1, entries := es\<rparr>)) s;
          Some (index_to_handle i, s) } }"

definition alloc_handle :: "oid \<Rightarrow> oid \<Rightarrow> 32 word \<Rightarrow> 32 word \<Rightarrow> server \<Rightarrow> (obj_handle \<times> server) option" where
  "alloc_handle process obj acc attr s =
     do { ob \<leftarrow> objects s obj;
          let acc = map_access (ops (body ob)) acc;
          let acc = acc AND NOT RESERVED_ALL;
          let acc = (if has attr OBJ_INHERIT then acc OR RESERVED_INHERIT else acc);
          pr \<leftarrow> get_process s process;
          case handles pr of None \<Rightarrow> Some (0, set_error STATUS_NO_MEMORY s)
          | Some tb \<Rightarrow> alloc_entry tb obj acc s }"

definition alloc_global_handle :: "oid \<Rightarrow> 32 word \<Rightarrow> server \<Rightarrow> (obj_handle \<times> server) option" where
  "alloc_global_handle obj acc s =
     do { (tb, s) \<leftarrow> (case global_table s of Some tb \<Rightarrow> Some (Some tb, s)
            | None \<Rightarrow> do { (tb, s) \<leftarrow> alloc_handle_table None 0 s; Some (tb, s\<lparr>global_table := tb\<rparr>) });
          case tb of None \<Rightarrow> Some (0, s)
          | Some tb \<Rightarrow> do { (h, s) \<leftarrow> alloc_entry tb obj acc s; Some (handle_local_to_global h, s) } }"

definition get_handle :: "oid \<Rightarrow> obj_handle \<Rightarrow> server \<Rightarrow> ((oid \<times> int) option \<times> server) option" where
  "get_handle process handle s =
     do { pr \<leftarrow> get_process s process;
          let (table, handle) = (if handle_is_global handle
                                 then (global_table s, handle_global_to_local handle) else (handles pr, handle));
          case table of None \<Rightarrow> Some (None, set_error STATUS_INVALID_HANDLE s)
          | Some tb \<Rightarrow> do {
              ht \<leftarrow> get_table s tb;
              let index = handle_to_index handle;
              if index < 0 \<or> index > ht_last ht then Some (None, set_error STATUS_INVALID_HANDLE s) else do {
              e \<leftarrow> entry_at ht index;
              if he_ptr e = None then Some (None, set_error STATUS_INVALID_HANDLE s)
              else Some (Some (tb, index), s) } } }"

definition read_entry :: "oid \<times> int \<Rightarrow> server \<Rightarrow> handle_entry option" where
  "read_entry p s = do { ht \<leftarrow> get_table s (fst p); entry_at ht (snd p) }"

text \<open>The loop of \<^verbatim>\<open>shrink_handle_table\<close>: the index of the last entry in use.\<close>

function last_used :: "handle_table \<Rightarrow> int \<Rightarrow> int option" where
  "last_used ht i =
     (if i \<ge> 0 then do { e \<leftarrow> entry_at ht i; if he_ptr e \<noteq> None then Some i else last_used ht (i - 1) }
      else Some i)"
  by pat_completeness auto
termination
  by (relation "measure (\<lambda>(ht, i). nat (i + 1))") auto

declare last_used.simps [simp del]

definition shrink_handle_table :: "oid \<Rightarrow> server \<Rightarrow> server option" where
  "shrink_handle_table tb s =
     do { ht \<leftarrow> get_table s tb;
          l \<leftarrow> last_used ht (ht_last ht);
          let ht = ht\<lparr>ht_last := l\<rparr>;
          s \<leftarrow> set_body tb (Handle_table ht) s;
          if ht_last ht \<ge> ht_count ht div 4 then Some s
          else if ht_count ht < MIN_HANDLE_ENTRIES * 2 then Some s
          else case malloc s of (ok, s) \<Rightarrow>
            if \<not> ok then Some s
            else set_body tb (Handle_table (ht\<lparr>entries := take (nat (ht_count ht div 2)) (entries ht)\<rparr>)) s }"

text \<open>
  The copy of one entry after the other; each object whose entry is inherited is grabbed.
\<close>

fun copy_entries :: "handle_entry option list \<Rightarrow> server \<Rightarrow> (handle_entry option list \<times> server) option" where
  "copy_entries [] s = Some ([], s)"
| "copy_entries (e # es) s =
     do { ent \<leftarrow> e;
          (new, s) \<leftarrow> (case he_ptr ent of None \<Rightarrow> Some (ent, s)
            | Some o1 \<Rightarrow>
                if has (he_access ent) RESERVED_INHERIT
                then do { s \<leftarrow> grab_object o1 s; Some (ent\<lparr>he_fd := -1\<rparr>, s) }
                else Some (ent\<lparr>he_fd := -1, he_ptr := None\<rparr>, s));
          (rest, s) \<leftarrow> copy_entries es s;
          Some (Some new # rest, s) }"

definition copy_handle_table :: "oid \<Rightarrow> oid \<Rightarrow> server \<Rightarrow> (oid option \<times> server) option" where
  "copy_handle_table process parent s =
     do { ppr \<leftarrow> get_process s parent;
          ptb \<leftarrow> handles ppr;
          pht \<leftarrow> get_table s ptb;
          (table, s) \<leftarrow> alloc_handle_table (Some process) (ht_count pht) s;
          case table of None \<Rightarrow> Some (None, s)
          | Some tb \<Rightarrow> do {
              ht \<leftarrow> get_table s tb;
              (es, s) \<leftarrow> copy_entries (take (nat (ht_last pht + 1)) (entries pht)) s;
              s \<leftarrow> set_body tb (Handle_table (ht\<lparr>ht_last := ht_last pht,
                     entries := es @ drop (length es) (entries ht)\<rparr>)) s;
              s \<leftarrow> shrink_handle_table tb s;
              Some (Some tb, s) } }"

subsection \<open>Closing a handle\<close>

text \<open>
  \<open>want_fd\<close>: the argument \<^verbatim>\<open>fd\<close> is not \<^verbatim>\<open>NULL\<close>.  The result is the return value and what is
  stored in \<^verbatim>\<open>*fd\<close>.
\<close>

definition close_handle :: "oid \<Rightarrow> obj_handle \<Rightarrow> bool \<Rightarrow> server \<Rightarrow> ((bool \<times> int option) \<times> server) option" where
  "close_handle process handle want_fd s =
     do { (entry, s) \<leftarrow> get_handle process handle s;
          case entry of None \<Rightarrow> Some ((False, None), s)
          | Some (tb, i) \<Rightarrow> do {
              e \<leftarrow> read_entry (tb, i) s;
              if has (he_access e) RESERVED_CLOSE_PROTECT
              then Some ((False, None), set_error STATUS_HANDLE_NOT_CLOSABLE s) else do {
              obj \<leftarrow> he_ptr e;
              (ok, s) \<leftarrow> no_close_handle obj process handle s;
              if \<not> ok then Some ((False, None), set_error STATUS_HANDLE_NOT_CLOSABLE s) else do {
              s \<leftarrow> set_entry tb i (e\<lparr>he_ptr := None\<rparr>) s;
              if \<not> want_fd \<and> he_fd e \<noteq> -1 then Some ((True, None), s) else do {
              let fd = (if want_fd then Some (he_fd e) else None);
              s \<leftarrow> set_entry tb i (e\<lparr>he_ptr := None, he_fd := -1\<rparr>) s;
              ht \<leftarrow> get_table s tb;
              s \<leftarrow> (if i < ht_free ht then set_body tb (Handle_table (ht\<lparr>ht_free := i\<rparr>)) s else Some s);
              s \<leftarrow> (if i = ht_last ht then shrink_handle_table tb s else Some s);
              s \<leftarrow> release_object obj s;
              Some ((True, fd), s) } } } } }"

subsection \<open>Using a handle\<close>

definition get_magic_handle :: "obj_handle \<Rightarrow> server \<Rightarrow> oid option option" where
  "get_magic_handle handle s =
     (if handle = 0xFFFFFFFE then do { t \<leftarrow> current s; Some (Some t) }
      else if handle = 0x7FFFFFFF \<or> handle = 0xFFFFFFFF
      then do { t \<leftarrow> current s; th \<leftarrow> get_thread s t; Some (t_process th) }
      else Some None)"

definition get_handle_obj :: "oid \<Rightarrow> obj_handle \<Rightarrow> 32 word \<Rightarrow> obj_ops option \<Rightarrow> server
    \<Rightarrow> (oid option \<times> server) option" where
  "get_handle_obj process handle acc type s =
     do { magic \<leftarrow> get_magic_handle handle s;
          (obj, s) \<leftarrow> (case magic of Some o1 \<Rightarrow> Some (Some o1, s)
            | None \<Rightarrow> do {
                (entry, s) \<leftarrow> get_handle process handle s;
                case entry of None \<Rightarrow> Some (None, s)
                | Some p \<Rightarrow> do {
                    e \<leftarrow> read_entry p s;
                    if he_access e AND acc \<noteq> acc then Some (None, set_error STATUS_ACCESS_DENIED s)
                    else Some (he_ptr e, s) } });
          case obj of None \<Rightarrow> Some (None, s)
          | Some o1 \<Rightarrow> do {
              ob \<leftarrow> objects s o1;
              if type \<noteq> None \<and> Some (ops (body ob)) \<noteq> type
              then Some (None, set_error STATUS_OBJECT_TYPE_MISMATCH s)
              else do { s \<leftarrow> grab_object o1 s; Some (Some o1, s) } } }"

definition get_handle_access :: "oid \<Rightarrow> obj_handle \<Rightarrow> server \<Rightarrow> (32 word \<times> server) option" where
  "get_handle_access process handle s =
     do { magic \<leftarrow> get_magic_handle handle s;
          if magic \<noteq> None then Some (-1, s) else do {
          (entry, s) \<leftarrow> get_handle process handle s;
          case entry of None \<Rightarrow> Some (0, s)
          | Some p \<Rightarrow> do { e \<leftarrow> read_entry p s; Some (he_access e, s) } } }"

definition get_handle_unix_fd :: "oid \<Rightarrow> obj_handle \<Rightarrow> 32 word \<Rightarrow> server \<Rightarrow> (int \<times> server) option" where
  "get_handle_unix_fd process handle acc s =
     do { (entry, s) \<leftarrow> get_handle process handle s;
          case entry of None \<Rightarrow> Some (-1, s)
          | Some p \<Rightarrow> do {
              e \<leftarrow> read_entry p s;
              if he_access e AND acc \<noteq> acc then Some (-1, set_error STATUS_ACCESS_DENIED s)
              else Some (he_fd e, s) } }"

definition set_handle_unix_fd :: "oid \<Rightarrow> obj_handle \<Rightarrow> int \<Rightarrow> server \<Rightarrow> (int \<times> server) option" where
  "set_handle_unix_fd process handle fd s =
     (if handle_is_global handle then Some (-1, s) else
      do { (entry, s) \<leftarrow> get_handle process handle s;
           case entry of None \<Rightarrow> Some (-1, s)
           | Some (tb, i) \<Rightarrow> do {
               e \<leftarrow> read_entry (tb, i) s;
               s \<leftarrow> (if he_fd e = -1 then set_entry tb i (e\<lparr>he_fd := fd\<rparr>) s else Some s);
               e \<leftarrow> read_entry (tb, i) s;
               Some (he_fd e, s) } })"

definition flush_cached_fd :: "oid \<Rightarrow> obj_handle \<Rightarrow> server \<Rightarrow> (int \<times> server) option" where
  "flush_cached_fd process handle s =
     do { (entry, s) \<leftarrow> get_handle process handle s;
          case entry of None \<Rightarrow> Some (-1, s)
          | Some (tb, i) \<Rightarrow> do {
              e \<leftarrow> read_entry (tb, i) s;
              s \<leftarrow> set_entry tb i (e\<lparr>he_fd := -1\<rparr>) s;
              Some (he_fd e, s) } }"

text \<open>The scan of \<^verbatim>\<open>find_inherited_handle\<close> over \<open>n\<close> entries from \<open>i\<close> on.\<close>

fun scan_inherited :: "nat \<Rightarrow> handle_table \<Rightarrow> int \<Rightarrow> obj_ops \<Rightarrow> server \<Rightarrow> obj_handle option" where
  "scan_inherited 0 ht i type s = Some 0"
| "scan_inherited (Suc n) ht i type s =
     do { e \<leftarrow> entry_at ht i;
          case he_ptr e of None \<Rightarrow> scan_inherited n ht (i + 1) type s
          | Some o1 \<Rightarrow> do {
              ob \<leftarrow> objects s o1;
              if ops (body ob) \<noteq> type then scan_inherited n ht (i + 1) type s
              else if has (he_access e) RESERVED_INHERIT then Some (index_to_handle i)
              else scan_inherited n ht (i + 1) type s } }"

definition find_inherited_handle :: "oid \<Rightarrow> obj_ops \<Rightarrow> server \<Rightarrow> obj_handle option" where
  "find_inherited_handle process type s =
     do { pr \<leftarrow> get_process s process;
          case handles pr of None \<Rightarrow> Some 0
          | Some tb \<Rightarrow> do { ht \<leftarrow> get_table s tb; scan_inherited (nat (ht_last ht + 1)) ht 0 type s } }"

text \<open>The result is the old flags, or \<^verbatim>\<open>-1\<close>.\<close>

definition set_handle_flags :: "oid \<Rightarrow> obj_handle \<Rightarrow> 32 word \<Rightarrow> 32 word \<Rightarrow> server \<Rightarrow> (32 word \<times> server) option" where
  "set_handle_flags process handle msk flags s =
     do { magic \<leftarrow> get_magic_handle handle s;
          if magic \<noteq> None then Some (0, if msk \<noteq> 0 then set_error STATUS_ACCESS_DENIED s else s) else do {
          (entry, s) \<leftarrow> get_handle process handle s;
          case entry of None \<Rightarrow> Some (-1, s)
          | Some (tb, i) \<Rightarrow> do {
              e \<leftarrow> read_entry (tb, i) s;
              let old_access = he_access e;
              let msk = push_bit 26 msk AND RESERVED_ALL;
              let flags = push_bit 26 flags AND msk;
              s \<leftarrow> set_entry tb i (e\<lparr>he_access := (he_access e AND NOT msk) OR flags\<rparr>) s;
              Some (drop_bit 26 (old_access AND RESERVED_ALL), s) } } }"

text \<open>\<open>dst\<close> is not used for a global handle.\<close>

definition duplicate_handle :: "oid \<Rightarrow> obj_handle \<Rightarrow> oid option \<Rightarrow> 32 word \<Rightarrow> 32 word \<Rightarrow> 32 word
    \<Rightarrow> server \<Rightarrow> (obj_handle \<times> server) option" where
  "duplicate_handle src src_handle dst acc attr options s =
     do { (obj, s) \<leftarrow> get_handle_obj src src_handle 0 None s;
          case obj of None \<Rightarrow> Some (0, s)
          | Some o1 \<Rightarrow> do {
              (acc, s) \<leftarrow> (if has options DUP_HANDLE_SAME_ACCESS
                 then do { (entry, s) \<leftarrow> get_handle src src_handle s;
                           case entry of Some p \<Rightarrow> do { e \<leftarrow> read_entry p s; Some (he_access e, s) }
                           | None \<Rightarrow> Some (STANDARD_RIGHTS_ALL OR SPECIFIC_RIGHTS_ALL, clear_error s) }
                 else Some (acc, s));
              let acc = acc AND NOT RESERVED_ALL;
              (res, s) \<leftarrow> (if has options DUP_HANDLE_MAKE_GLOBAL then alloc_global_handle o1 acc s
                           else do { d \<leftarrow> dst; alloc_handle d o1 acc attr s });
              s \<leftarrow> release_object o1 s;
              Some (res, s) } }"

definition current_process :: "server \<Rightarrow> oid option" where
  "current_process s = do { t \<leftarrow> current s; th \<leftarrow> get_thread s t; t_process th }"

definition open_object :: "nat \<Rightarrow> wchar list \<Rightarrow> obj_ops option \<Rightarrow> 32 word \<Rightarrow> 32 word \<Rightarrow> server
    \<Rightarrow> (obj_handle \<times> server) option" where
  "open_object ns name type acc attr s =
     do { (obj, s) \<leftarrow> find_object ns name attr s;
          case obj of None \<Rightarrow> Some (0, set_error STATUS_OBJECT_NAME_NOT_FOUND s)
          | Some o1 \<Rightarrow> do {
              ob \<leftarrow> objects s o1;
              (h, s) \<leftarrow> (if type \<noteq> None \<and> Some (ops (body ob)) \<noteq> type
                         then Some (0, set_error STATUS_OBJECT_TYPE_MISMATCH s)
                         else do { p \<leftarrow> current_process s; alloc_handle p o1 acc attr s });
              s \<leftarrow> release_object o1 s;
              Some (h, s) } }"

definition get_handle_table_count :: "oid \<Rightarrow> server \<Rightarrow> int option" where
  "get_handle_table_count process s =
     do { pr \<leftarrow> get_process s process;
          case handles pr of None \<Rightarrow> Some 0 | Some tb \<Rightarrow> do { ht \<leftarrow> get_table s tb; Some (ht_count ht) } }"

subsection \<open>Requests\<close>

definition req_close_handle :: "obj_handle \<Rightarrow> server \<Rightarrow> ((bool \<times> int option) \<times> server) option" where
  "req_close_handle handle s = do { p \<leftarrow> current_process s; close_handle p handle True s }"

definition req_set_handle_info :: "obj_handle \<Rightarrow> 32 word \<Rightarrow> 32 word \<Rightarrow> server \<Rightarrow> (32 word \<times> server) option" where
  "req_set_handle_info handle msk flags s =
     do { p \<leftarrow> current_process s; set_handle_flags p handle msk flags s }"

definition get_process_from_handle :: "obj_handle \<Rightarrow> 32 word \<Rightarrow> server \<Rightarrow> (oid option \<times> server) option" where
  "get_process_from_handle handle acc s =
     do { p \<leftarrow> current_process s; get_handle_obj p handle acc (Some process_ops) s }"

text \<open>The reply holds the new handle and the fd of the one that was closed, or \<^verbatim>\<open>-1\<close>.\<close>

definition req_dup_handle :: "obj_handle \<Rightarrow> obj_handle \<Rightarrow> obj_handle \<Rightarrow> 32 word \<Rightarrow> 32 word \<Rightarrow> 32 word
    \<Rightarrow> server \<Rightarrow> ((obj_handle \<times> int) \<times> server) option" where
  "req_dup_handle src_process src_handle dst_process acc attributes options s =
     do { (src, s) \<leftarrow> get_process_from_handle src_process PROCESS_DUP_HANDLE s;
          case src of None \<Rightarrow> Some ((0, -1), s)
          | Some src \<Rightarrow> do {
              (handle, s) \<leftarrow>
                (if has options DUP_HANDLE_MAKE_GLOBAL
                 then duplicate_handle src src_handle None acc attributes options s
                 else do {
                   (dst, s) \<leftarrow> get_process_from_handle dst_process PROCESS_DUP_HANDLE s;
                   case dst of None \<Rightarrow> Some (0, s)
                   | Some dst \<Rightarrow> do {
                       (h, s) \<leftarrow> duplicate_handle src src_handle (Some dst) acc attributes options s;
                       s \<leftarrow> release_object dst s;
                       Some (h, s) } });
              (fd, s) \<leftarrow>
                (if has options DUP_HANDLE_CLOSE_SOURCE
                 then do { cp \<leftarrow> current_process s;
                           ((_, fd), s) \<leftarrow> close_handle src src_handle (src = cp) s;
                           Some (case fd of None \<Rightarrow> -1 | Some f \<Rightarrow> f, s) }
                 else Some (-1, s));
              s \<leftarrow> release_object src s;
              Some ((handle, fd), s) } }"

end
