(* ===== verification/Handles_Correct.thy ===== *)
theory Handles_Correct
  imports Handles
begin

text \<open>
  What the handle tables do: the entries in use are a map from indices to objects, access
  rights and cached file descriptors, and each operation is an update of that map.
\<close>

subsection \<open>Steps that allocate memory or set the error\<close>

lemma more_fields:
  assumes "env.more (s' :: server) = env.more s"
  shows "objects s' = objects s" "next_oid s' = next_oid s" "next_addr s' = next_addr s"
    "namespaces s' = namespaces s" "global_table s' = global_table s" "root_directory s' = root_directory s"
    "timeout_list s' = timeout_list s" "expired s' = expired s" "sent s' = sent s" "now s' = now s" "tolowerW s' = tolowerW s"
proof -
  define s2 where "s2 = s\<lparr>current := current s', global_error := global_error s',
    thread_error := thread_error s', mem_oracle := mem_oracle s'\<rparr>"
  have eq: "s' = s2" by (rule env.equality) (simp_all add: s2_def assms)
  show "objects s' = objects s" "next_oid s' = next_oid s" "next_addr s' = next_addr s"
    "namespaces s' = namespaces s" "global_table s' = global_table s" "root_directory s' = root_directory s"
    "timeout_list s' = timeout_list s" "expired s' = expired s" "sent s' = sent s" "now s' = now s" "tolowerW s' = tolowerW s"
    by (subst eq, simp add: s2_def)+
qed

lemma server_ok_more: "env.more s' = env.more s \<Longrightarrow> server_ok E s' \<longleftrightarrow> server_ok E s"
  by (rule server_ok_cong) (erule more_fields)+

lemma set_error_sel [simp]:
  fixes s :: server
  shows "objects (set_error e s) = objects s" "next_oid (set_error e s) = next_oid s"
    "next_addr (set_error e s) = next_addr s" "namespaces (set_error e s) = namespaces s"
    "global_table (set_error e s) = global_table s" "root_directory (set_error e s) = root_directory s"
    "timeout_list (set_error e s) = timeout_list s" "expired (set_error e s) = expired s" "sent (set_error e s) = sent s"
    "now (set_error e s) = now s" "tolowerW (set_error e s) = tolowerW s"
  by (rule more_fields; simp)+

lemma server_ok_set_error [simp]: "server_ok E (set_error e s) \<longleftrightarrow> server_ok E s"
  by (rule server_ok_more) simp

lemma alloc_step_server:
  "alloc_step ok s s' \<Longrightarrow> server_ok E s' \<longleftrightarrow> server_ok E s"
  "alloc_step ok s s' \<Longrightarrow> objects s' = objects s" "alloc_step ok s s' \<Longrightarrow> current s' = current s"
  unfolding alloc_step_def by (elim conjE, erule server_ok_more)
    (elim conjE, erule more_fields, elim conjE, assumption)

lemma get_cong:
  assumes "objects s' = objects s"
  shows "get_table s' = get_table s" "get_process s' = get_process s" "get_thread s' = get_thread s"
  using assms by (auto simp: get_defs)

lemma get_set_error [simp]:
  "get_table (set_error e s) = get_table s" "get_process (set_error e s) = get_process s"
  "get_thread (set_error e s) = get_thread s"
  by (rule get_cong; simp)+

text \<open>All but the objects, the errors and the allocator.\<close>

definition same_env :: "server \<Rightarrow> server \<Rightarrow> bool" where
  "same_env s s' \<longleftrightarrow> next_oid s' = next_oid s \<and> next_addr s' = next_addr s \<and> namespaces s' = namespaces s \<and>
     global_table s' = global_table s \<and> root_directory s' = root_directory s \<and>
     timeout_list s' = timeout_list s \<and> expired s' = expired s \<and> sent s' = sent s \<and> now s' = now s \<and> tolowerW s' = tolowerW s \<and>
     current s' = current s"

lemma same_env_refl [simp]: "same_env s s"
  and same_env_set_error [simp]: "same_env s (set_error e s)"
  and same_env_set_obj [simp]: "same_env s (set_obj x ob s') \<longleftrightarrow> same_env s s'"
    "same_env (set_obj x ob s) s' \<longleftrightarrow> same_env s s'"
  by (simp_all add: same_env_def)

lemma same_env_trans: "same_env a b \<Longrightarrow> same_env b c \<Longrightarrow> same_env a c"
  by (simp add: same_env_def)

lemma same_env_alloc: "alloc_step ok s s' \<Longrightarrow> same_env s s'"
  unfolding alloc_step_def same_env_def by (blast intro: more_fields)

subsection \<open>Tables as maps\<close>

definition entry_map :: "handle_table \<Rightarrow> int \<Rightarrow> (oid \<times> 32 word \<times> int) option" where
  "entry_map ht i =
     do { e \<leftarrow> entry_at ht i; o1 \<leftarrow> he_ptr e; Some (o1, he_access e, he_fd e) }"

lemma entry_map_Some:
  "entry_map ht i = Some (o1, a, f) \<longleftrightarrow> entry_at ht i = Some \<lparr>he_ptr = Some o1, he_access = a, he_fd = f\<rparr>"
proof (cases "entry_at ht i")
  case (Some e)
  then show ?thesis by (cases e) (auto simp: entry_map_def bind_eq_Some_conv)
qed (simp add: entry_map_def)

lemma entry_map_eq_None: "entry_map ht i = None \<longleftrightarrow> (\<forall>e. entry_at ht i = Some e \<longrightarrow> he_ptr e = None)"
  by (cases "entry_at ht i") (auto simp: entry_map_def bind_eq_None_conv)

lemma table_okD:
  assumes "table_ok ht"
  shows "-1 \<le> ht_last ht" "ht_last ht < ht_count ht" "0 \<le> ht_free ht" "ht_free ht \<le> ht_last ht + 1"
    "ht_count ht \<le> INT_MAX" "0 < ht_count ht"
    and table_ok_init: "0 \<le> i \<Longrightarrow> i \<le> ht_last ht \<Longrightarrow> entry_at ht i \<noteq> None"
    and table_ok_above: "ht_last ht < i \<Longrightarrow> entry_map ht i = None"
    and table_ok_below: "0 \<le> i \<Longrightarrow> i < ht_free ht \<Longrightarrow> entry_map ht i \<noteq> None"
proof -
  show "-1 \<le> ht_last ht" "ht_last ht < ht_count ht" "0 \<le> ht_free ht" "ht_free ht \<le> ht_last ht + 1"
    "ht_count ht \<le> INT_MAX" "0 < ht_count ht"
    using assms by (simp_all add: table_ok_def)
  show init: "0 \<le> i \<Longrightarrow> i \<le> ht_last ht \<Longrightarrow> entry_at ht i \<noteq> None" for i
    using assms by (simp add: table_ok_def)
  show "ht_last ht < i \<Longrightarrow> entry_map ht i = None"
    using assms unfolding table_ok_def entry_map_eq_None by blast
  assume i: "0 \<le> i" "i < ht_free ht"
  then have "entry_at ht i \<noteq> None" using init [of i] assms by (simp add: table_ok_def)
  then show "entry_map ht i \<noteq> None" using i assms unfolding table_ok_def entry_map_eq_None by blast
qed

lemma table_okI:
  assumes "-1 \<le> ht_last ht" "ht_last ht < ht_count ht" "0 \<le> ht_free ht" "ht_free ht \<le> ht_last ht + 1"
    "ht_count ht \<le> INT_MAX" "0 < ht_count ht"
    "\<And>i. 0 \<le> i \<Longrightarrow> i \<le> ht_last ht \<Longrightarrow> entry_at ht i \<noteq> None"
    "\<And>i. ht_last ht < i \<Longrightarrow> entry_map ht i = None"
    "\<And>i. 0 \<le> i \<Longrightarrow> i < ht_free ht \<Longrightarrow> entry_map ht i \<noteq> None"
  shows "table_ok ht"
  using assms unfolding table_ok_def entry_map_eq_None by fastforce

lemma entry_map_range: "entry_map ht i \<noteq> None \<Longrightarrow> table_ok ht \<Longrightarrow> 0 \<le> i \<and> i \<le> ht_last ht"
  by (metis entry_at_Some entry_map_eq_None not_le table_ok_above)

text \<open>The updates of a table, with what they do to the map.\<close>

lemma ht_count_upd [simp]:
  "ht_count (ht\<lparr>ht_last := l\<rparr>) = ht_count ht" "ht_count (ht\<lparr>ht_free := f\<rparr>) = ht_count ht"
  "ht_count (ht\<lparr>entries := es\<rparr>) = int (length es)"
  by (simp_all add: ht_count_def)

lemma entry_at_fields [simp]:
  "entry_at (ht\<lparr>ht_last := l\<rparr>) = entry_at ht" "entry_at (ht\<lparr>ht_free := f\<rparr>) = entry_at ht"
  by (auto simp: entry_at_def)

lemma entry_map_fields [simp]:
  "entry_map (ht\<lparr>ht_last := l\<rparr>) = entry_map ht" "entry_map (ht\<lparr>ht_free := f\<rparr>) = entry_map ht"
  by (auto simp: entry_map_def)

lemma table_refs_fields [simp]:
  "table_refs (ht\<lparr>ht_last := l\<rparr>) = table_refs ht" "table_refs (ht\<lparr>ht_free := f\<rparr>) = table_refs ht"
  by (simp_all add: table_refs_def)

lemma entry_at_grow [simp]:
  "entry_at (ht\<lparr>entries := entries ht @ replicate n None\<rparr>) = entry_at ht"
  by (rule ext) (auto simp: entry_at_def read_at_def nth_append nat_less_iff)

lemma sum_list_empty: "\<forall>x\<in>set xs. f x = {#} \<Longrightarrow> sum_list (map f xs) = {#}"
  by (induction xs) simp_all

lemma table_refs_grow [simp]: "table_refs (ht\<lparr>entries := entries ht @ replicate n None\<rparr>) = table_refs ht"
  by (simp add: table_refs_def entry_refs_def sum_list_empty del: map_replicate)

lemma entry_map_grow [simp]: "entry_map (ht\<lparr>entries := entries ht @ replicate n None\<rparr>) = entry_map ht"
  by (rule ext) (simp add: entry_map_def)

lemma entry_map_upd:
  "0 \<le> i \<Longrightarrow> i < ht_count ht \<Longrightarrow>
   entry_map (ht\<lparr>entries := (entries ht)[nat i := Some e]\<rparr>) =
     (entry_map ht)(i := map_option (\<lambda>o1. (o1, he_access e, he_fd e)) (he_ptr e))"
  by (rule ext) (cases "he_ptr e"; simp add: entry_map_def entry_at_upd)

lemma table_refs_cut:
  assumes "table_ok ht" "ht_last ht < int n"
  shows "table_refs (ht\<lparr>entries := take n (entries ht)\<rparr>) = table_refs ht"
    "entry_map (ht\<lparr>entries := take n (entries ht)\<rparr>) = entry_map ht"
    "i < int n \<Longrightarrow> entry_at (ht\<lparr>entries := take n (entries ht)\<rparr>) i = entry_at ht i"
proof -
  have "entry_refs e = {#}" if mem: "e \<in> set (drop n (entries ht))" for e
  proof -
    obtain k where k: "k < length (drop n (entries ht))" "e = drop n (entries ht) ! k"
      using mem unfolding in_set_conv_nth by blast
    then have e: "e = entries ht ! (n + k)" "n + k < length (entries ht)" by auto
    have "entry_map ht (int (n + k)) = None"
      by (rule table_ok_above [OF assms(1)]) (use assms(2) in simp)
    moreover have "entry_at ht (int (n + k)) = e"
      using e by (simp add: entry_at_def read_at_def del: of_nat_add)
    ultimately show ?thesis by (cases e) (auto simp: entry_refs_def entry_map_eq_None)
  qed
  then have "sum_list (map entry_refs (drop n (entries ht))) = {#}"
    by (blast intro: sum_list_empty)
  moreover have "table_refs ht = sum_list (map entry_refs (take n (entries ht))) +
      sum_list (map entry_refs (drop n (entries ht)))"
    unfolding table_refs_def sum_list_append [symmetric] map_append [symmetric] append_take_drop_id ..
  ultimately show "table_refs (ht\<lparr>entries := take n (entries ht)\<rparr>) = table_refs ht"
    by (simp add: table_refs_def)
  show at: "i < int n \<Longrightarrow> entry_at (ht\<lparr>entries := take n (entries ht)\<rparr>) i = entry_at ht i" for i
    by (auto simp: entry_at_def read_at_def)
  show "entry_map (ht\<lparr>entries := take n (entries ht)\<rparr>) = entry_map ht"
  proof
    fix i
    show "entry_map (ht\<lparr>entries := take n (entries ht)\<rparr>) i = entry_map ht i"
    proof (cases "i < int n")
      case True
      then show ?thesis by (simp add: entry_map_def at)
    next
      case False
      then have "entry_map ht i = None" using assms by (intro table_ok_above) auto
      moreover have "entry_at (ht\<lparr>entries := take n (entries ht)\<rparr>) i = None"
        using False by (auto simp: entry_at_def read_at_def)
      ultimately show ?thesis by (simp add: entry_map_def)
    qed
  qed
qed

text \<open>Replacing a table keeps the invariant when the references move.\<close>

lemma server_ok_table:
  assumes ok: "server_ok E s" and ob: "objects s tb = Some ob" "body ob = Handle_table ht"
    and t: "table_ok ht'" and moved: "table_refs ht' + E' = table_refs ht + E"
  shows "server_ok E' (set_obj tb (ob\<lparr>body := Handle_table ht'\<rparr>) s)"
proof (rule server_ok_set_obj [OF ok ob(1)])
  fix x
  have "count (table_refs ht' + E') x = count (table_refs ht + E) x" using moved by simp
  then show "count (obj_refs (ob\<lparr>body := Handle_table ht'\<rparr>)) x + count E' x +
      (if x = tb then refcount ob else 0) = count (obj_refs ob) x + count E x +
      (if x = tb then refcount (ob\<lparr>body := Handle_table ht'\<rparr>) else 0)"
    using ob(2) by (cases "x = tb") (simp_all add: obj_refs_def)
qed (use t ob in \<open>simp_all add: same_links_def\<close>)

text \<open>An entry that loses or gains its object.\<close>

lemma table_refs_set:
  assumes "0 \<le> i" "i < ht_count ht"
  shows "table_refs (ht\<lparr>entries := (entries ht)[nat i := Some e]\<rparr>) + opt (map_option fst (entry_map ht i)) =
    table_refs ht + opt (he_ptr e)"
proof -
  have "entry_refs (entries ht ! nat i) = opt (map_option fst (entry_map ht i))"
  proof (cases "entries ht ! nat i")
    case None
    then have "entry_at ht i = None" by (simp add: entry_at_def read_at_def)
    then show ?thesis using None by (simp add: entry_refs_def entry_map_def)
  next
    case (Some x)
    then have "entry_at ht i = Some x" using assms by (simp add: entry_at_Some)
    then show ?thesis using Some by (cases "he_ptr x") (simp_all add: entry_refs_def entry_map_def)
  qed
  then show ?thesis using table_refs_upd [OF assms, of "Some e"] by (simp add: entry_refs_def)
qed

subsection \<open>Searching a table\<close>

lemma free_slot_ok:
  "table_ok ht \<Longrightarrow> 0 \<le> i \<Longrightarrow> i \<le> ht_last ht + 1 \<Longrightarrow>
   \<exists>k. free_slot ht i = Some k \<and> i \<le> k \<and> k \<le> ht_last ht + 1 \<and> entry_map ht k = None \<and>
     (\<forall>j. i \<le> j \<and> j < k \<longrightarrow> entry_map ht j \<noteq> None)"
proof (induction ht i rule: free_slot.induct)
  case (1 ht i)
  show ?case
  proof (cases "i \<le> ht_last ht")
    case False
    then show ?thesis
      using 1(2-4) by (simp add: free_slot.simps [of ht i] table_ok_above)
  next
    case True
    then obtain e where e: "entry_at ht i = Some e" using table_ok_init 1(2,3) by blast
    show ?thesis
    proof (cases "he_ptr e")
      case None
      then show ?thesis using True e
        by (intro exI [of _ i]) (auto simp: free_slot.simps [of ht i] entry_map_def)
    next
      case (Some o1)
      then obtain k where k: "free_slot ht (i + 1) = Some k" "i + 1 \<le> k" "k \<le> ht_last ht + 1"
        "entry_map ht k = None" "\<forall>j. i + 1 \<le> j \<and> j < k \<longrightarrow> entry_map ht j \<noteq> None"
        using 1(1) [OF True e] 1(2,3) True by auto
      have "entry_map ht i \<noteq> None" using e Some by (simp add: entry_map_def)
      then have "\<forall>j. i \<le> j \<and> j < k \<longrightarrow> entry_map ht j \<noteq> None"
        using k(5) by (metis add1_zle_eq order_le_less)
      then show ?thesis using k True e Some by (intro exI [of _ k]) (simp add: free_slot.simps [of ht i])
    qed
  qed
qed

lemma last_used_ok:
  "table_ok ht \<Longrightarrow> -1 \<le> i \<Longrightarrow> i \<le> ht_last ht \<Longrightarrow>
   \<exists>k. last_used ht i = Some k \<and> -1 \<le> k \<and> k \<le> i \<and> (0 \<le> k \<longrightarrow> entry_map ht k \<noteq> None) \<and>
     (\<forall>j. k < j \<and> j \<le> i \<longrightarrow> entry_map ht j = None)"
proof (induction ht i rule: last_used.induct)
  case (1 ht i)
  show ?case
  proof (cases "0 \<le> i")
    case False
    then show ?thesis using 1(2-4) by (auto simp: last_used.simps [of ht i])
  next
    case True
    then obtain e where e: "entry_at ht i = Some e" using table_ok_init 1(2,4) by blast
    show ?thesis
    proof (cases "he_ptr e")
      case (Some o1)
      then show ?thesis using True e
        by (intro exI [of _ i]) (auto simp: last_used.simps [of ht i] entry_map_def)
    next
      case None
      then obtain k where k: "last_used ht (i - 1) = Some k" "-1 \<le> k" "k \<le> i - 1"
        "0 \<le> k \<longrightarrow> entry_map ht k \<noteq> None" "\<forall>j. k < j \<and> j \<le> i - 1 \<longrightarrow> entry_map ht j = None"
        using 1(1) [OF True e] 1(2,4) True by auto
      have "entry_map ht i = None" using e None by (simp add: entry_map_def)
      then have "\<forall>j. k < j \<and> j \<le> i \<longrightarrow> entry_map ht j = None"
        using k(5) by (metis zle_diff1_eq order_le_less)
      then show ?thesis using k True e None by (intro exI [of _ k]) (simp add: last_used.simps [of ht i])
    qed
  qed
qed

text \<open>\<open>table_step tb ht' s s'\<close>: nothing but the table at \<open>tb\<close> changes, and it becomes \<open>ht'\<close>.\<close>

definition table_step :: "oid \<Rightarrow> handle_table \<Rightarrow> server \<Rightarrow> server \<Rightarrow> bool" where
  "table_step tb ht' s s' \<longleftrightarrow> same_env s s' \<and>
     (\<exists>ob. objects s tb = Some ob \<and> objects s' = (objects s)(tb \<mapsto> ob\<lparr>body := Handle_table ht'\<rparr>))"

lemma table_step_get: "table_step tb ht' s s' \<Longrightarrow> get_table s' tb = Some ht'"
  by (auto simp: table_step_def get_table_def)

lemma last_cut_ok:
  assumes t: "table_ok ht" and k: "-1 \<le> k" "k \<le> ht_last ht" "\<forall>j. k < j \<and> j \<le> ht_last ht \<longrightarrow> entry_map ht j = None"
  shows "table_ok (ht\<lparr>ht_last := k\<rparr>)"
proof (rule table_okI)
  show "ht_free (ht\<lparr>ht_last := k\<rparr>) \<le> ht_last (ht\<lparr>ht_last := k\<rparr>) + 1"
  proof (rule ccontr)
    assume "\<not> ?thesis"
    then have "k + 1 < ht_free ht" by simp
    moreover from this have "k + 1 \<le> ht_last ht" using table_okD(4) [OF t] by simp
    ultimately show False using table_ok_below [OF t, of "k + 1"] k by simp
  qed
  fix i
  show "entry_map (ht\<lparr>ht_last := k\<rparr>) i = None" if "ht_last (ht\<lparr>ht_last := k\<rparr>) < i"
    using that k(3) table_ok_above [OF t, of i] by (cases "i \<le> ht_last ht") auto
qed (use table_okD [OF t] table_ok_below [OF t] k in auto)

lemma count_cut_ok:
  assumes t: "table_ok ht" and n: "ht_last ht < int n" "0 < n" "int n \<le> ht_count ht"
  shows "table_ok (ht\<lparr>entries := take n (entries ht)\<rparr>)"
  by (rule table_okI)
    (use table_okD [OF t] table_ok_init [OF t] table_ok_below [OF t] table_ok_above [OF t] n
      table_refs_cut [OF t n(1)] in \<open>simp_all add: ht_count_def min_def\<close>)

lemma shrink_ok:
  assumes ok: "server_ok E s" and ob: "objects s tb = Some ob" "body ob = Handle_table ht"
    and t: "table_ok ht"
  shows "\<exists>s' ht'. shrink_handle_table tb s = Some s' \<and> server_ok E s' \<and> table_step tb ht' s s' \<and>
    table_ok ht' \<and> entry_map ht' = entry_map ht \<and> get_error s' = get_error s"
proof -
  obtain k where k: "last_used ht (ht_last ht) = Some k" "-1 \<le> k" "k \<le> ht_last ht"
    "\<forall>j. k < j \<and> j \<le> ht_last ht \<longrightarrow> entry_map ht j = None"
    using last_used_ok [OF t, of "ht_last ht"] table_okD(1) [OF t] by auto
  define ht1 where "ht1 = ht\<lparr>ht_last := k\<rparr>"
  define s1 where "s1 = set_obj tb (ob\<lparr>body := Handle_table ht1\<rparr>) s"
  have t1: "table_ok ht1" unfolding ht1_def by (rule last_cut_ok [OF t k(2-4)])
  have s1: "server_ok E s1"
    unfolding s1_def by (rule server_ok_table [OF ok ob t1]) (simp add: ht1_def)
  have step1: "table_step tb ht1 s s1" using ob by (simp add: s1_def table_step_def)
  have err1: "get_error s1 = get_error s" by (simp add: s1_def)
  have unf: "shrink_handle_table tb s =
    (if ht_last ht1 \<ge> ht_count ht1 div 4 then Some s1
     else if ht_count ht1 < MIN_HANDLE_ENTRIES * 2 then Some s1
     else case malloc s1 of (ok, s) \<Rightarrow>
       if \<not> ok then Some s
       else set_body tb (Handle_table (ht1\<lparr>entries := take (nat (ht_count ht1 div 2)) (entries ht1)\<rparr>)) s)"
    using ob k(1) by (simp add: shrink_handle_table_def get_table_def set_body_def Let_def s1_def ht1_def
        cong: if_cong)
  show ?thesis
  proof (cases "ht_last ht1 \<ge> ht_count ht1 div 4 \<or> ht_count ht1 < MIN_HANDLE_ENTRIES * 2")
    case True
    then show ?thesis using s1 step1 t1 err1 unf by (auto simp: ht1_def)
  next
    case False
    obtain b s2 where m: "malloc s1 = (b, s2)" by fastforce
    then have mo: "env.more s2 = env.more s1" by (rule malloc_more)
    have e2: "get_error s2 = get_error s" "same_env s1 s2"
      using m err1 mo more_fields [OF mo] unfolding same_env_def
      by (auto simp: malloc_def get_error_def split: list.splits option.splits)
    have s2: "server_ok E s2" using s1 server_ok_more [OF mo] by simp
    let ?n = "nat (ht_count ht1 div 2)"
    let ?ht2 = "ht1\<lparr>entries := take ?n (entries ht1)\<rparr>"
    have n: "ht_last ht1 < int ?n" "0 < ?n" "int ?n \<le> ht_count ht1"
      using False by (auto simp: MIN_HANDLE_ENTRIES_def)
    have ob2: "objects s2 tb = Some (ob\<lparr>body := Handle_table ht1\<rparr>)"
      using more_fields(1) [OF mo] by (simp add: s1_def)
    have t2: "table_ok ?ht2" by (rule count_cut_ok [OF t1 n])
    define s3 where "s3 = set_obj tb (ob\<lparr>body := Handle_table ?ht2\<rparr>) s2"
    have "server_ok E s3"
      using server_ok_table [OF s2 ob2 _ t2, of ht1 E] table_refs_cut(1) [OF t1 n(1)] by (simp add: s3_def)
    moreover have "table_step tb ?ht2 s s3"
      using more_fields(1) [OF mo] ob(1) e2(2) step1
      by (auto simp: table_step_def s3_def s1_def intro: same_env_trans)
    moreover have "table_step tb ht1 s s2"
      using more_fields(1) [OF mo] step1 e2(2) by (auto simp: table_step_def intro: same_env_trans)
    moreover have "shrink_handle_table tb s = Some (if b then s3 else s2)"
      using unf False m ob2 by (simp add: set_body_def s3_def)
    moreover have "entry_map ?ht2 = entry_map ht" "entry_map ht1 = entry_map ht"
      using table_refs_cut(2) [OF t1 n(1)] by (simp_all add: ht1_def)
    moreover have "get_error s3 = get_error s" using e2 by (simp add: s3_def)
    ultimately show ?thesis using s2 t1 t2 e2 by (cases b) auto
  qed
qed

subsection \<open>Storing an object in a table\<close>

lemma malloc_env:
  assumes "malloc s = (b, s')"
  shows "env.more s' = env.more s" "get_error s' = get_error s" "same_env s (s' :: server)" "objects s' = objects s"
    "server_ok E s' \<longleftrightarrow> server_ok E s"
proof -
  show mo: "env.more s' = env.more s" using assms by (rule malloc_more)
  show "server_ok E s' \<longleftrightarrow> server_ok E s" using mo by (rule server_ok_more)
  show "get_error s' = get_error s" "same_env s s'" "objects s' = objects s"
    using assms more_fields [OF mo] unfolding same_env_def
    by (auto simp: malloc_def get_error_def split: list.splits option.splits)
qed

definition double :: "handle_table \<Rightarrow> handle_table" where
  "double ht = ht\<lparr>entries := entries ht @ replicate (length (entries ht)) None\<rparr>"

lemma double_simps [simp]:
  "ht_last (double ht) = ht_last ht" "ht_free (double ht) = ht_free ht" "ht_process (double ht) = ht_process ht"
  "ht_count (double ht) = 2 * ht_count ht" "entry_at (double ht) = entry_at ht"
  "entry_map (double ht) = entry_map ht" "table_refs (double ht) = table_refs ht"
  by (simp_all add: double_def) (simp add: ht_count_def)

lemma double_ok: "table_ok ht \<Longrightarrow> ht_count ht < INT_MAX div 2 \<Longrightarrow> table_ok (double ht)"
  by (rule table_okI)
    (use table_okD [of ht] table_ok_init [of ht] table_ok_below [of ht] table_ok_above [of ht] in
      \<open>auto simp: INT_MAX_def\<close>)

text \<open>A table grows, or stays when there is no memory or it is as large as it can be.\<close>

lemma grow_ok:
  assumes ok: "server_ok E s" and ob: "objects s tb = Some ob" "body ob = Handle_table ht"
    and t: "table_ok ht"
  shows "\<exists>b s'. grow_handle_table tb s = Some (b, s') \<and> server_ok E s' \<and> same_env s s' \<and>
    (if b then table_step tb (double ht) s s' \<and> table_ok (double ht) \<and> get_error s' = get_error s
     else objects s' = objects s \<and> (get_error s' = STATUS_NO_MEMORY \<or>
            ht_count ht \<ge> INT_MAX div 2 \<and> get_error s' = get_error s))"
proof (cases "ht_count ht \<ge> INT_MAX div 2")
  case True
  then show ?thesis using ok ob
    by (intro exI [of _ False] exI [of _ s]) (simp add: grow_handle_table_def get_table_def)
next
  case False
  obtain b s1 where m: "malloc s = (b, s1)" by fastforce
  note M = malloc_env [OF m]
  have s1: "server_ok E s1" using ok M(5) by simp
  have t2: "table_ok (double ht)" by (rule double_ok [OF t]) (use False in simp)
  have o1: "objects s1 tb = Some ob" using M(4) ob(1) by simp
  define s2 where "s2 = set_obj tb (ob\<lparr>body := Handle_table (double ht)\<rparr>) s1"
  have ok2: "server_ok E s2" unfolding s2_def by (rule server_ok_table [OF s1 o1 ob(2) t2]) simp
  have step: "table_step tb (double ht) s s2" "same_env s s2" "get_error s2 = get_error s"
    using M o1 ob by (simp_all add: table_step_def s2_def)
  have run: "grow_handle_table tb s = Some (if b then (True, s2) else (False, set_error STATUS_NO_MEMORY s1))"
    using False ob m o1 by (simp add: grow_handle_table_def get_table_def set_body_def double_def s2_def)
  show ?thesis
  proof (cases b)
    case True
    then show ?thesis using run ok2 step t2 by (intro exI [of _ True] exI [of _ s2]) simp
  next
    case False
    have "same_env s (set_error STATUS_NO_MEMORY s1)" by (rule same_env_trans [OF M(3)]) simp
    then show ?thesis using run False s1 M(4)
      by (intro exI [of _ False] exI [of _ "set_error STATUS_NO_MEMORY s1"]) simp
  qed
qed

definition stored :: "oid \<Rightarrow> int \<Rightarrow> oid \<Rightarrow> 32 word \<Rightarrow> server \<Rightarrow> server \<Rightarrow> bool" where
  "stored tb i obj acc s s' \<longleftrightarrow>
     (\<exists>ht ht'. get_table s tb = Some ht \<and> get_table s' tb = Some ht' \<and> 0 \<le> i \<and> i \<le> ht_last ht + 1 \<and>
        entry_map ht i = None \<and> (\<forall>j. 0 \<le> j \<and> j < i \<longrightarrow> entry_map ht j \<noteq> None) \<and>
        entry_map ht' = (entry_map ht)(i \<mapsto> (obj, acc, -1))) \<and>
     (\<forall>x. x \<noteq> tb \<longrightarrow> x \<noteq> obj \<longrightarrow> objects s' x = objects s x) \<and>
     (\<forall>x. x \<noteq> tb \<longrightarrow> map_option body (objects s' x) = map_option body (objects s x)) \<and>
     same_env s s' \<and> get_error s' = get_error s"

lemma put_entry_ok:
  fixes acc :: "32 word"
  assumes ok: "server_ok (E + {#obj#}) s" and ob: "objects s tb = Some ob" "body ob = Handle_table ht"
    and t: "table_ok ht" and i: "ht_free ht \<le> i" "i \<le> ht_last ht + 1" "i < ht_count ht" "entry_map ht i = None"
      "\<forall>j. ht_free ht \<le> j \<and> j < i \<longrightarrow> entry_map ht j \<noteq> None"
  defines "ht' \<equiv> ht\<lparr>ht_last := max i (ht_last ht), ht_free := i + 1,
    entries := (entries ht)[nat i := Some \<lparr>he_ptr = Some obj, he_access = acc, he_fd = -1\<rparr>]\<rparr>"
  shows "server_ok E (set_obj tb (ob\<lparr>body := Handle_table ht'\<rparr>) s)"
    "entry_map ht' = (entry_map ht)(i \<mapsto> (obj, acc, -1))"
proof -
  let ?e = "\<lparr>he_ptr = Some obj, he_access = acc, he_fd = -1\<rparr>"
  have i0: "0 \<le> i" using i(1) table_okD(3) [OF t] by simp
  have ht': "ht' = (ht\<lparr>entries := (entries ht)[nat i := Some ?e]\<rparr>)\<lparr>ht_last := max i (ht_last ht), ht_free := i + 1\<rparr>"
    by (simp add: ht'_def)
  show map: "entry_map ht' = (entry_map ht)(i \<mapsto> (obj, acc, -1))"
    unfolding ht' using entry_map_upd [OF i0 i(3), of ?e] by simp
  have at: "entry_at ht' j = (if j = i then Some ?e else entry_at ht j)" for j
    unfolding ht' using entry_at_upd [OF i0 i(3), of "Some ?e" j] by simp
  have fields: "ht_last ht' = max i (ht_last ht)" "ht_free ht' = i + 1" "ht_count ht' = ht_count ht"
    by (simp_all add: ht' ht_count_def)
  have t': "table_ok ht'"
  proof (rule table_okI)
    fix j
    show "entry_at ht' j \<noteq> None" if "0 \<le> j" "j \<le> ht_last ht'"
      using that fields i(2) table_ok_init [OF t, of j] by (auto simp: at)
    show "entry_map ht' j = None" if "ht_last ht' < j"
      using that fields table_ok_above [OF t, of j] by (auto simp: map)
    show "entry_map ht' j \<noteq> None" if "0 \<le> j" "j < ht_free ht'"
      using that fields i(5) table_ok_below [OF t, of j] by (cases "j < ht_free ht") (auto simp: map)
  qed (use fields table_okD [OF t] i i0 in auto)
  have "table_refs ht' = table_refs ht + {#obj#}"
    unfolding ht' using table_refs_set [OF i0 i(3), of ?e] i(4) by simp
  then show "server_ok E (set_obj tb (ob\<lparr>body := Handle_table ht'\<rparr>) s)"
    by (intro server_ok_table [OF ok ob t']) simp
qed

lemma alloc_entry_ok:
  assumes ok: "server_ok E s" and ob: "objects s tb = Some ob" "body ob = Handle_table ht" and t: "table_ok ht"
    and obj: "objects s obj = Some obo" "0 < refcount obo" "int (refcount obo) < INT_MAX"
  shows "\<exists>h s'. alloc_entry tb obj acc s = Some (h, s') \<and> server_ok E s' \<and> same_env s s' \<and>
    ((\<exists>i. h = index_to_handle i \<and> stored tb i obj acc s s') \<or>
     h = 0 \<and> objects s' = objects s \<and> (get_error s' = STATUS_NO_MEMORY \<or>
        ht_count ht \<ge> INT_MAX div 2 \<and> get_error s' = get_error s))"
proof -
  obtain i where i: "free_slot ht (ht_free ht) = Some i" "ht_free ht \<le> i" "i \<le> ht_last ht + 1"
    "entry_map ht i = None" "\<forall>j. ht_free ht \<le> j \<and> j < i \<longrightarrow> entry_map ht j \<noteq> None"
    using free_slot_ok [OF t table_okD(3,4) [OF t]] by blast
  have low: "0 \<le> i" "\<forall>j. 0 \<le> j \<and> j < i \<longrightarrow> entry_map ht j \<noteq> None"
    using i(2,5) table_okD(3) [OF t] table_ok_below [OF t] by (simp, metis not_le)
  define grown where "grown = (if i > ht_last ht \<and> i \<ge> ht_count ht then grow_handle_table tb s else Some (True, s))"
  have unf: "alloc_entry tb obj acc s =
     do { (ok, s) \<leftarrow> grown;
          if \<not> ok then Some (0, s) else do {
          ht \<leftarrow> get_table s tb;
          s \<leftarrow> grab_object obj s;
          es \<leftarrow> write_at (entries ht) i (Some \<lparr>he_ptr = Some obj, he_access = acc, he_fd = -1\<rparr>);
          s \<leftarrow> set_body tb (Handle_table (ht\<lparr>ht_last := max i (ht_last ht), ht_free := i + 1, entries := es\<rparr>)) s;
          Some (index_to_handle i, s) } }"
    using ob i(1) by (simp add: alloc_entry_def get_table_def grown_def)
  obtain b s1 where g: "grown = Some (b, s1)" "server_ok E s1" "same_env s s1"
    and fail: "\<not> b \<Longrightarrow> objects s1 = objects s \<and> (get_error s1 = STATUS_NO_MEMORY \<or>
        ht_count ht \<ge> INT_MAX div 2 \<and> get_error s1 = get_error s)"
    and succ: "b \<Longrightarrow> \<exists>ht1. table_step tb ht1 s s1 \<and> table_ok ht1 \<and> get_error s1 = get_error s \<and>
        ht_last ht1 = ht_last ht \<and> ht_free ht1 = ht_free ht \<and> entry_map ht1 = entry_map ht \<and> i < ht_count ht1"
  proof (cases "i > ht_last ht \<and> i \<ge> ht_count ht")
    case True
    obtain b s1 where r: "grow_handle_table tb s = Some (b, s1)" "server_ok E s1" "same_env s s1"
      "if b then table_step tb (double ht) s s1 \<and> table_ok (double ht) \<and> get_error s1 = get_error s
       else objects s1 = objects s \<and> (get_error s1 = STATUS_NO_MEMORY \<or>
            ht_count ht \<ge> INT_MAX div 2 \<and> get_error s1 = get_error s)"
      using grow_ok [OF ok ob t] by blast
    have "i < ht_count (double ht)" using i(3) table_okD(2,6) [OF t] by simp
    then show ?thesis using r True by (intro that [of b s1]) (auto simp: grown_def intro!: exI [of _ "double ht"])
  next
    case False
    have "table_step tb ht s s" using ob by (auto simp: table_step_def intro!: ext)
    then show ?thesis using False ok t table_okD(2) [OF t] i(3)
      by (intro that [of True s]) (auto simp: grown_def intro!: exI [of _ ht])
  qed
  show ?thesis
  proof (cases b)
    case False
    then show ?thesis using unf g fail by auto
  next
    case True
    then obtain ht1 where h1: "table_step tb ht1 s s1" "table_ok ht1" "get_error s1 = get_error s"
      "ht_last ht1 = ht_last ht" "ht_free ht1 = ht_free ht" "entry_map ht1 = entry_map ht" "i < ht_count ht1"
      using succ by blast
    have o1: "objects s1 tb = Some (ob\<lparr>body := Handle_table ht1\<rparr>)" "\<forall>x. x \<noteq> tb \<longrightarrow> objects s1 x = objects s x"
      using h1(1) ob(1) by (auto simp: table_step_def)
    obtain obo1 where obo1: "objects s1 obj = Some obo1" "refcount obo1 = refcount obo"
      using o1 obj(1) ob(1) by (cases "obj = tb") auto
    define s2 where "s2 = set_obj obj (obo1\<lparr>refcount := refcount obo1 + 1\<rparr>) s1"
    have grab: "grab_object obj s1 = Some s2" using obo1 obj(3) by (simp add: grab_object_def s2_def)
    have s2: "server_ok (E + {#obj#}) s2"
      unfolding s2_def using obo1 obj(2) by (intro server_ok_grab [OF g(2)]) simp_all
    obtain ob2 where ob2: "objects s2 tb = Some ob2" "body ob2 = Handle_table ht1"
      using o1(1) obo1 by (cases "obj = tb") (auto simp: s2_def)
    define ht' where "ht' = ht1\<lparr>ht_last := max i (ht_last ht1), ht_free := i + 1,
      entries := (entries ht1)[nat i := Some \<lparr>he_ptr = Some obj, he_access = acc, he_fd = -1\<rparr>]\<rparr>"
    define s3 where "s3 = set_obj tb (ob2\<lparr>body := Handle_table ht'\<rparr>) s2"
    have fin: "server_ok E s3" "entry_map ht' = (entry_map ht)(i \<mapsto> (obj, acc, -1))"
      using put_entry_ok [OF s2 ob2 h1(2)] i h1 by (simp_all add: s3_def ht'_def)
    have "alloc_entry tb obj acc s = Some (index_to_handle i, s3)"
      unfolding unf g(1) using True grab h1(1,7) low(1) ob2
      by (simp add: table_step_get write_at_def set_body_def s3_def ht'_def ht_count_def)
    moreover have "stored tb i obj acc s s3"
      unfolding stored_def
    proof (intro conjI exI)
      show "get_table s tb = Some ht" using ob by (simp add: get_table_def)
      show "get_table s3 tb = Some ht'" by (simp add: s3_def get_table_def)
      show "\<forall>x. x \<noteq> tb \<longrightarrow> map_option body (objects s3 x) = map_option body (objects s x)"
        using o1(2) obo1(1) by (auto simp: s3_def s2_def)
    qed (use fin low i g(3) h1(3) o1(2) in \<open>auto simp: s3_def s2_def\<close>)
    ultimately show ?thesis using fin(1) unfolding stored_def by blast
  qed
qed

subsection \<open>Handles and indices\<close>

lemma uint_index_to_handle: "0 \<le> i \<Longrightarrow> i < 2 ^ 30 - 1 \<Longrightarrow> uint (index_to_handle i) = 4 * (i + 1)"
proof -
  assume i: "0 \<le> i" "i < 2 ^ 30 - 1"
  have "index_to_handle i = word_of_int ((i + 1) * 4)"
    unfolding index_to_handle_def push_bit_eq_mult wi_hom_mult [symmetric] by simp
  then have "uint (index_to_handle i) = ((i + 1) * 4) mod 2 ^ 32" by (simp only: uint_word_of_int) simp
  then show ?thesis using i by simp
qed

lemma handle_to_index_to_handle: "0 \<le> i \<Longrightarrow> i < 2 ^ 30 - 1 \<Longrightarrow> handle_to_index (index_to_handle i) = i"
  using uint_index_to_handle [of i]
  by (simp add: handle_to_index_def drop_bit_eq_div uint_div)

lemma index_to_handle_nonzero: "0 \<le> i \<Longrightarrow> i < 2 ^ 30 - 1 \<Longrightarrow> index_to_handle i \<noteq> 0"
  using uint_index_to_handle [of i] by auto

lemma xor_twice: "((h :: 32 word) XOR k) XOR k = h"
  by (simp add: xor.assoc)

lemma local_not_global: "uint h < 0x544A0000 \<Longrightarrow> \<not> handle_is_global h"
proof
  assume h: "uint h < 0x544A0000" "handle_is_global h"
  then have "h XOR HANDLE_OBFUSCATOR < 0x10000" by (simp add: handle_is_global_def)
  then have "uint (h XOR HANDLE_OBFUSCATOR) < 0x10000" by (simp add: word_less_def)
  then have "drop_bit 16 (uint (h XOR HANDLE_OBFUSCATOR)) = 0" by (simp add: drop_bit_eq_div)
  then have "drop_bit 16 (uint h) XOR 0x544A = 0" by (simp add: unsigned_xor_eq drop_bit_xor)
  then have "drop_bit 16 (uint h) = 0x544A" by (metis xor_self_eq xor.assoc xor.right_neutral xor.left_neutral)
  then have "uint h div 65536 = 0x544A" by (simp add: drop_bit_eq_div)
  with h(1) show False by presburger
qed

lemma small_index_local: "0 \<le> i \<Longrightarrow> i \<le> 2 ^ 28 \<Longrightarrow> \<not> handle_is_global (index_to_handle i)"
  using uint_index_to_handle [of i] by (intro local_not_global) simp

text \<open>
  C25: Handles and indices are in bijection: an index of a table of less than $2^{30} - 1$ entries
  is read back from its handle, and such a handle is never the invalid handle 0.  The obfuscation
  of global handles is undone by the server, and it recognises the obfuscated handle exactly
  when the index is below \<^verbatim>\<open>0x3fff\<close>: a larger global table hands out handles it does not know.
\<close>

theorem handle_index_roundtrip:
  assumes "0 \<le> i" "i < 2 ^ 30 - 1"
  shows "handle_to_index (index_to_handle i) = i \<and> index_to_handle i \<noteq> 0 \<and>
    handle_global_to_local (handle_local_to_global (index_to_handle i)) = index_to_handle i \<and>
    (handle_is_global (handle_local_to_global (index_to_handle i)) \<longleftrightarrow> i < 0x3FFF)"
proof -
  have "index_to_handle i < 0x10000 \<longleftrightarrow> i < 0x3FFF"
    using uint_index_to_handle [OF assms] by (simp add: word_less_def)
  then show ?thesis
    using handle_to_index_to_handle [OF assms] index_to_handle_nonzero [OF assms]
    by (simp add: handle_global_to_local_def handle_local_to_global_def handle_is_global_def xor_twice)
qed

lemma handle_index_roundtrip_witness:
  "handle_to_index (index_to_handle 5) = 5 \<and> handle_is_global (handle_local_to_global (index_to_handle 5))"
  using handle_index_roundtrip [of 5] by simp

end
