(* ===== verification/Sample.thy ===== *)
theory Sample
  imports Server_Inv
begin

text \<open>
  A small server in operation, on which the theorems about all states are evaluated: process
  0 with the threads 1 and 5 and the handle table 2, the event 3 that thread 5 waits for, the
  root directory 4 in which the event is named, the mutex 6 that thread 1 owns, the semaphore
  7 and the timer 8.
\<close>

abbreviation sample_table :: handle_table where
  "sample_table \<equiv> \<lparr>ht_process = Some 0, ht_last = 3, ht_free = 4, entries =
     [Some \<lparr>he_ptr = Some 3, he_access = EVENT_ALL_ACCESS, he_fd = -1\<rparr>,
      Some \<lparr>he_ptr = Some 6, he_access = MUTEX_ALL_ACCESS, he_fd = -1\<rparr>,
      Some \<lparr>he_ptr = Some 7, he_access = SEMAPHORE_ALL_ACCESS OR 0x04000000, he_fd = 9\<rparr>,
      Some \<lparr>he_ptr = Some 8, he_access = TIMER_ALL_ACCESS OR 0x08000000, he_fd = -1\<rparr>,
      None, None, None, None]\<rparr>"

abbreviation sample_entry :: wait_queue_entry where
  "sample_entry \<equiv> \<lparr>e_id = 11, e_obj = 3, e_thread = 5\<rparr>"

abbreviation sample_wait :: thread_wait where
  "sample_wait \<equiv> \<lparr>w_id = 10, w_flags = SELECT_INTERRUPTIBLE, w_cookie = Some 77,
     w_timeout = \<lparr>tv_sec = 0, tv_usec = 0\<rparr>, w_user = None, queues = [sample_entry]\<rparr>"

abbreviation sample_thread :: "oid list \<Rightarrow> thread_wait list \<Rightarrow> thread" where
  "sample_thread ms ws \<equiv> \<lparr>t_process = Some 0, mutex_list = ms, waits = ws, system_apc = [], user_apc = [],
     t_state = RUNNING, t_exit_code = 0, t_suspend = 0, t_context = False\<rparr>"

abbreviation sample_process :: process where
  "sample_process \<equiv> \<lparr>p_parent = None, thread_list = [1, 5], handles = Some 2, running_threads = 2,
     p_exit_code = 0, p_suspend = 0, idle_event = None, init_done = True\<rparr>"

abbreviation sample_timer :: timer where
  "sample_timer \<equiv> \<lparr>tm_manual = False, tm_signaled = False, tm_period = 0, tm_when = \<lparr>tv_sec = 100, tv_usec = 0\<rparr>,
     tm_timeout = Some 12, tm_thread = None, tm_callback = 0, tm_arg = 0\<rparr>"

abbreviation plain_object :: "nat \<Rightarrow> obj_body \<Rightarrow> object" where
  "plain_object n b \<equiv> \<lparr>refcount = n, wait_queue = [], obj_name = None, body = b\<rparr>"

abbreviation event_object :: object where
  "event_object \<equiv> \<lparr>refcount = 2, wait_queue = [sample_entry],
     obj_name = Some \<lparr>n_space = 13, n_hash = 1, n_parent = Some 4, n_name = [65]\<rparr>,
     body = Event \<lparr>manual_reset = False, signaled = False\<rparr>\<rparr>"

definition bare :: server where
  "bare = \<lparr>current = Some 1, global_error = 0, thread_error = \<lambda>_. 0, mem_oracle = [], objects = \<lambda>_. None,
     next_oid = 9, next_addr = 14, namespaces = [13 \<mapsto> [[], [3]]], global_table = None,
     root_directory = Some 4, timeout_list = [\<lparr>tu_id = 12, tu_when = \<lparr>tv_sec = 100, tv_usec = 0\<rparr>,
       tu_callback = Timer_callback 8\<rparr>], expired = [], sent = [], now = \<lparr>tv_sec = 50, tv_usec = 0\<rparr>, tolowerW = id\<rparr>"

definition sample :: server where
  "sample =
     set_obj 8 (plain_object 1 (Timer sample_timer)) (
     set_obj 7 (plain_object 1 (Semaphore \<lparr>sem_count = 1, sem_max = 2\<rparr>)) (
     set_obj 6 (plain_object 1 (Mutex \<lparr>owner = Some 1, mx_count = 1, abandoned = False\<rparr>)) (
     set_obj 5 (plain_object 2 (Thread (sample_thread [] [sample_wait]))) (
     set_obj 4 (plain_object 2 (Directory (Some 13))) (
     set_obj 3 event_object (
     set_obj 2 (plain_object 1 (Handle_table sample_table)) (
     set_obj 1 (plain_object 2 (Thread (sample_thread [6] []))) (
     set_obj 0 (plain_object 3 (Process sample_process)) bare))))))))"

lemma bare_simps:
  "objects bare = (\<lambda>_. None)" "next_oid bare = 9" "next_addr bare = 14" "namespaces bare = [13 \<mapsto> [[], [3]]]"
  "global_table bare = None" "root_directory bare = Some 4" "tolowerW bare = id" "current bare = Some 1"
  "timeout_list bare = [\<lparr>tu_id = 12, tu_when = \<lparr>tv_sec = 100, tv_usec = 0\<rparr>, tu_callback = Timer_callback 8\<rparr>]"
  "expired bare = []" "look d f bare = (\<lambda>_. d)" "sent bare = []" "now bare = \<lparr>tv_sec = 50, tv_usec = 0\<rparr>" "mem_oracle bare = []"
  by (auto simp: bare_def look_def)

lemma sample_objects:
  "objects sample 0 = Some (plain_object 3 (Process sample_process))"
  "objects sample (Suc 0) = Some (plain_object 2 (Thread (sample_thread [6] [])))"
  "objects sample 2 = Some (plain_object 1 (Handle_table sample_table))"
  "objects sample 3 = Some event_object"
  "objects sample 4 = Some (plain_object 2 (Directory (Some 13)))"
  "objects sample 5 = Some (plain_object 2 (Thread (sample_thread [] [sample_wait])))"
  "objects sample 6 = Some (plain_object 1 (Mutex \<lparr>owner = Some 1, mx_count = 1, abandoned = False\<rparr>))"
  "objects sample 7 = Some (plain_object 1 (Semaphore \<lparr>sem_count = 1, sem_max = 2\<rparr>))"
  "objects sample 8 = Some (plain_object 1 (Timer sample_timer))"
  by (simp_all add: sample_def)

lemmas sample_sel = set_obj_sel bare_simps

lemma nine: "{..<9::nat} = {0, 1, 2, 3, 4, 5, 6, 7, 8}"
  by (simp add: lessThan_nat_numeral lessThan_Suc insert_commute)

lemma total_nine: "total 9 f = f 0 + f 1 + f 2 + f 3 + f 4 + f 5 + f 6 + f 7 + f 8"
  unfolding total_def nine by (simp add: ac_simps)

lemma nat_le_3: "(i::int) \<le> 3 \<Longrightarrow> 0 \<le> i \<Longrightarrow> i = 0 \<or> i = 1 \<or> i = 2 \<or> i = 3"
  by presburger

lemma sample_table_ok: "table_ok sample_table"
proof -
  define T where "T = sample_table"
  have at: "entry_at T i \<noteq> None" if "0 \<le> i" "i \<le> 3" for i
    using nat_le_3 [OF that(2,1)] by (auto simp: entry_at_def read_at_def T_def)
  have above: "\<forall>e. entry_at T i = Some e \<longrightarrow> he_ptr e = None" if "3 < i" for i
  proof -
    have "i = 4 \<or> i = 5 \<or> i = 6 \<or> i = 7 \<or> 8 \<le> i" using that by presburger
    then show ?thesis by (auto simp: entry_at_def read_at_def T_def)
  qed
  have below: "\<forall>e. entry_at T i = Some e \<longrightarrow> he_ptr e \<noteq> None" if "0 \<le> i" "i < 4" for i
    using nat_le_3 [of i] that by (auto simp: entry_at_def read_at_def T_def)
  have "ht_last T = 3" "ht_free T = 4" "ht_count T = 8" by (simp_all add: T_def ht_count_def)
  then have "table_ok T" unfolding table_ok_def using at above below by (auto simp: INT_MAX_def)
  then show ?thesis by (simp add: T_def)
qed

lemma sample_alloc_ok: "alloc_ok sample"
proof -
  have "o1 < 9 \<and> (0 < refcount ob \<longrightarrow> body_ok (body ob))" if "objects sample o1 = Some ob" for o1 ob
    using that sample_table_ok by (auto simp: sample_def bare_simps split: if_splits)
  then show ?thesis by (simp add: alloc_ok_def sample_def bare_simps)
qed

lemma sample_refs: "refs sample = {#0, 0, 1, 2, 3, 3, 4, 4, 5, 6, 7, 8#}"
  unfolding refs_def sample_def by (simp add: bare_simps total_nine obj_refs_def table_refs_def entry_refs_def)

lemma sample_refs_ok: "refs_ok {#0, 1, 5#} sample"
  unfolding refs_ok_def sample_refs by (auto simp: sample_def bare_simps)

lemma sample_waits: "wait_entries sample = {#sample_entry#}"
  unfolding wait_entries_def sample_def by (simp add: bare_simps total_nine)

lemma sample_waits_ok: "waits_ok sample"
  unfolding waits_ok_def sample_waits by (auto simp: sample_def bare_simps waitable_def split: if_splits)

lemma sample_threads_ok: "threads_ok sample"
  unfolding threads_ok_def by (auto simp: sample_def bare_simps split: if_splits)

lemma sample_mutexes_ok: "mutexes_ok sample"
  unfolding mutexes_ok_def by (auto simp: sample_def bare_simps split: if_splits)

lemma sample_timeouts_ok: "timeouts_ok sample"
  unfolding timeouts_ok_def timeouts_def sample_def by (simp add: bare_simps total_nine)

lemma sample_linked: "linked sample n h = (if n = 13 \<and> h = 1 then [3] else [])"
  by (auto simp: linked_def sample_def bare_simps nth_Cons' numeral_2_eq_2)

lemma sample_hash: "(65::nat) mod Suc (Suc 0) = Suc 0"
  by (simp flip: numeral_2_eq_2)

lemma sample_names_ok: "names_ok sample"
  unfolding names_ok_def sample_linked
  by (auto simp: sample_def bare_simps get_name_hash_def sample_hash split: if_splits)

lemma sample_typed_ok: "typed_ok sample"
  unfolding typed_ok_def by (auto simp: sample_def bare_simps split: if_splits)

lemma sample_ok: "server_ok {#0, 1, 5#} sample"
  using sample_refs_ok
  by (simp add: server_ok_def links_ok_def sample_alloc_ok sample_waits_ok sample_threads_ok
      sample_mutexes_ok sample_timeouts_ok sample_names_ok sample_typed_ok)

end
