(* ===== verification/Handles_Ops.thy ===== *)
theory Handles_Ops
  imports Handles_Correct Sample
begin

text \<open>
  The operations on handles of \<^verbatim>\<open>server/handle.c\<close> as operations on the map from handles to
  objects: allocating, looking up, closing, duplicating and inheriting a handle.
\<close>

subsection \<open>The handles of a process\<close>

text \<open>
  \<open>slot s p h\<close>: the table, the index and the contents of the entry that the handle \<open>h\<close> means
  to the process \<open>p\<close>.
\<close>

definition slot :: "server \<Rightarrow> oid \<Rightarrow> obj_handle \<Rightarrow> ((oid \<times> int) \<times> (oid \<times> 32 word \<times> int)) option" where
  "slot s p h =
     do { pr \<leftarrow> get_process s p;
          tb \<leftarrow> (if handle_is_global h then global_table s else handles pr);
          let i = handle_to_index (if handle_is_global h then handle_global_to_local h else h);
          ht \<leftarrow> get_table s tb;
          x \<leftarrow> entry_map ht i;
          Some ((tb, i), x) }"

definition lookup_handle :: "server \<Rightarrow> oid \<Rightarrow> obj_handle \<Rightarrow> (oid \<times> 32 word \<times> int) option" where
  "lookup_handle s p h = map_option snd (slot s p h)"

lemma table_alive:
  assumes ok: "server_ok E s" and tb: "handles_at s p = Some tb \<or> global_table s = Some tb"
  obtains ob ht where "objects s tb = Some ob" "body ob = Handle_table ht" "table_ok ht" "0 < refcount ob"
    "get_table s tb = Some ht"
proof -
  have "tb \<in># refs s"
  proof (cases "global_table s = Some tb")
    case True
    then show ?thesis by (simp add: refs_def)
  next
    case False
    then have "handles_at s p = Some tb" using tb by simp
    then obtain ob where ob: "objects s p = Some ob" "handles_of (body ob) = Some tb"
      by (auto simp: look_def split: option.splits)
    then have "tb \<in># obj_refs ob" by (cases "body ob") (simp_all add: obj_refs_def)
    then show ?thesis by (rule in_refsI [OF ob(1) server_okD(1) [OF ok]])
  qed
  then obtain ob where ob: "objects s tb = Some ob" "0 < refcount ob"
    by (rule refs_ok_alive [OF server_okD(2) [OF ok] union_iff [THEN iffD2, OF disjI1]])
  have "type_at s tb = Some handle_table_ops"
    using tb typed_ok_handles [OF server_okD(8) [OF ok]] typed_ok_global [OF server_okD(8) [OF ok]] by blast
  then obtain ht where ht: "body ob = Handle_table ht"
    using ob(1) by (cases "body ob") (simp_all add: look_Some)
  have "table_ok ht" using server_ok_body [OF ok ob] ht by simp
  then show ?thesis using that ob ht by (simp add: get_table_def)
qed

lemma handles_at_get: "get_process s p = Some pr \<Longrightarrow> handles_at s p = handles pr"
  by (auto simp: get_Some_iff look_Some)

lemma entry_alive:
  assumes ok: "server_ok E s" and tb: "get_table s tb = Some ht" and e: "entry_map ht i = Some (o1, a, f)"
  obtains ob where "objects s o1 = Some ob" "0 < refcount ob" "o1 \<in># refs s"
proof -
  from tb obtain obt where obt: "objects s tb = Some obt" "body obt = Handle_table ht"
    by (auto simp: get_Some_iff)
  from e have at: "entry_at ht i = Some \<lparr>he_ptr = Some o1, he_access = a, he_fd = f\<rparr>" (is "_ = Some ?e")
    by (simp add: entry_map_Some)
  then have "Some ?e \<in> set (entries ht)" by (metis at entry_at_Some nth_mem ht_count_def zless_nat_eq_int_zless nat_less_iff)
  then obtain xs ys where "entries ht = xs @ Some ?e # ys" by (meson split_list)
  then have "o1 \<in># table_refs ht" by (simp add: table_refs_def entry_refs_def)
  then have "o1 \<in># obj_refs obt" using obt by (simp add: obj_refs_def)
  then have "o1 \<in># refs s" by (rule in_refsI [OF obt(1) server_okD(1) [OF ok]])
  then show ?thesis
    using refs_ok_alive [OF server_okD(2) [OF ok], of o1] that by auto
qed

lemma get_handle_ok:
  assumes ok: "server_ok E s" and p: "get_process s p = Some pr"
  shows "get_handle p h s = Some (case slot s p h of None \<Rightarrow> (None, set_error STATUS_INVALID_HANDLE s)
    | Some (q, _) \<Rightarrow> (Some q, s))"
proof -
  define g where "g = handle_is_global h"
  define tbo where "tbo = (if g then global_table s else handles pr)"
  define i where "i = handle_to_index (if g then handle_global_to_local h else h)"
  have unf: "get_handle p h s = (case tbo of None \<Rightarrow> Some (None, set_error STATUS_INVALID_HANDLE s)
     | Some tb \<Rightarrow> do {
         ht \<leftarrow> get_table s tb;
         if i < 0 \<or> i > ht_last ht then Some (None, set_error STATUS_INVALID_HANDLE s) else do {
         e \<leftarrow> entry_at ht i;
         if he_ptr e = None then Some (None, set_error STATUS_INVALID_HANDLE s) else Some (Some (tb, i), s) } })"
    unfolding get_handle_def tbo_def i_def g_def Let_def using p by simp
  have sl: "slot s p h = do { tb \<leftarrow> tbo; ht \<leftarrow> get_table s tb; x \<leftarrow> entry_map ht i; Some ((tb, i), x) }"
    using p by (simp add: slot_def tbo_def i_def g_def Let_def)
  show ?thesis
  proof (cases tbo)
    case None
    then show ?thesis using unf sl by simp
  next
    case (Some tb)
    then have "handles_at s p = Some tb \<or> global_table s = Some tb"
      using p by (auto simp: tbo_def handles_at_get split: if_splits)
    then obtain ob ht where ht: "table_ok ht" "get_table s tb = Some ht" by (rule table_alive [OF ok]) blast
    show ?thesis
    proof (cases "i < 0 \<or> i > ht_last ht")
      case True
      then have "entry_map ht i = None" using entry_map_range [OF _ ht(1), of i] by fastforce
      then show ?thesis using unf sl Some ht(2) True by auto
    next
      case False
      then obtain e where e: "entry_at ht i = Some e" using table_ok_init [OF ht(1), of i] by fastforce
      show ?thesis
        by (cases "he_ptr e") (use unf sl Some ht(2) False e in \<open>auto simp: entry_map_def\<close>)
    qed
  qed
qed

lemma slot_Some:
  assumes "slot s p h = Some ((tb, i), x)"
  obtains ht where "get_table s tb = Some ht" "entry_map ht i = Some x"
    "handles_at s p = Some tb \<or> global_table s = Some tb"
  using assms that by (auto simp: slot_def bind_eq_Some_conv handles_at_get Let_def split: if_splits)

lemma read_slot:
  assumes "slot s p h = Some ((tb, i), (o1, a, f))"
  shows "read_entry (tb, i) s = Some \<lparr>he_ptr = Some o1, he_access = a, he_fd = f\<rparr>"
proof -
  from assms obtain ht where "get_table s tb = Some ht" "entry_map ht i = Some (o1, a, f)"
    by (rule slot_Some) blast
  then show ?thesis by (simp add: read_entry_def entry_map_Some)
qed

subsection \<open>Allocating a handle\<close>

definition handle_rights :: "obj_ops \<Rightarrow> 32 word \<Rightarrow> 32 word \<Rightarrow> 32 word" where
  "handle_rights ty acc attr =
     (let r = map_access ty acc AND NOT RESERVED_ALL in if has attr OBJ_INHERIT then r OR RESERVED_INHERIT else r)"

lemma alloc_handle_unf:
  assumes "objects s obj = Some obo" "get_process s p = Some pr"
  shows "alloc_handle p obj acc attr s = (case handles pr of None \<Rightarrow> Some (0, set_error STATUS_NO_MEMORY s)
    | Some tb \<Rightarrow> alloc_entry tb obj (handle_rights (ops (body obo)) acc attr) s)"
  unfolding alloc_handle_def handle_rights_def Let_def using assms by simp

lemma alloc_handle_ok:
  assumes "server_ok E s" "get_process s p = Some pr"
    and "objects s obj = Some obo" "0 < refcount obo" "int (refcount obo) < INT_MAX"
  shows "\<exists>h s'. alloc_handle p obj acc attr s = Some (h, s') \<and> server_ok E s' \<and>
    (case handles pr of
       None \<Rightarrow> h = 0 \<and> s' = set_error STATUS_NO_MEMORY s
     | Some tb \<Rightarrow>
         (\<exists>i. h = index_to_handle i \<and> stored tb i obj (handle_rights (ops (body obo)) acc attr) s s') \<or>
         h = 0 \<and> objects s' = objects s \<and> (get_error s' = STATUS_NO_MEMORY \<or>
           (\<exists>ht. get_table s tb = Some ht \<and> ht_count ht \<ge> INT_MAX div 2) \<and> get_error s' = get_error s))"
proof (cases "handles pr")
  case None
  then show ?thesis using assms by (simp add: alloc_handle_unf)
next
  case (Some tb)
  then have "handles_at s p = Some tb \<or> global_table s = Some tb" using assms(2) by (simp add: handles_at_get)
  then obtain ob ht where ht: "objects s tb = Some ob" "body ob = Handle_table ht" "table_ok ht"
    "get_table s tb = Some ht" by (rule table_alive [OF assms(1)]) blast
  show ?thesis
    using alloc_entry_ok [OF assms(1) ht(1-3) assms(3-5), of "handle_rights (ops (body obo)) acc attr"] ht(4)
    unfolding alloc_handle_unf [OF assms(3,2)] Some option.case by blast
qed


lemma sample_process_get: "get_process sample 0 = Some sample_process"
  "get_thread sample (Suc 0) = Some (sample_thread [6] [])"
  by (simp_all add: get_process_def get_thread_def sample_objects)


subsection \<open>From a handle to the object\<close>

text \<open>The object a handle means and the rights it gives; pseudo-handles give all rights.\<close>

definition current_thread :: "oid multiset \<Rightarrow> server \<Rightarrow> oid \<Rightarrow> oid \<Rightarrow> bool" where
  "current_thread E s t p \<longleftrightarrow> current s = Some t \<and> t \<in># E \<and> p \<in># E \<and> proc_at s t = Some p"

definition handle_target :: "server \<Rightarrow> oid \<Rightarrow> oid \<Rightarrow> oid \<Rightarrow> obj_handle \<Rightarrow> (oid \<times> 32 word) option" where
  "handle_target s t cp p h =
     (if h = 0xFFFFFFFE then Some (t, -1)
      else if h = 0x7FFFFFFF \<or> h = 0xFFFFFFFF then Some (cp, -1)
      else map_option (\<lambda>(o1, a, f). (o1, a)) (lookup_handle s p h))"

lemma magic_ok:
  assumes "current s = Some t" "proc_at s t = Some cp"
  shows "get_magic_handle h s = Some (if h = 0xFFFFFFFE then Some t
    else if h = 0x7FFFFFFF \<or> h = 0xFFFFFFFF then Some cp else None)"
proof -
  obtain ob where ob: "objects s t = Some ob" "proc_of (body ob) = Some cp"
    using assms(2) by (auto simp: look_def split: option.splits)
  then obtain th where "body ob = Thread th" "t_process th = Some cp" by (cases "body ob") auto
  then show ?thesis using assms(1) ob by (simp add: get_magic_handle_def get_thread_def)
qed

lemma current_alive:
  assumes "server_ok E s" "current_thread E s t cp"
  obtains obt obp where "objects s t = Some obt" "0 < refcount obt" "objects s cp = Some obp" "0 < refcount obp"
  using assms refs_ok_alive [OF server_okD(2) [OF assms(1)], of t]
    refs_ok_alive [OF server_okD(2) [OF assms(1)], of cp]
  unfolding current_thread_def by (metis union_iff)

lemma target_alive:
  assumes ok: "server_ok E s" and c: "current_thread E s t cp" and h: "handle_target s t cp p h = Some (o1, a)"
  obtains ob where "objects s o1 = Some ob" "0 < refcount ob"
proof -
  obtain obt obp where cur: "objects s t = Some obt" "0 < refcount obt" "objects s cp = Some obp" "0 < refcount obp"
    by (rule current_alive [OF ok c])
  show ?thesis
  proof (cases "h = 0xFFFFFFFE \<or> h = 0x7FFFFFFF \<or> h = 0xFFFFFFFF")
    case True
    then have "o1 = t \<or> o1 = cp" using h by (auto simp: handle_target_def split: if_splits)
    then show ?thesis using that cur by blast
  next
    case False
    then obtain q f where "slot s p h = Some (q, (o1, a, f))"
      using h by (auto simp: handle_target_def lookup_handle_def)
    then obtain ht i where "get_table s (fst q) = Some ht" "entry_map ht i = Some (o1, a, f)"
      by (metis prod.collapse slot_Some)
    then show ?thesis using that by (metis entry_alive [OF ok])
  qed
qed

text \<open>The counters of the objects have not run into their limit.\<close>

definition counts_fit :: "server \<Rightarrow> bool" where
  "counts_fit s \<longleftrightarrow> (\<forall>o1 ob. objects s o1 = Some ob \<longrightarrow> int (refcount ob) < INT_MAX)"

lemma get_handle_obj_ok:
  assumes "server_ok E s" "current_thread E s t cp" "get_process s p = Some pr" "counts_fit s"
  shows "case handle_target s t cp p h of
      None \<Rightarrow> get_handle_obj p h acc ty s = Some (None, set_error STATUS_INVALID_HANDLE s)
    | Some (o1, a) \<Rightarrow>
        if a AND acc \<noteq> acc then get_handle_obj p h acc ty s = Some (None, set_error STATUS_ACCESS_DENIED s)
        else if ty \<noteq> None \<and> type_at s o1 \<noteq> ty
        then get_handle_obj p h acc ty s = Some (None, set_error STATUS_OBJECT_TYPE_MISMATCH s)
        else \<exists>ob. objects s o1 = Some ob \<and>
          get_handle_obj p h acc ty s = Some (Some o1, set_obj o1 (ob\<lparr>refcount := refcount ob + 1\<rparr>) s) \<and>
          server_ok (E + {#o1#}) (set_obj o1 (ob\<lparr>refcount := refcount ob + 1\<rparr>) s)"
proof -
  have cur: "current s = Some t" "proc_at s t = Some cp" using assms(2) by (simp_all add: current_thread_def)
  note magic = magic_ok [OF cur, of h]
  note gh = get_handle_ok [OF assms(1,3), of h]
  show ?thesis
  proof (cases "handle_target s t cp p h")
    case None
    then have "slot s p h = None" "get_magic_handle h s = Some None"
      using magic by (auto simp: handle_target_def lookup_handle_def split: if_splits)
    then show ?thesis using None gh by (simp add: get_handle_obj_def)
  next
    case (Some oa)
    obtain o1 a where oa: "oa = (o1, a)" by fastforce
    obtain ob where ob: "objects s o1 = Some ob" "0 < refcount ob"
      using target_alive [OF assms(1,2)] Some oa by metis
    have lim: "int (refcount ob) < INT_MAX" using assms(4) ob(1) by (simp add: counts_fit_def)
    have ok': "server_ok (E + {#o1#}) (set_obj o1 (ob\<lparr>refcount := refcount ob + 1\<rparr>) s)"
      by (rule server_ok_grab [OF assms(1) ob])
    show ?thesis
    proof (cases "get_magic_handle h s = Some None")
      case True
      then obtain q f where sl: "slot s p h = Some (q, (o1, a, f))"
        using magic Some oa by (auto simp: handle_target_def lookup_handle_def split: if_splits)
      obtain tb i where q: "q = (tb, i)" by fastforce
      show ?thesis
        using True Some oa ob lim gh sl read_slot [OF sl [unfolded q]] ok' q
        by (simp add: get_handle_obj_def look_Some grab_object_def)
    next
      case False
      then have "get_magic_handle h s = Some (Some o1)" "a = -1"
        using magic Some oa by (auto simp: handle_target_def split: if_splits)
      then show ?thesis using Some oa ob lim ok' by (simp add: get_handle_obj_def look_Some grab_object_def)
    qed
  qed
qed

text \<open>
  C22: \<^verbatim>\<open>get_handle_obj\<close> finds the object a handle or pseudo-handle means: an unknown handle, missing
  access rights and an object of another type are reported in this order and change nothing
  else; otherwise the object is returned with one more reference, which the caller owns.
\<close>

theorem get_handle_obj_correct:
  assumes "server_ok E s" "current_thread E s t cp" "get_process s p = Some pr" "counts_fit s"
  shows "case handle_target s t cp p h of
      None \<Rightarrow> get_handle_obj p h acc ty s = Some (None, set_error STATUS_INVALID_HANDLE s)
    | Some (o1, a) \<Rightarrow>
        if a AND acc \<noteq> acc then get_handle_obj p h acc ty s = Some (None, set_error STATUS_ACCESS_DENIED s)
        else if ty \<noteq> None \<and> type_at s o1 \<noteq> ty
        then get_handle_obj p h acc ty s = Some (None, set_error STATUS_OBJECT_TYPE_MISMATCH s)
        else \<exists>ob. objects s o1 = Some ob \<and>
          get_handle_obj p h acc ty s = Some (Some o1, set_obj o1 (ob\<lparr>refcount := refcount ob + 1\<rparr>) s) \<and>
          server_ok (E + {#o1#}) (set_obj o1 (ob\<lparr>refcount := refcount ob + 1\<rparr>) s)"
  by (rule get_handle_obj_ok [OF assms])

lemma sample_current: "current_thread {#0, 1, 5#} sample 1 0" "counts_fit sample"
  by (auto simp: current_thread_def counts_fit_def sample_def bare_simps INT_MAX_def split: if_splits)

lemma sample_slots:
  "slot sample 0 4 = Some ((2, 0), (3, EVENT_ALL_ACCESS, -1))"
  "slot sample 0 8 = Some ((2, 1), (6, MUTEX_ALL_ACCESS, -1))"
  "slot sample 0 12 = Some ((2, 2), (7, SEMAPHORE_ALL_ACCESS OR RESERVED_INHERIT, 9))"
  by (simp_all add: slot_def sample_process_get get_table_def sample_objects handle_is_global_def
      handle_to_index_def entry_map_def entry_at_def read_at_def uint_div Let_def)

lemma get_handle_obj_correct_witness:
  "\<exists>s'. get_handle_obj 0 8 MUTEX_MODIFY_STATE (Some mutex_ops) sample = Some (Some 6, s')"
  using get_handle_obj_correct [OF sample_ok sample_current(1) sample_process_get(1) sample_current(2),
      of 8 MUTEX_MODIFY_STATE "Some mutex_ops"]
  by (auto simp: handle_target_def lookup_handle_def sample_slots look_Some [OF sample_objects(7)])

subsection \<open>Closing a handle\<close>

text \<open>Objects outside \<open>X\<close> are unchanged or released.\<close>

definition only_frees :: "oid set \<Rightarrow> server \<Rightarrow> server \<Rightarrow> bool" where
  "only_frees X s s' \<longleftrightarrow> current s' = current s \<and> now s' = now s \<and> (\<forall>x. x \<notin> X \<longrightarrow>
     (case objects s x of None \<Rightarrow> objects s' x = None
      | Some ob \<Rightarrow> (case objects s' x of None \<Rightarrow> 0 < refcount ob | Some ob' \<Rightarrow> obj_shrinks ob ob')))"

lemma only_frees_shrinks:
  assumes "shrinks {} s1 s'" "\<forall>x. x \<notin> X \<longrightarrow> objects s1 x = objects s x" "current s1 = current s" "now s1 = now s"
  shows "only_frees X s s'"
proof -
  have "current s' = current s" "now s' = now s" using shrinks_rest(6,8) [OF assms(1)] assms(3,4) by simp_all
  moreover have "\<forall>x. x \<notin> X \<longrightarrow>
     (case objects s x of None \<Rightarrow> objects s' x = None
      | Some ob \<Rightarrow> (case objects s' x of None \<Rightarrow> 0 < refcount ob | Some ob' \<Rightarrow> obj_shrinks ob ob'))"
    using assms(1,2) unfolding shrinks_def by (metis empty_iff)
  ultimately show ?thesis unfolding only_frees_def by blast
qed

lemma held_survives:
  assumes ok: "server_ok E s'" and sh: "shrinks {} s s'" and ob: "objects s x = Some ob"
    and held: "x \<in># refs s' + E"
  obtains ob' where "objects s' x = Some ob'" "obj_shrinks ob ob'" "0 < refcount ob'"
proof -
  obtain ob' where "objects s' x = Some ob'" "0 < refcount ob'"
    by (rule refs_ok_alive [OF server_okD(2) [OF ok] held])
  then show ?thesis using that shrinks_survivor [OF sh _ ob] by blast
qed

lemma table_survives:
  assumes ok: "server_ok E s'" and sh: "shrinks {} s s'" and p: "p \<in># E" "get_process s p = Some pr"
    and tb: "handles_at s p = Some tb \<or> global_table s = Some tb" and ht: "get_table s tb = Some ht"
  shows "get_table s' tb = Some ht"
proof -
  obtain obp where obp: "objects s p = Some obp" "body obp = Process pr" using p(2) by (auto simp: get_Some_iff)
  obtain obp' where "objects s' p = Some obp'" "obj_shrinks obp obp'"
    by (rule held_survives [OF ok sh obp(1)]) (use p(1) in auto)
  then have "handles_at s' p = handles_at s p"
    using obp body_shrinks_eq [of "body obp" "body obp'"] by (auto simp: look_Some obj_shrinks_def)
  then have "handles_at s' p = Some tb \<or> global_table s' = Some tb"
    using tb shrinks_rest(3) [OF sh] by simp
  then obtain ob' ht' where o': "objects s' tb = Some ob'" "body ob' = Handle_table ht'"
    by (rule table_alive [OF ok]) blast
  obtain ob where ob: "objects s tb = Some ob" "body ob = Handle_table ht" using ht by (auto simp: get_Some_iff)
  have "obj_shrinks ob ob'" using shrinks_survivor [OF sh _ ob(1) o'(1)] by simp
  then have "body ob' = body ob"
    using ob(2) body_shrinks_eq [of "body ob" "body ob'"] by (auto simp: obj_shrinks_def)
  then show ?thesis using o'(1) ob(2) by (simp add: get_table_def)
qed

lemma clear_entry_ok:
  assumes ok: "server_ok E s" and ob: "objects s tb = Some ob" "body ob = Handle_table ht" and t: "table_ok ht"
    and e: "entry_map ht i = Some (o1, a, f)"
  defines "ht' \<equiv> ht\<lparr>entries := (entries ht)[nat i := Some \<lparr>he_ptr = None, he_access = a, he_fd = -1\<rparr>],
    ht_free := min i (ht_free ht)\<rparr>"
  shows "server_ok (E + {#o1#}) (set_obj tb (ob\<lparr>body := Handle_table ht'\<rparr>) s)" "table_ok ht'"
    "entry_map ht' = (entry_map ht)(i := None)"
proof -
  let ?e = "\<lparr>he_ptr = None, he_access = a, he_fd = -1\<rparr>"
  have i: "0 \<le> i" "i \<le> ht_last ht" "i < ht_count ht"
    using entry_map_range [OF _ t, of i] e table_okD(2) [OF t] by auto
  have ht': "ht' = (ht\<lparr>entries := (entries ht)[nat i := Some ?e]\<rparr>)\<lparr>ht_free := min i (ht_free ht)\<rparr>"
    by (simp add: ht'_def)
  show map: "entry_map ht' = (entry_map ht)(i := None)"
    unfolding ht' using entry_map_upd [OF i(1,3), of ?e] by simp
  have at: "entry_at ht' j = (if j = i then Some ?e else entry_at ht j)" for j
    unfolding ht' using entry_at_upd [OF i(1,3), of "Some ?e" j] by simp
  have fields: "ht_last ht' = ht_last ht" "ht_free ht' = min i (ht_free ht)" "ht_count ht' = ht_count ht"
    by (simp_all add: ht' ht_count_def)
  show t': "table_ok ht'"
  proof (rule table_okI)
    fix j
    show "entry_at ht' j \<noteq> None" if "0 \<le> j" "j \<le> ht_last ht'"
      using that fields table_ok_init [OF t, of j] by (simp add: at)
    show "entry_map ht' j = None" if "ht_last ht' < j"
      using that fields table_ok_above [OF t, of j] by (simp add: map)
    show "entry_map ht' j \<noteq> None" if "0 \<le> j" "j < ht_free ht'"
      using that fields table_ok_below [OF t, of j] by (simp add: map)
  qed (use fields table_okD [OF t] i in auto)
  have "table_refs ht' + {#o1#} = table_refs ht"
    unfolding ht' using table_refs_set [OF i(1,3), of ?e] e by simp
  then show "server_ok (E + {#o1#}) (set_obj tb (ob\<lparr>body := Handle_table ht'\<rparr>) s)"
    by (intro server_ok_table [OF ok ob t']) (simp add: ac_simps)
qed

lemma close_handle_ok:
  assumes "server_ok E s" "p \<in># E" "get_process s p = Some pr"
  shows "case slot s p h of
      None \<Rightarrow> close_handle p h want_fd s = Some ((False, None), set_error STATUS_INVALID_HANDLE s)
    | Some ((tb, i), (o1, a, f)) \<Rightarrow>
        if has a RESERVED_CLOSE_PROTECT
        then close_handle p h want_fd s = Some ((False, None), set_error STATUS_HANDLE_NOT_CLOSABLE s)
        else want_fd \<or> f = -1 \<longrightarrow>
          (\<exists>s' ht ht'. close_handle p h want_fd s = Some ((True, if want_fd then Some f else None), s') \<and>
            server_ok E s' \<and> only_frees {tb} s s' \<and> get_error s' = get_error s \<and>
            get_table s tb = Some ht \<and> get_table s' tb = Some ht' \<and> entry_map ht' = (entry_map ht)(i := None))"
proof (cases "slot s p h")
  case None
  then show ?thesis using get_handle_ok [OF assms(1,3), of h] by (simp add: close_handle_def)
next
  case (Some x)
  obtain tb i o1 a f where x: "x = ((tb, i), (o1, a, f))" by (metis prod.exhaust)
  note sl = Some [unfolded x]
  obtain ht where ht: "get_table s tb = Some ht" "entry_map ht i = Some (o1, a, f)"
    "handles_at s p = Some tb \<or> global_table s = Some tb" by (rule slot_Some [OF sl])
  obtain ob where ob: "objects s tb = Some ob" "body ob = Handle_table ht" "table_ok ht"
    by (rule table_alive [OF assms(1) ht(3)]) (use ht(1) in \<open>simp add: get_table_def\<close>)
  have i: "0 \<le> i" "i < ht_count ht" using entry_map_range [OF _ ob(3), of i] ht(2) table_okD(2) [OF ob(3)] by auto
  define e where "e = \<lparr>he_ptr = Some o1, he_access = a, he_fd = f\<rparr>"
  define ht1 where "ht1 = ht\<lparr>entries := (entries ht)[nat i := Some \<lparr>he_ptr = None, he_access = a, he_fd = -1\<rparr>],
    ht_free := min i (ht_free ht)\<rparr>"
  define s1 where "s1 = set_obj tb (ob\<lparr>body := Handle_table ht1\<rparr>) s"
  have c: "server_ok (E + {#o1#}) s1" "table_ok ht1" "entry_map ht1 = (entry_map ht)(i := None)"
    using clear_entry_ok [OF assms(1) ob ht(2)] by (simp_all add: s1_def ht1_def)
  have last: "ht_last ht1 = ht_last ht" by (simp add: ht1_def)
  have o1': "objects s1 tb = Some (ob\<lparr>body := Handle_table ht1\<rparr>)" by (simp add: s1_def)
  have g1: "get_table s1 tb = Some ht1" by (simp add: get_table_def o1')
  have free: "(if i < ht_free ht then (ht\<lparr>entries := es\<rparr>)\<lparr>ht_free := i\<rparr> else ht\<lparr>entries := es\<rparr>) =
      ht\<lparr>entries := es, ht_free := min i (ht_free ht)\<rparr>" for es
    by (cases ht) (simp add: min_def)
  have unf: "close_handle p h want_fd s =
      (if has a RESERVED_CLOSE_PROTECT then Some ((False, None), set_error STATUS_HANDLE_NOT_CLOSABLE s)
       else if \<not> want_fd \<and> f \<noteq> -1 then do { s \<leftarrow> set_entry tb i (e\<lparr>he_ptr := None\<rparr>) s; Some ((True, None), s) }
       else do { s \<leftarrow> (if i = ht_last ht then shrink_handle_table tb s1 else Some s1);
                 s \<leftarrow> release_object o1 s;
                 Some ((True, if want_fd then Some f else None), s) })"
    using get_handle_ok [OF assms(1,3), of h] sl read_slot [OF sl] ob(1,2) i
    by (auto simp: close_handle_def no_close_handle_def set_entry_def get_table_def write_at_def set_body_def
        ht_count_def s1_def ht1_def e_def set_obj_def Let_def free [symmetric])
  show ?thesis
  proof (cases "has a RESERVED_CLOSE_PROTECT \<or> \<not> want_fd \<and> f \<noteq> -1")
    case True
    then show ?thesis using Some x unf by auto
  next
    case False
    obtain s2 ht2 where s2: "(if i = ht_last ht then shrink_handle_table tb s1 else Some s1) = Some s2"
      "server_ok (E + {#o1#}) s2" "get_table s2 tb = Some ht2" "entry_map ht2 = (entry_map ht)(i := None)"
      "get_error s2 = get_error s1" "\<forall>x. x \<noteq> tb \<longrightarrow> objects s2 x = objects s x" "same_env s1 s2"
    proof (cases "i = ht_last ht")
      case True
      obtain s2 ht2 where r: "shrink_handle_table tb s1 = Some s2" "server_ok (E + {#o1#}) s2"
        "table_step tb ht2 s1 s2" "entry_map ht2 = entry_map ht1" "get_error s2 = get_error s1"
        using shrink_ok [OF c(1) o1' _ c(2)] by auto
      have "\<forall>x. x \<noteq> tb \<longrightarrow> objects s2 x = objects s x" "same_env s1 s2"
        using r(3) by (auto simp: table_step_def s1_def)
      then show ?thesis using that [of s2 ht2] r True c(3) table_step_get [OF r(3)] by simp
    next
      case False
      then show ?thesis using that [of s1 ht1] c g1 by (simp add: s1_def)
    qed
    from rel.rel_ok [OF s2(2) TrueI]
    obtain s3 where s3: "release_object o1 s2 = Some s3" "server_ok E s3" "shrinks {} s2 s3" by blast
    have "p \<noteq> tb" using assms(3) ob(1,2) by (auto simp: get_Some_iff)
    then have p2: "p \<noteq> tb \<and> get_process s2 p = Some pr"
      using s2(6) assms(3) by (simp add: get_process_def)
    have tb2: "handles_at s2 p = Some tb \<or> global_table s2 = Some tb"
      using ht(3) p2 assms(3) s2(7) by (auto simp: handles_at_get same_env_def s1_def)
    have "get_table s3 tb = Some ht2"
      by (rule table_survives [OF s3(2,3) assms(2) conjunct2 [OF p2] tb2 s2(3)])
    moreover have "only_frees {tb} s s3" by (rule only_frees_shrinks [OF s3(3)]) (use s2(6,7) in \<open>simp_all add: same_env_def s1_def\<close>)
    moreover have "get_error s3 = get_error s"
      using shrinks_rest(10) [OF s3(3)] s2(5) by (simp add: s1_def)
    moreover have "close_handle p h want_fd s = Some ((True, if want_fd then Some f else None), s3)"
      using unf False s2(1) s3(1) by auto
    ultimately show ?thesis using Some x False s3(2) ht(1) s2(4) by auto
  qed
qed

text \<open>
  C23: \<^verbatim>\<open>close_handle\<close> of a handle that can be closed empties its entry and no other, returns the
  cached file descriptor when the caller asks for it, and gives up the reference of the entry:
  an object is freed only when its last reference goes.  A handle that is not in use or is
  protected is reported and nothing changes.
\<close>

theorem close_handle_correct:
  assumes "server_ok E s" "p \<in># E" "get_process s p = Some pr"
  shows "case slot s p h of
      None \<Rightarrow> close_handle p h want_fd s = Some ((False, None), set_error STATUS_INVALID_HANDLE s)
    | Some ((tb, i), (o1, a, f)) \<Rightarrow>
        if has a RESERVED_CLOSE_PROTECT
        then close_handle p h want_fd s = Some ((False, None), set_error STATUS_HANDLE_NOT_CLOSABLE s)
        else want_fd \<or> f = -1 \<longrightarrow>
          (\<exists>s' ht ht'. close_handle p h want_fd s = Some ((True, if want_fd then Some f else None), s') \<and>
            server_ok E s' \<and> only_frees {tb} s s' \<and> get_error s' = get_error s \<and>
            get_table s tb = Some ht \<and> get_table s' tb = Some ht' \<and> entry_map ht' = (entry_map ht)(i := None))"
  by (rule close_handle_ok [OF assms])

lemma close_handle_correct_witness:
  "\<exists>s'. close_handle 0 8 True sample = Some ((True, Some (-1)), s') \<and> server_ok {#0, 1, 5#} s'"
  using close_handle_correct [OF sample_ok _ sample_process_get(1), of 8 True]
  by (auto simp: sample_slots has_def)

text \<open>
  C24: A handle whose file descriptor is cached, closed by a caller that cannot take the
  descriptor, is lost: the call reports success, the handle is no longer valid, and the count
  of the object still includes the reference of the entry that no longer refers to it.
\<close>

theorem close_handle_leaks_reference:
  assumes "server_ok E s" "get_process s p = Some pr" "slot s p h = Some ((tb, i), (o1, a, f))"
    "\<not> has a RESERVED_CLOSE_PROTECT" "f \<noteq> -1"
  shows "\<exists>s'. close_handle p h False s = Some ((True, None), s') \<and> slot s' p h = None \<and>
    refs s = refs s' + {#o1#} \<and> (\<forall>x. map_option refcount (objects s' x) = map_option refcount (objects s x))"
proof -
  note sl = assms(3)
  obtain ht where ht: "get_table s tb = Some ht" "entry_map ht i = Some (o1, a, f)"
    "handles_at s p = Some tb \<or> global_table s = Some tb" by (rule slot_Some [OF sl])
  obtain ob where ob: "objects s tb = Some ob" "body ob = Handle_table ht" "table_ok ht"
    by (rule table_alive [OF assms(1) ht(3)]) (use ht(1) in \<open>simp add: get_table_def\<close>)
  have i: "0 \<le> i" "i < ht_count ht" using entry_map_range [OF _ ob(3), of i] ht(2) table_okD(2) [OF ob(3)] by auto
  let ?e = "\<lparr>he_ptr = None, he_access = a, he_fd = f\<rparr>"
  define ht1 where "ht1 = ht\<lparr>entries := (entries ht)[nat i := Some ?e]\<rparr>"
  define s1 where "s1 = set_obj tb (ob\<lparr>body := Handle_table ht1\<rparr>) s"
  have run: "close_handle p h False s = Some ((True, None), s1)"
    using get_handle_ok [OF assms(1,2), of h] sl read_slot [OF sl] ob(1,2) i assms(4,5)
    by (simp add: close_handle_def no_close_handle_def set_entry_def get_table_def write_at_def set_body_def
        ht_count_def s1_def ht1_def Let_def)
  have map: "entry_map ht1 = (entry_map ht)(i := None)"
    unfolding ht1_def using entry_map_upd [OF i, of ?e] by simp
  have "p \<noteq> tb" using assms(2) ob by (auto simp: get_Some_iff)
  then have "get_process s1 p = get_process s p" "get_table s1 tb = Some ht1" "global_table s1 = global_table s"
    by (auto simp: s1_def get_process_def get_table_def)
  then have "slot s1 p h = None"
    using sl map ht(1) assms(2) by (auto simp: slot_def Let_def bind_eq_Some_conv split: if_splits)
  moreover have "refs s = refs s1 + {#o1#}"
  proof -
    have "tb < next_oid s" by (rule server_ok_range [OF assms(1) ob(1)])
    from total_upd [OF this, of "refs_at s" "obj_refs (ob\<lparr>body := Handle_table ht1\<rparr>)"]
    have "refs s1 + obj_refs ob = refs s + obj_refs (ob\<lparr>body := Handle_table ht1\<rparr>)"
      using ob(1) by (simp add: refs_def look_Some s1_def ac_simps)
    moreover have "table_refs ht1 + {#o1#} = table_refs ht"
      unfolding ht1_def using table_refs_set [OF i, of ?e] ht(2) by simp
    then have "obj_refs ob = obj_refs (ob\<lparr>body := Handle_table ht1\<rparr>) + {#o1#}"
      using ob(2) by (simp add: obj_refs_def)
    ultimately show ?thesis by simp
  qed
  moreover have "map_option refcount (objects s1 x) = map_option refcount (objects s x)" for x
    using ob(1) by (simp add: s1_def)
  ultimately show ?thesis using run by blast
qed

lemma close_handle_leaks_reference_witness:
  "\<exists>s'. close_handle 0 12 False sample = Some ((True, None), s') \<and> slot s' 0 12 = None \<and>
    refs sample = refs s' + {#7#} \<and> map_option refcount (objects s' 7) = Some 1"
proof -
  have "\<not> has (SEMAPHORE_ALL_ACCESS OR RESERVED_INHERIT) RESERVED_CLOSE_PROTECT" "(9::int) \<noteq> -1"
    by (simp_all add: has_def)
  from close_handle_leaks_reference [OF sample_ok sample_process_get(1) sample_slots(3) this]
  obtain s' where s': "close_handle 0 12 False sample = Some ((True, None), s')" "slot s' 0 12 = None"
    "refs sample = refs s' + {#7#}" "map_option refcount (objects s' 7) = map_option refcount (objects sample 7)"
    by blast
  then show ?thesis by (intro exI [of _ s']) (simp add: sample_objects)
qed

end
