(* ===== verification/Create_Correct.thy ===== *)
theory Create_Correct
  imports Handles_Ops
begin

text \<open>
  New objects keep the invariant of the server: allocating an object, naming it in a
  directory, and finding it again by its name (\<^verbatim>\<open>server/object.c\<close>).
\<close>

subsection \<open>Allocating an object\<close>

text \<open>What a body must be for an object that nothing is linked to yet.\<close>

definition newborn :: "server \<Rightarrow> obj_body \<Rightarrow> bool" where
  "newborn s b \<longleftrightarrow> body_ok b \<and> w_entries b = [] \<and> owned b = [] \<and> owned_by b = None \<and> threads_of b = [] \<and>
     handles_of b = None \<and> \<not> busy b \<and> (\<forall>o1. timeouts_of o1 b = {#}) \<and>
     (case proc_of b of None \<Rightarrow> ops b \<noteq> thread_ops | Some p \<Rightarrow> type_at s p = Some process_ops) \<and>
     (\<forall>n. space_of b = Some n \<longrightarrow> n < next_addr s \<and> (\<exists>buckets. namespaces s n = Some buckets \<and> buckets \<noteq> []) \<and>
        (\<forall>d. space_at s d \<noteq> Some n))"

definition new_object :: "obj_body \<Rightarrow> object" where
  "new_object b = \<lparr>refcount = 1, wait_queue = [], obj_name = None, body = b\<rparr>"

lemma new_object_simps [simp]:
  "refcount (new_object b) = 1" "wait_queue (new_object b) = []" "obj_name (new_object b) = None"
  "body (new_object b) = b" "obj_refs (new_object b) = out_refs b"
  by (simp_all add: new_object_def obj_refs_def)

lemma objects_next: "server_ok E s \<Longrightarrow> objects s (next_oid s) = None"
  by (metis less_irrefl not_Some_eq server_ok_range)

lemma look_next: "server_ok E s \<Longrightarrow> look d f s (next_oid s) = d"
  by (simp add: look_None objects_next)

lemma server_ok_new:
  assumes ok: "server_ok (E + out_refs b) s" and b: "newborn s b"
  shows "server_ok (E + {#next_oid s#}) ((set_obj (next_oid s) (new_object b) s)\<lparr>next_oid := Suc (next_oid s)\<rparr>)"
proof -
  note ok' = server_okD [OF ok]
  note B = b [unfolded newborn_def]
  define n where "n = next_oid s"
  define s2 where "s2 = (set_obj n (new_object b) s)\<lparr>next_oid := Suc n\<rparr>"
  have objs: "objects s2 = (objects s)(n \<mapsto> new_object b)" by (simp add: s2_def)
  have U: "look d f s2 = (look d f s)(n := f n (new_object b))" for d :: 'z and f
    by (auto simp: look_def objs)
  have N: "look d f s n = d" for d :: 'z and f using look_next [OF ok] by (simp add: n_def)
  have R: "next_oid s2 = Suc n" "next_addr s2 = next_addr s" "namespaces s2 = namespaces s"
    "tolowerW s2 = tolowerW s" "timeout_list s2 = timeout_list s" "expired s2 = expired s" "global_table s2 = global_table s"
    "root_directory s2 = root_directory s" by (simp_all add: s2_def)
  have L: "linked s2 = linked s" by (intro ext) (simp add: linked_def R)
  have H: "get_name_hash s2 = get_name_hash s" by (rule get_name_hash_cong) (simp_all add: R)
  have same: "queue_at s2 = queue_at s" "entries_at s2 = entries_at s" "owned_at s2 = owned_at s"
    "owner_at s2 = owner_at s" "threads_at s2 = threads_at s" "busy_at s2 = busy_at s"
    "handles_at s2 = handles_at s" "name_at s2 = name_at s" "timeouts_at s2 = timeouts_at s"
    unfolding U using B by (simp_all add: fun_eq_iff N)
  have T: "type_at s2 = (type_at s)(n := Some (ops b))" "proc_at s2 = (proc_at s)(n := proc_of b)"
    "space_at s2 = (space_at s)(n := space_of b)" "alive_at s2 = (alive_at s)(n := True)"
    unfolding U by simp_all
  have Tn: "type_at s n = None" "proc_at s n = None" "space_at s n = None" by (rule N)+
  have W: "wait_entries s2 = wait_entries s" "timeouts s2 = timeouts s"
    unfolding wait_entries_def timeouts_def same(2,9) R(1) n_def total_def using look_next [OF ok] by simp_all
  have "alloc_ok s2"
    unfolding alloc_ok_def objs R
  proof (intro allI impI)
    fix x ob assume "((objects s)(n \<mapsto> new_object b)) x = Some ob"
    then show "x < Suc n \<and> (0 < refcount ob \<longrightarrow> body_ok (body ob))"
      using ok'(1) B by (auto simp: alloc_ok_def n_def less_Suc_eq split: if_splits)
  qed
  moreover have "refs_ok (E + {#n#}) s2"
  proof -
    have "refs s2 = refs s + out_refs b"
      unfolding refs_def U R total_alloc by (simp add: n_def ac_simps)
    moreover have "count (refs s + (E + out_refs b)) x = look 0 (\<lambda>_. refcount) s x" for x
      using ok'(2) unfolding refs_ok_def by blast
    ultimately show ?thesis unfolding refs_ok_def U using N [of 0 "\<lambda>_. refcount"] by (auto simp: ac_simps)
  qed
  moreover have "waits_ok s2"
    unfolding waits_ok_def same W R T using ok'(3) Tn unfolding waits_ok_def
    by (metis (no_types, lifting) fun_upd_other option.distinct(1))
  moreover have "threads_ok s2"
  proof -
    have p: "proc_at s t = Some p \<Longrightarrow> p \<noteq> n \<and> t \<noteq> n" for t p
      using threads_ok_type [OF ok'(4)] Tn by (metis option.distinct(1))
    have m: "t \<in> threads_at s p \<Longrightarrow> t \<noteq> n" for t p
      using threads_ok_member [OF ok'(4)] p by blast
    have np: "proc_of b = Some p \<Longrightarrow> type_at s p = Some process_ops \<and> p \<noteq> n" for p
      using B Tn(1) by auto
    have nt: "ops b = thread_ops \<Longrightarrow> proc_of b \<noteq> None" using B by (auto split: option.splits)
    have "busy_at s t \<Longrightarrow> t \<noteq> n" for t using threads_ok_busy [OF ok'(4)] p by blast
    then show ?thesis
      unfolding threads_ok_def same T
      using threads_okD [OF ok'(4)] p m np nt by (auto simp: fun_upd_def)
  qed
  moreover have "mutexes_ok s2" unfolding mutexes_ok_def same using ok'(5) unfolding mutexes_ok_def .
  moreover have "timeouts_ok s2" unfolding timeouts_ok_def W R using ok'(6) unfolding timeouts_ok_def .
  moreover have "names_ok s2"
  proof -
    have s: "space_at s d = Some k \<Longrightarrow> d \<noteq> n" for d k using Tn(3) by auto
    have bs: "space_of b = Some k \<Longrightarrow> k < next_addr s \<and> (\<exists>buckets. namespaces s k = Some buckets \<and> buckets \<noteq> []) \<and>
        (\<forall>d. space_at s d \<noteq> Some k)" for k using B by blast
    show ?thesis
      unfolding names_ok_def same R L H T
    proof (intro conjI allI impI)
      show "\<exists>d. n_parent nm = Some d \<and> ((space_at s)(n := space_of b)) d = Some (n_space nm)"
        if nm: "name_at s o1 = Some nm" for o1 nm
        using names_ok_parent [OF ok'(7) nm] s by auto
      show "d = d'" if "((space_at s)(n := space_of b)) d = Some k" "((space_at s)(n := space_of b)) d' = Some k" for d d' k
        using that bs names_ok_unique [OF ok'(7)] by (auto split: if_splits)
      show "\<exists>buckets. namespaces s k = Some buckets \<and> buckets \<noteq> []"
        if "((space_at s)(n := space_of b)) d = Some k" "((alive_at s)(n := True)) d" for d k
        using that bs names_ok_alive [OF ok'(7)] by (auto split: if_splits)
      show "k < next_addr s" if "((space_at s)(n := space_of b)) d = Some k" for d k
        using that bs names_ok_space [OF ok'(7)] by (auto split: if_splits)
    qed (use names_okD [OF ok'(7)] in blast)+
  qed
  moreover have "typed_ok s2"
    unfolding typed_ok_def same R T
  proof (intro conjI allI impI)
    fix p h assume "handles_at s p = Some h"
    then show "((type_at s)(n := Some (ops b))) h = Some handle_table_ops" "threads_at s p \<noteq> {}"
      using typed_ok_handles [OF ok'(8)] Tn(1) by (auto simp: fun_upd_def)
  next
    fix h assume "global_table s = Some h"
    then show "((type_at s)(n := Some (ops b))) h = Some handle_table_ops"
      using typed_ok_global [OF ok'(8)] Tn(1) by (auto simp: fun_upd_def)
  next
    fix d assume "root_directory s = Some d"
    then show "((space_at s)(n := space_of b)) d \<noteq> None"
      using typed_ok_root [OF ok'(8)] Tn(3) by (auto simp: fun_upd_def)
  qed
  ultimately show ?thesis by (simp add: server_ok_def links_ok_def s2_def n_def)
qed

lemma newborn_cong:
  "objects s' = objects s \<Longrightarrow> namespaces s' = namespaces s \<Longrightarrow> next_addr s' = next_addr s \<Longrightarrow>
   newborn s' b \<longleftrightarrow> newborn s b"
  by (simp add: newborn_def look_cong [of s' s] cong: option.case_cong)

lemma alloc_object_ok:
  assumes ok: "server_ok (E + out_refs b) s" and b: "newborn s b" and run: "alloc_object b s = (r, s')"
  shows "case r of
      None \<Rightarrow> server_ok (E + out_refs b) s' \<and> objects s' = objects s \<and> same_env s s' \<and>
        get_error s' = STATUS_NO_MEMORY
    | Some n \<Rightarrow> n = next_oid s \<and> server_ok (E + {#n#}) s' \<and> objects s' = (objects s)(n \<mapsto> new_object b) \<and>
        same_env (s\<lparr>next_oid := Suc n\<rparr>) s' \<and> get_error s' = get_error s"
proof -
  obtain m s1 where m: "mem_alloc s = (m, s1)" by fastforce
  have mo: "env.more s1 = env.more s" using m by (rule mem_alloc_more)
  have step: "alloc_step m s s1" by (rule mem_alloc_step [OF m])
  have s1: "server_ok (E + out_refs b) s1" using ok server_ok_more [OF mo] by simp
  note F = more_fields [OF mo]
  have b1: "newborn s1 b" using b newborn_cong [of s1 s b] F by simp
  have err: "m \<Longrightarrow> get_error s1 = get_error s" "\<not> m \<Longrightarrow> get_error s1 = STATUS_NO_MEMORY"
    using m by (auto simp: mem_alloc_def malloc_def get_error_set_error split: list.splits prod.splits if_splits)
      (simp add: get_error_def split: option.split)
  show ?thesis
  proof (cases m)
    case False
    then have "r = None" "s' = s1" using run m by (simp_all add: alloc_object_def)
    then show ?thesis using s1 F(1) err(2) False same_env_alloc [OF step] by simp
  next
    case True
    have "r = Some (next_oid s1)" and s': "s' = (set_obj (next_oid s1) (new_object b) s1)\<lparr>next_oid := Suc (next_oid s1)\<rparr>"
      using run m True by (simp_all add: alloc_object_def new_object_def)
    moreover have "get_error s' = get_error s1" by (simp add: s' get_error_def set_obj_def split: option.split)
    then have "get_error s' = get_error s" using err(1) [OF True] by simp
    moreover have "same_env (s\<lparr>next_oid := Suc (next_oid s1)\<rparr>) s'"
      using same_env_alloc [OF step] by (simp add: same_env_def s')
    ultimately show ?thesis using server_ok_new [OF s1 b1] F(1,2) by simp
  qed
qed

end
