(* ===== verification/Directory.thy ===== *)
theory Directory
  imports Handles
begin

text \<open>
  Directories and symbolic links (\<^verbatim>\<open>server/directory.c\<close>, \<^verbatim>\<open>server/symlink.c\<close>): resolving a path
  in the tree of object names, and creating and opening objects by path.

  A \<^verbatim>\<open>struct unicode_str\<close> is \<open>None\<close> when its pointer is \<^verbatim>\<open>NULL\<close>, which the code tells from
  an empty string, and otherwise the string.
\<close>

type_synonym unicode_str = "wchar list option"

abbreviation backslash :: wchar where "backslash \<equiv> 92"

definition chars :: "unicode_str \<Rightarrow> wchar list" where
  "chars name = (case name of None \<Rightarrow> [] | Some w \<Rightarrow> w)"

definition HASH_SIZE :: nat where "HASH_SIZE = 7"

subsection \<open>Looking up one name\<close>

text \<open>
  The result is the object found, if any, and what is left of the path: \<open>None\<close> behind the
  last element.  A directory without a name space is used only while it is created.
\<close>

definition directory_lookup_name :: "oid \<Rightarrow> unicode_str \<Rightarrow> 32 word \<Rightarrow> server
    \<Rightarrow> (oid option \<times> unicode_str \<times> server) option" where
  "directory_lookup_name dir name attr s =
     do { entries \<leftarrow> get_namespace s dir;
          let str = chars name;
          let p = backslash \<in> set str;
          let tmp = takeWhile (\<lambda>c. c \<noteq> backslash) str;
          (found, s) \<leftarrow> (if tmp = [] then Some (None, s)
                         else do { ns \<leftarrow> entries; find_object ns tmp attr s });
          case found of
            Some o1 \<Rightarrow> Some (Some o1, if p then Some (tl (dropWhile (\<lambda>c. c \<noteq> backslash) str)) else None, s)
          | None \<Rightarrow> Some (None, name,
              if name \<noteq> None \<and> tmp = [] then set_error STATUS_OBJECT_NAME_INVALID s
              else if name \<noteq> None \<and> p then set_error STATUS_OBJECT_PATH_NOT_FOUND s
              else s) }"

definition no_lookup_name :: "oid \<Rightarrow> unicode_str \<Rightarrow> 32 word \<Rightarrow> server
    \<Rightarrow> (oid option \<times> unicode_str \<times> server) option" where
  "no_lookup_name o1 name attr s = Some (None, name, s)"

definition get_symlink :: "server \<Rightarrow> oid \<Rightarrow> wchar list option" where
  "get_symlink s o1 = do { ob \<leftarrow> objects s o1; case body ob of Symlink x \<Rightarrow> Some x | _ \<Rightarrow> None }"

subsection \<open>Resolving a path\<close>

text \<open>
  The start of \<^verbatim>\<open>find_object_dir\<close>: the directory to start from, with a reference for the
  caller, and the path relative to it; or nothing, with the error set.
\<close>

definition path_start :: "oid option \<Rightarrow> wchar list \<Rightarrow> server \<Rightarrow> ((oid \<times> wchar list) option \<times> server) option" where
  "path_start root name s =
     (case root of
        Some r \<Rightarrow>
          if name \<noteq> [] \<and> hd name = backslash then Some (None, set_error STATUS_OBJECT_PATH_SYNTAX_BAD s)
          else do { s \<leftarrow> grab_object r s; Some (Some (r, name), s) }
      | None \<Rightarrow>
          if name = [] \<or> hd name \<noteq> backslash then Some (None, set_error STATUS_OBJECT_PATH_SYNTAX_BAD s)
          else do { r \<leftarrow> root_directory s; s \<leftarrow> grab_object r s; Some (Some (r, tl name), s) })"

text \<open>
  The loop of \<^verbatim>\<open>find_object_dir\<close> at the object \<open>parent\<close>, with \<^verbatim>\<open>symlink_lookup_name\<close> written
  out where it is called: a symbolic link starts the resolution of its target from the root
  directory.  A link that leads back to itself makes the C function call itself forever; the
  partial function is then \<open>None\<close>.
\<close>

partial_function (option) resolve :: "oid \<Rightarrow> unicode_str \<Rightarrow> 32 word \<Rightarrow> server
    \<Rightarrow> ((oid \<times> unicode_str) option \<times> server) option" where
  "resolve parent name attr s =
     do { ob \<leftarrow> objects s parent;
          (obj, name, s) \<leftarrow>
            (case body ob of
               Directory _ \<Rightarrow> directory_lookup_name parent name attr s
             | Symlink target_str \<Rightarrow>
                 if has attr OBJ_OPENLINK then Some (None, name, s)
                 else do {
                   (start, s) \<leftarrow> path_start None target_str s;
                   case start of None \<Rightarrow> Some (None, name, s)
                   | Some (r, rest) \<Rightarrow> do {
                       (target, s) \<leftarrow> (if rest = [] then Some (Some (r, Some rest), s)
                                       else resolve r (Some rest) attr s);
                       case target of None \<Rightarrow> Some (None, name, s)
                       | Some (t, name_left) \<Rightarrow>
                           if chars name_left \<noteq> []
                           then do { s \<leftarrow> release_object t s;
                                     Some (None, name, set_error STATUS_OBJECT_PATH_NOT_FOUND s) }
                           else Some (Some t, name, s) } }
             | _ \<Rightarrow> no_lookup_name parent name attr s);
          case obj of
            Some o1 \<Rightarrow> do { s \<leftarrow> release_object parent s; resolve o1 name attr s }
          | None \<Rightarrow>
              if get_error s \<noteq> 0 then do { s \<leftarrow> release_object parent s; Some (None, s) }
              else Some (Some (parent, name), s) }"

definition find_object_dir :: "oid option \<Rightarrow> wchar list \<Rightarrow> 32 word \<Rightarrow> server
    \<Rightarrow> ((oid \<times> unicode_str) option \<times> server) option" where
  "find_object_dir root name attr s =
     do { (start, s) \<leftarrow> path_start root name s;
          case start of None \<Rightarrow> Some (None, s)
          | Some (parent, rest) \<Rightarrow>
              if rest = [] then Some (Some (parent, Some rest), s) else resolve parent (Some rest) attr s }"

definition symlink_lookup_name :: "oid \<Rightarrow> unicode_str \<Rightarrow> 32 word \<Rightarrow> server
    \<Rightarrow> (oid option \<times> unicode_str \<times> server) option" where
  "symlink_lookup_name obj name attr s =
     do { target_str \<leftarrow> get_symlink s obj;
          if has attr OBJ_OPENLINK then Some (None, name, s) else do {
          (target, s) \<leftarrow> find_object_dir None target_str attr s;
          case target of None \<Rightarrow> Some (None, name, s)
          | Some (t, name_left) \<Rightarrow>
              if chars name_left \<noteq> []
              then do { s \<leftarrow> release_object t s; Some (None, name, set_error STATUS_OBJECT_PATH_NOT_FOUND s) }
              else Some (Some t, name, s) } }"

subsection \<open>Creating and opening objects by path\<close>

definition create_named_object_dir :: "oid option \<Rightarrow> wchar list \<Rightarrow> 32 word \<Rightarrow> obj_body \<Rightarrow> server
    \<Rightarrow> (oid option \<times> server) option" where
  "create_named_object_dir root name attributes b s =
     (if name = [] then Some (alloc_object b s) else
      do { (obj, s) \<leftarrow> find_object_dir root name attributes s;
           case obj of None \<Rightarrow> Some (None, s)
           | Some (o1, new_name) \<Rightarrow> do {
               ob \<leftarrow> objects s o1;
               if chars new_name = []
               then (if has attributes OBJ_OPENIF \<and> ops (body ob) = ops b
                     then Some (Some o1, set_error STATUS_OBJECT_NAME_EXISTS s)
                     else do {
                       s \<leftarrow> release_object o1 s;
                       Some (None, set_error (if has attributes OBJ_OPENIF then STATUS_OBJECT_TYPE_MISMATCH
                                              else STATUS_OBJECT_NAME_COLLISION) s) })
               else do {
                 (new_obj, s) \<leftarrow>
                   (if ops (body ob) \<noteq> directory_ops
                    then Some (None, set_error STATUS_OBJECT_TYPE_MISMATCH s)
                    else do {
                      entries \<leftarrow> get_namespace s o1;
                      ns \<leftarrow> entries;
                      (new_obj, s) \<leftarrow> create_object ns b (chars new_name) (Some o1) s;
                      Some (new_obj, if new_obj \<noteq> None then clear_error s else s) });
                 s \<leftarrow> release_object o1 s;
                 Some (new_obj, s) } } })"

definition open_object_dir :: "oid option \<Rightarrow> wchar list \<Rightarrow> 32 word \<Rightarrow> obj_ops option \<Rightarrow> server
    \<Rightarrow> (oid option \<times> server) option" where
  "open_object_dir root name attr type s =
     do { (obj, s) \<leftarrow> find_object_dir root name attr s;
          case obj of None \<Rightarrow> Some (None, s)
          | Some (o1, name_left) \<Rightarrow> do {
              ob \<leftarrow> objects s o1;
              if chars name_left \<noteq> []
              then do { s \<leftarrow> release_object o1 (set_error STATUS_OBJECT_NAME_NOT_FOUND s); Some (None, s) }
              else if type \<noteq> None \<and> Some (ops (body ob)) \<noteq> type
              then do { s \<leftarrow> release_object o1 (set_error STATUS_OBJECT_TYPE_MISMATCH s); Some (None, s) }
              else Some (Some o1, s) } }"

definition get_directory_obj :: "oid \<Rightarrow> obj_handle \<Rightarrow> 32 word \<Rightarrow> server \<Rightarrow> (oid option \<times> server) option" where
  "get_directory_obj process handle acc s = get_handle_obj process handle acc (Some directory_ops) s"

definition create_directory :: "oid option \<Rightarrow> wchar list \<Rightarrow> 32 word \<Rightarrow> nat \<Rightarrow> server
    \<Rightarrow> (oid option \<times> server) option" where
  "create_directory root name attr hash_size s =
     do { (dir, s) \<leftarrow> create_named_object_dir root name attr (Directory None) s;
          case dir of None \<Rightarrow> Some (None, s)
          | Some d \<Rightarrow>
              if get_error s = STATUS_OBJECT_NAME_EXISTS then Some (Some d, s)
              else (case create_namespace hash_size s of
                  (Some ns, s) \<Rightarrow> do { s \<leftarrow> set_body d (Directory (Some ns)) s; Some (Some d, s) }
                | (None, s) \<Rightarrow> do { s \<leftarrow> release_object d s; Some (None, s) }) }"

definition create_symlink :: "oid option \<Rightarrow> wchar list \<Rightarrow> 32 word \<Rightarrow> wchar list \<Rightarrow> server
    \<Rightarrow> (oid option \<times> server) option" where
  "create_symlink root name attr target s =
     (if target = [] then Some (None, set_error STATUS_INVALID_PARAMETER s) else
      do { (symlink, s) \<leftarrow> create_named_object_dir root name attr (Symlink []) s;
           case symlink of None \<Rightarrow> Some (None, s)
           | Some l \<Rightarrow>
               if get_error s = STATUS_OBJECT_NAME_EXISTS then Some (Some l, s)
               else (case memdup target s of
                   (Some t, s) \<Rightarrow> do { s \<leftarrow> set_body l (Symlink t) s; Some (Some l, s) }
                 | (None, s) \<Rightarrow> do { s \<leftarrow> release_object l s; Some (None, s) }) })"

subsection \<open>Requests\<close>

text \<open>
  What the handlers for named objects of all types share: the root directory is looked up
  by its handle, the object is created or opened, and gets a handle.
\<close>

definition with_rootdir :: "obj_handle \<Rightarrow> (oid option \<Rightarrow> server \<Rightarrow> (obj_handle \<times> server) option) \<Rightarrow> server
    \<Rightarrow> (obj_handle \<times> server) option" where
  "with_rootdir rootdir act s =
     (if rootdir = 0 then act None s else
      do { p \<leftarrow> current_process s;
           (root, s) \<leftarrow> get_directory_obj p rootdir 0 s;
           case root of None \<Rightarrow> Some (0, s)
           | Some r \<Rightarrow> do { (h, s) \<leftarrow> act (Some r) s; s \<leftarrow> release_object r s; Some (h, s) } })"

definition handle_for :: "(oid option \<times> server) option \<Rightarrow> 32 word \<Rightarrow> 32 word \<Rightarrow> (obj_handle \<times> server) option" where
  "handle_for made acc attributes =
     do { (obj, s) \<leftarrow> made;
          case obj of None \<Rightarrow> Some (0, s)
          | Some o1 \<Rightarrow> do {
              p \<leftarrow> current_process s;
              (h, s) \<leftarrow> alloc_handle p o1 acc attributes s;
              s \<leftarrow> release_object o1 s;
              Some (h, s) } }"

definition req_create_directory :: "obj_handle \<Rightarrow> wchar list \<Rightarrow> 32 word \<Rightarrow> 32 word \<Rightarrow> server
    \<Rightarrow> (obj_handle \<times> server) option" where
  "req_create_directory rootdir name acc attributes =
     with_rootdir rootdir (\<lambda>root s. handle_for (create_directory root name attributes HASH_SIZE s) acc attributes)"

definition req_open_directory :: "obj_handle \<Rightarrow> wchar list \<Rightarrow> 32 word \<Rightarrow> 32 word \<Rightarrow> server
    \<Rightarrow> (obj_handle \<times> server) option" where
  "req_open_directory rootdir name acc attributes =
     with_rootdir rootdir (\<lambda>root s. handle_for (open_object_dir root name attributes (Some directory_ops) s) acc attributes)"

text \<open>
  The name and the target of a link come in one block of bytes of \<open>2 * length data + extra\<close>
  bytes, \<open>extra\<close> being 0 or 1; \<open>name_len\<close> is in bytes.
\<close>

definition req_create_symlink :: "obj_handle \<Rightarrow> nat \<Rightarrow> wchar list \<Rightarrow> nat \<Rightarrow> 32 word \<Rightarrow> 32 word \<Rightarrow> server
    \<Rightarrow> (obj_handle \<times> server) option" where
  "req_create_symlink rootdir name_len data extra acc attributes s =
     (if name_len > 2 * length data + extra then Some (0, set_error STATUS_INVALID_PARAMETER s) else
      with_rootdir rootdir (\<lambda>root s.
        handle_for (create_symlink root (take (name_len div 2) data) attributes (drop (name_len div 2) data) s)
          acc attributes) s)"

definition req_open_symlink :: "obj_handle \<Rightarrow> wchar list \<Rightarrow> 32 word \<Rightarrow> 32 word \<Rightarrow> server
    \<Rightarrow> (obj_handle \<times> server) option" where
  "req_open_symlink rootdir name acc attributes =
     with_rootdir rootdir (\<lambda>root s.
       handle_for (open_object_dir root name (attributes OR OBJ_OPENLINK) (Some symlink_ops) s) acc attributes)"

text \<open>\<open>max_size\<close> is the size in bytes of the reply buffer of the client.\<close>

definition req_query_symlink :: "obj_handle \<Rightarrow> nat \<Rightarrow> server \<Rightarrow> (wchar list \<times> server) option" where
  "req_query_symlink handle max_size s =
     do { p \<leftarrow> current_process s;
          (symlink, s) \<leftarrow> get_handle_obj p handle SYMBOLIC_LINK_QUERY (Some symlink_ops) s;
          case symlink of None \<Rightarrow> Some ([], s)
          | Some l \<Rightarrow> do {
              target \<leftarrow> get_symlink s l;
              let (data, s) = (if max_size < 2 * length target
                               then ([], set_error STATUS_BUFFER_TOO_SMALL s) else set_reply_data target s);
              s \<leftarrow> release_object l s;
              Some (data, s) } }"

end
