(* ===== verification/Sync.thy ===== *)
theory Sync
  imports Directory "HOL-Library.Signed_Division"
begin

text \<open>
  The objects a thread can wait for: asynchronous calls to a thread (\<^verbatim>\<open>server/thread.c\<close>),
  events, mutexes, semaphores and timers (\<^verbatim>\<open>server/event.c\<close>, \<^verbatim>\<open>server/mutex.c\<close>,
  \<^verbatim>\<open>server/semaphore.c\<close>, \<^verbatim>\<open>server/timer.c\<close>).

  As in \<open>alloc_object\<close>, a new object is created with the fields the C code stores when the
  error is not \<^verbatim>\<open>STATUS_OBJECT_NAME_EXISTS\<close>; an object that is found by its name is left as it is.
\<close>

subsection \<open>Asynchronous procedure calls\<close>

text \<open>The call takes the queue, system or user, as a flag.\<close>

definition apc_queue :: "bool \<Rightarrow> thread \<Rightarrow> thread_apc list" where
  "apc_queue system th = (if system then system_apc th else user_apc th)"

definition set_apc_queue :: "bool \<Rightarrow> thread_apc list \<Rightarrow> thread \<Rightarrow> thread" where
  "set_apc_queue system q th = (if system then th\<lparr>system_apc := q\<rparr> else th\<lparr>user_apc := q\<rparr>)"

fun cancel_first :: "oid option \<Rightarrow> thread_apc list \<Rightarrow> thread_apc list" where
  "cancel_first own [] = []"
| "cancel_first own (apc # apcs) = (if apc_owner apc \<noteq> own then apc # cancel_first own apcs else apcs)"

definition thread_cancel_apc :: "oid \<Rightarrow> oid option \<Rightarrow> bool \<Rightarrow> server \<Rightarrow> server option" where
  "thread_cancel_apc t own system s =
     do { th \<leftarrow> get_thread s t;
          set_body t (Thread (set_apc_queue system (cancel_first own (apc_queue system th)) th)) s }"

definition thread_queue_apc :: "oid \<Rightarrow> oid option \<Rightarrow> nat \<Rightarrow> apc_kind \<Rightarrow> bool \<Rightarrow> int list \<Rightarrow> server
    \<Rightarrow> (bool \<times> server) option" where
  "thread_queue_apc t own func ty system args s =
     do { s \<leftarrow> (if own \<noteq> None then thread_cancel_apc t own system s else Some s);
          th \<leftarrow> get_thread s t;
          if t_state th = TERMINATED then Some (False, s) else
          case mem_alloc s of (ok, s) \<Rightarrow>
            if \<not> ok then Some (False, s) else do {
            let apc = \<lparr>apc_owner = own, apc_func = func, apc_type = ty, apc_args = args\<rparr>;
            let queue = apc_queue system th;
            s \<leftarrow> set_body t (Thread (set_apc_queue system (queue @ [apc]) th)) s;
            s \<leftarrow> (if queue = [] then do { (_, s) \<leftarrow> wake_thread release_object t s; Some s } else Some s);
            Some (True, s) } }"

definition thread_dequeue_apc :: "oid \<Rightarrow> bool \<Rightarrow> server \<Rightarrow> (thread_apc option \<times> server) option" where
  "thread_dequeue_apc t system_only s =
     do { th \<leftarrow> get_thread s t;
          case system_apc th of
            apc # apcs \<Rightarrow> do { s \<leftarrow> set_body t (Thread (th\<lparr>system_apc := apcs\<rparr>)) s; Some (Some apc, s) }
          | [] \<Rightarrow>
              if system_only then Some (None, s) else
              (case user_apc th of
                 apc # apcs \<Rightarrow> do { s \<leftarrow> set_body t (Thread (th\<lparr>user_apc := apcs\<rparr>)) s; Some (Some apc, s) }
               | [] \<Rightarrow> Some (None, s)) }"

text \<open>The loop of the request \<^verbatim>\<open>get_apc\<close>; \<open>n\<close> bounds the calls that are skipped.\<close>

fun get_apc_loop :: "nat \<Rightarrow> oid \<Rightarrow> bool \<Rightarrow> server \<Rightarrow> (thread_apc option \<times> server) option" where
  "get_apc_loop n t alertable s =
     do { (apc, s) \<leftarrow> thread_dequeue_apc t (\<not> alertable) s;
          case apc of None \<Rightarrow> Some (None, s)
          | Some a \<Rightarrow>
              if apc_func a \<noteq> 0 \<or> apc_type a = APC_ASYNC_IO then Some (Some a, s)
              else (case n of 0 \<Rightarrow> None | Suc m \<Rightarrow> get_apc_loop m t alertable s) }"

declare get_apc_loop.simps [simp del]

definition req_get_apc :: "bool \<Rightarrow> server \<Rightarrow> (thread_apc option \<times> server) option" where
  "req_get_apc alertable s =
     do { t \<leftarrow> current s; th \<leftarrow> get_thread s t;
          get_apc_loop (length (system_apc th) + length (user_apc th)) t alertable s }"

subsection \<open>Events\<close>

definition create_event :: "oid option \<Rightarrow> wchar list \<Rightarrow> 32 word \<Rightarrow> bool \<Rightarrow> bool \<Rightarrow> server
    \<Rightarrow> (oid option \<times> server) option" where
  "create_event root name attr manual initial_state =
     create_named_object_dir root name attr (Event \<lparr>manual_reset = manual, signaled = initial_state\<rparr>)"

definition get_event_obj :: "oid \<Rightarrow> obj_handle \<Rightarrow> 32 word \<Rightarrow> server \<Rightarrow> (oid option \<times> server) option" where
  "get_event_obj process handle acc = get_handle_obj process handle acc (Some event_ops)"

definition set_signaled :: "oid \<Rightarrow> bool \<Rightarrow> server \<Rightarrow> server option" where
  "set_signaled o1 b s = do { ev \<leftarrow> get_event s o1; set_body o1 (Event (ev\<lparr>signaled := b\<rparr>)) s }"

definition set_event :: "oid \<Rightarrow> server \<Rightarrow> server option" where
  "set_event o1 s =
     do { s \<leftarrow> set_signaled o1 True s;
          ev \<leftarrow> get_event s o1;
          wake_up release_object o1 (if manual_reset ev then 0 else 1) s }"

definition pulse_event :: "oid \<Rightarrow> server \<Rightarrow> server option" where
  "pulse_event o1 s =
     do { s \<leftarrow> set_signaled o1 True s;
          ev \<leftarrow> get_event s o1;
          s \<leftarrow> wake_up release_object o1 (if manual_reset ev then 0 else 1) s;
          set_signaled o1 False s }"

definition reset_event :: "oid \<Rightarrow> server \<Rightarrow> server option" where
  "reset_event o1 s = set_signaled o1 False s"

definition event_signal :: "oid \<Rightarrow> 32 word \<Rightarrow> server \<Rightarrow> (bool \<times> server) option" where
  "event_signal o1 acc s =
     (if \<not> has acc EVENT_MODIFY_STATE then Some (False, set_error STATUS_ACCESS_DENIED s)
      else do { s \<leftarrow> set_event o1 s; Some (True, s) })"

datatype event_op = PULSE_EVENT | SET_EVENT | RESET_EVENT | Other_op

definition req_create_event :: "obj_handle \<Rightarrow> wchar list \<Rightarrow> bool \<Rightarrow> bool \<Rightarrow> 32 word \<Rightarrow> 32 word \<Rightarrow> server
    \<Rightarrow> (obj_handle \<times> server) option" where
  "req_create_event rootdir name manual initial_state acc attributes =
     with_rootdir rootdir (\<lambda>root s.
       handle_for (create_event root name attributes manual initial_state s) acc attributes)"

definition req_open_event :: "obj_handle \<Rightarrow> wchar list \<Rightarrow> 32 word \<Rightarrow> 32 word \<Rightarrow> server
    \<Rightarrow> (obj_handle \<times> server) option" where
  "req_open_event rootdir name acc attributes =
     with_rootdir rootdir (\<lambda>root s. handle_for (open_object_dir root name attributes (Some event_ops) s) acc attributes)"

definition req_event_op :: "obj_handle \<Rightarrow> event_op \<Rightarrow> server \<Rightarrow> server option" where
  "req_event_op handle op s =
     do { p \<leftarrow> current_process s;
          (ev, s) \<leftarrow> get_event_obj p handle EVENT_MODIFY_STATE s;
          case ev of None \<Rightarrow> Some s
          | Some o1 \<Rightarrow> do {
              s \<leftarrow> (case op of PULSE_EVENT \<Rightarrow> pulse_event o1 s | SET_EVENT \<Rightarrow> set_event o1 s
                    | RESET_EVENT \<Rightarrow> reset_event o1 s
                    | Other_op \<Rightarrow> Some (set_error STATUS_INVALID_PARAMETER s));
              release_object o1 s } }"

subsection \<open>Mutexes\<close>

definition create_mutex :: "oid option \<Rightarrow> wchar list \<Rightarrow> 32 word \<Rightarrow> bool \<Rightarrow> server
    \<Rightarrow> (oid option \<times> server) option" where
  "create_mutex root name attr owned_flag s =
     do { (mx, s) \<leftarrow> create_named_object_dir root name attr
              (Mutex \<lparr>owner = None, mx_count = 0, abandoned = False\<rparr>) s;
          case mx of None \<Rightarrow> Some (None, s)
          | Some o1 \<Rightarrow>
              if get_error s \<noteq> STATUS_OBJECT_NAME_EXISTS \<and> owned_flag
              then do { t \<leftarrow> current s; (_, s) \<leftarrow> mutex_satisfied o1 t s; Some (Some o1, s) }
              else Some (Some o1, s) }"

text \<open>
  \<^verbatim>\<open>abandon_mutexes\<close>: the list may in principle grow while other threads are woken, so the
  number of rounds is bounded by \<open>n\<close>.
\<close>

fun abandon_mutexes :: "nat \<Rightarrow> oid \<Rightarrow> server \<Rightarrow> server option" where
  "abandon_mutexes n t s =
     do { th \<leftarrow> get_thread s t;
          case mutex_list th of [] \<Rightarrow> Some s
          | o1 # _ \<Rightarrow> do {
              mx \<leftarrow> get_mutex s o1;
              if owner mx \<noteq> Some t then None else do {
              s \<leftarrow> set_body o1 (Mutex (mx\<lparr>mx_count := 0, abandoned := True\<rparr>)) s;
              s \<leftarrow> do_release release_object o1 s;
              case n of 0 \<Rightarrow> None | Suc m \<Rightarrow> abandon_mutexes m t s } } }"

declare abandon_mutexes.simps [simp del]

text \<open>One step of giving back a mutex the current thread owns.\<close>

definition mutex_release :: "oid \<Rightarrow> server \<Rightarrow> server option" where
  "mutex_release o1 s =
     do { mx \<leftarrow> get_mutex s o1;
          s \<leftarrow> set_body o1 (Mutex (mx\<lparr>mx_count := mx_count mx - 1\<rparr>)) s;
          if mx_count mx - 1 = 0 then do_release release_object o1 s else Some s }"

definition mutex_signal :: "oid \<Rightarrow> 32 word \<Rightarrow> server \<Rightarrow> (bool \<times> server) option" where
  "mutex_signal o1 acc s =
     (if \<not> has acc SYNCHRONIZE then Some (False, set_error STATUS_ACCESS_DENIED s) else
      do { mx \<leftarrow> get_mutex s o1;
           if mx_count mx = 0 \<or> owner mx \<noteq> current s then Some (False, set_error STATUS_MUTANT_NOT_OWNED s)
           else do { s \<leftarrow> mutex_release o1 s; Some (True, s) } })"

definition req_create_mutex :: "obj_handle \<Rightarrow> wchar list \<Rightarrow> bool \<Rightarrow> 32 word \<Rightarrow> 32 word \<Rightarrow> server
    \<Rightarrow> (obj_handle \<times> server) option" where
  "req_create_mutex rootdir name owned_flag acc attributes =
     with_rootdir rootdir (\<lambda>root s. handle_for (create_mutex root name attributes owned_flag s) acc attributes)"

definition req_open_mutex :: "obj_handle \<Rightarrow> wchar list \<Rightarrow> 32 word \<Rightarrow> 32 word \<Rightarrow> server
    \<Rightarrow> (obj_handle \<times> server) option" where
  "req_open_mutex rootdir name acc attributes =
     with_rootdir rootdir (\<lambda>root s. handle_for (open_object_dir root name attributes (Some mutex_ops) s) acc attributes)"

text \<open>The reply is the count before the release; \<open>None\<close> when the field is not set.\<close>

definition req_release_mutex :: "obj_handle \<Rightarrow> server \<Rightarrow> (32 word option \<times> server) option" where
  "req_release_mutex handle s =
     do { p \<leftarrow> current_process s;
          (mx, s) \<leftarrow> get_handle_obj p handle MUTEX_MODIFY_STATE (Some mutex_ops) s;
          case mx of None \<Rightarrow> Some (None, s)
          | Some o1 \<Rightarrow> do {
              m \<leftarrow> get_mutex s o1;
              (prev, s) \<leftarrow>
                (if mx_count m = 0 \<or> owner m \<noteq> current s then Some (None, set_error STATUS_MUTANT_NOT_OWNED s)
                 else do { s \<leftarrow> mutex_release o1 s; Some (Some (mx_count m), s) });
              s \<leftarrow> release_object o1 s;
              Some (prev, s) } }"

subsection \<open>Semaphores\<close>

definition create_semaphore :: "oid option \<Rightarrow> wchar list \<Rightarrow> 32 word \<Rightarrow> 32 word \<Rightarrow> 32 word \<Rightarrow> server
    \<Rightarrow> (oid option \<times> server) option" where
  "create_semaphore root name attr initial mx s =
     (if mx = 0 \<or> initial > mx then Some (None, set_error STATUS_INVALID_PARAMETER s)
      else create_named_object_dir root name attr (Semaphore \<lparr>sem_count = initial, sem_max = mx\<rparr>) s)"

text \<open>
  The result is whether the count was raised and what it was; \<^verbatim>\<open>wake_up\<close> takes the count as
  a signed number.
\<close>

definition release_semaphore :: "oid \<Rightarrow> 32 word \<Rightarrow> server \<Rightarrow> ((bool \<times> 32 word) \<times> server) option" where
  "release_semaphore o1 n s =
     do { sem \<leftarrow> get_semaphore s o1;
          let prev = sem_count sem;
          if sem_count sem + n < sem_count sem \<or> sem_count sem + n > sem_max sem
          then Some ((False, prev), set_error STATUS_SEMAPHORE_LIMIT_EXCEEDED s)
          else if sem_count sem \<noteq> 0
          then do { s \<leftarrow> set_body o1 (Semaphore (sem\<lparr>sem_count := sem_count sem + n\<rparr>)) s; Some ((True, prev), s) }
          else do { s \<leftarrow> set_body o1 (Semaphore (sem\<lparr>sem_count := n\<rparr>)) s;
                    s \<leftarrow> wake_up release_object o1 (sint n) s;
                    Some ((True, prev), s) } }"

definition semaphore_signal :: "oid \<Rightarrow> 32 word \<Rightarrow> server \<Rightarrow> (bool \<times> server) option" where
  "semaphore_signal o1 acc s =
     (if \<not> has acc SEMAPHORE_MODIFY_STATE then Some (False, set_error STATUS_ACCESS_DENIED s)
      else do { ((ok, _), s) \<leftarrow> release_semaphore o1 1 s; Some (ok, s) })"

definition req_create_semaphore :: "obj_handle \<Rightarrow> wchar list \<Rightarrow> 32 word \<Rightarrow> 32 word \<Rightarrow> 32 word \<Rightarrow> 32 word \<Rightarrow> server
    \<Rightarrow> (obj_handle \<times> server) option" where
  "req_create_semaphore rootdir name initial mx acc attributes =
     with_rootdir rootdir (\<lambda>root s. handle_for (create_semaphore root name attributes initial mx s) acc attributes)"

definition req_open_semaphore :: "obj_handle \<Rightarrow> wchar list \<Rightarrow> 32 word \<Rightarrow> 32 word \<Rightarrow> server
    \<Rightarrow> (obj_handle \<times> server) option" where
  "req_open_semaphore rootdir name acc attributes =
     with_rootdir rootdir (\<lambda>root s.
       handle_for (open_object_dir root name attributes (Some semaphore_ops) s) acc attributes)"

definition req_release_semaphore :: "obj_handle \<Rightarrow> 32 word \<Rightarrow> server \<Rightarrow> (32 word option \<times> server) option" where
  "req_release_semaphore handle n s =
     do { p \<leftarrow> current_process s;
          (sem, s) \<leftarrow> get_handle_obj p handle SEMAPHORE_MODIFY_STATE (Some semaphore_ops) s;
          case sem of None \<Rightarrow> Some (None, s)
          | Some o1 \<Rightarrow> do {
              ((_, prev), s) \<leftarrow> release_semaphore o1 n s;
              s \<leftarrow> release_object o1 s;
              Some (Some prev, s) } }"

subsection \<open>Timers\<close>

text \<open>C division truncates towards zero.\<close>

definition add_timeout :: "timeval \<Rightarrow> int \<Rightarrow> timeval" where
  "add_timeout when timeout =
     (if timeout \<noteq> 0
      then let sec = timeout sdiv 1000;
               usec = tv_usec when + (timeout - 1000 * sec) * 1000
           in if usec \<ge> 1000000 then \<lparr>tv_sec = tv_sec when + 1 + sec, tv_usec = usec - 1000000\<rparr>
              else \<lparr>tv_sec = tv_sec when + sec, tv_usec = usec\<rparr>
      else when)"

definition create_timer :: "oid option \<Rightarrow> wchar list \<Rightarrow> 32 word \<Rightarrow> bool \<Rightarrow> server
    \<Rightarrow> (oid option \<times> server) option" where
  "create_timer root name attr manual =
     create_named_object_dir root name attr
       (Timer \<lparr>tm_manual = manual, tm_signaled = False, tm_period = 0, tm_when = \<lparr>tv_sec = 0, tv_usec = 0\<rparr>,
               tm_timeout = None, tm_thread = None, tm_callback = 0, tm_arg = 0\<rparr>)"

text \<open>Called with the timeout of the timer no longer linked.\<close>

definition timer_callback :: "oid \<Rightarrow> server \<Rightarrow> server option" where
  "timer_callback o1 s =
     do { tm \<leftarrow> get_timer s o1;
          s \<leftarrow> (case tm_thread tm of None \<Rightarrow> Some s
                | Some t \<Rightarrow> do {
                    (ok, s) \<leftarrow> thread_queue_apc t (Some o1) (tm_callback tm) APC_TIMER False
                       [tv_sec (tm_when tm), tv_usec (tm_when tm), tm_arg tm] s;
                    if ok then Some s else do {
                    tm \<leftarrow> get_timer s o1;
                    s \<leftarrow> set_body o1 (Timer (tm\<lparr>tm_thread := None\<rparr>)) s;
                    release_object t s } });
          tm \<leftarrow> get_timer s o1;
          s \<leftarrow> (if tm_period tm \<noteq> 0
                then let when = add_timeout (tm_when tm) (tm_period tm) in
                     (case add_timeout_user when (Timer_callback o1) s of (u, s) \<Rightarrow>
                        set_body o1 (Timer (tm\<lparr>tm_when := when, tm_timeout := u\<rparr>)) s)
                else set_body o1 (Timer (tm\<lparr>tm_timeout := None\<rparr>)) s);
          tm \<leftarrow> get_timer s o1;
          s \<leftarrow> set_body o1 (Timer (tm\<lparr>tm_signaled := True\<rparr>)) s;
          wake_up release_object o1 0 s }"

definition cancel_timer :: "oid \<Rightarrow> server \<Rightarrow> (bool \<times> server) option" where
  "cancel_timer o1 s =
     do { tm \<leftarrow> get_timer s o1;
          s \<leftarrow> (case tm_timeout tm of None \<Rightarrow> Some s
                | Some u \<Rightarrow> do { s \<leftarrow> remove_timeout_user u s;
                                set_body o1 (Timer (tm\<lparr>tm_timeout := None\<rparr>)) s });
          s \<leftarrow> (case tm_thread tm of None \<Rightarrow> Some s
                | Some t \<Rightarrow> do { s \<leftarrow> thread_cancel_apc t (Some o1) False s;
                                tm \<leftarrow> get_timer s o1;
                                s \<leftarrow> set_body o1 (Timer (tm\<lparr>tm_thread := None\<rparr>)) s;
                                release_object t s });
          Some (tm_signaled tm, s) }"

definition set_timer :: "oid \<Rightarrow> timeval \<Rightarrow> int \<Rightarrow> nat \<Rightarrow> int \<Rightarrow> server \<Rightarrow> (bool \<times> server) option" where
  "set_timer o1 expire period callback arg s =
     do { (was, s) \<leftarrow> cancel_timer o1 s;
          tm \<leftarrow> get_timer s o1;
          let (period, sg) = (if tm_manual tm then (0, False) else (period, tm_signaled tm));
          let when = (if tv_sec expire = 0 \<and> tv_usec expire = 0 then add_timeout (now s) period else expire);
          (th, s) \<leftarrow> (if callback \<noteq> 0 then do { t \<leftarrow> current s; s \<leftarrow> grab_object t s; Some (Some t, s) }
                      else Some (tm_thread tm, s));
          case add_timeout_user when (Timer_callback o1) s of (u, s) \<Rightarrow> do {
          s \<leftarrow> set_body o1 (Timer (tm\<lparr>tm_signaled := sg, tm_when := when, tm_period := period,
                 tm_callback := callback, tm_arg := arg, tm_thread := th, tm_timeout := u\<rparr>)) s;
          Some (was, s) } }"

definition req_create_timer :: "obj_handle \<Rightarrow> wchar list \<Rightarrow> bool \<Rightarrow> 32 word \<Rightarrow> 32 word \<Rightarrow> server
    \<Rightarrow> (obj_handle \<times> server) option" where
  "req_create_timer rootdir name manual acc attributes =
     with_rootdir rootdir (\<lambda>root s. handle_for (create_timer root name attributes manual s) acc attributes)"

definition req_open_timer :: "obj_handle \<Rightarrow> wchar list \<Rightarrow> 32 word \<Rightarrow> 32 word \<Rightarrow> server
    \<Rightarrow> (obj_handle \<times> server) option" where
  "req_open_timer rootdir name acc attributes =
     with_rootdir rootdir (\<lambda>root s. handle_for (open_object_dir root name attributes (Some timer_ops) s) acc attributes)"

text \<open>The three requests on a timer reply only when the handle is valid.\<close>

definition with_timer :: "obj_handle \<Rightarrow> 32 word \<Rightarrow> (oid \<Rightarrow> server \<Rightarrow> ('a \<times> server) option) \<Rightarrow> server
    \<Rightarrow> ('a option \<times> server) option" where
  "with_timer handle acc act s =
     do { p \<leftarrow> current_process s;
          (tm, s) \<leftarrow> get_handle_obj p handle acc (Some timer_ops) s;
          case tm of None \<Rightarrow> Some (None, s)
          | Some o1 \<Rightarrow> do { (r, s) \<leftarrow> act o1 s; s \<leftarrow> release_object o1 s; Some (Some r, s) } }"

definition req_set_timer :: "obj_handle \<Rightarrow> timeval \<Rightarrow> int \<Rightarrow> nat \<Rightarrow> int \<Rightarrow> server \<Rightarrow> (bool option \<times> server) option" where
  "req_set_timer handle expire period callback arg =
     with_timer handle TIMER_MODIFY_STATE (\<lambda>o1. set_timer o1 expire period callback arg)"

definition req_cancel_timer :: "obj_handle \<Rightarrow> server \<Rightarrow> (bool option \<times> server) option" where
  "req_cancel_timer handle = with_timer handle TIMER_MODIFY_STATE cancel_timer"

definition req_get_timer_info :: "obj_handle \<Rightarrow> server \<Rightarrow> ((timeval \<times> bool) option \<times> server) option" where
  "req_get_timer_info handle =
     with_timer handle TIMER_QUERY_STATE
       (\<lambda>o1 s. do { tm \<leftarrow> get_timer s o1; Some ((tm_when tm, tm_signaled tm), s) })"

end
