(* ===== verification/Threads.thy ===== *)
theory Threads
  imports Sync
begin

text \<open>
  Threads and processes (\<^verbatim>\<open>server/thread.c\<close>, \<^verbatim>\<open>server/process.c\<close>): waiting on handles, timeouts,
  suspending and resuming, and the end of a thread and of a process.

  Consoles, debuggers, message queues, windows and the sockets of the clients are not part
  of the model, so the calls that clean them up are left out.
\<close>

abbreviation "SIGUSR1 \<equiv> (10 :: int)"
abbreviation "SIGTERM \<equiv> (15 :: int)"
abbreviation "THREAD_TERMINATE \<equiv> (0x0001 :: 32 word)"
abbreviation "THREAD_SUSPEND_RESUME \<equiv> (0x0002 :: 32 word)"
abbreviation "THREAD_SET_CONTEXT \<equiv> (0x0010 :: 32 word)"
abbreviation "PROCESS_TERMINATE \<equiv> (0x0001 :: 32 word)"
abbreviation "PROCESS_QUERY_INFORMATION \<equiv> (0x0400 :: 32 word)"

subsection \<open>Suspending and resuming\<close>

definition send_thread_signal :: "oid \<Rightarrow> int \<Rightarrow> server \<Rightarrow> server" where
  "send_thread_signal t sg s = s\<lparr>sent := sent s @ [Signal t sg]\<rparr>"

definition is_process_init_done :: "process \<Rightarrow> bool" where
  "is_process_init_done pr = init_done pr"

definition thread_process :: "oid \<Rightarrow> server \<Rightarrow> (oid \<times> process) option" where
  "thread_process t s = do { th \<leftarrow> get_thread s t; p \<leftarrow> t_process th; pr \<leftarrow> get_process s p; Some (p, pr) }"

definition stop_thread :: "oid \<Rightarrow> server \<Rightarrow> server option" where
  "stop_thread t s =
     do { th \<leftarrow> get_thread s t;
          if t_context th then Some s else do {
          (_, pr) \<leftarrow> thread_process t s;
          Some (if is_process_init_done pr then send_thread_signal t SIGUSR1 s else s) } }"

definition suspend_thread :: "oid \<Rightarrow> server \<Rightarrow> (int \<times> server) option" where
  "suspend_thread t s =
     do { th \<leftarrow> get_thread s t;
          let old_count = t_suspend th;
          s \<leftarrow> (if t_suspend th < MAXIMUM_SUSPEND_COUNT
                then do {
                  (_, pr) \<leftarrow> thread_process t s;
                  s \<leftarrow> set_body t (Thread (th\<lparr>t_suspend := t_suspend th + 1\<rparr>)) s;
                  if p_suspend pr + old_count = 0 then stop_thread t s else Some s }
                else Some (set_error STATUS_SUSPEND_COUNT_EXCEEDED s));
          Some (old_count, s) }"

definition resume_thread :: "oid \<Rightarrow> server \<Rightarrow> (int \<times> server) option" where
  "resume_thread t s =
     do { th \<leftarrow> get_thread s t;
          let old_count = t_suspend th;
          s \<leftarrow> (if t_suspend th > 0
                then do {
                  (_, pr) \<leftarrow> thread_process t s;
                  s \<leftarrow> set_body t (Thread (th\<lparr>t_suspend := t_suspend th - 1\<rparr>)) s;
                  if t_suspend th - 1 + p_suspend pr = 0
                  then do { (_, s) \<leftarrow> wake_thread release_object t s; Some s } else Some s }
                else Some s);
          Some (old_count, s) }"

fun stop_threads :: "oid list \<Rightarrow> server \<Rightarrow> server option" where
  "stop_threads [] s = Some s"
| "stop_threads (t # ts) s =
     do { th \<leftarrow> get_thread s t;
          s \<leftarrow> (if t_suspend th = 0 then stop_thread t s else Some s);
          stop_threads ts s }"

fun wake_threads :: "oid list \<Rightarrow> server \<Rightarrow> server option" where
  "wake_threads [] s = Some s"
| "wake_threads (t # ts) s =
     do { th \<leftarrow> get_thread s t;
          s \<leftarrow> (if t_suspend th = 0 then do { (_, s) \<leftarrow> wake_thread release_object t s; Some s } else Some s);
          wake_threads ts s }"

definition suspend_process :: "oid \<Rightarrow> server \<Rightarrow> server option" where
  "suspend_process p s =
     do { pr \<leftarrow> get_process s p;
          s \<leftarrow> set_body p (Process (pr\<lparr>p_suspend := p_suspend pr + 1\<rparr>)) s;
          if p_suspend pr = 0 then stop_threads (thread_list pr) s else Some s }"

definition resume_process :: "oid \<Rightarrow> server \<Rightarrow> server option" where
  "resume_process p s =
     do { pr \<leftarrow> get_process s p;
          if p_suspend pr \<le> 0 then None else do {
          s \<leftarrow> set_body p (Process (pr\<lparr>p_suspend := p_suspend pr - 1\<rparr>)) s;
          if p_suspend pr - 1 = 0 then wake_threads (thread_list pr) s else Some s } }"

definition get_thread_from_handle :: "obj_handle \<Rightarrow> 32 word \<Rightarrow> server \<Rightarrow> (oid option \<times> server) option" where
  "get_thread_from_handle handle acc s =
     do { p \<leftarrow> current_process s; get_handle_obj p handle acc (Some thread_ops) s }"

text \<open>The requests reply with the old count; \<open>None\<close> when the field is not set.\<close>

definition req_suspend_thread :: "obj_handle \<Rightarrow> server \<Rightarrow> (int option \<times> server) option" where
  "req_suspend_thread handle s =
     do { (t, s) \<leftarrow> get_thread_from_handle handle THREAD_SUSPEND_RESUME s;
          case t of None \<Rightarrow> Some (None, s)
          | Some t \<Rightarrow> do {
              th \<leftarrow> get_thread s t;
              (r, s) \<leftarrow> (if t_state th = TERMINATED then Some (None, set_error STATUS_ACCESS_DENIED s)
                         else do { (n, s) \<leftarrow> suspend_thread t s; Some (Some n, s) });
              s \<leftarrow> release_object t s;
              Some (r, s) } }"

definition req_resume_thread :: "obj_handle \<Rightarrow> server \<Rightarrow> (int option \<times> server) option" where
  "req_resume_thread handle s =
     do { (t, s) \<leftarrow> get_thread_from_handle handle THREAD_SUSPEND_RESUME s;
          case t of None \<Rightarrow> Some (None, s)
          | Some t \<Rightarrow> do {
              th \<leftarrow> get_thread s t;
              (r, s) \<leftarrow> (if t_state th = TERMINATED then Some (None, set_error STATUS_ACCESS_DENIED s)
                         else do { (n, s) \<leftarrow> resume_thread t s; Some (Some n, s) });
              s \<leftarrow> release_object t s;
              Some (r, s) } }"

definition req_queue_apc :: "obj_handle \<Rightarrow> bool \<Rightarrow> nat \<Rightarrow> int list \<Rightarrow> server \<Rightarrow> server option" where
  "req_queue_apc handle user func args s =
     do { (t, s) \<leftarrow> get_thread_from_handle handle THREAD_SET_CONTEXT s;
          case t of None \<Rightarrow> Some s
          | Some t \<Rightarrow> do {
              (_, s) \<leftarrow> thread_queue_apc t None func APC_USER (\<not> user) args s;
              release_object t s } }"

subsection \<open>Waiting on handles\<close>

definition no_signal :: "oid \<Rightarrow> 32 word \<Rightarrow> server \<Rightarrow> (bool \<times> server) option" where
  "no_signal o1 acc s = Some (False, set_error STATUS_OBJECT_TYPE_MISMATCH s)"

definition obj_signal :: "oid \<Rightarrow> 32 word \<Rightarrow> server \<Rightarrow> (bool \<times> server) option" where
  "obj_signal o1 acc s =
     do { ob \<leftarrow> objects s o1;
          case ops (body ob) of
            event_ops \<Rightarrow> event_signal o1 acc s
          | mutex_ops \<Rightarrow> mutex_signal o1 acc s
          | semaphore_ops \<Rightarrow> semaphore_signal o1 acc s
          | _ \<Rightarrow> no_signal o1 acc s }"

definition signal_object :: "obj_handle \<Rightarrow> server \<Rightarrow> (bool \<times> server) option" where
  "signal_object handle s =
     do { p \<leftarrow> current_process s;
          (obj, s) \<leftarrow> get_handle_obj p handle 0 None s;
          case obj of None \<Rightarrow> Some (False, s)
          | Some o1 \<Rightarrow> do {
              (acc, s) \<leftarrow> get_handle_access p handle s;
              (ret, s) \<leftarrow> obj_signal o1 acc s;
              s \<leftarrow> release_object o1 s;
              Some (ret, s) } }"

text \<open>The objects of the handles, up to the first that is not valid; did all succeed?\<close>

fun get_wait_objects :: "oid \<Rightarrow> obj_handle list \<Rightarrow> server \<Rightarrow> ((oid list \<times> bool) \<times> server) option" where
  "get_wait_objects p [] s = Some (([], True), s)"
| "get_wait_objects p (h # hs) s =
     do { (obj, s) \<leftarrow> get_handle_obj p h SYNCHRONIZE None s;
          case obj of None \<Rightarrow> Some (([], False), s)
          | Some o1 \<Rightarrow> do {
              ((os, ok), s) \<leftarrow> get_wait_objects p hs s;
              Some ((o1 # os, ok), s) } }"

fun release_all :: "oid list \<Rightarrow> server \<Rightarrow> server option" where
  "release_all [] s = Some s"
| "release_all (o1 # os) s = do { s \<leftarrow> release_object o1 s; release_all os s }"

text \<open>\<^verbatim>\<open>select_on\<close> between the grabbing and the releasing of the objects.\<close>

definition select_wait :: "nat \<Rightarrow> oid list \<Rightarrow> 32 word \<Rightarrow> timeval \<Rightarrow> obj_handle \<Rightarrow> server \<Rightarrow> server option" where
  "select_wait cookie objs flags timeout signal_obj s =
     do { (ok, s) \<leftarrow> wait_on release_object objs flags timeout s;
          if \<not> ok then Some s else do {
          t \<leftarrow> current s;
          (stop, s) \<leftarrow>
            (if signal_obj = 0 then Some (False, s) else do {
               (ok, s) \<leftarrow> signal_object signal_obj s;
               if \<not> ok then do { s \<leftarrow> end_wait release_object t s; Some (True, s) }
               else do { th \<leftarrow> get_thread s t; Some (waits th = [], s) } });
          if stop then Some s else do {
          (ret, s) \<leftarrow> check_wait t s;
          if ret \<noteq> -1 then do { s \<leftarrow> end_wait release_object t s; Some (set_error (word_of_int ret) s) }
          else do {
          (ok, s) \<leftarrow>
            (if has flags SELECT_TIMEOUT then do {
               th \<leftarrow> get_thread s t;
               case waits th of [] \<Rightarrow> None
               | w # _ \<Rightarrow>
                   (case add_timeout_user (w_timeout w) (Thread_timeout t (w_id w)) s of
                      (None, s) \<Rightarrow> do { s \<leftarrow> end_wait release_object t s; Some (False, s) }
                    | (Some u, s) \<Rightarrow> do { s \<leftarrow> upd_wait (\<lambda>w. w\<lparr>w_user := Some u\<rparr>) t s; Some (True, s) }) }
             else Some (True, s));
          if \<not> ok then Some s else do {
          s \<leftarrow> upd_wait (\<lambda>w. w\<lparr>w_cookie := Some cookie\<rparr>) t s;
          Some (set_error STATUS_PENDING s) } } } } }"

definition select_on :: "nat \<Rightarrow> obj_handle list \<Rightarrow> 32 word \<Rightarrow> timeval \<Rightarrow> obj_handle \<Rightarrow> server \<Rightarrow> server option" where
  "select_on cookie hs flags timeout signal_obj s =
     (if int (length hs) > MAXIMUM_WAIT_OBJECTS then Some (set_error STATUS_INVALID_PARAMETER s) else
      do { p \<leftarrow> current_process s;
           ((objs, ok), s) \<leftarrow> get_wait_objects p hs s;
           s \<leftarrow> (if ok then select_wait cookie objs flags timeout signal_obj s else Some s);
           release_all (rev objs) s })"

subsection \<open>Timeouts\<close>

text \<open>
  The callback of a wait, by the address of the wait.  That of a wait that is not the
  innermost one forgets its timeout and nothing more.
\<close>

definition clear_user :: "nat \<Rightarrow> thread_wait \<Rightarrow> thread_wait" where
  "clear_user wid w = (if w_id w = wid then w\<lparr>w_user := None\<rparr> else w)"

definition thread_timeout :: "oid \<Rightarrow> nat \<Rightarrow> server \<Rightarrow> server option" where
  "thread_timeout t wid s =
     do { th \<leftarrow> get_thread s t;
          if wid \<notin> w_id ` set (waits th) then None else do {
          let th = th\<lparr>waits := map (clear_user wid) (waits th)\<rparr>;
          s \<leftarrow> set_body t (Thread th) s;
          case waits th of [] \<Rightarrow> None
          | w # _ \<Rightarrow>
              if w_id w \<noteq> wid then Some s else do {
              susp \<leftarrow> is_suspended t s;
              if susp then Some s else do {
              s \<leftarrow> end_wait release_object t s;
              (_, s) \<leftarrow> wake_thread release_object t (send_thread_wakeup t (w_cookie w) (uint STATUS_TIMEOUT) s);
              Some s } } } }"

definition call_timeout :: "timeout_callback \<Rightarrow> server \<Rightarrow> server option" where
  "call_timeout cb s =
     (case cb of Thread_timeout t wid \<Rightarrow> thread_timeout t wid s | Timer_callback o1 \<Rightarrow> timer_callback o1 s)"

text \<open>
  Each callback is called once its timeout is off the list of the expired ones, from which
  the callbacks can take others off; so the length of the list bounds the rounds.
\<close>

fun call_expired :: "nat \<Rightarrow> server \<Rightarrow> server option" where
  "call_expired n s =
     (case expired s of [] \<Rightarrow> Some s
      | u # us \<Rightarrow>
          (case n of 0 \<Rightarrow> None
           | Suc m \<Rightarrow> do { s \<leftarrow> call_timeout (tu_callback u) (s\<lparr>expired := us\<rparr>); call_expired m s }))"

declare call_expired.simps [simp del]

text \<open>The result is the time to the next timeout in milliseconds, or \<^verbatim>\<open>-1\<close>.\<close>

definition get_next_timeout :: "server \<Rightarrow> (int \<times> server) option" where
  "get_next_timeout s =
     (if timeout_list s = [] then Some (-1, s) else
      do { let t0 = now s;
           let due = takeWhile (\<lambda>u. \<not> time_before t0 (tu_when u)) (timeout_list s);
           let rest = dropWhile (\<lambda>u. \<not> time_before t0 (tu_when u)) (timeout_list s);
           s \<leftarrow> call_expired (length due) (s\<lparr>expired := due, timeout_list := rest\<rparr>);
           case timeout_list s of [] \<Rightarrow> Some (-1, s)
           | u # _ \<Rightarrow>
               let diff = (tv_sec (tu_when u) - tv_sec t0) * 1000
                        + (tv_usec (tu_when u) - tv_usec t0 + 999) sdiv 1000
               in Some (if diff < 0 then 0 else diff, s) })"

subsection \<open>The end of a thread and of a process\<close>

text \<open>The parts of \<^verbatim>\<open>process_killed\<close> that concern the model: the handle table and the waiters.\<close>

definition process_killed :: "oid \<Rightarrow> server \<Rightarrow> server option" where
  "process_killed p s =
     do { pr \<leftarrow> get_process s p;
          if thread_list pr \<noteq> [] then None else do {
          s \<leftarrow> set_body p (Process (pr\<lparr>handles := None\<rparr>)) s;
          s \<leftarrow> release_opt release_object (handles pr) s;
          wake_up release_object p 0 s } }"

definition add_process_thread :: "oid \<Rightarrow> oid \<Rightarrow> server \<Rightarrow> server option" where
  "add_process_thread p t s =
     do { pr \<leftarrow> get_process s p;
          s \<leftarrow> set_body p (Process (pr\<lparr>thread_list := thread_list pr @ [t],
                 running_threads := running_threads pr + 1\<rparr>)) s;
          grab_object t s }"

definition remove_process_thread :: "oid \<Rightarrow> oid \<Rightarrow> server \<Rightarrow> server option" where
  "remove_process_thread p t s =
     do { pr \<leftarrow> get_process s p;
          if running_threads pr \<le> 0 \<or> thread_list pr = [] then None else do {
          ts \<leftarrow> list_remove t (thread_list pr);
          th \<leftarrow> get_thread s t;
          let n = running_threads pr - 1;
          s \<leftarrow> set_body p (Process (pr\<lparr>thread_list := ts, running_threads := n,
                 p_exit_code := if n = 0 then t_exit_code th else p_exit_code pr\<rparr>)) s;
          s \<leftarrow> (if n = 0 then process_killed p s else Some s);
          release_object t s } }"

fun end_waits :: "nat \<Rightarrow> oid \<Rightarrow> server \<Rightarrow> server option" where
  "end_waits n t s =
     do { th \<leftarrow> get_thread s t;
          case waits th of [] \<Rightarrow> Some s
          | _ # _ \<Rightarrow> do {
              s \<leftarrow> end_wait release_object t s;
              case n of 0 \<Rightarrow> None | Suc m \<Rightarrow> end_waits m t s } }"

declare end_waits.simps [simp del]

definition kill_thread :: "oid \<Rightarrow> bool \<Rightarrow> server \<Rightarrow> server option" where
  "kill_thread t violent_death s =
     do { th \<leftarrow> get_thread s t;
          if t_state th = TERMINATED then Some s else do {
          s \<leftarrow> set_body t (Thread (th\<lparr>t_state := TERMINATED\<rparr>)) s;
          let s = (if current s = Some t then s\<lparr>current := None\<rparr> else s);
          (violent_death, s) \<leftarrow>
            (if waits th \<noteq> []
             then do { s \<leftarrow> end_waits (length (waits th)) t s;
                       Some (False, send_thread_wakeup t (Some 0) (uint STATUS_PENDING) s) }
             else Some (violent_death, s));
          s \<leftarrow> abandon_mutexes (length (mutex_list th)) t s;
          s \<leftarrow> wake_up release_object t 0 s;
          let s = (if violent_death then send_thread_signal t SIGTERM s else s);
          s \<leftarrow> cleanup_thread t s;
          p \<leftarrow> t_process th;
          s \<leftarrow> remove_process_thread p t s;
          release_object t s } }"

fun kill_threads :: "oid list \<Rightarrow> oid option \<Rightarrow> int \<Rightarrow> server \<Rightarrow> server option" where
  "kill_threads [] skip exit_code s = Some s"
| "kill_threads (t # ts) skip exit_code s =
     do { th \<leftarrow> get_thread s t;
          s \<leftarrow> (if exit_code \<noteq> 0 then set_body t (Thread (th\<lparr>t_exit_code := exit_code\<rparr>)) s else Some s);
          s \<leftarrow> (if Some t \<noteq> skip then kill_thread t True s else Some s);
          kill_threads ts skip exit_code s }"

definition kill_process :: "oid \<Rightarrow> oid option \<Rightarrow> int \<Rightarrow> server \<Rightarrow> server option" where
  "kill_process p skip exit_code s =
     do { pr \<leftarrow> get_process s p; kill_threads (thread_list pr) skip exit_code s }"

text \<open>The reply says whether the thread is the caller, and the last of its process.\<close>

definition req_terminate_thread :: "obj_handle \<Rightarrow> int \<Rightarrow> server \<Rightarrow> ((bool \<times> bool) \<times> server) option" where
  "req_terminate_thread handle exit_code s =
     do { (t, s) \<leftarrow> get_thread_from_handle handle THREAD_TERMINATE s;
          case t of None \<Rightarrow> Some ((False, False), s)
          | Some t \<Rightarrow> do {
              th \<leftarrow> get_thread s t;
              s \<leftarrow> set_body t (Thread (th\<lparr>t_exit_code := exit_code\<rparr>)) s;
              (r, s) \<leftarrow>
                (if Some t \<noteq> current s then do { s \<leftarrow> kill_thread t True s; Some ((False, False), s) }
                 else do { (_, pr) \<leftarrow> thread_process t s; Some ((True, running_threads pr = 1), s) });
              s \<leftarrow> release_object t s;
              Some (r, s) } }"

definition req_terminate_process :: "obj_handle \<Rightarrow> int \<Rightarrow> server \<Rightarrow> (bool \<times> server) option" where
  "req_terminate_process handle exit_code s =
     do { cp \<leftarrow> current_process s;
          (p, s) \<leftarrow> get_process_from_handle handle PROCESS_TERMINATE s;
          case p of None \<Rightarrow> Some (False, s)
          | Some p \<Rightarrow> do {
              s \<leftarrow> kill_process p (current s) exit_code s;
              s \<leftarrow> release_object p s;
              Some (cp = p, s) } }"

definition req_get_process_idle_event :: "obj_handle \<Rightarrow> server \<Rightarrow> (obj_handle \<times> server) option" where
  "req_get_process_idle_event handle s =
     do { cp \<leftarrow> current_process s;
          (p, s) \<leftarrow> get_process_from_handle handle PROCESS_QUERY_INFORMATION s;
          case p of None \<Rightarrow> Some (0, s)
          | Some p \<Rightarrow> do {
              pr \<leftarrow> get_process s p;
              (h, s) \<leftarrow> (case idle_event pr of
                  Some e \<Rightarrow> if p \<noteq> cp then alloc_handle cp e EVENT_ALL_ACCESS 0 s else Some (0, s)
                | None \<Rightarrow> Some (0, s));
              s \<leftarrow> release_object p s;
              Some (h, s) } }"

end
