(* ===== verification/Wait_Correct.thy ===== *)
theory Wait_Correct
  imports Create_Correct Threads
begin

text \<open>
  Waiting and waking keep the invariant of the server: the entries of a wait and the wait
  queues of the objects change together (\<^verbatim>\<open>server/thread.c\<close>).
\<close>

subsection \<open>Steps on waits\<close>

text \<open>A step that keeps all links but those of waits and timeouts.\<close>

definition other_links :: "server \<Rightarrow> server \<Rightarrow> bool" where
  "other_links s s2 \<longleftrightarrow> type_at s2 = type_at s \<and> owned_at s2 = owned_at s \<and> owner_at s2 = owner_at s \<and>
     threads_at s2 = threads_at s \<and> proc_at s2 = proc_at s \<and> handles_at s2 = handles_at s \<and>
     space_at s2 = space_at s \<and> name_at s2 = name_at s \<and> (\<forall>t. busy_at s2 t \<longrightarrow> busy_at s t \<or> owned_at s t \<noteq> {} \<or>
        (\<exists>p. proc_at s t = Some p \<and> t \<in> threads_at s p)) \<and>
     (\<forall>p. alive_at s2 p \<longrightarrow> alive_at s p) \<and> next_addr s \<le> next_addr s2 \<and> namespaces s2 = namespaces s \<and>
     tolowerW s2 = tolowerW s \<and> global_table s2 = global_table s \<and> root_directory s2 = root_directory s"

lemma owned_busy: "owned_at s t \<noteq> {} \<Longrightarrow> busy_at s t"
proof -
  assume o: "owned_at s t \<noteq> {}"
  then obtain ob where ob: "objects s t = Some ob" "owned (body ob) \<noteq> []"
    by (cases "objects s t") (auto simp: look_def)
  then show ?thesis by (cases "body ob") (simp_all add: look_Some)
qed

lemma server_ok_waits:
  assumes ok: "server_ok E s" and o: "other_links s s2"
    and new: "alloc_ok s2" "refs_ok E' s2" "waits_ok s2" "timeouts_ok s2"
  shows "server_ok E' s2"
proof -
  note ok' = server_okD [OF ok]
  have F: "type_at s2 = type_at s" "owned_at s2 = owned_at s" "owner_at s2 = owner_at s"
    "threads_at s2 = threads_at s" "proc_at s2 = proc_at s" "handles_at s2 = handles_at s"
    "space_at s2 = space_at s" "name_at s2 = name_at s" "namespaces s2 = namespaces s" "tolowerW s2 = tolowerW s"
    "global_table s2 = global_table s" "root_directory s2 = root_directory s"
    and B: "\<And>t. busy_at s2 t \<Longrightarrow> busy_at s t \<or> owned_at s t \<noteq> {} \<or> (\<exists>p. proc_at s t = Some p \<and> t \<in> threads_at s p)"
    and A: "\<And>p. alive_at s2 p \<Longrightarrow> alive_at s p" and N: "next_addr s \<le> next_addr s2"
    using o unfolding other_links_def by simp_all
  have L: "linked s2 = linked s" by (intro ext) (simp add: linked_def F)
  have H: "get_name_hash s2 = get_name_hash s" by (intro get_name_hash_cong F)
  have "busy_at s2 t \<Longrightarrow> \<exists>p. proc_at s t = Some p \<and> t \<in> threads_at s p" for t
    using B [of t] owned_busy threads_ok_busy [OF ok'(4)] by blast
  then have "threads_ok s2" using threads_okD [OF ok'(4)] A unfolding threads_ok_def F by blast
  moreover have "mutexes_ok s2" using ok'(5) unfolding mutexes_ok_def F .
  moreover have "names_ok s2"
  proof -
    note n = ok'(7) [unfolded names_ok_def]
    have "\<forall>d n. space_at s d = Some n \<longrightarrow> alive_at s2 d \<longrightarrow> (\<exists>buckets. namespaces s n = Some buckets \<and> buckets \<noteq> [])"
      using names_ok_alive [OF ok'(7)] A by blast
    moreover have "\<forall>n. namespaces s n \<noteq> None \<longrightarrow> n < next_addr s2" "\<forall>d n. space_at s d = Some n \<longrightarrow> n < next_addr s2"
      using names_ok_addr [OF ok'(7)] names_ok_space [OF ok'(7)] N order.strict_trans2 by blast+
    ultimately show ?thesis using n unfolding names_ok_def L H F by (elim conjE) (intro conjI)
  qed
  moreover have "typed_ok s2" using ok'(8) unfolding typed_ok_def F .
  ultimately show ?thesis using new by (simp add: server_ok_def links_ok_def)
qed

lemma alloc_ok_set_obj:
  "alloc_ok s \<Longrightarrow> objects s o1 = Some ob \<Longrightarrow> (0 < refcount ob' \<Longrightarrow> body_ok (body ob')) \<Longrightarrow> alloc_ok (set_obj o1 ob' s)"
  by (simp add: alloc_ok_def)

lemma total_minus:
  assumes "o1 < n" "x \<in># f o1"
  shows "total n (f(o1 := f o1 - {#x#})) + {#x#} = total n f"
proof -
  obtain y where y: "f o1 = y + {#x#}" using multi_member_split [OF assms(2)] by auto
  have "total n (f(o1 := y)) + (y + {#x#}) = total n f + y" using total_upd [OF assms(1), of f y] y by simp
  then have "total n (f(o1 := y)) + {#x#} + y = total n f + y" by (simp add: ac_simps)
  then show ?thesis unfolding y by (simp only: add_right_cancel add_diff_cancel_right')
qed

lemma image_minus: "x \<in># M \<Longrightarrow> image_mset f M = image_mset f (M - {#x#}) + {#f x#}"
  using multi_member_split [of x M] by auto

text \<open>Taking the entry \<open>e\<close> off its wait and off the queue of its object.\<close>

definition pop_entry :: "oid \<Rightarrow> wait_queue_entry \<Rightarrow> server \<Rightarrow> server option" where
  "pop_entry t e s =
     do { s \<leftarrow> upd_wait (\<lambda>w. w\<lparr>queues := remove1 e (queues w)\<rparr>) t s;
          ob \<leftarrow> objects s (e_obj e);
          q \<leftarrow> list_remove e (wait_queue ob);
          Some (set_obj (e_obj e) (ob\<lparr>wait_queue := q\<rparr>) s) }"

definition thread_waits :: "server \<Rightarrow> oid \<Rightarrow> thread_wait list" where
  "thread_waits s t = (case get_thread s t of None \<Rightarrow> [] | Some th \<Rightarrow> waits th)"

lemma thread_waits_Some: "get_thread s t = Some th \<Longrightarrow> thread_waits s t = waits th"
  by (simp add: thread_waits_def)

lemma entries_at_waits: "entries_at s t = mset (concat (map queues (thread_waits s t)))"
proof (cases "objects s t")
  case (Some ob)
  then show ?thesis by (cases "body ob") (simp_all add: thread_waits_def get_thread_def look_Some)
qed (simp add: thread_waits_def get_thread_def look_None)

lemma entry_object:
  assumes ok: "server_ok E s" and e: "e \<in># entries_at s t"
  obtains ob where "objects s (e_obj e) = Some ob" "e \<in> set (wait_queue ob)" "waitable (ops (body ob))"
    "0 < refcount ob" "e_thread e = t"
proof -
  note W = server_okD(3) [OF ok]
  obtain ty where ty: "type_at s (e_obj e) = Some ty" "waitable ty" using waits_ok_type [OF W e] by blast
  then obtain ob where ob: "objects s (e_obj e) = Some ob" "ops (body ob) = ty"
    by (auto simp: look_def split: option.splits)
  obtain obt where obt: "objects s t = Some obt" "e \<in># mset (w_entries (body obt))"
    using e by (auto simp: look_def split: option.splits)
  have t: "t < next_oid s" by (rule server_ok_range [OF ok obt(1)])
  then have "e \<in># wait_entries s" unfolding wait_entries_def in_total_iff using e by blast
  then have "e \<in># queue_at s (e_obj e)" by (simp add: waits_ok_queue [OF W])
  then have "e \<in> set (wait_queue ob)" using ob(1) by (simp add: look_Some)
  moreover have "e_obj e \<in># out_refs (body obt)" using obt(2) by (cases "body obt") auto
  then have "e_obj e \<in># refs s"
    by (intro in_refsI [OF obt(1) server_okD(1) [OF ok]]) (simp add: obj_refs_def)
  then obtain ob' where "objects s (e_obj e) = Some ob'" "0 < refcount ob'"
    using refs_ok_alive [OF server_okD(2) [OF ok], of "e_obj e"] by auto
  ultimately show ?thesis using that ob ty(2) waits_ok_entry [OF W e] by simp
qed

lemma waits_ok_drop:
  assumes W: "waits_ok s" and e: "e \<in># entries_at s t" and t: "t < next_oid s"
    and s2: "queue_at s2 = (queue_at s)(e_obj e := queue_at s (e_obj e) - {#e#})"
      "entries_at s2 = (entries_at s)(t := entries_at s t - {#e#})" "next_oid s2 = next_oid s"
      "next_addr s2 = next_addr s" "type_at s2 = type_at s"
  shows "waits_ok s2"
proof -
  have we: "wait_entries s2 + {#e#} = wait_entries s"
    unfolding wait_entries_def s2(2,3) using total_minus [of t "next_oid s" e "entries_at s"] t e by simp
  have q: "queue_at s2 o1 = filter_mset (\<lambda>e. e_obj e = o1) (wait_entries s2)" for o1
    using waits_ok_queue [OF W, of o1] unfolding we [symmetric] s2(1) by auto
  have sub: "x \<in># entries_at s2 u \<Longrightarrow> x \<in># entries_at s u" for x u
    unfolding s2(2) by (auto split: if_splits dest: in_diffD)
  have "count (image_mset e_id (wait_entries s2)) i \<le> 1" for i
  proof -
    have "count (image_mset e_id (wait_entries s2)) i \<le> count (image_mset e_id (wait_entries s)) i"
      unfolding we [symmetric] by simp
    then show ?thesis using waits_ok_id [OF W, of i] by simp
  qed
  then show ?thesis
    using q sub waits_okD(2,3) [OF W] unfolding waits_ok_def s2(4,5) by blast
qed

definition popped :: "wait_queue_entry \<Rightarrow> oid \<Rightarrow> server \<Rightarrow> server \<Rightarrow> bool" where
  "popped e t s s2 \<longleftrightarrow>
     (\<forall>x ob. objects s x = Some ob \<longrightarrow> (\<exists>ob2. objects s2 x = Some ob2 \<and> refcount ob2 = refcount ob \<and>
       wait_queue ob2 = (if x = e_obj e then remove1 e (wait_queue ob) else wait_queue ob) \<and>
       (x \<noteq> t \<longrightarrow> body ob2 = body ob))) \<and>
     (\<forall>x. objects s x = None \<longrightarrow> objects s2 x = None)"

lemma pop_entry_ok:
  assumes ok: "server_ok E s" and th: "get_thread s t = Some th" "waits th = w # ws" and e: "e \<in> set (queues w)"
  obtains s2 where "pop_entry t e s = Some s2" "server_ok (E + {#e_obj e#}) s2"
    "get_thread s2 t = Some (th\<lparr>waits := w\<lparr>queues := remove1 e (queues w)\<rparr> # ws\<rparr>)"
    "popped e t s s2" "same_rest s s2" "timeout_list s2 = timeout_list s"
    "expired s2 = expired s" "namespaces s2 = namespaces s"
proof -
  note ok' = server_okD [OF ok]
  let ?x = "e_obj e" and ?th' = "th\<lparr>waits := w\<lparr>queues := remove1 e (queues w)\<rparr> # ws\<rparr>"
  obtain obt where obt: "objects s t = Some obt" "body obt = Thread th" using th(1) by (auto simp: get_Some_iff)
  have tl: "t < next_oid s" by (rule server_ok_range [OF ok obt(1)])
  have ent: "e \<in># entries_at s t" using e th by (simp add: entries_at_waits thread_waits_Some)
  obtain obx where obx: "objects s ?x = Some obx" "e \<in> set (wait_queue obx)" "waitable (ops (body obx))"
    by (rule entry_object [OF ok ent])
  define obt1 where "obt1 = obt\<lparr>body := Thread ?th'\<rparr>"
  define s1 where "s1 = set_obj t obt1 s"
  obtain obx1 where obx1: "objects s1 ?x = Some obx1" "wait_queue obx1 = wait_queue obx" "refcount obx1 = refcount obx"
    "?x \<noteq> t \<longrightarrow> obx1 = obx" "?x = t \<longrightarrow> obx1 = obt1"
    using obx(1) obt by (cases "?x = t") (auto simp: s1_def obt1_def)
  define obx2 where "obx2 = obx1\<lparr>wait_queue := remove1 e (wait_queue obx1)\<rparr>"
  define s2 where "s2 = set_obj ?x obx2 s1"
  have run: "pop_entry t e s = Some s2"
    using th obt obx1(1,2) obx(2)
    by (simp add: pop_entry_def upd_wait_def set_body_def list_remove_def s1_def obt1_def s2_def obx2_def)
  have bx: "body obx2 = body obx1" "obj_name obx2 = obj_name obx1" "refcount obx2 = refcount obx1"
    by (simp_all add: obx2_def)
  have nt: "obj_name obt1 = obj_name obt" "refcount obt1 = refcount obt" by (simp_all add: obt1_def)
  have al1: "alloc_ok s1" unfolding s1_def
    by (rule alloc_ok_set_obj [OF ok'(1) obt(1)])
      (use server_ok_body [OF ok obt(1)] obt(2) th(2) in \<open>simp add: obt1_def\<close>)
  have al2: "alloc_ok s2" unfolding s2_def
    by (rule alloc_ok_set_obj [OF al1 obx1(1)])
      (use al1 obx1(1) in \<open>auto simp: obx2_def alloc_ok_def\<close>)
  have r1: "refs_ok (E + {#?x#}) s1" unfolding s1_def
  proof (rule refs_ok_set_obj [OF ok'(2,1) obt(1)])
    fix y
    have "image_mset e_obj (mset (queues w)) = image_mset e_obj (mset (remove1 e (queues w))) + {#?x#}"
      using image_minus [of e "mset (queues w)" e_obj] e by simp
    then have "obj_refs obt = obj_refs obt1 + {#?x#}"
      using obt(2) th(2) by (simp add: obj_refs_def obt1_def)
    then show "count (obj_refs obt1) y + count (E + {#?x#}) y + (if y = t then refcount obt else 0) =
        count (obj_refs obt) y + count E y + (if y = t then refcount obt1 else 0)"
      by (simp add: nt)
  qed
  have r2: "refs_ok (E + {#?x#}) s2" unfolding s2_def
    by (rule refs_ok_set_obj [OF r1 al1 obx1(1)]) (simp add: obj_refs_def obx2_def)
  note keep1 = upd_at [OF obt(1), of _ obt1, folded s1_def]
  note keep2 = upd_at [OF obx1(1), of _ obx2, folded s2_def]
  have keep: "type_at s2 = type_at s" "owned_at s2 = owned_at s" "owner_at s2 = owner_at s"
    "threads_at s2 = threads_at s" "proc_at s2 = proc_at s" "handles_at s2 = handles_at s"
    "space_at s2 = space_at s" "name_at s2 = name_at s" "busy_at s2 = busy_at s" "alive_at s2 = alive_at s"
    "timeouts_at s2 = timeouts_at s"
    by (rule trans [OF keep2 keep1]; simp add: bx nt obt1_def obt(2) th(2))+
  have R: "next_oid s2 = next_oid s" "next_addr s2 = next_addr s" "namespaces s2 = namespaces s"
    "tolowerW s2 = tolowerW s" "timeout_list s2 = timeout_list s" "expired s2 = expired s"
    "global_table s2 = global_table s" "root_directory s2 = root_directory s" "same_rest s s2"
    by (simp_all add: s2_def s1_def same_rest_def)
  have ents: "entries_at s2 = (entries_at s)(t := entries_at s t - {#e#})"
  proof -
    have "mset (w_entries (body obt1)) = mset (w_entries (body obt)) - {#e#}"
      using e by (simp add: obt1_def obt(2) th(2))
    then have "entries_at s1 = (entries_at s)(t := entries_at s t - {#e#})"
      using obt(1) by (simp add: s1_def look_Some)
    then show ?thesis using keep2 [of "\<lambda>_ ob. mset (w_entries (body ob))" "{#}"] bx by simp
  qed
  have qs: "queue_at s2 = (queue_at s)(?x := queue_at s ?x - {#e#})"
  proof -
    have "queue_at s1 = queue_at s" by (rule keep1) (simp add: obt1_def)
    then show ?thesis using obx1 obx(1) by (simp add: s2_def obx2_def look_Some)
  qed
  have "waits_ok s2" by (rule waits_ok_drop [OF ok'(3) ent tl qs ents R(1,2) keep(1)])
  moreover have "timeouts_ok s2"
    using ok'(6) unfolding timeouts_ok_def timeouts_def R keep .
  moreover have "other_links s s2" by (simp add: other_links_def keep R)
  ultimately have "server_ok (E + {#?x#}) s2" by (intro server_ok_waits [OF ok _ al2 r2])
  moreover have "get_thread s2 t = Some ?th'"
    using obx1(5) by (cases "?x = t") (auto simp: get_thread_def s2_def s1_def obx2_def obt1_def)
  moreover have "\<exists>ob2. objects s2 x = Some ob2 \<and> refcount ob2 = refcount ob \<and>
       wait_queue ob2 = (if x = ?x then remove1 e (wait_queue ob) else wait_queue ob) \<and>
       (x \<noteq> t \<longrightarrow> body ob2 = body ob)" if "objects s x = Some ob" for x ob
  proof (cases "x = ?x")
    case True
    have "objects s2 x = Some obx2" by (simp add: s2_def True)
    moreover have "wait_queue obx2 = remove1 e (wait_queue ob)" "refcount obx2 = refcount ob"
      using that obx(1) obx1(2,3) True by (simp_all add: obx2_def)
    moreover have "x \<noteq> t \<longrightarrow> body obx2 = body ob" using that obx(1) obx1(4) True bx(1) by auto
    ultimately show ?thesis using True by simp
  next
    case False
    show ?thesis using that obt(1) False by (cases "x = t") (simp_all add: s2_def s1_def obt1_def)
  qed
  moreover have "objects s2 x = None" if "objects s x = None" for x
    using that obx(1) obt(1) by (auto simp: s2_def s1_def)
  ultimately have "popped e t s s2" unfolding popped_def by blast
  with \<open>server_ok (E + {#?x#}) s2\<close> \<open>get_thread s2 t = Some ?th'\<close> show ?thesis using that run R by blast
qed

subsection \<open>What waking may change\<close>

text \<open>
  While thread \<open>t\<close> is woken, the entries in \<open>L\<close> leave their queues, the objects it waited for
  change their state, mutexes change hands, and objects whose last reference was an entry go.
\<close>

fun calm_body :: "oid \<Rightarrow> oid \<Rightarrow> obj_body \<Rightarrow> obj_body \<Rightarrow> bool" where
  "calm_body t x (Thread th) b \<longleftrightarrow>
     (\<exists>ms ws. b = Thread (th\<lparr>mutex_list := ms, waits := ws\<rparr>) \<and> (x \<noteq> t \<longrightarrow> ws = waits th))"
| "calm_body t x (Event ev) b \<longleftrightarrow>
     (\<exists>sg. b = Event (ev\<lparr>signaled := sg\<rparr>) \<and> (sg \<longrightarrow> signaled ev) \<and> (manual_reset ev \<longrightarrow> sg = signaled ev))"
| "calm_body t x (Mutex mx) b \<longleftrightarrow>
     (\<exists>mx'. b = Mutex mx' \<and> (owner mx' = owner mx \<or> owner mx = None \<and> owner mx' = Some t))"
| "calm_body t x (Semaphore sm) b \<longleftrightarrow> (\<exists>n. b = Semaphore (sm\<lparr>sem_count := n\<rparr>) \<and> n \<le> sem_count sm)"
| "calm_body t x (Timer tm) b \<longleftrightarrow> (\<exists>sg. b = Timer (tm\<lparr>tm_signaled := sg\<rparr>) \<and> (sg \<longrightarrow> tm_signaled tm))"
| "calm_body t x (Handle_table ht) b \<longleftrightarrow> ops b = handle_table_ops"
| "calm_body t x b b' \<longleftrightarrow> b' = b"

definition still :: "server \<Rightarrow> server \<Rightarrow> bool" where
  "still s s' \<longleftrightarrow> now s' = now s \<and> current s' = current s"

definition calm :: "oid \<Rightarrow> wait_queue_entry set \<Rightarrow> server \<Rightarrow> server \<Rightarrow> bool" where
  "calm t L s s' \<longleftrightarrow> still s s' \<and> (\<forall>e\<in>L. e_thread e = t) \<and>
     (\<forall>x ob'. objects s' x = Some ob' \<longrightarrow>
        (\<exists>ob. objects s x = Some ob \<and> wait_queue ob' = filter (\<lambda>e. e \<notin> L) (wait_queue ob) \<and>
           calm_body t x (body ob) (body ob')))"

lemma calm_body_ops: "calm_body t x b b' \<Longrightarrow> ops b' = ops b"
  by (cases b) auto

lemma calm_mutexes: "calm_body t x (Thread th) (Thread (th\<lparr>mutex_list := ms\<rparr>))"
proof -
  have "th\<lparr>mutex_list := ms\<rparr> = th\<lparr>mutex_list := ms, waits := waits th\<rparr>" by simp
  then show ?thesis unfolding calm_body.simps by metis
qed

lemma calm_waits: "calm_body t t (Thread th) (Thread (th\<lparr>waits := ws\<rparr>))"
proof -
  have "th\<lparr>waits := ws\<rparr> = th\<lparr>mutex_list := mutex_list th, waits := ws\<rparr>" by simp
  then show ?thesis unfolding calm_body.simps by blast
qed

lemma calm_body_refl [simp]: "calm_body t x b b"
proof (cases b)
  case (Thread th)
  have "th\<lparr>mutex_list := mutex_list th\<rparr> = th" by simp
  then show ?thesis using calm_mutexes [of t x th "mutex_list th"] unfolding Thread by simp
next
  case (Event ev)
  have "ev = ev\<lparr>signaled := signaled ev\<rparr>" by simp
  then show ?thesis unfolding Event calm_body.simps by blast
next
  case (Semaphore sm)
  have "sm = sm\<lparr>sem_count := sem_count sm\<rparr>" by simp
  then show ?thesis unfolding Semaphore calm_body.simps by blast
next
  case (Timer tm)
  have "tm = tm\<lparr>tm_signaled := tm_signaled tm\<rparr>" by simp
  then show ?thesis unfolding Timer calm_body.simps by blast
qed simp_all

lemma ops_table: "ops b = handle_table_ops \<longleftrightarrow> (\<exists>ht. b = Handle_table ht)"
  by (cases b) auto

lemma calm_body_trans: "calm_body t x b b' \<Longrightarrow> calm_body t x b' b'' \<Longrightarrow> calm_body t x b b''"
proof (cases b)
  case (Thread th)
  assume 1: "calm_body t x b b'" and 2: "calm_body t x b' b''"
  obtain ms ws where b': "b' = Thread (th\<lparr>mutex_list := ms, waits := ws\<rparr>)" "x \<noteq> t \<longrightarrow> ws = waits th"
    using 1 unfolding Thread by auto
  obtain ms' ws' where "b'' = Thread (th\<lparr>mutex_list := ms', waits := ws'\<rparr>)" "x \<noteq> t \<longrightarrow> ws' = ws"
    using 2 unfolding b'(1) by auto
  then show ?thesis using b'(2) unfolding Thread calm_body.simps by blast
next
  case (Semaphore sm)
  assume 1: "calm_body t x b b'" and 2: "calm_body t x b' b''"
  obtain n where "b' = Semaphore (sm\<lparr>sem_count := n\<rparr>)" "n \<le> sem_count sm" using 1 unfolding Semaphore by auto
  moreover from this 2 obtain m where "b'' = Semaphore (sm\<lparr>sem_count := m\<rparr>)" "m \<le> n" by auto
  ultimately show ?thesis unfolding Semaphore calm_body.simps using order.trans by blast
qed (auto simp: ops_table)

lemma calm_refl [simp]: "calm t {} s s"
  by (auto simp: calm_def still_def same_rest_def)

lemma still_trans: "still a b \<Longrightarrow> still b c \<Longrightarrow> still a c"
  by (simp add: still_def same_rest_def)

lemma still_rest: "same_rest a b \<Longrightarrow> still a b"
  by (simp add: still_def same_rest_def)

lemma calm_trans:
  assumes 1: "calm t L s s1" and 2: "calm t M s1 s2"
  shows "calm t (L \<union> M) s s2"
  unfolding calm_def
proof (intro conjI allI impI)
  show "still s s2" using 1 2 still_trans unfolding calm_def by blast
  show "\<forall>e\<in>L \<union> M. e_thread e = t" using 1 2 unfolding calm_def by blast
  fix x ob2 assume "objects s2 x = Some ob2"
  then obtain ob1 where ob1: "objects s1 x = Some ob1" "wait_queue ob2 = filter (\<lambda>e. e \<notin> M) (wait_queue ob1)"
    "calm_body t x (body ob1) (body ob2)" using 2 unfolding calm_def by blast
  then obtain ob where ob: "objects s x = Some ob" "wait_queue ob1 = filter (\<lambda>e. e \<notin> L) (wait_queue ob)"
    "calm_body t x (body ob) (body ob1)" using 1 unfolding calm_def by blast
  have "wait_queue ob2 = filter (\<lambda>e. e \<notin> L \<union> M) (wait_queue ob)"
    unfolding ob1(2) ob(2) filter_filter by (rule filter_cong) auto
  then show "\<exists>ob. objects s x = Some ob \<and> wait_queue ob2 = filter (\<lambda>e. e \<notin> L \<union> M) (wait_queue ob) \<and>
      calm_body t x (body ob) (body ob2)"
    using ob ob1(3) calm_body_trans by blast
qed

lemma calm_shrinks: "shrinks {} s s' \<Longrightarrow> calm t {} s s'"
  unfolding calm_def
proof (intro conjI allI impI)
  assume sh: "shrinks {} s s'"
  then show "still s s'" by (simp add: shrinks_def still_rest)
  fix x ob' assume ob': "objects s' x = Some ob'"
  then obtain ob where ob: "objects s x = Some ob" using shrinks_None [OF sh, of x] by (cases "objects s x") auto
  have "obj_shrinks ob ob'" by (rule shrinks_survivor [OF sh _ ob ob']) simp
  then have "wait_queue ob' = wait_queue ob" "body_shrinks (body ob) (body ob')" by (auto simp: obj_shrinks_def)
  moreover from this(2) have "calm_body t x (body ob) (body ob')"
    using calm_mutexes unfolding body_shrinks_def by auto
  ultimately show "\<exists>ob. objects s x = Some ob \<and> wait_queue ob' = filter (\<lambda>e. e \<notin> {}) (wait_queue ob) \<and>
      calm_body t x (body ob) (body ob')" using ob by simp
qed simp

lemma calm_get:
  assumes "calm t L s s'" "objects s' x = Some ob'"
  obtains ob where "objects s x = Some ob" "wait_queue ob' = filter (\<lambda>e. e \<notin> L) (wait_queue ob)"
    "calm_body t x (body ob) (body ob')"
  using assms unfolding calm_def by blast

lemma calm_other_waits:
  assumes "calm t L s s'" "u \<noteq> t" "get_thread s' u \<noteq> None"
  shows "thread_waits s' u = thread_waits s u" "get_thread s u \<noteq> None"
proof -
  obtain ob' th' where ob': "objects s' u = Some ob'" "body ob' = Thread th'"
    using assms(3) by (auto simp: get_Some_iff)
  obtain ob where ob: "objects s u = Some ob" "calm_body t u (body ob) (body ob')"
    by (rule calm_get [OF assms(1) ob'(1)])
  then obtain th where "body ob = Thread th" "waits th' = waits th"
    using ob'(2) assms(2) by (cases "body ob") auto
  then show "thread_waits s' u = thread_waits s u" "get_thread s u \<noteq> None"
    using ob ob' by (simp_all add: thread_waits_def get_thread_def)
qed

text \<open>
  The count of a mutex and the entries in its queue: what the count can grow to.
\<close>

fun depth :: "obj_body \<Rightarrow> nat" where
  "depth (Mutex mx) = unat (mx_count mx)"
| "depth _ = 0"

definition load :: "server \<Rightarrow> oid \<Rightarrow> nat" where
  "load = look 0 (\<lambda>_ ob. length (wait_queue ob) + depth (body ob))"

lemma load_Some: "objects s x = Some ob \<Longrightarrow> load s x = length (wait_queue ob) + depth (body ob)"
  by (simp add: load_def look_Some)

lemma load_None: "objects s x = None \<Longrightarrow> load s x = 0"
  by (simp add: load_def look_None)

lemma load_shrinks: "shrinks {} s s' \<Longrightarrow> load s' x \<le> load s x"
proof (cases "objects s' x")
  case (Some ob')
  assume sh: "shrinks {} s s'"
  obtain ob where ob: "objects s x = Some ob" using shrinks_None [OF sh, of x] Some by (cases "objects s x") auto
  have "obj_shrinks ob ob'" by (rule shrinks_survivor [OF sh _ ob Some]) simp
  then have q: "wait_queue ob' = wait_queue ob" and b: "body_shrinks (body ob) (body ob')" by (auto simp: obj_shrinks_def)
  from b have "depth (body ob') = depth (body ob)" unfolding body_shrinks_def by auto
  then show ?thesis unfolding load_Some [OF ob] load_Some [OF Some] q by simp
qed (simp add: load_None)

subsection \<open>A wait is satisfied\<close>

text \<open>A thread that is linked in its process takes a mutex that is free.\<close>

lemma acquire:
  assumes ok: "server_ok E s" and ob: "objects s x = Some ob" and mx: "body ob = Mutex mx" and ow: "owner mx = None"
    and obt: "objects s t = Some obt" and th: "body obt = Thread th" and p: "t_process th = Some p" "t \<in> threads_at s p"
    and mx': "mx_count mx' \<noteq> 0" "owner mx' = Some t"
  shows "server_ok E (set_obj t (obt\<lparr>body := Thread (th\<lparr>mutex_list := x # mutex_list th\<rparr>)\<rparr>)
       (set_obj x (ob\<lparr>body := Mutex mx'\<rparr>) s))"
proof -
  note ok' = server_okD [OF ok]
  have ne: "t \<noteq> x" using obt th ob mx by auto
  define obt' where "obt' = obt\<lparr>body := Thread (th\<lparr>mutex_list := x # mutex_list th\<rparr>)\<rparr>"
  define ob' where "ob' = ob\<lparr>body := Mutex mx'\<rparr>"
  define s1 where "s1 = set_obj x ob' s"
  define s2 where "s2 = set_obj t obt' s1"
  have obt1: "objects s1 t = Some obt" using obt ne by (simp add: s1_def)
  have free: "x \<notin> owned_at s u" for u
    using ok'(5) ob mx ow unfolding mutexes_ok_def by (metis look_Some option.discI owned_by.simps(1))
  then have "x \<notin> owned_at s t" .
  then have new: "x \<notin> set (mutex_list th)" using obt th by (simp add: look_Some)
  have al1: "alloc_ok s1" unfolding s1_def
    by (rule alloc_ok_set_obj [OF ok'(1) ob]) (simp add: ob'_def mx')
  have al: "alloc_ok s2" unfolding s2_def
    by (rule alloc_ok_set_obj [OF al1 obt1]) (use server_ok_body [OF ok obt] th new in \<open>simp add: obt'_def\<close>)
  have "refs_ok E s1"
    unfolding s1_def by (rule refs_ok_set_obj [OF ok'(2,1) ob]) (simp add: ob'_def obj_refs_def mx)
  then have refs: "refs_ok E s2"
    unfolding s2_def by (rule refs_ok_set_obj [OF _ al1 obt1]) (simp add: obt'_def obj_refs_def th)
  have keep: "look d f s2 = look d f s" if "f t obt' = f t obt" "f x ob' = f x ob" for f and d :: 'b
    using upd_at [OF ob, of f ob' d] upd_at [OF obt1, of f obt' d] that by (simp add: s2_def s1_def)
  have L: "type_at s2 = type_at s" "queue_at s2 = queue_at s" "entries_at s2 = entries_at s"
    "threads_at s2 = threads_at s" "proc_at s2 = proc_at s" "handles_at s2 = handles_at s"
    "space_at s2 = space_at s" "name_at s2 = name_at s" "timeouts_at s2 = timeouts_at s"
    "alive_at s2 = alive_at s"
    by (rule keep; simp add: obt'_def ob'_def mx th)+
  have B: "busy_at s2 u \<Longrightarrow> busy_at s u \<or> u = t" for u
    using obt ob by (auto simp: s2_def s1_def ob'_def obt'_def look_Some th mx split: if_splits)
  have R: "next_oid s2 = next_oid s" "next_addr s2 = next_addr s" "namespaces s2 = namespaces s"
    "timeout_list s2 = timeout_list s" "expired s2 = expired s" "global_table s2 = global_table s" "root_directory s2 = root_directory s"
    "linked s2 = linked s" "get_name_hash s2 = get_name_hash s"
    by (simp_all add: s2_def s1_def)
  have W: "wait_entries s2 = wait_entries s" "timeouts s2 = timeouts s"
    unfolding wait_entries_def timeouts_def by (simp_all only: L R)
  have own: "owner_at s2 = (owner_at s)(x := Some t)" "owned_at s2 = (owned_at s)(t := insert x (owned_at s t))"
    using ob obt ne by (auto simp: s2_def s1_def obt'_def ob'_def th look_Some fun_eq_iff look_def mx mx' split: option.splits)
  have "owner_at s x = None" using ob mx ow by (simp add: look_Some)
  then have "mutexes_ok s2"
    using ok'(5) free unfolding mutexes_ok_def own by auto
  moreover have "proc_at s t = Some p" using obt th p by (simp add: look_Some)
  then have "threads_ok s2" using ok'(4) B p(2) unfolding threads_ok_def L by blast
  moreover have "waits_ok s2" using ok'(3) unfolding waits_ok_def L W R by blast
  moreover have "timeouts_ok s2" using ok'(6) unfolding timeouts_ok_def W R by blast
  moreover have "names_ok s2" using ok'(7) unfolding names_ok_def L R by blast
  moreover have "typed_ok s2" using ok'(8) unfolding typed_ok_def L R by blast
  ultimately have "server_ok E s2" using al refs by (simp add: server_ok_def links_ok_def)
  then show ?thesis by (simp add: s2_def s1_def obt'_def ob'_def)
qed

text \<open>What satisfying the wait of \<open>t\<close> for the objects in \<open>X\<close> changes.\<close>

definition granted :: "oid set \<Rightarrow> oid \<Rightarrow> server \<Rightarrow> server \<Rightarrow> bool" where
  "granted X t s s' \<longleftrightarrow> calm t {} s s' \<and> thread_waits s' t = thread_waits s t \<and>
     (\<forall>y. load s' y \<le> load s y + (if y \<in> X then 1 else 0)) \<and>
     (\<forall>y. y \<notin> X \<longrightarrow> obj_signaled y t s' = obj_signaled y t s)"

lemma granted_refl [simp]: "granted X t s s"
  by (simp add: granted_def)

lemma granted_mono: "granted X t s s' \<Longrightarrow> X \<subseteq> Y \<Longrightarrow> granted Y t s s'"
  unfolding granted_def
proof (elim conjE, intro conjI allI impI)
  assume l: "\<forall>y. load s' y \<le> load s y + (if y \<in> X then 1 else 0)" and XY: "X \<subseteq> Y"
  fix y
  have "load s' y \<le> load s y + (if y \<in> X then 1 else 0)" using l by blast
  then show "load s' y \<le> load s y + (if y \<in> Y then 1 else 0)" using XY by (cases "y \<in> X") auto
qed blast+

lemma granted_load: "granted X t s s' \<Longrightarrow> load s' y \<le> load s y + (if y \<in> X then 1 else 0)"
  unfolding granted_def by blast

lemma granted_trans:
  assumes 1: "granted X t s s1" and 2: "granted Y t s1 s2" and l: "\<And>x. x \<in> X \<inter> Y \<Longrightarrow> load s2 x \<le> load s1 x"
  shows "granted (X \<union> Y) t s s2"
  unfolding granted_def
proof (intro conjI allI impI)
  show "calm t {} s s2" using calm_trans [of t "{}" s s1 "{}" s2] assms by (simp add: granted_def)
  show "load s2 y \<le> load s y + (if y \<in> X \<union> Y then 1 else 0)" for y
    using granted_load [OF 1, of y] granted_load [OF 2, of y] l [of y]
    by (cases "y \<in> X"; cases "y \<in> Y") simp_all
qed (use assms in \<open>simp_all add: granted_def\<close>)

lemma granted_trans_same:
  "granted {x} t s s1 \<Longrightarrow> granted {x} t s1 s2 \<Longrightarrow> load s2 x \<le> load s1 x \<Longrightarrow> granted {x} t s s2"
  using granted_trans [of "{x}" t s s1 "{x}" s2] by simp

lemma granted_set_obj:
  assumes ob: "objects s x = Some ob" and b: "calm_body t x (body ob) b" "x \<noteq> t" "depth b \<le> Suc (depth (body ob))"
  shows "granted {x} t s (set_obj x (ob\<lparr>body := b\<rparr>) s)"
proof -
  have "calm t {} s (set_obj x (ob\<lparr>body := b\<rparr>) s)"
    using ob b by (auto simp: calm_def still_def same_rest_def)
  then show ?thesis
    using ob b(2,3) by (auto simp: granted_def thread_waits_def get_thread_def load_def look_Some obj_signaled_def)
qed

end
