(* ===== verification/Wake.thy ===== *)
theory Wake
  imports Wait_Correct
begin

text \<open>
  Ending waits and waking threads: the operations of \<^verbatim>\<open>server/thread.c\<close> from \<^verbatim>\<open>check_wait\<close> to
  \<^verbatim>\<open>wake_up\<close> keep the invariant and meet no undefined case.
\<close>

subsection \<open>Satisfying a wait\<close>

lemma set_body_Some: "objects s x = Some ob \<Longrightarrow> set_body x b s = Some (set_obj x (ob\<lparr>body := b\<rparr>) s)"
  by (simp add: set_body_def)

lemma server_ok_body_upd:
  assumes "server_ok E s" "objects s x = Some ob" "same_links x ob (ob\<lparr>body := b\<rparr>)" "body_ok b" "out_refs b = out_refs (body ob)"
  shows "server_ok E (set_obj x (ob\<lparr>body := b\<rparr>) s)"
  by (rule server_ok_set_obj [OF assms(1-3)]) (use assms(4,5) in \<open>simp_all add: obj_refs_def\<close>)

definition clear_abandoned :: "oid \<Rightarrow> server \<Rightarrow> (bool \<times> server) option" where
  "clear_abandoned o1 s =
     do { mx \<leftarrow> get_mutex s o1;
          if \<not> abandoned mx then Some (False, s)
          else do { s \<leftarrow> set_body o1 (Mutex (mx\<lparr>abandoned := False\<rparr>)) s; Some (True, s) } }"

lemma clear_abandoned_ok:
  assumes ok: "server_ok E s" and ob: "objects s x = Some ob" "body ob = Mutex mx" "mx_count mx = 0 \<longleftrightarrow> owner mx = None"
    and t: "x \<noteq> t"
  shows "\<exists>ab s'. clear_abandoned x s = Some (ab, s') \<and> server_ok E s' \<and> granted {x} t s s' \<and> load s' x \<le> load s x"
proof (cases "abandoned mx")
  case True
  let ?s = "set_obj x (ob\<lparr>body := Mutex (mx\<lparr>abandoned := False\<rparr>)\<rparr>) s"
  have "server_ok E ?s"
    by (rule server_ok_body_upd [OF ok ob(1)]) (use ob in \<open>simp_all add: same_links_def\<close>)
  moreover have "granted {x} t s ?s" by (rule granted_set_obj [OF ob(1)]) (use ob t in simp_all)
  moreover have "load ?s x \<le> load s x" using ob by (simp add: load_def look_Some)
  ultimately show ?thesis
    using ob True by (auto simp: clear_abandoned_def get_mutex_def set_body_def)
next
  case False
  then show ?thesis using ob ok by (auto simp: clear_abandoned_def get_mutex_def)
qed

lemma mutex_satisfied_ok:
  assumes ok: "server_ok E s" and ob: "objects s x = Some ob" "body ob = Mutex mx" "0 < refcount ob"
    and sg: "mutex_signaled mx t" and cnt: "unat (mx_count mx) + 1 < 2 ^ 32"
    and th: "get_thread s t = Some th" "t_process th = Some p" "t \<in> threads_at s p"
  shows "\<exists>ab s'. mutex_satisfied x t s = Some (ab, s') \<and> server_ok E s' \<and> granted {x} t s s'"
proof -
  have bo: "mx_count mx = 0 \<longleftrightarrow> owner mx = None" using server_ok_body [OF ok ob(1,3)] ob(2) by simp
  obtain obt where obt: "objects s t = Some obt" "body obt = Thread th" using th(1) by (auto simp: get_Some_iff)
  have ne: "x \<noteq> t" using ob obt by auto
  have up: "unat (mx_count mx + 1) = Suc (unat (mx_count mx))"
    using cnt by (simp add: unat_word_ariths(1))
  then have nz: "mx_count mx + 1 \<noteq> 0" by (metis nat.distinct(1) unat_0)
  have sig: "mx_count mx = 0 \<or> owner mx = Some t" using sg by (simp add: mutex_signaled_def)
  show ?thesis
  proof (cases "mx_count mx = 0")
    case True
    let ?mx = "mx\<lparr>mx_count := mx_count mx + 1, owner := Some t\<rparr>"
    let ?ob = "ob\<lparr>body := Mutex ?mx\<rparr>" and ?obt = "obt\<lparr>body := Thread (th\<lparr>mutex_list := x # mutex_list th\<rparr>)\<rparr>"
    let ?s = "set_obj t ?obt (set_obj x ?ob s)"
    have ok2: "server_ok E ?s"
      by (rule acquire [OF ok ob(1,2) _ obt th(2,3)]) (use True bo nz in simp_all)
    have at: "objects ?s x = Some ?ob" using ne by simp
    have "calm t {} s ?s"
      using ob obt ne calm_mutexes True bo by (auto simp: calm_def still_def same_rest_def simp del: calm_body.simps(1))
    moreover have "thread_waits ?s t = thread_waits s t" using obt by (simp add: thread_waits_def get_thread_def)
    moreover have "load ?s y \<le> load s y + (if y \<in> {x} then 1 else 0)" for y
      using ob obt ne up by (auto simp: load_def look_Some)
    moreover have "obj_signaled y t ?s = obj_signaled y t s" if "y \<notin> {x}" for y
      using that ob obt ne by (auto simp: obj_signaled_def thread_signaled_def)
    ultimately have g: "granted {x} t s ?s" unfolding granted_def by blast
    obtain ab s' where s': "clear_abandoned x ?s = Some (ab, s')" "server_ok E s'" "granted {x} t ?s s'" "load s' x \<le> load ?s x"
      using clear_abandoned_ok [OF ok2 at, of ?mx t] nz ne by auto
    have "mutex_satisfied x t s = clear_abandoned x ?s"
      using ob obt ne True bo by (simp add: mutex_satisfied_def clear_abandoned_def get_mutex_def get_thread_def set_body_def)
    then show ?thesis using s' granted_trans_same [OF g s'(3,4)] by auto
  next
    case False
    then have own: "owner mx = Some t" using sig by simp
    let ?mx = "mx\<lparr>mx_count := mx_count mx + 1\<rparr>"
    let ?ob = "ob\<lparr>body := Mutex ?mx\<rparr>"
    let ?s = "set_obj x ?ob s"
    have ok2: "server_ok E ?s"
      by (rule server_ok_body_upd [OF ok ob(1)]) (use ob own nz in \<open>simp_all add: same_links_def\<close>)
    have g: "granted {x} t s ?s"
      by (rule granted_set_obj [OF ob(1)]) (use ob ne up in simp_all)
    obtain ab s' where s': "clear_abandoned x ?s = Some (ab, s')" "server_ok E s'" "granted {x} t ?s s'" "load s' x \<le> load ?s x"
      using clear_abandoned_ok [OF ok2, of x ?ob ?mx t] nz own ne by auto
    have "mutex_satisfied x t s = clear_abandoned x ?s"
      using ob own False by (simp add: mutex_satisfied_def clear_abandoned_def get_mutex_def set_body_def)
    then show ?thesis using s' granted_trans_same [OF g s'(3,4)] by auto
  qed
qed

lemma obj_satisfied_ok:
  assumes ok: "server_ok E s" and ob: "objects s x = Some ob" "0 < refcount ob"
    and sg: "obj_signaled x t s = Some True" and cnt: "depth (body ob) + 1 < 2 ^ 32"
    and th: "get_thread s t = Some th" "t_process th = Some p" "t \<in> threads_at s p"
  shows "\<exists>ab s'. obj_satisfied x t s = Some (ab, s') \<and> server_ok E s' \<and> granted {x} t s s'"
proof -
  obtain obt where obt: "objects s t = Some obt" "body obt = Thread th" using th(1) by (auto simp: get_Some_iff)
  have upd: "server_ok E (set_obj x (ob\<lparr>body := b\<rparr>) s) \<and> granted {x} t s (set_obj x (ob\<lparr>body := b\<rparr>) s)"
    if "same_links x ob (ob\<lparr>body := b\<rparr>)" "body_ok b" "out_refs b = out_refs (body ob)" "depth b = depth (body ob)"
      "calm_body t x (body ob) b" "x \<noteq> t" for b
    using server_ok_body_upd [OF ok ob(1) that(1-3)] granted_set_obj [OF ob(1) that(5,6)] that(4) by simp
  show ?thesis
  proof (cases "body ob")
    case (Mutex mx)
    then show ?thesis
      using mutex_satisfied_ok [OF ok ob(1) Mutex ob(2) _ _ th] sg cnt ob(1) by (simp add: obj_satisfied_def obj_signaled_def)
  next
    case (Event ev)
    then have "x \<noteq> t" using ob obt by auto
    then show ?thesis
      using upd [of "Event (ev\<lparr>signaled := False\<rparr>)"] Event ob ok
      by (auto simp: obj_satisfied_def event_satisfied_def get_event_def set_body_def same_links_def)
  next
    case (Semaphore sm)
    then have ne: "x \<noteq> t" using ob obt by auto
    have nz: "sem_count sm \<noteq> 0" using sg ob Semaphore by (simp add: obj_signaled_def semaphore_signaled_def)
    then have "sem_count sm - 1 \<le> sem_count sm" by (simp add: word_le_nat_alt unat_minus_one)
    then have "calm_body t x (Semaphore sm) (Semaphore (sm\<lparr>sem_count := sem_count sm - 1\<rparr>))"
      unfolding calm_body.simps by blast
    then show ?thesis
      using upd [of "Semaphore (sm\<lparr>sem_count := sem_count sm - 1\<rparr>)"] Semaphore ob sg ne nz
      by (auto simp: obj_satisfied_def semaphore_satisfied_def get_semaphore_def set_body_def same_links_def
          obj_signaled_def semaphore_signaled_def)
  next
    case (Timer tm)
    then have "x \<noteq> t" using ob obt by auto
    then show ?thesis
      using upd [of "Timer (tm\<lparr>tm_signaled := False\<rparr>)"] Timer ob ok
      by (auto simp: obj_satisfied_def timer_satisfied_def get_timer_def set_body_def same_links_def)
  qed (use ob ok sg in \<open>auto simp: obj_satisfied_def no_satisfied_def obj_signaled_def\<close>)
qed

lemma busy_linked:
  assumes "server_ok E s" "get_thread s t = Some th" "waits th \<noteq> []"
  obtains p where "t_process th = Some p" "t \<in> threads_at s p"
proof -
  obtain obt where obt: "objects s t = Some obt" "body obt = Thread th" using assms(2) by (auto simp: get_Some_iff)
  then have "busy_at s t" using assms(3) by (simp add: look_Some)
  then obtain p where "proc_at s t = Some p" "t \<in> threads_at s p"
    using threads_ok_busy [OF server_okD(4) [OF assms(1)]] by blast
  then show ?thesis using that obt by (simp add: look_Some)
qed

lemma thread_waits_Cons: "thread_waits s t = w # ws \<Longrightarrow> \<exists>th. get_thread s t = Some th \<and> waits th = w # ws"
  by (auto simp: thread_waits_def split: option.splits)

lemma is_suspended_defined:
  assumes ok: "server_ok E s" and th: "get_thread s t = Some th" "waits th \<noteq> []"
  obtains b where "is_suspended t s = Some b"
proof -
  obtain p where p: "t_process th = Some p" "t \<in> threads_at s p" by (rule busy_linked [OF ok th])
  then obtain obp where "objects s p = Some obp" "t \<in> set (threads_of (body obp))"
    by (auto simp: look_def split: option.splits)
  moreover from this(2) obtain pr where "body obp = Process pr" by (cases "body obp") auto
  ultimately show ?thesis using that th(1) p(1) by (simp add: is_suspended_def get_process_def)
qed

text \<open>An entry of a wait of \<open>t\<close> names an object whose state can be read.\<close>

lemma entry_signaled:
  assumes "server_ok E s" "e \<in># entries_at s t"
  shows "obj_signaled (e_obj e) u s \<noteq> None"
proof -
  obtain ob where ob: "objects s (e_obj e) = Some ob" "waitable (ops (body ob))"
    by (rule entry_object [OF assms])
  then show ?thesis by (cases "body ob") (simp_all add: obj_signaled_def waitable_def)
qed

lemma all_signaled_iff:
  assumes "\<forall>e\<in>set es. obj_signaled (e_obj e) t s \<noteq> None"
  shows "all_signaled es t s = Some (\<forall>e\<in>set es. obj_signaled (e_obj e) t s = Some True)"
  using assms by (induction es) auto

lemma first_signaled_defined:
  assumes "\<forall>e\<in>set es. obj_signaled (e_obj e) t s \<noteq> None"
  shows "\<exists>r. first_signaled es i t s = Some r \<and>
    (\<forall>j x. r = Some (j, x) \<longrightarrow> i \<le> j \<and> (\<exists>e\<in>set es. e_obj e = x \<and> obj_signaled x t s = Some True))"
  using assms
proof (induction es arbitrary: i)
  case (Cons e es)
  then obtain sg where sg: "obj_signaled (e_obj e) t s = Some sg" by auto
  show ?case
  proof (cases sg)
    case False
    then show ?thesis using Cons.IH [of "i + 1"] Cons.prems sg by fastforce
  qed (use sg in auto)
qed simp

lemma entry_satisfied:
  assumes ok: "server_ok E s" and w: "get_thread s t = Some th" "e \<in># entries_at s t"
    and sg: "obj_signaled (e_obj e) t s = Some True" and l: "load s (e_obj e) < 2 ^ 32"
  shows "\<exists>ab s'. obj_satisfied (e_obj e) t s = Some (ab, s') \<and> server_ok E s' \<and> granted {e_obj e} t s s'"
proof -
  obtain ob where ob: "objects s (e_obj e) = Some ob" "e \<in> set (wait_queue ob)" "0 < refcount ob"
    by (rule entry_object [OF ok w(2)])
  have "waits th \<noteq> []" using w by (auto simp: entries_at_waits thread_waits_Some)
  then obtain p where p: "t_process th = Some p" "t \<in> threads_at s p" by (rule busy_linked [OF ok w(1)])
  have "0 < length (wait_queue ob)" using ob(2) by (cases "wait_queue ob") auto
  then have "depth (body ob) + 1 \<le> load s (e_obj e)" unfolding load_Some [OF ob(1)] by linarith
  then have "depth (body ob) + 1 < 2 ^ 32" using l by linarith
  then show ?thesis using obj_satisfied_ok [OF ok ob(1,3) sg _ w(1) p] by blast
qed

lemma granted_thread:
  assumes "granted X t s s'" "thread_waits s t \<noteq> []"
  obtains th where "get_thread s' t = Some th" "thread_waits s' t = thread_waits s t" "entries_at s' t = entries_at s t"
  using assms unfolding granted_def entries_at_waits by (cases "get_thread s' t") (auto simp: thread_waits_def)

lemma satisfy_all_ok:
  assumes "server_ok E s" "thread_waits s t \<noteq> []" "set es \<subseteq> set_mset (entries_at s t)" "distinct (map e_obj es)"
    "\<forall>e\<in>set es. obj_signaled (e_obj e) t s = Some True" "\<forall>e\<in>set es. load s (e_obj e) < 2 ^ 32"
  shows "\<exists>ab s'. satisfy_all es t s = Some (ab, s') \<and> server_ok E s' \<and> granted (e_obj ` set es) t s s'"
  using assms
proof (induction es arbitrary: s)
  case (Cons e es)
  obtain th where th: "get_thread s t = Some th" using Cons.prems(2) by (cases "get_thread s t") (auto simp: thread_waits_def)
  obtain ab s1 where s1: "obj_satisfied (e_obj e) t s = Some (ab, s1)" "server_ok E s1" "granted {e_obj e} t s s1"
    using entry_satisfied [OF Cons.prems(1) th, of e] Cons.prems(3,5,6) by auto
  obtain th1 where th1: "get_thread s1 t = Some th1" "thread_waits s1 t = thread_waits s t" "entries_at s1 t = entries_at s t"
    by (rule granted_thread [OF s1(3) Cons.prems(2)])
  have sg: "\<forall>e'\<in>set es. obj_signaled (e_obj e') t s1 = Some True"
    using s1(3) Cons.prems(4,5) unfolding granted_def by (auto simp: image_iff)
  have ld: "\<forall>e'\<in>set es. load s1 (e_obj e') < 2 ^ 32"
  proof
    fix e' assume e': "e' \<in> set es"
    then have "e_obj e' \<in> e_obj ` set es" by (rule imageI)
    moreover have "e_obj e \<notin> e_obj ` set es" using Cons.prems(4) by simp
    ultimately have "e_obj e' \<noteq> e_obj e" by metis
    then show "load s1 (e_obj e') < 2 ^ 32"
      using granted_load [OF s1(3), of "e_obj e'"] Cons.prems(6) e' by fastforce
  qed
  obtain ab' s2 where s2: "satisfy_all es t s1 = Some (ab', s2)" "server_ok E s2" "granted (e_obj ` set es) t s1 s2"
    using Cons.IH [OF s1(2)] Cons.prems(2-4) th1(2,3) sg ld by auto
  have "granted ({e_obj e} \<union> e_obj ` set es) t s s2"
    by (rule granted_trans [OF s1(3) s2(3)]) (use Cons.prems(4) in auto)
  then show ?case using s1(1) s2(1,2) by simp
qed auto

lemma other_checks_range: "other_checks th w s = -1 \<or> 0 \<le> other_checks th w s"
  by (simp add: other_checks_def)

text \<open>\<^verbatim>\<open>check_wait\<close> takes what the wait is for, or leaves the state as it is.\<close>

lemma check_wait_ok:
  assumes ok: "server_ok E s" and w: "thread_waits s t = w # ws" and d: "distinct (map e_obj (queues w))"
    and l: "\<forall>e\<in>set (queues w). load s (e_obj e) < 2 ^ 32"
  shows "\<exists>ret s'. check_wait t s = Some (ret, s') \<and> server_ok E s' \<and> granted (e_obj ` set (queues w)) t s s' \<and>
    (ret = -1 \<longrightarrow> s' = s)"
proof -
  obtain th where th: "get_thread s t = Some th" "waits th = w # ws" using thread_waits_Cons [OF w] by blast
  obtain susp where susp: "is_suspended t s = Some susp" by (rule is_suspended_defined [OF ok th(1)]) (use th in auto)
  have ent: "set (queues w) \<subseteq> set_mset (entries_at s t)" by (auto simp: entries_at_waits w)
  have def: "\<forall>e\<in>set (queues w). obj_signaled (e_obj e) t s \<noteq> None" using entry_signaled [OF ok] ent by blast
  show ?thesis
  proof (cases susp)
    case True
    then show ?thesis using th susp ok by (simp add: check_wait_def)
  next
    case False
    show ?thesis
    proof (cases "has (w_flags w) SELECT_ALL")
      case all: True
      show ?thesis
      proof (cases "\<forall>e\<in>set (queues w). obj_signaled (e_obj e) t s = Some True")
        case True
        then have as: "all_signaled (queues w) t s = Some True" using all_signaled_iff [OF def] by simp
        obtain ab s' where s': "satisfy_all (queues w) t s = Some (ab, s')" "server_ok E s'"
          "granted (e_obj ` set (queues w)) t s s'"
          using satisfy_all_ok [OF ok _ ent d True l] w by auto
        then have "check_wait t s = Some (if ab then uint STATUS_ABANDONED_WAIT_0 else 0, s')"
          using th susp False all as by (simp add: check_wait_def)
        then show ?thesis using s' by auto
      next
        case no: False
        then have as: "all_signaled (queues w) t s = Some False" using all_signaled_iff [OF def] by simp
        then have "check_wait t s = Some (other_checks th w s, s)"
          using th susp False all by (simp add: check_wait_def)
        then show ?thesis using ok by simp
      qed
    next
      case any: False
      obtain r where r: "first_signaled (queues w) 0 t s = Some r"
        "\<And>j x. r = Some (j, x) \<Longrightarrow> 0 \<le> j \<and> (\<exists>e\<in>set (queues w). e_obj e = x \<and> obj_signaled x t s = Some True)"
        using first_signaled_defined [OF def, of 0] by blast
      show ?thesis
      proof (cases r)
        case None
        then have "check_wait t s = Some (other_checks th w s, s)"
          using th susp False any r(1) by (simp add: check_wait_def)
        then show ?thesis using ok by simp
      next
        case (Some jx)
        obtain j x where jx: "jx = (j, x)" by (cases jx)
        then obtain e where e: "0 \<le> j" "e \<in> set (queues w)" "e_obj e = x" "obj_signaled x t s = Some True"
          using r(2) [of j x] Some by blast
        obtain ab s' where s': "obj_satisfied x t s = Some (ab, s')" "server_ok E s'" "granted {x} t s s'"
          using entry_satisfied [OF ok th(1), of e] e ent l by blast
        have "check_wait t s = Some (if ab then j + uint STATUS_ABANDONED_WAIT_0 else j, s')"
          using th susp False any r(1) Some jx s'(1) by (simp add: check_wait_def)
        moreover have "granted (e_obj ` set (queues w)) t s s'" by (rule granted_mono [OF s'(3)]) (use e in auto)
        ultimately show ?thesis using s'(2) e(1) by auto
      qed
    qed
  qed
qed

subsection \<open>Ending a wait\<close>

lemma upd_wait_cong:
  "get_thread s t = Some th \<Longrightarrow> waits th = w # ws \<Longrightarrow> f w = g w \<Longrightarrow> upd_wait f t s = upd_wait g t s"
  by (simp add: upd_wait_def)

lemma upd_wait_type: "upd_wait f t s = Some s' \<Longrightarrow> type_at s' = type_at s"
  by (auto simp: upd_wait_def set_body_def get_thread_def look_Some look_def split: bind_splits list.splits obj_body.splits)

text \<open>One round of the loop of \<^verbatim>\<open>end_wait\<close> takes an entry off, then releases its object.\<close>

lemma drop_step:
  assumes ok: "server_ok E s" and th: "get_thread s t = Some th" "waits th = w # ws" "queues w = e # es"
    and pop: "pop_entry t e s = Some s2"
  shows "drop_queues rel t (e # es) s = do { s \<leftarrow> rel (e_obj e) s2; drop_queues rel t es s }"
proof -
  have "e \<in># entries_at s t" using th by (simp add: entries_at_waits thread_waits_Some)
  then obtain ob where ob: "objects s (e_obj e) = Some ob" "waitable (ops (body ob))"
    using entry_object [OF ok] by metis
  obtain s1 ob1 q where s1: "upd_wait (\<lambda>w. w\<lparr>queues := es\<rparr>) t s = Some s1" "objects s1 (e_obj e) = Some ob1"
    "list_remove e (wait_queue ob1) = Some q" "s2 = set_obj (e_obj e) (ob1\<lparr>wait_queue := q\<rparr>) s1"
    using pop th upd_wait_cong [OF th(1,2), of "\<lambda>w. w\<lparr>queues := remove1 e (queues w)\<rparr>" "\<lambda>w. w\<lparr>queues := es\<rparr>"]
    by (auto simp: pop_entry_def split: bind_splits)
  have "type_at s1 (e_obj e) = type_at s (e_obj e)" using upd_wait_type [OF s1(1)] by simp
  then have "waitable (ops (body ob1))" using ob s1(2) by (simp add: look_Some)
  then show ?thesis
    using s1 by (simp add: obj_remove_queue_def remove_queue_def)
qed

lemma filter_not_single: "filter (\<lambda>y. y \<notin> {x}) xs = removeAll x xs"
  by (induction xs) auto

lemma calm_pop:
  assumes th: "get_thread s t = Some th" "waits th = w # ws" and t: "e_thread e = t"
    and d: "\<And>ob. objects s (e_obj e) = Some ob \<Longrightarrow> distinct (wait_queue ob)"
    and e: "\<And>x ob. objects s x = Some ob \<Longrightarrow> e \<in> set (wait_queue ob) \<Longrightarrow> x = e_obj e"
    and s2: "get_thread s2 t = Some (th\<lparr>waits := w' # ws\<rparr>)"
    "popped e t s s2" "same_rest s s2"
  shows "calm t {e} s s2"
  unfolding calm_def
proof (intro conjI allI impI)
  fix x ob' assume ob': "objects s2 x = Some ob'"
  then obtain ob where ob: "objects s x = Some ob" using s2(2) unfolding popped_def by (cases "objects s x") auto
  then have q: "wait_queue ob' = (if x = e_obj e then remove1 e (wait_queue ob) else wait_queue ob)"
    "x \<noteq> t \<Longrightarrow> body ob' = body ob" using s2(2) ob' unfolding popped_def by fastforce+
  have "wait_queue ob' = filter (\<lambda>e'. e' \<notin> {e}) (wait_queue ob)"
  proof (cases "x = e_obj e")
    case True
    have "wait_queue ob' = removeAll e (wait_queue ob)" using q(1) True d [of ob] ob distinct_remove1_removeAll by metis
    then show ?thesis by (simp only: filter_not_single)
  next
    case False
    then have "e \<notin> set (wait_queue ob)" using e [OF ob] by blast
    then have "filter (\<lambda>e'. e' \<notin> {e}) (wait_queue ob) = wait_queue ob" by (auto intro: filter_True)
    then show ?thesis using q(1) False by simp
  qed
  moreover have "calm_body t x (body ob) (body ob')"
  proof (cases "x = t")
    case True
    then have "body ob = Thread th" "body ob' = Thread (th\<lparr>waits := w' # ws\<rparr>)"
      using ob ob' th(1) s2(1) by (auto simp: get_Some_iff)
    then show ?thesis unfolding True by (simp only: calm_waits)
  next
    case False
    then show ?thesis using q(2) by simp
  qed
  ultimately show "\<exists>ob. objects s x = Some ob \<and> wait_queue ob' = filter (\<lambda>e'. e' \<notin> {e}) (wait_queue ob) \<and>
      calm_body t x (body ob) (body ob')" using ob by blast
qed (use t s2(3) in \<open>simp_all add: still_rest\<close>)

text \<open>Each queue holds an entry once, and only the entries of its object.\<close>

lemma queue_entries:
  assumes ok: "server_ok E s" and ob: "objects s x = Some ob"
  shows "distinct (wait_queue ob)" "\<And>e. e \<in> set (wait_queue ob) \<Longrightarrow> e_obj e = x \<and> e \<in># entries_at s (e_thread e)"
proof -
  note W = server_okD(3) [OF ok]
  have q: "mset (wait_queue ob) = filter_mset (\<lambda>e. e_obj e = x) (wait_entries s)"
    using waits_ok_queue [OF W, of x] ob by (simp add: look_Some)
  have one: "count (wait_entries s) e \<le> 1" for e
  proof -
    have "count (wait_entries s) e \<le> count (image_mset e_id (wait_entries s)) (e_id e)"
    proof (cases "e \<in># wait_entries s")
      case True
      then have "e \<in># filter_mset (\<lambda>x. e_id e = e_id x) (wait_entries s)" by simp
      then show ?thesis
        unfolding count_image_mset
        by (intro member_le_sum [of e _ "count (wait_entries s)"]) (use True in auto)
    qed (simp add: not_in_iff)
    then show ?thesis using waits_ok_id [OF W, of "e_id e"] by simp
  qed
  have "count (mset (wait_queue ob)) e \<le> 1" for e unfolding q using one [of e] by simp
  then show "distinct (wait_queue ob)" by (metis distinct_count_atmost_1 count_greater_eq_one_iff count_eq_zero_iff
        in_multiset_in_set le_antisym less_one not_le)
  fix e assume "e \<in> set (wait_queue ob)"
  then have "e \<in># mset (wait_queue ob)" by simp
  then have e: "e_obj e = x" "e \<in># wait_entries s" unfolding q by auto
  then obtain u where "e \<in># entries_at s u" unfolding wait_entries_def in_total_iff by blast
  then show "e_obj e = x \<and> e \<in># entries_at s (e_thread e)" using e(1) waits_ok_entry [OF W] by auto
qed

lemma load_pop:
  assumes th: "get_thread s t = Some th" and th2: "get_thread s2 t = Some th2"
    and e: "\<And>ob. objects s (e_obj e) = Some ob \<Longrightarrow> e \<in> set (wait_queue ob)" "objects s (e_obj e) \<noteq> None"
    and s2: "popped e t s s2"
  shows "load s2 y + (if y = e_obj e then 1 else 0) \<le> load s y"
proof (cases "objects s y")
  case None
  then show ?thesis using s2 None e(2) unfolding popped_def by (auto simp: load_None)
next
  case (Some ob)
  then obtain ob2 where ob2: "objects s2 y = Some ob2"
    "wait_queue ob2 = (if y = e_obj e then remove1 e (wait_queue ob) else wait_queue ob)" "y \<noteq> t \<Longrightarrow> body ob2 = body ob"
    using s2 unfolding popped_def by blast
  have "depth (body ob2) = depth (body ob)"
    using ob2(1,3) Some th th2 by (cases "y = t") (auto simp: get_Some_iff)
  moreover have "length (wait_queue ob2) + (if y = e_obj e then 1 else 0) \<le> length (wait_queue ob)"
  proof (cases "y = e_obj e")
    case True
    then have "e \<in> set (wait_queue ob)" using e(1) Some by simp
    then have "0 < length (wait_queue ob)" by (cases "wait_queue ob") auto
    then show ?thesis using ob2(2) True \<open>e \<in> set (wait_queue ob)\<close> by (simp add: length_remove1)
  qed (simp add: ob2(2))
  ultimately show ?thesis by (simp add: load_Some [OF Some] load_Some [OF ob2(1)])
qed

lemma shrinks_thread:
  assumes sh: "shrinks {} s s'" and ok: "server_ok E s'" "t \<in># E" and th: "get_thread s t = Some th"
  obtains ms where "get_thread s' t = Some (th\<lparr>mutex_list := ms\<rparr>)"
proof -
  obtain ob' where ob': "objects s' t = Some ob'"
    using refs_ok_alive [OF server_okD(2) [OF ok(1)], of t] ok(2) by auto
  obtain ob where ob: "objects s t = Some ob" "body ob = Thread th" using th by (auto simp: get_Some_iff)
  have "obj_shrinks ob ob'" by (rule shrinks_survivor [OF sh _ ob(1) ob']) simp
  then have "body_shrinks (body ob) (body ob')" by (auto simp: obj_shrinks_def)
  then have "body ob' = Thread th \<or> (\<exists>ms. body ob' = Thread (th\<lparr>mutex_list := ms\<rparr>))"
    using ob(2) by (auto simp: body_shrinks_def)
  moreover have "th = th\<lparr>mutex_list := mutex_list th\<rparr>" by simp
  ultimately obtain ms where "body ob' = Thread (th\<lparr>mutex_list := ms\<rparr>)" by metis
  then show ?thesis using that ob' by (simp add: get_thread_def)
qed

lemma drop_queues_ok:
  assumes "server_ok E s" "t \<in># E" "get_thread s t = Some th" "waits th = w # ws" "queues w = es"
  shows "\<exists>s' th'. drop_queues release_object t es s = Some s' \<and> server_ok E s' \<and> calm t (set es) s s' \<and>
    get_thread s' t = Some th' \<and> waits th' = w\<lparr>queues := []\<rparr> # ws \<and>
    (\<forall>y. load s' y + length (filter (\<lambda>e. e_obj e = y) es) \<le> load s y)"
  using assms
proof (induction es arbitrary: s th w)
  case Nil
  then have "w = w\<lparr>queues := []\<rparr>" by simp
  with Nil show ?case by auto
next
  case (Cons e es)
  note ok = Cons.prems(1) and th = Cons.prems(3,4,5)
  have ent: "e \<in># entries_at s t" using th by (simp add: entries_at_waits thread_waits_Some)
  obtain ob where ob: "objects s (e_obj e) = Some ob" "e \<in> set (wait_queue ob)" "e_thread e = t"
    by (rule entry_object [OF ok ent])
  have mem: "e \<in> set (queues w)" using th by simp
  obtain s2 where s2: "pop_entry t e s = Some s2" "server_ok (E + {#e_obj e#}) s2"
    "get_thread s2 t = Some (th\<lparr>waits := w\<lparr>queues := remove1 e (queues w)\<rparr> # ws\<rparr>)"
    "popped e t s s2" "same_rest s s2" "timeout_list s2 = timeout_list s"
    "expired s2 = expired s" "namespaces s2 = namespaces s"
    by (rule pop_entry_ok [OF ok th(1,2) mem])
  have c2: "calm t {e} s s2"
    by (rule calm_pop [OF th(1,2) ob(3) _ _ s2(3-5)]) (use queue_entries [OF ok] in blast)+
  have l2: "load s2 y + (if y = e_obj e then 1 else 0) \<le> load s y" for y
    by (rule load_pop [OF th(1) s2(3) _ _ s2(4)]) (use ob in auto)
  obtain s3 where s3: "release_object (e_obj e) s2 = Some s3" "server_ok E s3" "shrinks {} s2 s3"
    using rel.rel_ok [OF s2(2)] by blast
  obtain ms where th3: "get_thread s3 t = Some (th\<lparr>waits := w\<lparr>queues := es\<rparr> # ws, mutex_list := ms\<rparr>)"
    using shrinks_thread [OF s3(3,2) Cons.prems(2) s2(3)] th(3) by auto
  obtain s' th' where s': "drop_queues release_object t es s3 = Some s'" "server_ok E s'" "calm t (set es) s3 s'"
    "get_thread s' t = Some th'" "waits th' = w\<lparr>queues := []\<rparr> # ws"
    "\<forall>y. load s' y + length (filter (\<lambda>e. e_obj e = y) es) \<le> load s3 y"
    using Cons.IH [OF s3(2) Cons.prems(2) th3, of "w\<lparr>queues := es\<rparr>"] by auto
  have "drop_queues release_object t (e # es) s = Some s'"
    unfolding drop_step [OF ok th s2(1)] by (simp add: s3(1) s'(1))
  moreover have "calm t (set (e # es)) s s'"
    using calm_trans [OF c2 calm_trans [OF calm_shrinks [OF s3(3)] s'(3)]] by simp
  moreover have "load s' y + length (filter (\<lambda>e. e_obj e = y) (e # es)) \<le> load s y" for y
  proof -
    have "load s' y + length (filter (\<lambda>e. e_obj e = y) es) \<le> load s3 y" using s'(6) by blast
    also have "load s3 y \<le> load s2 y" by (rule load_shrinks [OF s3(3)])
    finally show ?thesis using l2 [of y] by auto
  qed
  ultimately show ?case using s'(2,4,5) by blast
qed

text \<open>A wait without entries and without timeout is taken off its thread.\<close>

lemma pop_wait:
  assumes ok: "server_ok E s" and ob: "objects s t = Some ob" "body ob = Thread th" "waits th = w # ws"
    and w: "queues w = []" "w_user w = None"
  shows "server_ok E (set_obj t (ob\<lparr>body := Thread (th\<lparr>waits := ws\<rparr>)\<rparr>) s)"
proof -
  note ok' = server_okD [OF ok]
  define ob' where "ob' = ob\<lparr>body := Thread (th\<lparr>waits := ws\<rparr>)\<rparr>"
  define s2 where "s2 = set_obj t ob' s"
  note keep = upd_at [OF ob(1), of _ ob', folded s2_def]
  have L: "type_at s2 = type_at s" "queue_at s2 = queue_at s" "entries_at s2 = entries_at s" "owned_at s2 = owned_at s"
    "owner_at s2 = owner_at s" "threads_at s2 = threads_at s" "proc_at s2 = proc_at s" "handles_at s2 = handles_at s"
    "space_at s2 = space_at s" "name_at s2 = name_at s" "alive_at s2 = alive_at s" "timeouts_at s2 = timeouts_at s"
    by (rule keep; simp add: ob'_def ob w)+
  have R: "next_oid s2 = next_oid s" "next_addr s2 = next_addr s" "namespaces s2 = namespaces s"
    "tolowerW s2 = tolowerW s" "timeout_list s2 = timeout_list s" "expired s2 = expired s"
    "global_table s2 = global_table s" "root_directory s2 = root_directory s"
    by (simp_all add: s2_def)
  have W: "wait_entries s2 = wait_entries s" "timeouts s2 = timeouts s"
    unfolding wait_entries_def timeouts_def by (simp_all only: L R)
  have "alloc_ok s2" unfolding s2_def
    by (rule alloc_ok_set_obj [OF ok'(1) ob(1)]) (use server_ok_body [OF ok ob(1)] ob in \<open>simp add: ob'_def\<close>)
  moreover have "refs_ok E s2" unfolding s2_def
    by (rule refs_ok_set_obj [OF ok'(2,1) ob(1)]) (simp add: ob'_def obj_refs_def ob w)
  moreover have "waits_ok s2" using ok'(3) unfolding waits_ok_def L W R by blast
  moreover have "timeouts_ok s2" using ok'(6) unfolding timeouts_ok_def W R by blast
  moreover have "busy_at s2 u \<Longrightarrow> busy_at s u" for u
    using ob by (auto simp: s2_def ob'_def look_Some split: if_splits)
  then have "other_links s s2" by (simp add: other_links_def L R)
  ultimately have "server_ok E s2" by (intro server_ok_waits [OF ok])
  then show ?thesis by (simp add: s2_def ob'_def)
qed

lemma finish_wait:
  assumes ok: "server_ok E s" and th: "get_thread s t = Some th" "waits th = w # ws" "queues w = []"
  shows "\<exists>s1 s2. (case w_user w of Some u \<Rightarrow> remove_timeout_user u s | None \<Rightarrow> Some s) = Some s1 \<and>
    get_thread s1 t = Some th \<and> set_body t (Thread (th\<lparr>waits := ws\<rparr>)) s1 = Some s2 \<and> server_ok E s2 \<and>
    calm t {} s s2 \<and> get_thread s2 t = Some (th\<lparr>waits := ws\<rparr>) \<and> load s2 = load s"
proof -
  obtain ob where ob: "objects s t = Some ob" "body ob = Thread th" using th(1) by (auto simp: get_Some_iff)
  let ?ob = "ob\<lparr>body := Thread (th\<lparr>waits := ws\<rparr>)\<rparr>"
  have good: ?thesis
    if s1: "(case w_user w of Some u \<Rightarrow> remove_timeout_user u s | None \<Rightarrow> Some s) = Some s1" "objects s1 = objects s"
      "same_rest s s1" "server_ok E (set_obj t ?ob s1)" for s1
  proof -
    have "calm_body t x (body ob) (Thread (th\<lparr>waits := ws\<rparr>))" if "x = t" for x
      unfolding that ob(2) by (rule calm_waits)
    then have "calm t {} s (set_obj t ?ob s1)"
      using s1(2,3) ob by (auto simp: calm_def still_def same_rest_def simp del: calm_body.simps(1))
    moreover have "load (set_obj t ?ob s1) = load s"
      using ob s1(2) by (auto simp: load_def fun_eq_iff look_Some look_cong [OF s1(2)])
    moreover have "get_thread s1 t = Some th" "set_body t (Thread (th\<lparr>waits := ws\<rparr>)) s1 = Some (set_obj t ?ob s1)"
      "get_thread (set_obj t ?ob s1) t = Some (th\<lparr>waits := ws\<rparr>)"
      using s1(2) ob by (simp_all add: get_thread_def set_body_def)
    ultimately show ?thesis using s1(1,4) by blast
  qed
  show ?thesis
  proof (cases "w_user w")
    case None
    show ?thesis
      by (rule good [of s]) (use None pop_wait [OF ok ob th(2,3) None] in \<open>simp_all add: same_rest_def\<close>)
  next
    case (Some u)
    let ?th = "th\<lparr>waits := w\<lparr>w_user := None\<rparr> # ws\<rparr>"
    let ?ob1 = "ob\<lparr>body := Thread ?th\<rparr>"
    have "ob\<lparr>body := body ob\<rparr> = ob" by simp
    then have "?ob1\<lparr>body := body ob\<rparr> = ob" by simp
    then have "\<exists>s1. remove_timeout_user u s = Some s1 \<and> shrinks {} s s1 \<and> objects s1 = objects s \<and>
        server_ok E (set_obj t ?ob1 s1)"
      by (intro drop_timeout [OF ok ob(1), of ?ob1 u "Thread_timeout t (w_id w)"])
        (use ob th Some server_ok_body [OF ok ob(1)] in \<open>simp_all add: same_links_def obj_refs_def\<close>)
    then obtain s1 where s1: "remove_timeout_user u s = Some s1" "shrinks {} s s1" "objects s1 = objects s"
      "server_ok E (set_obj t ?ob1 s1)" by blast
    have "server_ok E (set_obj t (?ob1\<lparr>body := Thread (?th\<lparr>waits := ws\<rparr>)\<rparr>) (set_obj t ?ob1 s1))"
      by (rule pop_wait [OF s1(4), of _ _ _ "w\<lparr>w_user := None\<rparr>"]) (use th in simp_all)
    then have "server_ok E (set_obj t ?ob s1)" by (simp add: set_obj_def)
    then show ?thesis
      by (intro good [of s1]) (use Some s1 in \<open>simp_all add: shrinks_def\<close>)
  qed
qed

theorem end_wait_ok:
  assumes ok: "server_ok E s" "t \<in># E" and w: "thread_waits s t = w # ws"
  shows "\<exists>s'. end_wait release_object t s = Some s' \<and> server_ok E s' \<and> calm t (set (queues w)) s s' \<and>
    thread_waits s' t = ws \<and> get_thread s' t \<noteq> None \<and>
    (\<forall>y. load s' y + length (filter (\<lambda>e. e_obj e = y) (queues w)) \<le> load s y)"
proof -
  obtain th where th: "get_thread s t = Some th" "waits th = w # ws" using thread_waits_Cons [OF w] by blast
  obtain s1 th1 where s1: "drop_queues release_object t (queues w) s = Some s1" "server_ok E s1" "calm t (set (queues w)) s s1"
    "get_thread s1 t = Some th1" "waits th1 = w\<lparr>queues := []\<rparr> # ws"
    "\<forall>y. load s1 y + length (filter (\<lambda>e. e_obj e = y) (queues w)) \<le> load s y"
    using drop_queues_ok [OF ok th refl] by blast
  obtain s2 s3 where s3: "(case w_user (w\<lparr>queues := []\<rparr>) of Some u \<Rightarrow> remove_timeout_user u s1 | None \<Rightarrow> Some s1) = Some s2"
    "get_thread s2 t = Some th1" "set_body t (Thread (th1\<lparr>waits := ws\<rparr>)) s2 = Some s3" "server_ok E s3"
    "calm t {} s1 s3" "get_thread s3 t = Some (th1\<lparr>waits := ws\<rparr>)" "load s3 = load s1"
    using finish_wait [OF s1(2,4,5)] by auto
  have "end_wait release_object t s = Some s3"
    using th s1(1,5) s3(1-3) by (simp add: end_wait_def)
  moreover have "calm t (set (queues w)) s s3" using calm_trans [OF s1(3) s3(5)] by simp
  ultimately show ?thesis using s1(6) s3(4,6,7) by (simp add: thread_waits_def)
qed

subsection \<open>Waking a thread\<close>

text \<open>
  The states in which waking is safe: the invariant holds, every waiting thread is kept alive
  by a reference of its own (that of its connection, released by \<^verbatim>\<open>kill_thread\<close>), no thread
  waits twice for one object, and no mutex count can wrap.
\<close>

definition wakeable :: "oid multiset \<Rightarrow> server \<Rightarrow> bool" where
  "wakeable E s \<longleftrightarrow> server_ok E s \<and> (\<forall>t. thread_waits s t \<noteq> [] \<longrightarrow> t \<in># E) \<and>
     (\<forall>t. distinct (map e_obj (concat (map queues (thread_waits s t))))) \<and> (\<forall>x. load s x < 2 ^ 32)"

lemma wakeableD:
  assumes "wakeable E s"
  shows "server_ok E s" "thread_waits s t \<noteq> [] \<Longrightarrow> t \<in># E"
    "distinct (map e_obj (concat (map queues (thread_waits s t))))" "load s x < 2 ^ 32"
  using assms unfolding wakeable_def by blast+

lemma send_wakeup_sel [simp]:
  "objects (send_thread_wakeup t c n s) = objects s" "thread_waits (send_thread_wakeup t c n s) = thread_waits s"
  "get_thread (send_thread_wakeup t c n s) = get_thread s" "load (send_thread_wakeup t c n s) = load s"
  "server_ok E (send_thread_wakeup t c n s) = server_ok E s"
proof -
  let ?s = "send_thread_wakeup t c n s"
  show o: "objects ?s = objects s" by (simp add: send_thread_wakeup_def)
  show g: "get_thread ?s = get_thread s" by (simp add: get_thread_def [abs_def] o)
  show "thread_waits ?s = thread_waits s" by (simp add: thread_waits_def [abs_def] g)
  show "load ?s = load s" by (simp add: load_def look_cong [OF o])
  show "server_ok E ?s = server_ok E s" by (rule server_ok_cong) (simp_all add: send_thread_wakeup_def)
qed

lemma calm_send: "calm t L s s' \<Longrightarrow> calm t L s (send_thread_wakeup u c n s')"
  unfolding calm_def by (simp add: still_def send_thread_wakeup_def)

lemma calm_no_new_waits:
  assumes "calm t L s s'" "u \<noteq> t" "thread_waits s' u \<noteq> []"
  shows "thread_waits s' u = thread_waits s u"
  using calm_other_waits [OF assms(1,2)] assms(3) by (auto simp: thread_waits_def split: option.splits)

lemma wakeable_calm:
  assumes w: "wakeable E s" and s': "server_ok E s'" "calm t L s s'" "thread_waits s' t = drop k (thread_waits s t)"
    "\<And>y. load s' y \<le> load s y"
  shows "wakeable E s'"
  unfolding wakeable_def
proof (intro conjI allI impI)
  show "server_ok E s'" by (rule s'(1))
  show "load s' x < 2 ^ 32" for x using s'(4) [of x] wakeableD(4) [OF w, of x] by linarith
next
  fix u assume u: "thread_waits s' u \<noteq> []"
  show "u \<in># E"
  proof (cases "u = t")
    case True
    then have "thread_waits s u \<noteq> []" using u s'(3) by auto
    then show ?thesis by (rule wakeableD(2) [OF w])
  next
    case False
    then show ?thesis using calm_no_new_waits [OF s'(2) False u] wakeableD(2) [OF w] u by simp
  qed
next
  fix u
  show "distinct (map e_obj (concat (map queues (thread_waits s' u))))"
  proof (cases "u = t")
    case True
    have "thread_waits s u = take k (thread_waits s u) @ thread_waits s' u" using s'(3) True by simp
    then have "distinct (map e_obj (concat (map queues (take k (thread_waits s u) @ thread_waits s' u))))"
      using wakeableD(3) [OF w, of u] by metis
    then show ?thesis by simp
  next
    case False
    then show ?thesis using calm_no_new_waits [OF s'(2) False] wakeableD(3) [OF w, of u]
      by (cases "thread_waits s' u = []") simp_all
  qed
qed

text \<open>A thread that is stuck waits for nothing, or for what it cannot have.\<close>

definition stuck :: "server \<Rightarrow> oid \<Rightarrow> bool" where
  "stuck s t \<longleftrightarrow> thread_waits s t = [] \<or> check_wait t s = Some (-1, s)"

definition first_check :: "oid \<Rightarrow> server \<Rightarrow> server \<Rightarrow> bool" where
  "first_check t s s' \<longleftrightarrow> (\<exists>ret s1 L. check_wait t s = Some (ret, s1) \<and> ret \<noteq> -1 \<and> calm t L s1 s')"

lemma wake_thread_loop_ok:
  assumes "wakeable E s" "get_thread s t \<noteq> None" "length (thread_waits s t) \<le> n"
  shows "\<exists>k s'. wake_thread_loop n release_object t woken s = Some (woken + k, s') \<and> wakeable E s' \<and>
    k \<le> length (thread_waits s t) \<and> thread_waits s' t = drop k (thread_waits s t) \<and> get_thread s' t \<noteq> None \<and>
    calm t (set (concat (map queues (take k (thread_waits s t))))) s s' \<and> (\<forall>y. load s' y \<le> load s y) \<and>
    (k = 0 \<longrightarrow> s' = s) \<and> stuck s' t \<and> (0 < k \<longrightarrow> first_check t s s')"
  using assms
proof (induction n arbitrary: s woken)
  case 0
  then obtain th where "get_thread s t = Some th" "waits th = []" by (auto simp: thread_waits_def)
  then have "wake_thread_loop 0 release_object t woken s = Some (woken + 0, s)" by (simp add: wake_thread_loop.simps)
  moreover have "stuck s t" using 0 by (simp add: stuck_def)
  ultimately show ?case using 0 by (intro exI [of _ "0::nat"] exI [of _ s]) simp
next
  case (Suc n)
  note ok = wakeableD [OF Suc.prems(1)]
  obtain th where th: "get_thread s t = Some th" using Suc.prems(2) by auto
  show ?case
  proof (cases "thread_waits s t")
    case Nil
    then have "waits th = []" by (simp add: thread_waits_Some [OF th])
    then have "wake_thread_loop (Suc n) release_object t woken s = Some (woken + 0, s)"
      using th by (simp add: wake_thread_loop.simps)
    then show ?thesis using Suc.prems Nil by (intro exI [of _ "0::nat"] exI [of _ s]) (simp add: stuck_def)
  next
    case (Cons w ws)
    then have w: "waits th = w # ws" by (simp add: thread_waits_Some [OF th])
    have tE: "t \<in># E" by (rule ok(2)) (simp add: Cons)
    have d: "distinct (map e_obj (queues w))" using ok(3) [of t] by (simp add: Cons)
    obtain ret s1 where s1: "check_wait t s = Some (ret, s1)" "server_ok E s1"
      "granted (e_obj ` set (queues w)) t s s1" "ret = -1 \<longrightarrow> s1 = s"
      using check_wait_ok [OF ok(1) Cons d] ok(4) by blast
    show ?thesis
    proof (cases "ret = -1")
      case True
      then have "wake_thread_loop (Suc n) release_object t woken s = Some (woken + 0, s)"
        using th w s1(1,4) by (simp add: wake_thread_loop.simps)
      moreover have "stuck s t" using s1(1,4) True by (simp add: stuck_def)
      ultimately show ?thesis using Suc.prems by (intro exI [of _ "0::nat"] exI [of _ s]) simp
    next
      case False
      have w1: "thread_waits s1 t = w # ws" using s1(3) Cons by (simp add: granted_def)
      obtain s2 where s2: "end_wait release_object t s1 = Some s2" "server_ok E s2" "calm t (set (queues w)) s1 s2"
        "thread_waits s2 t = ws" "get_thread s2 t \<noteq> None"
        "\<forall>y. load s2 y + length (filter (\<lambda>e. e_obj e = y) (queues w)) \<le> load s1 y"
        using end_wait_ok [OF s1(2) tE w1] by blast
      let ?s3 = "send_thread_wakeup t (w_cookie w) ret s2"
      have c: "calm t (set (queues w)) s ?s3"
        using calm_send [OF calm_trans [of t "{}" s s1, OF _ s2(3)]] s1(3) by (simp add: granted_def)
      have l: "load ?s3 y \<le> load s y" for y
      proof -
        have "load s2 y + length (filter (\<lambda>e. e_obj e = y) (queues w)) \<le> load s1 y" using s2(6) by blast
        moreover have "load s1 y \<le> load s y + (if y \<in> e_obj ` set (queues w) then 1 else 0)"
          by (rule granted_load [OF s1(3)])
        moreover have "(if y \<in> e_obj ` set (queues w) then 1 else 0) \<le> length (filter (\<lambda>e. e_obj e = y) (queues w))"
          by (auto simp: Suc_le_eq filter_empty_conv)
        ultimately show ?thesis unfolding send_wakeup_sel by linarith
      qed
      have "wakeable E ?s3"
        by (rule wakeable_calm [OF Suc.prems(1) _ c _ l, of 1]) (simp_all add: s2 Cons)
      moreover have "length (thread_waits ?s3 t) \<le> n" using Suc.prems(3) by (simp add: s2 Cons)
      ultimately obtain k s' where s': "wake_thread_loop n release_object t (woken + 1) ?s3 = Some (woken + 1 + k, s')"
        "wakeable E s'" "k \<le> length ws" "thread_waits s' t = drop k ws" "get_thread s' t \<noteq> None"
        "calm t (set (concat (map queues (take k ws)))) ?s3 s'" "\<forall>y. load s' y \<le> load ?s3 y" "stuck s' t"
        using Suc.IH [of ?s3 "woken + 1"] s2(4,5) by auto
      have "wake_thread_loop (Suc n) release_object t woken s = Some (woken + Suc k, s')"
        using th w s1(1) False s2(1) s'(1) by (subst wake_thread_loop.simps) (simp add: Let_def)
      moreover have "calm t (set (concat (map queues (take (Suc k) (w # ws))))) s s'"
        using calm_trans [OF c s'(6)] by simp
      moreover have "load s' y \<le> load s y" for y using s'(7) l [of y] le_trans by blast
      moreover have "first_check t s s'"
        using s1(1) False calm_trans [OF calm_send [OF s2(3)] s'(6)] unfolding first_check_def by blast
      ultimately show ?thesis using s'(2-5,8) unfolding Cons by (intro exI [of _ "Suc k"] exI [of _ s']) simp
    qed
  qed
qed

lemma wake_thread_ok:
  assumes "wakeable E s" "get_thread s t \<noteq> None"
  obtains k s' where "wake_thread release_object t s = Some (k, s')" "wakeable E s'"
    "k \<le> length (thread_waits s t)" "thread_waits s' t = drop k (thread_waits s t)" "get_thread s' t \<noteq> None"
    "calm t (set (concat (map queues (take k (thread_waits s t))))) s s'" "\<And>y. load s' y \<le> load s y"
    "k = 0 \<Longrightarrow> s' = s" "stuck s' t" "0 < k \<Longrightarrow> first_check t s s'"
proof -
  obtain th where th: "get_thread s t = Some th" using assms(2) by auto
  then have "wake_thread release_object t s = wake_thread_loop (length (thread_waits s t)) release_object t 0 s"
    by (simp add: wake_thread_def thread_waits_Some)
  then show ?thesis using wake_thread_loop_ok [OF assms order.refl, of 0] that by auto
qed

subsection \<open>Waking the waiters of an object\<close>

text \<open>
  What waking any number of threads changes: waits end from the innermost on, entries leave
  the queues, a free mutex goes to a thread that waits.
\<close>

definition roused :: "server \<Rightarrow> server \<Rightarrow> bool" where
  "roused s s' \<longleftrightarrow> still s s' \<and> (\<forall>y. load s' y \<le> load s y) \<and>
     (\<forall>u. \<exists>k. thread_waits s' u = drop k (thread_waits s u)) \<and>
     (\<forall>x ob'. objects s' x = Some ob' \<longrightarrow>
        (\<exists>ob. objects s x = Some ob \<and> set (wait_queue ob') \<subseteq> set (wait_queue ob) \<and>
           (body ob' = body ob \<or> (\<exists>t. thread_waits s t \<noteq> [] \<and> calm_body t t (body ob) (body ob')))))"

lemma roused_refl [simp]: "roused s s"
proof -
  have "\<exists>k. thread_waits s u = drop k (thread_waits s u)" for u by (rule exI [of _ 0]) simp
  then show ?thesis by (simp add: roused_def still_def same_rest_def)
qed

lemma roused_waits: "roused s s' \<Longrightarrow> thread_waits s' u \<noteq> [] \<Longrightarrow> thread_waits s u \<noteq> []"
  unfolding roused_def by (metis drop_Nil)

lemma calm_body_trans2:
  assumes "calm_body t t b b'" "calm_body u u b' b''"
  shows "calm_body t t b b'' \<or> calm_body u u b b''"
proof (cases b)
  case (Mutex mx)
  then show ?thesis using assms by auto
next
  case (Thread th)
  then have "calm_body t t b' b''" using assms by auto
  then show ?thesis using calm_body_trans [OF assms(1)] by blast
next
  case (Semaphore sm)
  then have "calm_body t t b' b''" using assms by auto
  then show ?thesis using calm_body_trans [OF assms(1)] by blast
qed (use assms in \<open>auto simp: ops_table\<close>)

lemma roused_trans:
  assumes 1: "roused s s1" and 2: "roused s1 s2"
  shows "roused s s2"
  unfolding roused_def
proof (intro conjI allI impI)
  show "still s s2" using 1 2 still_trans unfolding roused_def by blast
  show "load s2 y \<le> load s y" for y using 1 2 le_trans unfolding roused_def by blast
  show "\<exists>k. thread_waits s2 u = drop k (thread_waits s u)" for u
  proof -
    obtain j k where "thread_waits s1 u = drop j (thread_waits s u)" "thread_waits s2 u = drop k (thread_waits s1 u)"
      using 1 2 unfolding roused_def by blast
    then have "thread_waits s2 u = drop (k + j) (thread_waits s u)" by simp
    then show ?thesis by blast
  qed
  fix x ob2 assume "objects s2 x = Some ob2"
  then obtain ob1 where ob1: "objects s1 x = Some ob1" "set (wait_queue ob2) \<subseteq> set (wait_queue ob1)"
    "body ob2 = body ob1 \<or> (\<exists>t. thread_waits s1 t \<noteq> [] \<and> calm_body t t (body ob1) (body ob2))"
    using 2 unfolding roused_def by blast
  then obtain ob where ob: "objects s x = Some ob" "set (wait_queue ob1) \<subseteq> set (wait_queue ob)"
    "body ob1 = body ob \<or> (\<exists>t. thread_waits s t \<noteq> [] \<and> calm_body t t (body ob) (body ob1))"
    using 1 unfolding roused_def by blast
  have "body ob2 = body ob \<or> (\<exists>t. thread_waits s t \<noteq> [] \<and> calm_body t t (body ob) (body ob2))"
  proof (cases "body ob2 = body ob1 \<or> body ob1 = body ob")
    case True
    then show ?thesis
    proof
      assume eq: "body ob1 = body ob"
      show ?thesis using ob1(3) roused_waits [OF 1] unfolding eq by blast
    qed (use ob(3) in simp)
  next
    case False
    then obtain t u where "thread_waits s t \<noteq> []" "calm_body t t (body ob) (body ob1)"
      "thread_waits s1 u \<noteq> []" "calm_body u u (body ob1) (body ob2)" using ob(3) ob1(3) by blast
    then show ?thesis using calm_body_trans2 roused_waits [OF 1] by blast
  qed
  then show "\<exists>ob. objects s x = Some ob \<and> set (wait_queue ob2) \<subseteq> set (wait_queue ob) \<and>
      (body ob2 = body ob \<or> (\<exists>t. thread_waits s t \<noteq> [] \<and> calm_body t t (body ob) (body ob2)))"
    using ob(1,2) ob1(2) by blast
qed

lemma calm_body_any: "calm_body t x b b' \<Longrightarrow> calm_body t t b b'"
  by (cases b) auto

lemma roused_calm:
  assumes c: "calm t L s s'" and k: "thread_waits s' t = drop k (thread_waits s t)" "k = 0 \<Longrightarrow> s' = s"
    "k \<le> length (thread_waits s t)" and l: "\<And>y. load s' y \<le> load s y"
  shows "roused s s'"
proof (cases "k = 0")
  case False
  then have ne: "thread_waits s t \<noteq> []" using k(3) by auto
  show ?thesis
    unfolding roused_def
  proof (intro conjI allI impI)
    show "still s s'" using c by (simp add: calm_def)
    show "load s' y \<le> load s y" for y by (rule l)
    show "\<exists>k. thread_waits s' u = drop k (thread_waits s u)" for u
    proof (cases "u = t \<or> thread_waits s' u = []")
      case True
      then show ?thesis using k(1) by (metis drop_all order.refl)
    next
      case False
      then have "thread_waits s' u = drop 0 (thread_waits s u)" using calm_no_new_waits [OF c] by simp
      then show ?thesis by blast
    qed
    fix x ob' assume "objects s' x = Some ob'"
    then obtain ob where "objects s x = Some ob" "wait_queue ob' = filter (\<lambda>e. e \<notin> L) (wait_queue ob)"
      "calm_body t x (body ob) (body ob')" by (rule calm_get [OF c])
    then show "\<exists>ob. objects s x = Some ob \<and> set (wait_queue ob') \<subseteq> set (wait_queue ob) \<and>
        (body ob' = body ob \<or> (\<exists>t. thread_waits s t \<noteq> [] \<and> calm_body t t (body ob) (body ob')))"
      using ne calm_body_any by fastforce
  qed
qed (use k in simp)

text \<open>The cursor of the loop, and the entries from it on.\<close>

definition from_cursor :: "'a option \<Rightarrow> 'a list \<Rightarrow> 'a list" where
  "from_cursor cursor xs = (case cursor of None \<Rightarrow> [] | Some x \<Rightarrow> dropWhile (\<lambda>y. y \<noteq> x) xs)"

lemma from_cursor_None [simp]: "from_cursor None xs = []"
  by (simp add: from_cursor_def)

lemma next_in_Some:
  assumes "x \<in> set xs" "distinct xs"
  obtains nxt where "next_in x xs = Some nxt" "from_cursor (Some x) xs = x # from_cursor nxt xs"
    "\<And>y. nxt = Some y \<Longrightarrow> y \<in> set xs \<and> y \<noteq> x"
proof -
  obtain as bs where xs: "xs = as @ x # bs" "x \<notin> set as" using split_list_first [OF assms(1)] by blast
  then have dw: "dropWhile (\<lambda>z. z \<noteq> x) xs = x # bs" by (auto simp: dropWhile_append3)
  show ?thesis
  proof (cases bs)
    case Nil
    then have "next_in x xs = Some None" using dw by (simp add: next_in_def)
    then show ?thesis using dw Nil by (intro that [of None]) (simp_all add: from_cursor_def)
  next
    case (Cons y r)
    then have "y \<notin> set as" "y \<noteq> x" using assms(2) xs by auto
    then have "dropWhile (\<lambda>z. z \<noteq> y) ((as @ [x]) @ y # r) = dropWhile (\<lambda>z. z \<noteq> y) (y # r)"
      by (intro dropWhile_append2) auto
    then have "dropWhile (\<lambda>z. z \<noteq> y) xs = bs" using xs Cons by simp
    moreover have "next_in x xs = Some (Some y)" using dw Cons by (simp add: next_in_def)
    moreover have "y \<in> set xs" using xs Cons by simp
    ultimately show ?thesis using dw \<open>y \<noteq> x\<close> by (intro that [of "Some y"]) (simp_all add: from_cursor_def)
  qed
qed

lemma from_cursor_filter:
  "(\<And>y. cursor = Some y \<Longrightarrow> P y) \<Longrightarrow> from_cursor cursor (filter P xs) = filter P (from_cursor cursor xs)"
  by (cases cursor) (simp, induction xs, auto simp: from_cursor_def)

text \<open>A thread that does not wait twice for the object has one entry in its queue.\<close>

lemma one_entry:
  assumes w: "wakeable E s" and ob: "objects s x = Some ob"
    and e: "e \<in> set (wait_queue ob)" "e' \<in> set (wait_queue ob)" "e_thread e' = e_thread e"
  shows "e' = e"
proof -
  note ok = wakeableD [OF w]
  note q = queue_entries(2) [OF ok(1) ob]
  have "e \<in> set (concat (map queues (thread_waits s (e_thread e))))"
    "e' \<in> set (concat (map queues (thread_waits s (e_thread e))))" "e_obj e' = e_obj e"
    using q [OF e(1)] q [OF e(2)] e(3) unfolding entries_at_waits by simp_all
  moreover have "inj_on e_obj (set (concat (map queues (thread_waits s (e_thread e)))))"
    using ok(3) [of "e_thread e"] unfolding distinct_map by blast
  ultimately show ?thesis by (meson inj_onD)
qed

text \<open>One round of the loop.\<close>

lemma wake_up_round:
  assumes w: "wakeable E s" "x \<in># E" and ob: "objects s x = Some ob" and ptr: "ptr \<in> set (wait_queue ob)"
  obtains k s1 ob1 nxt where "wake_thread release_object (e_thread ptr) s = Some (k, s1)" "wakeable E s1" "roused s s1"
    "objects s1 x = Some ob1" "next_in ptr (wait_queue ob) = Some nxt" "set_option nxt \<subseteq> set (wait_queue ob1)"
    "length (from_cursor nxt (wait_queue ob1)) < length (from_cursor (Some ptr) (wait_queue ob))"
    "\<forall>e\<in>set (from_cursor (Some ptr) (wait_queue ob)). e_thread e \<noteq> e_thread ptr \<longrightarrow>
       e \<in> set (from_cursor nxt (wait_queue ob1))"
    "\<exists>L. calm (e_thread ptr) L s s1" "k = 0 \<longrightarrow> s1 = s" "stuck s1 (e_thread ptr)"
    "0 < k \<longrightarrow> first_check (e_thread ptr) s s1"
proof -
  let ?t = "e_thread ptr"
  note ok = wakeableD [OF w(1)]
  have q: "distinct (wait_queue ob)" by (rule queue_entries(1) [OF ok(1) ob])
  have "ptr \<in># entries_at s ?t" using queue_entries(2) [OF ok(1) ob ptr] by simp
  then have th: "get_thread s ?t \<noteq> None"
    unfolding entries_at_waits by (cases "get_thread s ?t") (auto simp: thread_waits_def)
  obtain k s1 where s1: "wake_thread release_object ?t s = Some (k, s1)" "wakeable E s1"
    "k \<le> length (thread_waits s ?t)" "thread_waits s1 ?t = drop k (thread_waits s ?t)" "get_thread s1 ?t \<noteq> None"
    "calm ?t (set (concat (map queues (take k (thread_waits s ?t))))) s s1" "\<And>y. load s1 y \<le> load s y"
    "k = 0 \<Longrightarrow> s1 = s" "stuck s1 ?t" "0 < k \<Longrightarrow> first_check ?t s s1"
    by (rule wake_thread_ok [OF w(1) th]) blast
  let ?L = "set (concat (map queues (take k (thread_waits s ?t))))"
  have r1: "roused s s1" by (rule roused_calm [OF s1(6,4,8,3,7)])
  obtain ob1 where ob1: "objects s1 x = Some ob1"
    using refs_ok_alive [OF server_okD(2) [OF wakeableD(1) [OF s1(2)]], of x] w(2) by auto
  obtain ob0 where "objects s x = Some ob0" "wait_queue ob1 = filter (\<lambda>e. e \<notin> ?L) (wait_queue ob0)"
    by (rule calm_get [OF s1(6) ob1])
  then have q1: "wait_queue ob1 = filter (\<lambda>e. e \<notin> ?L) (wait_queue ob)" using ob by simp
  obtain nxt where nxt: "next_in ptr (wait_queue ob) = Some nxt"
    "from_cursor (Some ptr) (wait_queue ob) = ptr # from_cursor nxt (wait_queue ob)"
    "\<And>y. nxt = Some y \<Longrightarrow> y \<in> set (wait_queue ob) \<and> y \<noteq> ptr"
    by (rule next_in_Some [OF ptr q]) blast
  have out: "e \<notin> ?L" if "e_thread e \<noteq> ?t" for e using that s1(6) unfolding calm_def by blast
  have nL: "y \<notin> ?L \<and> y \<in> set (wait_queue ob)" if y: "nxt = Some y" for y
    using one_entry [OF w(1) ob ptr, of y] nxt(3) [OF y] out [of y] by blast
  have f: "from_cursor nxt (wait_queue ob1) = filter (\<lambda>e. e \<notin> ?L) (from_cursor nxt (wait_queue ob))"
    unfolding q1 by (rule from_cursor_filter) (use nL in blast)
  have "set_option nxt \<subseteq> set (wait_queue ob1)" using nL unfolding q1 by (cases nxt) auto
  moreover have "length (from_cursor nxt (wait_queue ob1)) < length (from_cursor (Some ptr) (wait_queue ob))"
    unfolding f nxt(2) by (simp add: less_Suc_eq_le)
  moreover have "\<forall>e\<in>set (from_cursor (Some ptr) (wait_queue ob)). e_thread e \<noteq> ?t \<longrightarrow>
      e \<in> set (from_cursor nxt (wait_queue ob1))"
    unfolding f nxt(2) using out by auto
  ultimately show ?thesis using that [OF s1(1,2) r1 ob1 nxt(1)] s1(6,8-10) by blast
qed

lemma wake_up_loop_ok:
  assumes "wakeable E s" "x \<in># E" "objects s x = Some ob" "set_option cursor \<subseteq> set (wait_queue ob)"
    "length (from_cursor cursor (wait_queue ob)) \<le> n"
  shows "\<exists>s'. wake_up_loop n release_object x cursor mx s = Some s' \<and> wakeable E s' \<and> roused s s'"
  using assms
proof (induction n arbitrary: s ob cursor mx)
  case 0
  have "cursor = None"
  proof (cases cursor)
    case (Some ptr)
    then show ?thesis using "0.prems"(4,5) by (auto simp: from_cursor_def dropWhile_eq_Nil_conv)
  qed
  then show ?case using "0.prems"(1,3) by (simp add: wake_up_loop.simps)
next
  case (Suc n)
  note ob = Suc.prems(3)
  show ?case
  proof (cases cursor)
    case None
    then show ?thesis using Suc.prems(1,3) by (simp add: wake_up_loop.simps)
  next
    case (Some ptr)
    have ptr: "ptr \<in> set (wait_queue ob)" using Suc.prems(4) Some by simp
    obtain k s1 ob1 nxt where s1: "wake_thread release_object (e_thread ptr) s = Some (k, s1)" "wakeable E s1" "roused s s1"
      "objects s1 x = Some ob1" "next_in ptr (wait_queue ob) = Some nxt" "set_option nxt \<subseteq> set (wait_queue ob1)"
      "length (from_cursor nxt (wait_queue ob1)) < length (from_cursor (Some ptr) (wait_queue ob))"
      by (rule wake_up_round [OF Suc.prems(1,2) ob ptr])
    show ?thesis
    proof (cases "k > 0 \<and> mx \<noteq> 0 \<and> mx - 1 = 0")
      case True
      then have "wake_up_loop (Suc n) release_object x cursor mx s = Some s1"
        using ob Some s1(1,5) by (subst wake_up_loop.simps) simp
      then show ?thesis using s1(2,3) by blast
    next
      case False
      have "length (from_cursor nxt (wait_queue ob1)) \<le> n" using s1(7) Suc.prems(5) Some by simp
      then obtain s' where s': "wake_up_loop n release_object x nxt (if k > 0 \<and> mx \<noteq> 0 then mx - 1 else mx) s1 = Some s'"
        "wakeable E s'" "roused s1 s'" using Suc.IH [OF s1(2) Suc.prems(2) s1(4,6)] by blast
      have "wake_up_loop (Suc n) release_object x cursor mx s = Some s'"
        using ob Some s1(1,5) False s'(1) by (subst wake_up_loop.simps) auto
      then show ?thesis using s'(2) roused_trans [OF s1(3) s'(3)] by blast
    qed
  qed
qed

definition queue_cursor :: "object \<Rightarrow> wait_queue_entry option" where
  "queue_cursor ob = (case wait_queue ob of [] \<Rightarrow> None | e # _ \<Rightarrow> Some e)"

lemma queue_cursor_facts: "set_option (queue_cursor ob) \<subseteq> set (wait_queue ob)"
  "from_cursor (queue_cursor ob) (wait_queue ob) = wait_queue ob"
  by (auto simp: queue_cursor_def from_cursor_def split: list.splits)

theorem wake_up_ok:
  assumes "wakeable E s" "x \<in># E"
  shows "\<exists>s'. wake_up release_object x mx s = Some s' \<and> wakeable E s' \<and> roused s s'"
proof -
  obtain ob where ob: "objects s x = Some ob"
    using refs_ok_alive [OF server_okD(2) [OF wakeableD(1) [OF assms(1)]], of x] assms(2) by auto
  have "\<exists>s'. wake_up_loop (length (wait_queue ob)) release_object x (queue_cursor ob) mx s = Some s' \<and>
      wakeable E s' \<and> roused s s'"
    by (rule wake_up_loop_ok [OF assms ob]) (simp_all add: queue_cursor_facts)
  then show ?thesis using ob by (simp add: wake_up_def queue_cursor_def)
qed

end
