(* ===== verification/Wake_Ops.thy ===== *)
theory Wake_Ops
  imports Wake Sample
begin

text \<open>
  The operations that wake threads: events, semaphores, mutexes, asynchronous calls and
  resuming (\<^verbatim>\<open>server/event.c\<close>, \<^verbatim>\<open>server/semaphore.c\<close>, \<^verbatim>\<open>server/mutex.c\<close>, \<^verbatim>\<open>server/thread.c\<close>).
\<close>

subsection \<open>Changing the state of one object\<close>

fun waits_of :: "obj_body \<Rightarrow> thread_wait list" where
  "waits_of (Thread th) = waits th"
| "waits_of _ = []"

lemma thread_waits_look: "thread_waits s = look [] (\<lambda>_ ob. waits_of (body ob)) s"
proof
  fix t
  show "thread_waits s t = look [] (\<lambda>_ ob. waits_of (body ob)) s t"
  proof (cases "objects s t")
    case (Some ob)
    then show ?thesis by (cases "body ob") (simp_all add: thread_waits_def get_thread_def look_Some)
  qed (simp add: thread_waits_def get_thread_def look_None)
qed

lemma wakeable_upd:
  assumes w: "wakeable E s" and ob: "objects s x = Some ob"
    and b: "same_links x ob (ob\<lparr>body := b\<rparr>)" "body_ok b" "out_refs b = out_refs (body ob)"
      "waits_of b = waits_of (body ob)" "depth b \<le> depth (body ob)"
  shows "wakeable E (set_obj x (ob\<lparr>body := b\<rparr>) s)"
proof -
  note ok = wakeableD [OF w]
  let ?s = "set_obj x (ob\<lparr>body := b\<rparr>) s"
  have tw: "thread_waits ?s = thread_waits s"
    unfolding thread_waits_look by (rule upd_at [OF ob]) (simp add: b(4))
  have l: "load ?s y < 2 ^ 32" for y
    using ok(4) [of y] ob b(5) by (cases "y = x") (simp_all add: load_def look_Some)
  have "server_ok E ?s" by (rule server_ok_body_upd [OF ok(1) ob b(1-3)])
  then show ?thesis unfolding wakeable_def tw using l ok(2,3) by blast
qed

lemma set_signaled_ok:
  assumes "wakeable E s" "get_event s x = Some ev"
  shows "\<exists>s'. set_signaled x b s = Some s' \<and> wakeable E s' \<and> get_event s' x = Some (ev\<lparr>signaled := b\<rparr>) \<and>
    thread_waits s' = thread_waits s \<and> load s' = load s"
proof -
  obtain ob where ob: "objects s x = Some ob" "body ob = Event ev" using assms(2) by (auto simp: get_Some_iff)
  let ?b = "Event (ev\<lparr>signaled := b\<rparr>)"
  let ?s = "set_obj x (ob\<lparr>body := ?b\<rparr>) s"
  have "wakeable E ?s" by (rule wakeable_upd [OF assms(1) ob(1)]) (simp_all add: same_links_def ob)
  moreover have "thread_waits ?s = thread_waits s"
    unfolding thread_waits_look by (rule upd_at [OF ob(1)]) (simp add: ob)
  moreover have "load ?s = load s" unfolding load_def by (rule upd_at [OF ob(1)]) (simp add: ob)
  ultimately show ?thesis using ob by (simp add: set_signaled_def get_event_def set_body_def)
qed

subsection \<open>What a thread waits for\<close>

definition ready :: "thread_wait \<Rightarrow> oid \<Rightarrow> server \<Rightarrow> bool" where
  "ready w t s \<longleftrightarrow>
     (if has (w_flags w) SELECT_ALL then \<forall>e\<in>set (queues w). obj_signaled (e_obj e) t s = Some True
      else \<exists>e\<in>set (queues w). obj_signaled (e_obj e) t s = Some True)"

lemma first_signaled_iff:
  assumes "\<forall>e\<in>set es. obj_signaled (e_obj e) t s \<noteq> None"
  shows "first_signaled es i t s = Some None \<longleftrightarrow> (\<forall>e\<in>set es. obj_signaled (e_obj e) t s \<noteq> Some True)"
  using assms by (induction es arbitrary: i) (auto split: if_splits)

lemma wait_signaled:
  assumes "wakeable E s" "thread_waits s t = w # ws"
  shows "\<forall>e\<in>set (queues w). obj_signaled (e_obj e) t s \<noteq> None"
proof
  fix e assume "e \<in> set (queues w)"
  then have "e \<in># entries_at s t" by (simp add: entries_at_waits assms(2))
  then show "obj_signaled (e_obj e) t s \<noteq> None" by (rule entry_signaled [OF wakeableD(1) [OF assms(1)]])
qed

text \<open>When \<^verbatim>\<open>check_wait\<close> gives \<^verbatim>\<open>-1\<close>.\<close>

lemma check_wait_stuck:
  assumes w: "wakeable E s" and th: "get_thread s t = Some th" "waits th = w # ws"
    and r: "check_wait t s = Some (ret, s')"
  shows "ret = -1 \<longleftrightarrow> is_suspended t s = Some True \<or> \<not> ready w t s \<and> other_checks th w s = -1"
proof -
  have tw: "thread_waits s t = w # ws" using th by (simp add: thread_waits_Some)
  note def = wait_signaled [OF w tw]
  obtain susp where susp: "is_suspended t s = Some susp"
    by (rule is_suspended_defined [OF wakeableD(1) [OF w] th(1)]) (use th in auto)
  have pos: "0 \<le> ret" if "ready w t s" "\<not> susp"
  proof (cases "has (w_flags w) SELECT_ALL")
    case True
    then have "all_signaled (queues w) t s = Some True" using that all_signaled_iff [OF def] by (simp add: ready_def)
    then show ?thesis using r th susp that True by (auto simp: check_wait_def split: bind_splits if_splits)
  next
    case False
    then have "first_signaled (queues w) 0 t s \<noteq> Some None" using that first_signaled_iff [OF def] by (auto simp: ready_def)
    then obtain j x where "first_signaled (queues w) 0 t s = Some (Some (j, x))" "0 \<le> j"
      using first_signaled_defined [OF def, of 0] by fastforce
    then show ?thesis using r th susp that False by (auto simp: check_wait_def split: bind_splits if_splits)
  qed
  have not: "ret = other_checks th w s" if "\<not> ready w t s" "\<not> susp"
  proof (cases "has (w_flags w) SELECT_ALL")
    case True
    then have "all_signaled (queues w) t s = Some False" using that all_signaled_iff [OF def] by (simp add: ready_def)
    then show ?thesis using r th susp that True by (auto simp: check_wait_def)
  next
    case False
    then have "first_signaled (queues w) 0 t s = Some None" using that first_signaled_iff [OF def] by (auto simp: ready_def)
    then show ?thesis using r th susp that False by (auto simp: check_wait_def)
  qed
  show ?thesis
  proof (cases susp)
    case True
    then show ?thesis using r th susp by (simp add: check_wait_def)
  next
    case False
    then show ?thesis using pos not susp by (cases "ready w t s") auto
  qed
qed

lemma stuck_iff:
  assumes w: "wakeable E s" and th: "get_thread s t = Some th" "waits th = w # ws"
  shows "stuck s t \<longleftrightarrow> is_suspended t s = Some True \<or> \<not> ready w t s \<and> other_checks th w s = -1"
proof -
  have tw: "thread_waits s t = w # ws" using th by (simp add: thread_waits_Some)
  have d: "distinct (map e_obj (queues w))" using wakeableD(3) [OF w, of t] by (simp add: tw)
  obtain ret s' where r: "check_wait t s = Some (ret, s')" "ret = -1 \<longrightarrow> s' = s"
    using check_wait_ok [OF wakeableD(1) [OF w] tw d] wakeableD(4) [OF w] by blast
  then show ?thesis using check_wait_stuck [OF w th r(1)] by (auto simp: stuck_def tw)
qed

text \<open>What a thread waits for does not appear while another thread is woken.\<close>

lemma calm_signaled:
  assumes w: "wakeable E s" "wakeable E' s1" and c: "calm u L s s1" and u: "u \<noteq> t"
    and e: "e \<in># entries_at s1 t" and sg: "obj_signaled (e_obj e) t s1 = Some True"
  shows "obj_signaled (e_obj e) t s = Some True"
proof -
  note ok = wakeableD(1) [OF w(1)] and ok1 = wakeableD(1) [OF w(2)]
  obtain ob1 where ob1: "objects s1 (e_obj e) = Some ob1" "0 < refcount ob1" by (rule entry_object [OF ok1 e])
  then obtain ob where ob: "objects s (e_obj e) = Some ob" "calm_body u (e_obj e) (body ob) (body ob1)"
    using calm_get [OF c] by metis
  have "body_ok (body ob1)" by (rule server_ok_body [OF ok1 ob1])
  moreover have "body_ok (body ob)"
  proof -
    have "0 < refcount ob"
    proof (rule ccontr)
      assume "\<not> 0 < refcount ob"
      then have "wait_queue ob = []" using no_refs(3) [OF ok ob(1)] by simp
      moreover have "e \<in> set (wait_queue ob1)" using entry_object [OF ok1 e] ob1(1) by fastforce
      moreover obtain ob' where "objects s (e_obj e) = Some ob'" "wait_queue ob1 = filter (\<lambda>e. e \<notin> L) (wait_queue ob')"
        by (rule calm_get [OF c ob1(1)])
      ultimately show False using ob(1) by simp
    qed
    then show ?thesis by (rule server_ok_body [OF ok ob(1)])
  qed
  moreover have "body_signaled (body ob1) t = Some True" using sg ob1 by (simp add: obj_signaled_def)
  ultimately have "body_signaled (body ob) t = Some True"
    using ob(2) u by (cases "body ob") (auto simp: thread_signaled_def event_signaled_def mutex_signaled_def
        semaphore_signaled_def timer_signaled_def word_gt_0 ops_table)
  then show ?thesis using ob(1) by (simp add: obj_signaled_def)
qed

lemma calm_stuck:
  assumes w: "wakeable E s" "wakeable E' s1" and c: "calm u L s s1" and u: "u \<noteq> t" and st: "stuck s t"
  shows "stuck s1 t"
proof (cases "thread_waits s1 t")
  case (Cons w' ws)
  then have tw: "thread_waits s t = w' # ws" using calm_no_new_waits [OF c, of t] u by simp
  obtain th1 where th1: "get_thread s1 t = Some th1" "waits th1 = w' # ws" using thread_waits_Cons [OF Cons] by blast
  obtain th where th: "get_thread s t = Some th" "waits th = w' # ws" using thread_waits_Cons [OF tw] by blast
  obtain ob1 where ob1: "objects s1 t = Some ob1" "body ob1 = Thread th1" using th1(1) by (auto simp: get_Some_iff)
  obtain ob where ob: "objects s t = Some ob" "calm_body u t (body ob) (body ob1)" by (rule calm_get [OF c ob1(1)])
  have "body ob = Thread th" using th(1) ob(1) by (auto simp: get_Some_iff)
  then obtain ms where ms: "th1 = th\<lparr>mutex_list := ms\<rparr>" using ob(2) ob1(2) u by auto
  have susp: "is_suspended t s1 = is_suspended t s"
  proof -
    obtain b where b: "is_suspended t s1 = Some b"
      by (rule is_suspended_defined [OF wakeableD(1) [OF w(2)] th1(1)]) (simp add: th1)
    then obtain p pr where p: "t_process th1 = Some p" "get_process s1 p = Some pr"
      using th1(1) by (auto simp: is_suspended_def split: bind_splits)
    then obtain obp1 where obp1: "objects s1 p = Some obp1" "body obp1 = Process pr" by (auto simp: get_Some_iff)
    obtain obp where "objects s p = Some obp" "calm_body u p (body obp) (body obp1)" by (rule calm_get [OF c obp1(1)])
    then have "get_process s p = Some pr" using obp1(2) by (cases "body obp") (auto simp: get_process_def)
    then show ?thesis using p th th1(1) ms by (simp add: is_suspended_def)
  qed
  have "now s1 = now s" using c by (simp add: calm_def still_def same_rest_def)
  then have oc: "other_checks th1 w' s1 = other_checks th w' s" using ms by (simp add: other_checks_def cong: if_cong)
  have sg: "obj_signaled (e_obj e) t s = Some True" if "e \<in> set (queues w')" "obj_signaled (e_obj e) t s1 = Some True" for e
    by (rule calm_signaled [OF w c u _ that(2)]) (use that(1) in \<open>simp add: entries_at_waits Cons\<close>)
  have "ready w' t s1 \<Longrightarrow> ready w' t s" using sg unfolding ready_def by (auto split: if_splits)
  then show ?thesis using st unfolding stuck_iff [OF w(1) th] stuck_iff [OF w(2) th1] susp oc by blast
qed (simp add: stuck_def)

subsection \<open>What is left of an object to take\<close>

text \<open>
  An auto-reset event and a semaphore are used up by the threads they wake.  \<open>units\<close> is what is
  left to take, \<open>quench\<close> takes it all away.
\<close>

fun units :: "obj_body \<Rightarrow> nat" where
  "units (Event ev) = (if signaled ev then 1 else 0)"
| "units (Semaphore sm) = unat (sem_count sm)"
| "units _ = 0"

fun quenched :: "obj_body \<Rightarrow> obj_body" where
  "quenched (Event ev) = Event (ev\<lparr>signaled := False\<rparr>)"
| "quenched (Semaphore sm) = Semaphore (sm\<lparr>sem_count := 0\<rparr>)"
| "quenched b = b"

fun consumable :: "obj_body \<Rightarrow> bool" where
  "consumable (Event ev) = (\<not> manual_reset ev)"
| "consumable (Semaphore sm) = True"
| "consumable _ = False"

definition quench :: "oid \<Rightarrow> server \<Rightarrow> server" where
  "quench x s = (case objects s x of None \<Rightarrow> s | Some ob \<Rightarrow> set_obj x (ob\<lparr>body := quenched (body ob)\<rparr>) s)"

lemma quench_Some: "objects s x = Some ob \<Longrightarrow> quench x s = set_obj x (ob\<lparr>body := quenched (body ob)\<rparr>) s"
  by (simp add: quench_def)

lemma wakeable_quench:
  assumes "wakeable E s"
  shows "wakeable E (quench x s)"
proof (cases "objects s x")
  case (Some ob)
  show ?thesis
  proof (cases "consumable (body ob) \<or> quenched (body ob) \<noteq> body ob")
    case True
    then show ?thesis unfolding quench_Some [OF Some]
      by (intro wakeable_upd [OF assms Some]; cases "body ob") (simp_all add: same_links_def)
  next
    case False
    then have "ob\<lparr>body := quenched (body ob)\<rparr> = ob" by simp
    then show ?thesis using assms Some by (simp add: quench_def set_obj_def fun_upd_idem)
  qed
qed (use assms in \<open>simp add: quench_def\<close>)

lemma quench_none_left:
  assumes "objects s x = Some ob" "consumable (body ob)" "units (body ob) = 0"
  shows "quench x s = s"
proof -
  have "quenched (body ob) = body ob"
  proof (cases "body ob")
    case (Semaphore sm)
    then show ?thesis using assms(3) by (cases sm) (simp add: unat_eq_zero)
  qed (use assms(2,3) in \<open>auto split: if_splits\<close>)
  then have "ob\<lparr>body := quenched (body ob)\<rparr> = ob" by simp
  then show ?thesis using assms(1) by (simp add: quench_def set_obj_def fun_upd_idem)
qed

lemma calm_units: "calm_body t x b b' \<Longrightarrow> units b' \<le> units b"
  by (cases b) (auto simp: word_le_nat_alt ops_table)

lemma calm_quenched: "calm_body t x b b' \<Longrightarrow> consumable b \<Longrightarrow> quenched b' = quenched b \<and> consumable b'"
  by (cases b) auto

lemma calm_quench:
  assumes c: "calm t L s s1" and ob: "objects s x = Some ob" "consumable (body ob)" and ob1: "objects s1 x = Some ob1"
  shows "calm t L (quench x s) (quench x s1)"
  unfolding calm_def
proof (intro conjI allI impI)
  show "still (quench x s) (quench x s1)" "\<forall>e\<in>L. e_thread e = t"
    using c by (simp_all add: calm_def still_def same_rest_def quench_Some [OF ob(1)] quench_Some [OF ob1] set_obj_def)
  fix y oby' assume y': "objects (quench x s1) y = Some oby'"
  obtain ob' where ob': "objects s x = Some ob'" "wait_queue ob1 = filter (\<lambda>e. e \<notin> L) (wait_queue ob')"
    "calm_body t x (body ob') (body ob1)" by (rule calm_get [OF c ob1])
  show "\<exists>ob. objects (quench x s) y = Some ob \<and> wait_queue oby' = filter (\<lambda>e. e \<notin> L) (wait_queue ob) \<and>
      calm_body t y (body ob) (body oby')"
  proof (cases "y = x")
    case True
    then have "oby' = ob1\<lparr>body := quenched (body ob1)\<rparr>" using y' by (simp add: quench_Some [OF ob1])
    moreover have "quenched (body ob1) = quenched (body ob)" using calm_quenched [OF ob'(3)] ob ob'(1) by simp
    ultimately show ?thesis using True ob ob' by (simp add: quench_Some [OF ob(1)])
  next
    case False
    then have y1: "objects s1 y = Some oby'" using y' by (simp add: quench_Some [OF ob1])
    obtain oby where "objects s y = Some oby" "wait_queue oby' = filter (\<lambda>e. e \<notin> L) (wait_queue oby)"
      "calm_body t y (body oby) (body oby')" by (rule calm_get [OF c y1])
    then show ?thesis using False by (simp add: quench_Some [OF ob(1)])
  qed
qed

lemma obj_satisfied_units:
  assumes "objects s x = Some ob" "consumable (body ob)" "obj_signaled x t s = Some True"
    "obj_satisfied x t s = Some (ab, s')"
  shows "\<exists>ob'. objects s' x = Some ob' \<and> Suc (units (body ob')) \<le> units (body ob)"
proof (cases "body ob")
  case (Semaphore sm)
  then have "sem_count sm \<noteq> 0" using assms(1,3) by (auto simp: obj_signaled_def semaphore_signaled_def)
  then have "Suc (unat (sem_count sm - 1)) = unat (sem_count sm)"
    by (simp add: unat_minus_one unat_gt_0)
  then show ?thesis
    using assms Semaphore \<open>sem_count sm \<noteq> 0\<close>
    by (auto simp: obj_satisfied_def semaphore_satisfied_def get_semaphore_def set_body_def)
qed (use assms in \<open>auto simp: obj_satisfied_def event_satisfied_def get_event_def set_body_def obj_signaled_def event_signaled_def\<close>)

lemma satisfy_all_units:
  assumes "server_ok E s" "thread_waits s t \<noteq> []" "set es \<subseteq> set_mset (entries_at s t)" "distinct (map e_obj es)"
    "\<forall>e\<in>set es. obj_signaled (e_obj e) t s = Some True" "\<forall>e\<in>set es. load s (e_obj e) < 2 ^ 32"
    and x: "x \<in> e_obj ` set es" "objects s x = Some ob" "consumable (body ob)"
    and r: "satisfy_all es t s = Some (ab, s')" "objects s' x = Some ob'"
  shows "Suc (units (body ob')) \<le> units (body ob)"
  using assms
proof (induction es arbitrary: s ob ab)
  case (Cons e es)
  obtain th where th: "get_thread s t = Some th" using Cons.prems(2) by (cases "get_thread s t") (auto simp: thread_waits_def)
  obtain ab1 s1 where s1: "obj_satisfied (e_obj e) t s = Some (ab1, s1)" "server_ok E s1" "granted {e_obj e} t s s1"
    using entry_satisfied [OF Cons.prems(1) th, of e] Cons.prems(3,5,6) by auto
  obtain th1 where th1: "get_thread s1 t = Some th1" "thread_waits s1 t = thread_waits s t" "entries_at s1 t = entries_at s t"
    by (rule granted_thread [OF s1(3) Cons.prems(2)])
  have sg: "\<forall>e'\<in>set es. obj_signaled (e_obj e') t s1 = Some True"
    using s1(3) Cons.prems(4,5) unfolding granted_def by (auto simp: image_iff)
  have ld: "\<forall>e'\<in>set es. load s1 (e_obj e') < 2 ^ 32"
  proof
    fix e' assume e': "e' \<in> set es"
    then have "e_obj e' \<in> e_obj ` set es" by (rule imageI)
    moreover have "e_obj e \<notin> e_obj ` set es" using Cons.prems(4) by simp
    ultimately have "e_obj e' \<noteq> e_obj e" by metis
    then show "load s1 (e_obj e') < 2 ^ 32"
      using granted_load [OF s1(3), of "e_obj e'"] Cons.prems(6) e' by fastforce
  qed
  have es: "set es \<subseteq> set_mset (entries_at s1 t)" "distinct (map e_obj es)" "thread_waits s1 t \<noteq> []"
    using Cons.prems(2-4) th1(2,3) by simp_all
  obtain ab2 where rest: "satisfy_all es t s1 = Some (ab2, s')" using Cons.prems(10) s1(1) by (auto split: bind_splits)
  obtain s2 where "satisfy_all es t s1 = Some (ab2, s2)" "granted (e_obj ` set es) t s1 s2"
    using satisfy_all_ok [OF s1(2) es(3,1,2) sg ld] rest by auto
  then have c2: "calm t {} s1 s'" using rest by (simp add: granted_def)
  obtain ob1 where ob1: "objects s1 x = Some ob1" "calm_body t x (body ob1) (body ob')"
    by (rule calm_get [OF c2 Cons.prems(11)])
  obtain ob0 where "objects s x = Some ob0" "calm_body t x (body ob0) (body ob1)"
    using s1(3) calm_get [OF _ ob1(1)] unfolding granted_def by metis
  then have c1: "calm_body t x (body ob) (body ob1)" using Cons.prems(8) by simp
  show ?case
  proof (cases "x = e_obj e")
    case True
    then have "Suc (units (body ob1)) \<le> units (body ob)"
      using obj_satisfied_units [OF Cons.prems(8,9) _, of t ab1 s1] s1(1) Cons.prems(5) ob1(1) by auto
    then show ?thesis using calm_units [OF ob1(2)] by simp
  next
    case False
    then have "x \<in> e_obj ` set es" using Cons.prems(7) by auto
    then have "Suc (units (body ob')) \<le> units (body ob1)"
      using Cons.IH [OF s1(2) es(3,1,2) sg ld _ ob1(1) _ rest Cons.prems(11)] calm_quenched [OF c1 Cons.prems(9)] by simp
    then show ?thesis using calm_units [OF c1] by simp
  qed
qed simp

text \<open>A thread that is only waiting for what \<open>x\<close> has to give takes a unit of it.\<close>

lemma check_wait_takes:
  assumes w: "wakeable E s" and ob: "objects s x = Some ob" "consumable (body ob)"
    and st: "stuck (quench x s) t" and r: "check_wait t s = Some (ret, s1)" "ret \<noteq> -1"
    and ob1: "objects s1 x = Some ob1"
  shows "Suc (units (body ob1)) \<le> units (body ob)"
proof -
  let ?q = "quench x s"
  obtain th w0 ws where th: "get_thread s t = Some th" "waits th = w0 # ws"
    using r by (auto simp: check_wait_def split: bind_splits list.splits if_splits)
  have tw: "thread_waits s t = w0 # ws" using th by (simp add: thread_waits_Some)
  have xt: "x \<noteq> t" using th(1) ob by (auto simp: get_Some_iff)
  have thq: "get_thread ?q t = Some th" using th(1) xt by (simp add: quench_Some [OF ob(1)] get_thread_def)
  have procq: "get_process ?q p = get_process s p" for p
    using ob by (cases "body ob") (auto simp: quench_Some [OF ob(1)] get_process_def)
  have susp: "is_suspended t ?q = is_suspended t s" by (simp add: is_suspended_def th thq procq)
  have oc: "other_checks th w0 ?q = other_checks th w0 s"
    by (simp add: other_checks_def quench_Some [OF ob(1)] cong: if_cong)
  have sg: "obj_signaled y t ?q = obj_signaled y t s" if "y \<noteq> x" for y
    using that by (simp add: obj_signaled_def quench_Some [OF ob(1)])
  have "stuck ?q t \<longleftrightarrow> is_suspended t s = Some True \<or> \<not> ready w0 t ?q \<and> other_checks th w0 s = -1"
    unfolding stuck_iff [OF wakeable_quench [OF w] thq th(2)] susp oc ..
  moreover have no: "\<not> (is_suspended t s = Some True \<or> \<not> ready w0 t s \<and> other_checks th w0 s = -1)"
    using check_wait_stuck [OF w th r(1)] r(2) by simp
  ultimately have nq: "\<not> ready w0 t ?q" "is_suspended t s \<noteq> Some True" "other_checks th w0 s = -1" using st by auto
  have rd: "ready w0 t s" using no nq(3) by blast
  note def = wait_signaled [OF w tw]
  obtain susp' where "is_suspended t s = Some susp'"
    by (rule is_suspended_defined [OF wakeableD(1) [OF w] th(1)]) (use th in auto)
  then have run: "is_suspended t s = Some False" using nq(2) by (cases susp') auto
  have ent: "set (queues w0) \<subseteq> set_mset (entries_at s t)" by (auto simp: entries_at_waits tw)
  have d: "distinct (map e_obj (queues w0))" using wakeableD(3) [OF w, of t] by (simp add: tw)
  show ?thesis
  proof (cases "has (w_flags w0) SELECT_ALL")
    case True
    have all: "\<forall>e\<in>set (queues w0). obj_signaled (e_obj e) t s = Some True" using rd True by (simp add: ready_def)
    obtain e where "e \<in> set (queues w0)" "obj_signaled (e_obj e) t ?q \<noteq> Some True" using nq(1) True by (auto simp: ready_def)
    then have "x \<in> e_obj ` set (queues w0)" using sg all by (metis imageI)
    moreover obtain ab where "satisfy_all (queues w0) t s = Some (ab, s1)"
      using r(1) th run True all_signaled_iff [OF def] all by (auto simp: check_wait_def split: bind_splits)
    ultimately show ?thesis
      by (intro satisfy_all_units [OF wakeableD(1) [OF w] _ ent d all _ _ ob _ ob1]) (use tw wakeableD(4) [OF w] in auto)
  next
    case False
    have "first_signaled (queues w0) 0 t s \<noteq> Some None" using rd False first_signaled_iff [OF def] by (auto simp: ready_def)
    then obtain j y where y: "first_signaled (queues w0) 0 t s = Some (Some (j, y))" "obj_signaled y t s = Some True"
      "y \<in> e_obj ` set (queues w0)"
      using first_signaled_defined [OF def, of 0] by fastforce
    have "y = x"
    proof (rule ccontr)
      assume "y \<noteq> x"
      then show False using sg y(2,3) nq(1) False by (auto simp: ready_def)
    qed
    moreover obtain ab where "obj_satisfied y t s = Some (ab, s1)"
      using r(1) th run False y(1) by (auto simp: check_wait_def split: bind_splits)
    ultimately show ?thesis using obj_satisfied_units [OF ob, of t ab s1] y(2) ob1 by auto
  qed
qed

subsection \<open>No wake-up is lost\<close>

text \<open>
  Between requests every waiting thread is stuck.  The threads that an operation has made
  ready are those in the queue it walks; where it stops early nothing is left to take.
\<close>

definition settled :: "server \<Rightarrow> bool" where
  "settled s \<longleftrightarrow> (\<forall>t. stuck s t)"

definition enough :: "int \<Rightarrow> oid \<Rightarrow> server \<Rightarrow> bool" where
  "enough mx x s \<longleftrightarrow> mx \<le> 0 \<or>
     (\<exists>ob. objects s x = Some ob \<and> consumable (body ob) \<and> int (units (body ob)) \<le> mx \<and> (\<forall>t. stuck (quench x s) t))"

lemma stuck_roused:
  assumes w: "wakeable E s" "wakeable E s1" and c: "calm u L s s1" and u: "stuck s1 u" and st: "\<And>t. t \<noteq> u \<Longrightarrow> stuck s t"
  shows "stuck s1 t"
  using calm_stuck [OF w c, of t] u st by (cases "t = u") auto

lemma stuck_quench:
  assumes w: "wakeable E s" and ob: "objects s x = Some ob" and st: "stuck s t"
  shows "stuck (quench x s) t"
proof (cases "thread_waits (quench x s) t")
  case (Cons w0 ws)
  then obtain th where thq: "get_thread (quench x s) t = Some th" "waits th = w0 # ws" using thread_waits_Cons by blast
  have "get_thread (quench x s) y = get_thread s y" "get_process (quench x s) y = get_process s y" for y
    using ob by (cases "body ob"; auto simp: quench_Some [OF ob] get_thread_def get_process_def)+
  then have th: "get_thread s t = Some th" and susp: "is_suspended t (quench x s) = is_suspended t s"
    using thq(1) by (simp_all add: is_suspended_def)
  have oc: "other_checks th w0 (quench x s) = other_checks th w0 s"
    by (simp add: other_checks_def quench_Some [OF ob] cong: if_cong)
  have "obj_signaled y t s = Some True" if "obj_signaled y t (quench x s) = Some True" for y
  proof (cases "y = x")
    case True
    then show ?thesis using that ob
      by (cases "body ob") (auto simp: obj_signaled_def quench_Some [OF ob] event_signaled_def semaphore_signaled_def)
  qed (use that in \<open>simp add: obj_signaled_def quench_Some [OF ob]\<close>)
  then have "ready w0 t (quench x s) \<Longrightarrow> ready w0 t s" unfolding ready_def by (auto split: if_splits)
  then show ?thesis
    using st unfolding stuck_iff [OF wakeable_quench [OF w] thq] stuck_iff [OF w th thq(2)] susp oc by blast
qed (simp add: stuck_def)

lemma enough_round:
  fixes k :: nat
  assumes w: "wakeable E s" "wakeable E s1" and en: "enough mx x s" and ob1: "objects s1 x = Some ob1"
    and c: "calm t L s s1" and st: "stuck s1 t" and k: "k = 0 \<longrightarrow> s1 = s" "0 < k \<longrightarrow> first_check t s s1"
  shows "enough (if 0 < k \<and> mx \<noteq> 0 then mx - 1 else mx) x s1"
    "0 < k \<Longrightarrow> mx = 1 \<Longrightarrow> settled s1"
proof -
  have "enough (if 0 < k \<and> mx \<noteq> 0 then mx - 1 else mx) x s1 \<and> (0 < k \<longrightarrow> mx = 1 \<longrightarrow> settled s1)"
  proof (cases "0 < k \<and> 0 < mx")
    case False
    then show ?thesis using en k(1) by (cases "k = 0") (auto simp: enough_def)
  next
    case True
    then obtain ob where ob: "objects s x = Some ob" "consumable (body ob)" "int (units (body ob)) \<le> mx"
      "\<And>t. stuck (quench x s) t" using en by (auto simp: enough_def)
    obtain ret s0 M where fc: "check_wait t s = Some (ret, s0)" "ret \<noteq> -1" "calm t M s0 s1"
      using k(2) True by (auto simp: first_check_def)
    obtain ob0 where ob0: "objects s0 x = Some ob0" "calm_body t x (body ob0) (body ob1)"
      by (rule calm_get [OF fc(3) ob1])
    have "Suc (units (body ob0)) \<le> units (body ob)" by (rule check_wait_takes [OF w(1) ob(1,2,4) fc(1,2) ob0(1)])
    then have less: "Suc (units (body ob1)) \<le> units (body ob)" using calm_units [OF ob0(2)] by simp
    have cb: "consumable (body ob1)"
    proof -
      obtain ob' where "objects s x = Some ob'" "calm_body t x (body ob') (body ob1)" by (rule calm_get [OF c ob1])
      then show ?thesis using ob(1,2) calm_quenched by auto
    qed
    have cq: "calm t L (quench x s) (quench x s1)" by (rule calm_quench [OF c ob(1,2) ob1])
    have wq: "wakeable E (quench x s)" "wakeable E (quench x s1)" using w wakeable_quench by blast+
    have tq: "stuck (quench x s1) t" by (rule stuck_quench [OF w(2) ob1 st])
    have sq: "stuck (quench x s1) u" for u
      using calm_stuck [OF wq cq, of u] ob(4) tq by (cases "u = t") auto
    have "enough (mx - 1) x s1" using ob1 cb less ob(3) sq by (auto simp: enough_def)
    moreover have "settled s1" if "mx = 1"
    proof -
      have "units (body ob1) = 0" using less ob(3) that by simp
      then have "quench x s1 = s1" by (rule quench_none_left [OF ob1 cb])
      then show ?thesis using sq by (simp add: settled_def)
    qed
    ultimately show ?thesis using True by simp
  qed
  then show "enough (if 0 < k \<and> mx \<noteq> 0 then mx - 1 else mx) x s1" "0 < k \<Longrightarrow> mx = 1 \<Longrightarrow> settled s1" by auto
qed

lemma wake_up_loop_settles:
  assumes "wakeable E s" "x \<in># E" "objects s x = Some ob" "set_option cursor \<subseteq> set (wait_queue ob)"
    "\<forall>t. stuck s t \<or> (\<exists>e\<in>set (from_cursor cursor (wait_queue ob)). e_thread e = t)" "enough mx x s"
    "wake_up_loop n release_object x cursor mx s = Some s'"
  shows "settled s'"
  using assms
proof (induction n arbitrary: s ob cursor mx)
  case 0
  show ?case
  proof (cases cursor)
    case (Some ptr)
    then have ptr: "ptr \<in> set (wait_queue ob)" using "0.prems"(4) by simp
    obtain k s1 ob1 nxt where s1: "wake_thread release_object (e_thread ptr) s = Some (k, s1)" "wakeable E s1" "roused s s1"
      "objects s1 x = Some ob1" "next_in ptr (wait_queue ob) = Some nxt" "set_option nxt \<subseteq> set (wait_queue ob1)"
      "length (from_cursor nxt (wait_queue ob1)) < length (from_cursor (Some ptr) (wait_queue ob))"
      "\<forall>e\<in>set (from_cursor (Some ptr) (wait_queue ob)). e_thread e \<noteq> e_thread ptr \<longrightarrow>
         e \<in> set (from_cursor nxt (wait_queue ob1))"
      "\<exists>L. calm (e_thread ptr) L s s1" "k = 0 \<longrightarrow> s1 = s" "stuck s1 (e_thread ptr)"
      "0 < k \<longrightarrow> first_check (e_thread ptr) s s1"
      by (rule wake_up_round [OF "0.prems"(1-3) ptr])
    obtain L where c: "calm (e_thread ptr) L s s1" using s1(9) by blast
    have "k > 0 \<and> mx \<noteq> 0 \<and> mx - 1 = 0 \<and> s' = s1"
      using "0.prems"(3,7) Some s1(1,5) by (subst (asm) wake_up_loop.simps) (auto split: if_splits)
    then show ?thesis using enough_round(2) [OF "0.prems"(1) s1(2) "0.prems"(6) s1(4) c s1(11,10,12)] by simp
  qed (use "0.prems" in \<open>simp add: wake_up_loop.simps settled_def\<close>)
next
  case (Suc n)
  show ?case
  proof (cases cursor)
    case (Some ptr)
    then have ptr: "ptr \<in> set (wait_queue ob)" using Suc.prems(4) by simp
    obtain k s1 ob1 nxt where s1: "wake_thread release_object (e_thread ptr) s = Some (k, s1)" "wakeable E s1" "roused s s1"
      "objects s1 x = Some ob1" "next_in ptr (wait_queue ob) = Some nxt" "set_option nxt \<subseteq> set (wait_queue ob1)"
      "length (from_cursor nxt (wait_queue ob1)) < length (from_cursor (Some ptr) (wait_queue ob))"
      "\<forall>e\<in>set (from_cursor (Some ptr) (wait_queue ob)). e_thread e \<noteq> e_thread ptr \<longrightarrow>
         e \<in> set (from_cursor nxt (wait_queue ob1))"
      "\<exists>L. calm (e_thread ptr) L s s1" "k = 0 \<longrightarrow> s1 = s" "stuck s1 (e_thread ptr)"
      "0 < k \<longrightarrow> first_check (e_thread ptr) s s1"
      by (rule wake_up_round [OF Suc.prems(1-3) ptr])
    obtain L where c: "calm (e_thread ptr) L s s1" using s1(9) by blast
    note er = enough_round [OF Suc.prems(1) s1(2) Suc.prems(6) s1(4) c s1(11,10,12)]
    show ?thesis
    proof (cases "k > 0 \<and> mx \<noteq> 0 \<and> mx - 1 = 0")
      case True
      then have "s' = s1" using Suc.prems(3,7) Some s1(1,5) by (subst (asm) wake_up_loop.simps) simp
      then show ?thesis using er(2) True by simp
    next
      case False
      then have run: "wake_up_loop n release_object x nxt (if 0 < k \<and> mx \<noteq> 0 then mx - 1 else mx) s1 = Some s'"
        using Suc.prems(3,7) Some s1(1,5) by (subst (asm) wake_up_loop.simps) (auto split: if_splits)
      have "stuck s1 t \<or> (\<exists>e\<in>set (from_cursor nxt (wait_queue ob1)). e_thread e = t)" for t
      proof (cases "t = e_thread ptr")
        case False
        then show ?thesis using Suc.prems(5) s1(8) Some calm_stuck [OF Suc.prems(1) s1(2) c, of t] by blast
      qed (use s1(11) in simp)
      then show ?thesis using Suc.IH [OF s1(2) Suc.prems(2) s1(4,6) _ er(1) run] by blast
    qed
  qed (use Suc.prems in \<open>simp add: wake_up_loop.simps settled_def\<close>)
qed

theorem wake_up_settles:
  assumes w: "wakeable E s" "x \<in># E" and ob: "objects s x = Some ob"
    and st: "\<And>t. stuck s t \<or> t \<in> e_thread ` set (wait_queue ob)" and en: "enough mx x s"
  shows "\<exists>s'. wake_up release_object x mx s = Some s' \<and> wakeable E s' \<and> roused s s' \<and> settled s'"
proof -
  obtain s' where s': "wake_up release_object x mx s = Some s'" "wakeable E s'" "roused s s'"
    using wake_up_ok [OF w] by blast
  have "wake_up_loop (length (wait_queue ob)) release_object x (queue_cursor ob) mx s = Some s'"
    using s'(1) ob by (simp add: wake_up_def queue_cursor_def)
  then have "settled s'"
    by (intro wake_up_loop_settles [OF w ob queue_cursor_facts(1) _ en]) (use st queue_cursor_facts(2) in force)
  then show ?thesis using s' by blast
qed

text \<open>A change of the state of one object concerns the threads in its queue.\<close>

definition touched_for :: "oid \<Rightarrow> oid \<Rightarrow> server \<Rightarrow> server \<Rightarrow> bool" where
  "touched_for x t s s1 \<longleftrightarrow> now s1 = now s \<and> (\<forall>p. get_process s1 p = get_process s p) \<and>
     (\<forall>th. get_thread s1 t = Some th \<longrightarrow> (\<exists>ms. get_thread s t = Some (th\<lparr>mutex_list := ms\<rparr>))) \<and>
     (\<forall>y. y \<noteq> x \<longrightarrow> obj_signaled y t s1 = obj_signaled y t s)"

definition touched :: "oid \<Rightarrow> server \<Rightarrow> server \<Rightarrow> bool" where
  "touched x s s1 \<longleftrightarrow> (\<forall>t. touched_for x t s s1)"

lemma touched_stuck:
  assumes w: "wakeable E s" "wakeable E' s1" and tc: "touched_for x t s s1" and st: "stuck s t"
  shows "stuck s1 t \<or> (\<exists>e\<in>#entries_at s t. e_obj e = x)"
proof (cases "thread_waits s1 t")
  case (Cons w0 ws)
  obtain th1 where th1: "get_thread s1 t = Some th1" "waits th1 = w0 # ws" using thread_waits_Cons [OF Cons] by blast
  obtain ms where th: "get_thread s t = Some (th1\<lparr>mutex_list := ms\<rparr>)"
    using tc th1(1) unfolding touched_for_def by blast
  then have thw: "waits (th1\<lparr>mutex_list := ms\<rparr>) = w0 # ws" by (simp add: th1)
  have susp: "is_suspended t s1 = is_suspended t s"
    using tc th th1(1) by (simp add: is_suspended_def touched_for_def)
  have "now s1 = now s" using tc by (simp add: touched_for_def)
  then have oc: "other_checks th1 w0 s1 = other_checks (th1\<lparr>mutex_list := ms\<rparr>) w0 s"
    by (simp add: other_checks_def cong: if_cong)
  show ?thesis
  proof (cases "x \<in> e_obj ` set (queues w0)")
    case True
    then obtain e where e: "e \<in> set (queues w0)" "e_obj e = x" by blast
    then have "e \<in># entries_at s t" using th thw by (simp add: entries_at_waits thread_waits_Some)
    then show ?thesis using e(2) by blast
  next
    case False
    then have "\<forall>e\<in>set (queues w0). obj_signaled (e_obj e) t s1 = obj_signaled (e_obj e) t s"
      using tc unfolding touched_for_def by (metis imageI)
    then have "ready w0 t s1 = ready w0 t s" by (simp add: ready_def)
    then show ?thesis using st unfolding stuck_iff [OF w(2) th1] stuck_iff [OF w(1) th thw] susp oc by simp
  qed
qed (simp add: stuck_def)

lemma touched_queue:
  assumes w: "wakeable E s" "wakeable E' s1" and tc: "touched x s s1" and ob: "objects s x = Some ob" and st: "stuck s t"
  shows "stuck s1 t \<or> t \<in> e_thread ` set (wait_queue ob)"
proof (rule disjCI)
  assume "t \<notin> e_thread ` set (wait_queue ob)"
  then have "\<not> (\<exists>e\<in>#entries_at s t. e_obj e = x)"
    using entry_object [OF wakeableD(1) [OF w(1)], of _ t] ob by (metis imageI option.inject)
  then show "stuck s1 t" using touched_stuck [OF w _ st] tc unfolding touched_def by blast
qed

lemma untouched_stuck:
  assumes w: "wakeable E s" "wakeable E' s1" and tc: "touched_for x t s s1"
    and sg: "obj_signaled x t s1 = obj_signaled x t s" and st: "stuck s t"
  shows "stuck s1 t"
proof -
  have tc': "touched_for (next_oid s) t s s1" using tc sg unfolding touched_for_def by metis
  have "\<not> (\<exists>e\<in>#entries_at s t. e_obj e = next_oid s)"
    using entry_object [OF wakeableD(1) [OF w(1)], of _ t] server_ok_range [OF wakeableD(1) [OF w(1)]] by (metis less_irrefl)
  then show "stuck s1 t" using touched_stuck [OF w tc' st] by blast
qed

lemma untouched_settled:
  assumes w: "wakeable E s" "wakeable E' s1" and tc: "touched x s s1" and st: "settled s"
    and sg: "\<And>t. obj_signaled x t s1 = obj_signaled x t s"
  shows "settled s1"
  unfolding settled_def
proof
  fix t
  show "stuck s1 t"
    by (rule untouched_stuck [OF w _ sg]) (use tc st in \<open>simp_all add: touched_def settled_def\<close>)
qed

lemma touched_set_obj:
  assumes ob: "objects s x = Some ob" "ops b = ops (body ob)" "ops b \<noteq> thread_ops" "ops b \<noteq> process_ops"
  shows "touched x s (set_obj x (ob\<lparr>body := b\<rparr>) s)"
proof -
  let ?s = "set_obj x (ob\<lparr>body := b\<rparr>) s"
  have "get_thread ?s y = get_thread s y" "get_process ?s y = get_process s y" for y
    using ob by (cases "body ob"; cases b; auto simp: get_thread_def get_process_def)+
  moreover have "\<exists>ms. th = th\<lparr>mutex_list := ms\<rparr>" for th :: thread by (rule exI [of _ "mutex_list th"]) simp
  ultimately show ?thesis by (simp add: touched_def touched_for_def obj_signaled_def)
qed

text \<open>An auto-reset event wakes one thread at most.\<close>

lemma wake_one_loop:
  assumes "wakeable E s" "x \<in># E" "objects s x = Some ob" "set_option cursor \<subseteq> set (wait_queue ob)"
    "wake_up_loop n release_object x cursor 1 s = Some s'"
  shows "\<exists>t L. calm t L s s'"
  using assms
proof (induction n arbitrary: s ob cursor)
  case 0
  show ?case
  proof (cases cursor)
    case (Some ptr)
    have ptr: "ptr \<in> set (wait_queue ob)" using "0.prems"(4) Some by simp
    obtain k s1 nxt where s1: "wake_thread release_object (e_thread ptr) s = Some (k, s1)" "next_in ptr (wait_queue ob) = Some nxt"
      "\<exists>L. calm (e_thread ptr) L s s1"
      by (rule wake_up_round [OF "0.prems"(1-3) ptr])
    then have "s' = s1"
      using "0.prems"(3,5) Some by (subst (asm) wake_up_loop.simps) (auto split: if_splits)
    then show ?thesis using s1(3) by blast
  qed (use "0.prems" in \<open>auto simp: wake_up_loop.simps intro: calm_refl\<close>)
next
  case (Suc n)
  show ?case
  proof (cases cursor)
    case (Some ptr)
    have ptr: "ptr \<in> set (wait_queue ob)" using Suc.prems(4) Some by simp
    obtain k s1 ob1 nxt where s1: "wake_thread release_object (e_thread ptr) s = Some (k, s1)" "wakeable E s1"
      "objects s1 x = Some ob1" "next_in ptr (wait_queue ob) = Some nxt" "set_option nxt \<subseteq> set (wait_queue ob1)"
      "\<exists>L. calm (e_thread ptr) L s s1" "k = 0 \<longrightarrow> s1 = s"
      by (rule wake_up_round [OF Suc.prems(1-3) ptr])
    show ?thesis
    proof (cases "k = 0")
      case True
      then have "wake_up_loop n release_object x nxt 1 s1 = Some s'"
        using Suc.prems(3,5) Some s1(1,4) by (subst (asm) wake_up_loop.simps) simp
      then show ?thesis using Suc.IH [OF s1(2) Suc.prems(2) s1(3,5)] s1(7) True by simp
    next
      case False
      then have "s' = s1" using Suc.prems(3,5) Some s1(1,4) by (subst (asm) wake_up_loop.simps) simp
      then show ?thesis using s1(6) by blast
    qed
  qed (use Suc.prems in \<open>auto simp: wake_up_loop.simps intro: calm_refl\<close>)
qed

lemma calm_waiting:
  assumes w: "wakeable E s" "wakeable E s'" and c: "calm t L s s'" and u: "u \<noteq> t"
  shows "thread_waits s' u = thread_waits s u"
proof (cases "thread_waits s u = []")
  case True
  then show ?thesis using calm_no_new_waits [OF c u] by (cases "thread_waits s' u = []") auto
next
  case False
  then have "u \<in># E" by (rule wakeableD(2) [OF w(1)])
  then obtain ob' where ob': "objects s' u = Some ob'"
    using refs_ok_alive [OF server_okD(2) [OF wakeableD(1) [OF w(2)]], of u] by auto
  obtain ob where ob: "objects s u = Some ob" "calm_body t u (body ob) (body ob')" by (rule calm_get [OF c ob'])
  obtain th where "body ob = Thread th"
    using False ob(1) by (cases "body ob") (auto simp: thread_waits_def get_thread_def)
  then have "get_thread s' u \<noteq> None" using ob ob' by (auto simp: get_thread_def)
  then show ?thesis using calm_other_waits [OF c u] by blast
qed

subsection \<open>Changes to a thread\<close>

text \<open>A thread changes in what nobody waits for: its calls, its suspend count, its context.\<close>

lemma tweak_thread:
  assumes w: "wakeable E s" and ob: "objects s t = Some ob" "body ob = Thread th"
    and th': "t_process th' = t_process th" "mutex_list th' = mutex_list th" "waits th' = waits th" "t_state th' = t_state th"
  shows "wakeable E (set_obj t (ob\<lparr>body := Thread th'\<rparr>) s)"
    "u \<noteq> t \<Longrightarrow> stuck s u \<Longrightarrow> stuck (set_obj t (ob\<lparr>body := Thread th'\<rparr>) s) u"
proof -
  let ?s = "set_obj t (ob\<lparr>body := Thread th'\<rparr>) s"
  obtain p where "refcount ob = 0 \<or> body_ok (body ob)" using server_ok_body [OF wakeableD(1) [OF w] ob(1)] by blast
  have sl: "same_links t ob (ob\<lparr>body := Thread th'\<rparr>)" using ob th' by (simp add: same_links_def)
  note ok = wakeableD [OF w]
  have tw: "thread_waits ?s = thread_waits s"
    unfolding thread_waits_look by (rule upd_at [OF ob(1)]) (simp add: ob th')
  have l: "load ?s = load s" unfolding load_def by (rule upd_at [OF ob(1)]) (simp add: ob)
  have "server_ok E ?s"
    by (rule server_ok_set_obj [OF ok(1) ob(1) sl])
      (use server_ok_body [OF ok(1) ob(1)] ob th' in \<open>simp_all add: obj_refs_def\<close>)
  then show w1: "wakeable E ?s" unfolding wakeable_def tw l using ok(2-4) by blast
  assume u: "u \<noteq> t" "stuck s u"
  have "\<exists>ms. h = h\<lparr>mutex_list := ms\<rparr>" for h :: thread by (rule exI [of _ "mutex_list h"]) simp
  then have "touched_for t u s ?s"
    using u(1) ob by (auto simp: touched_for_def get_thread_def get_process_def obj_signaled_def)
  moreover have "obj_signaled t u ?s = obj_signaled t u s" using ob th'(4) by (simp add: obj_signaled_def thread_signaled_def)
  ultimately show "stuck ?s u" by (rule untouched_stuck [OF w w1 _ _ u(2)])
qed

text \<open>A thread that is not asked to do more than before stays stuck.\<close>

lemma tweak_self:
  assumes w: "wakeable E s" and ob: "objects s t = Some ob" "body ob = Thread th"
    and th': "t_process th' = t_process th" "mutex_list th' = mutex_list th" "waits th' = waits th" "t_state th' = t_state th"
    and less: "t_suspend th \<le> t_suspend th'" "system_apc th' \<noteq> [] \<Longrightarrow> system_apc th \<noteq> []"
      "user_apc th' \<noteq> [] \<Longrightarrow> user_apc th \<noteq> []"
    and st: "stuck s t"
  shows "stuck (set_obj t (ob\<lparr>body := Thread th'\<rparr>) s) t"
proof (cases "waits th")
  case Nil
  then show ?thesis using th' by (simp add: stuck_def thread_waits_def get_thread_def)
next
  case (Cons w0 ws)
  let ?s = "set_obj t (ob\<lparr>body := Thread th'\<rparr>) s"
  note w1 = tweak_thread(1) [OF w ob th']
  have th: "get_thread s t = Some th" "get_thread ?s t = Some th'" using ob by (simp_all add: get_thread_def)
  have proc: "get_process ?s p = get_process s p" for p using ob by (simp add: get_process_def)
  have susp: "is_suspended t s = Some True \<Longrightarrow> is_suspended t ?s = Some True"
    using th th' less(1) by (auto simp: is_suspended_def proc split: bind_splits)
  have sg: "obj_signaled y t ?s = obj_signaled y t s" for y using ob th'(4) by (simp add: obj_signaled_def thread_signaled_def)
  have "other_checks th w0 s = -1 \<Longrightarrow> other_checks th' w0 ?s = -1"
    using less(2,3) by (auto simp: other_checks_def split: if_splits)
  moreover have "ready w0 t ?s = ready w0 t s" by (simp add: ready_def sg)
  ultimately show ?thesis
    using st susp stuck_iff [OF w th(1) Cons] stuck_iff [OF w1 th(2), of w0 ws] Cons th'(3) by auto
qed

lemma wake_thread_settles:
  assumes w: "wakeable E s" and t: "get_thread s t \<noteq> None" and st: "\<And>u. u \<noteq> t \<Longrightarrow> stuck s u"
  obtains k s' where "wake_thread release_object t s = Some (k, s')" "wakeable E s'" "settled s'" "roused s s'"
    "\<And>u. u \<noteq> t \<Longrightarrow> thread_waits s' u = thread_waits s u"
proof -
  obtain k s' where s': "wake_thread release_object t s = Some (k, s')" "wakeable E s'"
    "k \<le> length (thread_waits s t)" "thread_waits s' t = drop k (thread_waits s t)" "get_thread s' t \<noteq> None"
    "calm t (set (concat (map queues (take k (thread_waits s t))))) s s'" "\<And>y. load s' y \<le> load s y"
    "k = 0 \<Longrightarrow> s' = s" "stuck s' t" "0 < k \<Longrightarrow> first_check t s s'" by (rule wake_thread_ok [OF w t]) blast
  have "stuck s' u" for u using calm_stuck [OF w s'(2,6), of u] st s'(9) by (cases "u = t") auto
  then show ?thesis
    using that [OF s'(1,2)] roused_calm [OF s'(6,4,8,3,7)] calm_waiting [OF w s'(2,6)] by (simp add: settled_def)
qed

subsection \<open>What no operation on waiting threads changes\<close>

text \<open>The suspend counts stay in their range.\<close>

fun suspend_ok :: "obj_body \<Rightarrow> bool" where
  "suspend_ok (Thread th) \<longleftrightarrow> 0 \<le> t_suspend th \<and> t_suspend th \<le> MAXIMUM_SUSPEND_COUNT"
| "suspend_ok (Process pr) \<longleftrightarrow> 0 \<le> p_suspend pr"
| "suspend_ok _ \<longleftrightarrow> True"

definition same_kind :: "obj_body \<Rightarrow> obj_body \<Rightarrow> bool" where
  "same_kind b b' \<longleftrightarrow> ops b' = ops b \<and> proc_of b' = proc_of b \<and> (suspend_ok b \<longrightarrow> suspend_ok b')"

definition mild :: "server \<Rightarrow> server \<Rightarrow> bool" where
  "mild s s' \<longleftrightarrow> current s' = current s \<and> (\<forall>u. thread_waits s' u \<noteq> [] \<longrightarrow> thread_waits s u \<noteq> []) \<and>
     (\<forall>x ob'. objects s' x = Some ob' \<longrightarrow> (\<exists>ob. objects s x = Some ob \<and> same_kind (body ob) (body ob')))"

lemma same_kind_refl [simp]: "same_kind b b"
  by (simp add: same_kind_def)

lemma mild_refl [simp]: "mild s s"
  by (simp add: mild_def)

lemma mild_trans: "mild s s1 \<Longrightarrow> mild s1 s2 \<Longrightarrow> mild s s2"
  unfolding mild_def same_kind_def by metis

lemma calm_body_kind: "calm_body t x b b' \<Longrightarrow> same_kind b b'"
  by (cases b) (auto simp: same_kind_def ops_table)

lemma mild_roused:
  assumes "roused s s'"
  shows "mild s s'"
  unfolding mild_def
proof (intro conjI allI impI)
  have "still s s'" using assms by (simp add: roused_def)
  then show "current s' = current s" by (simp add: still_def same_rest_def)
  show "thread_waits s u \<noteq> []" if "thread_waits s' u \<noteq> []" for u by (rule roused_waits [OF assms that])
  fix x ob' assume "objects s' x = Some ob'"
  then obtain ob where "objects s x = Some ob" "body ob' = body ob \<or> (\<exists>t. calm_body t t (body ob) (body ob'))"
    using assms unfolding roused_def by blast
  then show "\<exists>ob. objects s x = Some ob \<and> same_kind (body ob) (body ob')"
    using calm_body_kind same_kind_refl by metis
qed

lemma mild_set_obj:
  "objects s x = Some ob \<Longrightarrow> same_kind (body ob) (body ob') \<Longrightarrow> (waits_of (body ob') \<noteq> [] \<Longrightarrow> waits_of (body ob) \<noteq> []) \<Longrightarrow>
   mild s (set_obj x ob' s)"
  by (auto simp: mild_def thread_waits_look look_Some)

lemma mild_shrinks:
  assumes "shrinks {} s s'"
  shows "mild s s'"
  unfolding mild_def
proof (intro conjI allI impI)
  show "current s' = current s" by (rule shrinks_rest(8) [OF assms])
  show "thread_waits s u \<noteq> []" if "thread_waits s' u \<noteq> []" for u
    using calm_no_new_waits [OF calm_shrinks [OF assms, of "Suc u"], of u] that by simp
  fix x ob' assume x: "objects s' x = Some ob'"
  obtain ob where ob: "objects s x = Some ob" using shrinks_None [OF assms, of x] x by (cases "objects s x") auto
  have "obj_shrinks ob ob'" by (rule shrinks_survivor [OF assms _ ob x]) simp
  then have "body_shrinks (body ob) (body ob')" by (auto simp: obj_shrinks_def)
  then show "\<exists>ob. objects s x = Some ob \<and> same_kind (body ob) (body ob')"
    using ob by (auto simp: body_shrinks_def same_kind_def)
qed

lemma mild_type:
  assumes "mild s s'" "server_ok E s'" "x \<in># E"
  shows "type_at s' x = type_at s x" "proc_at s' x = proc_at s x"
proof -
  obtain ob' where "objects s' x = Some ob'"
    using refs_ok_alive [OF server_okD(2) [OF assms(2)], of x] assms(3) by auto
  moreover from this obtain ob where "objects s x = Some ob" "ops (body ob') = ops (body ob)" "proc_of (body ob') = proc_of (body ob)"
    using assms(1) unfolding mild_def same_kind_def by blast
  ultimately show "type_at s' x = type_at s x" "proc_at s' x = proc_at s x" by (simp_all add: look_Some)
qed

end
