(* ===== verification/Sync_Ops.thy ===== *)
theory Sync_Ops
  imports Wake_Ops
begin

text \<open>
  What the operations on events, semaphores and mutexes do to the object and to the threads
  that wait for it (\<^verbatim>\<open>server/event.c\<close>, \<^verbatim>\<open>server/semaphore.c\<close>, \<^verbatim>\<open>server/mutex.c\<close>).
\<close>

subsection \<open>A state with an object in use\<close>

text \<open>The sample server while a request holds the event, the semaphore or the mutex.\<close>

abbreviation holding :: "oid \<Rightarrow> object \<Rightarrow> server" where
  "holding x ob \<equiv> set_obj x (ob\<lparr>refcount := refcount ob + 1\<rparr>) sample"

lemma sample_thread_waits: "thread_waits sample t = (if t = 5 then [sample_wait] else [])"
  by (auto simp: thread_waits_look sample_def bare_simps)

lemma sample_wakeable: "wakeable {#0, 1, 5#} sample"
proof -
  have "load sample x < 2 ^ 32" for x by (auto simp: load_def sample_def bare_simps)
  then show ?thesis using sample_ok by (auto simp: wakeable_def sample_thread_waits)
qed

lemma sample_check: "check_wait 5 sample = Some (-1, sample)"
  by (simp add: check_wait_def is_suspended_def get_thread_def get_process_def obj_signaled_def sample_objects
      event_signaled_def other_checks_def has_def)

lemma sample_settled: "settled sample"
  using sample_check by (simp add: settled_def stuck_def sample_thread_waits)

lemma wakeable_grab:
  assumes w: "wakeable E s" and ob: "objects s x = Some ob" "0 < refcount ob"
  shows "wakeable (E + {#x#}) (set_obj x (ob\<lparr>refcount := refcount ob + 1\<rparr>) s)"
proof -
  let ?s = "set_obj x (ob\<lparr>refcount := refcount ob + 1\<rparr>) s"
  note ok = wakeableD [OF w]
  have tw: "thread_waits ?s = thread_waits s" unfolding thread_waits_look by (rule upd_at [OF ob(1)]) simp
  have l: "load ?s = load s" unfolding load_def by (rule upd_at [OF ob(1)]) simp
  have "server_ok (E + {#x#}) ?s" by (rule server_ok_grab [OF ok(1) ob])
  then show ?thesis unfolding wakeable_def tw l using ok(2-4) by auto
qed

lemma touched_count:
  assumes "objects s x = Some ob"
  shows "touched y s (set_obj x (ob\<lparr>refcount := n\<rparr>) s)"
proof -
  have "\<exists>ms. th = th\<lparr>mutex_list := ms\<rparr>" for th :: thread by (rule exI [of _ "mutex_list th"]) simp
  then show ?thesis using assms by (auto simp: touched_def touched_for_def get_thread_def get_process_def obj_signaled_def)
qed

lemma settled_grab:
  assumes "wakeable E s" "objects s x = Some ob" "0 < refcount ob" "settled s"
  shows "settled (set_obj x (ob\<lparr>refcount := refcount ob + 1\<rparr>) s)"
  by (rule untouched_settled [OF assms(1) wakeable_grab [OF assms(1-3)] touched_count [OF assms(2), of x] assms(4)])
    (use assms(2) in \<open>simp add: obj_signaled_def\<close>)

lemma holding_event: "wakeable {#0, 1, 5, 3#} (holding 3 event_object)" "settled (holding 3 event_object)"
  using wakeable_grab [OF sample_wakeable sample_objects(4)] settled_grab [OF sample_wakeable sample_objects(4) _ sample_settled]
  by (simp_all add: add_mset_commute)

subsection \<open>Events\<close>

lemma roused_get:
  assumes "roused s s'" "objects s' x = Some ob'"
  obtains ob where "objects s x = Some ob" "body ob' = body ob \<or> (\<exists>t. thread_waits s t \<noteq> [] \<and> calm_body t t (body ob) (body ob'))"
  using assms unfolding roused_def by blast

lemma roused_event:
  assumes "roused s s'" "get_event s x = Some ev" "objects s' x = Some ob'"
  obtains sg where "get_event s' x = Some (ev\<lparr>signaled := sg\<rparr>)" "sg \<longrightarrow> signaled ev" "manual_reset ev \<longrightarrow> sg = signaled ev"
proof -
  obtain ob where ob: "objects s x = Some ob" "body ob = Event ev" using assms(2) by (auto simp: get_Some_iff)
  obtain ob0 where "objects s x = Some ob0" "body ob' = body ob0 \<or> (\<exists>t. thread_waits s t \<noteq> [] \<and> calm_body t t (body ob0) (body ob'))"
    by (rule roused_get [OF assms(1,3)])
  then have "body ob' = Event ev \<or> (\<exists>t. calm_body t t (Event ev) (body ob'))" using ob by auto
  then have "\<exists>t. calm_body t t (Event ev) (body ob')" using calm_body_refl by metis
  then obtain sg where "body ob' = Event (ev\<lparr>signaled := sg\<rparr>)" "sg \<longrightarrow> signaled ev" "manual_reset ev \<longrightarrow> sg = signaled ev"
    by auto
  then show ?thesis using that assms(3) by (simp add: get_event_def)
qed

lemma wakeable_object: "wakeable E s \<Longrightarrow> x \<in># E \<Longrightarrow> \<exists>ob. objects s x = Some ob \<and> 0 < refcount ob"
  using refs_ok_alive [OF server_okD(2) [OF wakeableD(1)]] by (metis union_iff)

lemma set_event_ok:
  assumes w: "wakeable E s" and st: "settled s" and x: "x \<in># E" and ev: "get_event s x = Some ev"
  shows "\<exists>s' sg. set_event x s = Some s' \<and> wakeable E s' \<and> settled s' \<and>
    get_event s' x = Some (ev\<lparr>signaled := sg\<rparr>) \<and> (manual_reset ev \<longrightarrow> sg) \<and>
    (\<not> manual_reset ev \<longrightarrow> (\<exists>t. \<forall>u. u \<noteq> t \<longrightarrow> thread_waits s' u = thread_waits s u)) \<and> mild s s'"
proof -
  obtain ob where ob: "objects s x = Some ob" "body ob = Event ev" using ev by (auto simp: get_Some_iff)
  let ?b = "Event (ev\<lparr>signaled := True\<rparr>)"
  let ?ob = "ob\<lparr>body := ?b\<rparr>"
  let ?s = "set_obj x ?ob s"
  let ?m = "if manual_reset ev then 0 else 1 :: int"
  have run: "set_event x s = wake_up release_object x ?m ?s"
    using ob by (simp add: set_event_def set_signaled_def get_event_def set_body_def)
  have w1: "wakeable E ?s" by (rule wakeable_upd [OF w ob(1)]) (simp_all add: same_links_def ob)
  have tw: "thread_waits ?s = thread_waits s" unfolding thread_waits_look by (rule upd_at [OF ob(1)]) (simp add: ob)
  have tc: "touched x s ?s" by (rule touched_set_obj [OF ob(1)]) (simp_all add: ob)
  have ob1: "objects ?s x = Some ?ob" by simp
  have "stuck ?s t \<or> t \<in> e_thread ` set (wait_queue ?ob)" for t
    using touched_queue [OF w w1 tc ob(1), of t] st by (simp add: settled_def)
  moreover have "enough ?m x ?s"
  proof (cases "manual_reset ev")
    case False
    have q: "quench x ?s = quench x s" using ob by (simp add: quench_def set_obj_def)
    have "stuck (quench x s) t" for t
      by (rule stuck_quench [OF w ob(1)]) (use st in \<open>simp add: settled_def\<close>)
    then show ?thesis using False by (simp add: enough_def q)
  qed (simp add: enough_def)
  ultimately obtain s' where s': "wake_up release_object x ?m ?s = Some s'" "wakeable E s'" "roused ?s s'" "settled s'"
    using wake_up_settles [OF w1 x ob1] by blast
  obtain ob' where ob': "objects s' x = Some ob'" using wakeable_object [OF s'(2) x] by blast
  let ?ev = "ev\<lparr>signaled := True\<rparr>"
  have ge: "get_event ?s x = Some ?ev" by (simp add: get_event_def)
  obtain sg where "get_event s' x = Some (?ev\<lparr>signaled := sg\<rparr>)" "sg \<longrightarrow> signaled ?ev" "manual_reset ?ev \<longrightarrow> sg = signaled ?ev"
    by (rule roused_event [OF s'(3) ge ob'])
  then have sg: "get_event s' x = Some (ev\<lparr>signaled := sg\<rparr>)" "manual_reset ev \<longrightarrow> sg" by simp_all
  have "\<exists>t. \<forall>u. u \<noteq> t \<longrightarrow> thread_waits s' u = thread_waits s u" if "\<not> manual_reset ev"
  proof -
    have "wake_up_loop (length (wait_queue ?ob)) release_object x (queue_cursor ?ob) 1 ?s = Some s'"
      using s'(1) that by (simp add: wake_up_def queue_cursor_def)
    then obtain t L where "calm t L ?s s'" using wake_one_loop [OF w1 x ob1 queue_cursor_facts(1)] by blast
    then show ?thesis using calm_waiting [OF w1 s'(2)] tw by metis
  qed
  moreover have "mild s s'"
    by (rule mild_trans [OF mild_set_obj [OF ob(1)] mild_roused [OF s'(3)]]) (simp_all add: ob same_kind_def)
  ultimately show ?thesis using s' sg run by auto
qed



subsection \<open>Semaphores\<close>

lemma roused_semaphore:
  assumes "roused s s'" "get_semaphore s x = Some sem" "objects s' x = Some ob'"
  obtains n where "get_semaphore s' x = Some (sem\<lparr>sem_count := n\<rparr>)" "n \<le> sem_count sem"
proof -
  obtain ob where ob: "objects s x = Some ob" "body ob = Semaphore sem" using assms(2) by (auto simp: get_Some_iff)
  obtain ob0 where "objects s x = Some ob0" "body ob' = body ob0 \<or> (\<exists>t. thread_waits s t \<noteq> [] \<and> calm_body t t (body ob0) (body ob'))"
    by (rule roused_get [OF assms(1,3)])
  then have "body ob' = Semaphore sem \<or> (\<exists>t. calm_body t t (Semaphore sem) (body ob'))" using ob by auto
  then have "\<exists>t. calm_body t t (Semaphore sem) (body ob')" using calm_body_refl by metis
  then obtain n where "body ob' = Semaphore (sem\<lparr>sem_count := n\<rparr>)" "n \<le> sem_count sem" by auto
  then show ?thesis using that assms(3) by (simp add: get_semaphore_def)
qed

lemma limit_exceeded:
  fixes c n m :: "32 word"
  shows "c + n < c \<or> c + n > m \<longleftrightarrow> unat m < unat c + unat n"
proof (cases "unat c + unat n < 2 ^ 32")
  case True
  then have "unat (c + n) = unat c + unat n" by (simp add: unat_word_ariths(1))
  then show ?thesis by (auto simp: word_less_nat_alt)
next
  case False
  have "unat c < 2 ^ 32" "unat n < 2 ^ 32" using unsigned_less [of c] unsigned_less [of n] by simp_all
  then have "unat (c + n) = unat c + unat n - 2 ^ 32"
    using False by (simp add: unat_word_ariths(1) mod_if)
  then have "unat (c + n) < unat c" using False \<open>unat n < 2 ^ 32\<close> by linarith
  moreover have "unat m < 2 ^ 32" using unsigned_less [of m] by simp
  ultimately show ?thesis using False by (simp add: word_less_nat_alt)
qed

lemma unat_sint:
  fixes n :: "32 word"
  assumes "0 \<le> sint n"
  shows "int (unat n) = sint n"
proof -
  have "sint n < 2 ^ 31" using sint_lt [of n] by simp
  then have "take_bit 32 (sint n) = sint n" using assms by (simp add: take_bit_int_eq_self)
  then have "uint n = sint n" using uint_sint [of n] by simp
  then show ?thesis by simp
qed

lemma set_semaphore:
  assumes w: "wakeable E s" and ob: "objects s x = Some ob" "body ob = Semaphore sem"
  shows "wakeable E (set_obj x (ob\<lparr>body := Semaphore (sem\<lparr>sem_count := n\<rparr>)\<rparr>) s)"
    "touched x s (set_obj x (ob\<lparr>body := Semaphore (sem\<lparr>sem_count := n\<rparr>)\<rparr>) s)"
  by (rule wakeable_upd [OF w ob(1)]; simp add: same_links_def ob)
    (rule touched_set_obj [OF ob(1)]; simp add: ob)

lemma release_semaphore_ok:
  assumes w: "wakeable E s" and st: "settled s" and x: "x \<in># E" and sem: "get_semaphore s x = Some sem"
  shows "if unat (sem_max sem) < unat (sem_count sem) + unat n
    then release_semaphore x n s = Some ((False, sem_count sem), set_error STATUS_SEMAPHORE_LIMIT_EXCEEDED s)
    else \<exists>s' c. release_semaphore x n s = Some ((True, sem_count sem), s') \<and> wakeable E s' \<and> settled s' \<and>
      get_semaphore s' x = Some (sem\<lparr>sem_count := c\<rparr>) \<and> unat c \<le> unat (sem_count sem) + unat n \<and> mild s s'"
proof -
  obtain ob where ob: "objects s x = Some ob" "body ob = Semaphore sem" using sem by (auto simp: get_Some_iff)
  let ?c = "sem_count sem"
  note lim = limit_exceeded [of ?c n "sem_max sem"]
  show ?thesis
  proof (cases "unat (sem_max sem) < unat ?c + unat n")
    case True
    then show ?thesis using sem lim by (simp add: release_semaphore_def)
  next
    case False
    then have fits: "\<not> (?c + n < ?c \<or> ?c + n > sem_max sem)" using lim by simp
    have sum: "unat (?c + n) \<le> unat ?c + unat n" by (simp add: unat_word_ariths(1))
    have "\<exists>s' c. release_semaphore x n s = Some ((True, ?c), s') \<and> wakeable E s' \<and> settled s' \<and>
      get_semaphore s' x = Some (sem\<lparr>sem_count := c\<rparr>) \<and> unat c \<le> unat ?c + unat n \<and> mild s s'"
    proof (cases "?c = 0")
      case nz: False
      let ?s = "set_obj x (ob\<lparr>body := Semaphore (sem\<lparr>sem_count := ?c + n\<rparr>)\<rparr>) s"
      note up = set_semaphore [OF w ob, of "?c + n"]
      have "?c + n \<noteq> 0" using fits nz by (metis word_gt_0)
      then have "settled ?s"
        using ob nz by (intro untouched_settled [OF w up st])
          (simp add: obj_signaled_def semaphore_signaled_def word_gt_0)
      moreover have "release_semaphore x n s = Some ((True, ?c), ?s)"
        using sem fits nz ob by (simp add: release_semaphore_def set_body_def Let_def)
      moreover have "mild s ?s" by (rule mild_set_obj [OF ob(1)]) (simp_all add: ob same_kind_def)
      ultimately show ?thesis using up(1) sum by (auto simp: get_semaphore_def)
    next
      case z: True
      let ?sem = "sem\<lparr>sem_count := n\<rparr>"
      let ?ob = "ob\<lparr>body := Semaphore ?sem\<rparr>"
      let ?s = "set_obj x ?ob s"
      note up = set_semaphore [OF w ob, of n]
      have ob1: "objects ?s x = Some ?ob" by simp
      have ready: "stuck ?s t \<or> t \<in> e_thread ` set (wait_queue ?ob)" for t
        using touched_queue [OF w up ob(1), of t] st by (simp add: settled_def)
      have "sem = sem\<lparr>sem_count := 0\<rparr>" using z by simp
      then have q: "quench x ?s = s" using ob by (simp add: quench_def set_obj_def fun_upd_idem)
      have en: "enough (sint n) x ?s"
      proof (cases "sint n \<le> 0")
        case pos: False
        then have "int (unat n) = sint n" by (intro unat_sint) simp
        then show ?thesis using st by (simp add: enough_def q settled_def)
      qed (simp add: enough_def)
      obtain s' where s': "wake_up release_object x (sint n) ?s = Some s'" "wakeable E s'" "roused ?s s'" "settled s'"
        using wake_up_settles [OF up(1) x ob1 ready en] by blast
      obtain ob' where ob': "objects s' x = Some ob'" using wakeable_object [OF s'(2) x] by blast
      have gs: "get_semaphore ?s x = Some ?sem" by (simp add: get_semaphore_def)
      obtain c where "get_semaphore s' x = Some (?sem\<lparr>sem_count := c\<rparr>)" "c \<le> sem_count ?sem"
        by (rule roused_semaphore [OF s'(3) gs ob'])
      moreover have "release_semaphore x n s = Some ((True, ?c), s')"
        using sem fits z ob s'(1) by (simp add: release_semaphore_def set_body_def Let_def)
      moreover have "mild s s'"
        by (rule mild_trans [OF mild_set_obj [OF ob(1)] mild_roused [OF s'(3)]]) (simp_all add: ob same_kind_def)
      ultimately show ?thesis using s'(2,4) z by (auto simp: word_le_nat_alt)
    qed
    then show ?thesis using False by simp
  qed
qed


abbreviation sample_semaphore :: object where
  "sample_semaphore \<equiv> plain_object 1 (Semaphore \<lparr>sem_count = 1, sem_max = 2\<rparr>)"

lemma holding_semaphore: "wakeable {#0, 1, 5, 7#} (holding 7 sample_semaphore)" "settled (holding 7 sample_semaphore)"
  using wakeable_grab [OF sample_wakeable sample_objects(8)] settled_grab [OF sample_wakeable sample_objects(8) _ sample_settled]
  by (simp_all add: add_mset_commute)


subsection \<open>Mutexes\<close>

lemma roused_mutex:
  assumes "roused s s'" "get_mutex s x = Some mx" "objects s' x = Some ob'"
  obtains mx' where "get_mutex s' x = Some mx'"
    "owner mx' = owner mx \<or> owner mx = None \<and> (\<exists>t. owner mx' = Some t \<and> thread_waits s t \<noteq> [])"
proof -
  obtain ob where ob: "objects s x = Some ob" "body ob = Mutex mx" using assms(2) by (auto simp: get_Some_iff)
  obtain ob0 where "objects s x = Some ob0" "body ob' = body ob0 \<or> (\<exists>t. thread_waits s t \<noteq> [] \<and> calm_body t t (body ob0) (body ob'))"
    by (rule roused_get [OF assms(1,3)])
  then have "body ob' = Mutex mx \<or> (\<exists>t. thread_waits s t \<noteq> [] \<and> calm_body t t (Mutex mx) (body ob'))" using ob by auto
  then obtain mx' where "body ob' = Mutex mx'"
    "owner mx' = owner mx \<or> owner mx = None \<and> (\<exists>t. owner mx' = Some t \<and> thread_waits s t \<noteq> [])"
  proof
    assume "\<exists>t. thread_waits s t \<noteq> [] \<and> calm_body t t (Mutex mx) (body ob')"
    then obtain t mx' where t: "thread_waits s t \<noteq> []" "body ob' = Mutex mx'"
      "owner mx' = owner mx \<or> owner mx = None \<and> owner mx' = Some t" by auto
    show ?thesis by (rule that [OF t(2)]) (use t(1,3) in blast)
  qed simp
  then show ?thesis using that assms(3) by (simp add: get_mutex_def)
qed

text \<open>A mutex whose count has fallen to zero leaves its owner and goes to the next.\<close>

lemma do_release_ok:
  assumes w: "wakeable E s" and x: "x \<in># E" and ob: "objects s x = Some ob" "body ob = Mutex mx" "owner mx = Some t"
  obtains s1 where "do_release release_object x (set_obj x (ob\<lparr>body := Mutex (mx\<lparr>mx_count := 0\<rparr>)\<rparr>) s) = wake_up release_object x 0 s1"
    "wakeable E s1" "touched x s s1" "thread_waits s1 = thread_waits s"
    "objects s1 x = Some (ob\<lparr>body := Mutex (mx\<lparr>mx_count := 0, owner := None\<rparr>)\<rparr>)" "mild s s1"
    "owned_at s1 t = owned_at s t - {x}" "\<And>u. u \<noteq> t \<Longrightarrow> owned_at s1 u = owned_at s u"
proof -
  note ok = wakeableD [OF w]
  define mx' where "mx' = mx\<lparr>mx_count := 0, owner := None\<rparr>"
  obtain obt th where d: "objects s t = Some obt" "body obt = Thread th" "x \<in> set (mutex_list th)" "0 < refcount obt" "t \<noteq> x"
    "server_ok E (set_obj x (ob\<lparr>body := Mutex mx'\<rparr>)
       (set_obj t (obt\<lparr>body := Thread (th\<lparr>mutex_list := remove1 x (mutex_list th)\<rparr>)\<rparr>) s))"
    using disown [OF ok(1) ob] unfolding mx'_def by blast
  let ?obt = "obt\<lparr>body := Thread (th\<lparr>mutex_list := remove1 x (mutex_list th)\<rparr>)\<rparr>"
  let ?s = "set_obj x (ob\<lparr>body := Mutex mx'\<rparr>) (set_obj t ?obt s)"
  have eq: "set_obj x (ob\<lparr>body := Mutex mx'\<rparr>) (set_obj t obt' (set_obj x (ob\<lparr>body := c\<rparr>) s)) =
      set_obj x (ob\<lparr>body := Mutex mx'\<rparr>) (set_obj t obt' s)" for obt' c
    using d(5) by (simp add: set_obj_def fun_upd_twist)
  have run: "do_release release_object x (set_obj x (ob\<lparr>body := Mutex (mx\<lparr>mx_count := 0\<rparr>)\<rparr>) s) =
      wake_up release_object x 0 ?s"
    using d(1-5) ob
    by (simp add: do_release_def get_mutex_def get_thread_def set_body_def list_remove_def mx'_def [symmetric] eq)
  have tw: "thread_waits ?s = thread_waits s"
    unfolding thread_waits_look by (auto simp: fun_eq_iff look_Some d(1,2) ob)
  have "load ?s y \<le> load s y" for y
    using d(1,2) ob by (auto simp: load_def look_Some mx'_def)
  then have "load ?s y < 2 ^ 32" for y using ok(4) [of y] le_less_trans by blast
  then have "wakeable E ?s" unfolding wakeable_def tw using d(6) ok(2,3) by blast
  moreover have "touched x s ?s"
  proof -
    have "\<exists>ms. th' = th'\<lparr>mutex_list := ms\<rparr>" for th' :: thread by (rule exI [of _ "mutex_list th'"]) simp
    moreover have "\<exists>ms. th = th\<lparr>mutex_list := ms\<rparr>" by (rule exI [of _ "mutex_list th"]) simp
    ultimately show ?thesis
      using d(1,2,5) ob by (auto simp: touched_def touched_for_def get_thread_def get_process_def obj_signaled_def thread_signaled_def)
  qed
  moreover have "owned_at ?s t = owned_at s t - {x}"
    using d(1,2,5) server_ok_body [OF ok(1) d(1,4)] by (simp add: look_Some)
  moreover have "owned_at ?s u = owned_at s u" if "u \<noteq> t" for u
    using that ob d(5) by (cases "u = x") (simp_all add: look_Some)
  moreover have "mild s ?s" unfolding mild_def tw using d(1,2,5) ob by (auto simp: same_kind_def)
  ultimately show ?thesis using that [OF run] tw by (simp add: mx'_def)
qed

lemma mutex_release_ok:
  assumes w: "wakeable E s" and st: "settled s" and x: "x \<in># E" and mx: "get_mutex s x = Some mx" "owner mx = Some t"
  shows "\<exists>s' mx'. mutex_release x s = Some s' \<and> wakeable E s' \<and> settled s' \<and> get_mutex s' x = Some mx' \<and>
    (if mx_count mx = 1 then \<forall>u. owner mx' = Some u \<longrightarrow> thread_waits s u \<noteq> []
     else mx' = mx\<lparr>mx_count := mx_count mx - 1\<rparr>) \<and> mild s s'"
proof -
  obtain ob where ob: "objects s x = Some ob" "body ob = Mutex mx" using mx(1) by (auto simp: get_Some_iff)
  have pos: "0 < refcount ob" using wakeable_object [OF w x] ob(1) by simp
  have nz: "mx_count mx \<noteq> 0" using server_ok_body [OF wakeableD(1) [OF w] ob(1) pos] ob(2) mx(2) by simp
  show ?thesis
  proof (cases "mx_count mx = 1")
    case False
    let ?mx = "mx\<lparr>mx_count := mx_count mx - 1\<rparr>"
    let ?s = "set_obj x (ob\<lparr>body := Mutex ?mx\<rparr>) s"
    have nz1: "mx_count mx - 1 \<noteq> 0" using False by simp
    have "unat (mx_count mx - 1) \<le> unat (mx_count mx)" using nz by (simp add: unat_minus_one)
    then have w1: "wakeable E ?s"
      by (intro wakeable_upd [OF w ob(1)]) (use ob mx(2) nz1 in \<open>simp_all add: same_links_def\<close>)
    have tc: "touched x s ?s" by (rule touched_set_obj [OF ob(1)]) (simp_all add: ob)
    have "settled ?s"
      by (rule untouched_settled [OF w w1 tc st]) (use ob nz nz1 in \<open>simp add: obj_signaled_def mutex_signaled_def\<close>)
    moreover have "mutex_release x s = Some ?s"
      using mx ob nz1 by (simp add: mutex_release_def set_body_def)
    moreover have "mild s ?s" by (rule mild_set_obj [OF ob(1)]) (simp_all add: ob same_kind_def)
    ultimately show ?thesis using w1 False by (auto simp: get_mutex_def)
  next
    case True
    obtain s1 where s1: "do_release release_object x (set_obj x (ob\<lparr>body := Mutex (mx\<lparr>mx_count := 0\<rparr>)\<rparr>) s) = wake_up release_object x 0 s1"
      "wakeable E s1" "touched x s s1" "thread_waits s1 = thread_waits s"
      "objects s1 x = Some (ob\<lparr>body := Mutex (mx\<lparr>mx_count := 0, owner := None\<rparr>)\<rparr>)" "mild s s1"
      by (rule do_release_ok [OF w x ob mx(2)])
    let ?ob = "ob\<lparr>body := Mutex (mx\<lparr>mx_count := 0, owner := None\<rparr>)\<rparr>"
    have ready: "stuck s1 u \<or> u \<in> e_thread ` set (wait_queue ?ob)" for u
      using touched_queue [OF w s1(2,3) ob(1), of u] st by (simp add: settled_def)
    have en: "enough 0 x s1" by (simp add: enough_def)
    obtain s' where s': "wake_up release_object x 0 s1 = Some s'" "wakeable E s'" "roused s1 s'" "settled s'"
      using wake_up_settles [OF s1(2) x s1(5) ready en] by blast
    obtain ob' where ob': "objects s' x = Some ob'" using wakeable_object [OF s'(2) x] by blast
    have gm: "get_mutex s1 x = Some (mx\<lparr>mx_count := 0, owner := None\<rparr>)" by (simp add: get_mutex_def s1(5))
    obtain mx' where "get_mutex s' x = Some mx'"
      "owner mx' = owner (mx\<lparr>mx_count := 0, owner := None\<rparr>) \<or>
       owner (mx\<lparr>mx_count := 0, owner := None\<rparr>) = None \<and> (\<exists>t. owner mx' = Some t \<and> thread_waits s1 t \<noteq> [])"
      by (rule roused_mutex [OF s'(3) gm ob'])
    moreover have "mutex_release x s = Some s'"
      using mx ob True s1(1) s'(1) by (simp add: mutex_release_def set_body_def)
    moreover have "mild s s'" by (rule mild_trans [OF s1(6) mild_roused [OF s'(3)]])
    ultimately show ?thesis using s'(2,4) True s1(4) by auto
  qed
qed


abbreviation sample_mutex :: object where
  "sample_mutex \<equiv> plain_object 1 (Mutex \<lparr>owner = Some 1, mx_count = 1, abandoned = False\<rparr>)"

lemma holding_mutex: "wakeable {#0, 1, 5, 6#} (holding 6 sample_mutex)" "settled (holding 6 sample_mutex)"
  using wakeable_grab [OF sample_wakeable sample_objects(7)] settled_grab [OF sample_wakeable sample_objects(7) _ sample_settled]
  by (simp_all add: add_mset_commute)


end
