(* ===== verification/Thread_Ops.thy ===== *)
theory Thread_Ops
  imports Sync_Ops
begin

text \<open>
  Asynchronous calls, suspending and resuming (\<^verbatim>\<open>server/thread.c\<close>): what they do to the thread
  and that no waiting thread misses its wake-up.
\<close>

subsection \<open>Steps outside the objects\<close>

lemma wakeable_env:
  assumes w: "wakeable E s" and e: "objects s' = objects s" "same_env s (s'\<lparr>sent := sent s\<rparr>)"
  shows "wakeable E s'" "settled s \<Longrightarrow> settled s'" "mild s s'"
proof -
  have ok: "server_ok E s' = server_ok E s" by (rule server_ok_cong) (use e in \<open>simp_all add: same_env_def\<close>)
  have tw: "thread_waits s' = thread_waits s" and l: "load s' = load s"
    unfolding thread_waits_look load_def by (simp_all add: look_cong [OF e(1)])
  show w': "wakeable E s'" using w unfolding wakeable_def ok tw l .
  have g: "get_thread s' = get_thread s" "get_process s' = get_process s" by (simp_all add: get_thread_def [abs_def] get_process_def [abs_def] e)
  have "\<exists>ms. h = h\<lparr>mutex_list := ms\<rparr>" for h :: thread by (rule exI [of _ "mutex_list h"]) simp
  moreover have sg: "obj_signaled y t s' = obj_signaled y t s" for y t by (simp add: obj_signaled_def e)
  ultimately have tc: "touched 0 s s'" using e(2) by (simp add: touched_def touched_for_def same_env_def g)
  show "settled s \<Longrightarrow> settled s'" using untouched_settled [OF w w' tc _ sg] by blast
  show "mild s s'" using e by (simp add: mild_def same_env_def tw)
qed

lemma mem_alloc_env:
  assumes "mem_alloc s = (ok, s')"
  shows "objects s' = objects s" "same_env s (s' :: server)"
proof -
  have m: "env.more s' = env.more s" by (rule mem_alloc_more [OF assms])
  have "current s' = current s"
    using assms by (auto simp: mem_alloc_def malloc_def split: prod.splits list.splits option.splits if_splits)
  then show "objects s' = objects s" "same_env s s'" using more_fields [OF m] by (simp_all add: same_env_def)
qed

subsection \<open>Asynchronous calls\<close>

lemma apc_queue_simps [simp]:
  "apc_queue system (set_apc_queue system q th) = q" "t_process (set_apc_queue system q th) = t_process th"
  "mutex_list (set_apc_queue system q th) = mutex_list th" "waits (set_apc_queue system q th) = waits th"
  "t_state (set_apc_queue system q th) = t_state th" "t_suspend (set_apc_queue system q th) = t_suspend th"
  "system_apc (set_apc_queue system q th) = (if system then q else system_apc th)"
  "user_apc (set_apc_queue system q th) = (if system then user_apc th else q)"
  by (simp_all add: apc_queue_def set_apc_queue_def)

lemma cancel_first_Nil: "cancel_first own q \<noteq> [] \<Longrightarrow> q \<noteq> []"
  by (cases q) auto

text \<open>A step that keeps the server safe and no thread waiting in vain.\<close>

definition keeps :: "oid multiset \<Rightarrow> server \<Rightarrow> server \<Rightarrow> bool" where
  "keeps E s s' \<longleftrightarrow> wakeable E s' \<and> settled s' \<and> mild s s'"

lemma keeps_trans: "keeps E s s1 \<Longrightarrow> keeps E' s1 s2 \<Longrightarrow> keeps E' s s2"
  using mild_trans by (auto simp: keeps_def)

lemma keeps_env: "wakeable E s \<Longrightarrow> settled s \<Longrightarrow> objects s' = objects s \<Longrightarrow> same_env s s' \<Longrightarrow> keeps E s s'"
  using wakeable_env [of E s s'] by (auto simp: keeps_def same_env_def)

lemma keeps_send: "wakeable E s \<Longrightarrow> settled s \<Longrightarrow> keeps E s (send_thread_signal t sg s)"
  using wakeable_env [of E s "send_thread_signal t sg s"] by (simp add: keeps_def same_env_def send_thread_signal_def)

lemma tweak_keeps:
  assumes w: "wakeable E s" and st: "settled s" and ob: "objects s t = Some ob" "body ob = Thread th"
    and th': "t_process th' = t_process th" "mutex_list th' = mutex_list th" "waits th' = waits th" "t_state th' = t_state th"
      "t_suspend th \<le> t_suspend th'" "suspend_ok (Thread th) \<longrightarrow> suspend_ok (Thread th')" "system_apc th' \<noteq> [] \<Longrightarrow> system_apc th \<noteq> []" "user_apc th' \<noteq> [] \<Longrightarrow> user_apc th \<noteq> []"
  shows "keeps E s (set_obj t (ob\<lparr>body := Thread th'\<rparr>) s)"
proof -
  have "stuck (set_obj t (ob\<lparr>body := Thread th'\<rparr>) s) u" for u
    using tweak_thread(2) [OF w ob th'(1-4), of u] tweak_self [OF w ob th'(1-5,7,8)] st by (cases "u = t") (simp_all add: settled_def)
  moreover have "mild s (set_obj t (ob\<lparr>body := Thread th'\<rparr>) s)"
    by (rule mild_set_obj [OF ob(1)]) (use th'(6) in \<open>simp_all add: ob th' same_kind_def\<close>)
  ultimately show ?thesis using tweak_thread(1) [OF w ob th'(1-4)] by (simp add: keeps_def settled_def)
qed

lemma tweak_wake:
  assumes w: "wakeable E s" and st: "settled s" and ob: "objects s t = Some ob" "body ob = Thread th"
    and th': "t_process th' = t_process th" "mutex_list th' = mutex_list th" "waits th' = waits th" "t_state th' = t_state th"
      "suspend_ok (Thread th) \<longrightarrow> suspend_ok (Thread th')"
  obtains k s' ms ws where "wake_thread release_object t (set_obj t (ob\<lparr>body := Thread th'\<rparr>) s) = Some (k, s')" "keeps E s s'"
    "get_thread s' t = Some (th'\<lparr>mutex_list := ms, waits := ws\<rparr>)"
proof -
  let ?s = "set_obj t (ob\<lparr>body := Thread th'\<rparr>) s"
  have w1: "wakeable E ?s" by (rule tweak_thread(1) [OF w ob th'(1-4)])
  have t1: "get_thread ?s t \<noteq> None" by (simp add: get_thread_def)
  have st1: "u \<noteq> t \<Longrightarrow> stuck ?s u" for u using tweak_thread(2) [OF w ob th'(1-4), of u] st by (simp add: settled_def)
  obtain k s' where s': "wake_thread release_object t ?s = Some (k, s')" "wakeable E s'" "settled s'" "roused ?s s'"
    by (rule wake_thread_settles [OF w1 t1 st1]) blast+
  obtain k2 s2 where k2: "wake_thread release_object t ?s = Some (k2, s2)" "get_thread s2 t \<noteq> None"
    by (rule wake_thread_ok [OF w1 t1]) blast
  then obtain ob' where ob': "objects s' t = Some ob'" using s'(1) by (auto simp: get_thread_def split: bind_splits)
  obtain ob0 where "objects ?s t = Some ob0" "body ob' = body ob0 \<or> (\<exists>u. thread_waits ?s u \<noteq> [] \<and> calm_body u u (body ob0) (body ob'))"
    by (rule roused_get [OF s'(4) ob'])
  then have "body ob' = Thread th' \<or> (\<exists>u. calm_body u u (Thread th') (body ob'))" by auto
  then have "\<exists>u. calm_body u u (Thread th') (body ob')" using calm_body_refl by metis
  then obtain ms ws where "body ob' = Thread (th'\<lparr>mutex_list := ms, waits := ws\<rparr>)" by auto
  then have "get_thread s' t = Some (th'\<lparr>mutex_list := ms, waits := ws\<rparr>)" using ob' by (simp add: get_thread_def)
  moreover have "mild s s'"
    by (rule mild_trans [OF mild_set_obj [OF ob(1)] mild_roused [OF s'(4)]]) (use th'(5) in \<open>simp_all add: ob th' same_kind_def\<close>)
  ultimately show ?thesis using that s' by (simp add: keeps_def)
qed

lemma set_thread_Some:
  "objects s t = Some ob \<Longrightarrow> body ob = Thread th \<Longrightarrow> set_body t (Thread th') s = Some (set_obj t (ob\<lparr>body := Thread th'\<rparr>) s)"
  by (simp add: set_body_def)

lemma cancel_apc_ok:
  assumes w: "wakeable E s" and st: "settled s" and th: "get_thread s t = Some th"
  shows "\<exists>s'. thread_cancel_apc t own system s = Some s' \<and> keeps E s s' \<and> mem_oracle s' = mem_oracle s \<and>
    get_thread s' t = Some (set_apc_queue system (cancel_first own (apc_queue system th)) th)"
proof -
  obtain ob where ob: "objects s t = Some ob" "body ob = Thread th" using th by (auto simp: get_Some_iff)
  let ?th = "set_apc_queue system (cancel_first own (apc_queue system th)) th"
  have "keeps E s (set_obj t (ob\<lparr>body := Thread ?th\<rparr>) s)"
    by (rule tweak_keeps [OF w st ob]) (auto simp: apc_queue_def dest: cancel_first_Nil split: if_splits)
  then show ?thesis using th by (simp add: thread_cancel_apc_def set_thread_Some [OF ob] get_thread_def)
qed

lemma mem_alloc_oracle: "mem_oracle s' = mem_oracle s \<Longrightarrow> fst (mem_alloc s') = fst (mem_alloc s)"
  by (auto simp: mem_alloc_def malloc_def split: list.splits)

text \<open>The queue a new call is put into.\<close>

definition pending :: "oid option \<Rightarrow> bool \<Rightarrow> thread \<Rightarrow> thread_apc list" where
  "pending own system th =
     (if own = None then apc_queue system th else cancel_first own (apc_queue system th))"

lemma thread_queue_apc_ok:
  assumes w: "wakeable E s" and st: "settled s" and th: "get_thread s t = Some th"
  shows "\<exists>ok s' th'. thread_queue_apc t own func ty system args s = Some (ok, s') \<and> keeps E s s' \<and>
    get_thread s' t = Some th' \<and> (ok \<longleftrightarrow> t_state th \<noteq> TERMINATED \<and> fst (mem_alloc s)) \<and>
    apc_queue system th' = pending own system th @
      (if ok then [\<lparr>apc_owner = own, apc_func = func, apc_type = ty, apc_args = args\<rparr>] else [])"
proof -
  let ?q = "pending own system th"
  obtain s1 th1 where s1: "(if own \<noteq> None then thread_cancel_apc t own system s else Some s) = Some s1" "keeps E s s1"
    "get_thread s1 t = Some th1" "apc_queue system th1 = ?q" "t_state th1 = t_state th" "fst (mem_alloc s1) = fst (mem_alloc s)"
  proof (cases "own = None")
    case True
    then show ?thesis using that [of s th] w st th by (simp add: keeps_def pending_def)
  next
    case False
    obtain s1 where "thread_cancel_apc t own system s = Some s1" "keeps E s s1" "mem_oracle s1 = mem_oracle s"
      "get_thread s1 t = Some (set_apc_queue system (cancel_first own (apc_queue system th)) th)"
      using cancel_apc_ok [OF w st th] by blast
    then show ?thesis using that mem_alloc_oracle [of s1 s] False by (simp add: pending_def)
  qed
  show ?thesis
  proof (cases "t_state th = TERMINATED")
    case True
    then have "thread_queue_apc t own func ty system args s = Some (False, s1)"
      using s1(1,3,5) by (simp add: thread_queue_apc_def)
    then show ?thesis using s1(2-4) True by auto
  next
    case False
    obtain ok s2 where m: "mem_alloc s1 = (ok, s2)" by fastforce
    note env = mem_alloc_env [OF m]
    have okm: "fst (mem_alloc s) = ok" using m s1(6) by simp
    have k1: "wakeable E s1" "settled s1" using s1(2) by (simp_all add: keeps_def)
    have k2: "keeps E s s2" by (rule keeps_trans [OF s1(2) keeps_env [OF k1 env]])
    have w2: "wakeable E s2" "settled s2" using k2 by (simp_all add: keeps_def)
    have th2: "get_thread s2 t = Some th1" using s1(3) env(1) by (simp add: get_thread_def)
    show ?thesis
    proof (cases ok)
      case False
      then have "thread_queue_apc t own func ty system args s = Some (False, s2)"
        using s1(1,3,5) \<open>t_state th \<noteq> TERMINATED\<close> m by (simp add: thread_queue_apc_def)
      then show ?thesis using k2 th2 s1(4,5) okm False by auto
    next
      case True
      obtain ob where ob: "objects s2 t = Some ob" "body ob = Thread th1" using th2 by (auto simp: get_Some_iff)
      let ?apc = "\<lparr>apc_owner = own, apc_func = func, apc_type = ty, apc_args = args\<rparr>"
      let ?th = "set_apc_queue system (?q @ [?apc]) th1"
      let ?s = "set_obj t (ob\<lparr>body := Thread ?th\<rparr>) s2"
      have run: "thread_queue_apc t own func ty system args s =
          do { s \<leftarrow> (if ?q = [] then do { (_, s) \<leftarrow> wake_thread release_object t ?s; Some s } else Some ?s); Some (True, s) }"
        using s1(1,3,4,5) \<open>t_state th \<noteq> TERMINATED\<close> m True by (simp add: thread_queue_apc_def set_thread_Some [OF ob])
      show ?thesis
      proof (cases "?q = []")
        case True
        obtain k s' ms ws where s': "wake_thread release_object t ?s = Some (k, s')" "keeps E s2 s'"
          "get_thread s' t = Some (?th\<lparr>mutex_list := ms, waits := ws\<rparr>)"
          by (rule tweak_wake [OF w2 ob, of ?th]) simp_all
        have "apc_queue system (?th\<lparr>mutex_list := ms, waits := ws\<rparr>) = ?q @ [?apc]"
          by (simp add: apc_queue_def set_apc_queue_def)
        then show ?thesis
          using run True s' keeps_trans [OF k2 s'(2)] \<open>t_state th \<noteq> TERMINATED\<close> okm \<open>ok\<close> by (intro exI [of _ True] exI [of _ s']) auto
      next
        case False
        have "keeps E s2 ?s"
          by (rule tweak_keeps [OF w2 ob]) (use False s1(4) in \<open>auto simp: apc_queue_def split: if_splits\<close>)
        then show ?thesis
          using run False keeps_trans [OF k2] \<open>t_state th \<noteq> TERMINATED\<close> okm \<open>ok\<close>
          by (intro exI [of _ True] exI [of _ ?s] exI [of _ ?th]) (simp add: get_thread_def)
      qed
    qed
  qed
qed



subsection \<open>Suspending and resuming\<close>

lemma process_of_thread:
  assumes ok: "server_ok E s" and th: "get_thread s t = Some th" and alive: "t \<in># E"
  obtains p pr where "thread_process t s = Some (p, pr)" "t_process th = Some p" "get_process s p = Some pr"
proof -
  obtain ob where ob: "objects s t = Some ob" "body ob = Thread th" using th by (auto simp: get_Some_iff)
  have "0 < refcount ob" using refs_ok_alive [OF server_okD(2) [OF ok], of t] alive ob(1) by auto
  then have "alive_at s t" "type_at s t = Some thread_ops" using ob by (simp_all add: look_Some)
  then obtain p where p: "proc_at s t = Some p" using threads_ok_alive [OF server_okD(4) [OF ok]] by blast
  then have "type_at s p = Some process_ops" by (rule threads_ok_type [OF server_okD(4) [OF ok]])
  then obtain obp where obp: "objects s p = Some obp" "ops (body obp) = process_ops"
    by (auto simp: look_def split: option.splits)
  then obtain pr where "body obp = Process pr" by (cases "body obp") auto
  then have "get_process s p = Some pr" using obp by (simp add: get_process_def)
  moreover have "t_process th = Some p" using p ob by (simp add: look_Some)
  ultimately show ?thesis using that th by (simp add: thread_process_def)
qed

lemma stop_thread_ok:
  assumes w: "wakeable E s" and st: "settled s" and th: "get_thread s t = Some th" and t: "t \<in># E"
  shows "\<exists>s'. stop_thread t s = Some s' \<and> keeps E s s' \<and> objects s' = objects s"
proof -
  obtain p pr where "thread_process t s = Some (p, pr)"
    by (rule process_of_thread [OF wakeableD(1) [OF w] th t])
  then show ?thesis
    using th keeps_send [OF w st] w st
    by (auto simp: stop_thread_def keeps_def) (simp add: send_thread_signal_def)
qed

lemma suspend_thread_ok:
  assumes w: "wakeable E s" and st: "settled s" and th: "get_thread s t = Some th" and t: "t \<in># E"
  shows "\<exists>s'. suspend_thread t s = Some (t_suspend th, s') \<and> keeps E s s' \<and>
    (if t_suspend th < MAXIMUM_SUSPEND_COUNT then get_thread s' t = Some (th\<lparr>t_suspend := t_suspend th + 1\<rparr>)
     else s' = set_error STATUS_SUSPEND_COUNT_EXCEEDED s)"
proof -
  obtain ob where ob: "objects s t = Some ob" "body ob = Thread th" using th by (auto simp: get_Some_iff)
  obtain p pr where p: "thread_process t s = Some (p, pr)"
    by (rule process_of_thread [OF wakeableD(1) [OF w] th t])
  show ?thesis
  proof (cases "t_suspend th < MAXIMUM_SUSPEND_COUNT")
    case True
    let ?th = "th\<lparr>t_suspend := t_suspend th + 1\<rparr>"
    let ?s = "set_obj t (ob\<lparr>body := Thread ?th\<rparr>) s"
    have k: "keeps E s ?s" by (rule tweak_keeps [OF w st ob]) (use True in auto)
    have th1: "get_thread ?s t = Some ?th" by (simp add: get_thread_def)
    obtain s' where s': "stop_thread t ?s = Some s'" "keeps E ?s s'" "objects s' = objects ?s"
      using stop_thread_ok [OF _ _ th1 t] k by (auto simp: keeps_def)
    have "get_thread s' t = Some ?th" using th1 s'(3) by (simp add: get_thread_def)
    then show ?thesis
      using True p th s'(1) th1 k keeps_trans [OF k s'(2)] by (auto simp: suspend_thread_def set_thread_Some [OF ob] Let_def)
  next
    case False
    have "keeps E s (set_error STATUS_SUSPEND_COUNT_EXCEEDED s)" by (rule keeps_env [OF w st]) simp_all
    then show ?thesis using False th by (simp add: suspend_thread_def Let_def)
  qed
qed

lemma resume_thread_ok:
  assumes w: "wakeable E s" and st: "settled s" and th: "get_thread s t = Some th" and t: "t \<in># E"
    and p: "get_process s p = Some pr" "t_process th = Some p" "0 \<le> p_suspend pr"
  shows "\<exists>s' th'. resume_thread t s = Some (t_suspend th, s') \<and> keeps E s s' \<and> get_thread s' t = Some th' \<and>
    t_suspend th' = (if t_suspend th > 0 then t_suspend th - 1 else t_suspend th)"
proof -
  obtain ob where ob: "objects s t = Some ob" "body ob = Thread th" using th by (auto simp: get_Some_iff)
  have tp: "thread_process t s = Some (p, pr)" using th p by (simp add: thread_process_def)
  show ?thesis
  proof (cases "t_suspend th > 0")
    case False
    then show ?thesis using th w st by (simp add: resume_thread_def keeps_def)
  next
    case True
    let ?th = "th\<lparr>t_suspend := t_suspend th - 1\<rparr>"
    let ?s = "set_obj t (ob\<lparr>body := Thread ?th\<rparr>) s"
    show ?thesis
    proof (cases "t_suspend th - 1 + p_suspend pr = 0")
      case wake: True
      obtain k s' ms ws where s': "wake_thread release_object t ?s = Some (k, s')" "keeps E s s'"
        "get_thread s' t = Some (?th\<lparr>mutex_list := ms, waits := ws\<rparr>)"
        by (rule tweak_wake [OF w st ob, of ?th]) (use True in auto)
      have "resume_thread t s = Some (t_suspend th, s')"
        using True wake th tp s'(1) by (simp add: resume_thread_def Let_def set_thread_Some [OF ob])
      then show ?thesis using s'(2,3) True by simp
    next
      case False
      have th1: "get_thread ?s t = Some ?th" by (simp add: get_thread_def)
      have "get_process ?s p = Some pr" using p(1) ob by (auto simp: get_process_def split: bind_splits)
      then have susp: "is_suspended t ?s = Some True" using th1 p(2,3) True False by (simp add: is_suspended_def)
      have w1: "wakeable E ?s" by (rule tweak_thread(1) [OF w ob]) simp_all
      have "stuck ?s u" for u
      proof (cases "u = t")
        case True
        then show ?thesis
        proof (cases "waits th")
          case (Cons w0 ws)
          then have "waits ?th = w0 # ws" by simp
          then show ?thesis using stuck_iff [OF w1 th1] susp \<open>u = t\<close> by blast
        qed (use True th1 in \<open>simp add: stuck_def thread_waits_Some\<close>)
      next
        case False
        then show ?thesis using tweak_thread(2) [OF w ob, of ?th u] st by (simp add: settled_def)
      qed
      moreover have "mild s ?s" by (rule mild_set_obj [OF ob(1)]) (use True in \<open>auto simp: ob same_kind_def\<close>)
      ultimately have "keeps E s ?s" using w1 by (simp add: keeps_def settled_def)
      moreover have "resume_thread t s = Some (t_suspend th, ?s)"
        using True False th tp by (simp add: resume_thread_def Let_def set_thread_Some [OF ob])
      ultimately show ?thesis using th1 True by simp
    qed
  qed
qed



end
