(* ===== verification/Requests.thy ===== *)
theory Requests
  imports Thread_Ops Handles_Ops
begin

text \<open>
  Requests of a client as steps of the server: a request looks up a handle, works on the
  object and gives its reference back.  Every such step is defined and leads from a good state
  to a good state.
\<close>

subsection \<open>Good states\<close>

text \<open>
  The states between two requests of the thread \<open>t\<close> of the process \<open>p\<close>: safe to wake threads
  in, no thread waiting that could go on, suspend counts in their range.
\<close>

definition good :: "oid multiset \<Rightarrow> oid \<Rightarrow> oid \<Rightarrow> server \<Rightarrow> bool" where
  "good E t p s \<longleftrightarrow> wakeable E s \<and> settled s \<and> current_thread E s t p \<and>
     (\<forall>x ob. objects s x = Some ob \<longrightarrow> suspend_ok (body ob))"

lemma goodD:
  assumes "good E t p s"
  shows "wakeable E s" "settled s" "current_thread E s t p" "server_ok E s" "current s = Some t" "t \<in># E" "p \<in># E"
    "objects s x = Some ob \<Longrightarrow> suspend_ok (body ob)"
  using assms wakeableD(1) unfolding good_def current_thread_def by blast+

lemma good_keeps:
  assumes g: "good E t p s" and k: "keeps E' s s'" and E: "E \<subseteq># E'"
  shows "good E' t p s'"
proof -
  have m: "mild s s'" and ok: "server_ok E' s'" using k wakeableD(1) by (auto simp: keeps_def)
  have t: "t \<in># E'" "p \<in># E'" using goodD(6,7) [OF g] E by (meson mset_subset_eqD)+
  have "proc_at s' t = Some p"
    using mild_type(2) [OF m ok t(1)] goodD(3) [OF g] by (simp add: current_thread_def)
  moreover have "current s' = Some t" using m goodD(5) [OF g] by (simp add: mild_def)
  ultimately have "current_thread E' s' t p" using t by (simp add: current_thread_def)
  moreover have "suspend_ok (body ob')" if ob': "objects s' x = Some ob'" for x ob'
  proof -
    obtain ob where "objects s x = Some ob" "same_kind (body ob) (body ob')" using m ob' unfolding mild_def by blast
    then show ?thesis using goodD(8) [OF g] by (simp add: same_kind_def)
  qed
  ultimately show ?thesis using k unfolding good_def keeps_def by blast
qed

lemma keeps_grab:
  assumes "wakeable E s" "settled s" "objects s x = Some ob" "0 < refcount ob"
  shows "keeps (E + {#x#}) s (set_obj x (ob\<lparr>refcount := refcount ob + 1\<rparr>) s)"
  using wakeable_grab [OF assms(1,3,4)] settled_grab [OF assms(1,3,4,2)] mild_set_obj [OF assms(3), of "ob\<lparr>refcount := refcount ob + 1\<rparr>"]
  by (simp add: keeps_def)

text \<open>Giving a reference back.\<close>

lemma keeps_calm:
  assumes w: "wakeable E0 s" "settled s" and t: "\<And>u. thread_waits s u \<noteq> [] \<Longrightarrow> u \<in># E"
    and s': "server_ok E s'" "\<And>u. calm u {} s s'" "\<And>y. load s' y \<le> load s y" "mild s s'"
  shows "keeps E s s'"
proof -
  have tw: "thread_waits s' u = thread_waits s u" for u
  proof (cases "thread_waits s u = []")
    case True
    then show ?thesis using calm_no_new_waits [OF s'(2) [of "Suc u"], of u] by (cases "thread_waits s' u = []") auto
  next
    case False
    obtain th where th: "get_thread s u = Some th" using False by (cases "get_thread s u") (auto simp: thread_waits_def)
    obtain ob' where ob': "objects s' u = Some ob'"
      using refs_ok_alive [OF server_okD(2) [OF s'(1)], of u] t [OF False] by auto
    obtain ob where "objects s u = Some ob" "calm_body (Suc u) u (body ob) (body ob')"
      by (rule calm_get [OF s'(2) [of "Suc u"] ob'])
    moreover from this th have "body ob = Thread th" by (auto simp: get_Some_iff)
    ultimately show ?thesis using ob' by (auto simp: thread_waits_def get_thread_def)
  qed
  have "load s' y < 2 ^ 32" for y using s'(3) [of y] wakeableD(4) [OF w(1), of y] by linarith
  then have w': "wakeable E s'" unfolding wakeable_def using s'(1) t wakeableD(3) [OF w(1)] tw by simp
  have "stuck s' u" for u
    by (rule calm_stuck [OF w(1) w' s'(2) [of "Suc u"]]) (use w(2) in \<open>simp_all add: settled_def\<close>)
  then show ?thesis using w' s'(4) by (simp add: keeps_def settled_def)
qed

lemma keeps_shrinks:
  assumes "wakeable (E + {#x#}) s" "settled s" "\<And>u. thread_waits s u \<noteq> [] \<Longrightarrow> u \<in># E"
    "server_ok E s'" "shrinks {} s s'"
  shows "keeps E s s'"
  by (rule keeps_calm [OF assms(1-4) calm_shrinks [OF assms(5)] load_shrinks [OF assms(5)] mild_shrinks [OF assms(5)]])

text \<open>The entries of a handle table are nothing a thread waits for.\<close>

lemma table_queue:
  assumes "server_ok E s" "objects s tb = Some ob" "body ob = Handle_table ht"
  shows "wait_queue ob = []"
proof (rule ccontr)
  assume "wait_queue ob \<noteq> []"
  then obtain e where e: "e \<in> set (wait_queue ob)" by (cases "wait_queue ob") auto
  then have "e_obj e = tb" "e \<in># entries_at s (e_thread e)" using queue_entries(2) [OF assms(1,2)] by auto
  then obtain ob' where "objects s tb = Some ob'" "waitable (ops (body ob'))" using entry_object [OF assms(1)] by metis
  then show False using assms(2,3) by (simp add: waitable_def)
qed

lemma only_frees_get:
  assumes "only_frees {tb} s s'" "objects s' x = Some ob'" "x \<noteq> tb"
  obtains ob where "objects s x = Some ob" "wait_queue ob' = wait_queue ob" "body_shrinks (body ob) (body ob')"
proof -
  have "case objects s x of None \<Rightarrow> objects s' x = None
      | Some ob \<Rightarrow> (case objects s' x of None \<Rightarrow> 0 < refcount ob | Some ob' \<Rightarrow> obj_shrinks ob ob')"
    using assms(1,3) unfolding only_frees_def by blast
  then obtain ob where "objects s x = Some ob" "obj_shrinks ob ob'"
    using assms(2) by (cases "objects s x") simp_all
  then show ?thesis using that by (auto simp: obj_shrinks_def)
qed

lemma keeps_frees:
  assumes w: "wakeable E s" "settled s" and s': "server_ok E s'" "only_frees {tb} s s'"
    and tb: "get_table s tb = Some ht" "get_table s' tb = Some ht'"
  shows "keeps E s s'"
proof -
  obtain ob1 where ob1: "objects s tb = Some ob1" "body ob1 = Handle_table ht" using tb(1) by (auto simp: get_Some_iff)
  obtain ob2 where ob2: "objects s' tb = Some ob2" "body ob2 = Handle_table ht'" using tb(2) by (auto simp: get_Some_iff)
  have q: "wait_queue ob1 = []" "wait_queue ob2 = []"
    using table_queue [OF wakeableD(1) [OF w(1)] ob1] table_queue [OF s'(1) ob2] by simp_all
  have still: "still s s'" using s'(2) by (simp add: only_frees_def still_def)
  have get: "\<exists>ob. objects s x = Some ob \<and> wait_queue ob' = wait_queue ob \<and> (\<forall>t. calm_body t x (body ob) (body ob')) \<and>
      depth (body ob') = depth (body ob) \<and> waits_of (body ob') = waits_of (body ob)"
    if x: "objects s' x = Some ob'" for x ob'
  proof (cases "x = tb")
    case True
    then show ?thesis using ob1 ob2 q x by auto
  next
    case False
    obtain ob where ob: "objects s x = Some ob" "wait_queue ob' = wait_queue ob" "body_shrinks (body ob) (body ob')"
      by (rule only_frees_get [OF s'(2) x False])
    have "\<forall>t. calm_body t x (body ob) (body ob')" using ob(3) calm_mutexes unfolding body_shrinks_def by auto
    moreover have "depth (body ob') = depth (body ob)" "waits_of (body ob') = waits_of (body ob)"
      using ob(3) unfolding body_shrinks_def by auto
    ultimately show ?thesis using ob by blast
  qed
  have c: "calm u {} s s'" for u using still get unfolding calm_def by fastforce
  have l: "load s' y \<le> load s y" for y
  proof (cases "objects s' y")
    case (Some ob')
    then show ?thesis using get [OF Some] by (auto simp: load_Some)
  qed (simp add: load_None)
  have "mild s s'" unfolding mild_def
  proof (intro conjI allI impI)
    show "current s' = current s" using still by (simp add: still_def)
    show "thread_waits s u \<noteq> []" if "thread_waits s' u \<noteq> []" for u
      using calm_no_new_waits [OF c [of "Suc u"], of u] that by simp
    show "\<exists>ob. objects s x = Some ob \<and> same_kind (body ob) (body ob')" if "objects s' x = Some ob'" for x ob'
      using get [OF that] calm_body_kind by blast
  qed
  then show ?thesis using keeps_calm [OF w wakeableD(2) [OF w(1)] s'(1) c l] by blast
qed

lemma keeps_release:
  assumes "wakeable (E + {#x#}) s" "settled s" "\<And>u. thread_waits s u \<noteq> [] \<Longrightarrow> u \<in># E"
  shows "\<exists>s'. release_object x s = Some s' \<and> keeps E s s'"
  using rel.rel_ok [OF wakeableD(1) [OF assms(1)]] keeps_shrinks [OF assms] by blast

subsection \<open>Requests on an object\<close>

lemma current_process_ok: "good E t p s \<Longrightarrow> current_process s = Some p"
  unfolding good_def current_thread_def current_process_def get_thread_def
  by (cases "objects s t"; cases "body (the (objects s t))") (auto simp: look_Some look_None)

lemma good_process:
  assumes g: "good E t p s"
  obtains pr where "get_process s p = Some pr"
proof -
  have "type_at s p = Some process_ops"
    using threads_ok_type [OF server_okD(4) [OF goodD(4) [OF g]]] goodD(3) [OF g] unfolding current_thread_def by blast
  then obtain ob where "objects s p = Some ob" "ops (body ob) = process_ops" by (auto simp: look_def split: option.splits)
  then show ?thesis using that by (cases "body ob") (auto simp: get_process_def)
qed

text \<open>\<open>safe f\<close>: on an object of its type, \<open>f\<close> is defined and keeps the state good.\<close>

definition safe :: "obj_ops \<Rightarrow> (oid \<Rightarrow> server \<Rightarrow> ('a \<times> server) option) \<Rightarrow> bool" where
  "safe ty f \<longleftrightarrow> (\<forall>E t p s x. good E t p s \<longrightarrow> x \<in># E \<longrightarrow> type_at s x = Some ty \<longrightarrow>
     (\<exists>r s'. f x s = Some (r, s') \<and> keeps E s s'))"

definition on_object :: "obj_handle \<Rightarrow> 32 word \<Rightarrow> obj_ops \<Rightarrow> (oid \<Rightarrow> server \<Rightarrow> ('a \<times> server) option) \<Rightarrow> server
    \<Rightarrow> ('a option \<times> server) option" where
  "on_object h acc ty f s =
     do { p \<leftarrow> current_process s;
          (obj, s) \<leftarrow> get_handle_obj p h acc (Some ty) s;
          case obj of None \<Rightarrow> Some (None, s)
          | Some x \<Rightarrow> do { (r, s) \<leftarrow> f x s; s \<leftarrow> release_object x s; Some (Some r, s) } }"

lemma get_handle_obj_good:
  assumes g: "good E t p s" "counts_fit s"
  shows "\<exists>obj s'. get_handle_obj p h acc (Some ty) s = Some (obj, s') \<and>
    (case obj of None \<Rightarrow> good E t p s' | Some x \<Rightarrow> good (E + {#x#}) t p s' \<and> type_at s' x = Some ty) \<and>
    (\<forall>u. thread_waits s' u \<noteq> [] \<longrightarrow> u \<in># E)"
proof -
  obtain pr where pr: "get_process s p = Some pr" by (rule good_process [OF g(1)])
  note H = get_handle_obj_ok [OF goodD(4,3) [OF g(1)] pr g(2), of h acc "Some ty"]
  have wE: "thread_waits s' u \<noteq> [] \<Longrightarrow> u \<in># E" if "mild s s'" for s' u
    using that wakeableD(2) [OF goodD(1) [OF g(1)]] unfolding mild_def by blast
  have err: "\<exists>obj s'. get_handle_obj p h acc (Some ty) s = Some (obj, s') \<and>
    (case obj of None \<Rightarrow> good E t p s' | Some x \<Rightarrow> good (E + {#x#}) t p s' \<and> type_at s' x = Some ty) \<and>
    (\<forall>u. thread_waits s' u \<noteq> [] \<longrightarrow> u \<in># E)"
    if "get_handle_obj p h acc (Some ty) s = Some (None, set_error e s)" for e
  proof -
    have k: "keeps E s (set_error e s)" by (rule keeps_env [OF goodD(1,2) [OF g(1)]]) simp_all
    then show ?thesis using that good_keeps [OF g(1) k] wE by (auto simp: keeps_def)
  qed
  show ?thesis
  proof (cases "handle_target s t p p h")
    case None
    then show ?thesis using H err by simp
  next
    case (Some oa)
    obtain o1 a where oa: "oa = (o1, a)" by fastforce
    show ?thesis
    proof (cases "a AND acc \<noteq> acc \<or> type_at s o1 \<noteq> Some ty")
      case True
      then show ?thesis using H Some oa err by (auto split: if_splits)
    next
      case False
      then obtain ob where ob: "objects s o1 = Some ob"
        "get_handle_obj p h acc (Some ty) s = Some (Some o1, set_obj o1 (ob\<lparr>refcount := refcount ob + 1\<rparr>) s)"
        using H Some oa by auto
      obtain ob' where "objects s o1 = Some ob'" "0 < refcount ob'"
        using target_alive [OF goodD(4,3) [OF g(1)]] Some oa by metis
      then have pos: "0 < refcount ob" using ob(1) by simp
      note k = keeps_grab [OF goodD(1,2) [OF g(1)] ob(1) pos]
      have "type_at (set_obj o1 (ob\<lparr>refcount := refcount ob + 1\<rparr>) s) o1 = Some ty"
        using False ob(1) by (simp add: look_Some)
      then show ?thesis using ob(2) good_keeps [OF g(1) k] wE k by (auto simp: keeps_def)
    qed
  qed
qed

lemma on_object_ok:
  assumes g: "good E t p s" "counts_fit s" and f: "safe ty f"
  shows "\<exists>r s'. on_object h acc ty f s = Some (r, s') \<and> good E t p s'"
proof -
  obtain obj s1 where s1: "get_handle_obj p h acc (Some ty) s = Some (obj, s1)"
    "case obj of None \<Rightarrow> good E t p s1 | Some x \<Rightarrow> good (E + {#x#}) t p s1 \<and> type_at s1 x = Some ty"
    "\<And>u. thread_waits s1 u \<noteq> [] \<Longrightarrow> u \<in># E"
    using get_handle_obj_good [OF g, of h acc ty] by blast
  note cp = current_process_ok [OF g(1)]
  show ?thesis
  proof (cases obj)
    case None
    then show ?thesis using s1 cp by (simp add: on_object_def)
  next
    case (Some x)
    then have g1: "good (E + {#x#}) t p s1" "type_at s1 x = Some ty" using s1(2) by simp_all
    have "x \<in># E + {#x#}" by simp
    then obtain r s2 where s2: "f x s1 = Some (r, s2)" "keeps (E + {#x#}) s1 s2"
      using f g1 unfolding safe_def by blast
    have g2: "good (E + {#x#}) t p s2" by (rule good_keeps [OF g1(1) s2(2)]) simp
    have w2: "thread_waits s2 u \<noteq> [] \<Longrightarrow> u \<in># E" for u using s1(3) s2(2) unfolding keeps_def mild_def by blast
    obtain s3 where s3: "release_object x s2 = Some s3" "keeps E s2 s3"
      using keeps_release [OF goodD(1,2) [OF g2] w2] by blast
    have "good E t p s3"
    proof -
      have m: "mild s2 s3" and ok: "server_ok E s3" using s3(2) wakeableD(1) by (auto simp: keeps_def)
      have tE: "t \<in># E" "p \<in># E" using goodD(6,7) [OF g(1)] by simp_all
      have "proc_at s3 t = Some p" "current s3 = Some t"
        using mild_type(2) [OF m ok tE(1)] goodD(3,5) [OF g2] m by (simp_all add: current_thread_def mild_def)
      moreover have "suspend_ok (body ob')" if ob': "objects s3 y = Some ob'" for y ob'
      proof -
        obtain ob where "objects s2 y = Some ob" "same_kind (body ob) (body ob')" using m ob' unfolding mild_def by blast
        then show ?thesis using goodD(8) [OF g2] by (simp add: same_kind_def)
      qed
      ultimately show ?thesis using s3(2) tE by (simp add: good_def keeps_def current_thread_def)
    qed
    then show ?thesis using cp s1(1) Some s2(1) s3(1) by (simp add: on_object_def)
  qed
qed

subsection \<open>The operations\<close>

lemma type_cases:
  assumes "good E t p s" "x \<in># E" "type_at s x = Some ty"
  obtains ob where "objects s x = Some ob" "ops (body ob) = ty" "0 < refcount ob"
  using assms(3) wakeable_object [OF goodD(1) [OF assms(1)] assms(2)] by (auto simp: look_Some)

lemma type_event: "type_at s x = Some event_ops \<longleftrightarrow> (\<exists>ev. get_event s x = Some ev)"
  and type_mutex: "type_at s x = Some mutex_ops \<longleftrightarrow> (\<exists>mx. get_mutex s x = Some mx)"
  and type_semaphore: "type_at s x = Some semaphore_ops \<longleftrightarrow> (\<exists>sm. get_semaphore s x = Some sm)"
  and type_thread: "type_at s x = Some thread_ops \<longleftrightarrow> (\<exists>th. get_thread s x = Some th)"
  and type_process: "type_at s x = Some process_ops \<longleftrightarrow> (\<exists>pr. get_process s x = Some pr)"
proof -
  show "type_at s x = Some event_ops \<longleftrightarrow> (\<exists>ev. get_event s x = Some ev)"
    by (cases "objects s x"; cases "body (the (objects s x))") (auto simp: look_Some look_None get_defs)
  show "type_at s x = Some mutex_ops \<longleftrightarrow> (\<exists>mx. get_mutex s x = Some mx)"
    by (cases "objects s x"; cases "body (the (objects s x))") (auto simp: look_Some look_None get_defs)
  show "type_at s x = Some semaphore_ops \<longleftrightarrow> (\<exists>sm. get_semaphore s x = Some sm)"
    by (cases "objects s x"; cases "body (the (objects s x))") (auto simp: look_Some look_None get_defs)
  show "type_at s x = Some thread_ops \<longleftrightarrow> (\<exists>th. get_thread s x = Some th)"
    by (cases "objects s x"; cases "body (the (objects s x))") (auto simp: look_Some look_None get_defs)
  show "type_at s x = Some process_ops \<longleftrightarrow> (\<exists>pr. get_process s x = Some pr)"
    by (cases "objects s x"; cases "body (the (objects s x))") (auto simp: look_Some look_None get_defs)
qed

lemma clear_event_ok:
  assumes w: "wakeable E s" and st: "settled s" and ev: "get_event s x = Some ev"
  shows "\<exists>s'. set_signaled x False s = Some s' \<and> keeps E s s'"
proof -
  obtain ob where ob: "objects s x = Some ob" "body ob = Event ev" using ev by (auto simp: get_Some_iff)
  have "set_signaled x False s = Some (quench x s)"
    using ob by (simp add: set_signaled_def get_event_def set_body_def quench_def)
  moreover have "settled (quench x s)" using stuck_quench [OF w ob(1)] st by (simp add: settled_def)
  moreover have "mild s (quench x s)"
    unfolding quench_Some [OF ob(1)] by (rule mild_set_obj [OF ob(1)]) (simp_all add: ob same_kind_def)
  ultimately show ?thesis using wakeable_quench [OF w] by (simp add: keeps_def)
qed

lemma set_event_keeps:
  assumes "wakeable E s" "settled s" "x \<in># E" "get_event s x = Some ev"
  shows "\<exists>s' ev'. set_event x s = Some s' \<and> keeps E s s' \<and> get_event s' x = Some ev'"
  using set_event_ok [OF assms] unfolding keeps_def by blast

lemma event_op_safe:
  "safe event_ops (\<lambda>x s. do { s \<leftarrow> (case op of PULSE_EVENT \<Rightarrow> pulse_event x s | SET_EVENT \<Rightarrow> set_event x s
      | RESET_EVENT \<Rightarrow> reset_event x s | Other_op \<Rightarrow> Some (set_error STATUS_INVALID_PARAMETER s)); Some ((), s) })"
  unfolding safe_def
proof (intro allI impI)
  fix E t p s x assume g: "good E t p s" and x: "x \<in># E" and ty: "type_at s x = Some event_ops"
  obtain ev where ev: "get_event s x = Some ev" using ty by (auto simp: type_event)
  note w = goodD(1,2) [OF g]
  obtain s1 ev1 where s1: "set_event x s = Some s1" "keeps E s s1" "get_event s1 x = Some ev1"
    using set_event_keeps [OF w x ev] by blast
  show "\<exists>r s'. do { s \<leftarrow> (case op of PULSE_EVENT \<Rightarrow> pulse_event x s | SET_EVENT \<Rightarrow> set_event x s
      | RESET_EVENT \<Rightarrow> reset_event x s | Other_op \<Rightarrow> Some (set_error STATUS_INVALID_PARAMETER s)); Some ((), s) } = Some (r, s') \<and>
      keeps E s s'"
  proof (cases op)
    case PULSE_EVENT
    have k: "wakeable E s1" "settled s1" using s1(2) by (simp_all add: keeps_def)
    obtain s2 where s2: "set_signaled x False s1 = Some s2" "keeps E s1 s2" using clear_event_ok [OF k s1(3)] by blast
    have "pulse_event x s = do { s \<leftarrow> set_event x s; set_signaled x False s }" by (simp add: pulse_event_def set_event_def)
    then show ?thesis using PULSE_EVENT s1(1) s2(1) keeps_trans [OF s1(2) s2(2)] by simp
  next
    case SET_EVENT
    then show ?thesis using s1 by simp
  next
    case RESET_EVENT
    then show ?thesis using clear_event_ok [OF w ev] by (auto simp: reset_event_def)
  next
    case Other_op
    then show ?thesis using keeps_env [OF w, of "set_error STATUS_INVALID_PARAMETER s"] by simp
  qed
qed

lemma release_mutex_safe:
  "safe mutex_ops (\<lambda>x s. do { m \<leftarrow> get_mutex s x;
      if mx_count m = 0 \<or> owner m \<noteq> current s then Some (None, set_error STATUS_MUTANT_NOT_OWNED s)
      else do { s \<leftarrow> mutex_release x s; Some (Some (mx_count m), s) } })"
  unfolding safe_def
proof (intro allI impI)
  fix E t p s x assume g: "good E t p s" and x: "x \<in># E" and ty: "type_at s x = Some mutex_ops"
  obtain mx where mx: "get_mutex s x = Some mx" using ty by (auto simp: type_mutex)
  note w = goodD(1,2) [OF g]
  show "\<exists>r s'. do { m \<leftarrow> get_mutex s x;
      if mx_count m = 0 \<or> owner m \<noteq> current s then Some (None, set_error STATUS_MUTANT_NOT_OWNED s)
      else do { s \<leftarrow> mutex_release x s; Some (Some (mx_count m), s) } } = Some (r, s') \<and> keeps E s s'"
  proof (cases "mx_count mx = 0 \<or> owner mx \<noteq> current s")
    case True
    then show ?thesis using mx keeps_env [OF w, of "set_error STATUS_MUTANT_NOT_OWNED s"] by simp
  next
    case False
    then have "owner mx = Some t" using goodD(5) [OF g] by simp
    then obtain s' where "mutex_release x s = Some s'" "keeps E s s'"
      using mutex_release_ok [OF w x mx] unfolding keeps_def by blast
    then show ?thesis using mx False by simp
  qed
qed

lemma release_semaphore_safe:
  "safe semaphore_ops (\<lambda>x s. do { ((_, prev), s) \<leftarrow> release_semaphore x n s; Some (prev, s) })"
  unfolding safe_def
proof (intro allI impI)
  fix E t p s x assume g: "good E t p s" and x: "x \<in># E" and ty: "type_at s x = Some semaphore_ops"
  obtain sm where sm: "get_semaphore s x = Some sm" using ty by (auto simp: type_semaphore)
  note w = goodD(1,2) [OF g]
  have "\<exists>b s'. release_semaphore x n s = Some ((b, sem_count sm), s') \<and> keeps E s s'"
  proof (cases "unat (sem_max sm) < unat (sem_count sm) + unat n")
    case True
    then have "release_semaphore x n s = Some ((False, sem_count sm), set_error STATUS_SEMAPHORE_LIMIT_EXCEEDED s)"
      using release_semaphore_ok [OF w x sm, of n] by simp
    then show ?thesis using keeps_env [OF w, of "set_error STATUS_SEMAPHORE_LIMIT_EXCEEDED s"] by auto
  next
    case False
    then show ?thesis using release_semaphore_ok [OF w x sm, of n] unfolding keeps_def by auto
  qed
  then show "\<exists>r s'. do { ((_, prev), s) \<leftarrow> release_semaphore x n s; Some (prev, s) } = Some (r, s') \<and> keeps E s s'"
    by auto
qed

lemma suspend_safe:
  "safe thread_ops (\<lambda>t s. do { th \<leftarrow> get_thread s t;
      if t_state th = TERMINATED then Some (None, set_error STATUS_ACCESS_DENIED s)
      else do { (n, s) \<leftarrow> suspend_thread t s; Some (Some n, s) } })"
  unfolding safe_def
proof (intro allI impI)
  fix E t p s x assume g: "good E t p s" and x: "x \<in># E" and ty: "type_at s x = Some thread_ops"
  obtain th where th: "get_thread s x = Some th" using ty by (auto simp: type_thread)
  note w = goodD(1,2) [OF g]
  obtain s' where "suspend_thread x s = Some (t_suspend th, s')" "keeps E s s'"
    using suspend_thread_ok [OF w th x] by blast
  then show "\<exists>r s'. do { th \<leftarrow> get_thread s x;
      if t_state th = TERMINATED then Some (None, set_error STATUS_ACCESS_DENIED s)
      else do { (n, s) \<leftarrow> suspend_thread x s; Some (Some n, s) } } = Some (r, s') \<and> keeps E s s'"
    using th keeps_env [OF w, of "set_error STATUS_ACCESS_DENIED s"] by (cases "t_state th") simp_all
qed

lemma resume_safe:
  "safe thread_ops (\<lambda>t s. do { th \<leftarrow> get_thread s t;
      if t_state th = TERMINATED then Some (None, set_error STATUS_ACCESS_DENIED s)
      else do { (n, s) \<leftarrow> resume_thread t s; Some (Some n, s) } })"
  unfolding safe_def
proof (intro allI impI)
  fix E t p s x assume g: "good E t p s" and x: "x \<in># E" and ty: "type_at s x = Some thread_ops"
  obtain th where th: "get_thread s x = Some th" using ty by (auto simp: type_thread)
  note w = goodD(1,2) [OF g]
  obtain q pr where q: "t_process th = Some q" "get_process s q = Some pr"
    by (rule process_of_thread [OF goodD(4) [OF g] th x])
  obtain obq where "objects s q = Some obq" "body obq = Process pr" using q(2) by (auto simp: get_Some_iff)
  then have "0 \<le> p_suspend pr" using goodD(8) [OF g, of q obq] by simp
  then obtain s' where "resume_thread x s = Some (t_suspend th, s')" "keeps E s s'"
    using resume_thread_ok [OF w th x q(2,1)] by blast
  then show "\<exists>r s'. do { th \<leftarrow> get_thread s x;
      if t_state th = TERMINATED then Some (None, set_error STATUS_ACCESS_DENIED s)
      else do { (n, s) \<leftarrow> resume_thread x s; Some (Some n, s) } } = Some (r, s') \<and> keeps E s s'"
    using th keeps_env [OF w, of "set_error STATUS_ACCESS_DENIED s"] by (cases "t_state th") simp_all
qed

lemma queue_apc_safe:
  "safe thread_ops (\<lambda>t s. do { (_, s) \<leftarrow> thread_queue_apc t None func APC_USER sys args s; Some ((), s) })"
  unfolding safe_def
proof (intro allI impI)
  fix E t p s x assume g: "good E t p s" and ty: "type_at s x = Some thread_ops"
  obtain th where th: "get_thread s x = Some th" using ty by (auto simp: type_thread)
  obtain ok s' where "thread_queue_apc x None func APC_USER sys args s = Some (ok, s')" "keeps E s s'"
    using thread_queue_apc_ok [OF goodD(1,2) [OF g] th] by blast
  then show "\<exists>r s'. do { (_, s) \<leftarrow> thread_queue_apc x None func APC_USER sys args s; Some ((), s) } = Some (r, s') \<and> keeps E s s'"
    by simp
qed

text \<open>The requests in terms of \<open>on_object\<close>.\<close>

lemma bind_pair: "(case x of (a, b) \<Rightarrow> f a b) = f (fst x) (snd x)"
  by (cases x) simp

lemma option_bind_map: "map_option f (Option.bind x g) = Option.bind x (\<lambda>y. map_option f (g y))"
  by (cases x) simp_all

lemma req_event_op_on:
  "req_event_op h op s = map_option snd (on_object h EVENT_MODIFY_STATE event_ops
     (\<lambda>x s. do { s \<leftarrow> (case op of PULSE_EVENT \<Rightarrow> pulse_event x s | SET_EVENT \<Rightarrow> set_event x s
      | RESET_EVENT \<Rightarrow> reset_event x s | Other_op \<Rightarrow> Some (set_error STATUS_INVALID_PARAMETER s)); Some ((), s) }) s)"
  by (cases op)
    (auto simp: req_event_op_def on_object_def get_event_obj_def option_bind_map bind_pair bind_assoc
      intro!: bind_option_cong split: option.split)

lemma req_release_mutex_on:
  "req_release_mutex h s = map_option (\<lambda>(r, s). (Option.bind r id, s)) (on_object h MUTEX_MODIFY_STATE mutex_ops
     (\<lambda>x s. do { m \<leftarrow> get_mutex s x;
        if mx_count m = 0 \<or> owner m \<noteq> current s then Some (None, set_error STATUS_MUTANT_NOT_OWNED s)
        else do { s \<leftarrow> mutex_release x s; Some (Some (mx_count m), s) } }) s)"
  by (auto simp: req_release_mutex_def on_object_def option_bind_map bind_pair bind_assoc
      intro!: bind_option_cong split: option.split)

lemma req_release_semaphore_on:
  "req_release_semaphore h n s = on_object h SEMAPHORE_MODIFY_STATE semaphore_ops
     (\<lambda>x s. do { ((_, prev), s) \<leftarrow> release_semaphore x n s; Some (prev, s) }) s"
  by (auto simp: req_release_semaphore_def on_object_def bind_pair bind_assoc intro!: bind_option_cong split: option.split)

lemma req_suspend_thread_on:
  "req_suspend_thread h s = map_option (\<lambda>(r, s). (Option.bind r id, s)) (on_object h THREAD_SUSPEND_RESUME thread_ops
     (\<lambda>t s. do { th \<leftarrow> get_thread s t;
        if t_state th = TERMINATED then Some (None, set_error STATUS_ACCESS_DENIED s)
        else do { (n, s) \<leftarrow> suspend_thread t s; Some (Some n, s) } }) s)"
  by (auto simp: req_suspend_thread_def get_thread_from_handle_def on_object_def option_bind_map bind_pair bind_assoc
      intro!: bind_option_cong split: option.split)

lemma req_resume_thread_on:
  "req_resume_thread h s = map_option (\<lambda>(r, s). (Option.bind r id, s)) (on_object h THREAD_SUSPEND_RESUME thread_ops
     (\<lambda>t s. do { th \<leftarrow> get_thread s t;
        if t_state th = TERMINATED then Some (None, set_error STATUS_ACCESS_DENIED s)
        else do { (n, s) \<leftarrow> resume_thread t s; Some (Some n, s) } }) s)"
  by (auto simp: req_resume_thread_def get_thread_from_handle_def on_object_def option_bind_map bind_pair bind_assoc
      intro!: bind_option_cong split: option.split)

lemma req_queue_apc_on:
  "req_queue_apc h user func args s = map_option snd (on_object h THREAD_SET_CONTEXT thread_ops
     (\<lambda>t s. do { (_, s) \<leftarrow> thread_queue_apc t None func APC_USER (\<not> user) args s; Some ((), s) }) s)"
  by (auto simp: req_queue_apc_def get_thread_from_handle_def on_object_def option_bind_map bind_pair bind_assoc
      intro!: bind_option_cong split: option.split)

lemma req_close_handle_ok:
  assumes g: "good E t p s"
  shows "\<exists>r s'. req_close_handle h s = Some (r, s') \<and> good E t p s'"
proof -
  obtain pr where pr: "get_process s p = Some pr" by (rule good_process [OF g])
  note w = goodD(1,2) [OF g]
  note C = close_handle_ok [OF goodD(4,7) [OF g] pr, of h True]
  have err: "\<exists>r s'. req_close_handle h s = Some (r, s') \<and> good E t p s'"
    if "close_handle p h True s = Some (r, set_error e s)" for r e
  proof -
    have "keeps E s (set_error e s)" by (rule keeps_env [OF w]) simp_all
    then show ?thesis using that good_keeps [OF g] current_process_ok [OF g] by (auto simp: req_close_handle_def)
  qed
  show ?thesis
  proof (cases "slot s p h")
    case None
    then show ?thesis using C err by simp
  next
    case (Some x)
    obtain tb i o1 a f where x: "x = ((tb, i), (o1, a, f))" by (metis prod.exhaust)
    show ?thesis
    proof (cases "has a RESERVED_CLOSE_PROTECT")
      case True
      then show ?thesis using C Some x err by simp
    next
      case False
      then obtain s' ht ht' where s': "close_handle p h True s = Some ((True, Some f), s')" "server_ok E s'"
        "only_frees {tb} s s'" "get_table s tb = Some ht" "get_table s' tb = Some ht'"
        using C Some x by auto
      have "keeps E s s'" by (rule keeps_frees [OF w s'(2-5)])
      then show ?thesis using s'(1) good_keeps [OF g] current_process_ok [OF g] by (auto simp: req_close_handle_def)
    qed
  qed
qed

subsection \<open>Sequences of requests\<close>

datatype client_request = Close_handle obj_handle | Event_request obj_handle event_op | Release_mutex obj_handle
  | Release_semaphore obj_handle "32 word" | Suspend_thread obj_handle | Resume_thread obj_handle
  | Queue_apc obj_handle bool nat "int list"

fun serve :: "client_request \<Rightarrow> server \<Rightarrow> server option" where
  "serve (Close_handle h) s = map_option snd (req_close_handle h s)"
| "serve (Event_request h op) s = req_event_op h op s"
| "serve (Release_mutex h) s = map_option snd (req_release_mutex h s)"
| "serve (Release_semaphore h n) s = map_option snd (req_release_semaphore h n s)"
| "serve (Suspend_thread h) s = map_option snd (req_suspend_thread h s)"
| "serve (Resume_thread h) s = map_option snd (req_resume_thread h s)"
| "serve (Queue_apc h user func args) s = req_queue_apc h user func args s"

text \<open>The assertion on the reference counts guards a step.\<close>

inductive serves :: "server \<Rightarrow> server \<Rightarrow> bool" where
  none: "serves s s"
| one_more: "serves s s1 \<Longrightarrow> counts_fit s1 \<Longrightarrow> serve r s1 = Some s2 \<Longrightarrow> serves s s2"

inductive_cases serves_cases: "serves s s'"

lemma serve_ok:
  assumes g: "good E t p s" "counts_fit s"
  shows "\<exists>s'. serve r s = Some s' \<and> good E t p s'"
proof (cases r)
  case (Close_handle h)
  then show ?thesis using req_close_handle_ok [OF g(1), of h] by auto
next
  case (Event_request h op)
  then show ?thesis using on_object_ok [OF g event_op_safe [of op], of h EVENT_MODIFY_STATE]
    by (auto simp: req_event_op_on)
next
  case (Release_mutex h)
  then show ?thesis using on_object_ok [OF g release_mutex_safe, of h MUTEX_MODIFY_STATE]
    by (auto simp: req_release_mutex_on)
next
  case (Release_semaphore h n)
  then show ?thesis using on_object_ok [OF g release_semaphore_safe [of n], of h SEMAPHORE_MODIFY_STATE]
    by (auto simp: req_release_semaphore_on)
next
  case (Suspend_thread h)
  then show ?thesis using on_object_ok [OF g suspend_safe, of h THREAD_SUSPEND_RESUME]
    by (auto simp: req_suspend_thread_on)
next
  case (Resume_thread h)
  then show ?thesis using on_object_ok [OF g resume_safe, of h THREAD_SUSPEND_RESUME]
    by (auto simp: req_resume_thread_on)
next
  case (Queue_apc h user func args)
  then show ?thesis using on_object_ok [OF g queue_apc_safe [of func "\<not> user" args], of h THREAD_SET_CONTEXT]
    by (auto simp: req_queue_apc_on)
qed

lemma sample_good: "good {#0, 1, 5#} 1 0 sample"
proof -
  have "suspend_ok (body ob)" if "objects sample x = Some ob" for x ob
    using that by (auto simp: sample_def bare_simps split: if_splits)
  then show ?thesis using sample_wakeable sample_settled sample_current(1) by (simp add: good_def)
qed





end
