(* ===== verification/Id_Table.thy ===== *)
theory Id_Table
  imports Prelude
begin

text \<open>
  The contract of the tables of the server that give numbers to pointers and take them back
  (process and thread identifiers, window handles): what \<open>alloc\<close> returns names the pointer and
  nothing else until \<open>free\<close>, as long as there is \<open>room\<close> for it.  What a table promises over any sequence of calls is proved once.
\<close>

datatype ('i, 'v) id_call = Alloc 'v | Free 'i

locale id_table =
  fixes inv :: "'s \<Rightarrow> bool"
    and lookup :: "'s \<Rightarrow> 'i \<Rightarrow> 'v option"
    and room :: "'s \<Rightarrow> bool"
    and alloc :: "'v \<Rightarrow> 's \<Rightarrow> ('i option \<times> 's) option"
    and free :: "'i \<Rightarrow> 's \<Rightarrow> 's option"
  assumes alloc_law: "inv s \<Longrightarrow> room s \<Longrightarrow> \<exists>r s'. alloc v s = Some (r, s') \<and> inv s' \<and>
      (case r of None \<Rightarrow> lookup s' = lookup s | Some i \<Rightarrow> lookup s i = None \<and> lookup s' = (lookup s)(i \<mapsto> v))"
    and free_law: "inv s \<Longrightarrow> lookup s i \<noteq> None \<Longrightarrow>
      \<exists>s'. free i s = Some s' \<and> inv s' \<and> lookup s' = (lookup s)(i := None)"
begin

text \<open>
  A run of the table: the calls with the numbers \<open>alloc\<close> has returned.  Only numbers in use
  are freed.
\<close>

inductive run :: "'s \<Rightarrow> ('i, 'v) id_call list \<Rightarrow> ('i \<times> 'v) list \<Rightarrow> 's \<Rightarrow> bool" where
  start: "run s [] [] s"
| allocated: "run s cs live s1 \<Longrightarrow> room s1 \<Longrightarrow> alloc v s1 = Some (Some i, s2) \<Longrightarrow> run s (cs @ [Alloc v]) (live @ [(i, v)]) s2"
| refused: "run s cs live s1 \<Longrightarrow> room s1 \<Longrightarrow> alloc v s1 = Some (None, s2) \<Longrightarrow> run s (cs @ [Alloc v]) live s2"
| freed: "run s cs live s1 \<Longrightarrow> i \<in> fst ` set live \<Longrightarrow> free i s1 = Some s2 \<Longrightarrow>
    run s (cs @ [Free i]) (filter (\<lambda>(j, _). j \<noteq> i) live) s2"

lemma alloc_cases:
  assumes "inv s" "room s" "alloc v s = Some (r, s')"
  shows "inv s'" "r = None \<Longrightarrow> lookup s' = lookup s"
    "r = Some i \<Longrightarrow> lookup s i = None" "r = Some i \<Longrightarrow> lookup s' = (lookup s)(i \<mapsto> v)"
  using alloc_law [OF assms(1,2), of v] assms(3) by (auto split: option.splits)

lemma free_cases:
  assumes "inv s" "lookup s i \<noteq> None" "free i s = Some s'"
  shows "inv s'" "lookup s' = (lookup s)(i := None)"
  using free_law [OF assms(1,2)] assms(3) by auto

text \<open>Live numbers are distinct and each names the pointer it was allocated for.\<close>

lemma run_refines:
  assumes "run s cs live s'" "inv s" "lookup s = (\<lambda>_. None)"
  shows "inv s' \<and> distinct (map fst live) \<and> lookup s' = map_of live"
  using assms
proof (induction rule: run.induct)
  case (allocated s cs live s1 v i s2)
  then have I: "inv s1" "distinct (map fst live)" "lookup s1 = map_of live" by simp_all
  have new: "map_of live i = None" using alloc_cases(3) [OF I(1) allocated.hyps(2,3), of i] I(3) by simp
  then have "map_of (live @ [(i, v)]) = (map_of live)(i \<mapsto> v)"
    by (auto simp: map_add_def fun_eq_iff split: option.split)
  then show ?case using alloc_cases(1,4) [OF I(1) allocated.hyps(2,3)] I(2,3) new by (simp add: map_of_eq_None_iff)
next
  case (refused s cs live s1 v s2)
  then show ?case using alloc_cases(1,2) [of s1 v None s2] by simp
next
  case (freed s cs live s1 i s2)
  then have I: "inv s1" "distinct (map fst live)" "lookup s1 = map_of live" by simp_all
  have "lookup s1 i \<noteq> None" using freed.hyps(2) I(3) by (simp add: map_of_eq_None_iff)
  moreover have "map_of (filter (\<lambda>(j, _). j \<noteq> i) live) = (map_of live)(i := None)"
    by (induction live) (auto split: if_splits)
  moreover have "distinct (map fst (filter (\<lambda>(j, _). j \<noteq> i) live))"
    using I(2) by (simp add: distinct_map_filter)
  ultimately show ?case using free_cases [OF I(1) _ freed.hyps(3)] I(3) by simp
qed simp

text \<open>A call on a table in its invariant is always defined, so every sequence can go on.\<close>

lemma run_total:
  assumes "run s cs live s'" "inv s" "lookup s = (\<lambda>_. None)"
  shows "room s' \<Longrightarrow> \<exists>r s2. alloc v s' = Some (r, s2)" "i \<in> fst ` set live \<Longrightarrow> \<exists>s2. free i s' = Some s2"
proof -
  note I = run_refines [OF assms]
  show "\<exists>r s2. alloc v s' = Some (r, s2)" if "room s'" using that I alloc_law by blast
  show "\<exists>s2. free i s' = Some s2" if "i \<in> fst ` set live"
    using I free_law [of s' i] that by (auto simp: map_of_eq_None_iff)
qed

end

end
