(* ===== verification/Ptids.thy ===== *)
theory Ptids
  imports Id_Table Server
begin

text \<open>
  The identifiers of processes and threads (\<^verbatim>\<open>process.c\<close>): an array of entries that grows by
  half, and a queue of freed entries linked through the array.
\<close>

subsection \<open>The code\<close>

text \<open>
  An entry of the array that no call has stored into is \<open>None\<close>; \<open>pt_next\<close> is \<open>None\<close> until the
  entry is freed for the first time.
\<close>

record ptid_entry =
  pt_ptr :: "oid option"
  pt_next :: "32 word option"

record ptids = env +
  ptid_entries :: "ptid_entry option list"
  used_ptid_entries :: "32 word"
  alloc_ptid_entries :: "32 word"
  next_free_ptid :: "32 word"
  last_free_ptid :: "32 word"

definition PTID_OFFSET :: "32 word" where "PTID_OFFSET = 8"

definition store_ptr :: "oid option \<Rightarrow> ptid_entry option \<Rightarrow> ptid_entry" where
  "store_ptr p e = (case e of None \<Rightarrow> \<lparr>pt_ptr = p, pt_next = None\<rparr> | Some e \<Rightarrow> e\<lparr>pt_ptr := p\<rparr>)"

text \<open>\<open>next_ptid\<close> is the branch that takes the next entry that has not been used yet.\<close>

definition next_ptid :: "oid \<Rightarrow> ptids \<Rightarrow> (32 word \<times> ptids) option" where
  "next_ptid p s =
     do { e \<leftarrow> read_at (ptid_entries s) (uint (used_ptid_entries s));
          es \<leftarrow> write_at (ptid_entries s) (uint (used_ptid_entries s)) (Some (store_ptr (Some p) e));
          Some (used_ptid_entries s + PTID_OFFSET,
                s\<lparr>ptid_entries := es, used_ptid_entries := used_ptid_entries s + 1\<rparr>) }"

definition alloc_ptid :: "oid \<Rightarrow> ptids \<Rightarrow> (32 word \<times> ptids) option" where
  "alloc_ptid p s =
     (if used_ptid_entries s < alloc_ptid_entries s then next_ptid p s
      else if next_free_ptid s \<noteq> 0 then do {
        let pid = next_free_ptid s;
        entry \<leftarrow> read_at (ptid_entries s) (uint (pid - PTID_OFFSET));
        e \<leftarrow> entry;
        nxt \<leftarrow> pt_next e;
        es \<leftarrow> write_at (ptid_entries s) (uint (pid - PTID_OFFSET)) (Some (store_ptr (Some p) (Some e)));
        Some (pid, s\<lparr>ptid_entries := es, next_free_ptid := nxt,
                    last_free_ptid := (if nxt = 0 then 0 else last_free_ptid s)\<rparr>) }
      else
        let n = alloc_ptid_entries s + alloc_ptid_entries s div 2;
            n = (if n = 0 then 64 else n) in
        case malloc s of (ok, s) \<Rightarrow>
          if \<not> ok then Some (0, set_error STATUS_NO_MEMORY s)
          else next_ptid p (s\<lparr>alloc_ptid_entries := n,
                 ptid_entries := take (unat n) (ptid_entries s) @ replicate (unat n - length (ptid_entries s)) None\<rparr>))"

definition free_ptid :: "32 word \<Rightarrow> ptids \<Rightarrow> ptids option" where
  "free_ptid pid s =
     do { es \<leftarrow> write_at (ptid_entries s) (uint (pid - PTID_OFFSET)) (Some \<lparr>pt_ptr = None, pt_next = Some 0\<rparr>);
          let s = s\<lparr>ptid_entries := es\<rparr>;
          s \<leftarrow> (if last_free_ptid s \<noteq> 0 then do {
                   entry \<leftarrow> read_at (ptid_entries s) (uint (last_free_ptid s - PTID_OFFSET));
                   e \<leftarrow> entry;
                   es \<leftarrow> write_at (ptid_entries s) (uint (last_free_ptid s - PTID_OFFSET)) (Some (e\<lparr>pt_next := Some pid\<rparr>));
                   Some (s\<lparr>ptid_entries := es\<rparr>) }
                 else Some (s\<lparr>next_free_ptid := pid\<rparr>));
          Some (s\<lparr>last_free_ptid := pid\<rparr>) }"

definition get_ptid_entry :: "32 word \<Rightarrow> ptids \<Rightarrow> oid option option" where
  "get_ptid_entry pid s =
     (if pid < PTID_OFFSET then Some None
      else if pid - PTID_OFFSET \<ge> used_ptid_entries s then Some None
      else do { entry \<leftarrow> read_at (ptid_entries s) (uint (pid - PTID_OFFSET)); e \<leftarrow> entry; Some (pt_ptr e) })"

subsection \<open>The invariant\<close>

text \<open>The entry of an identifier in use or on the free list.\<close>

definition ptid :: "ptids \<Rightarrow> 32 word \<Rightarrow> ptid_entry option" where
  "ptid s pid = (if pid \<ge> PTID_OFFSET \<and> pid - PTID_OFFSET < used_ptid_entries s
     then ptid_entries s ! unat (pid - PTID_OFFSET) else None)"

definition ptid_lookup :: "ptids \<Rightarrow> 32 word \<Rightarrow> oid option" where
  "ptid_lookup s pid = Option.bind (ptid s pid) pt_ptr"

text \<open>\<open>linked_from s q\<close>: each identifier of \<open>q\<close> is linked to the one that follows it, the last to 0.\<close>

fun linked_from :: "(32 word \<Rightarrow> ptid_entry option) \<Rightarrow> 32 word list \<Rightarrow> bool" where
  "linked_from f [] = True"
| "linked_from f (i # q) = (f i = Some \<lparr>pt_ptr = None, pt_next = Some (case q of [] \<Rightarrow> 0 | j # _ \<Rightarrow> j)\<rparr> \<and> linked_from f q)"

lemma ptid_cong: "ptid_entries s' = ptid_entries s \<Longrightarrow> used_ptid_entries s' = used_ptid_entries s \<Longrightarrow> ptid s' = ptid s"
  by (auto simp: ptid_def fun_eq_iff)

lemma ptid_fields [simp]:
  "ptid (s\<lparr>next_free_ptid := n\<rparr>) = ptid s" "ptid (s\<lparr>last_free_ptid := l\<rparr>) = ptid s"
  "ptid (s\<lparr>mem_oracle := m\<rparr>) = ptid s" "ptid (set_error e s) = ptid s"
  by (rule ptid_cong, simp_all add: set_error_def)+

definition ptids_ok :: "32 word list \<Rightarrow> ptids \<Rightarrow> bool" where
  "ptids_ok q s \<longleftrightarrow>
     length (ptid_entries s) = unat (alloc_ptid_entries s) \<and>
     used_ptid_entries s \<le> alloc_ptid_entries s \<and> (alloc_ptid_entries s = 0 \<or> 64 \<le> unat (alloc_ptid_entries s)) \<and> unat (alloc_ptid_entries s) \<le> 3 * 2 ^ 30 \<and>
     next_free_ptid s = (case q of [] \<Rightarrow> 0 | i # _ \<Rightarrow> i) \<and>
     last_free_ptid s = (if q = [] then 0 else last q) \<and>
     distinct q \<and> linked_from (ptid s) q \<and>
     (\<forall>pid \<ge> PTID_OFFSET. pid - PTID_OFFSET < used_ptid_entries s \<longrightarrow> ptid s pid \<noteq> None \<and> (pid \<in> set q \<or> ptid_lookup s pid \<noteq> None))"

text \<open>Half as much again still fits 32 bits.\<close>

definition ptid_room :: "ptids \<Rightarrow> bool" where
  "ptid_room s \<longleftrightarrow> unat (alloc_ptid_entries s) \<le> 2 ^ 31"

subsection \<open>The operations keep the invariant\<close>

lemma offset_unat: "PTID_OFFSET \<le> i \<Longrightarrow> unat (i - PTID_OFFSET) = unat i - 8"
  by (simp add: unat_sub PTID_OFFSET_def)

lemma offset_eq: "PTID_OFFSET \<le> i \<Longrightarrow> PTID_OFFSET \<le> j \<Longrightarrow> unat (i - PTID_OFFSET) = unat (j - PTID_OFFSET) \<longleftrightarrow> i = j"
  by (metis diff_add_cancel unsigned_word_eqI)

lemma linked_from_other: "i \<notin> set q \<Longrightarrow> linked_from (f(i := x)) q = linked_from f q"
  by (induction q) auto

lemma linked_from_Some: "linked_from f q \<Longrightarrow> i \<in> set q \<Longrightarrow> \<exists>n. f i = Some \<lparr>pt_ptr = None, pt_next = Some n\<rparr>"
  by (induction q) auto

lemma linked_from_snoc:
  assumes "linked_from f q" "distinct q" "i \<notin> set q" "q \<noteq> []"
  shows "linked_from (f(i \<mapsto> \<lparr>pt_ptr = None, pt_next = Some 0\<rparr>, last q \<mapsto> \<lparr>pt_ptr = None, pt_next = Some i\<rparr>)) (q @ [i])"
  using assms
proof (induction q)
  case (Cons j q)
  show ?case
  proof (cases "q = []")
    case False
    then have "last q \<noteq> j" "j \<noteq> i" using Cons.prems last_in_set [OF False] by auto
    then show ?thesis using Cons False by (cases q) auto
  qed (use Cons in auto)
qed simp

lemma ptid_free: "linked_from (ptid s) q \<Longrightarrow> i \<in> set q \<Longrightarrow> ptid_lookup s i = None"
  using linked_from_Some by (fastforce simp: ptid_lookup_def)

lemma ptid_range: "ptid s i \<noteq> None \<Longrightarrow> PTID_OFFSET \<le> i \<and> i - PTID_OFFSET < used_ptid_entries s"
  by (simp add: ptid_def split: if_splits)

lemma ptids_okD:
  assumes "ptids_ok q s"
  shows "length (ptid_entries s) = unat (alloc_ptid_entries s)" "used_ptid_entries s \<le> alloc_ptid_entries s"
    "unat (used_ptid_entries s) \<le> 3 * 2 ^ 30" "linked_from (ptid s) q" "distinct q"
    "PTID_OFFSET \<le> i \<Longrightarrow> i - PTID_OFFSET < used_ptid_entries s \<Longrightarrow> ptid s i \<noteq> None"
    "PTID_OFFSET \<le> i \<Longrightarrow> i - PTID_OFFSET < used_ptid_entries s \<Longrightarrow> i \<notin> set q \<Longrightarrow> ptid_lookup s i \<noteq> None"
  using assms by (auto simp: ptids_ok_def word_le_nat_alt)

text \<open>Storing into an entry in use.\<close>

lemma ptid_store:
  assumes "PTID_OFFSET \<le> i" "i - PTID_OFFSET < used_ptid_entries s" "used_ptid_entries s \<le> alloc_ptid_entries s"
    "length (ptid_entries s) = unat (alloc_ptid_entries s)"
  shows "read_at (ptid_entries s) (uint (i - PTID_OFFSET)) = Some (ptid s i)"
    "write_at (ptid_entries s) (uint (i - PTID_OFFSET)) x = Some ((ptid_entries s)[unat (i - PTID_OFFSET) := x])"
    "ptid (s\<lparr>ptid_entries := (ptid_entries s)[unat (i - PTID_OFFSET) := x]\<rparr>) = (ptid s)(i := x)"
proof -
  have n: "unat (i - PTID_OFFSET) < length (ptid_entries s)" using assms(2-4) by (simp add: word_less_nat_alt word_le_nat_alt)
  then show "read_at (ptid_entries s) (uint (i - PTID_OFFSET)) = Some (ptid s i)"
    "write_at (ptid_entries s) (uint (i - PTID_OFFSET)) x = Some ((ptid_entries s)[unat (i - PTID_OFFSET) := x])"
    using assms(1,2) by (simp_all add: array_word ptid_def)
  show "ptid (s\<lparr>ptid_entries := (ptid_entries s)[unat (i - PTID_OFFSET) := x]\<rparr>) = (ptid s)(i := x)"
    using n assms(1,2) by (auto simp: ptid_def fun_eq_iff offset_eq nth_list_update)
qed

text \<open>Taking the next entry that has not been used.\<close>

lemma next_ptid_ok:
  assumes ok: "ptids_ok q s" and room: "used_ptid_entries s < alloc_ptid_entries s"
  shows "\<exists>s' e. next_ptid p s = Some (used_ptid_entries s + PTID_OFFSET, s') \<and> ptids_ok q s' \<and>
    ptid s (used_ptid_entries s + PTID_OFFSET) = None \<and> ptid s' = (ptid s)(used_ptid_entries s + PTID_OFFSET \<mapsto> e) \<and>
    pt_ptr e = Some p"
proof -
  let ?n = "used_ptid_entries s" and ?i = "used_ptid_entries s + PTID_OFFSET"
  have big: "unat (alloc_ptid_entries s) \<le> 3 * 2 ^ 30" using ok by (simp add: ptids_ok_def)
  have lt: "unat ?n < unat (alloc_ptid_entries s)" using room by (simp add: word_less_nat_alt)
  have i: "unat ?i = unat ?n + 8" using lt big by (simp add: unat_word_ariths(1) PTID_OFFSET_def)
  then have i8: "PTID_OFFSET \<le> ?i" "?i - PTID_OFFSET = ?n" by (simp_all add: word_le_nat_alt PTID_OFFSET_def)
  have len: "unat ?n < length (ptid_entries s)" using lt ok by (simp add: ptids_ok_def)
  have suc: "unat (?n + 1) = unat ?n + 1" using lt big by (simp add: unat_word_ariths(1))
  let ?e = "store_ptr (Some p) (ptid_entries s ! unat ?n)"
  let ?s = "s\<lparr>ptid_entries := (ptid_entries s)[unat ?n := Some ?e], used_ptid_entries := ?n + 1\<rparr>"
  have run: "next_ptid p s = Some (?i, ?s)"
    using len by (simp add: next_ptid_def array_word)
  have old: "ptid s ?i = None" using i8 by (simp add: ptid_def)
  have new: "ptid ?s = (ptid s)(?i \<mapsto> ?e)"
  proof
    fix j
    show "ptid ?s j = ((ptid s)(?i \<mapsto> ?e)) j"
    proof (cases "j = ?i")
      case True
      then show ?thesis using i8 len suc by (simp add: ptid_def word_less_nat_alt)
    next
      case False
      then have "j - PTID_OFFSET \<noteq> ?n" by (metis diff_add_cancel)
      then have "unat (j - PTID_OFFSET) \<noteq> unat ?n" by (metis unsigned_word_eqI)
      moreover from this have "j - PTID_OFFSET < ?n + 1 \<longleftrightarrow> j - PTID_OFFSET < ?n" using suc by (auto simp: word_less_nat_alt)
      ultimately show ?thesis using False by (simp add: ptid_def)
    qed
  qed
  have "?i \<notin> set q" using linked_from_Some [OF ptids_okD(4) [OF ok], of ?i] old by auto
  have "PTID_OFFSET \<le> j \<Longrightarrow> j - PTID_OFFSET < ?n + 1 \<Longrightarrow> j \<noteq> ?i \<Longrightarrow> j - PTID_OFFSET < ?n" for j
  proof -
    assume "j - PTID_OFFSET < ?n + 1" "j \<noteq> ?i"
    then have "j - PTID_OFFSET \<noteq> ?n" by (metis diff_add_cancel)
    then have "unat (j - PTID_OFFSET) \<noteq> unat ?n" by (metis unsigned_word_eqI)
    then show "j - PTID_OFFSET < ?n" using suc \<open>j - PTID_OFFSET < ?n + 1\<close> by (simp add: word_less_nat_alt)
  qed
  then have "ptids_ok q ?s"
    using ok new suc lt \<open>?i \<notin> set q\<close> unfolding ptids_ok_def
    by (auto simp: linked_from_other ptid_lookup_def word_le_nat_alt store_ptr_def split: option.splits)
  then show ?thesis using run old new by (auto simp: store_ptr_def split: option.splits)
qed

lemma ptid_lookup_upd:
  "ptid s' = (ptid s)(i \<mapsto> e) \<Longrightarrow> pt_ptr e = Some p \<Longrightarrow> ptid_lookup s' = (ptid_lookup s)(i \<mapsto> p)"
  by (auto simp: ptid_lookup_def fun_eq_iff)

text \<open>Growing the array.\<close>

lemma grow_size:
  fixes n :: "32 word"
  assumes "unat n \<le> 2 ^ 31" "n = 0 \<or> 64 \<le> unat n"
  shows "unat n < unat (if n + n div 2 = 0 then 64 else n + n div 2)"
    "unat (if n + n div 2 = 0 then 64 else n + n div 2) \<le> 3 * 2 ^ 30"
    "64 \<le> unat (if n + n div 2 = 0 then 64 else n + n div 2)"
proof -
  have sum: "unat (n + n div 2) = unat n + unat n div 2"
    using assms(1) by (simp add: unat_word_ariths(1) unat_div)
  then have "n + n div 2 = 0 \<longleftrightarrow> n = 0"
    by (metis add_is_0 unat_eq_zero div_0)
  then have eq: "unat (if n + n div 2 = 0 then 64 else n + n div 2) = (if n = 0 then 64 else unat n + unat n div 2)"
    using sum by simp
  have "unat n div 2 \<ge> 32" if "n \<noteq> 0" using assms(2) that by linarith
  then show "unat n < unat (if n + n div 2 = 0 then 64 else n + n div 2)" unfolding eq by auto
  have "unat n div 2 \<le> 2 ^ 30" using div_le_mono [OF assms(1), of 2] by simp
  then show "unat (if n + n div 2 = 0 then 64 else n + n div 2) \<le> 3 * 2 ^ 30" unfolding eq using assms(1) by auto
  show "64 \<le> unat (if n + n div 2 = 0 then 64 else n + n div 2)" unfolding eq using assms(2) by auto
qed

lemma grow_ptids:
  assumes ok: "ptids_ok q s" and room: "ptid_room s" and full: "used_ptid_entries s = alloc_ptid_entries s"
  defines "n \<equiv> (if alloc_ptid_entries s + alloc_ptid_entries s div 2 = 0 then 64
    else alloc_ptid_entries s + alloc_ptid_entries s div 2)"
  shows "let s' = s\<lparr>alloc_ptid_entries := n,
      ptid_entries := take (unat n) (ptid_entries s) @ replicate (unat n - length (ptid_entries s)) None\<rparr>
    in ptids_ok q s' \<and> used_ptid_entries s' < alloc_ptid_entries s' \<and> ptid s' = ptid s"
proof -
  let ?es = "take (unat n) (ptid_entries s) @ replicate (unat n - length (ptid_entries s)) None"
  let ?s = "s\<lparr>alloc_ptid_entries := n, ptid_entries := ?es\<rparr>"
  have len: "length (ptid_entries s) = unat (alloc_ptid_entries s)" by (rule ptids_okD(1) [OF ok])
  have z: "alloc_ptid_entries s = 0 \<or> 64 \<le> unat (alloc_ptid_entries s)" using ok by (simp add: ptids_ok_def)
  have n: "unat (alloc_ptid_entries s) < unat n" "unat n \<le> 3 * 2 ^ 30" "64 \<le> unat n"
    using grow_size [OF _ z] room unfolding n_def ptid_room_def by blast+
  have "ptid ?s = ptid s"
  proof
    fix i
    show "ptid ?s i = ptid s i"
      using n(1) full by (simp add: ptid_def len nth_append word_less_nat_alt)
  qed
  moreover have "ptids_ok q ?s"
    using ok n \<open>ptid ?s = ptid s\<close> len full z
    unfolding ptids_ok_def by (auto simp: ptid_lookup_def word_le_nat_alt)
  ultimately show ?thesis using n(1) full by (simp add: word_less_nat_alt)
qed

lemma ptids_ok_env [simp]:
  "ptids_ok q (s\<lparr>mem_oracle := m\<rparr>) = ptids_ok q s" "ptids_ok q (set_error e s) = ptids_ok q s"
proof -
  show "ptids_ok q (s\<lparr>mem_oracle := m\<rparr>) = ptids_ok q s" by (simp add: ptids_ok_def ptid_lookup_def)
  show "ptids_ok q (set_error e s) = ptids_ok q s"
    unfolding ptids_ok_def ptid_fields ptid_lookup_def by (simp add: set_error_def)
qed

lemma alloc_ptid_ok:
  assumes ok: "ptids_ok q s" and room: "ptid_room s"
  shows "\<exists>i s' q'. alloc_ptid p s = Some (i, s') \<and> ptids_ok q' s' \<and>
    (if i = 0 then ptid_lookup s' = ptid_lookup s \<and> q' = q \<and> get_error s' = STATUS_NO_MEMORY \<and>
        q = [] \<and> used_ptid_entries s = alloc_ptid_entries s
     else ptid_lookup s i = None \<and> ptid_lookup s' = (ptid_lookup s)(i \<mapsto> p) \<and>
        (if used_ptid_entries s < alloc_ptid_entries s \<or> q = [] then i = used_ptid_entries s + PTID_OFFSET \<and> q' = q else q = i # q'))"
proof -
  have fresh: "\<exists>s' q'. next_ptid p s1 = Some (used_ptid_entries s + PTID_OFFSET, s') \<and> ptids_ok q s' \<and>
      used_ptid_entries s + PTID_OFFSET \<noteq> 0 \<and> ptid_lookup s (used_ptid_entries s + PTID_OFFSET) = None \<and>
      ptid_lookup s' = (ptid_lookup s)(used_ptid_entries s + PTID_OFFSET \<mapsto> p)"
    if s1: "ptids_ok q s1" "used_ptid_entries s1 < alloc_ptid_entries s1" "used_ptid_entries s1 = used_ptid_entries s"
      "ptid s1 = ptid s" for s1
  proof -
    obtain s' e where s': "next_ptid p s1 = Some (used_ptid_entries s + PTID_OFFSET, s')" "ptids_ok q s'"
      "ptid s (used_ptid_entries s + PTID_OFFSET) = None" "ptid s' = (ptid s)(used_ptid_entries s + PTID_OFFSET \<mapsto> e)" "pt_ptr e = Some p"
      using next_ptid_ok [OF s1(1,2), of p] s1(3,4) by auto
    have "unat (used_ptid_entries s + PTID_OFFSET) = unat (used_ptid_entries s) + 8"
      using ptids_okD(3) [OF ok] by (simp add: unat_word_ariths(1) PTID_OFFSET_def)
    then have "used_ptid_entries s + PTID_OFFSET \<noteq> 0" by (metis add_is_0 unat_0 zero_neq_numeral)
    moreover have "ptid_lookup s' = (ptid_lookup s)(used_ptid_entries s + PTID_OFFSET \<mapsto> p)"
      using s'(4,5) by (auto simp: ptid_lookup_def fun_eq_iff)
    ultimately show ?thesis using s' by (auto simp: ptid_lookup_def)
  qed
  consider (new) "used_ptid_entries s < alloc_ptid_entries s"
    | (reuse) i q' where "used_ptid_entries s = alloc_ptid_entries s" "q = i # q'"
    | (grow) "used_ptid_entries s = alloc_ptid_entries s" "q = []"
    using ptids_okD(2) [OF ok] by (cases q) force+
  then show ?thesis
  proof cases
    case new
    then show ?thesis using fresh [of s] ok by (auto simp: alloc_ptid_def)
  next
    case reuse
    let ?n = "case q' of [] \<Rightarrow> 0 | j # _ \<Rightarrow> j"
    have i: "ptid s i = Some \<lparr>pt_ptr = None, pt_next = Some ?n\<rparr>" "next_free_ptid s = i"
      using ok reuse(2) by (auto simp: ptids_ok_def)
    then have r: "PTID_OFFSET \<le> i" "i - PTID_OFFSET < used_ptid_entries s" using ptid_range [of s i] by simp_all
    then have nz: "i \<noteq> 0" by (auto simp: PTID_OFFSET_def)
    let ?e = "Some \<lparr>pt_ptr = Some p, pt_next = Some ?n\<rparr>"
    let ?s = "s\<lparr>ptid_entries := (ptid_entries s)[unat (i - PTID_OFFSET) := ?e]\<rparr>"
    note st = ptid_store [OF r ptids_okD(2,1) [OF ok]]
    let ?s' = "?s\<lparr>next_free_ptid := ?n, last_free_ptid := (if ?n = 0 then 0 else last_free_ptid s)\<rparr>"
    have run: "alloc_ptid p s = Some (i, ?s')"
      using reuse(1) i nz st(1,2) by (simp add: alloc_ptid_def store_ptr_def)
    have upd: "ptid ?s' = (ptid s)(i := ?e)" using st(3) [of ?e] by simp
    have look: "ptid_lookup ?s' = (ptid_lookup s)(i \<mapsto> p)" using upd by (auto simp: ptid_lookup_def fun_eq_iff)
    have q': "j \<noteq> 0" if "j \<in> set q'" for j
      using linked_from_Some [OF ptids_okD(4) [OF ok], of j] ptid_range [of s j] that reuse(2) by (auto simp: PTID_OFFSET_def)
    have "ptids_ok q' ?s'"
      unfolding ptids_ok_def upd look using ok reuse q' i(1)
      by (cases q') (auto simp: ptids_ok_def linked_from_other ptid_lookup_def)
    then show ?thesis using run nz look reuse i(1) by (auto simp: ptid_lookup_def)
  next
    case grow
    obtain b s1 where m: "malloc s = (b, s1)" by fastforce
    obtain ms where s1: "s1 = s\<lparr>mem_oracle := ms\<rparr>" using malloc_oracle [OF m] by blast
    have z: "next_free_ptid s = 0" using ok grow(2) by (simp add: ptids_ok_def)
    show ?thesis
    proof (cases b)
      case False
      then have "alloc_ptid p s = Some (0, set_error STATUS_NO_MEMORY s1)"
        using m grow z by (simp add: alloc_ptid_def Let_def)
      then show ?thesis using s1 ok grow by (simp add: ptid_lookup_def fun_eq_iff)
    next
      case True
      let ?n = "if alloc_ptid_entries s1 + alloc_ptid_entries s1 div 2 = 0 then 64
        else alloc_ptid_entries s1 + alloc_ptid_entries s1 div 2"
      let ?s2 = "s1\<lparr>alloc_ptid_entries := ?n,
        ptid_entries := take (unat ?n) (ptid_entries s1) @ replicate (unat ?n - length (ptid_entries s1)) None\<rparr>"
      have run: "alloc_ptid p s = next_ptid p ?s2"
        using m grow z True s1 by (simp add: alloc_ptid_def Let_def)
      have g: "ptids_ok q s1" "ptid_room s1" "used_ptid_entries s1 = alloc_ptid_entries s1" "ptid s1 = ptid s"
        using s1 ok room grow by (simp_all add: ptid_room_def)
      have h: "ptids_ok q ?s2" "used_ptid_entries ?s2 < alloc_ptid_entries ?s2" "ptid ?s2 = ptid s1"
        using grow_ptids [OF g(1-3)] unfolding Let_def by blast+
      have "used_ptid_entries ?s2 = used_ptid_entries s" using s1 by simp
      then show ?thesis using fresh [OF h(1,2) _ trans [OF h(3) g(4)]] grow run by auto
    qed
  qed
qed

lemma free_ptid_ok:
  assumes ok: "ptids_ok q s" and i: "ptid_lookup s i \<noteq> None"
  shows "\<exists>s'. free_ptid i s = Some s' \<and> ptids_ok (q @ [i]) s' \<and> ptid_lookup s' = (ptid_lookup s)(i := None)"
proof -
  have "ptid s i \<noteq> None" using i by (cases "ptid s i") (auto simp: ptid_lookup_def)
  then have r: "PTID_OFFSET \<le> i" "i - PTID_OFFSET < used_ptid_entries s" using ptid_range [of s i] by simp_all
  have iq: "i \<notin> set q" using ptid_free [OF ptids_okD(4) [OF ok], of i] i by blast
  have nz: "i \<noteq> 0" using r(1) by (auto simp: PTID_OFFSET_def)
  note st = ptid_store [OF r ptids_okD(2,1) [OF ok]]
  let ?z = "Some \<lparr>pt_ptr = None, pt_next = Some 0\<rparr>"
  let ?s = "s\<lparr>ptid_entries := (ptid_entries s)[unat (i - PTID_OFFSET) := ?z]\<rparr>"
  have upd: "ptid ?s = (ptid s)(i := ?z)" using st(3) [of ?z] .
  have lq: "linked_from (ptid ?s) q" using ok iq upd by (simp add: ptids_ok_def linked_from_other)
  have rest: "PTID_OFFSET \<le> j \<Longrightarrow> j - PTID_OFFSET < used_ptid_entries s \<Longrightarrow>
      ptid s j \<noteq> None \<and> (j \<in> set q \<or> ptid_lookup s j \<noteq> None)" for j
    using ok by (simp add: ptids_ok_def)
  show ?thesis
  proof (cases "q = []")
    case True
    then have l: "last_free_ptid s = 0" using ok by (simp add: ptids_ok_def)
    let ?s' = "?s\<lparr>next_free_ptid := i, last_free_ptid := i\<rparr>"
    have upd': "ptid ?s' = (ptid s)(i := ?z)" using upd by simp
    have look: "ptid_lookup ?s' = (ptid_lookup s)(i := None)" using upd' by (auto simp: ptid_lookup_def fun_eq_iff)
    have "free_ptid i s = Some ?s'" using st(2) l by (simp add: free_ptid_def)
    moreover have "ptids_ok [i] ?s'"
      unfolding ptids_ok_def upd' look using ok True rest by (auto simp: ptids_ok_def)
    ultimately show ?thesis using True look by auto
  next
    case False
    let ?l = "last q"
    have l: "last_free_ptid s = ?l" using ok False by (simp add: ptids_ok_def)
    obtain n where n: "ptid s ?l = Some \<lparr>pt_ptr = None, pt_next = Some n\<rparr>"
      using linked_from_Some [OF ptids_okD(4) [OF ok] last_in_set [OF False]] by blast
    then have rl: "PTID_OFFSET \<le> ?l" "?l - PTID_OFFSET < used_ptid_entries s" using ptid_range [of s ?l] by simp_all
    then have lz: "?l \<noteq> 0" by (auto simp: PTID_OFFSET_def)
    have li: "?l \<noteq> i" using iq last_in_set [OF False] by auto
    let ?x = "Some \<lparr>pt_ptr = None, pt_next = Some i\<rparr>"
    have st2: "used_ptid_entries ?s \<le> alloc_ptid_entries ?s" "length (ptid_entries ?s) = unat (alloc_ptid_entries ?s)"
      using ptids_okD(1,2) [OF ok] by simp_all
    have rl2: "?l - PTID_OFFSET < used_ptid_entries ?s" using rl(2) by simp
    note st' = ptid_store [OF rl(1) rl2 st2]
    let ?s2 = "?s\<lparr>ptid_entries := (ptid_entries ?s)[unat (?l - PTID_OFFSET) := ?x]\<rparr>"
    let ?s' = "?s2\<lparr>last_free_ptid := i\<rparr>"
    have upd': "ptid ?s' = (ptid s)(i := ?z, ?l := ?x)" using st'(3) [of ?x] upd by simp
    have look: "ptid_lookup ?s' = (ptid_lookup s)(i := None)"
      using upd' n by (auto simp: ptid_lookup_def fun_eq_iff)
    have run: "free_ptid i s = Some ?s'"
      using st(2) st'(1,2) l lz upd n li by (simp add: free_ptid_def)
    have "linked_from (ptid ?s') (q @ [i])"
      unfolding upd' using linked_from_snoc [OF ptids_okD(4,5) [OF ok] iq False] li by simp
    then have "ptids_ok (q @ [i]) ?s'"
      unfolding ptids_ok_def look using ok False rest iq upd' by (auto simp: ptids_ok_def neq_Nil_conv)
    then show ?thesis using run look by blast
  qed
qed

lemma get_ptid_entry_ok:
  assumes ok: "ptids_ok q s"
  shows "get_ptid_entry i s = Some (ptid_lookup s i)"
proof (cases "PTID_OFFSET \<le> i \<and> i - PTID_OFFSET < used_ptid_entries s")
  case True
  then have "read_at (ptid_entries s) (uint (i - PTID_OFFSET)) = Some (ptid s i)"
    using ptid_store(1) [OF _ _ ptids_okD(2,1) [OF ok]] by blast
  moreover have "ptid s i \<noteq> None" using ptids_okD(6) [OF ok] True by blast
  ultimately show ?thesis using True by (auto simp: get_ptid_entry_def ptid_lookup_def)
next
  case False
  then show ?thesis by (auto simp: get_ptid_entry_def ptid_lookup_def ptid_def)
qed

subsection \<open>The contract of the table\<close>

interpretation pt: id_table "\<lambda>s. \<exists>q. ptids_ok q s" ptid_lookup ptid_room
  "\<lambda>p s. map_option (\<lambda>(i, s). (if i = 0 then None else Some i, s)) (alloc_ptid p s)" free_ptid
proof unfold_locales
  fix s :: ptids and p assume "\<exists>q. ptids_ok q s" "ptid_room s"
  then obtain q where "ptids_ok q s" by blast
  from alloc_ptid_ok [OF this \<open>ptid_room s\<close>, of p]
  show "\<exists>r s'. map_option (\<lambda>(i, s). (if i = 0 then None else Some i, s)) (alloc_ptid p s) = Some (r, s') \<and>
      (\<exists>q. ptids_ok q s') \<and> (case r of None \<Rightarrow> ptid_lookup s' = ptid_lookup s
       | Some i \<Rightarrow> ptid_lookup s i = None \<and> ptid_lookup s' = (ptid_lookup s)(i \<mapsto> p))"
    by (force split: if_splits)
next
  fix s :: ptids and i assume "\<exists>q. ptids_ok q s" "ptid_lookup s i \<noteq> None"
  then show "\<exists>s'. free_ptid i s = Some s' \<and> (\<exists>q. ptids_ok q s') \<and> ptid_lookup s' = (ptid_lookup s)(i := None)"
    using free_ptid_ok by blast
qed

subsection \<open>The properties\<close>

text \<open>
  C26: the table of identifiers behaves like a map and a queue of free identifiers: \<^verbatim>\<open>alloc_ptid\<close> takes
  an entry that was never used while there is one, then the identifier that has been free for the
  longest time, and fails only when the array is full, nothing is free and it cannot grow;
  \<^verbatim>\<open>free_ptid\<close> puts the identifier at the end of the queue; \<^verbatim>\<open>get_ptid_entry\<close> reads the map.
\<close>

theorem ptids_refine_queue:
  assumes "ptids_ok q s"
  shows "get_ptid_entry i s = Some (ptid_lookup s i) \<and>
    (ptid_room s \<longrightarrow> (\<exists>j s' q'. alloc_ptid p s = Some (j, s') \<and> ptids_ok q' s' \<and>
      (if j = 0 then ptid_lookup s' = ptid_lookup s \<and> q' = q \<and> get_error s' = STATUS_NO_MEMORY \<and>
          q = [] \<and> used_ptid_entries s = alloc_ptid_entries s
       else ptid_lookup s j = None \<and> ptid_lookup s' = (ptid_lookup s)(j \<mapsto> p) \<and>
          (if used_ptid_entries s < alloc_ptid_entries s \<or> q = [] then j = used_ptid_entries s + PTID_OFFSET \<and> q' = q
           else q = j # q')))) \<and>
    (ptid_lookup s i \<noteq> None \<longrightarrow>
      (\<exists>s'. free_ptid i s = Some s' \<and> ptids_ok (q @ [i]) s' \<and> ptid_lookup s' = (ptid_lookup s)(i := None)))"
  using get_ptid_entry_ok [OF assms] alloc_ptid_ok [OF assms] free_ptid_ok [OF assms] by blast

definition two_ptids :: ptids where
  "two_ptids = \<lparr>current = None, global_error = 0, thread_error = \<lambda>_. 0, mem_oracle = [],
     ptid_entries = [Some \<lparr>pt_ptr = Some 3, pt_next = None\<rparr>, Some \<lparr>pt_ptr = Some 4, pt_next = None\<rparr>] @ replicate 62 None,
     used_ptid_entries = 2, alloc_ptid_entries = 64, next_free_ptid = 0, last_free_ptid = 0\<rparr>"

lemma two_ptids_ok: "ptids_ok [] two_ptids" "ptid_lookup two_ptids 8 = Some 3" "ptid_room two_ptids"
proof -
  have two: "PTID_OFFSET \<le> i \<and> i - PTID_OFFSET < 2 \<longleftrightarrow> i = 8 \<or> i = 9" for i
    unfolding PTID_OFFSET_def by unat_arith
  have e: "ptid two_ptids i = (if i = 8 then Some \<lparr>pt_ptr = Some 3, pt_next = None\<rparr>
    else if i = 9 then Some \<lparr>pt_ptr = Some 4, pt_next = None\<rparr> else None)" for i
    using two [of i] by (auto simp: ptid_def two_ptids_def PTID_OFFSET_def)
  have "PTID_OFFSET \<le> i \<Longrightarrow> i - PTID_OFFSET < 2 \<Longrightarrow> ptid two_ptids i \<noteq> None \<and> ptid_lookup two_ptids i \<noteq> None" for i
    using two [of i] by (auto simp: e ptid_lookup_def)
  then show "ptids_ok [] two_ptids" by (simp add: ptids_ok_def) (simp add: two_ptids_def)
  show "ptid_lookup two_ptids 8 = Some 3" by (simp add: ptid_lookup_def e)
  show "ptid_room two_ptids" by (simp add: ptid_room_def two_ptids_def)
qed

theorem ptids_refine_queue_witness:
  "get_ptid_entry 8 two_ptids = Some (Some 3) \<and>
   (\<exists>s'. alloc_ptid 7 two_ptids = Some (10, s') \<and> ptids_ok [] s' \<and> ptid_lookup s' = (ptid_lookup two_ptids)(10 \<mapsto> 7)) \<and>
   (\<exists>s'. free_ptid 8 two_ptids = Some s' \<and> ptids_ok [8] s' \<and> ptid_lookup s' = (ptid_lookup two_ptids)(8 := None))"
proof -
  have used: "used_ptid_entries two_ptids = 2" "alloc_ptid_entries two_ptids = 64" by (simp_all add: two_ptids_def)
  show ?thesis
    using ptids_refine_queue [OF two_ptids_ok(1), of 8 7] two_ptids_ok(2,3) used by (auto simp: PTID_OFFSET_def split: if_splits)
qed

text \<open>
  C27: over any sequence of allocations and releases the identifiers in use are distinct and each
  names the process or thread it was allocated for.
\<close>

theorem ptids_in_use:
  assumes "pt.run s0 calls live s" "ptids_ok q s0" "ptid_lookup s0 = (\<lambda>_. None)"
  shows "distinct (map fst live) \<and> (\<forall>i. get_ptid_entry i s = Some (map_of live i))"
proof -
  have "(\<exists>q. ptids_ok q s) \<and> distinct (map fst live) \<and> ptid_lookup s = map_of live"
    by (rule pt.run_refines [OF assms(1)]) (use assms(2,3) in blast)+
  then show ?thesis using get_ptid_entry_ok by auto
qed

definition no_ptids :: ptids where
  "no_ptids = \<lparr>current = None, global_error = 0, thread_error = \<lambda>_. 0, mem_oracle = [],
     ptid_entries = [], used_ptid_entries = 0, alloc_ptid_entries = 0, next_free_ptid = 0, last_free_ptid = 0\<rparr>"

lemma no_ptids_ok: "ptids_ok [] no_ptids" "ptid_lookup no_ptids = (\<lambda>_. None)" "ptid_room no_ptids"
  by (auto simp: ptids_ok_def no_ptids_def ptid_lookup_def ptid_def ptid_room_def)

theorem ptids_in_use_witness:
  "\<exists>s. pt.run no_ptids [Alloc 5] [(8, 5)] s \<and> get_ptid_entry 8 s = Some (Some 5)"
proof -
  obtain s1 where s1: "alloc_ptid 5 no_ptids = Some (8, s1)"
    by (simp add: alloc_ptid_def next_ptid_def no_ptids_def array_word PTID_OFFSET_def)
  then have "pt.run no_ptids ([] @ [Alloc 5]) ([] @ [(8, 5)]) s1"
    using no_ptids_ok(3) by (intro pt.run.allocated [OF pt.run.start]) simp_all
  then have r: "pt.run no_ptids [Alloc 5] [(8, 5)] s1" by simp
  from ptids_in_use [OF this no_ptids_ok(1,2)] r show ?thesis by auto
qed

end
