(* ===== verification/Users.thy ===== *)
theory Users
  imports Id_Table Server
begin

text \<open>
  The handles of windows and hooks (\<^verbatim>\<open>user.c\<close>): an array of entries with a generation counter
  that tells a handle from the earlier ones of the same entry, and a stack of freed entries
  linked through their pointer fields.  The words are those of a 32-bit machine.
\<close>

subsection \<open>The code\<close>

datatype user_object = USER_WINDOW | USER_HOOK

text \<open>The pointer of an entry is its object, or the next free entry when its type is 0 (\<open>None\<close>).\<close>

datatype user_ptr = Object oid | Free_entry "nat option"

record user_handle =
  uh_ptr :: user_ptr
  uh_type :: "user_object option"
  generation :: "16 word"

text \<open>The array as it has been allocated; an entry no call has stored into is \<open>None\<close>.\<close>

record users = env +
  user_handles :: "user_handle option list"
  freelist :: "nat option"
  nb_handles :: int

abbreviation "FIRST_USER_HANDLE \<equiv> (0x0020 :: 32 word)"
abbreviation "LAST_USER_HANDLE \<equiv> (0xffef :: 32 word)"

definition allocated_handles :: "users \<Rightarrow> int" where
  "allocated_handles s = int (length (user_handles s))"

definition handle_index :: "32 word \<Rightarrow> int" where
  "handle_index h = uint (drop_bit 1 ((h AND 0xffff) - FIRST_USER_HANDLE))"

definition read_user :: "int \<Rightarrow> users \<Rightarrow> user_handle option" where
  "read_user i s = Option.bind (read_at (user_handles s) i) id"

definition write_user :: "int \<Rightarrow> user_handle \<Rightarrow> users \<Rightarrow> users option" where
  "write_user i e s = do { es \<leftarrow> write_at (user_handles s) i (Some e); Some (s\<lparr>user_handles := es\<rparr>) }"

definition handle_to_entry :: "32 word \<Rightarrow> users \<Rightarrow> int option option" where
  "handle_to_entry h s =
     (let index = handle_index h in
      if index < 0 \<or> index \<ge> nb_handles s then Some None
      else do {
        e \<leftarrow> read_user index s;
        if uh_type e = None then Some None else
        let gen = ucast (drop_bit 16 h) :: 16 word in
        Some (if gen = generation e \<or> gen = 0 \<or> gen = 0xffff then Some index else None) })"

definition entry_to_handle :: "int \<Rightarrow> user_handle \<Rightarrow> 32 word" where
  "entry_to_handle index e = push_bit 1 (word_of_int index) + FIRST_USER_HANDLE + push_bit 16 (ucast (generation e))"

text \<open>
  A new entry has a generation only; its other fields are stored by \<open>alloc_user_handle\<close>, the only
  caller.
\<close>

definition alloc_user_entry :: "users \<Rightarrow> (int option \<times> users) option" where
  "alloc_user_entry s =
     (case freelist s of
        Some i \<Rightarrow> do {
          e \<leftarrow> read_user (int i) s;
          case uh_ptr e of Free_entry n \<Rightarrow> Some (Some (int i), s\<lparr>freelist := n\<rparr>) | Object _ \<Rightarrow> None }
      | None \<Rightarrow>
          let take_next = (\<lambda>s. do {
                s' \<leftarrow> write_user (nb_handles s) \<lparr>uh_ptr = Free_entry None, uh_type = None, generation = 0\<rparr> s;
                Some (Some (nb_handles s), s'\<lparr>nb_handles := nb_handles s + 1\<rparr>) }) in
          if nb_handles s \<ge> allocated_handles s then
            let growth = max 32 (allocated_handles s div 2);
                new_size = min (allocated_handles s + growth) (uint (drop_bit 1 (LAST_USER_HANDLE - FIRST_USER_HANDLE + 1))) in
            if new_size \<le> allocated_handles s then Some (None, s) else
            case malloc s of (ok, s) \<Rightarrow>
              if \<not> ok then Some (None, s)
              else take_next (s\<lparr>user_handles := user_handles s @ replicate (nat new_size - length (user_handles s)) None\<rparr>)
          else take_next s)"

definition free_user_entry :: "int \<Rightarrow> users \<Rightarrow> (user_ptr \<times> users) option" where
  "free_user_entry i s =
     do { e \<leftarrow> read_user i s;
          s \<leftarrow> write_user i (e\<lparr>uh_ptr := Free_entry (freelist s), uh_type := None\<rparr>) s;
          Some (uh_ptr e, s\<lparr>freelist := Some (nat i)\<rparr>) }"

definition alloc_user_handle :: "oid \<Rightarrow> user_object \<Rightarrow> users \<Rightarrow> (32 word \<times> users) option" where
  "alloc_user_handle p ty s =
     do { (entry, s) \<leftarrow> alloc_user_entry s;
          case entry of None \<Rightarrow> Some (0, s)
          | Some i \<Rightarrow> do {
              e \<leftarrow> read_user i s;
              let gen = generation e + 1;
              let e = \<lparr>uh_ptr = Object p, uh_type = Some ty, generation = (if gen \<ge> 0xffff then 1 else gen)\<rparr>;
              s \<leftarrow> write_user i e s;
              Some (entry_to_handle i e, s) } }"

definition get_user_object :: "32 word \<Rightarrow> user_object \<Rightarrow> users \<Rightarrow> user_ptr option option" where
  "get_user_object h ty s =
     do { entry \<leftarrow> handle_to_entry h s;
          case entry of None \<Rightarrow> Some None
          | Some i \<Rightarrow> do { e \<leftarrow> read_user i s; Some (if uh_type e \<noteq> Some ty then None else Some (uh_ptr e)) } }"

definition get_user_full_handle :: "32 word \<Rightarrow> users \<Rightarrow> 32 word option" where
  "get_user_full_handle h s =
     (if drop_bit 16 h \<noteq> 0 then Some h
      else do { entry \<leftarrow> handle_to_entry h s;
                case entry of None \<Rightarrow> Some h | Some i \<Rightarrow> do { e \<leftarrow> read_user i s; Some (entry_to_handle i e) } })"

definition get_user_object_handle :: "32 word \<Rightarrow> user_object \<Rightarrow> users \<Rightarrow> (user_ptr option \<times> 32 word) option" where
  "get_user_object_handle h ty s =
     do { entry \<leftarrow> handle_to_entry h s;
          case entry of None \<Rightarrow> Some (None, h)
          | Some i \<Rightarrow> do {
              e \<leftarrow> read_user i s;
              Some (if uh_type e \<noteq> Some ty then (None, h) else (Some (uh_ptr e), entry_to_handle i e)) } }"

definition free_user_handle :: "32 word \<Rightarrow> users \<Rightarrow> (user_ptr option \<times> users) option" where
  "free_user_handle h s =
     do { entry \<leftarrow> handle_to_entry h s;
          case entry of None \<Rightarrow> Some (None, set_error STATUS_INVALID_HANDLE s)
          | Some i \<Rightarrow> do { (p, s) \<leftarrow> free_user_entry i s; Some (Some p, s) } }"

text \<open>The loop of \<^verbatim>\<open>next_user_handle\<close> over the entries from \<open>i\<close> on; \<open>n\<close> counts those that are left.\<close>

fun next_user_entry :: "nat \<Rightarrow> int \<Rightarrow> user_object option \<Rightarrow> users \<Rightarrow> (user_ptr option \<times> 32 word option) option" where
  "next_user_entry 0 i ty s = Some (None, None)"
| "next_user_entry (Suc n) i ty s =
     do { e \<leftarrow> read_user i s;
          if ty = None \<or> uh_type e = ty then Some (Some (uh_ptr e), Some (entry_to_handle i e))
          else next_user_entry n (i + 1) ty s }"

definition next_user_handle :: "32 word \<Rightarrow> user_object option \<Rightarrow> users \<Rightarrow> (user_ptr option \<times> 32 word option) option" where
  "next_user_handle h ty s =
     (if h = 0 then next_user_entry (nat (nb_handles s)) 0 ty s
      else
        let index = handle_index h in
        if index < 0 \<or> index \<ge> nb_handles s then Some (None, None)
        else next_user_entry (nat (nb_handles s - (index + 1))) (index + 1) ty s)"

subsection \<open>Handles and entries\<close>

text \<open>The greatest number of entries.\<close>

lemma max_entries: "uint (drop_bit 1 (LAST_USER_HANDLE - FIRST_USER_HANDLE + 1)) = 0x7fe8"
  by simp

lemma unat_entry_to_handle:
  assumes "0 \<le> i" "i < 0x7fe8"
  shows "uint (entry_to_handle i e) = 2 * i + 32 + 65536 * uint (generation e)"
proof -
  have g: "uint (generation e) < 65536" using uint_lt2p [of "generation e"] by simp
  have "uint (push_bit 1 (word_of_int i) :: 32 word) = 2 * i"
    using assms by (simp add: push_bit_eq_mult uint_word_ariths uint_word_of_int)
  moreover have "uint (push_bit 16 (ucast (generation e)) :: 32 word) = 65536 * uint (generation e)"
    using g by (simp add: push_bit_eq_mult uint_word_ariths uint_up_ucast is_up)
  ultimately show ?thesis
    using assms g by (simp add: entry_to_handle_def uint_word_ariths)
qed

lemma uint_low: "uint (h AND 0xffff) = uint h mod 65536" for h :: "32 word"
proof -
  have "h AND 0xffff = take_bit 16 h" by (simp add: take_bit_eq_mask mask_eq_exp_minus_1)
  then have "uint (h AND 0xffff) = take_bit 16 (uint h)" by (simp only: unsigned_take_bit_eq)
  then show ?thesis by (simp add: take_bit_eq_mod)
qed

lemma entry_to_handle_parts:
  assumes "0 \<le> i" "i < 0x7fe8"
  shows "handle_index (entry_to_handle i e) = i" "ucast (drop_bit 16 (entry_to_handle i e)) = generation e"
    "entry_to_handle i e \<noteq> 0"
proof -
  let ?h = "entry_to_handle i e"
  note h = unat_entry_to_handle [OF assms, of e]
  have low: "uint (?h AND 0xffff) = 2 * i + 32" using h assms by (simp add: uint_low)
  then have "uint ((?h AND 0xffff) - FIRST_USER_HANDLE) = 2 * i"
    using assms by (simp add: uint_word_ariths)
  then show "handle_index ?h = i" by (simp add: handle_index_def drop_bit_eq_div uint_div)
  have "uint (drop_bit 16 ?h) = uint (generation e)"
    using h assms by (simp add: drop_bit_eq_div uint_div)
  then have "uint (ucast (drop_bit 16 ?h) :: 16 word) = uint (generation e)"
    using uint_lt2p [of "generation e"] by (simp add: unsigned_ucast_eq take_bit_eq_mod)
  then show "ucast (drop_bit 16 ?h) = generation e" by (simp add: word_uint_eq_iff)
  show "?h \<noteq> 0"
  proof
    assume "?h = 0"
    then have "2 * i + 32 + 65536 * uint (generation e) = 0" using h by simp
    then show False using assms(1) uint_ge_0 [of "generation e"] by linarith
  qed
qed

subsection \<open>The invariant\<close>

definition user_entry :: "users \<Rightarrow> int \<Rightarrow> user_handle option" where
  "user_entry s i = (if 0 \<le> i \<and> i < nb_handles s then user_handles s ! nat i else None)"

text \<open>What a full handle of an entry means.\<close>

definition meaning :: "32 word \<Rightarrow> int \<Rightarrow> user_handle option \<Rightarrow> (oid \<times> user_object) option" where
  "meaning h i entry = (case entry of None \<Rightarrow> None
     | Some e \<Rightarrow> (case uh_type e of None \<Rightarrow> None
         | Some ty \<Rightarrow> (case uh_ptr e of Free_entry _ \<Rightarrow> None
             | Object p \<Rightarrow> if entry_to_handle i e = h then Some (p, ty) else None)))"

definition user_lookup :: "users \<Rightarrow> 32 word \<Rightarrow> (oid \<times> user_object) option" where
  "user_lookup s h = meaning h (handle_index h) (user_entry s (handle_index h))"

fun free_chain :: "(int \<Rightarrow> user_handle option) \<Rightarrow> nat list \<Rightarrow> bool" where
  "free_chain f [] = True"
| "free_chain f (i # q) = ((\<exists>g. f (int i) = Some \<lparr>uh_ptr = Free_entry (case q of [] \<Rightarrow> None | j # _ \<Rightarrow> Some j),
     uh_type = None, generation = g\<rparr>) \<and> free_chain f q)"

definition user_ok :: "nat list \<Rightarrow> int \<Rightarrow> user_handle \<Rightarrow> bool" where
  "user_ok q i e \<longleftrightarrow> 0 < generation e \<and> generation e < 0xffff \<and>
     (case uh_type e of None \<Rightarrow> nat i \<in> set q | Some _ \<Rightarrow> nat i \<notin> set q \<and> (\<exists>p. uh_ptr e = Object p))"

definition users_ok :: "nat list \<Rightarrow> users \<Rightarrow> bool" where
  "users_ok q s \<longleftrightarrow> 0 \<le> nb_handles s \<and> nb_handles s \<le> allocated_handles s \<and> allocated_handles s \<le> 0x7fe8 \<and>
     freelist s = (case q of [] \<Rightarrow> None | i # _ \<Rightarrow> Some i) \<and> distinct q \<and> free_chain (user_entry s) q \<and>
     (\<forall>i. 0 \<le> i \<longrightarrow> i < nb_handles s \<longrightarrow> (\<exists>e. user_entry s i = Some e \<and> user_ok q i e))"

lemma free_chain_other: "i \<notin> int ` set q \<Longrightarrow> free_chain (f(i := x)) q = free_chain f q"
  by (induction q) auto

lemma free_chain_in: "free_chain f q \<Longrightarrow> j \<in> set q \<Longrightarrow> \<exists>e. f (int j) = Some e \<and> uh_type e = None"
  by (induction q) auto

lemma user_entry_range: "user_entry s i \<noteq> None \<Longrightarrow> 0 \<le> i \<and> i < nb_handles s"
  by (simp add: user_entry_def split: if_splits)

lemma users_okD:
  assumes "users_ok q s"
  shows "0 \<le> nb_handles s" "nb_handles s \<le> int (length (user_handles s))" "length (user_handles s) \<le> 0x7fe8"
    "free_chain (user_entry s) q" "distinct q" "user_entry s i = Some e \<Longrightarrow> user_ok q i e"
    "0 \<le> i \<Longrightarrow> i < nb_handles s \<Longrightarrow> \<exists>e. user_entry s i = Some e"
proof -
  show "0 \<le> nb_handles s" "nb_handles s \<le> int (length (user_handles s))" "length (user_handles s) \<le> 0x7fe8"
    "free_chain (user_entry s) q" "distinct q" "0 \<le> i \<Longrightarrow> i < nb_handles s \<Longrightarrow> \<exists>e. user_entry s i = Some e"
    using assms unfolding users_ok_def allocated_handles_def by (simp_all, blast)
  assume "user_entry s i = Some e"
  moreover from this have "0 \<le> i" "i < nb_handles s" using user_entry_range [of s i] by simp_all
  ultimately show "user_ok q i e" using assms unfolding users_ok_def by fastforce
qed

lemma user_entry_cong:
  "user_handles s' = user_handles s \<Longrightarrow> nb_handles s' = nb_handles s \<Longrightarrow> user_entry s' = user_entry s"
  by (simp add: user_entry_def fun_eq_iff)

lemma user_entry_fields [simp]:
  "user_entry (s\<lparr>freelist := n\<rparr>) = user_entry s" "user_entry (s\<lparr>mem_oracle := m\<rparr>) = user_entry s"
  "user_entry (set_error e s) = user_entry s"
  by (rule user_entry_cong, simp_all add: set_error_def)+

lemma user_access:
  assumes "nb_handles s \<le> int (length (user_handles s))" "user_entry s i \<noteq> None"
  shows "read_user i s = user_entry s i" "write_user i e s = Some (s\<lparr>user_handles := (user_handles s)[nat i := Some e]\<rparr>)"
    "user_entry (s\<lparr>user_handles := (user_handles s)[nat i := Some e]\<rparr>) = (user_entry s)(i \<mapsto> e)"
proof -
  have r: "0 \<le> i" "i < nb_handles s" using user_entry_range [OF assms(2)] by simp_all
  then have n: "nat i < length (user_handles s)" using assms(1) by linarith
  then show "read_user i s = user_entry s i" "write_user i e s = Some (s\<lparr>user_handles := (user_handles s)[nat i := Some e]\<rparr>)"
    using r by (auto simp: read_user_def write_user_def read_at_def write_at_def user_entry_def)
  show "user_entry (s\<lparr>user_handles := (user_handles s)[nat i := Some e]\<rparr>) = (user_entry s)(i \<mapsto> e)"
    using r n by (auto simp: user_entry_def fun_eq_iff nth_list_update nat_eq_iff)
qed

text \<open>A handle resolves to the entry whose generation it has, or to the current one when it has none.\<close>

definition truncated :: "32 word \<Rightarrow> bool" where
  "truncated h \<longleftrightarrow> (ucast (drop_bit 16 h) :: 16 word) \<in> {0, 0xffff}"

lemma handle_to_entry_ok:
  assumes "users_ok q s"
  shows "handle_to_entry h s = Some (case user_entry s (handle_index h) of None \<Rightarrow> None
    | Some e \<Rightarrow> if uh_type e \<noteq> None \<and> (ucast (drop_bit 16 h) = generation e \<or> truncated h)
                then Some (handle_index h) else None)"
proof (cases "user_entry s (handle_index h)")
  case None
  then have "\<not> (0 \<le> handle_index h \<and> handle_index h < nb_handles s)" using users_okD(7) [OF assms] by fastforce
  then show ?thesis using None by (auto simp: handle_to_entry_def)
next
  case (Some e)
  moreover from this have "0 \<le> handle_index h \<and> handle_index h < nb_handles s" using user_entry_range by fastforce
  ultimately show ?thesis using user_access(1) [OF users_okD(2) [OF assms], of "handle_index h"]
    by (auto simp: handle_to_entry_def truncated_def)
qed

subsection \<open>Allocation and release\<close>

text \<open>Between the two steps of an allocation: the entry is taken but not filled.\<close>

definition reserved :: "nat list \<Rightarrow> int \<Rightarrow> users \<Rightarrow> bool" where
  "reserved q i s \<longleftrightarrow> 0 \<le> nb_handles s \<and> nb_handles s \<le> allocated_handles s \<and> allocated_handles s \<le> 0x7fe8 \<and>
     freelist s = (case q of [] \<Rightarrow> None | i # _ \<Rightarrow> Some i) \<and> distinct q \<and> free_chain (user_entry s) q \<and>
     nat i \<notin> set q \<and> (\<exists>e. user_entry s i = Some e \<and> generation e < 0xffff) \<and>
     (\<forall>j. 0 \<le> j \<longrightarrow> j < nb_handles s \<longrightarrow> j \<noteq> i \<longrightarrow> (\<exists>e. user_entry s j = Some e \<and> user_ok q j e))"

lemma reserved_fill:
  assumes r: "reserved q i s" and e: "0 < generation e" "generation e < 0xffff" "uh_type e = Some ty" "uh_ptr e = Object p"
  shows "\<exists>s'. write_user i e s = Some s' \<and> users_ok q s' \<and> user_entry s' = (user_entry s)(i \<mapsto> e)"
proof -
  have x: "nb_handles s \<le> int (length (user_handles s))" "user_entry s i \<noteq> None"
    using r by (auto simp: reserved_def allocated_handles_def)
  let ?s = "s\<lparr>user_handles := (user_handles s)[nat i := Some e]\<rparr>"
  note w = user_access(2,3) [OF x, of e]
  have "0 \<le> i" using user_entry_range [OF x(2)] by simp
  then have "i \<notin> int ` set q" using r by (auto simp: reserved_def)
  then have "users_ok q ?s"
    using r e w(2) unfolding users_ok_def reserved_def
    by (auto simp: free_chain_other allocated_handles_def user_ok_def)
  then show ?thesis using w by blast
qed

lemma alloc_user_entry_ok:
  assumes ok: "users_ok q s"
  shows "\<exists>r s1. alloc_user_entry s = Some (r, s1) \<and> (case r of
      None \<Rightarrow> users_ok q s1 \<and> user_entry s1 = user_entry s \<and> q = [] \<and> nb_handles s = allocated_handles s
    | Some i \<Rightarrow> 0 \<le> i \<and> i < 0x7fe8 \<and> (\<forall>j. j \<noteq> i \<longrightarrow> user_entry s1 j = user_entry s j) \<and>
        (case user_entry s i of None \<Rightarrow> i = nb_handles s \<and> (\<forall>e. user_entry s1 i = Some e \<longrightarrow> generation e = 0)
          | Some e \<Rightarrow> uh_type e = None \<and> user_entry s1 i = Some e) \<and>
        (\<exists>q'. reserved q' i s1 \<and> (if q = [] then q' = [] else q = nat i # q')))"
proof (cases q)
  case (Cons j q')
  then obtain g where g: "user_entry s (int j) = Some \<lparr>uh_ptr = Free_entry (case q' of [] \<Rightarrow> None | k # _ \<Rightarrow> Some k), uh_type = None, generation = g\<rparr>"
    using users_okD(4) [OF ok] by auto
  let ?s = "s\<lparr>freelist := (case q' of [] \<Rightarrow> None | k # _ \<Rightarrow> Some k)\<rparr>"
  have run: "alloc_user_entry s = Some (Some (int j), ?s)"
    using ok Cons g user_access(1) [OF users_okD(2) [OF ok], of "int j"] by (simp add: alloc_user_entry_def users_ok_def)
  have gen: "g < 0xffff" using users_okD(6) [OF ok g] by (simp add: user_ok_def)
  have "\<exists>e. user_entry s k = Some e \<and> user_ok q' k e" if k: "0 \<le> k" "k < nb_handles s" "k \<noteq> int j" for k
  proof -
    obtain e where "user_entry s k = Some e" "user_ok q k e" using ok k unfolding users_ok_def by blast
    moreover have "nat k \<noteq> j" using k by auto
    ultimately show ?thesis using Cons by (auto simp: user_ok_def split: option.splits)
  qed
  then have "reserved q' (int j) ?s"
    using ok Cons g gen unfolding reserved_def users_ok_def by (auto simp: allocated_handles_def)
  moreover have "int j < 0x7fe8"
    using user_entry_range [of s "int j"] g users_okD(2,3) [OF ok] by simp
  ultimately show ?thesis using run g Cons by auto
next
  case Nil
  let ?e = "\<lparr>uh_ptr = Free_entry None, uh_type = None, generation = 0\<rparr>"
  have take_next: "\<exists>s1. (do { s' \<leftarrow> write_user (nb_handles s2) ?e s2; Some (Some (nb_handles s2), s'\<lparr>nb_handles := nb_handles s2 + 1\<rparr>) })
        = Some (Some (nb_handles s), s1) \<and> nb_handles s < 0x7fe8 \<and>
      (\<forall>j. j \<noteq> nb_handles s \<longrightarrow> user_entry s1 j = user_entry s j) \<and> user_entry s1 (nb_handles s) = Some ?e \<and> reserved [] (nb_handles s) s1"
    if s2: "nb_handles s2 = nb_handles s" "nb_handles s < allocated_handles s2" "allocated_handles s2 \<le> 0x7fe8"
      "user_entry s2 = user_entry s" "freelist s2 = None" for s2
  proof -
    let ?n = "nat (nb_handles s)"
    let ?s1 = "s2\<lparr>user_handles := (user_handles s2)[?n := Some ?e], nb_handles := nb_handles s + 1\<rparr>"
    have n: "0 \<le> nb_handles s" "?n < length (user_handles s2)" using users_okD(1) [OF ok] s2(2) by (simp_all add: allocated_handles_def)
    then have w: "write_user (nb_handles s2) ?e s2 = Some (s2\<lparr>user_handles := (user_handles s2)[?n := Some ?e]\<rparr>)"
      using s2(1) by (simp add: write_user_def write_at_def nat_less_iff)
    have e: "user_entry ?s1 = (user_entry s)(nb_handles s \<mapsto> ?e)"
    proof
      fix j
      show "user_entry ?s1 j = ((user_entry s)(nb_handles s \<mapsto> ?e)) j"
        using n s2(1) fun_cong [OF s2(4), of j]
        by (auto simp: user_entry_def nth_list_update nat_eq_iff split: if_splits)
    qed
    have "\<exists>e. user_entry s k = Some e \<and> user_ok [] k e" if k: "0 \<le> k" "k < nb_handles s" for k
      using ok k Nil unfolding users_ok_def by blast
    then have "reserved [] (nb_handles s) ?s1"
      unfolding reserved_def e using n s2 by (simp add: allocated_handles_def)
    then show ?thesis using w e n s2 by auto
  qed
  have none: "user_entry s (nb_handles s) = None" by (simp add: user_entry_def)
  have fl: "freelist s = None" using ok Nil by (simp add: users_ok_def)
  show ?thesis
  proof (cases "nb_handles s < allocated_handles s")
    case True
    then show ?thesis
      using take_next [of s] users_okD(1,3) [OF ok] fl none Nil by (auto simp: alloc_user_entry_def allocated_handles_def)
  next
    case full: False
    then have nb: "nb_handles s = allocated_handles s" using ok by (simp add: users_ok_def)
    then have full': "nb_handles s \<ge> allocated_handles s" by simp
    define new where "new = min (allocated_handles s + max 32 (allocated_handles s div 2)) 0x7fe8"
    have small: "new \<le> 0x7fe8" by (simp add: new_def)
    note unf = alloc_user_entry_def Let_def max_entries fl option.case new_def [symmetric]
    show ?thesis
    proof (cases "new \<le> allocated_handles s")
      case True
      have "alloc_user_entry s = Some (None, s)"
        unfolding unf by (simp only: full' True if_True)
      then show ?thesis using ok Nil nb by auto
    next
      case grow: False
      obtain b s1 where m: "malloc s = (b, s1)" by fastforce
      then obtain ms where s1: "s1 = s\<lparr>mem_oracle := ms\<rparr>" using malloc_oracle by blast
      have ok1: "users_ok q s1" using ok unfolding s1 users_ok_def by (simp add: allocated_handles_def)
      show ?thesis
      proof (cases b)
        case False
        then have "alloc_user_entry s = Some (None, s1)"
          unfolding unf by (simp only: full' grow m if_True if_False not_False_eq_True prod.case simp_thms)
        then show ?thesis using ok1 Nil nb s1 by auto
      next
        case True
        let ?s2 = "s1\<lparr>user_handles := user_handles s1 @ replicate (nat new - length (user_handles s1)) None\<rparr>"
        have run: "alloc_user_entry s = (do { s' \<leftarrow> write_user (nb_handles ?s2) ?e ?s2;
            Some (Some (nb_handles ?s2), s'\<lparr>nb_handles := nb_handles ?s2 + 1\<rparr>) })"
          unfolding unf by (simp only: full' grow m True if_True if_False not_True_eq_False prod.case simp_thms)
        have "allocated_handles ?s2 = new"
          using grow s1 by (simp add: allocated_handles_def)
        then have "nb_handles s < allocated_handles ?s2" "allocated_handles ?s2 \<le> 0x7fe8"
          using nb grow small by simp_all
        moreover have "user_entry ?s2 = user_entry s"
          using nb s1 by (auto simp: user_entry_def fun_eq_iff nth_append allocated_handles_def)
        ultimately show ?thesis using take_next [of ?s2] run s1 fl none Nil users_okD(1) [OF ok] by auto
      qed
    qed
  qed
qed

lemma next_generation:
  fixes g :: "16 word"
  assumes "g < 0xffff"
  shows "0 < (if g + 1 \<ge> 0xffff then 1 else g + 1)" "(if g + 1 \<ge> 0xffff then 1 else g + 1) < 0xffff"
proof -
  have "unat g < 0xffff" using assms by (simp add: word_less_nat_alt)
  then have "unat (g + 1) = unat g + 1" by (simp add: unat_word_ariths(1))
  then show "0 < (if g + 1 \<ge> 0xffff then 1 else g + 1)" "(if g + 1 \<ge> 0xffff then 1 else g + 1) < 0xffff"
    by (auto simp: word_less_nat_alt word_le_nat_alt)
qed

lemma meaning_None: "uh_type e = None \<Longrightarrow> meaning h i (Some e) = None" "meaning h i None = None"
  by (simp_all add: meaning_def)

lemma user_lookup_fill:
  assumes i: "0 \<le> i" "i < 0x7fe8" and e: "user_entry s' i = Some e" "uh_type e = Some ty" "uh_ptr e = Object p"
    and other: "\<And>j. j \<noteq> i \<Longrightarrow> user_entry s' j = user_entry s j" and old: "\<And>h. meaning h i (user_entry s i) = None"
  shows "user_lookup s (entry_to_handle i e) = None" "user_lookup s' = (user_lookup s)(entry_to_handle i e \<mapsto> (p, ty))"
proof -
  note parts = entry_to_handle_parts [OF i, of e]
  show "user_lookup s (entry_to_handle i e) = None" using old by (simp add: user_lookup_def parts)
  show "user_lookup s' = (user_lookup s)(entry_to_handle i e \<mapsto> (p, ty))"
  proof
    fix h
    show "user_lookup s' h = ((user_lookup s)(entry_to_handle i e \<mapsto> (p, ty))) h"
    proof (cases "handle_index h = i")
      case True
      then show ?thesis using e old by (auto simp: user_lookup_def meaning_def)
    next
      case False
      then show ?thesis using other parts(1) by (auto simp: user_lookup_def)
    qed
  qed
qed

lemma alloc_user_handle_ok:
  assumes ok: "users_ok q s"
  shows "\<exists>h s' q'. alloc_user_handle p ty s = Some (h, s') \<and> users_ok q' s' \<and>
    (if h = 0 then user_lookup s' = user_lookup s \<and> q = [] \<and> nb_handles s = allocated_handles s
     else user_lookup s h = None \<and> user_lookup s' = (user_lookup s)(h \<mapsto> (p, ty)) \<and> \<not> truncated h \<and> even (uint h))"
proof -
  obtain r s1 where r: "alloc_user_entry s = Some (r, s1)" "case r of
      None \<Rightarrow> users_ok q s1 \<and> user_entry s1 = user_entry s \<and> q = [] \<and> nb_handles s = allocated_handles s
    | Some i \<Rightarrow> 0 \<le> i \<and> i < 0x7fe8 \<and> (\<forall>j. j \<noteq> i \<longrightarrow> user_entry s1 j = user_entry s j) \<and>
        (case user_entry s i of None \<Rightarrow> i = nb_handles s \<and> (\<forall>e. user_entry s1 i = Some e \<longrightarrow> generation e = 0)
          | Some e \<Rightarrow> uh_type e = None \<and> user_entry s1 i = Some e) \<and>
        (\<exists>q'. reserved q' i s1 \<and> (if q = [] then q' = [] else q = nat i # q'))"
    using alloc_user_entry_ok [OF ok] by blast
  show ?thesis
  proof (cases r)
    case None
    then show ?thesis using r by (auto simp: alloc_user_handle_def user_lookup_def fun_eq_iff)
  next
    case (Some i)
    then have i: "0 \<le> i" "i < 0x7fe8" "\<And>j. j \<noteq> i \<Longrightarrow> user_entry s1 j = user_entry s j" using r(2) by simp_all
    have old: "meaning h i (user_entry s i) = None" for h
      using r(2) Some by (cases "user_entry s i") (simp_all add: meaning_None)
    obtain q' where q': "reserved q' i s1" using r(2) Some by auto
    then obtain e where e: "user_entry s1 i = Some e" "generation e < 0xffff" by (auto simp: reserved_def)
    have nb: "nb_handles s1 \<le> int (length (user_handles s1))" using q' by (simp add: reserved_def allocated_handles_def)
    let ?g = "if generation e + 1 \<ge> 0xffff then 1 else generation e + 1"
    let ?e = "\<lparr>uh_ptr = Object p, uh_type = Some ty, generation = ?g\<rparr>"
    note g = next_generation [OF e(2)]
    obtain s' where s': "write_user i ?e s1 = Some s'" "users_ok q' s'" "user_entry s' = (user_entry s1)(i \<mapsto> ?e)"
      using reserved_fill [OF q', of ?e ty p] g by auto
    have run: "alloc_user_handle p ty s = Some (entry_to_handle i ?e, s')"
      using r(1) Some s'(1) e user_access(1) [OF nb, of i] by (simp add: alloc_user_handle_def Let_def)
    note parts = entry_to_handle_parts [OF i(1,2), of ?e]
    have look: "user_lookup s (entry_to_handle i ?e) = None" "user_lookup s' = (user_lookup s)(entry_to_handle i ?e \<mapsto> (p, ty))"
      using user_lookup_fill [OF i(1,2), of s' ?e ty p s] s'(3) i(3) old by simp_all
    have "\<not> truncated (entry_to_handle i ?e)"
      using parts(2) g by (auto simp: truncated_def)
    moreover have "even (uint (entry_to_handle i ?e))" using unat_entry_to_handle [OF i(1,2), of ?e] by simp
    ultimately show ?thesis using run s'(2) look parts(3) by auto
  qed
qed

lemma user_lookup_Some:
  assumes ok: "users_ok q s" and h: "user_lookup s h = Some (p, ty)"
  obtains e where "user_entry s (handle_index h) = Some e" "uh_type e = Some ty" "uh_ptr e = Object p"
    "h = entry_to_handle (handle_index h) e" "0 \<le> handle_index h" "handle_index h < 0x7fe8" "\<not> truncated h" "even (uint h)"
proof -
  from h obtain e where e: "user_entry s (handle_index h) = Some e" "uh_type e = Some ty" "uh_ptr e = Object p"
    "h = entry_to_handle (handle_index h) e"
    by (auto simp: user_lookup_def meaning_def split: option.splits user_ptr.splits if_splits)
  have r: "0 \<le> handle_index h" "handle_index h < 0x7fe8"
    using user_entry_range [of s "handle_index h"] e(1) users_okD(2,3) [OF ok] by simp_all
  have "0 < generation e" "generation e < 0xffff" using users_okD(6) [OF ok e(1)] by (simp_all add: user_ok_def)
  then have "\<not> truncated h" using entry_to_handle_parts(2) [OF r, of e] e(4) by (auto simp: truncated_def)
  moreover have "even (uint h)" using unat_entry_to_handle [OF r, of e] e(4) by simp
  ultimately show ?thesis using that e r by blast
qed

text \<open>A handle with a generation that resolves is a handle of the entry.\<close>

lemma handle_of_entry:
  assumes "handle_index h = i" "0 \<le> i" "i < 0x7fe8" "ucast (drop_bit 16 h) = generation e" "even (uint h)"
  shows "h = entry_to_handle i e"
proof -
  have "uint (drop_bit 16 h) = uint h div 65536" by (simp add: drop_bit_eq_div uint_div)
  moreover have "uint h div 65536 mod 65536 = uint h div 65536"
    by (rule mod_pos_pos_trivial) (use uint_lt2p [of h] in \<open>simp_all add: pos_imp_zdiv_nonneg_iff\<close>)
  moreover have "uint (ucast (drop_bit 16 h) :: 16 word) = uint (drop_bit 16 h) mod 65536"
    by (simp add: unsigned_ucast_eq take_bit_eq_mod)
  ultimately have gen: "uint (generation e) = uint h div 65536" using assms(4) by simp
  define m where "m = uint h mod 65536"
  have m: "0 \<le> m" "m < 65536" "even m" using assms(5) by (simp_all add: m_def dvd_mod)
  have h: "uint h = m + 65536 * uint (generation e)"
    using gen mult_div_mod_eq [of 65536 "uint h"] by (simp add: m_def)
  have "uint ((h AND 0xffff) - FIRST_USER_HANDLE) = (m - 32) mod 4294967296"
    by (simp add: uint_word_ariths uint_low m_def)
  moreover have "uint ((h AND 0xffff) - FIRST_USER_HANDLE) div 2 = i"
    using assms(1) by (simp add: handle_index_def drop_bit_eq_div uint_div)
  ultimately have d: "(m - 32) mod 4294967296 div 2 = i" by simp
  have "32 \<le> m"
  proof (rule ccontr)
    assume "\<not> 32 \<le> m"
    then have "(m - 32 + 4294967296) mod 4294967296 = m - 32 + 4294967296"
      using m(1) by (intro mod_pos_pos_trivial) simp_all
    then have "(m - 32) mod 4294967296 = m - 32 + 4294967296" by (simp only: mod_add_self2)
    then show False using d assms(3) m(1) by simp
  qed
  then have "(m - 32) mod 4294967296 = m - 32" using m(2) by (intro mod_pos_pos_trivial) simp_all
  then have "(m - 32) div 2 = i" using d by simp
  then have "m = 2 * i + 32" using m(3) by presburger
  then have "uint h = 2 * i + 32 + 65536 * uint (generation e)" using h by simp
  then show ?thesis using unat_entry_to_handle [OF assms(2,3), of e] by (simp add: word_uint_eq_iff)
qed

lemma get_user_object_ok:
  assumes ok: "users_ok q s" and h: "\<not> truncated h" "even (uint h)"
  shows "get_user_object h ty s = Some (case user_lookup s h of None \<Rightarrow> None
    | Some (p, ty') \<Rightarrow> if ty' = ty then Some (Object p) else None)"
proof (cases "user_entry s (handle_index h)")
  case None
  then show ?thesis using handle_to_entry_ok [OF ok, of h] by (simp add: get_user_object_def user_lookup_def meaning_None)
next
  case (Some e)
  have r: "0 \<le> handle_index h" "handle_index h < 0x7fe8"
    using user_entry_range [of s "handle_index h"] Some users_okD(2,3) [OF ok] by simp_all
  have x: "read_user (handle_index h) s = Some e"
    using user_access(1) [OF users_okD(2) [OF ok], of "handle_index h"] Some by simp
  have iff: "ucast (drop_bit 16 h) = generation e \<longleftrightarrow> entry_to_handle (handle_index h) e = h"
    using handle_of_entry [OF refl r _ h(2)] entry_to_handle_parts(2) [OF r, of e] by metis
  show ?thesis
  proof (cases "uh_type e")
    case None
    then show ?thesis using handle_to_entry_ok [OF ok, of h] Some by (simp add: get_user_object_def user_lookup_def meaning_None)
  next
    case ty: (Some t)
    obtain p where "uh_ptr e = Object p" using users_okD(6) [OF ok Some] ty by (auto simp: user_ok_def)
    then show ?thesis
      using handle_to_entry_ok [OF ok, of h] Some ty x iff h(1)
      by (auto simp: get_user_object_def user_lookup_def meaning_def)
  qed
qed

lemma free_user_handle_ok:
  assumes ok: "users_ok q s" and h: "user_lookup s h = Some (p, ty)"
  shows "\<exists>s'. free_user_handle h s = Some (Some (Object p), s') \<and> users_ok (nat (handle_index h) # q) s' \<and>
    user_lookup s' = (user_lookup s)(h := None)"
proof -
  let ?i = "handle_index h"
  obtain e where e: "user_entry s ?i = Some e" "uh_type e = Some ty" "uh_ptr e = Object p" "h = entry_to_handle ?i e"
    "0 \<le> ?i" "?i < 0x7fe8"
    by (rule user_lookup_Some [OF ok h])
  have gen: "ucast (drop_bit 16 h) = generation e" using entry_to_handle_parts(2) [OF e(5,6), of e] e(4) by simp
  let ?e = "e\<lparr>uh_ptr := Free_entry (freelist s), uh_type := None\<rparr>"
  have x: "user_entry s ?i \<noteq> None" using e(1) by simp
  note w = user_access [OF users_okD(2) [OF ok] x]
  let ?s = "s\<lparr>user_handles := (user_handles s)[nat ?i := Some ?e]\<rparr>"
  let ?s' = "?s\<lparr>freelist := Some (nat ?i)\<rparr>"
  have run: "free_user_handle h s = Some (Some (Object p), ?s')"
    using handle_to_entry_ok [OF ok, of h] e(1-3) gen w(1) w(2) [of ?e]
    by (simp add: free_user_handle_def free_user_entry_def)
  have upd: "user_entry ?s' = (user_entry s)(?i \<mapsto> ?e)" using w(3) [of ?e] by simp
  have iq: "nat ?i \<notin> set q" using users_okD(6) [OF ok e(1)] e(2) by (simp add: user_ok_def)
  then have iq': "?i \<notin> int ` set q" by auto
  have fl: "freelist s = (case q of [] \<Rightarrow> None | j # _ \<Rightarrow> Some j)" using ok by (simp add: users_ok_def)
  have chain: "free_chain (user_entry ?s') (nat ?i # q)"
    using users_okD(4) [OF ok] iq' e(5) fl unfolding upd by (auto simp: free_chain_other intro!: exI [of _ "generation e"])
  have all: "\<exists>x. user_entry ?s' j = Some x \<and> user_ok (nat ?i # q) j x" if j: "0 \<le> j" "j < nb_handles s" for j
  proof (cases "j = ?i")
    case True
    then show ?thesis using upd users_okD(6) [OF ok e(1)] by (simp add: user_ok_def)
  next
    case False
    then have "nat j \<noteq> nat ?i" using j e(5) by simp
    moreover obtain x where "user_entry s j = Some x" "user_ok q j x" using ok j unfolding users_ok_def by blast
    ultimately show ?thesis using False upd by (auto simp: user_ok_def split: option.splits)
  qed
  have "users_ok (nat ?i # q) ?s'"
    unfolding users_ok_def using chain all users_okD(1-3,5) [OF ok] iq by (simp add: allocated_handles_def)
  moreover have "user_lookup ?s' = (user_lookup s)(h := None)"
  proof
    fix g
    show "user_lookup ?s' g = ((user_lookup s)(h := None)) g"
      using e(1,4) unfolding user_lookup_def upd by (auto simp: meaning_def split: option.splits user_ptr.splits)
  qed
  ultimately show ?thesis using run by blast
qed

lemma free_user_handle_invalid:
  assumes ok: "users_ok q s" and h: "\<not> truncated h" "even (uint h)" "user_lookup s h = None"
  shows "free_user_handle h s = Some (None, set_error STATUS_INVALID_HANDLE s)"
proof -
  have "get_user_object h ty s = Some None" for ty using get_user_object_ok [OF ok h(1,2)] h(3) by simp
  moreover have "user_entry s (handle_index h) = Some e \<Longrightarrow> read_user (handle_index h) s = Some e" for e
    using user_access(1) [OF users_okD(2) [OF ok], of "handle_index h"] by simp
  ultimately have "handle_to_entry h s = Some None"
    using handle_to_entry_ok [OF ok, of h]
    by (fastforce simp: get_user_object_def split: option.splits if_splits)
  then show ?thesis by (simp add: free_user_handle_def)
qed

subsection \<open>Enumeration\<close>

lemma next_user_entry_ok:
  assumes ok: "users_ok q s" and i: "0 \<le> i" "i + int n = nb_handles s"
  shows "(\<exists>j e p. i \<le> j \<and> user_entry s j = Some e \<and> uh_type e = Some ty \<and> uh_ptr e = Object p \<and>
      next_user_entry n i (Some ty) s = Some (Some (Object p), Some (entry_to_handle j e)) \<and>
      (\<forall>k e. i \<le> k \<longrightarrow> k < j \<longrightarrow> user_entry s k = Some e \<longrightarrow> uh_type e \<noteq> Some ty)) \<or>
    next_user_entry n i (Some ty) s = Some (None, None) \<and>
      (\<forall>k e. i \<le> k \<longrightarrow> user_entry s k = Some e \<longrightarrow> uh_type e \<noteq> Some ty)"
  using i
proof (induction n arbitrary: i)
  case 0
  then show ?case using user_entry_range [of s] by fastforce
next
  case (Suc n)
  obtain e where e: "user_entry s i = Some e" using users_okD(7) [OF ok, of i] Suc.prems by auto
  then have x: "read_user i s = Some e" using user_access(1) [OF users_okD(2) [OF ok], of i] by simp
  show ?case
  proof (cases "uh_type e = Some ty")
    case True
    then obtain p where "uh_ptr e = Object p" using users_okD(6) [OF ok e] by (auto simp: user_ok_def)
    then show ?thesis using True x e by (intro disjI1 exI [of _ i] exI [of _ e] exI [of _ p]) auto
  next
    case False
    have step: "next_user_entry (Suc n) i (Some ty) s = next_user_entry n (i + 1) (Some ty) s" using False x by simp
    have all: "user_entry s k = Some e' \<Longrightarrow> uh_type e' \<noteq> Some ty"
      if "i \<le> k" "i + 1 \<le> k \<Longrightarrow> user_entry s k = Some e' \<Longrightarrow> uh_type e' \<noteq> Some ty" for k e'
      using that e False by (cases "k = i") auto
    have "0 \<le> i + 1" "i + 1 + int n = nb_handles s" using Suc.prems by simp_all
    from Suc.IH [OF this] show ?thesis
    proof (elim disjE exE conjE)
      fix j e' p
      assume a: "i + 1 \<le> j" "user_entry s j = Some e'" "uh_type e' = Some ty" "uh_ptr e' = Object p"
        "next_user_entry n (i + 1) (Some ty) s = Some (Some (Object p), Some (entry_to_handle j e'))"
        "\<forall>k e. i + 1 \<le> k \<longrightarrow> k < j \<longrightarrow> user_entry s k = Some e \<longrightarrow> uh_type e \<noteq> Some ty"
      have "i \<le> j" using a(1) by simp
      moreover have "\<forall>k e. i \<le> k \<longrightarrow> k < j \<longrightarrow> user_entry s k = Some e \<longrightarrow> uh_type e \<noteq> Some ty" using all a(6) by blast
      ultimately show ?thesis unfolding step using a(2-5) by blast
    next
      assume "next_user_entry n (i + 1) (Some ty) s = Some (None, None)"
        "\<forall>k e. i + 1 \<le> k \<longrightarrow> user_entry s k = Some e \<longrightarrow> uh_type e \<noteq> Some ty"
      then show ?thesis unfolding step using all by blast
    qed
  qed
qed

subsection \<open>The contract\<close>

interpretation us: id_table "\<lambda>s. \<exists>q. users_ok q s" user_lookup "\<lambda>_. True"
  "\<lambda>(p, ty) s. map_option (\<lambda>(h, s). (if h = 0 then None else Some h, s)) (alloc_user_handle p ty s)"
  "\<lambda>h s. map_option snd (free_user_handle h s)"
proof unfold_locales
  fix s :: users and v :: "oid \<times> user_object" assume "\<exists>q. users_ok q s"
  then obtain q where "users_ok q s" by blast
  from alloc_user_handle_ok [OF this, of "fst v" "snd v"]
  show "\<exists>r s'. (case v of (p, ty) \<Rightarrow> \<lambda>s. map_option (\<lambda>(h, s). (if h = 0 then None else Some h, s)) (alloc_user_handle p ty s)) s
      = Some (r, s') \<and> (\<exists>q. users_ok q s') \<and> (case r of None \<Rightarrow> user_lookup s' = user_lookup s
       | Some i \<Rightarrow> user_lookup s i = None \<and> user_lookup s' = (user_lookup s)(i \<mapsto> v))"
    by (cases v) (force split: if_splits)
next
  fix s :: users and h assume "\<exists>q. users_ok q s" "user_lookup s h \<noteq> None"
  then show "\<exists>s'. map_option snd (free_user_handle h s) = Some s' \<and> (\<exists>q. users_ok q s') \<and> user_lookup s' = (user_lookup s)(h := None)"
    using free_user_handle_ok by fastforce
qed

subsection \<open>The properties\<close>


text \<open>One window with the handle 0x10020.\<close>

definition one_window :: users where
  "one_window = \<lparr>current = None, global_error = 0, thread_error = \<lambda>_. 0, mem_oracle = [],
     user_handles = Some \<lparr>uh_ptr = Object 3, uh_type = Some USER_WINDOW, generation = 1\<rparr> # replicate 31 None,
     freelist = None, nb_handles = 1\<rparr>"

lemma one_window_ok: "users_ok [] one_window" "user_lookup one_window 0x10020 = Some (3, USER_WINDOW)"
proof -
  have e: "user_entry one_window i = (if i = 0 then Some \<lparr>uh_ptr = Object 3, uh_type = Some USER_WINDOW, generation = 1\<rparr> else None)" for i
    by (auto simp: user_entry_def one_window_def)
  show "users_ok [] one_window"
    unfolding users_ok_def by (auto simp: e user_ok_def) (simp_all add: one_window_def allocated_handles_def)
  have "handle_index 0x10020 = 0" by (simp add: handle_index_def)
  then show "user_lookup one_window 0x10020 = Some (3, USER_WINDOW)"
    by (simp add: user_lookup_def e meaning_def entry_to_handle_def)
qed


text \<open>
  C28: over any sequence of allocations and releases the handles in use are distinct, each names
  the object it was allocated for, and a handle that has been freed and not given out again
  names nothing, even when its entry has been used again.
\<close>

theorem no_stale_user_handle:
  assumes "us.run s0 calls live s" "users_ok q s0" "user_lookup s0 = (\<lambda>_. None)"
  shows "distinct (map fst live) \<and> (\<forall>h p ty. \<not> truncated h \<longrightarrow> even (uint h) \<longrightarrow>
    (get_user_object h ty s = Some (Some p) \<longleftrightarrow> (\<exists>o1. p = Object o1 \<and> (h, (o1, ty)) \<in> set live)))"
proof -
  have r: "(\<exists>q. users_ok q s) \<and> distinct (map fst live) \<and> user_lookup s = map_of live"
    by (rule us.run_refines [OF assms(1)]) (use assms(2,3) in blast)+
  then obtain q' where ok: "users_ok q' s" by blast
  have mem: "(h, x) \<in> set live \<longleftrightarrow> map_of live h = Some x" for h x
    using r by simp
  show ?thesis
  proof (intro conjI allI impI)
    fix h p ty assume "\<not> truncated h" "even (uint h)"
    from get_user_object_ok [OF ok this, of ty]
    show "get_user_object h ty s = Some (Some p) \<longleftrightarrow> (\<exists>o1. p = Object o1 \<and> (h, (o1, ty)) \<in> set live)"
      unfolding mem using r by (cases "map_of live h") (auto split: if_splits)
  qed (use r in blast)
qed

definition no_users :: users where
  "no_users = \<lparr>current = None, global_error = 0, thread_error = \<lambda>_. 0, mem_oracle = [],
     user_handles = [], freelist = None, nb_handles = 0\<rparr>"

lemma no_users_ok: "users_ok [] no_users" "user_lookup no_users = (\<lambda>_. None)"
proof -
  have "user_entry no_users i = None" for i by (auto simp: user_entry_def no_users_def)
  then show "user_lookup no_users = (\<lambda>_. None)" by (simp add: user_lookup_def meaning_def fun_eq_iff)
  show "users_ok [] no_users" by (simp add: users_ok_def no_users_def allocated_handles_def)
qed

theorem no_stale_user_handle_witness:
  "\<exists>s h. us.run no_users [Alloc (3, USER_WINDOW)] [(h, (3, USER_WINDOW))] s \<and>
    get_user_object h USER_WINDOW s = Some (Some (Object 3)) \<and> get_user_object 0x20020 USER_WINDOW s = Some None"
proof -
  obtain s1 where s1: "alloc_user_handle 3 USER_WINDOW no_users = Some (0x10020, s1)"
    by (simp add: alloc_user_handle_def alloc_user_entry_def no_users_def allocated_handles_def write_user_def
        read_user_def write_at_def read_at_def entry_to_handle_def Let_def)
  have "us.run no_users ([] @ [Alloc (3, USER_WINDOW)]) ([] @ [(0x10020, (3, USER_WINDOW))]) s1"
    by (rule us.run.allocated [OF us.run.start]) (simp_all add: s1)
  then have r: "us.run no_users [Alloc (3, USER_WINDOW)] [(0x10020, (3, USER_WINDOW))] s1" by simp
  note stale = no_stale_user_handle [OF r no_users_ok]
  have h: "\<not> truncated 0x10020" "even (uint (0x10020 :: 32 word))" "\<not> truncated 0x20020" "even (uint (0x20020 :: 32 word))"
    by (simp_all add: truncated_def)
  have "get_user_object 0x10020 USER_WINDOW s1 = Some (Some (Object 3))" using stale h(1,2) by simp
  moreover have "get_user_object 0x20020 USER_WINDOW s1 \<noteq> Some (Some x)" for x using stale h(3,4) by simp
  moreover obtain q where "users_ok q s1" "user_lookup s1 = map_of [(0x10020, (3, USER_WINDOW))]"
    using us.run_refines [OF r] no_users_ok by blast
  ultimately show ?thesis using r get_user_object_ok [of q s1 "0x20020" USER_WINDOW] h(3,4) by auto
qed

text \<open>
  C30: \<^verbatim>\<open>next_user_handle\<close> enumerates the objects of a type: called with 0 or with a handle it returns
  the object in use of that type with the next greater index, and nothing when there is none.
\<close>

theorem next_user_handle_correct:
  assumes ok: "users_ok q s" and h: "h = 0 \<or> user_lookup s h \<noteq> None"
  shows "let first = (if h = 0 then 0 else handle_index h + 1) in
    (\<exists>p g. next_user_handle h (Some ty) s = Some (Some (Object p), Some g) \<and> user_lookup s g = Some (p, ty) \<and>
       first \<le> handle_index g \<and>
       (\<forall>k x. user_lookup s k = Some (x, ty) \<longrightarrow> first \<le> handle_index k \<longrightarrow> handle_index g \<le> handle_index k)) \<or>
    next_user_handle h (Some ty) s = Some (None, None) \<and>
       (\<forall>k x. user_lookup s k = Some (x, ty) \<longrightarrow> handle_index k < first)"
proof -
  define first where "first = (if h = 0 then 0 else handle_index h + 1)"
  have range: "0 \<le> handle_index k \<and> handle_index k < nb_handles s \<and> (\<exists>e. user_entry s (handle_index k) = Some e \<and> uh_type e = Some t)"
    if k: "user_lookup s k = Some (x, t)" for k x t
  proof -
    obtain e where "user_entry s (handle_index k) = Some e" "uh_type e = Some t" by (rule user_lookup_Some [OF ok k]) blast
    then show ?thesis using user_entry_range [of s "handle_index k"] by auto
  qed
  have f: "0 \<le> first" "first + int (nat (nb_handles s - first)) = nb_handles s"
    using h range users_okD(1) [OF ok] by (fastforce simp: first_def)+
  have run: "next_user_handle h (Some ty) s = next_user_entry (nat (nb_handles s - first)) first (Some ty) s"
  proof (cases "h = 0")
    case False
    then obtain x t where "user_lookup s h = Some (x, t)" using h by auto
    from range [OF this] False show ?thesis by (auto simp: next_user_handle_def first_def Let_def)
  qed (simp add: next_user_handle_def first_def)
  show ?thesis
    unfolding Let_def first_def [symmetric] run
    using next_user_entry_ok [OF ok f, of ty]
  proof (elim disjE exE conjE)
    fix j e p
    assume j: "first \<le> j" "user_entry s j = Some e" "uh_type e = Some ty" "uh_ptr e = Object p"
      "next_user_entry (nat (nb_handles s - first)) first (Some ty) s = Some (Some (Object p), Some (entry_to_handle j e))"
      "\<forall>k e. first \<le> k \<longrightarrow> k < j \<longrightarrow> user_entry s k = Some e \<longrightarrow> uh_type e \<noteq> Some ty"
    have r: "0 \<le> j" "j < 0x7fe8" using user_entry_range [of s j] j(2) users_okD(2,3) [OF ok] by simp_all
    have look: "user_lookup s (entry_to_handle j e) = Some (p, ty)"
      using j(2-4) entry_to_handle_parts(1) [OF r, of e] by (simp add: user_lookup_def meaning_def)
    have "handle_index (entry_to_handle j e) \<le> handle_index k"
      if "user_lookup s k = Some (x, ty)" "first \<le> handle_index k" for k x
      using range [OF that(1)] j(6) that(2) entry_to_handle_parts(1) [OF r, of e] by (cases "j \<le> handle_index k") auto
    then show "(\<exists>p g. next_user_entry (nat (nb_handles s - first)) first (Some ty) s = Some (Some (Object p), Some g) \<and>
        user_lookup s g = Some (p, ty) \<and> first \<le> handle_index g \<and>
        (\<forall>k x. user_lookup s k = Some (x, ty) \<longrightarrow> first \<le> handle_index k \<longrightarrow> handle_index g \<le> handle_index k)) \<or>
      next_user_entry (nat (nb_handles s - first)) first (Some ty) s = Some (None, None) \<and>
        (\<forall>k x. user_lookup s k = Some (x, ty) \<longrightarrow> handle_index k < first)"
      using j(1,5) look entry_to_handle_parts(1) [OF r, of e] by auto
  next
    assume "next_user_entry (nat (nb_handles s - first)) first (Some ty) s = Some (None, None)"
      "\<forall>k e. first \<le> k \<longrightarrow> user_entry s k = Some e \<longrightarrow> uh_type e \<noteq> Some ty"
    then show "(\<exists>p g. next_user_entry (nat (nb_handles s - first)) first (Some ty) s = Some (Some (Object p), Some g) \<and>
        user_lookup s g = Some (p, ty) \<and> first \<le> handle_index g \<and>
        (\<forall>k x. user_lookup s k = Some (x, ty) \<longrightarrow> first \<le> handle_index k \<longrightarrow> handle_index g \<le> handle_index k)) \<or>
      next_user_entry (nat (nb_handles s - first)) first (Some ty) s = Some (None, None) \<and>
        (\<forall>k x. user_lookup s k = Some (x, ty) \<longrightarrow> handle_index k < first)"
      using range by (meson not_le)
  qed
qed

theorem next_user_handle_correct_witness:
  "(\<exists>p g. next_user_handle 0 (Some USER_WINDOW) one_window = Some (Some (Object p), Some g) \<and>
     user_lookup one_window g = Some (p, USER_WINDOW)) \<and>
   next_user_handle 0x10020 (Some USER_WINDOW) one_window = Some (None, None)"
proof -
  have i: "handle_index 0x10020 = 0" by (simp add: handle_index_def)
  have none: "handle_index k < 1" if "user_lookup one_window k = Some (x, t)" for k x t
  proof -
    have "user_entry one_window (handle_index k) \<noteq> None"
      using that by (cases "user_entry one_window (handle_index k)") (simp_all add: user_lookup_def meaning_None)
    then show ?thesis using user_entry_range [of one_window "handle_index k"] by (simp add: one_window_def)
  qed
  have ne: "next_user_handle 0 (Some USER_WINDOW) one_window \<noteq> Some (None, None)"
    by (simp add: next_user_handle_def one_window_def read_user_def read_at_def)
  have "\<exists>p g. next_user_handle 0 (Some USER_WINDOW) one_window = Some (Some (Object p), Some g) \<and>
     user_lookup one_window g = Some (p, USER_WINDOW)"
    using next_user_handle_correct [OF one_window_ok(1), of 0 USER_WINDOW] ne unfolding Let_def by blast
  moreover have "user_lookup one_window 0x10020 \<noteq> None" using one_window_ok(2) by simp
  note nx = next_user_handle_correct [OF one_window_ok(1) disjI2 [OF this], of USER_WINDOW, unfolded Let_def]
  have "next_user_handle 0x10020 (Some USER_WINDOW) one_window = Some (None, None)"
  proof (rule ccontr)
    assume "next_user_handle 0x10020 (Some USER_WINDOW) one_window \<noteq> Some (None, None)"
    then obtain p g where "user_lookup one_window g = Some (p, USER_WINDOW)"
      "(if 0x10020 = (0 :: 32 word) then 0 else handle_index 0x10020 + 1) \<le> handle_index g"
      using nx by blast
    then show False using none i by fastforce
  qed
  ultimately show ?thesis by blast
qed

end
