(* ===== verification/Atoms.thy ===== *)
theory Atoms
  imports Prelude
begin

text \<open>
  Atom tables (\<^verbatim>\<open>atom.c\<close>): reference-counted strings that are found by their number through an array
  and by their text, case ignored, through a hash table.
\<close>

subsection \<open>The code\<close>

type_synonym wchar = "16 word"

text \<open>
  An entry is addressed by a number; \<open>at_entry\<close> maps the addresses in use to the entries.
  \<open>at_handles\<close> is the array of handles as it has been allocated; only the slots up to \<open>at_last\<close> have been
  stored into.  A hash chain is the list of the addresses linked in it.  The case maps are
  tables of \<^verbatim>\<open>libs/wine/casemap.c\<close>.
\<close>

record atom_entry =
  ae_count :: int
  ae_pinned :: bool
  ae_atom :: "16 word"
  ae_hash :: nat
  ae_str :: "wchar list"

record atoms = env +
  at_last :: int
  at_handles :: "nat option list"
  at_chains :: "nat list list"
  at_entry :: "nat \<Rightarrow> atom_entry option"
  at_next :: nat
  lowerW :: "wchar \<Rightarrow> wchar"
  upperW :: "wchar \<Rightarrow> wchar"

abbreviation "HASH_SIZE \<equiv> (37 :: int)"
abbreviation "MIN_HASH_SIZE \<equiv> (4 :: int)"
abbreviation "MAX_HASH_SIZE \<equiv> (0x200 :: int)"
abbreviation "MAX_ATOM_LEN \<equiv> (255 :: nat)"
abbreviation "MIN_STR_ATOM \<equiv> (0xc000 :: int)"
abbreviation "MAX_ATOMS \<equiv> (0x4000 :: int)"

definition at_count :: "atoms \<Rightarrow> int" where
  "at_count s = int (length (at_handles s))"

text \<open>
  \<open>s\<close> holds the environment the new table is allocated in; its other fields are not looked at.  When
  the hash chains cannot be allocated the table is released before its array of handles has been
  set: \<^verbatim>\<open>atom_table_destroy\<close> then reads and frees uninitialised pointers.
\<close>

definition create_table :: "int \<Rightarrow> atoms \<Rightarrow> (bool \<times> atoms) option" where
  "create_table entries_count s =
     (case mem_alloc s of (ok, s) \<Rightarrow>
        if \<not> ok then Some (False, s) else
        let n = (if entries_count < MIN_HASH_SIZE \<or> entries_count > MAX_HASH_SIZE then HASH_SIZE else entries_count) in
        case malloc s of (ok, s) \<Rightarrow>
          if \<not> ok then None
          else case mem_alloc s of (ok, s) \<Rightarrow>
            if \<not> ok then Some (False, s)
            else Some (True, s\<lparr>at_last := -1, at_handles := replicate 64 None, at_chains := replicate (nat n) [],
                              at_entry := \<lambda>_. None\<rparr>))"

text \<open>A slot of the array of handles, undefined behind the last one.\<close>

definition read_slot :: "int \<Rightarrow> atoms \<Rightarrow> nat option option" where
  "read_slot i s = read_at (take (nat (at_last s + 1)) (at_handles s)) i"

definition get_atom_entry :: "16 word \<Rightarrow> atoms \<Rightarrow> (nat option \<times> atoms) option" where
  "get_atom_entry atom s =
     do { entry \<leftarrow> (if uint atom \<ge> MIN_STR_ATOM \<and> uint atom \<le> MIN_STR_ATOM + at_last s
                    then read_slot (uint atom - MIN_STR_ATOM) s else Some None);
          Some (entry, if entry = None then set_error STATUS_INVALID_HANDLE s else s) }"

text \<open>The first empty slot from \<open>i\<close> on, or the one behind the last.\<close>

function free_slot_from :: "int \<Rightarrow> atoms \<Rightarrow> int option" where
  "free_slot_from i s =
     (if i \<le> at_last s
      then do { e \<leftarrow> read_slot i s; if e = None then Some i else free_slot_from (i + 1) s }
      else Some i)"
  by pat_completeness auto
termination by (relation "measure (\<lambda>(i, s). nat (at_last s + 1 - i))") auto

declare free_slot_from.simps [simp del]

definition add_atom_entry :: "nat \<Rightarrow> atom_entry \<Rightarrow> atoms \<Rightarrow> (16 word \<times> atoms) option" where
  "add_atom_entry p entry s =
     do { i \<leftarrow> free_slot_from 0 s;
          (ok, s) \<leftarrow> (if i \<le> at_last s then Some (True, s)
            else if i = at_count s then
              (let new_size = min (at_count s + at_count s div 2) MAX_ATOMS in
               if new_size > at_count s
               then case malloc s of (ok, s) \<Rightarrow>
                 if ok then Some (True, s\<lparr>at_handles := at_handles s @ replicate (nat (new_size - at_count s)) None, at_last := i\<rparr>)
                 else Some (False, set_error STATUS_NO_MEMORY s)
               else Some (False, set_error STATUS_NO_MEMORY s))
            else Some (True, s\<lparr>at_last := i\<rparr>));
          if \<not> ok then Some (0, s) else do {
          hs \<leftarrow> write_at (at_handles s) i (Some p);
          let atom = word_of_int (i + MIN_STR_ATOM);
          Some (atom, s\<lparr>at_handles := hs, at_entry := (at_entry s)(p \<mapsto> entry\<lparr>ae_atom := atom\<rparr>)\<rparr>) } }"

fun atom_hash_from :: "(wchar \<Rightarrow> wchar) \<Rightarrow> wchar list \<Rightarrow> 16 word \<Rightarrow> 16 word \<Rightarrow> 16 word" where
  "atom_hash_from up [] i h = h"
| "atom_hash_from up (c # cs) i h = atom_hash_from up cs (i + 1) (h XOR (up c + i))"

definition atom_hash :: "wchar list \<Rightarrow> atoms \<Rightarrow> nat" where
  "atom_hash str s = unat (atom_hash_from (upperW s) str 0 0) mod length (at_chains s)"

text \<open>\<^verbatim>\<open>memicmpW\<close>: are the strings of the same length equal but for the case?\<close>

definition same_text :: "(wchar \<Rightarrow> wchar) \<Rightarrow> wchar list \<Rightarrow> wchar list \<Rightarrow> bool" where
  "same_text low a b \<longleftrightarrow> map low a = map low b"

fun find_in_chain :: "nat list \<Rightarrow> wchar list \<Rightarrow> atoms \<Rightarrow> nat option option" where
  "find_in_chain [] str s = Some None"
| "find_in_chain (p # ps) str s =
     do { e \<leftarrow> at_entry s p;
          if length (ae_str e) = length str \<and> same_text (lowerW s) (ae_str e) str then Some (Some p)
          else find_in_chain ps str s }"

definition find_atom_entry :: "wchar list \<Rightarrow> nat \<Rightarrow> atoms \<Rightarrow> nat option option" where
  "find_atom_entry str hash s = do { chain \<leftarrow> read_at (at_chains s) (int hash); find_in_chain chain str s }"

definition set_entry :: "nat \<Rightarrow> atom_entry \<Rightarrow> atoms \<Rightarrow> atoms" where
  "set_entry p e s = s\<lparr>at_entry := (at_entry s)(p \<mapsto> e)\<rparr>"

text \<open>The reference count is an \<^verbatim>\<open>int\<close>.\<close>

definition count_up :: "nat \<Rightarrow> atoms \<Rightarrow> (16 word \<times> atoms) option" where
  "count_up p s = do { e \<leftarrow> at_entry s p;
     if int32_ok (ae_count e + 1) then Some (ae_atom e, set_entry p (e\<lparr>ae_count := ae_count e + 1\<rparr>) s) else None }"

definition add_atom :: "wchar list \<Rightarrow> atoms \<Rightarrow> (16 word \<times> atoms) option" where
  "add_atom str s =
     (let hash = atom_hash str s in
      if str = [] then Some (0, set_error STATUS_OBJECT_NAME_INVALID s)
      else if length str > MAX_ATOM_LEN then Some (0, set_error STATUS_INVALID_PARAMETER s)
      else do {
        found \<leftarrow> find_atom_entry str hash s;
        case found of Some p \<Rightarrow> count_up p s
        | None \<Rightarrow>
            (case mem_alloc s of (ok, s) \<Rightarrow>
               if \<not> ok then Some (0, set_error STATUS_NO_MEMORY s) else
               let p = at_next s in do {
               (atom, s) \<leftarrow> add_atom_entry p \<lparr>ae_count = 1, ae_pinned = False, ae_atom = 0, ae_hash = hash, ae_str = str\<rparr>
                              (s\<lparr>at_next := p + 1\<rparr>);
               if atom = 0 then Some (0, s) else do {
               chain \<leftarrow> read_at (at_chains s) (int hash);
               chains \<leftarrow> write_at (at_chains s) (int hash) (p # chain);
               Some (atom, s\<lparr>at_chains := chains\<rparr>) } }) })"

text \<open>Unlinking an entry from its chain and its slot, and freeing it.\<close>

definition unlink_atom :: "nat \<Rightarrow> int \<Rightarrow> atoms \<Rightarrow> atoms option" where
  "unlink_atom p i s =
     do { e \<leftarrow> at_entry s p;
          chain \<leftarrow> read_at (at_chains s) (int (ae_hash e));
          if p \<notin> set chain then None else do {
          chains \<leftarrow> write_at (at_chains s) (int (ae_hash e)) (remove1 p chain);
          hs \<leftarrow> write_at (at_handles s) i None;
          Some (s\<lparr>at_chains := chains, at_handles := hs, at_entry := (at_entry s)(p := None)\<rparr>) } }"

definition delete_atom :: "16 word \<Rightarrow> bool \<Rightarrow> atoms \<Rightarrow> atoms option" where
  "delete_atom atom if_pinned s =
     do { (entry, s) \<leftarrow> get_atom_entry atom s;
          case entry of None \<Rightarrow> Some s
          | Some p \<Rightarrow> do {
              e \<leftarrow> at_entry s p;
              if ae_pinned e \<and> \<not> if_pinned then Some (set_error STATUS_WAS_LOCKED s)
              else if ae_count e - 1 = 0 then unlink_atom p (uint atom - MIN_STR_ATOM) s
              else Some (set_entry p (e\<lparr>ae_count := ae_count e - 1\<rparr>) s) } }"

definition find_atom :: "wchar list \<Rightarrow> atoms \<Rightarrow> (16 word \<times> atoms) option" where
  "find_atom str s =
     (if str = [] then Some (0, set_error STATUS_OBJECT_NAME_INVALID s)
      else if length str > MAX_ATOM_LEN then Some (0, set_error STATUS_INVALID_PARAMETER s)
      else do {
        found \<leftarrow> find_atom_entry str (atom_hash str s) s;
        case found of Some p \<Rightarrow> do { e \<leftarrow> at_entry s p; Some (ae_atom e, s) }
        | None \<Rightarrow> Some (0, set_error STATUS_OBJECT_NAME_NOT_FOUND s) })"

text \<open>The functions for window properties, on the global table that exists.\<close>

definition find_global_atom :: "wchar list \<Rightarrow> atoms \<Rightarrow> 16 word option" where
  "find_global_atom str s =
     (if str = [] \<or> length str > MAX_ATOM_LEN then Some 0
      else do {
        found \<leftarrow> find_atom_entry str (atom_hash str s) s;
        case found of Some p \<Rightarrow> do { e \<leftarrow> at_entry s p; Some (ae_atom e) } | None \<Rightarrow> Some 0 })"

definition grab_global_atom :: "16 word \<Rightarrow> atoms \<Rightarrow> (bool \<times> atoms) option" where
  "grab_global_atom atom s =
     (if uint atom \<ge> MIN_STR_ATOM then do {
        (entry, s) \<leftarrow> get_atom_entry atom s;
        case entry of None \<Rightarrow> Some (False, s) | Some p \<Rightarrow> do { (_, s) \<leftarrow> count_up p s; Some (True, s) } }
      else Some (True, s))"

definition release_global_atom :: "16 word \<Rightarrow> atoms \<Rightarrow> atoms option" where
  "release_global_atom atom s = (if uint atom \<ge> MIN_STR_ATOM then delete_atom atom True s else Some s)"

text \<open>
  What the requests do with the table of their handle: its text, the whole characters that fit, the reference
  count, pinned or not, and the length in bytes.
\<close>

definition get_atom_information :: "16 word \<Rightarrow> nat \<Rightarrow> atoms \<Rightarrow> ((wchar list \<times> int \<times> bool \<times> nat) option \<times> atoms) option" where
  "get_atom_information atom max_size s =
     do { (entry, s) \<leftarrow> get_atom_entry atom s;
          case entry of None \<Rightarrow> Some (None, s)
          | Some p \<Rightarrow> do {
              e \<leftarrow> at_entry s p;
              let len = 2 * length (ae_str e);
              case (if max_size = 0 then ([], s) else set_reply_data (take (min len max_size div 2) (ae_str e)) s) of
                (text, s) \<Rightarrow> Some (Some (text, ae_count e, ae_pinned e, len), s) } }"

definition set_atom_information :: "16 word \<Rightarrow> bool \<Rightarrow> atoms \<Rightarrow> atoms option" where
  "set_atom_information atom pin s =
     do { (entry, s) \<leftarrow> get_atom_entry atom s;
          case entry of None \<Rightarrow> Some s
          | Some p \<Rightarrow> do { e \<leftarrow> at_entry s p; Some (if pin then set_entry p (e\<lparr>ae_pinned := True\<rparr>) s else s) } }"

lemma unlink_atom_last: "unlink_atom p i s = Some s' \<Longrightarrow> at_last s' = at_last s"
  by (auto simp: unlink_atom_def split: bind_splits if_splits)

text \<open>The loop of the request \<^verbatim>\<open>empty_atom_table\<close> over the slots from \<open>i\<close> on.\<close>

function empty_from :: "int \<Rightarrow> bool \<Rightarrow> atoms \<Rightarrow> atoms option" where
  "empty_from i if_pinned s =
     (if i \<le> at_last s then do {
        slot \<leftarrow> read_slot i s;
        case slot of None \<Rightarrow> empty_from (i + 1) if_pinned s
        | Some p \<Rightarrow> do {
            e \<leftarrow> at_entry s p;
            if \<not> ae_pinned e \<or> if_pinned
            then (case unlink_atom p i s of None \<Rightarrow> None | Some s' \<Rightarrow> empty_from (i + 1) if_pinned s')
            else empty_from (i + 1) if_pinned s } }
      else Some s)"
  by pat_completeness auto
termination by (relation "measure (\<lambda>(i, b, s). nat (at_last s + 1 - i))") (auto dest: unlink_atom_last)

declare empty_from.simps [simp del]

definition empty_atom_table :: "bool \<Rightarrow> atoms \<Rightarrow> atoms option" where
  "empty_atom_table if_pinned s = empty_from 0 if_pinned s"

subsection \<open>The invariant\<close>

definition slot :: "atoms \<Rightarrow> int \<Rightarrow> nat option" where
  "slot s i = (if 0 \<le> i \<and> i \<le> at_last s then at_handles s ! nat i else None)"

text \<open>Characters that differ in case only have the same upper case: what the hash relies on.\<close>

definition case_maps_agree :: "(wchar \<Rightarrow> wchar) \<Rightarrow> (wchar \<Rightarrow> wchar) \<Rightarrow> bool" where
  "case_maps_agree low up \<longleftrightarrow> (\<forall>c d. low c = low d \<longrightarrow> up c = up d)"

definition entry_ok :: "atoms \<Rightarrow> nat \<Rightarrow> atom_entry \<Rightarrow> bool" where
  "entry_ok s p e \<longleftrightarrow> slot s (uint (ae_atom e) - MIN_STR_ATOM) = Some p \<and> ae_hash e = atom_hash (ae_str e) s \<and>
     p \<in> set (at_chains s ! ae_hash e) \<and> 0 < ae_count e \<and> ae_count e \<le> INT_MAX \<and>
     ae_str e \<noteq> [] \<and> length (ae_str e) \<le> MAX_ATOM_LEN"

definition atoms_ok :: "atoms \<Rightarrow> bool" where
  "atoms_ok s \<longleftrightarrow> -1 \<le> at_last s \<and> at_last s < at_count s \<and> 2 \<le> at_count s \<and> at_count s \<le> MAX_ATOMS \<and> at_chains s \<noteq> [] \<and>
     (\<forall>p e. at_entry s p = Some e \<longrightarrow> p < at_next s \<and> entry_ok s p e) \<and>
     (\<forall>i p. slot s i = Some p \<longrightarrow> (\<exists>e. at_entry s p = Some e \<and> uint (ae_atom e) = i + MIN_STR_ATOM)) \<and>
     (\<forall>h < length (at_chains s). distinct (at_chains s ! h) \<and>
        (\<forall>p \<in> set (at_chains s ! h). \<exists>e. at_entry s p = Some e \<and> ae_hash e = h)) \<and>
     (\<forall>p q d e. at_entry s p = Some d \<longrightarrow> at_entry s q = Some e \<longrightarrow> same_text (lowerW s) (ae_str d) (ae_str e) \<longrightarrow> p = q)"

text \<open>The atoms of a table: what a number means.\<close>

definition atom_at :: "atoms \<Rightarrow> 16 word \<Rightarrow> atom_entry option" where
  "atom_at s a = do { p \<leftarrow> slot s (uint a - MIN_STR_ATOM); at_entry s p }"

lemma atoms_okD:
  assumes "atoms_ok s"
  shows "at_last s < at_count s" "at_count s \<le> MAX_ATOMS" "at_chains s \<noteq> []"
    "at_entry s p = Some e \<Longrightarrow> p < at_next s \<and> entry_ok s p e"
    "slot s i = Some p \<Longrightarrow> \<exists>e. at_entry s p = Some e \<and> uint (ae_atom e) = i + MIN_STR_ATOM"
    "h < length (at_chains s) \<Longrightarrow> distinct (at_chains s ! h)"
    "h < length (at_chains s) \<Longrightarrow> p \<in> set (at_chains s ! h) \<Longrightarrow> \<exists>e. at_entry s p = Some e \<and> ae_hash e = h"
    "at_entry s p = Some d \<Longrightarrow> at_entry s q = Some e \<Longrightarrow> same_text (lowerW s) (ae_str d) (ae_str e) \<Longrightarrow> p = q"
    "-1 \<le> at_last s"
  using assms unfolding atoms_ok_def by blast+

lemma read_slot_ok:
  assumes "atoms_ok s" "0 \<le> i" "i \<le> at_last s"
  shows "read_slot i s = Some (slot s i)"
  using assms by (auto simp: read_slot_def read_at_def slot_def atoms_ok_def at_count_def)

lemma get_atom_entry_ok:
  assumes "atoms_ok s"
  shows "get_atom_entry a s = Some (slot s (uint a - MIN_STR_ATOM),
    if slot s (uint a - MIN_STR_ATOM) = None then set_error STATUS_INVALID_HANDLE s else s)"
proof (cases "MIN_STR_ATOM \<le> uint a \<and> uint a \<le> MIN_STR_ATOM + at_last s")
  case True
  then have "read_slot (uint a - MIN_STR_ATOM) s = Some (slot s (uint a - MIN_STR_ATOM))"
    using read_slot_ok [OF assms] by simp
  then show ?thesis using True by (simp add: get_atom_entry_def)
next
  case False
  then have "slot s (uint a - MIN_STR_ATOM) = None" by (auto simp: slot_def)
  then show ?thesis using False by (auto simp: get_atom_entry_def)
qed

text \<open>A number in use determines its entry.\<close>

lemma slot_atom:
  assumes ok: "atoms_ok s" and p: "slot s (uint a - MIN_STR_ATOM) = Some p"
  obtains e where "at_entry s p = Some e" "ae_atom e = a" "atom_at s a = Some e"
proof -
  obtain e where e: "at_entry s p = Some e" "uint (ae_atom e) = uint a" using atoms_okD(5) [OF ok p] by auto
  then have "ae_atom e = a" by (simp add: word_uint_eq_iff)
  then show ?thesis using that e p by (simp add: atom_at_def)
qed

lemma entry_atom:
  assumes ok: "atoms_ok s" and e: "at_entry s p = Some e"
  shows "slot s (uint (ae_atom e) - MIN_STR_ATOM) = Some p" "atom_at s (ae_atom e) = Some e" "ae_atom e \<noteq> 0"
proof -
  show p: "slot s (uint (ae_atom e) - MIN_STR_ATOM) = Some p"
    using atoms_okD(4) [OF ok e] by (simp add: entry_ok_def)
  then show "atom_at s (ae_atom e) = Some e" using e by (simp add: atom_at_def)
  show "ae_atom e \<noteq> 0" using p by (auto simp: slot_def split: if_splits)
qed

lemma atom_at_Some:
  assumes ok: "atoms_ok s" and a: "atom_at s a = Some e"
  obtains p where "slot s (uint a - MIN_STR_ATOM) = Some p" "at_entry s p = Some e" "ae_atom e = a"
proof -
  obtain p where p: "slot s (uint a - MIN_STR_ATOM) = Some p" "at_entry s p = Some e"
    using a by (auto simp: atom_at_def split: bind_splits)
  obtain e' where "at_entry s p = Some e'" "ae_atom e' = a" by (rule slot_atom [OF ok p(1)])
  then show ?thesis using that p by simp
qed

subsection \<open>Finding\<close>

lemma hash_from_map: "atom_hash_from up str i h = atom_hash_from id (map up str) i h"
  by (induction str arbitrary: i h) simp_all

lemma same_text_hash:
  assumes "case_maps_agree (lowerW s) (upperW s)" "same_text (lowerW s) a b"
  shows "atom_hash a s = atom_hash b s"
proof -
  have "map (upperW s) a = map (upperW s) b" if "map (lowerW s) a = map (lowerW s) b" for a b
    using that
  proof (induction a arbitrary: b)
    case (Cons c a)
    then obtain d b' where b: "b = d # b'" "lowerW s c = lowerW s d" "map (lowerW s) a = map (lowerW s) b'" by (cases b) auto
    have "upperW s c = upperW s d" using assms(1) b(2) unfolding case_maps_agree_def by blast
    then show ?case using Cons.IH [OF b(3)] b(1) by simp
  qed simp
  from this [of a b] have "map (upperW s) a = map (upperW s) b" using assms(2) by (simp add: same_text_def)
  then show ?thesis unfolding atom_hash_def hash_from_map [of "upperW s"] by simp
qed

lemma same_text_sym: "same_text low a b \<Longrightarrow> same_text low b a"
  by (simp add: same_text_def)

lemma same_text_trans: "same_text low a b \<Longrightarrow> same_text low b c \<Longrightarrow> same_text low a c"
  by (simp add: same_text_def)

lemma same_text_length: "same_text low a b \<Longrightarrow> length a = length b"
  unfolding same_text_def by (metis length_map)

lemma find_in_chain_ok:
  assumes "\<forall>p \<in> set ps. at_entry s p \<noteq> None"
  shows "\<exists>r. find_in_chain ps str s = Some r \<and> (case r of
      None \<Rightarrow> \<forall>p \<in> set ps. \<forall>e. at_entry s p = Some e \<longrightarrow> \<not> same_text (lowerW s) (ae_str e) str
    | Some p \<Rightarrow> p \<in> set ps \<and> (\<exists>e. at_entry s p = Some e \<and> same_text (lowerW s) (ae_str e) str))"
  using assms
proof (induction ps)
  case (Cons p ps)
  then obtain e where e: "at_entry s p = Some e" by auto
  show ?case
  proof (cases "same_text (lowerW s) (ae_str e) str")
    case True
    then show ?thesis using e by (auto dest: same_text_length)
  next
    case False
    then have "find_in_chain (p # ps) str s = find_in_chain ps str s" using e by simp
    moreover obtain r where "find_in_chain ps str s = Some r" "case r of
      None \<Rightarrow> \<forall>p \<in> set ps. \<forall>e. at_entry s p = Some e \<longrightarrow> \<not> same_text (lowerW s) (ae_str e) str
    | Some p \<Rightarrow> p \<in> set ps \<and> (\<exists>e. at_entry s p = Some e \<and> same_text (lowerW s) (ae_str e) str)"
      using Cons by auto
    ultimately show ?thesis using e False by (intro exI [of _ r]) (cases r, auto)
  qed
qed simp

lemma atom_hash_bound: "at_chains s \<noteq> [] \<Longrightarrow> atom_hash str s < length (at_chains s)"
  by (simp add: atom_hash_def)

lemma find_atom_entry_ok:
  assumes ok: "atoms_ok s" and agree: "case_maps_agree (lowerW s) (upperW s)"
  shows "\<exists>r. find_atom_entry str (atom_hash str s) s = Some r \<and> (case r of
      None \<Rightarrow> \<forall>a e. atom_at s a = Some e \<longrightarrow> \<not> same_text (lowerW s) (ae_str e) str
    | Some p \<Rightarrow> \<exists>e. at_entry s p = Some e \<and> same_text (lowerW s) (ae_str e) str)"
proof -
  let ?h = "atom_hash str s"
  have h: "?h < length (at_chains s)" by (rule atom_hash_bound [OF atoms_okD(3) [OF ok]])
  then obtain r where r: "find_in_chain (at_chains s ! ?h) str s = Some r" "case r of
      None \<Rightarrow> \<forall>p \<in> set (at_chains s ! ?h). \<forall>e. at_entry s p = Some e \<longrightarrow> \<not> same_text (lowerW s) (ae_str e) str
    | Some p \<Rightarrow> p \<in> set (at_chains s ! ?h) \<and> (\<exists>e. at_entry s p = Some e \<and> same_text (lowerW s) (ae_str e) str)"
    using find_in_chain_ok [of "at_chains s ! ?h" s str] atoms_okD(7) [OF ok] by fastforce
  have "p \<in> set (at_chains s ! ?h)" if "at_entry s p = Some e" "same_text (lowerW s) (ae_str e) str" for p e
    using atoms_okD(4) [OF ok that(1)] same_text_hash [OF agree that(2)] unfolding entry_ok_def by metis
  then have "case r of
      None \<Rightarrow> \<forall>a e. atom_at s a = Some e \<longrightarrow> \<not> same_text (lowerW s) (ae_str e) str
    | Some p \<Rightarrow> \<exists>e. at_entry s p = Some e \<and> same_text (lowerW s) (ae_str e) str"
    using r(2) by (auto simp: atom_at_def split: option.splits bind_splits)
  then show ?thesis using r(1) h by (auto simp: find_atom_entry_def read_at_def)
qed

subsection \<open>Changing an entry\<close>

lemma atoms_cong:
  assumes "at_last s' = at_last s" "at_handles s' = at_handles s" "at_chains s' = at_chains s" "at_entry s' = at_entry s"
    "lowerW s' = lowerW s" "upperW s' = upperW s" "at_next s \<le> at_next s'"
  shows "atom_at s' = atom_at s" "atoms_ok s \<Longrightarrow> atoms_ok s'"
proof -
  have same: "slot s' = slot s" "atom_hash str s' = atom_hash str s" "at_count s' = at_count s" for str
    using assms by (auto simp: slot_def atom_hash_def at_count_def intro: ext)
  then have e: "entry_ok s' p e \<longleftrightarrow> entry_ok s p e" for p e using assms by (simp add: entry_ok_def)
  show "atom_at s' = atom_at s" using assms same by (simp add: atom_at_def fun_eq_iff)
  assume "atoms_ok s"
  moreover have "p < at_next s \<Longrightarrow> p < at_next s'" for p using assms(7) by simp
  ultimately show "atoms_ok s'" unfolding atoms_ok_def same assms(1,3-6) e by blast
qed

lemma atoms_ok_env [simp]:
  "atoms_ok s \<Longrightarrow> atoms_ok (set_error e s)" "atoms_ok s \<Longrightarrow> atoms_ok (s\<lparr>mem_oracle := m\<rparr>)"
  "atoms_ok s \<Longrightarrow> at_next s \<le> n \<Longrightarrow> atoms_ok (s\<lparr>at_next := n\<rparr>)" "atom_at (set_error e s) = atom_at s"
  by (rule atoms_cong; simp add: set_error_def)+

lemma set_entry_ok:
  assumes ok: "atoms_ok s" and e: "at_entry s p = Some e"
    and e': "ae_atom e' = ae_atom e" "ae_hash e' = ae_hash e" "ae_str e' = ae_str e" "0 < ae_count e'" "ae_count e' \<le> INT_MAX"
  shows "atoms_ok (set_entry p e' s)" "atom_at (set_entry p e' s) = (atom_at s)(ae_atom e \<mapsto> e')"
proof -
  let ?s = "set_entry p e' s"
  have same: "slot ?s = slot s" "atom_hash str ?s = atom_hash str s" "at_chains ?s = at_chains s" for str
    by (simp_all add: set_entry_def slot_def atom_hash_def fun_eq_iff)
  have ok_e: "entry_ok ?s q d \<longleftrightarrow> entry_ok s q d" for q d by (simp add: entry_ok_def same)
  have "entry_ok s p e'" using atoms_okD(4) [OF ok e] e' by (auto simp: entry_ok_def)
  then have one: "at_entry ?s q = Some d \<Longrightarrow> q < at_next ?s \<and> entry_ok ?s q d" for q d
    using atoms_okD(4) [OF ok, of q d] atoms_okD(4) [OF ok e] unfolding ok_e by (auto simp: set_entry_def split: if_splits)
  have old: "\<exists>d'. at_entry s q = Some d' \<and> ae_atom d' = ae_atom d \<and> ae_hash d' = ae_hash d \<and> ae_str d' = ae_str d"
    if "at_entry ?s q = Some d" for q d
    using that e e' by (auto simp: set_entry_def split: if_splits)
  have new: "\<exists>d'. at_entry ?s q = Some d' \<and> ae_atom d' = ae_atom d \<and> ae_hash d' = ae_hash d"
    if "at_entry s q = Some d" for q d
    using that e e' by (auto simp: set_entry_def)
  have fields: "at_last ?s = at_last s" "at_count ?s = at_count s" "lowerW ?s = lowerW s"
    by (simp_all add: set_entry_def at_count_def)
  show "atoms_ok ?s"
    unfolding atoms_ok_def fields same
  proof (intro conjI allI impI ballI)
    show "-1 \<le> at_last s" "at_last s < at_count s" "2 \<le> at_count s" "at_count s \<le> MAX_ATOMS" "at_chains s \<noteq> []" using ok by (simp_all add: atoms_ok_def)
  next
    fix q d assume "at_entry ?s q = Some d"
    then show "q < at_next ?s" "entry_ok ?s q d" using one by blast+
  next
    fix i q assume "slot s i = Some q"
    then obtain d where "at_entry s q = Some d" "uint (ae_atom d) = i + MIN_STR_ATOM" using atoms_okD(5) [OF ok] by blast
    then show "\<exists>d. at_entry ?s q = Some d \<and> uint (ae_atom d) = i + MIN_STR_ATOM" using new by metis
  next
    fix h assume h: "h < length (at_chains s)"
    then show "distinct (at_chains s ! h)" by (rule atoms_okD(6) [OF ok])
    fix q assume "q \<in> set (at_chains s ! h)"
    then obtain d where "at_entry s q = Some d" "ae_hash d = h" using atoms_okD(7) [OF ok h] by blast
    then show "\<exists>d. at_entry ?s q = Some d \<and> ae_hash d = h" using new by metis
  next
    fix q r d f assume "at_entry ?s q = Some d" "at_entry ?s r = Some f" "same_text (lowerW s) (ae_str d) (ae_str f)"
    then show "q = r" using old atoms_okD(8) [OF ok] by metis
  qed
  show "atom_at ?s = (atom_at s)(ae_atom e \<mapsto> e')"
  proof
    fix a
    show "atom_at ?s a = ((atom_at s)(ae_atom e \<mapsto> e')) a"
    proof (cases "slot s (uint a - MIN_STR_ATOM)")
      case None
      moreover from this have "a \<noteq> ae_atom e" using entry_atom(1) [OF ok e] by auto
      ultimately show ?thesis by (simp add: atom_at_def same)
    next
      case (Some q)
      obtain d where d: "at_entry s q = Some d" "ae_atom d = a" "atom_at s a = Some d" by (rule slot_atom [OF ok Some])
      have "q = p \<longleftrightarrow> a = ae_atom e" using entry_atom(1) [OF ok e] d e Some by auto
      then show ?thesis unfolding atom_at_def same using Some d by (auto simp: set_entry_def)
    qed
  qed
qed

subsection \<open>Unlinking an entry\<close>

lemma unlink_atom_ok:
  assumes ok: "atoms_ok s" and p: "slot s i = Some p" and i: "i = uint a - MIN_STR_ATOM"
  shows "\<exists>s'. unlink_atom p i s = Some s' \<and> atoms_ok s' \<and> atom_at s' = (atom_at s)(a := None) \<and> at_last s' = at_last s \<and>
    lowerW s' = lowerW s \<and> upperW s' = upperW s \<and> get_error s' = get_error s \<and> (\<forall>j. slot s' j = (if j = i then None else slot s j))"
proof -
  obtain e where e: "at_entry s p = Some e" "ae_atom e = a" by (rule slot_atom [OF ok p [unfolded i]])
  let ?h = "ae_hash e"
  have eok: "entry_ok s p e" "p < at_next s" using atoms_okD(4) [OF ok e(1)] by simp_all
  have h: "?h < length (at_chains s)" using eok atom_hash_bound [OF atoms_okD(3) [OF ok]] by (simp add: entry_ok_def)
  have hp: "p \<in> set (at_chains s ! ?h)" using eok(1) unfolding entry_ok_def by blast
  have r: "0 \<le> i" "i \<le> at_last s" "nat i < length (at_handles s)" "at_handles s ! nat i = Some p"
    using p atoms_okD(1) [OF ok] by (auto simp: slot_def at_count_def split: if_splits)
  let ?s = "s\<lparr>at_chains := (at_chains s)[?h := remove1 p (at_chains s ! ?h)], at_handles := (at_handles s)[nat i := None],
    at_entry := (at_entry s)(p := None)\<rparr>"
  have run: "unlink_atom p i s = Some ?s"
    using e(1) h hp r by (simp add: unlink_atom_def read_at_def write_at_def nat_less_iff)
  have slot: "slot ?s j = (if j = i then None else slot s j)" for j
    using r by (auto simp: slot_def nth_list_update nat_eq_iff)
  have hash: "atom_hash str ?s = atom_hash str s" for str by (simp add: atom_hash_def)
  have only: "slot s j = Some p \<Longrightarrow> j = i" for j
    using atoms_okD(5) [OF ok, of j p] atoms_okD(5) [OF ok p] by auto
  have chain: "set (at_chains ?s ! k) = set (at_chains s ! k) - {p}" if "k < length (at_chains s)" for k
  proof (cases "k = ?h")
    case True
    then show ?thesis using h atoms_okD(6) [OF ok h] by simp
  next
    case False
    then have "p \<notin> set (at_chains s ! k)" using atoms_okD(7) [OF ok that, of p] e(1) by auto
    then show ?thesis using False by simp
  qed
  have "atoms_ok ?s"
    unfolding atoms_ok_def
  proof (intro conjI allI impI ballI)
    show "-1 \<le> at_last ?s" "at_last ?s < at_count ?s" "2 \<le> at_count ?s" "at_count ?s \<le> MAX_ATOMS" "at_chains ?s \<noteq> []"
      using ok by (simp_all add: atoms_ok_def at_count_def)
  next
    fix q d assume "at_entry ?s q = Some d"
    then have d: "at_entry s q = Some d" "q \<noteq> p" by (simp_all split: if_splits)
    show "q < at_next ?s" using atoms_okD(4) [OF ok d(1)] by simp
    have old: "entry_ok s q d" using atoms_okD(4) [OF ok d(1)] by simp
    then have "ae_hash d < length (at_chains s)" using atom_hash_bound [OF atoms_okD(3) [OF ok]] by (simp add: entry_ok_def)
    note ch = chain [OF this]
    have ne: "uint (ae_atom d) - MIN_STR_ATOM \<noteq> i" using old d(2) p by (auto simp: entry_ok_def)
    have "q \<in> set (at_chains s ! ae_hash d)" using old unfolding entry_ok_def by blast
    then have "q \<in> set (at_chains ?s ! ae_hash d)" using ch d(2) by blast
    then show "entry_ok ?s q d" using old unfolding entry_ok_def hash slot if_not_P [OF ne] by blast
  next
    fix j q assume "slot ?s j = Some q"
    then have j: "slot s j = Some q" "j \<noteq> i" unfolding slot by (simp_all split: if_splits)
    then have "q \<noteq> p" using only by blast
    then show "\<exists>d. at_entry ?s q = Some d \<and> uint (ae_atom d) = j + MIN_STR_ATOM" using atoms_okD(5) [OF ok j(1)] by auto
  next
    fix k assume "k < length (at_chains ?s)"
    then have k: "k < length (at_chains s)" by simp
    show "distinct (at_chains ?s ! k)" using atoms_okD(6) [OF ok k] k by (cases "k = ?h") (simp_all add: distinct_remove1)
    fix q assume "q \<in> set (at_chains ?s ! k)"
    then show "\<exists>d. at_entry ?s q = Some d \<and> ae_hash d = k" using chain [OF k] atoms_okD(7) [OF ok k] by auto
  next
    fix q r d f assume "at_entry ?s q = Some d" "at_entry ?s r = Some f" "same_text (lowerW ?s) (ae_str d) (ae_str f)"
    then show "q = r" using atoms_okD(8) [OF ok, of q d r f] by (simp split: if_splits)
  qed
  moreover have "atom_at ?s = (atom_at s)(a := None)"
  proof
    fix b
    show "atom_at ?s b = ((atom_at s)(a := None)) b"
    proof (cases "b = a")
      case True
      then show ?thesis using slot i by (simp add: atom_at_def)
    next
      case False
      then have "uint b - MIN_STR_ATOM \<noteq> i" using i by (simp add: word_uint_eq_iff)
      moreover from this have "slot s (uint b - MIN_STR_ATOM) \<noteq> Some p" using only by blast
      ultimately show ?thesis using False slot by (auto simp: atom_at_def split: bind_splits)
    qed
  qed
  ultimately show ?thesis using run slot by (auto simp: get_error_def split: option.split)
qed

subsection \<open>Adding an entry\<close>

lemma free_atom_slot_ok:
  assumes ok: "atoms_ok s" and j: "0 \<le> j" "j \<le> at_last s + 1"
  shows "\<exists>i. free_slot_from j s = Some i \<and> j \<le> i \<and> i \<le> at_last s + 1 \<and> slot s i = None \<and>
    (\<forall>k. j \<le> k \<longrightarrow> k < i \<longrightarrow> slot s k \<noteq> None)"
  using j
proof (induction "nat (at_last s + 1 - j)" arbitrary: j)
  case 0
  then have "slot s j = None" by (simp add: slot_def)
  then show ?case using 0 by (subst free_slot_from.simps) auto
next
  case (Suc n)
  then have j: "j \<le> at_last s" by linarith
  note r = read_slot_ok [OF ok Suc.prems(1) j]
  show ?case
  proof (cases "slot s j = None")
    case True
    then show ?thesis using r j by (subst free_slot_from.simps) auto
  next
    case False
    have step: "free_slot_from j s = free_slot_from (j + 1) s" using False r j by (subst free_slot_from.simps) auto
    obtain i where i: "free_slot_from (j + 1) s = Some i" "j + 1 \<le> i" "i \<le> at_last s + 1" "slot s i = None"
      "\<forall>k. j + 1 \<le> k \<longrightarrow> k < i \<longrightarrow> slot s k \<noteq> None"
    proof -
      have "n = nat (at_last s + 1 - (j + 1))" "0 \<le> j + 1" "j + 1 \<le> at_last s + 1" using Suc.hyps(2) Suc.prems j by simp_all
      from Suc.hyps(1) [OF this] show ?thesis using that by blast
    qed
    have "slot s k \<noteq> None" if "j \<le> k" "k < i" for k
      using i(5) that False by (cases "k = j") auto
    then show ?thesis using step i by auto
  qed
qed

lemma insert_ok:
  assumes ok: "atoms_ok s" and i: "0 \<le> i" "i \<le> at_last s + 1" "slot s i = None" "i < at_count s'"
    and p: "p = at_next s" "at_next s' = p + 1" "at_entry s' = (at_entry s)(p \<mapsto> e)"
    and hs: "at_last s' = max i (at_last s)" "at_count s \<le> at_count s'" "at_count s' \<le> MAX_ATOMS" "at_handles s' ! nat i = Some p"
      "\<And>j. 0 \<le> j \<Longrightarrow> j \<le> at_last s \<Longrightarrow> j \<noteq> i \<Longrightarrow> at_handles s' ! nat j = at_handles s ! nat j"
    and e: "uint (ae_atom e) = i + MIN_STR_ATOM" "ae_hash e = atom_hash (ae_str e) s" "0 < ae_count e" "ae_count e \<le> INT_MAX"
      "ae_str e \<noteq> []" "length (ae_str e) \<le> MAX_ATOM_LEN"
    and fresh: "\<And>q d. at_entry s q = Some d \<Longrightarrow> \<not> same_text (lowerW s) (ae_str d) (ae_str e)"
    and rest: "at_chains s' = (at_chains s)[ae_hash e := p # at_chains s ! ae_hash e]" "lowerW s' = lowerW s" "upperW s' = upperW s"
  shows "atoms_ok s'" "atom_at s' = (atom_at s)(ae_atom e \<mapsto> e)" "atom_at s (ae_atom e) = None"
proof -
  have slot: "slot s' j = (if j = i then Some p else slot s j)" for j
    using i hs by (auto simp: slot_def)
  have hash: "atom_hash str s' = atom_hash str s" for str using rest by (simp add: atom_hash_def)
  have new: "at_entry s p = None" using atoms_okD(4) [OF ok, of p] p(1) by (cases "at_entry s p") auto
  have not_slot: "slot s j \<noteq> Some p" for j using atoms_okD(5) [OF ok, of j p] new by auto
  have h: "ae_hash e < length (at_chains s)" using e(2) atom_hash_bound [OF atoms_okD(3) [OF ok]] by simp
  have not_chain: "k < length (at_chains s) \<Longrightarrow> p \<notin> set (at_chains s ! k)" for k
    using atoms_okD(7) [OF ok, of k p] new by auto
  have chain: "set (at_chains s' ! k) = (if k = ae_hash e then insert p (set (at_chains s ! k)) else set (at_chains s ! k))" for k
    using h rest(1) by (simp add: nth_list_update)
  show "atoms_ok s'"
    unfolding atoms_ok_def
  proof (intro conjI allI impI ballI)
    show "-1 \<le> at_last s'" "at_last s' < at_count s'" "2 \<le> at_count s'" "at_count s' \<le> MAX_ATOMS" "at_chains s' \<noteq> []"
      using ok i hs rest by (auto simp: atoms_ok_def)
  next
    fix q d assume d: "at_entry s' q = Some d"
    show "q < at_next s'" using d p atoms_okD(4) [OF ok, of q d] by (auto split: if_splits)
    show "entry_ok s' q d"
    proof (cases "q = p")
      case True
      then have "d = e" using d p(3) by simp
      then show ?thesis unfolding entry_ok_def hash slot chain using True e by simp
    next
      case False
      then have d': "at_entry s q = Some d" using d p(3) by simp
      then have old: "entry_ok s q d" using atoms_okD(4) [OF ok] by blast
      then have "uint (ae_atom d) - MIN_STR_ATOM \<noteq> i" using i(3) by (auto simp: entry_ok_def)
      note ne = if_not_P [OF this]
      show ?thesis using old unfolding entry_ok_def hash slot chain ne by auto
    qed
  next
    fix j q assume "slot s' j = Some q"
    then show "\<exists>d. at_entry s' q = Some d \<and> uint (ae_atom d) = j + MIN_STR_ATOM"
      using slot atoms_okD(5) [OF ok, of j q] not_slot [of j] e(1) p(3) by (auto split: if_splits)
  next
    fix k assume "k < length (at_chains s')"
    then have k: "k < length (at_chains s)" using rest(1) by simp
    show "distinct (at_chains s' ! k)"
      using atoms_okD(6) [OF ok k] not_chain [OF k] k rest(1) by (cases "k = ae_hash e") simp_all
    fix q assume "q \<in> set (at_chains s' ! k)"
    then show "\<exists>d. at_entry s' q = Some d \<and> ae_hash d = k"
      using chain atoms_okD(7) [OF ok k, of q] not_chain [OF k] p(3) by (auto split: if_splits)
  next
    fix q r d f assume a: "at_entry s' q = Some d" "at_entry s' r = Some f" "same_text (lowerW s') (ae_str d) (ae_str f)"
    then show "q = r"
      using fresh [of q d] fresh [of r f] atoms_okD(8) [OF ok, of q d r f] p(3) rest(2) same_text_sym [of "lowerW s" "ae_str d" "ae_str f"]
      by (auto split: if_splits)
  qed
  have at: "uint b - MIN_STR_ATOM = i \<longleftrightarrow> b = ae_atom e" for b using e(1) by (auto simp: word_uint_eq_iff)
  show "atom_at s (ae_atom e) = None" using i(3) e(1) by (simp add: atom_at_def)
  show "atom_at s' = (atom_at s)(ae_atom e \<mapsto> e)"
  proof
    fix b
    show "atom_at s' b = ((atom_at s)(ae_atom e \<mapsto> e)) b"
      using at [of b] not_slot [of "uint b - MIN_STR_ATOM"] p(3) unfolding atom_at_def slot by (auto split: bind_splits)
  qed
qed

lemma uint_atom: "0 \<le> i \<Longrightarrow> i < MAX_ATOMS \<Longrightarrow> uint (word_of_int (i + MIN_STR_ATOM) :: 16 word) = i + MIN_STR_ATOM"
  unfolding uint_word_of_int by (rule mod_pos_pos_trivial) simp_all

text \<open>The three ways \<^verbatim>\<open>add_atom_entry\<close> gets a slot.\<close>

lemma add_atom_entry_ok:
  assumes ok: "atoms_ok s0" and s: "s = s0\<lparr>at_next := at_next s0 + 1\<rparr>" and p: "p = at_next s0"
  shows "\<exists>a s'. add_atom_entry p e s = Some (a, s') \<and>
    (if a = 0 then at_last s0 + 1 = at_count s0 \<and> (\<forall>i. 0 \<le> i \<longrightarrow> i \<le> at_last s0 \<longrightarrow> slot s0 i \<noteq> None) \<and>
        get_error s' = STATUS_NO_MEMORY \<and> atoms_ok s' \<and> atom_at s' = atom_at s0
     else \<exists>i. a = word_of_int (i + MIN_STR_ATOM) \<and> 0 \<le> i \<and> i \<le> at_last s0 + 1 \<and> slot s0 i = None \<and>
        (\<forall>k. 0 \<le> k \<longrightarrow> k < i \<longrightarrow> slot s0 k \<noteq> None) \<and> i < at_count s' \<and>
        at_next s' = p + 1 \<and> at_entry s' = (at_entry s0)(p \<mapsto> e\<lparr>ae_atom := a\<rparr>) \<and>
        at_last s' = max i (at_last s0) \<and> at_count s0 \<le> at_count s' \<and> at_count s' \<le> MAX_ATOMS \<and> at_handles s' ! nat i = Some p \<and>
        (\<forall>j. 0 \<le> j \<longrightarrow> j \<le> at_last s0 \<longrightarrow> j \<noteq> i \<longrightarrow> at_handles s' ! nat j = at_handles s0 ! nat j) \<and>
        at_chains s' = at_chains s0 \<and> lowerW s' = lowerW s0 \<and> upperW s' = upperW s0 \<and> get_error s' = get_error s0)"
proof -
  have ok1: "atoms_ok s" using ok s by simp
  have slot: "slot s = slot s0" using s by (simp add: slot_def fun_eq_iff)
  obtain i where i: "free_slot_from 0 s = Some i" "0 \<le> i" "i \<le> at_last s0 + 1" "slot s0 i = None"
    "\<forall>k. 0 \<le> k \<longrightarrow> k < i \<longrightarrow> slot s0 k \<noteq> None"
    using free_atom_slot_ok [OF ok1, of 0] atoms_okD(9) [OF ok] s slot by auto
  have lt: "at_last s0 < at_count s0" "2 \<le> at_count s0" "at_count s0 \<le> MAX_ATOMS" using ok by (simp_all add: atoms_ok_def)
  let ?a = "word_of_int (i + MIN_STR_ATOM) :: 16 word"
  have nz: "?a \<noteq> 0" if "i < MAX_ATOMS"
  proof -
    have "uint ?a = i + MIN_STR_ATOM" by (rule uint_atom [OF i(2) that])
    then show ?thesis using i(2) by auto
  qed
  consider (used) "i \<le> at_last s0" | (next_one) "\<not> i \<le> at_last s0" "i < at_count s0" | (full) "i = at_count s0" "i = at_last s0 + 1"
    using i(3) lt by linarith
  then show ?thesis
  proof cases
    case used
    let ?s = "s\<lparr>at_handles := (at_handles s)[nat i := Some p], at_entry := (at_entry s)(p \<mapsto> e\<lparr>ae_atom := ?a\<rparr>)\<rparr>"
    have "add_atom_entry p e s = Some (?a, ?s)"
      using i(1,2) used lt s by (simp add: add_atom_entry_def write_at_def at_count_def Let_def)
    then show ?thesis using i(2-5) used lt s p nz
      by (intro exI [of _ ?a] exI [of _ ?s])
        (auto simp: at_count_def nth_list_update nat_eq_iff get_error_def split: option.split intro!: exI [of _ i])
  next
    case next_one
    let ?s = "s\<lparr>at_last := i, at_handles := (at_handles s)[nat i := Some p], at_entry := (at_entry s)(p \<mapsto> e\<lparr>ae_atom := ?a\<rparr>)\<rparr>"
    have "add_atom_entry p e s = Some (?a, ?s)"
      using i(1,2) next_one lt s by (simp add: add_atom_entry_def write_at_def at_count_def Let_def)
    then show ?thesis using i(2-5) next_one lt s p nz
      by (intro exI [of _ ?a] exI [of _ ?s])
        (auto simp: at_count_def nth_list_update nat_eq_iff get_error_def split: option.split intro!: exI [of _ i])
  next
    case full
    define new where "new = min (at_count s + at_count s div 2) MAX_ATOMS"
    have cs: "at_count s = at_count s0" "at_last s = at_last s0" using s by (simp_all add: at_count_def)
    have f: "i = at_count s" "\<not> i \<le> at_last s" using full cs by simp_all
    have all: "slot s0 k \<noteq> None" if "0 \<le> k" "k \<le> at_last s0" for k using i(5) full that by simp
    note unf = add_atom_entry_def i(1) Option.bind.bind_lunit Let_def new_def [symmetric]
    have err: "\<exists>a s'. add_atom_entry p e s = Some (a, s') \<and> a = 0 \<and> get_error s' = STATUS_NO_MEMORY \<and> atoms_ok s' \<and> atom_at s' = atom_at s0"
      if "add_atom_entry p e s = Some (0, set_error STATUS_NO_MEMORY s2)" "s2 = s \<or> (\<exists>m. s2 = s\<lparr>mem_oracle := m\<rparr>)" for s2
    proof -
      have "atoms_ok s2" using that(2) ok1 by auto
      moreover have "atom_at s2 = atom_at s0" using that(2) s by (auto intro!: atoms_cong(1))
      ultimately show ?thesis using that(1) by auto
    qed
    show ?thesis
    proof (cases "new > at_count s")
      case False
      then have "add_atom_entry p e s = Some (0, set_error STATUS_NO_MEMORY s)"
        unfolding unf using f by simp
      from err [OF this] show ?thesis using full all by auto
    next
      case True
      obtain b s1 where m: "malloc s = (b, s1)" by fastforce
      then obtain ms where s1: "s1 = s\<lparr>mem_oracle := ms\<rparr>" using malloc_oracle by blast
      show ?thesis
      proof (cases b)
        case False
        then have "add_atom_entry p e s = Some (0, set_error STATUS_NO_MEMORY s1)"
          unfolding unf using f True m by simp
        from err [OF this] show ?thesis using full all s1 by auto
      next
        case b: True
        let ?hs = "at_handles s1 @ replicate (nat (new - at_count s1)) None"
        let ?s = "s1\<lparr>at_handles := ?hs[nat i := Some p], at_last := i, at_entry := (at_entry s1)(p \<mapsto> e\<lparr>ae_atom := ?a\<rparr>)\<rparr>"
        have c1: "at_count s1 = at_count s" using s1 by (simp add: at_count_def)
        have len: "int (length ?hs) = new" using True c1 by (simp add: at_count_def)
        have run: "add_atom_entry p e s = Some (?a, ?s)"
          unfolding unf using f True m b len i(2) by (simp add: write_at_def at_count_def)
        have new: "new \<le> MAX_ATOMS" by (simp add: new_def)
        have "at_handles ?s ! nat i = Some p" using len True f i(2) by (simp add: nat_less_iff)
        moreover have "at_handles ?s ! nat j = at_handles s0 ! nat j" if "0 \<le> j" "j \<le> at_last s0" "j \<noteq> i" for j
        proof -
          have "nat j < length (at_handles s1)" using that lt s1 s by (simp add: at_count_def nat_less_iff)
          then show ?thesis using that s1 s i(2) by (simp add: nth_append nat_eq_iff)
        qed
        moreover have "at_count ?s = new" using len by (simp add: at_count_def)
        moreover have "i < MAX_ATOMS" using f(1) True new by simp
        ultimately show ?thesis using run i(2-5) full True new f cs s1 s p nz
          by (intro exI [of _ ?a] exI [of _ ?s])
            (auto simp: get_error_def split: option.split intro!: exI [of _ i])
      qed
    qed
  qed
qed

subsection \<open>The operations\<close>

lemma mem_alloc_atoms:
  assumes "mem_alloc s = (b, s')" "atoms_ok s"
  shows "atoms_ok s'" "atom_at s' = atom_at s" "lowerW s' = lowerW s" "upperW s' = upperW s" "at_chains s' = at_chains s" "at_entry s' = at_entry s"
    "at_next s' = at_next s" "at_last s' = at_last s" "slot s' = slot s" "at_count s' = at_count s"
  using assms by (auto simp: mem_alloc_def malloc_def set_error_def slot_def at_count_def split: list.splits if_splits
      intro!: atoms_cong(2) [of _ s] atoms_cong(1))

definition new_atom :: "wchar list \<Rightarrow> nat \<Rightarrow> 16 word \<Rightarrow> atom_entry" where
  "new_atom str h a = \<lparr>ae_count = 1, ae_pinned = False, ae_atom = a, ae_hash = h, ae_str = str\<rparr>"

lemma new_atom_sel [simp]:
  "ae_atom (new_atom str h a) = a" "ae_hash (new_atom str h a) = h" "ae_str (new_atom str h a) = str"
  "ae_count (new_atom str h a) = 1" "(new_atom str h b)\<lparr>ae_atom := a\<rparr> = new_atom str h a"
  by (simp_all add: new_atom_def)

lemma add_atom_new:
  assumes ok: "atoms_ok s" and len: "str \<noteq> []" "length str \<le> MAX_ATOM_LEN"
    and found: "find_atom_entry str (atom_hash str s) s = Some None"
    and fresh: "\<And>a e. atom_at s a = Some e \<Longrightarrow> \<not> same_text (lowerW s) (ae_str e) str"
  shows "\<exists>a s'. add_atom str s = Some (a, s') \<and> atoms_ok s' \<and>
    (if a = 0 then get_error s' = STATUS_NO_MEMORY \<and> atom_at s' = atom_at s
     else atom_at s a = None \<and> atom_at s' = (atom_at s)(a \<mapsto> new_atom str (atom_hash str s) a) \<and>
       (\<forall>b. MIN_STR_ATOM \<le> uint b \<longrightarrow> b < a \<longrightarrow> atom_at s b \<noteq> None))"
proof -
  let ?h = "atom_hash str s"
  obtain b s1 where m: "mem_alloc s = (b, s1)" by fastforce
  note ms = mem_alloc_atoms [OF m ok]
  show ?thesis
  proof (cases b)
    case False
    then have "add_atom str s = Some (0, set_error STATUS_NO_MEMORY s1)"
      using len found m by (simp add: add_atom_def Let_def)
    then show ?thesis using ms by auto
  next
    case True
    let ?p = "at_next s1"
    let ?s1 = "s1\<lparr>at_next := ?p + 1\<rparr>"
    obtain a s2 where a: "add_atom_entry ?p (new_atom str ?h 0) ?s1 = Some (a, s2)"
      "if a = 0 then at_last s1 + 1 = at_count s1 \<and> (\<forall>i. 0 \<le> i \<longrightarrow> i \<le> at_last s1 \<longrightarrow> slot s1 i \<noteq> None) \<and>
          get_error s2 = STATUS_NO_MEMORY \<and> atoms_ok s2 \<and> atom_at s2 = atom_at s1
       else \<exists>i. a = word_of_int (i + MIN_STR_ATOM) \<and> 0 \<le> i \<and> i \<le> at_last s1 + 1 \<and> slot s1 i = None \<and>
          (\<forall>k. 0 \<le> k \<longrightarrow> k < i \<longrightarrow> slot s1 k \<noteq> None) \<and> i < at_count s2 \<and>
          at_next s2 = ?p + 1 \<and> at_entry s2 = (at_entry s1)(?p \<mapsto> (new_atom str ?h 0)\<lparr>ae_atom := a\<rparr>) \<and>
          at_last s2 = max i (at_last s1) \<and> at_count s1 \<le> at_count s2 \<and> at_count s2 \<le> MAX_ATOMS \<and> at_handles s2 ! nat i = Some ?p \<and>
          (\<forall>j. 0 \<le> j \<longrightarrow> j \<le> at_last s1 \<longrightarrow> j \<noteq> i \<longrightarrow> at_handles s2 ! nat j = at_handles s1 ! nat j) \<and>
          at_chains s2 = at_chains s1 \<and> lowerW s2 = lowerW s1 \<and> upperW s2 = upperW s1 \<and> get_error s2 = get_error s1"
      using add_atom_entry_ok [OF ms(1) refl refl, of "new_atom str ?h 0"] by blast
    show ?thesis
    proof (cases "a = 0")
      case True
      then have "add_atom str s = Some (0, s2)"
        using len found m \<open>b\<close> a(1) by (simp add: add_atom_def Let_def new_atom_def)
      then show ?thesis using True a(2) ms(2) by auto
    next
      case nz: False
      then obtain i where i: "a = word_of_int (i + MIN_STR_ATOM)" "0 \<le> i" "i \<le> at_last s1 + 1" "slot s1 i = None"
          "\<forall>k. 0 \<le> k \<longrightarrow> k < i \<longrightarrow> slot s1 k \<noteq> None" "i < at_count s2"
          "at_next s2 = ?p + 1" "at_entry s2 = (at_entry s1)(?p \<mapsto> (new_atom str ?h 0)\<lparr>ae_atom := a\<rparr>)"
          "at_last s2 = max i (at_last s1)" "at_count s1 \<le> at_count s2" "at_count s2 \<le> MAX_ATOMS" "at_handles s2 ! nat i = Some ?p"
          "\<forall>j. 0 \<le> j \<longrightarrow> j \<le> at_last s1 \<longrightarrow> j \<noteq> i \<longrightarrow> at_handles s2 ! nat j = at_handles s1 ! nat j"
          "at_chains s2 = at_chains s1" "lowerW s2 = lowerW s1" "upperW s2 = upperW s1"
        using a(2) by auto
      have e: "(new_atom str ?h 0)\<lparr>ae_atom := a\<rparr> = new_atom str ?h a" by simp
      have h: "?h < length (at_chains s1)" using atom_hash_bound [OF atoms_okD(3) [OF ok]] ms(5) by simp
      let ?s = "s2\<lparr>at_chains := (at_chains s1)[?h := ?p # at_chains s1 ! ?h]\<rparr>"
      have run: "add_atom str s = Some (a, ?s)"
        using len found m \<open>b\<close> a(1) nz h i(14) by (simp add: add_atom_def Let_def new_atom_def read_at_def write_at_def)
      have hash: "atom_hash str s1 = ?h" using ms by (simp add: atom_hash_def)
      have ua: "uint a = i + MIN_STR_ATOM" unfolding i(1) by (rule uint_atom) (use i in simp_all)
      have new: "\<not> same_text (lowerW s1) (ae_str d) str" if "at_entry s1 q = Some d" for q d
        using fresh [OF entry_atom(2) [OF ok, of q d]] that ms by simp
      have I: "atoms_ok ?s" "atom_at ?s = (atom_at s1)(ae_atom (new_atom str ?h a) \<mapsto> new_atom str ?h a)"
        "atom_at s1 (ae_atom (new_atom str ?h a)) = None"
        by (rule insert_ok [where s' = ?s and e = "new_atom str ?h a" and p = ?p, OF ms(1) i(2-4)]; use i(2-7,9-16) i(8) [unfolded e] ua len hash new in \<open>simp add: at_count_def INT_MAX_def\<close>)+
      have below: "atom_at s b \<noteq> None" if b: "MIN_STR_ATOM \<le> uint b" "b < a" for b
      proof -
        have "slot s1 (uint b - MIN_STR_ATOM) \<noteq> None" using i(5) b ua by (simp add: word_less_def)
        then obtain q where "slot s1 (uint b - MIN_STR_ATOM) = Some q" by auto
        from slot_atom [OF ms(1) this] show ?thesis using ms(2) by (metis option.distinct(1))
      qed
      then show ?thesis using run I ms(2) nz below by auto
    qed
  qed
qed

lemma add_atom_ok:
  assumes ok: "atoms_ok s" and agree: "case_maps_agree (lowerW s) (upperW s)"
    and counts: "\<And>a e. atom_at s a = Some e \<Longrightarrow> ae_count e < INT_MAX"
    and len: "str \<noteq> []" "length str \<le> MAX_ATOM_LEN"
  shows "\<exists>a s'. add_atom str s = Some (a, s') \<and> atoms_ok s' \<and>
    (if \<exists>a e. atom_at s a = Some e \<and> same_text (lowerW s) (ae_str e) str
     then \<exists>e. atom_at s a = Some e \<and> same_text (lowerW s) (ae_str e) str \<and> atom_at s' = (atom_at s)(a \<mapsto> e\<lparr>ae_count := ae_count e + 1\<rparr>)
     else if a = 0 then get_error s' = STATUS_NO_MEMORY \<and> atom_at s' = atom_at s
     else atom_at s a = None \<and> atom_at s' = (atom_at s)(a \<mapsto> new_atom str (atom_hash str s) a) \<and>
       (\<forall>b. MIN_STR_ATOM \<le> uint b \<longrightarrow> b < a \<longrightarrow> atom_at s b \<noteq> None))"
proof -
  obtain r where r: "find_atom_entry str (atom_hash str s) s = Some r" "case r of
      None \<Rightarrow> \<forall>a e. atom_at s a = Some e \<longrightarrow> \<not> same_text (lowerW s) (ae_str e) str
    | Some p \<Rightarrow> \<exists>e. at_entry s p = Some e \<and> same_text (lowerW s) (ae_str e) str"
    using find_atom_entry_ok [OF ok agree] by blast
  show ?thesis
  proof (cases r)
    case None
    then have no: "\<forall>a e. atom_at s a = Some e \<longrightarrow> \<not> same_text (lowerW s) (ae_str e) str" using r(2) by simp
    then have none: "\<not> (\<exists>a e. atom_at s a = Some e \<and> same_text (lowerW s) (ae_str e) str)" by blast
    show ?thesis
      unfolding if_not_P [OF none] by (rule add_atom_new [OF ok len r(1) [unfolded None]]) (use no in blast)
  next
    case (Some p)
    then obtain e where e: "at_entry s p = Some e" "same_text (lowerW s) (ae_str e) str" using r(2) by auto
    note ea = entry_atom [OF ok e(1)]
    have c: "0 < ae_count e" "ae_count e < INT_MAX"
      using atoms_okD(4) [OF ok e(1)] counts [OF ea(2)] by (simp_all add: entry_ok_def)
    let ?e = "e\<lparr>ae_count := ae_count e + 1\<rparr>"
    have run: "add_atom str s = Some (ae_atom e, set_entry p ?e s)"
      using len r(1) Some e(1) c by (simp add: add_atom_def count_up_def int32_ok_def INT_MAX_def)
    have "atoms_ok (set_entry p ?e s)" "atom_at (set_entry p ?e s) = (atom_at s)(ae_atom e \<mapsto> ?e)"
      by (rule set_entry_ok [OF ok e(1)]; use c in simp)+
    then show ?thesis using run e(2) ea(2) by auto
  qed
qed

lemma find_atom_ok:
  assumes ok: "atoms_ok s" and agree: "case_maps_agree (lowerW s) (upperW s)" and len: "str \<noteq> []" "length str \<le> MAX_ATOM_LEN"
  shows "(\<forall>a e. atom_at s a = Some e \<longrightarrow> same_text (lowerW s) (ae_str e) str \<longrightarrow>
        find_atom str s = Some (a, s) \<and> find_global_atom str s = Some a) \<and>
    ((\<forall>a e. atom_at s a = Some e \<longrightarrow> \<not> same_text (lowerW s) (ae_str e) str) \<longrightarrow>
        find_atom str s = Some (0, set_error STATUS_OBJECT_NAME_NOT_FOUND s) \<and> find_global_atom str s = Some 0)"
proof -
  obtain r where r: "find_atom_entry str (atom_hash str s) s = Some r" "case r of
      None \<Rightarrow> \<forall>a e. atom_at s a = Some e \<longrightarrow> \<not> same_text (lowerW s) (ae_str e) str
    | Some p \<Rightarrow> \<exists>e. at_entry s p = Some e \<and> same_text (lowerW s) (ae_str e) str"
    using find_atom_entry_ok [OF ok agree] by blast
  show ?thesis
  proof (cases r)
    case None
    then show ?thesis using r len by (auto simp: find_atom_def find_global_atom_def)
  next
    case (Some p)
    then obtain e where e: "at_entry s p = Some e" "same_text (lowerW s) (ae_str e) str" using r(2) by auto
    have "a = ae_atom e" if a: "atom_at s a = Some d" "same_text (lowerW s) (ae_str d) str" for a d
    proof -
      obtain q where q: "at_entry s q = Some d" "ae_atom d = a" by (rule atom_at_Some [OF ok a(1)])
      have "q = p" by (rule atoms_okD(8) [OF ok q(1) e(1) same_text_trans [OF a(2) same_text_sym [OF e(2)]]])
      then show ?thesis using q e(1) by simp
    qed
    moreover have "find_atom str s = Some (ae_atom e, s)" "find_global_atom str s = Some (ae_atom e)"
      using len r(1) Some e(1) by (simp_all add: find_atom_def find_global_atom_def)
    ultimately show ?thesis using e entry_atom(2) [OF ok e(1)] by blast
  qed
qed

lemma delete_atom_ok:
  assumes ok: "atoms_ok s"
  shows "case atom_at s a of None \<Rightarrow> delete_atom a f s = Some (set_error STATUS_INVALID_HANDLE s)
    | Some e \<Rightarrow> if ae_pinned e \<and> \<not> f then delete_atom a f s = Some (set_error STATUS_WAS_LOCKED s)
        else \<exists>s'. delete_atom a f s = Some s' \<and> atoms_ok s' \<and>
          atom_at s' = (atom_at s)(a := if ae_count e = 1 then None else Some (e\<lparr>ae_count := ae_count e - 1\<rparr>))"
proof (cases "slot s (uint a - MIN_STR_ATOM)")
  case None
  then have "atom_at s a = None" by (simp add: atom_at_def)
  then show ?thesis using get_atom_entry_ok [OF ok, of a] None by (simp add: delete_atom_def)
next
  case (Some p)
  obtain e where e: "at_entry s p = Some e" "ae_atom e = a" "atom_at s a = Some e" by (rule slot_atom [OF ok Some])
  have get: "get_atom_entry a s = Some (Some p, s)" using get_atom_entry_ok [OF ok, of a] Some by simp
  have c: "0 < ae_count e" "ae_count e \<le> INT_MAX" using atoms_okD(4) [OF ok e(1)] by (simp_all add: entry_ok_def)
  show ?thesis
  proof (cases "ae_pinned e \<and> \<not> f")
    case True
    then show ?thesis using get e by (simp add: delete_atom_def)
  next
    case unpinned: False
    show ?thesis
    proof (cases "ae_count e = 1")
      case True
      obtain s' where "unlink_atom p (uint a - MIN_STR_ATOM) s = Some s'" "atoms_ok s'" "atom_at s' = (atom_at s)(a := None)"
        using unlink_atom_ok [OF ok Some refl] by blast
      then show ?thesis using get e unpinned True by (auto simp: delete_atom_def)
    next
      case False
      let ?e = "e\<lparr>ae_count := ae_count e - 1\<rparr>"
      have "atoms_ok (set_entry p ?e s)" "atom_at (set_entry p ?e s) = (atom_at s)(ae_atom e \<mapsto> ?e)"
        by (rule set_entry_ok [OF ok e(1)]; use c False in simp)+
      then show ?thesis using get e unpinned False by (auto simp: delete_atom_def)
    qed
  qed
qed

lemma empty_from_ok:
  assumes ok: "atoms_ok s" and i: "0 \<le> i" "i \<le> at_last s + 1"
  shows "\<exists>s'. empty_from i f s = Some s' \<and> atoms_ok s' \<and> atom_at s' = (\<lambda>a. if uint a - MIN_STR_ATOM < i then atom_at s a else
    (case atom_at s a of None \<Rightarrow> None | Some e \<Rightarrow> if ae_pinned e \<and> \<not> f then Some e else None))"
  using assms
proof (induction "nat (at_last s + 1 - i)" arbitrary: i s)
  case 0
  then have "empty_from i f s = Some s" by (subst empty_from.simps) simp
  moreover have "atom_at s a = None" if "\<not> uint a - MIN_STR_ATOM < i" for a
    using that 0 by (simp add: atom_at_def slot_def)
  ultimately show ?case using 0(2) by (auto simp: fun_eq_iff)
next
  case (Suc n)
  note ok = Suc.prems(1)
  have i: "i \<le> at_last s" using Suc.hyps(2) by linarith
  note r = read_slot_ok [OF ok Suc.prems(2) i]
  let ?keep = "\<lambda>s i a. if uint a - MIN_STR_ATOM < i then atom_at s a else
    (case atom_at s a of None \<Rightarrow> None | Some e \<Rightarrow> if ae_pinned e \<and> \<not> f then Some e else None)"
  let ?a = "word_of_int (i + MIN_STR_ATOM) :: 16 word"
  have "i < MAX_ATOMS" using i ok by (simp add: atoms_ok_def)
  then have ua: "uint ?a = i + MIN_STR_ATOM" by (rule uint_atom [OF Suc.prems(2)])
  have at: "uint b - MIN_STR_ATOM = i \<longleftrightarrow> b = ?a" for b using ua by (auto simp: word_uint_eq_iff)
  have IH: "\<exists>s'. empty_from (i + 1) f s2 = Some s' \<and> atoms_ok s' \<and> atom_at s' = ?keep s2 (i + 1)"
    if "atoms_ok s2" "at_last s2 = at_last s" for s2
    using Suc.hyps(1) [of s2 "i + 1"] that Suc.hyps(2) Suc.prems(2) i by simp
  have skip: "\<exists>s'. empty_from (i + 1) f s = Some s' \<and> atoms_ok s' \<and> atom_at s' = ?keep s i"
    if "atom_at s ?a = None \<or> (\<exists>e. atom_at s ?a = Some e \<and> ae_pinned e \<and> \<not> f)"
  proof -
    have "?keep s (i + 1) b = ?keep s i b" for b
      using that at [of b] by (cases "uint b - MIN_STR_ATOM = i") (auto split: option.split)
    then show ?thesis using IH [OF ok refl] by presburger
  qed
  show ?case
  proof (cases "slot s i")
    case None
    then have "atom_at s ?a = None" using ua by (simp add: atom_at_def)
    moreover have "empty_from i f s = empty_from (i + 1) f s" using None r i by (subst empty_from.simps) simp
    ultimately show ?thesis using skip by simp
  next
    case (Some p)
    then have sl: "slot s (uint ?a - MIN_STR_ATOM) = Some p" using ua by simp
    obtain e where e: "at_entry s p = Some e" "ae_atom e = ?a" "atom_at s ?a = Some e" by (rule slot_atom [OF ok sl])
    show ?thesis
    proof (cases "ae_pinned e \<and> \<not> f")
      case True
      then have "empty_from i f s = empty_from (i + 1) f s" using Some e(1) r i by (subst empty_from.simps) simp
      then show ?thesis using skip e(3) True by simp
    next
      case False
      have ia: "i = uint ?a - MIN_STR_ATOM" using ua by simp
      obtain s2 where s2: "unlink_atom p i s = Some s2" "atoms_ok s2" "atom_at s2 = (atom_at s)(?a := None)" "at_last s2 = at_last s"
        using unlink_atom_ok [OF ok Some ia] by blast
      have "empty_from i f s = empty_from (i + 1) f s2"
        using Some e(1) r i s2(1) False by (subst empty_from.simps) simp
      moreover have "?keep s2 (i + 1) b = ?keep s i b" for b
        unfolding s2(3) using at [of b] e(3) False by (cases "uint b - MIN_STR_ATOM = i") (auto split: option.split)
      ultimately show ?thesis using IH [OF s2(2,4)] by presburger
    qed
  qed
qed

subsection \<open>The properties\<close>


text \<open>A table with the atom ``ab'', 0xc000, pinned; characters below 128 have a case.\<close>

definition ascii_lower :: "wchar \<Rightarrow> wchar" where
  "ascii_lower c = (if 0x41 \<le> c \<and> c \<le> 0x5a then c + 0x20 else c)"

definition ascii_upper :: "wchar \<Rightarrow> wchar" where
  "ascii_upper c = (if 0x61 \<le> c \<and> c \<le> 0x7a then c - 0x20 else c)"

definition one_atom :: atoms where
  "one_atom = \<lparr>current = None, global_error = 0, thread_error = \<lambda>_. 0, mem_oracle = [], at_last = 0,
     at_handles = Some 0 # replicate 63 None, at_chains = [[], [], [0], []],
     at_entry = [0 \<mapsto> \<lparr>ae_count = 2, ae_pinned = True, ae_atom = 0xc000, ae_hash = 2, ae_str = [0x61, 0x62]\<rparr>], at_next = 1,
     lowerW = ascii_lower, upperW = ascii_upper\<rparr>"

lemma one_atom_hash: "atom_hash [0x61, 0x62] one_atom = 2"
  by (simp add: atom_hash_def one_atom_def ascii_upper_def)

lemma ascii_case: "case_maps_agree ascii_lower ascii_upper"
proof -
  have "ascii_upper (ascii_lower c) = ascii_upper c" for c
  proof (cases "0x41 \<le> c \<and> c \<le> 0x5a")
    case True
    then have "unat (c + 0x20) = unat c + 0x20" by (simp add: unat_word_ariths(1) word_le_nat_alt)
    then show ?thesis using True by (simp add: ascii_lower_def ascii_upper_def word_le_nat_alt)
  next
    case False
    then have "ascii_lower c = c" unfolding ascii_lower_def by (rule if_not_P)
    then show ?thesis by simp
  qed
  then show ?thesis unfolding case_maps_agree_def by metis
qed

lemma one_atom_slot: "slot one_atom i = (if i = 0 then Some 0 else None)"
  by (auto simp: slot_def one_atom_def)

lemma one_atom_at: "atom_at one_atom a = (if a = 0xc000
    then Some \<lparr>ae_count = 2, ae_pinned = True, ae_atom = 0xc000, ae_hash = 2, ae_str = [0x61, 0x62]\<rparr> else None)"
proof -
  have "uint a - MIN_STR_ATOM = 0 \<longleftrightarrow> a = 0xc000" by (auto simp: word_uint_eq_iff)
  then show ?thesis by (simp add: atom_at_def one_atom_slot) (simp add: one_atom_def)
qed

lemma one_atom_ok: "atoms_ok one_atom"
  unfolding atoms_ok_def entry_ok_def one_atom_slot
proof (intro conjI allI impI ballI)
  fix p e assume "at_entry one_atom p = Some e"
  then have "p = 0" "e = \<lparr>ae_count = 2, ae_pinned = True, ae_atom = 0xc000, ae_hash = 2, ae_str = [0x61, 0x62]\<rparr>"
    by (simp_all add: one_atom_def split: if_splits)
  then show "p < at_next one_atom" "(if uint (ae_atom e) - MIN_STR_ATOM = 0 then Some 0 else None) = Some p"
    "ae_hash e = atom_hash (ae_str e) one_atom" "p \<in> set (at_chains one_atom ! ae_hash e)" "0 < ae_count e" "ae_count e \<le> INT_MAX"
    "ae_str e \<noteq> []" "length (ae_str e) \<le> MAX_ATOM_LEN"
    by (simp_all add: one_atom_hash INT_MAX_def) (simp_all add: one_atom_def)
qed (auto simp: one_atom_def at_count_def less_Suc_eq nth_Cons' split: if_splits)




text \<open>
  C33: deleting an atom takes one reference away and the atom with the last one; a pinned atom stays
  unless pinned atoms are meant too, an unknown one is reported.  Emptying the table removes the
  atoms that are not pinned, or all.
\<close>

theorem delete_atom_correct:
  assumes "atoms_ok s"
  shows "(case atom_at s a of None \<Rightarrow> delete_atom a f s = Some (set_error STATUS_INVALID_HANDLE s)
    | Some e \<Rightarrow> if ae_pinned e \<and> \<not> f then delete_atom a f s = Some (set_error STATUS_WAS_LOCKED s)
        else \<exists>s'. delete_atom a f s = Some s' \<and> atoms_ok s' \<and>
          atom_at s' = (atom_at s)(a := if ae_count e = 1 then None else Some (e\<lparr>ae_count := ae_count e - 1\<rparr>))) \<and>
    (\<exists>s'. empty_atom_table f s = Some s' \<and> atoms_ok s' \<and>
      (\<forall>b. atom_at s' b = (case atom_at s b of None \<Rightarrow> None | Some e \<Rightarrow> if ae_pinned e \<and> \<not> f then Some e else None)))"
proof -
  have none: "uint b - MIN_STR_ATOM < 0 \<Longrightarrow> atom_at s b = None" for b by (simp add: atom_at_def slot_def)
  obtain s' where "empty_from 0 f s = Some s'" "atoms_ok s'" "atom_at s' = (\<lambda>a. if uint a - MIN_STR_ATOM < 0 then atom_at s a else
    (case atom_at s a of None \<Rightarrow> None | Some e \<Rightarrow> if ae_pinned e \<and> \<not> f then Some e else None))"
    using empty_from_ok [OF assms, of 0 f] atoms_okD(9) [OF assms] by auto
  then show ?thesis using delete_atom_ok [OF assms, of a f] none by (auto simp: empty_atom_table_def)
qed

theorem delete_atom_correct_witness:
  "delete_atom 0xc000 False one_atom = Some (set_error STATUS_WAS_LOCKED one_atom) \<and>
   (\<exists>s'. delete_atom 0xc000 True one_atom = Some s' \<and> map_option ae_count (atom_at s' 0xc000) = Some 1) \<and>
   (\<exists>s'. empty_atom_table True one_atom = Some s' \<and> atom_at s' 0xc000 = None)"
  using delete_atom_correct [OF one_atom_ok, of "0xc000" True] delete_atom_correct [OF one_atom_ok, of "0xc000" False]
  by (auto simp: one_atom_at)

text \<open>
  When there is memory for an atom table but not for its hash chains, \<^verbatim>\<open>create_table\<close> releases a
  table whose array of handles has never been set, and the server reads uninitialised memory.
\<close>

lemma create_table_reads_uninitialised:
  assumes "mem_oracle s = True # False # ms"
  shows "create_table n s = None"
  using assms by (simp add: create_table_def mem_alloc_def malloc_def Let_def)

lemma fresh_table:
  fixes s :: atoms
  assumes "0 < k"
  shows "atoms_ok (s\<lparr>at_last := -1, at_handles := replicate 64 None, at_chains := replicate k [], at_entry := \<lambda>_. None\<rparr>)" (is "atoms_ok ?t")
    "atom_at (s\<lparr>at_last := -1, at_handles := replicate 64 None, at_chains := replicate k [], at_entry := \<lambda>_. None\<rparr>) = (\<lambda>_. None)"
proof -
  have slot: "slot ?t i = None" for i by (simp add: slot_def)
  show "atom_at ?t = (\<lambda>_. None)" unfolding atom_at_def slot by simp
  show "atoms_ok ?t" using assms(1) unfolding atoms_ok_def slot by (simp add: at_count_def)
qed

lemma create_table_ok:
  assumes "mem_oracle s = []"
  shows "\<exists>s'. create_table n s = Some (True, s') \<and> atoms_ok s' \<and> atom_at s' = (\<lambda>_. None)"
proof -
  define k where "k = nat (if n < MIN_HASH_SIZE \<or> n > MAX_HASH_SIZE then HASH_SIZE else n)"
  have "0 < k" by (simp add: k_def)
  from fresh_table [OF this] show ?thesis using assms by (simp add: create_table_def Let_def k_def)
qed

end
