(* ===== verification/Locks.thy ===== *)
theory Locks
  imports Prelude Server
begin

text \<open>
  File locks (\<^verbatim>\<open>fd.c\<close>): the locks of the processes on the bytes of a file, the Unix locks that
  back them up on the file itself, and the sharing modes of the open files.

  Locks, file descriptors and inodes have addresses of their own.  \<^verbatim>\<open>fcntl\<close> is the system's:
  \<open>fcntl_results\<close> lists the outcomes of the coming calls (an exhausted list: they succeed) and
  \<open>unix_locks\<close> the calls that succeeded, the last one first.  A lock that loses its owner wakes the
  threads that wait for it (\<^verbatim>\<open>wake_up\<close>, theory \<open>Waits\<close>) and gives its reference back:
  \<open>lost_locks\<close> lists these locks.
\<close>

subsection \<open>Data\<close>

type_synonym file_pos = "64 word"

record file_lock =
  fl_fd :: nat
  fl_shared :: bool
  fl_start :: file_pos
  fl_end :: file_pos
  fl_process :: "oid option"

record file_desc =
  fd_inode :: "nat option"
  fd_locks :: "nat list"
  fd_access :: "32 word"
  fd_sharing :: "32 word"
  unix_fd :: int
  fs_locks :: bool

text \<open>\<open>in_closed\<close> holds the Unix descriptors of closed files, -1 for one that is closed and kept for its name.\<close>

record inode =
  in_open :: "nat list"
  in_locks :: "nat list"
  in_closed :: "(int \<times> bool) list"

datatype errno = EACCES | EAGAIN | EBADF | EIO | ENOLCK | EINVAL | EOVERFLOW | ENOSPC | ESRCH | EPERM | EROFS | EBUSY
  | ENOENT | EISDIR | ENFILE | EMFILE | EEXIST | ESPIPE | ENOTEMPTY | ENOTDIR | EFBIG | ENODEV | ENXIO | Other_errno

datatype lock_type = F_RDLCK | F_WRLCK | F_UNLCK

record unix_lock =
  ul_fd :: int
  ul_type :: lock_type
  ul_start :: int
  ul_len :: int

record files = env +
  locks :: "nat \<Rightarrow> file_lock option"
  descs :: "nat \<Rightarrow> file_desc option"
  inodes :: "nat \<Rightarrow> inode option"
  process_locks :: "oid \<Rightarrow> nat list"
  next_lock :: nat
  client :: oid
  max_unix_offset :: file_pos
  fcntl_results :: "errno option list"
  unix_locks :: "unix_lock list"
  lost_locks :: "nat list"
  closed_fds :: "int list"

abbreviation "FILE_POS_T_MAX \<equiv> (-1 :: file_pos)"

text \<open>The errors of system calls, \<^verbatim>\<open>file_set_error\<close> of \<^verbatim>\<open>file.c\<close>.\<close>

definition file_set_error :: "errno \<Rightarrow> 'a env_scheme \<Rightarrow> 'a env_scheme" where
  "file_set_error e s = set_error (case e of
     EAGAIN \<Rightarrow> 0xC0000043 | EBADF \<Rightarrow> STATUS_INVALID_HANDLE | ENOSPC \<Rightarrow> 0xC000007F
   | EACCES \<Rightarrow> STATUS_ACCESS_DENIED | ESRCH \<Rightarrow> STATUS_ACCESS_DENIED | EPERM \<Rightarrow> STATUS_ACCESS_DENIED
   | EROFS \<Rightarrow> 0xC00000A2 | EBUSY \<Rightarrow> STATUS_FILE_LOCK_CONFLICT | ENOENT \<Rightarrow> 0xC000000F | EISDIR \<Rightarrow> 0xC00000BA
   | ENFILE \<Rightarrow> 0x80000006 | EMFILE \<Rightarrow> 0x80000006 | EEXIST \<Rightarrow> STATUS_OBJECT_NAME_COLLISION
   | EINVAL \<Rightarrow> STATUS_INVALID_PARAMETER | ESPIPE \<Rightarrow> 0xc0010000 OR 25 | ENOTEMPTY \<Rightarrow> 0xC0000101
   | EIO \<Rightarrow> 0xC0000005 | ENOTDIR \<Rightarrow> 0xC0000103 | EFBIG \<Rightarrow> 0xC0000040 | ENODEV \<Rightarrow> 0xC000000E | ENXIO \<Rightarrow> 0xC000000E
   | EOVERFLOW \<Rightarrow> STATUS_INVALID_PARAMETER | _ \<Rightarrow> 0xC0000001) s"

subsection \<open>Unix locks\<close>

definition fcntl :: "unix_lock option \<Rightarrow> files \<Rightarrow> errno option \<times> files" where
  "fcntl lk s =
     (let r = (case fcntl_results s of [] \<Rightarrow> None | r # _ \<Rightarrow> r);
          s = s\<lparr>fcntl_results := tl (fcntl_results s)\<rparr> in
      (r, case (r, lk) of (None, Some l) \<Rightarrow> s\<lparr>unix_locks := l # unix_locks s\<rparr> | _ \<Rightarrow> s))"

definition unix_lock_of :: "file_desc \<Rightarrow> file_pos \<Rightarrow> file_pos \<Rightarrow> lock_type \<Rightarrow> files \<Rightarrow> unix_lock" where
  "unix_lock_of d start en ty s = \<lparr>ul_fd = unix_fd d, ul_type = ty, ul_start = sint start,
     ul_len = (if en = 0 \<or> en > max_unix_offset s then 0 else sint (en - start))\<rparr>"

definition no_fs_locks :: "nat \<Rightarrow> file_desc \<Rightarrow> files \<Rightarrow> files" where
  "no_fs_locks f d s = s\<lparr>descs := (descs s)(f \<mapsto> d\<lparr>fs_locks := False\<rparr>)\<rparr>"

text \<open>
  The kernel may know 32-bit offsets only: then the limit is lowered and the call made again, at most
  once.
\<close>

function set_unix_lock :: "nat \<Rightarrow> file_pos \<Rightarrow> file_pos \<Rightarrow> lock_type \<Rightarrow> files \<Rightarrow> (bool \<times> files) option" where
  "set_unix_lock f start en ty s =
     do { d \<leftarrow> descs s f;
          if \<not> fs_locks d then Some (True, s)
          else if start = en then Some (True, s)
          else if start > max_unix_offset s then Some (True, s)
          else (case fcntl (Some (unix_lock_of d start en ty s)) s of (r, s') \<Rightarrow>
            let shrink = (if max_unix_offset s > word_of_int INT_MAX
                          then set_unix_lock f start en ty (s'\<lparr>max_unix_offset := word_of_int INT_MAX\<rparr>)
                          else Some (False, file_set_error (the r) s')) in
            case r of None \<Rightarrow> Some (True, s')
            | Some EACCES \<Rightarrow> (case fcntl None s' of (r2, s') \<Rightarrow>
                if r2 = None then Some (False, set_error STATUS_FILE_LOCK_CONFLICT s')
                else Some (True, no_fs_locks f d s'))
            | Some EIO \<Rightarrow> Some (True, no_fs_locks f d s')
            | Some ENOLCK \<Rightarrow> Some (True, no_fs_locks f d s')
            | Some EAGAIN \<Rightarrow> Some (False, set_error STATUS_FILE_LOCK_CONFLICT s')
            | Some EBADF \<Rightarrow> if ty = F_WRLCK then Some (True, s') else Some (False, set_error STATUS_ACCESS_DENIED s')
            | Some EOVERFLOW \<Rightarrow> shrink
            | Some EINVAL \<Rightarrow> shrink
            | Some e \<Rightarrow> Some (False, file_set_error e s')) }"
  by pat_completeness auto
termination
proof (relation "measure (\<lambda>(f, a, b, ty, s). if max_unix_offset s > word_of_int INT_MAX then 1 else 0 :: nat)")
qed (auto simp: fcntl_def)

declare set_unix_lock.simps [simp del]

subsection \<open>Overlapping locks\<close>

definition lock_overlaps :: "file_lock \<Rightarrow> file_pos \<Rightarrow> file_pos \<Rightarrow> bool" where
  "lock_overlaps l start en =
     (if fl_end l \<noteq> 0 \<and> start \<ge> fl_end l then False
      else if en \<noteq> 0 \<and> fl_start l \<ge> en then False
      else True)"

text \<open>
  The list of holes of \<^verbatim>\<open>remove_unix_locks\<close>: the nodes of the buffer that are in use, linked by their index;
  the buffer has \<open>room\<close> for so many nodes, and taking one more is undefined.
\<close>

record hole =
  h_next :: "nat option"
  h_prev :: "nat option"
  h_start :: file_pos
  h_end :: file_pos

record holes =
  nodes :: "hole list"
  first :: "nat option"
  room :: nat

definition set_node :: "nat \<Rightarrow> (hole \<Rightarrow> hole) \<Rightarrow> holes \<Rightarrow> holes option" where
  "set_node i f hs = (if i < length (nodes hs) then Some (hs\<lparr>nodes := (nodes hs)[i := f (nodes hs ! i)]\<rparr>) else None)"

text \<open>Taking the empty hole \<open>i\<close> out: \<open>None\<close> as a result when it was the last one.\<close>

definition remove_hole :: "nat \<Rightarrow> holes \<Rightarrow> holes option option" where
  "remove_hole i hs =
     do { cur \<leftarrow> (if i < length (nodes hs) then Some (nodes hs ! i) else None);
          hs \<leftarrow> (case h_next cur of None \<Rightarrow> Some hs | Some n \<Rightarrow> set_node n (\<lambda>h. h\<lparr>h_prev := h_prev cur\<rparr>) hs);
          case h_prev cur of
            Some p \<Rightarrow> do { hs \<leftarrow> set_node p (\<lambda>h. h\<lparr>h_next := h_next cur\<rparr>) hs; Some (Some hs) }
          | None \<Rightarrow> Some (if h_next cur = None then None else Some (hs\<lparr>first := h_next cur\<rparr>)) }"

text \<open>
  The holes a lock touches, from \<open>cur\<close> on.  \<open>fuel\<close> bounds the steps; \<open>Some None\<close> is the jump
  to \<^verbatim>\<open>done\<close> when no hole is left.
\<close>

fun punch :: "nat \<Rightarrow> file_lock \<Rightarrow> nat option \<Rightarrow> holes \<Rightarrow> holes option option" where
  "punch fuel l None hs = Some (Some hs)"
| "punch 0 l (Some i) hs = None"
| "punch (Suc fuel) l (Some i) hs =
     do { cur \<leftarrow> (if i < length (nodes hs) then Some (nodes hs ! i) else None);
          if h_end cur \<le> fl_start l then punch fuel l (h_next cur) hs
          else if fl_end l \<noteq> 0 \<and> h_start cur \<ge> fl_end l then Some (Some hs)
          else if h_start cur \<ge> fl_start l then do {
            hs \<leftarrow> set_node i (\<lambda>h. h\<lparr>h_start := fl_end l\<rparr>) hs;
            if fl_end l \<noteq> 0 \<and> fl_end l < h_end cur then Some (Some hs)
            else do { r \<leftarrow> remove_hole i hs;
                      case r of None \<Rightarrow> Some None | Some hs \<Rightarrow> punch fuel l (h_next cur) hs } }
          else if fl_end l = 0 \<or> h_end cur \<le> fl_end l then do {
            hs \<leftarrow> set_node i (\<lambda>h. h\<lparr>h_end := fl_start l\<rparr>) hs;
            if h_start cur < fl_start l then punch fuel l (h_next cur) hs else None }
          else do {
            let n = length (nodes hs);
            if n \<ge> room hs then None else do {
            let hs = hs\<lparr>nodes := nodes hs @ [\<lparr>h_next = h_next cur, h_prev = Some i, h_start = fl_end l, h_end = h_end cur\<rparr>]\<rparr>;
            hs \<leftarrow> set_node i (\<lambda>h. h\<lparr>h_next := Some n, h_end := fl_start l\<rparr>) hs;
            if fl_end l < h_end cur \<and> fl_start l < fl_end l then Some (Some hs) else None } } }"

fun punch_all :: "file_lock list \<Rightarrow> file_pos \<Rightarrow> file_pos \<Rightarrow> holes \<Rightarrow> holes option option" where
  "punch_all [] start en hs = Some (Some hs)"
| "punch_all (l # ls) start en hs =
     (if fl_start l = fl_end l \<or> \<not> lock_overlaps l start en then punch_all ls start en hs
      else do { r \<leftarrow> punch (length (nodes hs) + 1) l (first hs) hs;
                case r of None \<Rightarrow> Some None | Some hs \<Rightarrow> punch_all ls start en hs })"

text \<open>The loop that clears the Unix locks of the holes.\<close>

fun clear_holes :: "nat \<Rightarrow> nat \<Rightarrow> nat option \<Rightarrow> holes \<Rightarrow> files \<Rightarrow> files option" where
  "clear_holes fuel f None hs s = Some s"
| "clear_holes 0 f (Some i) hs s = None"
| "clear_holes (Suc fuel) f (Some i) hs s =
     do { cur \<leftarrow> (if i < length (nodes hs) then Some (nodes hs ! i) else None);
          (_, s) \<leftarrow> set_unix_lock f (h_start cur) (h_end cur) F_UNLCK s;
          clear_holes fuel f (h_next cur) hs s }"

definition inode_locks :: "nat \<Rightarrow> files \<Rightarrow> file_lock list option" where
  "inode_locks n s = do { node \<leftarrow> inodes s n; those (map (locks s) (in_locks node)) }"

definition remove_unix_locks :: "nat \<Rightarrow> file_pos \<Rightarrow> file_pos \<Rightarrow> files \<Rightarrow> files option" where
  "remove_unix_locks f start en s =
     do { d \<leftarrow> descs s f;
          case fd_inode d of None \<Rightarrow> Some s
          | Some n \<Rightarrow>
              if \<not> fs_locks d \<or> start = en \<or> start > max_unix_offset s then Some s else
              let en = (if en = 0 \<or> en > max_unix_offset s then max_unix_offset s + 1 else en) in do {
              ls \<leftarrow> inode_locks n s;
              let overlapping = length (filter (\<lambda>l. fl_start l \<noteq> fl_end l \<and> lock_overlaps l start en) ls);
              if overlapping = 0 then do { (_, s) \<leftarrow> set_unix_lock f start en F_UNLCK s; Some s }
              else (case malloc s of (ok, s) \<Rightarrow>
                if \<not> ok then Some s else do {
                r \<leftarrow> punch_all ls start en \<lparr>nodes = [\<lparr>h_next = None, h_prev = None, h_start = start, h_end = en\<rparr>], first = Some 0, room = overlapping + 1\<rparr>;
                case r of None \<Rightarrow> Some s
                | Some hs \<Rightarrow> clear_holes (length (nodes hs)) f (first hs) hs s }) } }"

subsection \<open>Adding and removing locks\<close>

definition add_lock :: "nat \<Rightarrow> bool \<Rightarrow> file_pos \<Rightarrow> file_pos \<Rightarrow> files \<Rightarrow> (nat option \<times> files) option" where
  "add_lock f shared start en s =
     do { d \<leftarrow> descs s f;
          case fd_inode d of None \<Rightarrow> Some (None, set_error STATUS_INVALID_HANDLE s)
          | Some n \<Rightarrow>
              (case mem_alloc s of (ok, s) \<Rightarrow>
                 if \<not> ok then Some (None, s) else do {
                 (ok, s) \<leftarrow> set_unix_lock f start en (if shared then F_RDLCK else F_WRLCK) s;
                 if \<not> ok then Some (None, s) else do {
                 d \<leftarrow> descs s f;
                 node \<leftarrow> inodes s n;
                 let l = next_lock s;
                 Some (Some l, s\<lparr>next_lock := l + 1,
                   locks := (locks s)(l \<mapsto> \<lparr>fl_fd = f, fl_shared = shared, fl_start = start, fl_end = en, fl_process = Some (client s)\<rparr>),
                   descs := (descs s)(f \<mapsto> d\<lparr>fd_locks := l # fd_locks d\<rparr>),
                   inodes := (inodes s)(n \<mapsto> node\<lparr>in_locks := l # in_locks node\<rparr>),
                   process_locks := (process_locks s)(client s := l # process_locks s (client s))\<rparr>) } }) }"

text \<open>Closing the pending Unix descriptors; those kept for a name to unlink stay in the list.\<close>

definition inode_close_pending :: "nat \<Rightarrow> bool \<Rightarrow> files \<Rightarrow> files option" where
  "inode_close_pending n keep_unlinks s =
     do { node \<leftarrow> inodes s n;
          Some (s\<lparr>inodes := (inodes s)(n \<mapsto> node\<lparr>in_closed :=
                    map (\<lambda>(_, u). (-1, u)) (filter (\<lambda>(_, u). keep_unlinks \<and> u) (in_closed node))\<rparr>),
                  closed_fds := rev (filter (\<lambda>u. u \<noteq> -1) (map fst (in_closed node))) @ closed_fds s\<rparr>) }"

definition remove_lock :: "nat \<Rightarrow> bool \<Rightarrow> files \<Rightarrow> files option" where
  "remove_lock l remove_unix s =
     do { lk \<leftarrow> locks s l;
          d \<leftarrow> descs s (fl_fd lk);
          n \<leftarrow> fd_inode d;
          node \<leftarrow> inodes s n;
          p \<leftarrow> fl_process lk;
          ds \<leftarrow> list_remove l (fd_locks d);
          ns \<leftarrow> list_remove l (in_locks node);
          ps \<leftarrow> list_remove l (process_locks s p);
          let s = s\<lparr>descs := (descs s)(fl_fd lk \<mapsto> d\<lparr>fd_locks := ds\<rparr>), inodes := (inodes s)(n \<mapsto> node\<lparr>in_locks := ns\<rparr>),
                    process_locks := (process_locks s)(p := ps)\<rparr>;
          s \<leftarrow> (if remove_unix then remove_unix_locks (fl_fd lk) (fl_start lk) (fl_end lk) s else Some s);
          s \<leftarrow> (if ns = [] then inode_close_pending n True s else Some s);
          Some (s\<lparr>locks := (locks s)(l := None), lost_locks := l # lost_locks s\<rparr>) }"

text \<open>The loops end when the list is empty: they are given one step for each lock of it.\<close>

fun remove_each :: "nat list \<Rightarrow> files \<Rightarrow> files option" where
  "remove_each [] s = Some s"
| "remove_each (l # ls) s = do { s \<leftarrow> remove_lock l True s; remove_each ls s }"

definition remove_process_locks :: "oid \<Rightarrow> files \<Rightarrow> files option" where
  "remove_process_locks p s = remove_each (process_locks s p) s"

fun remove_all_fd :: "nat list \<Rightarrow> file_pos \<Rightarrow> file_pos \<Rightarrow> files \<Rightarrow> (file_pos \<times> file_pos \<times> files) option" where
  "remove_all_fd [] start en s = Some (start, en, s)"
| "remove_all_fd (l # ls) start en s =
     do { lk \<leftarrow> locks s l;
          let start = (if fl_start lk < start then fl_start lk else start);
          let en = (if fl_end lk = 0 \<or> fl_end lk > en then fl_end lk - 1 else en);
          s \<leftarrow> remove_lock l False s;
          remove_all_fd ls start en s }"

definition remove_fd_locks :: "nat \<Rightarrow> files \<Rightarrow> files option" where
  "remove_fd_locks f s =
     do { d \<leftarrow> descs s f;
          (start, en, s) \<leftarrow> remove_all_fd (fd_locks d) FILE_POS_T_MAX 0 s;
          if start < en then remove_unix_locks f start (en + 1) s else Some s }"

text \<open>
  The outcome of a lock request: the lock, the lock the caller has to wait for (through a handle
  made by \<^verbatim>\<open>alloc_handle\<close>, theory \<open>Handles\<close>), or nothing, with an error.
\<close>

datatype lock_outcome = Locked nat | Wait_for nat | Refused

fun find_conflict :: "nat list \<Rightarrow> file_pos \<Rightarrow> file_pos \<Rightarrow> bool \<Rightarrow> files \<Rightarrow> nat option option" where
  "find_conflict [] start en shared s = Some None"
| "find_conflict (l # ls) start en shared s =
     do { lk \<leftarrow> locks s l;
          if \<not> lock_overlaps lk start en then find_conflict ls start en shared s
          else if fl_shared lk \<and> shared then find_conflict ls start en shared s
          else Some (Some l) }"

definition lock_fd :: "nat \<Rightarrow> file_pos \<Rightarrow> file_pos \<Rightarrow> bool \<Rightarrow> bool \<Rightarrow> files \<Rightarrow> (lock_outcome \<times> files) option" where
  "lock_fd f start n shared wait s =
     (let en = start + n in
      if en \<noteq> 0 \<and> en < start then Some (Refused, set_error STATUS_INVALID_PARAMETER s)
      else do {
        d \<leftarrow> descs s f;
        i \<leftarrow> fd_inode d;
        node \<leftarrow> inodes s i;
        c \<leftarrow> find_conflict (in_locks node) start en shared s;
        case c of
          Some l \<Rightarrow> Some (if wait then (Wait_for l, set_error STATUS_PENDING s) else (Refused, set_error STATUS_FILE_LOCK_CONFLICT s))
        | None \<Rightarrow> do {
            (r, s) \<leftarrow> add_lock f shared start en s;
            case r of Some l \<Rightarrow> Some (Locked l, s)
            | None \<Rightarrow> Some (Refused, if get_error s = STATUS_FILE_LOCK_CONFLICT \<and> wait then set_error STATUS_PENDING s else s) } })"

fun find_exact :: "nat list \<Rightarrow> file_pos \<Rightarrow> file_pos \<Rightarrow> files \<Rightarrow> nat option option" where
  "find_exact [] start en s = Some None"
| "find_exact (l # ls) start en s =
     do { lk \<leftarrow> locks s l; if fl_start lk = start \<and> fl_end lk = en then Some (Some l) else find_exact ls start en s }"

definition unlock_fd :: "nat \<Rightarrow> file_pos \<Rightarrow> file_pos \<Rightarrow> files \<Rightarrow> files option" where
  "unlock_fd f start n s =
     (let en = start + n in do {
        d \<leftarrow> descs s f;
        r \<leftarrow> find_exact (fd_locks d) start en s;
        case r of Some l \<Rightarrow> remove_lock l True s | None \<Rightarrow> Some (set_error STATUS_FILE_LOCK_CONFLICT s) })"

subsection \<open>Sharing modes\<close>

abbreviation "FILE_SHARE_READ \<equiv> (1 :: 32 word)"
abbreviation "FILE_SHARE_WRITE \<equiv> (2 :: 32 word)"
abbreviation "FILE_SHARE_DELETE \<equiv> (4 :: 32 word)"

definition FILE_UNIX_READ_ACCESS :: "32 word" where "FILE_UNIX_READ_ACCESS = 0x89"
definition FILE_UNIX_WRITE_ACCESS :: "32 word" where "FILE_UNIX_WRITE_ACCESS = 0x112"

text \<open>The loop over the other open descriptors: the sharing they all allow and the access one of them has.\<close>

fun others_open :: "nat list \<Rightarrow> nat \<Rightarrow> 32 word \<Rightarrow> 32 word \<Rightarrow> files \<Rightarrow> (32 word \<times> 32 word) option" where
  "others_open [] f sharing acc s = Some (sharing, acc)"
| "others_open (g # gs) f sharing acc s =
     do { d \<leftarrow> descs s g;
          if g \<noteq> f then others_open gs f (sharing AND fd_sharing d) (acc OR fd_access d) s
          else others_open gs f sharing acc s }"

definition check_sharing :: "nat \<Rightarrow> 32 word \<Rightarrow> 32 word \<Rightarrow> files \<Rightarrow> (bool \<times> files) option" where
  "check_sharing f acc sharing s =
     (let all = FILE_SHARE_READ OR FILE_SHARE_WRITE OR FILE_SHARE_DELETE;
          sharing = (if acc = 0 then all else sharing) in do {
        d \<leftarrow> descs s f;
        let s = s\<lparr>descs := (descs s)(f \<mapsto> d\<lparr>fd_access := acc, fd_sharing := sharing\<rparr>)\<rparr>;
        n \<leftarrow> fd_inode d;
        node \<leftarrow> inodes s n;
        (existing_sharing, existing_access) \<leftarrow> others_open (in_open node) f all 0 s;
        Some (\<not> (has acc FILE_UNIX_READ_ACCESS \<and> \<not> has existing_sharing FILE_SHARE_READ
              \<or> has acc FILE_UNIX_WRITE_ACCESS \<and> \<not> has existing_sharing FILE_SHARE_WRITE
              \<or> has acc 0x00010000 \<and> \<not> has existing_sharing FILE_SHARE_DELETE
              \<or> has existing_access FILE_UNIX_READ_ACCESS \<and> \<not> has sharing FILE_SHARE_READ
              \<or> has existing_access FILE_UNIX_WRITE_ACCESS \<and> \<not> has sharing FILE_SHARE_WRITE
              \<or> has existing_access 0x00010000 \<and> \<not> has sharing FILE_SHARE_DELETE), s) })"

end
