(* ===== verification/Locks_Correct.thy ===== *)
theory Locks_Correct
  imports Locks
begin

text \<open>
  What the file locks guarantee: conflicting locks are never held together, and
  \<^verbatim>\<open>remove_unix_locks\<close> clears the Unix locks of just the bytes that no lock covers any more when
  the locks are listed by increasing start; for other lists it does not, and a state shows it.
\<close>

subsection \<open>Bytes\<close>

text \<open>A lock of length 0 covers nothing; otherwise an end of 0 stands for the end of the address space.\<close>

definition span :: "file_pos \<Rightarrow> file_pos \<Rightarrow> int set" where
  "span a b = (if a = b then {} else if b = 0 then {uint a..} else {uint a..<uint b})"

definition lock_bytes :: "file_lock \<Rightarrow> int set" where
  "lock_bytes l = span (fl_start l) (fl_end l)"

definition hole_bytes :: "hole \<Rightarrow> int set" where
  "hole_bytes h = {uint (h_start h)..<uint (h_end h)}"

text \<open>The bytes a call of \<^verbatim>\<open>fcntl\<close> is about: a length of 0 means all that follow, a negative one those before.\<close>

definition unix_bytes :: "unix_lock \<Rightarrow> int set" where
  "unix_bytes u = (if ul_len u = 0 then {ul_start u..}
     else if ul_len u > 0 then {ul_start u..<ul_start u + ul_len u}
     else {ul_start u + ul_len u..<ul_start u})"

subsection \<open>The list of holes\<close>

text \<open>
  \<open>linked ns rs n\<close>: the nodes of \<open>rs\<close>, the last one first, are linked in both directions and the
  last one to \<open>n\<close>.
\<close>

fun linked :: "hole list \<Rightarrow> nat list \<Rightarrow> nat option \<Rightarrow> bool" where
  "linked ns [] n = True"
| "linked ns (z # ys) n = (z < length ns \<and> h_next (ns ! z) = n \<and>
     h_prev (ns ! z) = (case ys of [] \<Rightarrow> None | y # _ \<Rightarrow> Some y) \<and> h_start (ns ! z) < h_end (ns ! z) \<and> linked ns ys (Some z))"

definition covered :: "hole list \<Rightarrow> nat list \<Rightarrow> int set" where
  "covered ns rs = (\<Union>i \<in> set rs. hole_bytes (ns ! i))"

lemma covered_simps [simp]: "covered ns [] = {}" "covered ns (z # ys) = hole_bytes (ns ! z) \<union> covered ns ys"
  by (simp_all add: covered_def)

lemma linked_cong:
  "(\<And>i. i \<in> set rs \<Longrightarrow> ns' ! i = ns ! i) \<Longrightarrow> length ns \<le> length ns' \<Longrightarrow> linked ns rs n \<Longrightarrow> linked ns' rs n"
  by (induction rs arbitrary: n) auto

lemma covered_cong: "(\<And>i. i \<in> set rs \<Longrightarrow> ns' ! i = ns ! i) \<Longrightarrow> covered ns' rs = covered ns rs"
  by (simp add: covered_def)

lemma linked_in: "linked ns rs n \<Longrightarrow> i \<in> set rs \<Longrightarrow> i < length ns \<and> h_start (ns ! i) < h_end (ns ! i)"
  by (induction rs arbitrary: n) auto

definition head :: "nat list \<Rightarrow> nat option \<Rightarrow> nat option" where
  "head rs n = (if rs = [] then n else Some (last rs))"

lemma head_simps [simp]: "head [] n = n" "head (z # ys) n = head ys (Some z)"
  by (simp_all add: head_def)

text \<open>Holes in front of a lock are passed over.\<close>

lemma punch_walk:
  assumes "linked (nodes hs) rs n" "\<And>i. i \<in> set rs \<Longrightarrow> h_end (nodes hs ! i) \<le> fl_start l"
  shows "punch (length rs + fuel) l (head rs n) hs = punch fuel l n hs"
  using assms
proof (induction rs arbitrary: n fuel)
  case (Cons z ys)
  have "punch (length ys + Suc fuel) l (head ys (Some z)) hs = punch (Suc fuel) l (Some z) hs"
    by (rule Cons.IH) (use Cons.prems in auto)
  also have "\<dots> = punch fuel l n hs" using Cons.prems by auto
  finally show ?case by (simp only: list.size add_Suc_right add_Suc add_0_right head_simps)
qed simp

lemma linked_length: "linked ns rs n \<Longrightarrow> distinct rs \<Longrightarrow> length rs \<le> length ns"
proof -
  assume "linked ns rs n" "distinct rs"
  then have "set rs \<subseteq> {..<length ns}" using linked_in by blast
  then show "length rs \<le> length ns" using \<open>distinct rs\<close> by (metis card_lessThan card_mono distinct_card finite_lessThan)
qed

lemma hole_lock_bytes:
  assumes "h_start h < h_end h" "fl_end l = 0 \<or> fl_start l \<le> fl_end l" "fl_start l \<noteq> fl_end l"
  shows "h_end h \<le> fl_start l \<Longrightarrow> hole_bytes h \<inter> lock_bytes l = {}"
    "fl_end l \<noteq> 0 \<Longrightarrow> fl_end l \<le> h_start h \<Longrightarrow> hole_bytes h \<inter> lock_bytes l = {}"
    "fl_start l \<le> h_start h \<Longrightarrow> fl_end l = 0 \<or> h_end h \<le> fl_end l \<Longrightarrow> hole_bytes h \<subseteq> lock_bytes l"
    "fl_start l \<le> h_start h \<Longrightarrow> h_start h < fl_end l \<Longrightarrow> fl_end l < h_end h \<Longrightarrow>
      hole_bytes h - lock_bytes l = {uint (fl_end l)..<uint (h_end h)}"
    "h_start h < fl_start l \<Longrightarrow> fl_start l < h_end h \<Longrightarrow> fl_end l = 0 \<or> h_end h \<le> fl_end l \<Longrightarrow>
      hole_bytes h - lock_bytes l = {uint (h_start h)..<uint (fl_start l)}"
    "h_start h < fl_start l \<Longrightarrow> fl_end l \<noteq> 0 \<Longrightarrow> fl_end l < h_end h \<Longrightarrow>
      hole_bytes h - lock_bytes l = {uint (h_start h)..<uint (fl_start l)} \<union> {uint (fl_end l)..<uint (h_end h)}"
  using assms order_trans [OF uint_ge_0 [of "h_start h"]] by (auto simp: hole_bytes_def lock_bytes_def span_def word_le_def word_less_def split: if_splits)

text \<open>The list of holes between two locks; the holes but the last one lie before \<open>t\<close>.\<close>

definition holes_ok :: "file_pos \<Rightarrow> nat list \<Rightarrow> holes \<Rightarrow> bool" where
  "holes_ok t rs hs \<longleftrightarrow> rs \<noteq> [] \<and> distinct rs \<and> linked (nodes hs) rs None \<and> first hs = head rs None \<and>
     (\<forall>i \<in> set (tl rs). h_end (nodes hs ! i) \<le> t)"

definition lock_ok :: "file_lock \<Rightarrow> bool" where
  "lock_ok l \<longleftrightarrow> fl_end l = 0 \<or> fl_start l \<le> fl_end l"

text \<open>What one lock does to the holes: \<open>U\<close> are the bytes they cover afterwards.\<close>

definition punched :: "file_pos \<Rightarrow> holes \<Rightarrow> int set \<Rightarrow> holes option option \<Rightarrow> bool" where
  "punched t hs U r \<longleftrightarrow> (case r of None \<Rightarrow> False | Some None \<Rightarrow> U = {}
     | Some (Some hs') \<Rightarrow> (\<exists>rs'. holes_ok t rs' hs' \<and> covered (nodes hs') rs' = U) \<and> room hs' = room hs \<and>
         length (nodes hs') \<le> length (nodes hs) + 1)"

lemma punchedI:
  "holes_ok t rs' hs' \<Longrightarrow> covered (nodes hs') rs' = U \<Longrightarrow> room hs' = room hs \<Longrightarrow>
   length (nodes hs') \<le> length (nodes hs) + 1 \<Longrightarrow> punched t hs U (Some (Some hs'))"
  by (auto simp: punched_def)

text \<open>The holes before the last one keep their bytes.\<close>

lemma covered_before:
  assumes "linked ns ys n" "\<forall>i \<in> set ys. h_end (ns ! i) \<le> fl_start l" "lock_ok l" "fl_start l \<noteq> fl_end l"
  shows "covered ns ys - lock_bytes l = covered ns ys"
proof -
  have "hole_bytes (ns ! i) \<inter> lock_bytes l = {}" if "i \<in> set ys" for i
    using linked_in [OF assms(1) that] assms(2-4) that hole_lock_bytes(1) [of "ns ! i" l] by (auto simp: lock_ok_def)
  then show ?thesis by (auto simp: covered_def)
qed

lemma nth_update_other: "z \<notin> set ys \<Longrightarrow> i \<in> set ys \<Longrightarrow> ns[z := h] ! i = ns ! i"
  by (cases "i = z") auto

lemma linked_update_last:
  assumes "linked ns (z # ys) n" "distinct (z # ys)" "h_start h < h_end h" "h_prev h = h_prev (ns ! z)" "h_next h = m"
  shows "linked (ns[z := h]) (z # ys) m"
proof -
  have "linked (ns[z := h]) ys (Some z)"
    by (rule linked_cong [of ys _ ns]) (use assms(1,2) in \<open>auto simp: nth_update_other\<close>)
  then show ?thesis using assms by auto
qed

lemma covered_update: "z \<notin> set ys \<Longrightarrow> covered (ns[z := h]) ys = covered ns ys"
  by (rule covered_cong) (rule nth_update_other)

lemma punch_last:
  assumes ok: "holes_ok t rs hs" and t: "t \<le> fl_start l" and l: "lock_ok l" "fl_start l \<noteq> fl_end l"
    and room: "length (nodes hs) < room hs"
  shows "punched (fl_start l) hs (covered (nodes hs) rs - lock_bytes l) (punch (length (nodes hs) + 1) l (first hs) hs)"
proof -
  obtain z ys where rs: "rs = z # ys" using ok by (cases rs) (auto simp: holes_ok_def)
  let ?h = "nodes hs ! z"
  have linked: "linked (nodes hs) (z # ys) None" and dist: "distinct (z # ys)" and first: "first hs = head ys (Some z)"
    and before: "\<forall>i \<in> set ys. h_end (nodes hs ! i) \<le> fl_start l"
    using ok t by (auto simp: holes_ok_def rs)
  have z: "z < length (nodes hs)" "h_next ?h = None" "h_start ?h < h_end ?h" "linked (nodes hs) ys (Some z)"
      "h_prev ?h = (case ys of [] \<Rightarrow> None | y # _ \<Rightarrow> Some y)"
    using linked by auto
  note bytes = hole_lock_bytes [of ?h l, OF z(3) l(1) [unfolded lock_ok_def] l(2)]
  have C: "covered (nodes hs) rs - lock_bytes l = (hole_bytes ?h - lock_bytes l) \<union> covered (nodes hs) ys"
    using covered_before [OF z(4) before l] by (auto simp: rs)
  obtain k where k: "length (nodes hs) + 1 = length ys + Suc (Suc k)"
    using linked_length [OF linked dist] by (auto simp: le_iff_add)
  have walk: "punch (length (nodes hs) + 1) l (first hs) hs = punch (Suc (Suc k)) l (Some z) hs"
    unfolding first k by (rule punch_walk [OF z(4)]) (use before in auto)
  have set: "set_node z f hs = Some (hs\<lparr>nodes := (nodes hs)[z := f ?h]\<rparr>)" for f
    using z(1) by (simp add: set_node_def)
  have upd: "holes_ok (fl_start l) rs (hs\<lparr>nodes := (nodes hs)[z := h]\<rparr>)"
      "covered ((nodes hs)[z := h]) rs = hole_bytes h \<union> covered (nodes hs) ys"
    if "h_start h < h_end h" "h_prev h = h_prev ?h" "h_next h = None" for h
    using linked_update_last [OF linked dist, of h None] that dist first before z(1)
    by (auto simp: holes_ok_def rs covered_update nth_update_other)
  consider (front) "h_end ?h \<le> fl_start l" | (rear) "\<not> h_end ?h \<le> fl_start l" "fl_end l \<noteq> 0" "fl_end l \<le> h_start ?h"
    | (touch) "\<not> h_end ?h \<le> fl_start l" "\<not> (fl_end l \<noteq> 0 \<and> fl_end l \<le> h_start ?h)" by blast
  then show ?thesis
  proof cases
    case front
    then have "punch (Suc (Suc k)) l (Some z) hs = Some (Some hs)" using z by simp
    moreover have "holes_ok (fl_start l) rs hs" using ok t by (auto simp: holes_ok_def intro: order_trans)
    moreover have "hole_bytes ?h - lock_bytes l = hole_bytes ?h" using bytes(1) front by blast
    ultimately show ?thesis unfolding walk C by (auto simp: rs intro: punchedI)
  next
    case rear
    then have "punch (Suc (Suc k)) l (Some z) hs = Some (Some hs)" using z by simp
    moreover have "holes_ok (fl_start l) rs hs" using ok t by (auto simp: holes_ok_def intro: order_trans)
    moreover have "hole_bytes ?h - lock_bytes l = hole_bytes ?h" using bytes(2) rear by blast
    ultimately show ?thesis unfolding walk C by (auto simp: rs intro: punchedI)
  next
    case touch
    consider (front) "fl_start l \<le> h_start ?h" "fl_end l \<noteq> 0" "fl_end l < h_end ?h"
      | (all) "fl_start l \<le> h_start ?h" "fl_end l = 0 \<or> h_end ?h \<le> fl_end l"
      | (rear) "h_start ?h < fl_start l" "fl_end l = 0 \<or> h_end ?h \<le> fl_end l"
      | (split) "h_start ?h < fl_start l" "fl_end l \<noteq> 0" "fl_end l < h_end ?h" by force
    then show ?thesis
    proof cases
      case front
      let ?n = "?h\<lparr>h_start := fl_end l\<rparr>"
      have r: "punch (Suc (Suc k)) l (Some z) hs = Some (Some (hs\<lparr>nodes := (nodes hs)[z := ?n]\<rparr>))"
        using touch front z set by simp
      have "hole_bytes ?h - lock_bytes l = hole_bytes ?n"
        using bytes(4) touch front by (auto simp: hole_bytes_def)
      then show ?thesis unfolding walk C r
        by (intro punchedI [OF upd(1)]) (use front z upd(2) [of ?n] in simp_all)
    next
      case rear
      let ?n = "?h\<lparr>h_end := fl_start l\<rparr>"
      have r: "punch (Suc (Suc k)) l (Some z) hs = Some (Some (hs\<lparr>nodes := (nodes hs)[z := ?n]\<rparr>))"
        using touch rear z set by auto
      have "hole_bytes ?h - lock_bytes l = hole_bytes ?n"
        using bytes(5) touch rear by (auto simp: hole_bytes_def)
      then show ?thesis unfolding walk C r
        by (intro punchedI [OF upd(1)]) (use rear z upd(2) [of ?n] in simp_all)
    next
      case all
      have none: "hole_bytes ?h - lock_bytes l = {}" using bytes(3) all by blast
      let ?ns = "(nodes hs)[z := ?h\<lparr>h_start := fl_end l\<rparr>]"
      show ?thesis
      proof (cases ys)
        case Nil
        have "punch (Suc (Suc k)) l (Some z) hs = Some None"
          using touch all z set Nil by (auto simp: remove_hole_def)
        then show ?thesis unfolding walk C none Nil by (simp add: punched_def)
      next
        case (Cons y ys')
        let ?ms = "?ns[y := (?ns ! y)\<lparr>h_next := None\<rparr>]"
        have y: "y < length (nodes hs)" "y \<noteq> z" "?ns ! y = nodes hs ! y" using z(4) dist Cons by auto
        have r: "punch (Suc (Suc k)) l (Some z) hs = Some (Some (hs\<lparr>nodes := ?ms\<rparr>))"
          using touch all z set Cons y by (auto simp: remove_hole_def set_node_def)
        have L: "linked ?ns (y # ys') (Some z)"
          by (rule linked_cong [of "y # ys'" _ "nodes hs"]) (use z(4) dist Cons in \<open>auto simp: nth_update_other\<close>)
        have "linked ?ms (y # ys') None" by (rule linked_update_last [OF L]) (use dist Cons L in auto)
        moreover have "covered ?ms (y # ys') = covered (nodes hs) (y # ys')"
          using y dist Cons by (auto simp: covered_update hole_bytes_def)
        moreover have "\<forall>i \<in> set ys'. h_end (?ms ! i) \<le> fl_start l"
          using before dist Cons by (auto simp: nth_update_other nth_list_update)
        ultimately show ?thesis unfolding walk C none r
          by (intro punchedI [of _ "y # ys'"]) (use dist Cons first in \<open>simp_all add: holes_ok_def del: linked.simps covered_simps\<close>)
      qed
    next
      case split
      let ?c = "?h\<lparr>h_next := Some (length (nodes hs)), h_end := fl_start l\<rparr>"
      let ?new = "\<lparr>h_next = None, h_prev = Some z, h_start = fl_end l, h_end = h_end ?h\<rparr>"
      let ?ns = "nodes hs @ [?new]" let ?ms = "?ns[z := ?c]" let ?n = "length (nodes hs)"
      have lt: "fl_start l < fl_end l" using l split(2) by (auto simp: lock_ok_def)
      have r: "punch (Suc (Suc k)) l (Some z) hs = Some (Some (hs\<lparr>nodes := ?ms\<rparr>))"
        using touch split z lt room by (auto simp: set_node_def nth_append not_le)
      have L: "linked ?ns (z # ys) None"
        by (rule linked_cong [OF _ _ linked]) (use linked_in [OF linked] in \<open>auto simp: nth_append\<close>)
      have new: "?ms ! ?n = ?new" "?ms ! z = ?c" using z(1) by (simp_all add: nth_append nth_list_update)
      have old: "?ms ! i = nodes hs ! i" if "i \<in> set ys" for i
        using that dist linked_in [OF z(4) that] by (cases "i = z") (auto simp: nth_append)
      have unused: "?n \<notin> set (z # ys)" using linked_in [OF linked] by blast
      have "linked ?ms (z # ys) (Some ?n)"
        by (rule linked_update_last [OF L dist]) (use split z in \<open>simp_all add: nth_append\<close>)
      then have "linked ?ms (?n # z # ys) None" using new split(3) by simp
      moreover have "covered ?ms (?n # z # ys) = hole_bytes ?new \<union> hole_bytes ?c \<union> covered (nodes hs) ys"
      proof -
        have "covered ?ms ys = covered (nodes hs) ys"
          by (rule covered_cong) (rule old)
        then show ?thesis by (simp only: covered_simps new Un_assoc)
      qed
      moreover have "hole_bytes ?h - lock_bytes l = hole_bytes ?new \<union> hole_bytes ?c"
        using bytes(6) split by (auto simp: hole_bytes_def)
      moreover have "\<forall>i \<in> set (z # ys). h_end (?ms ! i) \<le> fl_start l"
        using new(2) before old by simp
      ultimately show ?thesis unfolding walk C r
        by (intro punchedI [of _ "?n # z # ys"]) (use dist unused first in \<open>simp_all add: holes_ok_def Un_ac del: linked.simps covered_simps\<close>)
    qed
  qed
qed

subsection \<open>All the locks\<close>

abbreviation touches :: "file_pos \<Rightarrow> file_pos \<Rightarrow> file_lock \<Rightarrow> bool" where
  "touches start en l \<equiv> fl_start l \<noteq> fl_end l \<and> lock_overlaps l start en"

lemma not_touches: "en \<noteq> 0 \<Longrightarrow> \<not> touches start en l \<Longrightarrow> {uint start..<uint en} \<inter> lock_bytes l = {}"
  by (auto simp: lock_overlaps_def lock_bytes_def span_def word_le_def word_less_def split: if_splits)

definition punched_all :: "int set \<Rightarrow> holes option option \<Rightarrow> bool" where
  "punched_all U r \<longleftrightarrow> (case r of None \<Rightarrow> False | Some None \<Rightarrow> U = {}
     | Some (Some hs') \<Rightarrow> \<exists>t rs'. holes_ok t rs' hs' \<and> covered (nodes hs') rs' = U)"

lemma punch_all_correct:
  assumes "holes_ok t rs hs" "sorted (map fl_start ls)" "\<forall>l \<in> set ls. t \<le> fl_start l \<and> lock_ok l"
    "covered (nodes hs) rs \<subseteq> {uint start..<uint en}" "en \<noteq> 0"
    "length (nodes hs) + length (filter (touches start en) ls) \<le> room hs"
  shows "punched_all (covered (nodes hs) rs - \<Union>(lock_bytes ` set ls)) (punch_all ls start en hs)"
  using assms
proof (induction ls arbitrary: t rs hs)
  case Nil
  then show ?case by (auto simp: punched_all_def)
next
  case (Cons l ls)
  show ?case
  proof (cases "touches start en l")
    case False
    have "covered (nodes hs) rs - \<Union>(lock_bytes ` set ls) = covered (nodes hs) rs - \<Union>(lock_bytes ` set (l # ls))"
      using not_touches [OF Cons.prems(5) False] Cons.prems(4) by auto
    then show ?thesis using Cons.IH [OF Cons.prems(1), simplified] Cons.prems False by auto
  next
    case True
    define r where "r = punch (length (nodes hs) + 1) l (first hs) hs"
    have step: "punch_all (l # ls) start en hs = (r \<bind> case_option (Some None) (punch_all ls start en))"
      using True unfolding r_def by (simp del: punch.simps)
    have r: "punched (fl_start l) hs (covered (nodes hs) rs - lock_bytes l) r"
      unfolding r_def by (rule punch_last [OF Cons.prems(1)]) (use Cons.prems True in auto)
    show ?thesis
    proof (cases r)
      case None
      then show ?thesis using r by (simp add: punched_def)
    next
      case (Some r')
      show ?thesis
      proof (cases r')
        case None
        then show ?thesis using r Some step by (auto simp: punched_def punched_all_def)
      next
        case (Some hs')
        with r \<open>r = Some r'\<close> obtain rs' where hs': "holes_ok (fl_start l) rs' hs'"
            "covered (nodes hs') rs' = covered (nodes hs) rs - lock_bytes l" "room hs' = room hs"
            "length (nodes hs') \<le> length (nodes hs) + 1"
          by (auto simp: punched_def)
        have "punched_all (covered (nodes hs') rs' - \<Union>(lock_bytes ` set ls)) (punch_all ls start en hs')"
          by (rule Cons.IH [OF hs'(1)]) (use Cons.prems hs' True in auto)
        moreover have "covered (nodes hs') rs' - \<Union>(lock_bytes ` set ls) = covered (nodes hs) rs - \<Union>(lock_bytes ` set (l # ls))"
          using hs'(2) by auto
        ultimately show ?thesis using step Some \<open>r = Some r'\<close> by simp
      qed
    qed
  qed
qed

subsection \<open>Clearing the Unix locks\<close>

lemma no_results [simp]: "fcntl_results s = [] \<Longrightarrow> s\<lparr>fcntl_results := []\<rparr> = s"
  by simp

lemma set_unix_lock_ok:
  assumes "descs s f = Some d" "fs_locks d" "fcntl_results s = []" "a \<noteq> b" "a \<le> max_unix_offset s"
  shows "set_unix_lock f a b ty s = Some (True, s\<lparr>unix_locks := unix_lock_of d a b ty s # unix_locks s\<rparr>)"
  using assms by (subst set_unix_lock.simps) (simp add: fcntl_def)

lemma unix_lock_of_same [simp]: "unix_lock_of d a b ty (s\<lparr>unix_locks := x\<rparr>) = unix_lock_of d a b ty s"
  by (simp add: unix_lock_of_def)

abbreviation unlock_of :: "file_desc \<Rightarrow> files \<Rightarrow> hole \<Rightarrow> unix_lock" where
  "unlock_of d s h \<equiv> unix_lock_of d (h_start h) (h_end h) F_UNLCK s"

lemma clear_holes_walk:
  assumes "linked (nodes hs) rs n" "descs s f = Some d" "fs_locks d" "fcntl_results s = []"
    "\<forall>i \<in> set rs. h_start (nodes hs ! i) \<le> max_unix_offset s"
  shows "clear_holes (length rs + fuel) f (head rs n) hs s
    = clear_holes fuel f n hs (s\<lparr>unix_locks := map (\<lambda>i. unlock_of d s (nodes hs ! i)) rs @ unix_locks s\<rparr>)"
  using assms
proof (induction rs arbitrary: n fuel)
  case (Cons z ys)
  let ?s = "s\<lparr>unix_locks := map (\<lambda>i. unlock_of d s (nodes hs ! i)) ys @ unix_locks s\<rparr>"
  have "clear_holes (length ys + Suc fuel) f (head ys (Some z)) hs s = clear_holes (Suc fuel) f (Some z) hs ?s"
    by (rule Cons.IH) (use Cons.prems in auto)
  also have "\<dots> = clear_holes fuel f n hs
      (s\<lparr>unix_locks := map (\<lambda>i. unlock_of d s (nodes hs ! i)) (z # ys) @ unix_locks s\<rparr>)"
    using Cons.prems set_unix_lock_ok [of ?s f d "h_start (nodes hs ! z)" "h_end (nodes hs ! z)" F_UNLCK] by auto
  finally show ?case by (simp only: list.size add_Suc_right add_Suc add_0_right head_simps)
qed simp

text \<open>The limit of the offsets is at most the largest signed one, as it is when the program starts.\<close>

definition limit_ok :: "files \<Rightarrow> bool" where
  "limit_ok s \<longleftrightarrow> uint (max_unix_offset s) < 2 ^ 63"

lemma sint_small: "uint (w :: 64 word) < 2 ^ 63 \<Longrightarrow> sint w = uint w"
  by (simp add: sint_uint signed_take_bit_int_eq_self order_trans [OF _ uint_ge_0])

lemma uint_minus: "(a :: 64 word) \<le> b \<Longrightarrow> uint (b - a) = uint b - uint a"
  by (simp add: uint_sub_if_size word_le_def)

lemma after_limit: "limit_ok s \<Longrightarrow> uint (max_unix_offset s + 1) = uint (max_unix_offset s) + 1"
  by (simp add: limit_ok_def uint_word_ariths)

lemma unix_bytes_unlock:
  assumes "limit_ok s" "a < b" "a \<le> max_unix_offset s" "b \<le> max_unix_offset s + 1"
  shows "unix_bytes (unix_lock_of d a b ty s) \<inter> {..uint (max_unix_offset s)} = {uint a..<uint b}"
proof -
  have m: "uint (max_unix_offset s) < 2 ^ 63" using assms(1) by (simp add: limit_ok_def)
  have a: "sint a = uint a" by (rule sint_small) (use assms(3) m in \<open>auto simp: word_le_def\<close>)
  have b: "uint a < uint b" "uint b \<le> uint (max_unix_offset s) + 1"
    using assms after_limit [OF assms(1)] by (auto simp: word_less_def word_le_def)
  show ?thesis
  proof (cases "b > max_unix_offset s")
    case True
    then have "uint b = uint (max_unix_offset s) + 1" using b by (auto simp: word_less_def)
    then show ?thesis using True a by (auto simp: unix_lock_of_def unix_bytes_def)
  next
    case False
    have "uint (b - a) = uint b - uint a" by (rule uint_minus) (use assms(2) in auto)
    moreover have "sint (b - a) = uint (b - a)"
      by (rule sint_small) (use calculation False m uint_ge_0 [of a] in \<open>unfold word_less_def, linarith\<close>)
    moreover have "b \<noteq> 0" using assms(2) by auto
    ultimately show ?thesis using False a b by (auto simp: unix_lock_of_def unix_bytes_def word_less_def)
  qed
qed

text \<open>What is left after the calls \<open>us\<close>: the bytes of \<open>U\<close> below the limit are unlocked and no others.\<close>

definition unlocks :: "file_desc \<Rightarrow> files \<Rightarrow> int set \<Rightarrow> unix_lock list \<Rightarrow> bool" where
  "unlocks d s U us \<longleftrightarrow> (\<forall>u \<in> set us. ul_type u = F_UNLCK \<and> ul_fd u = unix_fd d) \<and>
     {..uint (max_unix_offset s)} \<inter> \<Union>(unix_bytes ` set us) = {..uint (max_unix_offset s)} \<inter> U"

lemma unlocks_holes:
  assumes "linked ns rs n" "limit_ok s"
    "\<forall>i \<in> set rs. h_start (ns ! i) \<le> max_unix_offset s \<and> h_end (ns ! i) \<le> max_unix_offset s + 1"
  shows "unlocks d s (covered ns rs) (map (\<lambda>i. unlock_of d s (ns ! i)) rs)"
proof -
  have "unix_bytes (unlock_of d s (ns ! i)) \<inter> {..uint (max_unix_offset s)} = hole_bytes (ns ! i)" if "i \<in> set rs" for i
    unfolding hole_bytes_def by (rule unix_bytes_unlock) (use assms linked_in [OF assms(1) that] that in auto)
  moreover from this have "hole_bytes (ns ! i) \<inter> {..uint (max_unix_offset s)} = hole_bytes (ns ! i)" if "i \<in> set rs" for i
    using that by blast
  ultimately show ?thesis by (auto simp: unlocks_def covered_def unix_lock_of_def)
qed

lemma holes_within:
  assumes "linked ns rs n" "covered ns rs \<subseteq> {uint a..<uint (max_unix_offset s + 1)}" "limit_ok s" "i \<in> set rs"
  shows "h_start (ns ! i) \<le> max_unix_offset s \<and> h_end (ns ! i) \<le> max_unix_offset s + 1"
proof -
  have lt: "h_start (ns ! i) < h_end (ns ! i)" using linked_in [OF assms(1,4)] by blast
  have "hole_bytes (ns ! i) \<subseteq> {uint a..<uint (max_unix_offset s + 1)}" using assms(2,4) by (auto simp: covered_def)
  then have "uint (h_end (ns ! i)) \<le> uint (max_unix_offset s + 1)"
    using lt by (auto simp: hole_bytes_def word_less_def atLeastLessThan_subset_iff)
  then show ?thesis using lt after_limit [OF assms(3)] by (auto simp: word_le_def word_less_def)
qed

lemma start_hole:
  "start < en \<Longrightarrow> r \<ge> 1 \<Longrightarrow>
   holes_ok 0 [0] \<lparr>nodes = [\<lparr>h_next = None, h_prev = None, h_start = start, h_end = en\<rparr>], first = Some 0, room = r\<rparr>"
  by (simp add: holes_ok_def)

lemma clear_all_holes:
  assumes "holes_ok t rs hs" "covered (nodes hs) rs \<subseteq> {uint a..<uint (max_unix_offset s + 1)}" "limit_ok s"
    "descs s f = Some d" "fs_locks d" "fcntl_results s = []"
  shows "\<exists>us. clear_holes (length (nodes hs)) f (first hs) hs s = Some (s\<lparr>unix_locks := us @ unix_locks s\<rparr>) \<and>
    unlocks d s (covered (nodes hs) rs) us"
proof -
  have L: "linked (nodes hs) rs None" "first hs = head rs None" "distinct rs" using assms(1) by (auto simp: holes_ok_def)
  obtain k where k: "length (nodes hs) = length rs + k" using linked_length [OF L(1,3)] by (auto simp: le_iff_add)
  have within: "\<forall>i \<in> set rs. h_start (nodes hs ! i) \<le> max_unix_offset s \<and> h_end (nodes hs ! i) \<le> max_unix_offset s + 1"
    using holes_within [OF L(1) assms(2,3)] by blast
  show ?thesis unfolding k L(2)
    by (subst clear_holes_walk [OF L(1) assms(4-6)])
      (use within unlocks_holes [OF L(1) assms(3) within, of d] in \<open>auto simp: clear_holes.simps(1)\<close>)
qed

lemma remove_unix_locks_ok:
  assumes d: "descs s f = Some d" "fd_inode d = Some n" "inode_locks n s = Some ls" "fs_locks d"
    and ls: "sorted (map fl_start ls)" "\<forall>l \<in> set ls. lock_ok l"
    and s: "limit_ok s" "fcntl_results s = []" "fst (malloc s)" and se: "en = 0 \<or> start \<le> en"
  shows "\<exists>s' us. remove_unix_locks f start en s = Some s' \<and> unix_locks s' = us @ unix_locks s \<and>
    unlocks d s (span start en - \<Union>(lock_bytes ` set ls)) us"
proof (cases "start = en \<or> start > max_unix_offset s")
  case True
  then have "{..uint (max_unix_offset s)} \<inter> span start en = {}" by (auto simp: span_def word_less_def)
  then show ?thesis using True d by (auto simp: remove_unix_locks_def unlocks_def)
next
  case False
  let ?m = "max_unix_offset s"
  define e where "e = (if en = 0 \<or> en > ?m then ?m + 1 else en)"
  have m1: "uint (?m + 1) = uint ?m + 1" by (rule after_limit [OF s(1)])
  have ne: "start \<noteq> en" "start \<le> ?m" using False by auto
  have nz: "?m + 1 \<noteq> 0"
  proof
    assume "?m + 1 = 0"
    then have "uint ?m + 1 = 0" using m1 by simp
    then show False using uint_ge_0 [of ?m] by linarith
  qed
  have "start < ?m + 1" using ne(2) m1 by (simp add: word_less_def word_le_def)
  moreover have "start < en" if "en \<noteq> 0" using that se ne by (simp add: order_less_le)
  ultimately have e: "start < e" "e \<noteq> 0" "uint start \<le> uint ?m" "e \<le> ?m + 1"
    using nz ne(2) m1 by (auto simp: e_def word_le_def word_less_def)
  have area: "{..uint ?m} \<inter> span start en = {..uint ?m} \<inter> {uint start..<uint e}" "{uint start..<uint e} \<subseteq> {uint start..<uint (?m + 1)}"
    using ne(1) m1 e(4) by (auto simp: e_def span_def word_less_def word_le_def split: if_splits)
  obtain ok s1 where s1: "malloc s = (ok, s1)" by (cases "malloc s")
  with s(3) obtain q where q: "malloc s = (True, s\<lparr>mem_oracle := q\<rparr>)" using malloc_oracle [OF s1] by auto
  define cnt where "cnt = length (filter (touches start e) ls)"
  have unl: "unlocks d s X us \<Longrightarrow> {..uint ?m} \<inter> X = {..uint ?m} \<inter> Y \<Longrightarrow> unlocks d s Y us" for X Y us
    by (simp add: unlocks_def)
  have R: "remove_unix_locks f start en s = (if cnt = 0 then do { (_, s) \<leftarrow> set_unix_lock f start e F_UNLCK s; Some s }
     else (case malloc s of (ok, s) \<Rightarrow> if \<not> ok then Some s else do {
       r \<leftarrow> punch_all ls start e \<lparr>nodes = [\<lparr>h_next = None, h_prev = None, h_start = start, h_end = e\<rparr>], first = Some 0, room = cnt + 1\<rparr>;
       case r of None \<Rightarrow> Some s | Some hs \<Rightarrow> clear_holes (length (nodes hs)) f (first hs) hs s }))"
    using d ne(1) linorder_not_less [THEN iffD2, OF ne(2)]
    unfolding remove_unix_locks_def Let_def e_def [symmetric] cnt_def by simp
  show ?thesis
  proof (cases "cnt = 0")
    case True
    have "{uint start..<uint e} \<inter> \<Union>(lock_bytes ` set ls) = {}"
      using True not_touches [OF e(2)] by (auto simp: cnt_def filter_empty_conv)
    then have "unlocks d s (span start en - \<Union>(lock_bytes ` set ls)) [unix_lock_of d start e F_UNLCK s]"
      unfolding unlocks_def using unix_bytes_unlock [OF s(1) e(1) ne(2) e(4), where d = d and ty = F_UNLCK] area(1)
      by (simp add: unix_lock_of_def Int_commute) blast
    moreover have "set_unix_lock f start e F_UNLCK s = Some (True, s\<lparr>unix_locks := unix_lock_of d start e F_UNLCK s # unix_locks s\<rparr>)"
      by (rule set_unix_lock_ok) (use d s ne e in auto)
    ultimately show ?thesis unfolding R using True by auto
  next
    case False
    let ?hs = "\<lparr>nodes = [\<lparr>h_next = None, h_prev = None, h_start = start, h_end = e\<rparr>], first = Some 0, room = cnt + 1\<rparr>"
    let ?s = "s\<lparr>mem_oracle := q\<rparr>"
    have cov: "covered (nodes ?hs) [0] = {uint start..<uint e}" by (simp add: hole_bytes_def)
    have U: "punched_all ({uint start..<uint e} - \<Union>(lock_bytes ` set ls)) (punch_all ls start e ?hs)"
      by (subst cov [symmetric], rule punch_all_correct [OF start_hole [OF e(1)] ls(1)])
        (use ls cov e(2) in \<open>auto simp: cnt_def\<close>)
    have same: "unlocks d ?s = unlocks d s" by (simp add: unlocks_def fun_eq_iff)
    show ?thesis
    proof (cases "punch_all ls start e ?hs")
      case None
      then show ?thesis using U by (simp add: punched_all_def)
    next
      case (Some r)
      show ?thesis
      proof (cases r)
        case None
        then have "{uint start..<uint e} \<subseteq> \<Union>(lock_bytes ` set ls)" using U Some by (simp add: punched_all_def)
        then have "unlocks d s (span start en - \<Union>(lock_bytes ` set ls)) []" using area(1) by (auto simp: unlocks_def)
        then show ?thesis unfolding R using False q Some None by auto
      next
        case (Some hs')
        with U \<open>punch_all ls start e ?hs = Some r\<close> obtain t rs' where hs': "holes_ok t rs' hs'"
            "covered (nodes hs') rs' = {uint start..<uint e} - \<Union>(lock_bytes ` set ls)"
          by (auto simp: punched_all_def)
        obtain us where us: "clear_holes (length (nodes hs')) f (first hs') hs' ?s = Some (?s\<lparr>unix_locks := us @ unix_locks ?s\<rparr>)"
            "unlocks d ?s (covered (nodes hs') rs') us"
        proof -
          have "covered (nodes hs') rs' \<subseteq> {uint start..<uint (max_unix_offset ?s + 1)}" using hs'(2) area(2) by auto
          from clear_all_holes [OF hs'(1) this, of f d] that show thesis using s d by (auto simp: limit_ok_def)
        qed
        have "remove_unix_locks f start en s = Some (?s\<lparr>unix_locks := us @ unix_locks s\<rparr>)"
          unfolding R using False q us(1) Some \<open>punch_all ls start e ?hs = Some r\<close> by simp
        moreover have "unlocks d s (span start en - \<Union>(lock_bytes ` set ls)) us"
          by (rule unl [OF us(2) [unfolded same hs'(2)]]) (use area(1) in blast)
        ultimately show ?thesis by auto
      qed
    qed
  qed
qed

text \<open>
  C9: when the locks left on a file are listed by increasing start, \<^verbatim>\<open>remove_unix_locks\<close> returns without
  an assertion failing, its buffer of holes is large enough, and the Unix locks it clears (below the
  largest offset) are exactly those of the bytes of the range that none of these locks covers.
\<close>

theorem remove_unix_locks_correct:
  assumes "descs s f = Some d" "fd_inode d = Some n" "inode_locks n s = Some ls" "fs_locks d"
    and "sorted (map fl_start ls)" "\<forall>l \<in> set ls. lock_ok l"
    and "limit_ok s" "fcntl_results s = []" "fst (malloc s)" "en = 0 \<or> start \<le> en"
  shows "\<exists>s' us. remove_unix_locks f start en s = Some s' \<and> unix_locks s' = us @ unix_locks s \<and>
    unlocks d s (span start en - \<Union>(lock_bytes ` set ls)) us"
  using assms by (rule remove_unix_locks_ok)

text \<open>A file with three shared locks of other processes, from which a lock of all its bytes has gone.\<close>

definition shared_lock :: "file_pos \<Rightarrow> file_pos \<Rightarrow> file_lock" where
  "shared_lock a b = \<lparr>fl_fd = 0, fl_shared = True, fl_start = a, fl_end = b, fl_process = Some 1\<rparr>"

definition locked_desc :: "nat \<Rightarrow> file_desc" where
  "locked_desc n = \<lparr>fd_inode = Some 0, fd_locks = [0..<n], fd_access = 0, fd_sharing = 0, unix_fd = 7, fs_locks = True\<rparr>"

definition locked_file :: "file_lock list \<Rightarrow> files" where
  "locked_file ls = \<lparr>current = None, global_error = 0, thread_error = (\<lambda>_. 0), mem_oracle = [],
     locks = (\<lambda>i. if i < length ls then Some (ls ! i) else None),
     descs = [0 \<mapsto> locked_desc (length ls)],
     inodes = [0 \<mapsto> \<lparr>in_open = [0], in_locks = [0..<length ls], in_closed = []\<rparr>],
     process_locks = (\<lambda>p. if p = 1 then [0..<length ls] else []), next_lock = length ls, client = 1,
     max_unix_offset = 2 ^ 63 - 1, fcntl_results = [], unix_locks = [], lost_locks = [], closed_fds = []\<rparr>"

lemma locked_file_simps [simp]:
  "inode_locks 0 (locked_file ls) = Some ls" "descs (locked_file ls) 0 = Some (locked_desc (length ls))"
  "mem_oracle (locked_file ls) = []" "fcntl_results (locked_file ls) = []" "unix_locks (locked_file ls) = []"
  "max_unix_offset (locked_file ls) = 2 ^ 63 - 1" "limit_ok (locked_file ls)"
  "fd_inode (locked_desc n) = Some 0" "fs_locks (locked_desc n)" "unix_fd (locked_desc n) = 7"
proof -
  have "map (locks (locked_file ls)) [0..<length ls] = map Some ls"
    by (rule nth_equalityI) (auto simp: locked_file_def)
  moreover have "those (map Some xs) = Some xs" for xs :: "file_lock list" by (induction xs) auto
  ultimately show "inode_locks 0 (locked_file ls) = Some ls" by (simp add: inode_locks_def locked_file_def)
qed (simp_all add: locked_file_def locked_desc_def limit_ok_def)

theorem remove_unix_locks_correct_witness:
  "\<exists>s' us. remove_unix_locks 0 0 100 (locked_file [shared_lock 20 30, shared_lock 50 60]) = Some s' \<and>
    unix_locks s' = us @ unix_locks (locked_file [shared_lock 20 30, shared_lock 50 60]) \<and>
    unlocks (locked_desc 2) (locked_file [shared_lock 20 30, shared_lock 50 60])
      (span 0 100 - \<Union>(lock_bytes ` set [shared_lock 20 30, shared_lock 50 60])) us"
  by (rule remove_unix_locks_correct [where n = 0]) (simp_all add: lock_ok_def numeral_2_eq_2, simp_all add: shared_lock_def)

text \<open>
  The locks of a file are listed by the time they were taken, not by their start.  For other lists the holes may
  go wrong, as splitting a hole leaves the back link of the one after it alone: with the locks
  taken in this order the byte 100, which the lock of [60, 120) covers, is unlocked.
\<close>

lemma remove_unix_locks_unsorted:
  "map_option unix_locks (remove_unix_locks 0 0 100
     (locked_file [shared_lock 50 60, shared_lock 20 30, shared_lock 0 20, shared_lock 60 120])) =
   Some [\<lparr>ul_fd = 7, ul_type = F_UNLCK, ul_start = 120, ul_len = - 20\<rparr>,
     \<lparr>ul_fd = 7, ul_type = F_UNLCK, ul_start = 30, ul_len = 20\<rparr>]"
  by code_simp

end
