(* ===== verification/Locks_Safe.thy ===== *)
theory Locks_Safe
  imports Locks_Correct
begin

text \<open>
  The invariant of the file locks: the locks listed for a file are held through its descriptors and any two
  that share a byte are both shared locks; every request keeps it, whatever the system calls answer.
\<close>

subsection \<open>What matters of a state\<close>

definition lock_list :: "files \<Rightarrow> nat \<Rightarrow> nat list option" where
  "lock_list s n = map_option in_locks (inodes s n)"

definition inode_of :: "files \<Rightarrow> nat \<Rightarrow> nat option" where
  "inode_of s f = Option.bind (descs s f) fd_inode"

definition same_locks :: "files \<Rightarrow> files \<Rightarrow> bool" where
  "same_locks s s' \<longleftrightarrow> lock_list s' = lock_list s \<and> inode_of s' = inode_of s \<and> locks s' = locks s \<and> next_lock s' = next_lock s"

definition compatible :: "file_lock \<Rightarrow> file_lock \<Rightarrow> bool" where
  "compatible a b \<longleftrightarrow> fl_shared a \<and> fl_shared b \<or> lock_bytes a \<inter> lock_bytes b = {}"

definition held_ok :: "files \<Rightarrow> nat \<Rightarrow> nat list \<Rightarrow> bool" where
  "held_ok s n ls \<longleftrightarrow> distinct ls \<and>
     (\<forall>l \<in> set ls. l < next_lock s \<and> (\<exists>a. locks s l = Some a \<and> lock_ok a \<and> inode_of s (fl_fd a) = Some n)) \<and>
     (\<forall>l \<in> set ls. \<forall>m \<in> set ls. \<forall>a b. l \<noteq> m \<longrightarrow> locks s l = Some a \<longrightarrow> locks s m = Some b \<longrightarrow> compatible a b)"

definition locks_inv :: "files \<Rightarrow> bool" where
  "locks_inv s \<longleftrightarrow> (\<forall>n ls. lock_list s n = Some ls \<longrightarrow> held_ok s n ls)"

lemma locks_invD: "locks_inv s \<Longrightarrow> lock_list s n = Some ls \<Longrightarrow> held_ok s n ls"
  by (simp add: locks_inv_def)

lemma held_ok_Nil [simp]: "held_ok s n []"
  by (simp add: held_ok_def)

lemma held_ok_lock: "held_ok s n ls \<Longrightarrow> l \<in> set ls \<Longrightarrow> \<exists>a. locks s l = Some a"
  by (auto simp: held_ok_def)

lemma held_ok_compatible:
  "held_ok s n ls \<Longrightarrow> l \<in> set ls \<Longrightarrow> m \<in> set ls \<Longrightarrow> l \<noteq> m \<Longrightarrow> locks s l = Some a \<Longrightarrow> locks s m = Some b \<Longrightarrow>
   compatible a b"
  by (simp add: held_ok_def)

lemma held_ok_cong:
  assumes "held_ok s n ls" "\<And>j. j \<in> set ls \<Longrightarrow> locks s' j = locks s j" "inode_of s' = inode_of s" "next_lock s \<le> next_lock s'"
  shows "held_ok s' n ls"
  using assms unfolding held_ok_def by (metis order_less_le_trans)

lemma same_locks_refl [simp]: "same_locks s s"
  by (simp add: same_locks_def)

lemma same_locks_trans [trans]: "same_locks s t \<Longrightarrow> same_locks t u \<Longrightarrow> same_locks s u"
  by (simp add: same_locks_def)

lemma same_locks_inv: "same_locks s s' \<Longrightarrow> locks_inv s \<Longrightarrow> locks_inv s'"
  by (simp add: same_locks_def locks_inv_def held_ok_def)

subsection \<open>The Unix locks leave the lists alone\<close>

lemma same_fields [simp]:
  "same_locks s (s\<lparr>mem_oracle := q\<rparr>)" "same_locks s (s\<lparr>fcntl_results := r\<rparr>)" "same_locks s (s\<lparr>unix_locks := u\<rparr>)"
  "same_locks s (s\<lparr>max_unix_offset := m\<rparr>)" "same_locks s (set_error e s)" "same_locks s (file_set_error x s)"
  by (auto simp: same_locks_def lock_list_def inode_of_def set_error_def file_set_error_def fun_eq_iff)

lemma same_fcntl: "fcntl lk s = (r, s') \<Longrightarrow> same_locks s s' \<and> descs s' = descs s"
  by (auto simp: fcntl_def Let_def same_locks_def lock_list_def inode_of_def fun_eq_iff split: option.splits)

lemma same_no_fs_locks: "descs s f = Some d \<Longrightarrow> same_locks s (no_fs_locks f d s)"
  by (auto simp: no_fs_locks_def same_locks_def lock_list_def inode_of_def fun_eq_iff)

lemma same_malloc: "malloc s = (b, s') \<Longrightarrow> same_locks s s'"
  by (drule malloc_oracle) auto

lemma same_mem_alloc: "mem_alloc s = (b, s') \<Longrightarrow> same_locks s s'"
  by (auto simp: mem_alloc_def dest!: same_malloc intro: same_locks_trans split: prod.splits if_splits)

text \<open>A call of \<open>set_unix_lock\<close>: it returns, or it makes the same call with a lower limit.\<close>

lemma set_unix_lock_step:
  assumes "set_unix_lock f a b ty s = Some (r, s')"
  shows "same_locks s s' \<or> (\<exists>t. max_unix_offset s > word_of_int INT_MAX \<and> max_unix_offset t = word_of_int INT_MAX \<and>
    same_locks s t \<and> set_unix_lock f a b ty t = Some (r, s'))"
proof (rule ccontr)
  assume no: "\<not> ?thesis"
  obtain d where d: "descs s f = Some d" using assms by (subst (asm) set_unix_lock.simps) (auto split: bind_splits)
  obtain q s1 where q: "fcntl (Some (unix_lock_of d a b ty s)) s = (q, s1)" by fastforce
  have s1: "same_locks s s1" "descs s1 f = Some d" using same_fcntl [OF q] d by auto
  obtain q2 s2 where q2: "fcntl None s1 = (q2, s2)" by fastforce
  have s2: "same_locks s s2" "descs s2 f = Some d" using same_fcntl [OF q2] s1 by (auto intro: same_locks_trans)
  have err: "same_locks s (set_error e s1)" "same_locks s (file_set_error x s1)" "same_locks s (set_error e s2)"
      "same_locks s (no_fs_locks f d s1)" "same_locks s (no_fs_locks f d s2)" "same_locks s (s1\<lparr>max_unix_offset := m\<rparr>)" for e x m
    using s1 s2 by (auto intro: same_locks_trans same_no_fs_locks)
  show False using assms no s1(1) s2(1)
    by (subst (asm) set_unix_lock.simps)
      (auto simp: d q q2 s1(2) s2(2) err Let_def split: if_splits option.splits errno.splits)
qed

lemma same_set_unix_lock:
  assumes "set_unix_lock f a b ty s = Some (r, s')"
  shows "same_locks s s'"
  using set_unix_lock_step [OF assms]
proof (elim disjE exE conjE)
  fix t assume t: "max_unix_offset t = word_of_int INT_MAX" "same_locks s t" "set_unix_lock f a b ty t = Some (r, s')"
  then show ?thesis using set_unix_lock_step [OF t(3)] by (auto intro: same_locks_trans)
qed

lemma same_clear_holes: "clear_holes fuel f i hs s = Some s' \<Longrightarrow> same_locks s s'"
proof (induction fuel f i hs s rule: clear_holes.induct)
  case (3 fuel f i hs s)
  then obtain q s1 where "set_unix_lock f (h_start (nodes hs ! i)) (h_end (nodes hs ! i)) F_UNLCK s = Some (q, s1)"
      "clear_holes fuel f (h_next (nodes hs ! i)) hs s1 = Some s'" "i < length (nodes hs)"
    by (auto split: bind_splits if_splits)
  moreover from this have "same_locks s1 s'" by (intro 3(1)) auto
  ultimately show ?case using same_set_unix_lock same_locks_trans by blast
qed auto

lemma same_remove_unix_locks: "remove_unix_locks f a b s = Some s' \<Longrightarrow> same_locks s s'"
  unfolding remove_unix_locks_def Let_def
  by (auto dest!: same_set_unix_lock same_malloc same_clear_holes intro: same_locks_trans
      split: bind_splits if_splits option.splits prod.splits)

lemma same_inode_close_pending: "inode_close_pending n k s = Some s' \<Longrightarrow> same_locks s s'"
  by (auto simp: inode_close_pending_def same_locks_def lock_list_def inode_of_def fun_eq_iff split: bind_splits)


subsection \<open>Removing a lock\<close>

lemma remove_lock_effect:
  assumes "remove_lock l u s = Some s'"
  obtains lk n ls where "locks s l = Some lk" "inode_of s (fl_fd lk) = Some n" "lock_list s n = Some ls" "l \<in> set ls"
    "lock_list s' = (lock_list s)(n \<mapsto> remove1 l ls)" "inode_of s' = inode_of s"
    "locks s' = (locks s)(l := None)" "next_lock s' = next_lock s"
proof -
  from assms obtain lk d n node p ds ns ps s1 s2 where
      1: "locks s l = Some lk" "descs s (fl_fd lk) = Some d" "fd_inode d = Some n" "inodes s n = Some node"
      "list_remove l (in_locks node) = Some ns"
    and s1: "(if u then remove_unix_locks (fl_fd lk) (fl_start lk) (fl_end lk) (s\<lparr>descs := (descs s)(fl_fd lk \<mapsto> d\<lparr>fd_locks := ds\<rparr>),
        inodes := (inodes s)(n \<mapsto> node\<lparr>in_locks := ns\<rparr>), process_locks := (process_locks s)(p := ps)\<rparr>)
       else Some (s\<lparr>descs := (descs s)(fl_fd lk \<mapsto> d\<lparr>fd_locks := ds\<rparr>),
        inodes := (inodes s)(n \<mapsto> node\<lparr>in_locks := ns\<rparr>), process_locks := (process_locks s)(p := ps)\<rparr>)) = Some s1"
    and s2: "(if ns = [] then inode_close_pending n True s1 else Some s1) = Some s2"
    and s': "s' = s2\<lparr>locks := (locks s2)(l := None), lost_locks := l # lost_locks s2\<rparr>"
    unfolding remove_lock_def Let_def bind_eq_Some_conv by (elim exE conjE) (rule that, assumption+, simp)
  let ?t = "s\<lparr>descs := (descs s)(fl_fd lk \<mapsto> d\<lparr>fd_locks := ds\<rparr>),
        inodes := (inodes s)(n \<mapsto> node\<lparr>in_locks := ns\<rparr>), process_locks := (process_locks s)(p := ps)\<rparr>"
  have "same_locks ?t s1" using s1 by (auto dest: same_remove_unix_locks split: if_splits)
  moreover have "same_locks s1 s2" using s2 by (auto dest: same_inode_close_pending split: if_splits)
  ultimately have t: "same_locks ?t s2" by (rule same_locks_trans)
  have ns: "l \<in> set (in_locks node)" "ns = remove1 l (in_locks node)"
    using 1(5) by (auto simp: list_remove_def split: if_splits)
  have L: "lock_list ?t = (lock_list s)(n \<mapsto> ns)" "inode_of ?t = inode_of s"
    using 1 by (auto simp: lock_list_def inode_of_def fun_eq_iff)
  have final: "lock_list s' = lock_list s2" "inode_of s' = inode_of s2" "next_lock s' = next_lock s2"
      "locks s' = (locks s2)(l := None)"
    by (simp_all add: s' lock_list_def inode_of_def fun_eq_iff)
  show thesis
    by (rule that [of lk n "in_locks node"])
      (use 1 ns L t final in \<open>simp_all add: same_locks_def\<close>, simp_all add: inode_of_def lock_list_def)
qed

lemma remove_lock_inv:
  assumes "remove_lock l u s = Some s'" "locks_inv s"
  shows "locks_inv s'"
  using assms(1)
proof (rule remove_lock_effect)
  fix lk n ls
  assume 1: "locks s l = Some lk" "inode_of s (fl_fd lk) = Some n" "lock_list s n = Some ls" "l \<in> set ls"
    "lock_list s' = (lock_list s)(n \<mapsto> remove1 l ls)" "inode_of s' = inode_of s"
    "locks s' = (locks s)(l := None)" "next_lock s' = next_lock s"
  have "held_ok s' m ms" if m: "lock_list s' m = Some ms" for m ms
  proof (cases "m = n")
    case True
    then have "ms = remove1 l ls" using m 1(5) by simp
    then show ?thesis using locks_invD [OF assms(2) 1(3)] True 1(6-8)
      unfolding held_ok_def by (auto simp: set_remove1_eq)
  next
    case False
    then have h: "held_ok s m ms" using m 1(5) locks_invD [OF assms(2)] by simp
    then have "l \<notin> set ms" using False 1(1,2) by (force simp: held_ok_def)
    then show ?thesis using 1(6-8) by (intro held_ok_cong [OF h]) auto
  qed
  then show ?thesis by (simp add: locks_inv_def)
qed

subsection \<open>Adding a lock\<close>

lemma overlaps_if: "lock_bytes lk \<inter> span a b \<noteq> {} \<Longrightarrow> lock_overlaps lk a b"
  by (auto simp: lock_overlaps_def lock_bytes_def span_def word_le_def word_less_def split: if_splits)

lemma find_conflict_None:
  "find_conflict ls a b sh s = Some None \<Longrightarrow> l \<in> set ls \<Longrightarrow>
   \<exists>lk. locks s l = Some lk \<and> (fl_shared lk \<and> sh \<or> \<not> lock_overlaps lk a b)"
  by (induction ls) (auto split: bind_splits if_splits)

lemma find_conflict_Some:
  "find_conflict ls a b sh s = Some (Some l) \<Longrightarrow>
   l \<in> set ls \<and> (\<exists>lk. locks s l = Some lk \<and> lock_overlaps lk a b \<and> \<not> (fl_shared lk \<and> sh))"
  by (induction ls) (auto split: bind_splits if_splits)


lemma add_lock_effect:
  assumes "add_lock f sh a b s = Some (r, s')"
  shows "case r of None \<Rightarrow> same_locks s s'
    | Some l \<Rightarrow> \<exists>n ls c. inode_of s f = Some n \<and> lock_list s n = Some ls \<and> l = next_lock s \<and>
        lock_list s' = (lock_list s)(n \<mapsto> l # ls) \<and> inode_of s' = inode_of s \<and> next_lock s' = l + 1 \<and>
        locks s' = (locks s)(l \<mapsto> \<lparr>fl_fd = f, fl_shared = sh, fl_start = a, fl_end = b, fl_process = Some c\<rparr>)"
proof -
  obtain d where d: "descs s f = Some d" using assms by (auto simp: add_lock_def split: bind_splits)
  show ?thesis
  proof (cases "fd_inode d")
    case None
    then show ?thesis using assms d by (auto simp: add_lock_def)
  next
    case (Some n)
    obtain ok s1 where s1: "mem_alloc s = (ok, s1)" by fastforce
    note 1 = same_mem_alloc [OF s1]
    show ?thesis
    proof (cases ok)
      case False
      then show ?thesis using assms d Some s1 1 by (simp add: add_lock_def)
    next
      case True
      then obtain ok2 s2 where s2: "set_unix_lock f a b (if sh then F_RDLCK else F_WRLCK) s1 = Some (ok2, s2)"
        using assms d Some s1 by (auto simp: add_lock_def split: bind_splits)
      have 2: "same_locks s s2" by (rule same_locks_trans [OF 1 same_set_unix_lock [OF s2]])
      show ?thesis
      proof (cases ok2)
        case False
        then show ?thesis using assms d Some s1 s2 2 True by (simp add: add_lock_def)
      next
        case True
        with assms d Some s1 s2 \<open>ok\<close> obtain d2 node where
          d2: "descs s2 f = Some d2" "inodes s2 n = Some node" and r: "r = Some (next_lock s2)"
          and s': "s' = s2\<lparr>next_lock := next_lock s2 + 1, locks := (locks s2)(next_lock s2 \<mapsto> \<lparr>fl_fd = f, fl_shared = sh,
              fl_start = a, fl_end = b, fl_process = Some (client s2)\<rparr>),
            descs := (descs s2)(f \<mapsto> d2\<lparr>fd_locks := next_lock s2 # fd_locks d2\<rparr>),
            inodes := (inodes s2)(n \<mapsto> node\<lparr>in_locks := next_lock s2 # in_locks node\<rparr>),
            process_locks := (process_locks s2)(client s2 := next_lock s2 # process_locks s2 (client s2))\<rparr>"
          by (auto simp: add_lock_def Let_def split: bind_splits)
        have "lock_list s2 n = Some (in_locks node)" "lock_list s' = (lock_list s2)(n \<mapsto> next_lock s2 # in_locks node)"
            "inode_of s' = inode_of s2" "inode_of s f = Some n"
          using d2 d Some by (auto simp: s' lock_list_def inode_of_def fun_eq_iff)
        then show ?thesis using 2 unfolding r s' same_locks_def by auto
      qed
    qed
  qed
qed

text \<open>A lock is granted when it is compatible with those held.\<close>

lemma granted_inv:
  assumes inv: "locks_inv s" and ls: "lock_list s n = Some ls" and f: "inode_of s f = Some n" and l: "l = next_lock s"
    and lk: "lk = \<lparr>fl_fd = f, fl_shared = sh, fl_start = a, fl_end = b, fl_process = c\<rparr>" "b = 0 \<or> a \<le> b"
    and free: "find_conflict ls a b sh s = Some None"
    and s': "lock_list s' = (lock_list s)(n \<mapsto> l # ls)" "inode_of s' = inode_of s" "next_lock s' = l + 1"
      "locks s' = (locks s)(l \<mapsto> lk)"
  shows "locks_inv s'"
  unfolding locks_inv_def
proof (intro allI impI)
  fix m ms assume m: "lock_list s' m = Some ms"
  show "held_ok s' m ms"
  proof (cases "m = n")
    case False
    then have "held_ok s m ms" using m s'(1) locks_invD [OF inv] by simp
    then show ?thesis by (rule held_ok_cong) (use s' l \<open>held_ok s m ms\<close> in \<open>auto simp: held_ok_def\<close>)
  next
    case True
    have h: "held_ok s n ls" by (rule locks_invD [OF inv ls])
    have new: "compatible lk k \<and> compatible k lk" if "j \<in> set ls" "locks s j = Some k" for j k
      using find_conflict_None [OF free that(1)] that(2) overlaps_if [of k a b] lk(1)
      by (auto simp: compatible_def lock_bytes_def Int_commute)
    have "ms = l # ls" using m True s'(1) by simp
    moreover have "l \<notin> set ls" using h l by (auto simp: held_ok_def)
    moreover have "\<exists>k. locks s' j = Some k \<and> lock_ok k \<and> inode_of s' (fl_fd k) = Some n" "j < next_lock s'"
      if "j \<in> set (l # ls)" for j
      using that h s'(2-4) f l lk by (auto simp: held_ok_def lock_ok_def)
    moreover have "compatible x y"
      if ij: "i \<in> set (l # ls)" "j \<in> set (l # ls)" "i \<noteq> j" "locks s' i = Some x" "locks s' j = Some y" for i j x y
    proof -
      consider "i = l" "j \<in> set ls" "j \<noteq> l" | "j = l" "i \<in> set ls" "i \<noteq> l" | "i \<in> set ls" "j \<in> set ls" "i \<noteq> l" "j \<noteq> l"
        using ij(1-3) by auto
      then show ?thesis
      proof cases
        case 3
        then show ?thesis using h ij(3-5) s'(4) by (auto simp: held_ok_def)
      qed (use ij(4,5) new s'(4) in auto)
    qed
    ultimately show ?thesis using h True by (simp add: held_ok_def)
  qed
qed

lemma lock_fd_inv:
  assumes "lock_fd f a k sh w s = Some (r, s')" "locks_inv s"
  shows "locks_inv s'"
proof -
  define b where "b = a + k"
  show ?thesis
  proof (cases "b \<noteq> 0 \<and> b < a")
    case True
    then show ?thesis using assms same_locks_inv [OF same_fields(5)] by (auto simp: lock_fd_def b_def)
  next
    case False
    with assms(1) obtain d n node c where c: "descs s f = Some d" "fd_inode d = Some n" "inodes s n = Some node"
        "find_conflict (in_locks node) a b sh s = Some c"
      by (auto simp: lock_fd_def b_def [symmetric] split: bind_splits)
    show ?thesis
    proof (cases c)
      case (Some l)
      then show ?thesis using assms c False same_locks_inv [OF same_fields(5)]
        by (auto simp: lock_fd_def b_def [symmetric] split: if_splits)
    next
      case None
      with assms(1) c False obtain q s1 where q: "add_lock f sh a b s = Some (q, s1)"
        by (auto simp: lock_fd_def b_def [symmetric] split: bind_splits)
      show ?thesis
      proof (cases q)
        case None
        then have "same_locks s s1" using add_lock_effect [OF q] by simp
        then have "locks_inv s1" using same_locks_inv assms(2) by blast
        moreover have "s' = s1 \<or> s' = set_error STATUS_PENDING s1"
          using assms(1) c False q None \<open>c = None\<close> by (auto simp: lock_fd_def b_def [symmetric] split: if_splits)
        ultimately show ?thesis using same_locks_inv [OF same_fields(5)] by auto
      next
        case (Some l)
        then have s1: "s' = s1" using assms(1) c False q \<open>c = None\<close> by (auto simp: lock_fd_def b_def [symmetric])
        obtain ls p where e: "inode_of s f = Some n" "lock_list s n = Some ls" "l = next_lock s"
          "lock_list s' = (lock_list s)(n \<mapsto> l # ls)" "inode_of s' = inode_of s" "next_lock s' = l + 1"
          "locks s' = (locks s)(l \<mapsto> \<lparr>fl_fd = f, fl_shared = sh, fl_start = a, fl_end = b, fl_process = Some p\<rparr>)"
          using add_lock_effect [OF q] Some c s1 by (auto simp: inode_of_def)
        have "ls = in_locks node" using e(2) c(3) by (simp add: lock_list_def)
        then show ?thesis
          using granted_inv [OF assms(2) e(2,1,3) refl _ _ e(4-7)] False c(4) \<open>c = None\<close> by (auto simp: not_less)
      qed
    qed
  qed
qed

lemma unlock_fd_inv: "unlock_fd f a k s = Some s' \<Longrightarrow> locks_inv s \<Longrightarrow> locks_inv s'"
  using same_locks_inv [OF same_fields(5)]
  by (auto simp: unlock_fd_def Let_def intro: remove_lock_inv split: bind_splits option.splits)

lemma remove_each_inv: "remove_each ls s = Some s' \<Longrightarrow> locks_inv s \<Longrightarrow> locks_inv s'"
  by (induction ls s rule: remove_each.induct) (auto dest: remove_lock_inv split: bind_splits)

lemma remove_all_fd_inv: "remove_all_fd ls a b s = Some (a', b', s') \<Longrightarrow> locks_inv s \<Longrightarrow> locks_inv s'"
  by (induction ls a b s rule: remove_all_fd.induct) (auto simp: Let_def dest: remove_lock_inv split: bind_splits)

lemma remove_fd_locks_inv: "remove_fd_locks f s = Some s' \<Longrightarrow> locks_inv s \<Longrightarrow> locks_inv s'"
  by (auto simp: remove_fd_locks_def split: bind_splits if_splits)
    (metis remove_all_fd_inv same_remove_unix_locks same_locks_inv)+

subsection \<open>Runs\<close>

text \<open>
  The requests that touch the locks, in any order, and the world around them: another client is served,
  memory runs out, the kernel refuses a Unix lock.
\<close>

inductive file_step :: "files \<Rightarrow> files \<Rightarrow> bool" where
  lock: "lock_fd f a n sh w s = Some (r, s') \<Longrightarrow> file_step s s'"
| unlock: "unlock_fd f a n s = Some s' \<Longrightarrow> file_step s s'"
| process_exit: "remove_process_locks p s = Some s' \<Longrightarrow> file_step s s'"
| close_file: "remove_fd_locks f s = Some s' \<Longrightarrow> file_step s s'"
| world: "file_step s (s\<lparr>client := p, current := t, mem_oracle := q, fcntl_results := rs\<rparr>)"

inductive_cases file_stepE: "file_step s s'"

lemma file_step_inv: "file_step s s' \<Longrightarrow> locks_inv s \<Longrightarrow> locks_inv s'"
proof (erule file_stepE)
  fix p t q rs assume "locks_inv s" "s' = s\<lparr>client := p, current := t, mem_oracle := q, fcntl_results := rs\<rparr>"
  moreover from this have "same_locks s s'" by (simp add: same_locks_def lock_list_def inode_of_def fun_eq_iff)
  ultimately show "locks_inv s'" using same_locks_inv by blast
qed (auto simp: remove_process_locks_def intro: lock_fd_inv unlock_fd_inv remove_each_inv remove_fd_locks_inv)

lemma file_steps_inv: "file_step\<^sup>*\<^sup>* s s' \<Longrightarrow> locks_inv s \<Longrightarrow> locks_inv s'"
  by (induction rule: rtranclp_induct) (auto intro: file_step_inv)

definition no_locks :: "files \<Rightarrow> bool" where
  "no_locks s \<longleftrightarrow> (\<forall>n ls. lock_list s n = Some ls \<longrightarrow> ls = [])"

lemma no_locks_inv: "no_locks s \<Longrightarrow> locks_inv s"
  unfolding no_locks_def locks_inv_def by (metis held_ok_Nil)

text \<open>
  C8: whatever requests are made, whatever the C library and the kernel answer, two different locks of a
  file that have a byte in common are both shared locks.
\<close>

theorem locks_exclusive:
  assumes "file_step\<^sup>*\<^sup>* s s'" "no_locks s"
    and "lock_list s' n = Some ls" "l \<in> set ls" "m \<in> set ls" "l \<noteq> m"
  shows "\<exists>a b. locks s' l = Some a \<and> locks s' m = Some b \<and>
    (lock_bytes a \<inter> lock_bytes b \<noteq> {} \<longrightarrow> fl_shared a \<and> fl_shared b)"
proof -
  have "locks_inv s" by (rule no_locks_inv [OF assms(2)])
  then have h: "held_ok s' n ls" by (rule locks_invD [OF file_steps_inv [OF assms(1)] assms(3)])
  obtain a where a: "locks s' l = Some a" using held_ok_lock [OF h assms(4)] ..
  obtain b where b: "locks s' m = Some b" using held_ok_lock [OF h assms(5)] ..
  have "compatible a b" by (rule held_ok_compatible [OF h assms(4-6) a b])
  then show ?thesis using a b by (auto simp: compatible_def)
qed

text \<open>Process 1 takes a lock of bytes 0 to 9 for writing and one of bytes 10 to 19 for reading.\<close>

definition two_locks :: files where
  "two_locks = snd (the (lock_fd 0 10 10 True False (snd (the (lock_fd 0 0 10 False False (locked_file []))))))"

lemma two_locks_lists: "lock_list two_locks 0 = Some [1, 0]"
  by code_simp

lemma two_locks_steps: "file_step\<^sup>*\<^sup>* (locked_file []) two_locks"
proof -
  have "lock_fd 0 0 10 False False (locked_file []) \<noteq> None"
    "lock_fd 0 10 10 True False (snd (the (lock_fd 0 0 10 False False (locked_file [])))) \<noteq> None"
    by code_simp+
  then have "file_step (locked_file []) (snd (the (lock_fd 0 0 10 False False (locked_file []))))"
    "file_step (snd (the (lock_fd 0 0 10 False False (locked_file [])))) two_locks"
    unfolding two_locks_def by (metis file_step.lock option.exhaust_sel prod.collapse)+
  then show ?thesis by (rule converse_rtranclp_into_rtranclp [OF _ r_into_rtranclp])
qed

lemma no_locks_file: "no_locks (locked_file [])"
  by (simp add: no_locks_def lock_list_def locked_file_def)

theorem locks_exclusive_witness:
  "\<exists>a b. locks two_locks 0 = Some a \<and> locks two_locks 1 = Some b \<and>
    (lock_bytes a \<inter> lock_bytes b \<noteq> {} \<longrightarrow> fl_shared a \<and> fl_shared b)"
  by (rule locks_exclusive [OF two_locks_steps _ two_locks_lists])
    (simp_all add: no_locks_file)

subsection \<open>What a request answers\<close>

definition conflicts :: "file_lock \<Rightarrow> file_pos \<Rightarrow> file_pos \<Rightarrow> bool \<Rightarrow> bool" where
  "conflicts lk a b sh \<longleftrightarrow> lock_bytes lk \<inter> span a b \<noteq> {} \<and> \<not> (fl_shared lk \<and> sh)"

lemma overlaps_iff:
  assumes "lock_ok lk" "fl_start lk \<noteq> fl_end lk" "a \<noteq> b" "b = 0 \<or> a \<le> b"
  shows "lock_overlaps lk a b \<longleftrightarrow> lock_bytes lk \<inter> span a b \<noteq> {}"
proof
  assume o: "lock_overlaps lk a b"
  have "max (uint (fl_start lk)) (uint a) \<in> lock_bytes lk \<inter> span a b"
    using o assms by (auto simp: lock_overlaps_def lock_bytes_def span_def lock_ok_def word_le_def word_less_def max_def
        order_less_le split: if_splits dest: word_uint_eqI)
  then show "lock_bytes lk \<inter> span a b \<noteq> {}" by blast
qed (rule overlaps_if)

lemma set_unix_lock_True:
  assumes "descs s f = Some d" "fcntl_results s = []"
  shows "\<exists>s'. set_unix_lock f a b ty s = Some (True, s') \<and> descs s' = descs s \<and> inodes s' = inodes s"
  using assms by (subst set_unix_lock.simps) (simp add: fcntl_def)

lemma find_conflict_total:
  "\<forall>l \<in> set ls. locks s l \<noteq> None \<Longrightarrow> find_conflict ls a b sh s \<noteq> None"
  by (induction ls) auto


lemma two_locks_simps:
  "locks two_locks 0 = Some \<lparr>fl_fd = 0, fl_shared = False, fl_start = 0, fl_end = 10, fl_process = Some 1\<rparr>"
  "locks two_locks 1 = Some \<lparr>fl_fd = 0, fl_shared = True, fl_start = 10, fl_end = 20, fl_process = Some 1\<rparr>"
  "inode_of two_locks 0 = Some 0" "mem_oracle two_locks = []" "fcntl_results two_locks = []"
  by code_simp+


subsection \<open>Where the code falls short\<close>

text \<open>A descriptor without an inode: the list of the locks of its inode is read all the same.\<close>

lemma lock_fd_null_inode:
  "descs s f = Some d \<Longrightarrow> fd_inode d = None \<Longrightarrow> \<not> (a + k \<noteq> 0 \<and> a + k < a) \<Longrightarrow> lock_fd f a k sh w s = None"
  unfolding lock_fd_def Let_def by (subst if_not_P) simp_all

text \<open>Closing a file whose only lock is of one byte makes no call to clear its Unix lock; two bytes are cleared.\<close>

lemma remove_fd_locks_one_byte:
  "map_option unix_locks (remove_fd_locks 0 (locked_file [shared_lock 5 6])) = Some []"
  "map_option unix_locks (remove_fd_locks 0 (locked_file [shared_lock 5 7])) =
    Some [\<lparr>ul_fd = 7, ul_type = F_UNLCK, ul_start = 5, ul_len = 2\<rparr>]"
  by code_simp+

subsection \<open>Sharing modes\<close>

text \<open>Access \<open>acc\<close> of one open file is allowed by the sharing mode \<open>sh\<close> of another.\<close>

definition shares :: "32 word \<Rightarrow> 32 word \<Rightarrow> bool" where
  "shares acc sh \<longleftrightarrow> (has acc FILE_UNIX_READ_ACCESS \<longrightarrow> has sh FILE_SHARE_READ) \<and>
     (has acc FILE_UNIX_WRITE_ACCESS \<longrightarrow> has sh FILE_SHARE_WRITE) \<and> (has acc 0x00010000 \<longrightarrow> has sh FILE_SHARE_DELETE)"

lemma has_or: "has (a OR b) m \<longleftrightarrow> has a m \<or> has b m"
  unfolding has_def bit_eq_iff [of _ 0] by (auto simp: bit_simps)

lemma has_bit: "has a FILE_SHARE_READ = bit a 0" "has a FILE_SHARE_WRITE = bit a 1" "has a FILE_SHARE_DELETE = bit a 2"
proof -
  have *: "has a (2 ^ n) = bit a n" if "n < 32" for n
    using that unfolding has_def bit_eq_iff [of "a AND 2 ^ n"] by (auto simp: bit_simps)
  show "has a FILE_SHARE_READ = bit a 0" "has a FILE_SHARE_WRITE = bit a 1" "has a FILE_SHARE_DELETE = bit a 2"
    using * [of 0] * [of 1] * [of 2] by simp_all
qed

lemma has_and:
  "has (a AND b) FILE_SHARE_READ \<longleftrightarrow> has a FILE_SHARE_READ \<and> has b FILE_SHARE_READ"
  "has (a AND b) FILE_SHARE_WRITE \<longleftrightarrow> has a FILE_SHARE_WRITE \<and> has b FILE_SHARE_WRITE"
  "has (a AND b) FILE_SHARE_DELETE \<longleftrightarrow> has a FILE_SHARE_DELETE \<and> has b FILE_SHARE_DELETE"
  by (simp_all add: has_bit bit_simps)

lemma others_open_shares:
  assumes "\<forall>g \<in> set gs. descs s g \<noteq> None"
  shows "\<exists>sh' acc'. others_open gs f sh acc s = Some (sh', acc') \<and>
    (\<forall>x. shares x sh' \<longleftrightarrow> shares x sh \<and> (\<forall>g \<in> set gs. g \<noteq> f \<longrightarrow> shares x (fd_sharing (the (descs s g))))) \<and>
    (\<forall>y. shares acc' y \<longleftrightarrow> shares acc y \<and> (\<forall>g \<in> set gs. g \<noteq> f \<longrightarrow> shares (fd_access (the (descs s g))) y))"
  using assms
proof (induction gs arbitrary: sh acc)
  case (Cons g gs)
  then obtain d where d: "descs s g = Some d" by auto
  show ?case
  proof (cases "g = f")
    case True
    then show ?thesis using Cons.IH [of sh acc] Cons.prems d by fastforce
  next
    case False
    have "shares x (sh AND y) \<longleftrightarrow> shares x sh \<and> shares x y" "shares (acc OR x) y \<longleftrightarrow> shares acc y \<and> shares x y" for x y
      by (auto simp: shares_def has_and has_or)
    then show ?thesis using Cons.IH [of "sh AND fd_sharing d" "acc OR fd_access d"] Cons.prems d False by fastforce
  qed
qed auto

text \<open>
  C11: the two words that \<^verbatim>\<open>check_sharing\<close> collects decide as a look at each pair of descriptors would: opening
  is allowed just when every other open descriptor shares what this one accesses and
  the other way round; a descriptor that accesses nothing shares everything.
\<close>

theorem check_sharing_correct:
  assumes "descs s f = Some d" "fd_inode d = Some n" "inodes s n = Some node" "\<forall>g \<in> set (in_open node). descs s g \<noteq> None"
  shows "\<exists>s'. check_sharing f acc sh s = Some
      (\<forall>g \<in> set (in_open node). g \<noteq> f \<longrightarrow> shares acc (fd_sharing (the (descs s g))) \<and>
         (acc = 0 \<or> shares (fd_access (the (descs s g))) sh), s') \<and>
    descs s' f = Some (d\<lparr>fd_access := acc, fd_sharing := (if acc = 0 then 7 else sh)\<rparr>)"
proof -
  let ?s = "s\<lparr>descs := (descs s)(f \<mapsto> d\<lparr>fd_access := acc, fd_sharing := (if acc = 0 then 7 else sh)\<rparr>)\<rparr>"
  obtain sh' acc' where o: "others_open (in_open node) f 7 0 ?s = Some (sh', acc')"
      "\<forall>x. shares x sh' \<longleftrightarrow> shares x 7 \<and> (\<forall>g \<in> set (in_open node). g \<noteq> f \<longrightarrow> shares x (fd_sharing (the (descs ?s g))))"
      "\<forall>y. shares acc' y \<longleftrightarrow> shares 0 y \<and> (\<forall>g \<in> set (in_open node). g \<noteq> f \<longrightarrow> shares (fd_access (the (descs ?s g))) y)"
  proof -
    have "\<forall>g \<in> set (in_open node). descs ?s g \<noteq> None" using assms(4) by simp
    from others_open_shares [OF this, of f 7 0] that show thesis by (elim exE conjE)
  qed
  have all: "shares x 7" "shares 0 y" for x y by (simp_all add: shares_def has_def)
  have seven: "FILE_SHARE_READ OR FILE_SHARE_WRITE OR FILE_SHARE_DELETE = (7 :: 32 word)" by simp
  have "check_sharing f acc sh s = Some (shares acc sh' \<and> shares acc' (if acc = 0 then 7 else sh), ?s)"
    using assms(1-3) o(1) unfolding check_sharing_def Let_def seven by (simp add: shares_def)
  then show ?thesis using o(2,3) all by auto
qed

theorem check_sharing_correct_witness:
  "\<exists>s'. check_sharing 0 1 1 (locked_file []) = Some
      (\<forall>g \<in> set [0]. g \<noteq> 0 \<longrightarrow> shares 1 (fd_sharing (the (descs (locked_file []) g))) \<and>
         ((1 :: 32 word) = 0 \<or> shares (fd_access (the (descs (locked_file []) g))) 1), s') \<and>
    descs s' 0 = Some ((locked_desc 0)\<lparr>fd_access := 1, fd_sharing := (if (1 :: 32 word) = 0 then 7 else 1)\<rparr>)"
  using check_sharing_correct [of "locked_file []" 0 "locked_desc 0" 0 "\<lparr>in_open = [0], in_locks = [], in_closed = []\<rparr>" 1 1]
  by (simp add: locked_file_def locked_desc_def)

end
