(* ===== verification/Escapes.thy ===== *)
theory Escapes
  imports Prelude
begin

text \<open>
  Unicode strings in the text files of the registry: \<^verbatim>\<open>dump_strW\<close> (\<^verbatim>\<open>unicode.c\<close>) writes a string with
  escapes into a buffer of 256 bytes that is flushed to the file when it is nearly full,
  \<^verbatim>\<open>parse_strW\<close> (\<^verbatim>\<open>registry.c\<close>) reads it back.

  Bytes are signed characters: a byte above 127 that is not escaped is read as a negative number.
  A C string is the list of its bytes without the null byte at the end; reading at the end of the list
  yields this null byte and reading behind it is undefined.
\<close>

type_synonym wchar = "16 word"
type_synonym byte = "8 word"

subsection \<open>Writing\<close>

abbreviation "backslash \<equiv> (0x5c :: byte)"

definition isxdigit :: "byte \<Rightarrow> bool" where
  "isxdigit c \<longleftrightarrow> 0x30 \<le> c \<and> c \<le> 0x39 \<or> 0x41 \<le> c \<and> c \<le> 0x46 \<or> 0x61 \<le> c \<and> c \<le> 0x66"

definition octal :: "byte \<Rightarrow> bool" where
  "octal c \<longleftrightarrow> 0x30 \<le> c \<and> c \<le> 0x37"

text \<open>A digit, in lower case, and the digits \<^verbatim>\<open>sprintf\<close> prints for \<^verbatim>\<open>%04x\<close>, \<^verbatim>\<open>%x\<close>, \<^verbatim>\<open>%03o\<close> and \<^verbatim>\<open>%o\<close>.\<close>

definition digit :: "nat \<Rightarrow> byte" where
  "digit d = (if d < 10 then of_nat (0x30 + d) else of_nat (0x57 + d))"

definition hex4 :: "wchar \<Rightarrow> nat list" where
  "hex4 c = [unat c div 4096, unat c div 256 mod 16, unat c div 16 mod 16, unat c mod 16]"

definition oct3 :: "wchar \<Rightarrow> nat list" where
  "oct3 c = [unat c div 64, unat c div 8 mod 8, unat c mod 8]"

fun strip_zeros :: "nat list \<Rightarrow> nat list" where
  "strip_zeros (0 # d # ds) = strip_zeros (d # ds)"
| "strip_zeros ds = ds"

text \<open>The letter of the C escape of a control character, a dot for none.\<close>

definition escapes :: "byte list" where
  "escapes = [0x2e, 0x2e, 0x2e, 0x2e, 0x2e, 0x2e, 0x2e, 0x61, 0x62, 0x74, 0x6e, 0x76, 0x66, 0x72, 0x2e, 0x2e,
              0x2e, 0x2e, 0x2e, 0x2e, 0x2e, 0x2e, 0x2e, 0x2e, 0x2e, 0x2e, 0x2e, 0x65, 0x2e, 0x2e, 0x2e, 0x2e]"

text \<open>What one round of the loop writes, and whether \<^verbatim>\<open>sprintf\<close> adds a null byte behind it.\<close>

definition dump_char :: "wchar \<Rightarrow> wchar list \<Rightarrow> byte \<Rightarrow> byte \<Rightarrow> byte list \<times> bool" where
  "dump_char c cs e0 e1 =
     (if c > 127 then
        (if cs \<noteq> [] \<and> hd cs < 128 \<and> isxdigit (ucast (hd cs))
         then ([backslash, 0x78] @ map digit (hex4 c), True)
         else ([backslash, 0x78] @ map digit (strip_zeros (hex4 c)), True))
      else if c < 32 then
        (if c = 0 \<and> cs = [] then ([], False)
         else if escapes ! unat c \<noteq> 0x2e then ([backslash, escapes ! unat c], True)
         else if cs \<noteq> [] \<and> 0x30 \<le> hd cs \<and> hd cs \<le> 0x37 then ([backslash] @ map digit (oct3 c), True)
         else ([backslash] @ map digit (strip_zeros (oct3 c)), True))
      else if ucast c = backslash \<or> ucast c = e0 \<or> ucast c = e1 then ([backslash, ucast c], False)
      else ([ucast c], False))"

text \<open>
  \<open>used\<close> bytes of the buffer are in use; storing outside of the 256 bytes is undefined.  The result
  is what has been written to the file and the count.
\<close>

fun dump_from :: "wchar list \<Rightarrow> byte \<Rightarrow> byte \<Rightarrow> byte list \<Rightarrow> nat \<Rightarrow> byte list \<Rightarrow> (byte list \<times> nat) option" where
  "dump_from [] e0 e1 buffer cnt out = Some (out @ buffer, cnt + length buffer)"
| "dump_from (c # cs) e0 e1 buffer cnt out =
     (let (buffer, cnt, out) = (if length buffer > 256 - 8 then ([], cnt + length buffer, out @ buffer) else (buffer, cnt, out)) in
      case dump_char c cs e0 e1 of (w, null) \<Rightarrow>
        if length buffer + length w + (if null then 1 else 0) > 256 then None
        else dump_from cs e0 e1 (buffer @ w) cnt out)"

definition dump_strW :: "wchar list \<Rightarrow> byte \<Rightarrow> byte \<Rightarrow> (byte list \<times> nat) option" where
  "dump_strW str e0 e1 = dump_from str e0 e1 [] 0 []"

subsection \<open>Reading\<close>

definition to_hex :: "byte \<Rightarrow> wchar" where
  "to_hex c = (if 0x30 \<le> c \<and> c \<le> 0x39 then ucast c - 0x30 else ucast (c OR 0x20) - 0x61 + 10)"

text \<open>At most \<open>n\<close> more digits.\<close>

fun read_hex :: "nat \<Rightarrow> wchar \<Rightarrow> byte list \<Rightarrow> wchar \<times> byte list" where
  "read_hex (Suc n) acc (c # p) = (if isxdigit c then read_hex n (acc * 16 + to_hex c) p else (acc, c # p))"
| "read_hex n acc p = (acc, p)"

fun read_oct :: "nat \<Rightarrow> wchar \<Rightarrow> byte list \<Rightarrow> wchar \<times> byte list" where
  "read_oct (Suc n) acc (c # p) = (if octal c then read_oct n (acc * 8 + (ucast c - 0x30)) p else (acc, c # p))"
| "read_oct n acc p = (acc, p)"

text \<open>The character behind a backslash; at the end of the string the null byte is stepped over.\<close>

definition read_escape :: "byte list \<Rightarrow> (wchar \<times> byte list) option" where
  "read_escape p = (case p of [] \<Rightarrow> None | c # q \<Rightarrow>
     Some (if c = 0x61 then (7, q)
      else if c = 0x62 then (8, q)
      else if c = 0x65 then (27, q)
      else if c = 0x66 then (12, q)
      else if c = 0x6e then (10, q)
      else if c = 0x72 then (13, q)
      else if c = 0x74 then (9, q)
      else if c = 0x76 then (11, q)
      else if c = 0x78 then (case q of d # _ \<Rightarrow> if isxdigit d then read_hex 4 0 q else (0x78, q) | [] \<Rightarrow> (0x78, q))
      else if octal c then read_oct 3 0 p
      else (scast c, q)))"

definition read_char :: "byte list \<Rightarrow> (wchar \<times> byte list) option" where
  "read_char p = (if hd p \<noteq> backslash then Some (scast (hd p), tl p) else read_escape (tl p))"

lemma read_hex_length: "length (snd (read_hex n acc p)) \<le> length p"
  by (induction n acc p rule: read_hex.induct) auto

lemma read_oct_length: "length (snd (read_oct n acc p)) \<le> length p"
  by (induction n acc p rule: read_oct.induct) auto

lemma read_char_length:
  assumes "p \<noteq> []" "read_char p = Some (c, q)"
  shows "length q < length p"
  using assms read_hex_length [of 4 0 "tl (tl p)"] read_oct_length [of 3 0 "tl p"]
  by (cases p; cases "tl p") (auto simp: read_char_def read_escape_def split: if_splits list.splits)

text \<open>
  \<open>len\<close> is the size of the buffer of the caller in bytes, \<open>n\<close> the bytes needed so far with the null
  character.  The result is undefined, -1 (\<open>Some None\<close>), or the characters read, their size and the rest
  of the input.
\<close>

function parse_from :: "nat \<Rightarrow> byte \<Rightarrow> nat \<Rightarrow> wchar list \<Rightarrow> byte list \<Rightarrow> (wchar list \<times> nat \<times> byte list) option option" where
  "parse_from len endchar n dest p =
     (if p = [] then Some None
      else if hd p = endchar then Some (Some (dest, n, tl p))
      else case read_char p of None \<Rightarrow> None
      | Some (c, q) \<Rightarrow> if n + 2 > len then Some None else parse_from len endchar (n + 2) (dest @ [c]) q)"
  by pat_completeness auto
termination by (relation "measure (\<lambda>(len, endchar, n, dest, p). length p)") (auto dest: read_char_length)

declare parse_from.simps [simp del]

text \<open>The characters without the null character at the end, the size with it, and the number of bytes read.\<close>

definition parse_strW :: "nat \<Rightarrow> byte list \<Rightarrow> byte \<Rightarrow> (wchar list \<times> nat \<times> nat) option option" where
  "parse_strW len src endchar = map_option (map_option
     (\<lambda>(dest, n, rest). (dest, n, length src - length rest))) (parse_from len endchar 2 [] src)"

end
