(* ===== verification/Escapes_Correct.thy ===== *)
theory Escapes_Correct
  imports Escapes
begin

text \<open>
  What \<^verbatim>\<open>dump_strW\<close> writes stays within its buffer, and \<^verbatim>\<open>parse_strW\<close> reads it back: every string, but
  for a null character at its end.
\<close>

subsection \<open>The buffer\<close>

fun emit :: "wchar list \<Rightarrow> byte \<Rightarrow> byte \<Rightarrow> byte list" where
  "emit [] e0 e1 = []"
| "emit (c # cs) e0 e1 = fst (dump_char c cs e0 e1) @ emit cs e0 e1"

lemma strip_zeros_length: "length (strip_zeros ds) \<le> length ds"
  by (induction ds rule: strip_zeros.induct) auto

lemma dump_char_length: "length (fst (dump_char c cs e0 e1)) \<le> 6"
  using strip_zeros_length [of "hex4 c"] strip_zeros_length [of "oct3 c"]
  by (auto simp: dump_char_def hex4_def oct3_def)

lemma dump_from_ok:
  "length buffer \<le> 256 \<Longrightarrow> dump_from cs e0 e1 buffer cnt out =
   Some (out @ buffer @ emit cs e0 e1, cnt + length buffer + length (emit cs e0 e1))"
proof (induction cs arbitrary: buffer cnt out)
  case (Cons c cs)
  obtain w b where w: "dump_char c cs e0 e1 = (w, b)" by fastforce
  have "length w \<le> 6" using dump_char_length [of c cs e0 e1] w by simp
  then show ?case using Cons.prems Cons.IH [of w "cnt + length buffer" "out @ buffer"] Cons.IH [of "buffer @ w" cnt out] w
    by (auto simp: Let_def)
qed simp

subsection \<open>Digits\<close>

fun val :: "wchar \<Rightarrow> wchar \<Rightarrow> nat list \<Rightarrow> wchar" where
  "val b acc [] = acc"
| "val b acc (d # ds) = val b (acc * b + of_nat d) ds"

lemma digit_hex: "d < 16 \<Longrightarrow> isxdigit (digit d) \<and> to_hex (digit d) = of_nat d"
proof -
  have "list_all (\<lambda>d. isxdigit (digit d) \<and> to_hex (digit d) = of_nat d) [0..<16]" by code_simp
  then show "d < 16 \<Longrightarrow> isxdigit (digit d) \<and> to_hex (digit d) = of_nat d" by (simp add: list_all_iff)
qed

lemma digit_oct: "d < 8 \<Longrightarrow> octal (digit d) \<and> ucast (digit d) - 0x30 = (of_nat d :: wchar)"
proof -
  have "list_all (\<lambda>d. octal (digit d) \<and> ucast (digit d) - 0x30 = (of_nat d :: wchar)) [0..<8]" by code_simp
  then show "d < 8 \<Longrightarrow> octal (digit d) \<and> ucast (digit d) - 0x30 = (of_nat d :: wchar)" by (simp add: list_all_iff)
qed

lemma read_hex_digits:
  "\<forall>d \<in> set ds. d < 16 \<Longrightarrow> length ds \<le> n \<Longrightarrow> length ds = n \<or> \<not> isxdigit e \<Longrightarrow>
   read_hex n acc (map digit ds @ e # r) = (val 16 acc ds, e # r)"
proof (induction ds arbitrary: n acc)
  case (Cons d ds)
  then show ?case using digit_hex by (cases n) auto
next
  case Nil
  then show ?case by (cases n) auto
qed

lemma read_oct_digits:
  "\<forall>d \<in> set ds. d < 8 \<Longrightarrow> length ds \<le> n \<Longrightarrow> length ds = n \<or> \<not> octal e \<Longrightarrow>
   read_oct n acc (map digit ds @ e # r) = (val 8 acc ds, e # r)"
proof (induction ds arbitrary: n acc)
  case (Cons d ds)
  then show ?case using digit_oct by (cases n) auto
next
  case Nil
  then show ?case by (cases n) auto
qed

lemma strip_zeros_val: "val b 0 (strip_zeros ds) = val b 0 ds"
  by (induction ds rule: strip_zeros.induct) auto

lemma strip_zeros_subset: "set (strip_zeros ds) \<subseteq> set ds"
  by (induction ds rule: strip_zeros.induct) auto

lemma strip_zeros_Nil: "strip_zeros ds = [] \<longleftrightarrow> ds = []"
  by (induction ds rule: strip_zeros.induct) auto

lemma hex4_digits: "\<forall>d \<in> set (hex4 c). d < 16"
proof -
  have "unat c < 2 ^ LENGTH(16)" by (rule unsigned_less)
  then show ?thesis by (auto simp: hex4_def)
qed

lemma oct3_digits: "c < 32 \<Longrightarrow> \<forall>d \<in> set (oct3 c). d < 8"
  by (auto simp: oct3_def word_less_nat_alt)

lemma div_digit: "n div (b * m) * b + n div m mod b = (n div m :: nat)"
  by (metis div_mult2_eq div_mult_mod_eq mult.commute)

lemma hex4_val: "val 16 0 (hex4 c) = c"
proof -
  have "((unat c div 4096 * 16 + unat c div 256 mod 16) * 16 + unat c div 16 mod 16) * 16 + unat c mod 16 = unat c"
    using div_digit [of "unat c" 16 256] div_digit [of "unat c" 16 16] by simp
  then have "(of_nat (((unat c div 4096 * 16 + unat c div 256 mod 16) * 16 + unat c div 16 mod 16) * 16 + unat c mod 16) :: wchar) = of_nat (unat c)"
    by (rule arg_cong)
  then show ?thesis by (simp add: hex4_def)
qed

lemma oct3_val: "val 8 0 (oct3 c) = c"
proof -
  have "(unat c div 64 * 8 + unat c div 8 mod 8) * 8 + unat c mod 8 = unat c"
    using div_digit [of "unat c" 8 8] by simp
  then have "(of_nat ((unat c div 64 * 8 + unat c div 8 mod 8) * 8 + unat c mod 8) :: wchar) = of_nat (unat c)" by (rule arg_cong)
  then show ?thesis by (simp add: oct3_def)
qed

subsection \<open>One character\<close>

text \<open>The quotes in use: the characters escaped and the one that ends the string.\<close>

definition quoting :: "byte \<Rightarrow> byte \<Rightarrow> byte \<Rightarrow> bool" where
  "quoting e0 e1 endchar \<longleftrightarrow> (e0, e1, endchar) \<in> {(0x22, 0x22, 0x22), (0x5b, 0x5d, 0x5d)}"

lemma quotingD:
  assumes "quoting e0 e1 endchar"
  shows "endchar = e0 \<or> endchar = e1" "endchar \<noteq> backslash" "\<not> isxdigit endchar" "\<not> octal endchar"
    "\<forall>x \<in> {e0, e1, backslash}. \<not> octal x \<and> x \<notin> {0x61, 0x62, 0x65, 0x66, 0x6e, 0x72, 0x74, 0x76, 0x78}"
  using assms by (auto simp: quoting_def isxdigit_def octal_def)

lemma octal_xdigit: "octal c \<Longrightarrow> isxdigit c"
  by (auto simp: octal_def isxdigit_def intro: order_trans)

lemma ucast_ascii: "(c :: wchar) \<le> 127 \<Longrightarrow> scast (ucast c :: byte) = c \<and> ucast (ucast c :: byte) = c"
proof
  assume c: "c \<le> 127"
  have "c = of_nat (unat c)" by simp
  have "list_all (\<lambda>n. scast (ucast (of_nat n :: wchar) :: byte) = (of_nat n :: wchar) \<and> ucast (ucast (of_nat n :: wchar) :: byte) = (of_nat n :: wchar)) [0..<128]"
    by code_simp
  moreover have "unat c < 128" using c by (simp add: word_le_nat_alt)
  ultimately have "scast (ucast (of_nat (unat c) :: wchar) :: byte) = (of_nat (unat c) :: wchar) \<and>
      ucast (ucast (of_nat (unat c) :: wchar) :: byte) = (of_nat (unat c) :: wchar)"
    unfolding list_all_iff by (metis atLeastLessThan_iff atLeastLessThan_upt le0)
  then show "scast (ucast c :: byte) = c" "ucast (ucast c :: byte) = c" by simp_all
qed

lemma octal_ascii: "(c :: wchar) < 128 \<Longrightarrow> octal (ucast c) \<longleftrightarrow> 0x30 \<le> c \<and> c \<le> 0x37"
proof -
  assume c: "c < 128"
  have "list_all (\<lambda>n. octal (ucast (of_nat n :: wchar)) \<longleftrightarrow> 0x30 \<le> (of_nat n :: wchar) \<and> (of_nat n :: wchar) \<le> 0x37) [0..<128]"
    by code_simp
  moreover have "unat c < 128" using c by (simp add: word_less_nat_alt)
  ultimately have "octal (ucast (of_nat (unat c) :: wchar)) \<longleftrightarrow> 0x30 \<le> (of_nat (unat c) :: wchar) \<and> (of_nat (unat c) :: wchar) \<le> 0x37"
    unfolding list_all_iff by (metis atLeastLessThan_iff atLeastLessThan_upt le0)
  then show ?thesis by simp
qed

text \<open>What comes behind a character: not a digit that would be taken for one of its escape.\<close>

lemma dump_char_head:
  assumes "fst (dump_char c cs e0 e1) = x # w"
  shows "x = backslash \<or> c \<le> 127 \<and> 32 \<le> c \<and> x = ucast c"
  using assms by (auto simp: dump_char_def not_less split: if_splits)

lemma emit_head:
  assumes "quoting e0 e1 endchar" "emit cs e0 e1 @ endchar # rest = x # r" "isxdigit x"
  shows "cs \<noteq> [] \<and> hd cs < 128 \<and> x = ucast (hd cs)"
proof (cases cs)
  case Nil
  then show ?thesis using assms quotingD(3) by auto
next
  case (Cons d ds)
  have b: "\<not> isxdigit backslash" by (simp add: isxdigit_def)
  show ?thesis
  proof (cases "fst (dump_char d ds e0 e1)")
    case Nil
    then have "ds = []" by (auto simp: dump_char_def split: if_splits)
    then show ?thesis using Nil Cons assms quotingD(3) by auto
  next
    case (Cons y w)
    then have "x = y" using assms(2) \<open>cs = d # ds\<close> by simp
    then show ?thesis using dump_char_head [OF Cons] b assms(3) \<open>cs = d # ds\<close> by (auto simp: word_le_nat_alt word_less_nat_alt)
  qed
qed

text \<open>A character behind a backslash that stands for itself.\<close>

lemma read_escaped:
  "x \<notin> {0x61, 0x62, 0x65, 0x66, 0x6e, 0x72, 0x74, 0x76, 0x78} \<Longrightarrow> \<not> octal x \<Longrightarrow> read_escape (x # q) = Some (scast x, q)"
  by (simp add: read_escape_def)

lemma read_hex_escape:
  assumes "\<forall>d \<in> set ds. d < 16" "ds \<noteq> []" "length ds = 4 \<or> length ds \<le> 4 \<and> \<not> isxdigit e"
  shows "read_char (backslash # 0x78 # map digit ds @ e # r) = Some (val 16 0 ds, e # r)"
proof -
  obtain d ds' where ds: "ds = d # ds'" using assms(2) by (cases ds) auto
  have "isxdigit (digit d)" using assms(1) digit_hex ds by simp
  moreover have "read_hex 4 0 (map digit ds @ e # r) = (val 16 0 ds, e # r)"
    by (rule read_hex_digits) (use assms in auto)
  ultimately show ?thesis by (simp add: read_char_def read_escape_def octal_def ds del: read_hex.simps)
qed

lemma octal_letters: "octal x \<Longrightarrow> x \<notin> {0x61, 0x62, 0x65, 0x66, 0x6e, 0x72, 0x74, 0x76, 0x78}"
  by (auto simp: octal_def)

lemma read_oct_escape:
  assumes "\<forall>d \<in> set ds. d < 8" "ds \<noteq> []" "length ds = 3 \<or> length ds \<le> 3 \<and> \<not> octal e"
  shows "read_char (backslash # map digit ds @ e # r) = Some (val 8 0 ds, e # r)"
proof -
  obtain d ds' where ds: "ds = d # ds'" using assms(2) by (cases ds) auto
  have o: "octal (digit d)" using assms(1) digit_oct ds by simp
  moreover have "read_oct 3 0 (map digit ds @ e # r) = (val 8 0 ds, e # r)"
    by (rule read_oct_digits) (use assms in auto)
  ultimately show ?thesis using octal_letters [OF o] by (simp add: read_char_def read_escape_def ds del: read_oct.simps)
qed

lemma read_c_escape:
  assumes "c < 32" "escapes ! unat c \<noteq> 0x2e"
  shows "read_char (backslash # escapes ! unat c # q) = Some (c, q)"
proof -
  have "list_all (\<lambda>n. escapes ! n \<noteq> 0x2e \<longrightarrow> n \<in> {7, 8, 9, 10, 11, 12, 13, 27}) [0..<32]" by code_simp
  moreover have "unat c < 32" using assms(1) by (simp add: word_less_nat_alt)
  ultimately have "unat c \<in> {7, 8, 9, 10, 11, 12, 13, 27}" using assms(2) by (auto simp: list_all_iff)
  then have "c \<in> {7, 8, 9, 10, 11, 12, 13, 27}" by (auto dest: arg_cong [where f = "of_nat :: nat \<Rightarrow> wchar"])
  then show ?thesis by (elim insertE) (simp_all add: escapes_def read_char_def read_escape_def octal_def)
qed

lemma read_dumped:
  assumes q: "quoting e0 e1 endchar" and c: "c \<noteq> 0 \<or> cs \<noteq> []" and r: "r = emit cs e0 e1 @ endchar # rest"
  shows "\<exists>x w. fst (dump_char c cs e0 e1) = x # w \<and> x \<noteq> endchar \<and> read_char (x # w @ r) = Some (c, r)"
proof -
  have "r \<noteq> []" using r by simp
  then obtain e r' where e: "r = e # r'" by (cases r) auto
  note head = emit_head [OF q r [unfolded e, symmetric]]
  have nb: "backslash \<noteq> endchar" using quotingD(2) [OF q] by simp
  consider (hex) "c > 127" | (ctl) "c < 32" | (ascii) "32 \<le> c" "c \<le> 127" by force
  then show ?thesis
  proof cases
    case hex
    show ?thesis
    proof (cases "cs \<noteq> [] \<and> hd cs < 128 \<and> isxdigit (ucast (hd cs))")
      case True
      have "read_char (backslash # 0x78 # map digit (hex4 c) @ r) = Some (c, r)"
        unfolding e by (subst read_hex_escape) (use hex4_digits hex4_val in \<open>auto simp: hex4_def\<close>)
      then show ?thesis using hex True nb by (auto simp: dump_char_def)
    next
      case False
      have "read_char (backslash # 0x78 # map digit (strip_zeros (hex4 c)) @ r) = Some (c, r)"
        unfolding e
        by (subst read_hex_escape)
          (use hex4_digits [of c] hex4_val [of c] strip_zeros_subset [of "hex4 c"] strip_zeros_length [of "hex4 c"] head False
           in \<open>auto simp: strip_zeros_val strip_zeros_Nil hex4_def\<close>)
      then show ?thesis using hex False nb by (auto simp: dump_char_def)
    qed
  next
    case ctl
    have nh: "\<not> c > 127" using ctl by (simp add: word_less_nat_alt)
    consider (letter) "escapes ! unat c \<noteq> 0x2e" | (three) "escapes ! unat c = 0x2e" "cs \<noteq> [] \<and> 0x30 \<le> hd cs \<and> hd cs \<le> 0x37"
      | (short) "escapes ! unat c = 0x2e" "\<not> (cs \<noteq> [] \<and> 0x30 \<le> hd cs \<and> hd cs \<le> 0x37)" by blast
    then show ?thesis
    proof cases
      case letter
      then show ?thesis using read_c_escape [OF ctl letter, of r] nb c nh ctl by (auto simp: dump_char_def)
    next
      case three
      have "read_char (backslash # map digit (oct3 c) @ r) = Some (c, r)"
        unfolding e by (subst read_oct_escape) (use oct3_digits [OF ctl] oct3_val in \<open>auto simp: oct3_def\<close>)
      then show ?thesis using three nb c nh ctl by (auto simp: dump_char_def)
    next
      case short
      have "\<not> octal e"
      proof
        assume o: "octal e"
        then have h: "cs \<noteq> []" "hd cs < 128" "e = ucast (hd cs)" using head octal_xdigit by auto
        then show False using short o octal_ascii [of "hd cs"] by simp
      qed
      then have "read_char (backslash # map digit (strip_zeros (oct3 c)) @ r) = Some (c, r)"
        unfolding e
        by (subst read_oct_escape)
          (use oct3_digits [OF ctl] oct3_val [of c] strip_zeros_subset [of "oct3 c"] strip_zeros_length [of "oct3 c"]
           in \<open>auto simp: strip_zeros_val strip_zeros_Nil oct3_def\<close>)
      then show ?thesis using short nb c nh ctl by (auto simp: dump_char_def)
    qed
  next
    case ascii
    have u: "scast (ucast c :: byte) = c" using ucast_ascii [OF ascii(2)] by simp
    have n: "\<not> c > 127" "\<not> c < 32" using ascii by auto
    show ?thesis
    proof (cases "ucast c = backslash \<or> ucast c = e0 \<or> ucast c = e1")
      case True
      then have "read_escape (ucast c # r) = Some (c, r)"
        using read_escaped [of "ucast c" r] quotingD(5) [OF q] u by auto
      then show ?thesis using True n nb by (simp add: dump_char_def read_char_def)
    next
      case False
      then have "ucast c \<noteq> endchar" using quotingD(1) [OF q] by auto
      then show ?thesis using False n u by (simp add: dump_char_def read_char_def)
    qed
  qed
qed

lemma parse_from_dumped:
  assumes "quoting e0 e1 endchar" "n + 2 * length cs \<le> len"
  shows "parse_from len endchar n dest (emit cs e0 e1 @ endchar # rest) =
    (let str = (if cs \<noteq> [] \<and> last cs = 0 then butlast cs else cs) in Some (Some (dest @ str, n + 2 * length str, rest)))"
  using assms(2)
proof (induction cs arbitrary: n dest)
  case Nil
  then show ?case by (subst parse_from.simps) simp
next
  case (Cons c cs)
  show ?case
  proof (cases "c = 0 \<and> cs = []")
    case True
    then show ?thesis by (subst parse_from.simps) (simp add: dump_char_def)
  next
    case False
    obtain x w where x: "fst (dump_char c cs e0 e1) = x # w" "x \<noteq> endchar"
        "read_char (x # w @ emit cs e0 e1 @ endchar # rest) = Some (c, emit cs e0 e1 @ endchar # rest)"
      using read_dumped [OF assms(1) _ refl] False by blast
    have "parse_from len endchar n dest (emit (c # cs) e0 e1 @ endchar # rest) =
        parse_from len endchar (n + 2) (dest @ [c]) (emit cs e0 e1 @ endchar # rest)"
      using x Cons.prems by (subst parse_from.simps) simp
    then show ?thesis using Cons.IH [of "n + 2" "dest @ [c]"] Cons.prems False by (cases "length cs") (auto simp: Let_def)
  qed
qed

subsection \<open>The claims\<close>

text \<open>
  C13: \<^verbatim>\<open>dump_strW\<close> never stores outside of its buffer of 256 bytes, whatever the string; it returns the
  number of bytes it has written.
\<close>

theorem dump_strW_in_bounds:
  "\<exists>out. dump_strW str e0 e1 = Some (out, length out) \<and> length out \<le> 6 * length str"
proof -
  have "length (emit cs e0 e1) \<le> 6 * length cs" for cs
    by (induction cs) (auto intro: add_le_mono dump_char_length)
  then show ?thesis unfolding dump_strW_def by (subst dump_from_ok) auto
qed

definition without_null :: "wchar list \<Rightarrow> wchar list" where
  "without_null str = (if str \<noteq> [] \<and> last str = 0 then butlast str else str)"

text \<open>
  C12: what \<^verbatim>\<open>dump_strW\<close> writes for a name or a value, and the quote behind it, is read back by
  \<^verbatim>\<open>parse_strW\<close> into any buffer with room for the string, whatever follows: the characters but for a null at the
  end, the size in bytes with a null at the end, and the number of bytes up to and with the quote.
\<close>

theorem dump_parse_roundtrip:
  assumes "quoting e0 e1 endchar" "2 * length str + 2 \<le> len" "dump_strW str e0 e1 = Some (out, cnt)"
  shows "parse_strW len (out @ endchar # rest) endchar =
    Some (Some (without_null str, 2 * length (without_null str) + 2, cnt + 1))"
proof -
  have out: "out = emit str e0 e1" "cnt = length out" using assms(3) unfolding dump_strW_def by (subst (asm) dump_from_ok; simp)+
  show ?thesis
    unfolding parse_strW_def out
    by (subst parse_from_dumped [OF assms(1)]) (use assms(2) in \<open>simp_all add: without_null_def Let_def\<close>)
qed

text \<open>The name [a, line feed, euro sign, 1, quote] with a null at the end.\<close>

theorem dump_parse_roundtrip_witness:
  "parse_strW 100 ([0x61, backslash, 0x6e, backslash, 0x78, 0x32, 0x30, 0x61, 0x63, 0x31, backslash, 0x22] @ 0x22 # [0x3d]) 0x22 =
    Some (Some (without_null [0x61, 10, 0x20ac, 0x31, 0x22, 0], 2 * length (without_null [0x61, 10, 0x20ac, 0x31, 0x22, 0]) + 2, 12 + 1))"
proof -
  have "dump_strW [0x61, 10, 0x20ac, 0x31, 0x22, 0] 0x22 0x22 =
      Some ([0x61, backslash, 0x6e, backslash, 0x78, 0x32, 0x30, 0x61, 0x63, 0x31, backslash, 0x22], 12)"
    by (simp add: dump_strW_def dump_char_def hex4_def digit_def escapes_def isxdigit_def)
  then show ?thesis by (intro dump_parse_roundtrip [of "0x22" "0x22"]) (simp_all add: quoting_def)
qed

subsection \<open>A backslash at the end of a line\<close>

text \<open>The null byte is taken for the escaped character and the loop reads on behind it.\<close>

lemma parse_strW_past_end: "parse_strW 100 [0x61, backslash] 0x22 = None"
  by code_simp

end
