(* ===== verification/Registry.thy ===== *)
theory Registry
  imports Escapes
begin

text \<open>
  The registry (\<^verbatim>\<open>registry.c\<close>): a tree of keys with subkeys and values in arrays sorted by name, case ignored,
  that grow and shrink, marks of what has been modified, and events to set on changes.

  A key has a number; a younger key has a greater one.  An array is the list of the entries in use and
  the count of those allocated.  \<open>signalled\<close> lists the events that have been set and released
  (\<^verbatim>\<open>set_event\<close>, theory \<open>Sync\<close>), \<open>now\<close> is what \<^verbatim>\<open>time\<close> returns, \<open>lowerW\<close> the case table of \<^verbatim>\<open>libs/wine/casemap.c\<close>.
  Strings are lists of characters, and their lengths are counted in characters where the code counts bytes.
\<close>

subsection \<open>Data\<close>

record notify =
  n_event :: "nat option"
  n_subtree :: bool
  n_filter :: "32 word"
  n_hkey :: "32 word"
  n_process :: nat

text \<open>The type of a value is unset until it has been stored.\<close>

record key_value =
  v_name :: "wchar list"
  v_type :: "16 word option"
  v_data :: "byte list"

record key =
  k_refs :: nat
  k_name :: "wchar list"
  k_class :: "wchar list"
  k_parent :: "nat option"
  k_subkeys :: "nat list"
  nb_subkeys :: nat
  k_values :: "key_value list"
  nb_values :: nat
  k_flags :: "32 word"
  k_modif :: int
  notify_list :: "notify list"

record registry = env +
  keys :: "nat \<Rightarrow> key option"
  next_key :: nat
  root_key :: nat
  now :: int
  lowerW :: "wchar \<Rightarrow> wchar"
  signalled :: "nat list"

definition KEY_VOLATILE :: "32 word" where "KEY_VOLATILE = 1"
definition KEY_DELETED :: "32 word" where "KEY_DELETED = 2"
definition KEY_DIRTY :: "32 word" where "KEY_DIRTY = 4"

abbreviation "MIN_SUBKEYS \<equiv> (8 :: nat)"
abbreviation "MIN_VALUES \<equiv> (8 :: nat)"
abbreviation "MAX_NAME_LEN \<equiv> (260 :: nat)"
abbreviation "MAX_VALUE_LEN \<equiv> (260 :: nat)"
abbreviation "REG_NOTIFY_CHANGE_NAME \<equiv> (1 :: 32 word)"
abbreviation "REG_NOTIFY_CHANGE_LAST_SET \<equiv> (4 :: 32 word)"

definition set_key :: "nat \<Rightarrow> key \<Rightarrow> registry \<Rightarrow> registry" where
  "set_key k key s = s\<lparr>keys := (keys s)(k \<mapsto> key)\<rparr>"

definition flagged :: "key \<Rightarrow> 32 word \<Rightarrow> bool" where
  "flagged key m \<longleftrightarrow> k_flags key AND m \<noteq> 0"

subsection \<open>Notifications and modified keys\<close>

text \<open>Setting the events of the notifications that \<open>fire\<close>; the notifications stay, without their events.\<close>

definition fire :: "(notify \<Rightarrow> bool) \<Rightarrow> nat \<Rightarrow> registry \<Rightarrow> registry option" where
  "fire P k s = do { key \<leftarrow> keys s k;
     Some (set_key k (key\<lparr>notify_list := map (\<lambda>n. if P n then n\<lparr>n_event := None\<rparr> else n) (notify_list key)\<rparr>)
       (s\<lparr>signalled := signalled s @ List.map_filter n_event (filter P (notify_list key))\<rparr>)) }"

definition check_notify :: "nat \<Rightarrow> 32 word \<Rightarrow> bool \<Rightarrow> registry \<Rightarrow> registry option" where
  "check_notify k change not_subtree = fire (\<lambda>n. (not_subtree \<or> n_subtree n) \<and> change AND n_filter n \<noteq> 0) k"

text \<open>The loops up the tree: a parent is older than its subkeys, so \<open>Suc k\<close> steps from \<open>k\<close> on are enough.\<close>

fun make_dirty_from :: "nat \<Rightarrow> nat option \<Rightarrow> registry \<Rightarrow> registry option" where
  "make_dirty_from n None s = Some s"
| "make_dirty_from 0 (Some k) s = None"
| "make_dirty_from (Suc n) (Some k) s =
     do { key \<leftarrow> keys s k;
          if flagged key (KEY_DIRTY OR KEY_VOLATILE) then Some s
          else make_dirty_from n (k_parent key) (set_key k (key\<lparr>k_flags := k_flags key OR KEY_DIRTY\<rparr>) s) }"

definition make_dirty :: "nat \<Rightarrow> registry \<Rightarrow> registry option" where
  "make_dirty k s = make_dirty_from (Suc k) (Some k) s"

fun notify_parents :: "nat \<Rightarrow> nat option \<Rightarrow> 32 word \<Rightarrow> registry \<Rightarrow> registry option" where
  "notify_parents n None change s = Some s"
| "notify_parents 0 (Some k) change s = None"
| "notify_parents (Suc n) (Some k) change s =
     do { s \<leftarrow> check_notify k change False s; key \<leftarrow> keys s k; notify_parents n (k_parent key) change s }"

definition touch_key :: "nat \<Rightarrow> 32 word \<Rightarrow> registry \<Rightarrow> registry option" where
  "touch_key k change s =
     do { key \<leftarrow> keys s k;
          s \<leftarrow> make_dirty k (set_key k (key\<lparr>k_modif := now s\<rparr>) s);
          s \<leftarrow> check_notify k change True s;
          key \<leftarrow> keys s k;
          notify_parents (Suc k) (k_parent key) (change AND NOT REG_NOTIFY_CHANGE_LAST_SET) s }"

text \<open>\<^verbatim>\<open>make_clean\<close> goes down the tree, to younger keys.\<close>

fun for_each :: "('a \<Rightarrow> 's \<Rightarrow> 's option) \<Rightarrow> 'a list \<Rightarrow> 's \<Rightarrow> 's option" where
  "for_each f [] s = Some s"
| "for_each f (x # xs) s = do { s \<leftarrow> f x s; for_each f xs s }"

fun make_clean_down :: "nat \<Rightarrow> nat \<Rightarrow> registry \<Rightarrow> registry option" where
  "make_clean_down 0 k s = None"
| "make_clean_down (Suc n) k s =
     do { key \<leftarrow> keys s k;
          if flagged key KEY_VOLATILE \<or> \<not> flagged key KEY_DIRTY then Some s
          else for_each (make_clean_down n) (k_subkeys key) (set_key k (key\<lparr>k_flags := k_flags key AND NOT KEY_DIRTY\<rparr>) s) }"

definition make_clean :: "nat \<Rightarrow> registry \<Rightarrow> registry option" where
  "make_clean k s = make_clean_down (Suc (next_key s)) k s"

subsection \<open>Keys as objects\<close>

definition grab_key :: "nat \<Rightarrow> registry \<Rightarrow> registry option" where
  "grab_key k s = do { key \<leftarrow> keys s k; Some (set_key k (key\<lparr>k_refs := k_refs key + 1\<rparr>) s) }"

text \<open>The subkeys of a key that is destroyed lose their parent and a reference; its notifications all go.\<close>

fun release_key_n :: "nat \<Rightarrow> nat \<Rightarrow> registry \<Rightarrow> registry option" where
  "release_key_n 0 k s = None"
| "release_key_n (Suc n) k s =
     do { key \<leftarrow> keys s k;
          if k_refs key = 0 then None
          else if k_refs key > 1 then Some (set_key k (key\<lparr>k_refs := k_refs key - 1\<rparr>) s)
          else do {
            s \<leftarrow> for_each (\<lambda>c s. do { child \<leftarrow> keys s c; release_key_n n c (set_key c (child\<lparr>k_parent := None\<rparr>) s) })
                  (k_subkeys key) s;
            s \<leftarrow> fire (\<lambda>n. True) k s;
            Some (s\<lparr>keys := (keys s)(k := None)\<rparr>) } }"

definition release_key :: "nat \<Rightarrow> registry \<Rightarrow> registry option" where
  "release_key k s = release_key_n (Suc (next_key s)) k s"

definition find_notify :: "key \<Rightarrow> nat \<Rightarrow> 32 word \<Rightarrow> notify option" where
  "find_notify key p hkey = find (\<lambda>n. n_process n = p \<and> n_hkey n = hkey) (notify_list key)"

definition key_close_handle :: "nat \<Rightarrow> nat \<Rightarrow> 32 word \<Rightarrow> registry \<Rightarrow> registry option" where
  "key_close_handle k p hkey s =
     do { key \<leftarrow> keys s k;
          case find_notify key p hkey of None \<Rightarrow> Some s
          | Some n \<Rightarrow> Some (set_key k (key\<lparr>notify_list := remove1 n (notify_list key)\<rparr>)
              (s\<lparr>signalled := signalled s @ (case n_event n of Some e \<Rightarrow> [e] | None \<Rightarrow> [])\<rparr>)) }"

text \<open>
  The request, on the key and the event its handles name: the list of notifications afterwards and the
  reference to an old event that is given back (\<^verbatim>\<open>release_object\<close>, theory \<open>Release\<close>).
\<close>

definition set_registry_notification ::
  "nat \<Rightarrow> nat \<Rightarrow> nat \<Rightarrow> 32 word \<Rightarrow> bool \<Rightarrow> 32 word \<Rightarrow> registry \<Rightarrow> (nat option \<times> registry) option" where
  "set_registry_notification k event p hkey subtree filt s =
     do { key \<leftarrow> keys s k;
          case find_notify key p hkey of
            Some n \<Rightarrow> Some (n_event n, set_key k (key\<lparr>notify_list :=
              (notify_list key)[length (takeWhile (\<lambda>m. m \<noteq> n) (notify_list key)) := n\<lparr>n_event := Some event\<rparr>]\<rparr>) s)
          | None \<Rightarrow> (case mem_alloc s of (ok, s) \<Rightarrow>
              Some (None, if ok then set_key k (key\<lparr>notify_list := \<lparr>n_event = Some event, n_subtree = subtree, n_filter = filt,
                n_hkey = hkey, n_process = p\<rparr> # notify_list key\<rparr>) s else s)) }"

definition key_map_access :: "32 word \<Rightarrow> 32 word" where
  "key_map_access a =
     (let a = (if a AND 0x80000000 \<noteq> 0 then a OR 0x00020019 else a);
          a = (if a AND 0x40000000 \<noteq> 0 then a OR 0x00020006 else a);
          a = (if a AND 0x20000000 \<noteq> 0 then a OR 0x00020019 else a);
          a = (if a AND 0x10000000 \<noteq> 0 then a OR 0x000f003f else a) in
      a AND NOT 0xf0000000)"

subsection \<open>Names and paths\<close>

text \<open>\<^verbatim>\<open>memicmpW\<close> of \<^verbatim>\<open>libs/wine/string.c\<close>, on strings of \<open>n\<close> characters or more.\<close>

fun memicmpW :: "(wchar \<Rightarrow> wchar) \<Rightarrow> wchar list \<Rightarrow> wchar list \<Rightarrow> nat \<Rightarrow> int" where
  "memicmpW low (x # xs) (y # ys) (Suc n) =
     (let r = uint (low x) - uint (low y) in if r \<noteq> 0 then r else memicmpW low xs ys n)"
| "memicmpW low xs ys n = 0"

definition compare_names :: "(wchar \<Rightarrow> wchar) \<Rightarrow> wchar list \<Rightarrow> wchar list \<Rightarrow> int" where
  "compare_names low a b =
     (let res = memicmpW low a b (min (length a) (length b)) in
      if res = 0 then 2 * int (length a) - 2 * int (length b) else res)"

text \<open>The path of a request, in the characters of its data.\<close>

definition root_name :: "wchar list" where
  "root_name = [0x5c, 0x52, 0x65, 0x67, 0x69, 0x73, 0x74, 0x72, 0x79, 0x5c]"

definition get_req_path :: "(wchar \<Rightarrow> wchar) \<Rightarrow> wchar list \<Rightarrow> bool \<Rightarrow> wchar list" where
  "get_req_path low str skip_root =
     (if skip_root \<and> length str \<ge> length root_name \<and> memicmpW low str root_name (length root_name) = 0
      then drop (length root_name) str else str)"

text \<open>A token of a path and the path behind it; the first token has no backslash to skip.\<close>

abbreviation "not_sep \<equiv> (\<lambda>c. c \<noteq> (0x5c :: wchar))"

definition token_at :: "wchar list \<Rightarrow> wchar list \<times> wchar list" where
  "token_at p = (takeWhile not_sep p, dropWhile not_sep p)"

definition first_token :: "wchar list \<Rightarrow> registry \<Rightarrow> (wchar list \<times> wchar list) option \<times> registry" where
  "first_token path s =
     (if path \<noteq> [] \<and> hd path = 0x5c then (None, set_error STATUS_OBJECT_PATH_INVALID s) else (Some (token_at path), s))"

definition next_token :: "wchar list \<Rightarrow> wchar list \<times> wchar list" where
  "next_token rest = token_at (dropWhile (\<lambda>c. c = 0x5c) rest)"

text \<open>
  The binary search in both arrays: \<open>res\<close> compares the entry at an index with the name.  The result is the index of
  the entry, or where it belongs.
\<close>

function search :: "(int \<Rightarrow> int option) \<Rightarrow> int \<Rightarrow> int \<Rightarrow> (bool \<times> int) option" where
  "search res mn mx =
     (if mn \<le> mx then do {
        let i = (mn + mx) div 2;
        r \<leftarrow> res i;
        if r = 0 then Some (True, i) else if r > 0 then search res mn (i - 1) else search res (i + 1) mx }
      else Some (False, mn))"
  by pat_completeness auto
termination by (relation "measure (\<lambda>(res, mn, mx). nat (mx + 1 - mn))") auto

declare search.simps [simp del]

definition insert_at :: "nat \<Rightarrow> 'a \<Rightarrow> 'a list \<Rightarrow> 'a list" where
  "insert_at i x xs = take i xs @ x # drop i xs"

definition delete_at :: "nat \<Rightarrow> 'a list \<Rightarrow> 'a list" where
  "delete_at i xs = take i xs @ drop (Suc i) xs"

subsection \<open>Subkeys\<close>

definition find_subkey :: "nat \<Rightarrow> wchar list \<Rightarrow> registry \<Rightarrow> (nat option \<times> int) option" where
  "find_subkey k name s =
     do { key \<leftarrow> keys s k;
          (found, i) \<leftarrow> search (\<lambda>i. do { c \<leftarrow> read_at (k_subkeys key) i; child \<leftarrow> keys s c;
             Some (compare_names (lowerW s) (k_name child) name) }) 0 (int (length (k_subkeys key)) - 1);
          if found then do { c \<leftarrow> read_at (k_subkeys key) i; Some (Some c, i) } else Some (None, i) }"

definition alloc_key :: "wchar list \<Rightarrow> int \<Rightarrow> registry \<Rightarrow> nat option \<times> registry" where
  "alloc_key name modif s =
     (case mem_alloc s of (ok, s) \<Rightarrow>
        if \<not> ok then (None, s) else
        case (if name = [] then (True, s) else case memdup name s of (r, s) \<Rightarrow> (r \<noteq> None, s)) of (ok, s) \<Rightarrow>
          if \<not> ok then (None, s) else
          (Some (next_key s), s\<lparr>next_key := next_key s + 1,
             keys := (keys s)(next_key s \<mapsto> \<lparr>k_refs = 1, k_name = name, k_class = [], k_parent = None, k_subkeys = [], nb_subkeys = 0,
               k_values = [], nb_values = 0, k_flags = 0, k_modif = modif, notify_list = []\<rparr>)\<rparr>))"

text \<open>The count an array grows to; \<open>None\<close> when there is no memory.\<close>

definition grow :: "nat \<Rightarrow> registry \<Rightarrow> nat option \<times> registry" where
  "grow nb s =
     (if nb \<noteq> 0
      then (case malloc s of (ok, s) \<Rightarrow> if ok then (Some (nb + nb div 2), s) else (None, set_error STATUS_NO_MEMORY s))
      else (case mem_alloc s of (ok, s) \<Rightarrow> (if ok then Some MIN_VALUES else None, s)))"

definition grow_subkeys :: "nat \<Rightarrow> registry \<Rightarrow> (bool \<times> registry) option" where
  "grow_subkeys k s =
     do { key \<leftarrow> keys s k;
          Some (case grow (nb_subkeys key) s of (None, s) \<Rightarrow> (False, s)
                | (Some n, s) \<Rightarrow> (True, set_key k (key\<lparr>nb_subkeys := n\<rparr>) s)) }"

definition alloc_subkey :: "nat \<Rightarrow> wchar list \<Rightarrow> int \<Rightarrow> int \<Rightarrow> registry \<Rightarrow> (nat option \<times> registry) option" where
  "alloc_subkey p name index modif s =
     (if length name > MAX_NAME_LEN then Some (None, set_error STATUS_NAME_TOO_LONG s)
      else do {
        par \<leftarrow> keys s p;
        (ok, s) \<leftarrow> (if length (k_subkeys par) = nb_subkeys par then grow_subkeys p s else Some (True, s));
        if \<not> ok then Some (None, s) else
        case alloc_key name modif s of (None, s) \<Rightarrow> Some (None, s)
        | (Some k, s) \<Rightarrow> do {
            key \<leftarrow> keys s k;
            par \<leftarrow> keys s p;
            if 0 \<le> index \<and> nat index \<le> length (k_subkeys par) \<and> length (k_subkeys par) < nb_subkeys par
            then Some (Some k, set_key p (par\<lparr>k_subkeys := insert_at (nat index) k (k_subkeys par)\<rparr>)
                   (set_key k (key\<lparr>k_parent := Some p\<rparr>) s))
            else None } })"

text \<open>The count an array shrinks to when a third of it can go.\<close>

definition shrink :: "nat \<Rightarrow> nat \<Rightarrow> registry \<Rightarrow> nat \<times> registry" where
  "shrink used nb s =
     (if nb > MIN_SUBKEYS \<and> int used - 1 < int nb div 2
      then (case malloc s of (ok, s) \<Rightarrow> (if ok then max (nb - nb div 3) MIN_SUBKEYS else nb, s))
      else (nb, s))"

definition free_subkey :: "nat \<Rightarrow> int \<Rightarrow> registry \<Rightarrow> registry option" where
  "free_subkey p index s =
     do { par \<leftarrow> keys s p;
          k \<leftarrow> read_at (k_subkeys par) index;
          key \<leftarrow> keys s k;
          s \<leftarrow> release_key k (set_key k (key\<lparr>k_flags := k_flags key OR KEY_DELETED, k_parent := None\<rparr>)
                 (set_key p (par\<lparr>k_subkeys := delete_at (nat index) (k_subkeys par)\<rparr>) s));
          par \<leftarrow> keys s p;
          case shrink (length (k_subkeys par)) (nb_subkeys par) s of (nb, s) \<Rightarrow> Some (set_key p (par\<lparr>nb_subkeys := nb\<rparr>) s) }"

subsection \<open>Opening and creating keys\<close>

lemma next_token_shorter: "next_token rest = (token, rest') \<Longrightarrow> length token + length rest' \<le> length rest"
proof -
  assume "next_token rest = (token, rest')"
  then have "token @ rest' = dropWhile (\<lambda>c. c = 0x5c) rest" by (auto simp: next_token_def token_at_def)
  then have "length (token @ rest') \<le> length rest" by (simp add: length_dropWhile_le)
  then show ?thesis by simp
qed

text \<open>
  The walk along a path as far as there are keys; the path gets shorter.  The result is the last key, the token it has no subkey for with the place where that would belong, and
  the path behind.
\<close>

function walk :: "nat \<Rightarrow> wchar list \<Rightarrow> wchar list \<Rightarrow> int \<Rightarrow> registry \<Rightarrow> (nat \<times> wchar list \<times> wchar list \<times> int) option" where
  "walk k token rest index s =
     (if token = [] then Some (k, token, rest, index)
      else do {
        (c, i) \<leftarrow> find_subkey k token s;
        case c of None \<Rightarrow> Some (k, token, rest, i)
        | Some c \<Rightarrow> (case next_token rest of (token, rest) \<Rightarrow> walk c token rest i s) })"
  by pat_completeness auto
termination
  by (relation "measure (\<lambda>(k, token, rest, index, s). length token + length rest)") (auto dest!: next_token_shorter [OF sym] simp: neq_Nil_conv)

declare walk.simps [simp del]

definition open_key :: "nat \<Rightarrow> wchar list \<Rightarrow> registry \<Rightarrow> (nat option \<times> registry) option" where
  "open_key k name s =
     (case first_token name s of (None, s) \<Rightarrow> Some (None, s)
      | (Some (token, rest), s) \<Rightarrow> do {
          (k, token, rest, i) \<leftarrow> walk k token rest 0 s;
          if token \<noteq> [] then Some (None, set_error STATUS_OBJECT_NAME_NOT_FOUND s)
          else do { s \<leftarrow> grab_key k s; Some (Some k, s) } })"

text \<open>The keys of the rest of a path, each the first subkey of the one before; the first failure ends it.\<close>

function create_rest :: "nat \<Rightarrow> 32 word \<Rightarrow> wchar list \<Rightarrow> int \<Rightarrow> registry \<Rightarrow> (nat option \<times> registry) option" where
  "create_rest k flags rest modif s =
     do { key \<leftarrow> keys s k;
          let s = set_key k (key\<lparr>k_flags := k_flags key OR flags\<rparr>) s;
          case next_token rest of (token, rest') \<Rightarrow>
            if token = [] then Some (Some k, s)
            else do {
              (c, s) \<leftarrow> alloc_subkey k token 0 modif s;
              case c of None \<Rightarrow> Some (None, s) | Some c \<Rightarrow> create_rest c flags rest' modif s } }"
  by pat_completeness auto
termination
  by (relation "measure (\<lambda>(k, flags, rest, modif, s). length rest)") (auto dest!: next_token_shorter [OF sym] simp: neq_Nil_conv)

declare create_rest.simps [simp del]

text \<open>\<^verbatim>\<open>classlen\<close> has 16 bits; its low ones say how much of the class is kept.\<close>

definition set_class :: "nat \<Rightarrow> wchar list \<Rightarrow> registry \<Rightarrow> registry option" where
  "set_class k class s =
     (if class = [] then Some s
      else do {
        key \<leftarrow> keys s k;
        let class = take (2 * length class mod 2 ^ 16 div 2) class;
        Some (case memdup class s of (r, s) \<Rightarrow> set_key k (key\<lparr>k_class := (case r of Some c \<Rightarrow> c | None \<Rightarrow> [])\<rparr>) s) })"

text \<open>When a key of the path cannot be made, \<^verbatim>\<open>free_subkey( base, index )\<close> takes the new key for its parent.\<close>

definition create_key :: "nat \<Rightarrow> wchar list \<Rightarrow> wchar list \<Rightarrow> 32 word \<Rightarrow> int \<Rightarrow> registry \<Rightarrow> (nat option \<times> bool \<times> registry) option" where
  "create_key k name class flags modif s =
     do { key \<leftarrow> keys s k;
          if flagged key KEY_DELETED then Some (None, False, set_error STATUS_KEY_DELETED s)
          else if flags AND KEY_VOLATILE = 0 \<and> flagged key KEY_VOLATILE
          then Some (None, False, set_error STATUS_CHILD_MUST_BE_VOLATILE s)
          else let modif = (if modif = 0 then now s else modif) in
          case first_token name s of (None, s) \<Rightarrow> Some (None, False, s)
          | (Some (token, rest), s) \<Rightarrow> do {
              (k, token, rest, index) \<leftarrow> walk k token rest 0 s;
              if token = [] then do { s \<leftarrow> set_class k class s; s \<leftarrow> grab_key k s; Some (Some k, False, s) }
              else do {
                s \<leftarrow> (if flags AND KEY_DIRTY \<noteq> 0 then make_dirty k s else Some s);
                (base, s) \<leftarrow> alloc_subkey k token index modif s;
                case base of None \<Rightarrow> Some (None, True, s)
                | Some base \<Rightarrow> do {
                    (c, s) \<leftarrow> create_rest base flags rest modif s;
                    case c of None \<Rightarrow> do { s \<leftarrow> free_subkey base index s; Some (None, True, s) }
                    | Some c \<Rightarrow> do { s \<leftarrow> set_class c class s; s \<leftarrow> grab_key c s; Some (Some c, True, s) } } } } }"

text \<open>The data of the request \<^verbatim>\<open>create_key\<close>: a name of \<open>namelen\<close> bytes and the class behind it.\<close>

definition create_key_names :: "(wchar \<Rightarrow> wchar) \<Rightarrow> byte list \<Rightarrow> wchar list \<Rightarrow> nat \<Rightarrow> bool \<Rightarrow> (wchar list \<times> wchar list) option" where
  "create_key_names low bytes chars namelen no_parent =
     (if namelen > length bytes then None else
      let class = take ((length bytes - namelen) div 2) (drop (namelen div 2) chars);
          path = get_req_path low chars no_parent;
          skipped = length chars - length path in
      if skipped > namelen div 2 then None else Some (take (namelen div 2 - skipped) path, class))"

subsection \<open>Looking at keys\<close>

record key_info =
  i_subkeys :: nat
  i_max_subkey :: nat
  i_max_class :: nat
  i_values :: nat
  i_max_value :: nat
  i_max_data :: nat
  i_modif :: int
  i_total :: nat
  i_namelen :: nat
  i_data :: "byte list"

definition wbytes :: "wchar list \<Rightarrow> byte list" where
  "wbytes xs = concat (map (\<lambda>c. [ucast c, ucast (drop_bit 8 c)]) xs)"

definition maximum :: "nat list \<Rightarrow> nat" where
  "maximum = foldl max 0"

text \<open>The data of the reply: the name and what fits of the data behind it, as far as the client has room.\<close>

definition reply_data :: "byte list \<Rightarrow> byte list \<Rightarrow> nat \<Rightarrow> registry \<Rightarrow> nat \<times> byte list \<times> registry" where
  "reply_data name data room s =
     (let len = min (length name + length data) room in
      if len = 0 then (0, [], s)
      else case mem_alloc s of (ok, s) \<Rightarrow>
        if \<not> ok then (0, [], s)
        else if len > length name then (length name, name @ take (len - length name) data, s)
        else (len, take len name, s))"

definition enum_key :: "nat \<Rightarrow> int \<Rightarrow> nat \<Rightarrow> nat \<Rightarrow> registry \<Rightarrow> (key_info option \<times> registry) option" where
  "enum_key k index info_class room s =
     do { key \<leftarrow> keys s k;
          if index \<noteq> -1 \<and> (index < 0 \<or> index > int (length (k_subkeys key)) - 1)
          then Some (None, set_error STATUS_NO_MORE_ENTRIES s)
          else do {
            key \<leftarrow> (if index \<noteq> -1 then do { c \<leftarrow> read_at (k_subkeys key) index; keys s c } else Some key);
            if info_class > 2 then Some (None, set_error STATUS_INVALID_PARAMETER s)
            else do {
              children \<leftarrow> those (map (keys s) (if info_class = 2 then k_subkeys key else []));
              (let name = (if info_class = 2 then [] else wbytes (k_name key));
                   class = (if info_class = 0 then [] else wbytes (k_class key));
                   vals = (if info_class = 2 then k_values key else []);
                   (namelen, data, s) = reply_data name class room s in
              Some (Some \<lparr>i_subkeys = length (k_subkeys key), i_max_subkey = maximum (map (length \<circ> k_name) children),
                i_max_class = maximum (map (length \<circ> k_class) children), i_values = length (k_values key),
                i_max_value = maximum (map (length \<circ> v_name) vals), i_max_data = maximum (map (length \<circ> v_data) vals),
                i_modif = k_modif key, i_total = length name + length class, i_namelen = namelen, i_data = data\<rparr>, s)) } } }"

subsection \<open>Deleting keys\<close>

text \<open>
  A key loses its subkeys first, the last one first, when \<open>recurse\<close> is set.  Each step of the recursion and of the
  loop takes one from the fuel.
\<close>

definition index_of :: "nat \<Rightarrow> nat list \<Rightarrow> nat" where
  "index_of k ks = length (takeWhile (\<lambda>x. x \<noteq> k) ks)"

fun delete_key_n :: "nat \<Rightarrow> nat \<Rightarrow> bool \<Rightarrow> registry \<Rightarrow> (bool \<times> registry) option"
  and delete_subkeys :: "nat \<Rightarrow> nat \<Rightarrow> registry \<Rightarrow> (bool \<times> registry) option" where
  "delete_key_n 0 k recurse s = None"
| "delete_key_n (Suc n) k recurse s =
     (if k = root_key s then Some (False, set_error STATUS_ACCESS_DENIED s)
      else do {
        key \<leftarrow> keys s k;
        if k_parent key = None \<or> flagged key KEY_DELETED then Some (False, set_error STATUS_KEY_DELETED s)
        else do {
          p \<leftarrow> k_parent key;
          (ok, s) \<leftarrow> (if recurse then delete_subkeys n k s else Some (True, s));
          if \<not> ok then Some (False, s)
          else do {
            par \<leftarrow> keys s p;
            key \<leftarrow> keys s k;
            if k \<notin> set (k_subkeys par) then None
            else if k_subkeys key \<noteq> [] then Some (False, set_error STATUS_ACCESS_DENIED s)
            else do {
              s \<leftarrow> free_subkey p (int (index_of k (k_subkeys par))) s;
              s \<leftarrow> touch_key p REG_NOTIFY_CHANGE_NAME s;
              Some (True, s) } } } })"
| "delete_subkeys 0 k s = None"
| "delete_subkeys (Suc n) k s =
     do { key \<leftarrow> keys s k;
          if k_subkeys key = [] then Some (True, s)
          else do {
            (ok, s) \<leftarrow> delete_key_n n (last (k_subkeys key)) True s;
            if ok then delete_subkeys n k s else Some (False, s) } }"

definition delete_key :: "nat \<Rightarrow> bool \<Rightarrow> registry \<Rightarrow> (bool \<times> registry) option" where
  "delete_key k recurse s = delete_key_n (2 * next_key s + 2) k recurse s"

subsection \<open>Values\<close>

definition grow_values :: "nat \<Rightarrow> registry \<Rightarrow> (bool \<times> registry) option" where
  "grow_values k s =
     do { key \<leftarrow> keys s k;
          Some (case grow (nb_values key) s of (None, s) \<Rightarrow> (False, s)
                | (Some n, s) \<Rightarrow> (True, set_key k (key\<lparr>nb_values := n\<rparr>) s)) }"

definition find_value :: "key \<Rightarrow> wchar list \<Rightarrow> registry \<Rightarrow> (bool \<times> int) option" where
  "find_value key name s =
     search (\<lambda>i. do { v \<leftarrow> read_at (k_values key) i; Some (compare_names (lowerW s) (v_name v) name) })
       0 (int (length (k_values key)) - 1)"

definition insert_value :: "nat \<Rightarrow> wchar list \<Rightarrow> int \<Rightarrow> registry \<Rightarrow> (bool \<times> registry) option" where
  "insert_value k name index s =
     (if length name > MAX_VALUE_LEN then Some (False, set_error STATUS_NAME_TOO_LONG s)
      else do {
        key \<leftarrow> keys s k;
        (ok, s) \<leftarrow> (if length (k_values key) = nb_values key then grow_values k s else Some (True, s));
        if \<not> ok then Some (False, s) else
        case (if name = [] then (True, s) else case memdup name s of (r, s) \<Rightarrow> (r \<noteq> None, s)) of (ok, s) \<Rightarrow>
          if \<not> ok then Some (False, s)
          else do {
            key \<leftarrow> keys s k;
            if 0 \<le> index \<and> nat index \<le> length (k_values key) \<and> length (k_values key) < nb_values key
            then Some (True, set_key k (key\<lparr>k_values :=
                   insert_at (nat index) \<lparr>v_name = name, v_type = None, v_data = []\<rparr> (k_values key)\<rparr>) s)
            else None } })"

text \<open>Storing into the value at an index.\<close>

definition store_value :: "nat \<Rightarrow> int \<Rightarrow> 16 word \<Rightarrow> byte list \<Rightarrow> registry \<Rightarrow> registry option" where
  "store_value k index ty data s =
     do { key \<leftarrow> keys s k;
          v \<leftarrow> read_at (k_values key) index;
          vs \<leftarrow> write_at (k_values key) index (v\<lparr>v_type := Some ty, v_data := data\<rparr>);
          Some (set_key k (key\<lparr>k_values := vs\<rparr>) s) }"

text \<open>Reading the type of a value that has none yet is undefined.\<close>

definition set_value :: "nat \<Rightarrow> wchar list \<Rightarrow> int \<Rightarrow> byte list \<Rightarrow> registry \<Rightarrow> registry option" where
  "set_value k name ty data s =
     do { key \<leftarrow> keys s k;
          (found, index) \<leftarrow> find_value key name s;
          same \<leftarrow> (if found then do { v \<leftarrow> read_at (k_values key) index; t \<leftarrow> v_type v;
                      Some (uint t = ty \<and> v_data v = data \<and> data \<noteq> []) } else Some False);
          if same then Some s
          else case (if data = [] then (True, s) else case memdup data s of (r, s) \<Rightarrow> (r \<noteq> None, s)) of (ok, s) \<Rightarrow>
            if \<not> ok then Some s
            else do {
              (ok, s) \<leftarrow> (if found then Some (True, s) else insert_value k name index s);
              if \<not> ok then Some s
              else do {
                s \<leftarrow> store_value k index (word_of_int ty) data s;
                touch_key k REG_NOTIFY_CHANGE_LAST_SET s } } }"

text \<open>The type, -1 when there is no such value, the length of the data, and what the client has room for.\<close>

definition get_value :: "nat \<Rightarrow> wchar list \<Rightarrow> nat \<Rightarrow> registry \<Rightarrow> (int \<times> nat \<times> byte list \<times> registry) option" where
  "get_value k name room s =
     do { key \<leftarrow> keys s k;
          (found, index) \<leftarrow> find_value key name s;
          if found then do {
            v \<leftarrow> read_at (k_values key) index;
            t \<leftarrow> v_type v;
            case set_reply_data (take room (v_data v)) s of (d, s) \<Rightarrow> Some (uint t, length (v_data v), d, s) }
          else Some (-1, 0, [], set_error STATUS_OBJECT_NAME_NOT_FOUND s) }"

text \<open>The type, the size and the length of the name, and the name with the data behind it.\<close>

definition enum_value :: "nat \<Rightarrow> int \<Rightarrow> nat \<Rightarrow> nat \<Rightarrow> registry \<Rightarrow> ((int \<times> nat \<times> nat \<times> byte list) option \<times> registry) option" where
  "enum_value k i info_class room s =
     do { key \<leftarrow> keys s k;
          if i < 0 \<or> i > int (length (k_values key)) - 1 then Some (None, set_error STATUS_NO_MORE_ENTRIES s)
          else do {
            v \<leftarrow> read_at (k_values key) i;
            t \<leftarrow> v_type v;
            if info_class > 2 then Some (None, set_error STATUS_INVALID_PARAMETER s)
            else let name = (if info_class = 2 then [] else wbytes (v_name v));
                     data = (if info_class = 0 then [] else v_data v);
                     (namelen, d, s) = reply_data name data room s in
              Some (Some (uint t, length name + length data, namelen, d), s) } }"

definition delete_value :: "nat \<Rightarrow> wchar list \<Rightarrow> registry \<Rightarrow> registry option" where
  "delete_value k name s =
     do { key \<leftarrow> keys s k;
          (found, index) \<leftarrow> find_value key name s;
          if \<not> found then Some (set_error STATUS_OBJECT_NAME_NOT_FOUND s)
          else do {
            s \<leftarrow> touch_key k REG_NOTIFY_CHANGE_LAST_SET
                   (set_key k (key\<lparr>k_values := delete_at (nat index) (k_values key)\<rparr>) s);
            key \<leftarrow> keys s k;
            case shrink (length (k_values key)) (nb_values key) s of (nb, s) \<Rightarrow> Some (set_key k (key\<lparr>nb_values := nb\<rparr>) s) } }"

end
