(* ===== verification/Registry_Values.thy ===== *)
theory Registry_Values
  imports Registry "HOL-Library.List_Lexorder"
begin

text \<open>
  The sorted arrays of the registry: the binary search finds what a look at every entry would find, and the
  values of a key are a map from names, case ignored, to types and data.
\<close>

subsection \<open>The order of names\<close>

definition same_name :: "registry \<Rightarrow> wchar list \<Rightarrow> wchar list" where
  "same_name s name = map (lowerW s) name"

lemma compare_names_order:
  "compare_names low a b = 0 \<longleftrightarrow> map low a = map low b"
  "compare_names low a b < 0 \<longleftrightarrow> map low a < map low b"
proof -
  have "(compare_names low a b = 0 \<longleftrightarrow> map low a = map low b) \<and> (compare_names low a b < 0 \<longleftrightarrow> map low a < map low b)"
  proof (induction a arbitrary: b)
    case Nil
    then show ?case by (cases b) (auto simp: compare_names_def)
  next
    case (Cons x xs)
    show ?case
    proof (cases b)
      case Nil
      then show ?thesis by (simp add: compare_names_def)
    next
      case (Cons y ys)
      have "compare_names low (x # xs) (y # ys) = (if low x = low y then compare_names low xs ys else uint (low x) - uint (low y))"
        using word_uint_eqI [of "low x" "low y"] by (auto simp: compare_names_def Let_def)
      then show ?thesis using Cons.IH [of ys] Cons by (auto simp: word_less_def dest: word_uint_eqI)
    qed
  qed
  then show "compare_names low a b = 0 \<longleftrightarrow> map low a = map low b" "compare_names low a b < 0 \<longleftrightarrow> map low a < map low b" by blast+
qed

subsection \<open>Binary search\<close>

text \<open>\<open>placed ks x r\<close>: the index of \<open>x\<close> in the sorted list, or the place where it belongs.\<close>

definition placed :: "'a :: linorder list \<Rightarrow> 'a \<Rightarrow> bool \<times> int \<Rightarrow> bool" where
  "placed ks x r \<longleftrightarrow> (case r of
      (True, i) \<Rightarrow> 0 \<le> i \<and> i < int (length ks) \<and> ks ! nat i = x
    | (False, i) \<Rightarrow> 0 \<le> i \<and> i \<le> int (length ks) \<and> (\<forall>y \<in> set (take (nat i) ks). y < x) \<and> (\<forall>y \<in> set (drop (nat i) ks). x < y))"

lemma search_placed:
  assumes sorted: "sorted_wrt (<) ks" and res: "\<And>i. 0 \<le> i \<Longrightarrow> i < int (length ks) \<Longrightarrow>
      \<exists>c. res i = Some c \<and> (c = 0 \<longleftrightarrow> ks ! nat i = x) \<and> (c < 0 \<longleftrightarrow> ks ! nat i < x)"
  shows "0 \<le> mn \<Longrightarrow> mn \<le> mx + 1 \<Longrightarrow> mx < int (length ks) \<Longrightarrow> \<forall>y \<in> set (take (nat mn) ks). y < x \<Longrightarrow>
    \<forall>y \<in> set (drop (nat (mx + 1)) ks). x < y \<Longrightarrow> \<exists>r. search res mn mx = Some r \<and> placed ks x r"
proof (induction "nat (mx + 1 - mn)" arbitrary: mn mx rule: less_induct)
  case less
  show ?case
  proof (cases "mn \<le> mx")
    case False
    then have "mx + 1 = mn" using less.prems(2) by simp
    then show ?thesis using less.prems(1,3-5) False by (subst search.simps) (simp add: placed_def)
  next
    case True
    define i where "i = (mn + mx) div 2"
    have i: "mn \<le> i" "i \<le> mx" "0 \<le> i" "i < int (length ks)" using True less.prems by (auto simp: i_def)
    obtain c where c: "res i = Some c" "c = 0 \<longleftrightarrow> ks ! nat i = x" "c < 0 \<longleftrightarrow> ks ! nat i < x" using res [OF i(3,4)] by blast
    have step: "search res mn mx = (if c = 0 then Some (True, i) else if c > 0 then search res mn (i - 1) else search res (i + 1) mx)"
      using True c(1) by (subst search.simps) (simp add: i_def [symmetric])
    have split: "ks = take (nat i) ks @ ks ! nat i # drop (Suc (nat i)) ks" using i by (intro id_take_nth_drop) simp
    have order: "\<forall>y \<in> set (take (nat i) ks). y < ks ! nat i" "\<forall>y \<in> set (drop (Suc (nat i)) ks). ks ! nat i < y"
      using sorted by (subst (asm) split; simp add: sorted_wrt_append)+
    consider "c = 0" | (left) "c > 0" | (right) "c < 0" by linarith
    then show ?thesis
    proof cases
      case 1
      then show ?thesis using step c i by (simp add: placed_def)
    next
      case left
      have "\<forall>y \<in> set (drop (nat i) ks). x < y"
        using left c(2,3) order(2) i by (auto simp: Cons_nth_drop_Suc [symmetric] dest: order.strict_trans)
      then show ?thesis using step left less.hyps [of "i - 1" mn] less.prems i by auto
    next
      case right
      have "\<forall>y \<in> set (take (nat (i + 1)) ks). y < x"
        using right c(2,3) order(1) i by (auto simp: nat_add_distrib take_Suc_conv_app_nth dest: order.strict_trans)
      then show ?thesis using step right less.hyps [of mx "i + 1"] less.prems i by auto
    qed
  qed
qed

lemma search_all:
  assumes "sorted_wrt (<) ks" "\<And>i. 0 \<le> i \<Longrightarrow> i < int (length ks) \<Longrightarrow>
      \<exists>c. res i = Some c \<and> (c = 0 \<longleftrightarrow> ks ! nat i = x) \<and> (c < 0 \<longleftrightarrow> ks ! nat i < x)"
  shows "\<exists>r. search res 0 (int (length ks) - 1) = Some r \<and> placed ks x r"
  by (rule search_placed [OF assms]) auto

subsection \<open>Sorted lists\<close>

lemma placed_insert:
  assumes "placed ks x (False, i)" "sorted_wrt (<) ks"
  shows "sorted_wrt (<) (insert_at (nat i) x ks)" "x \<notin> set ks" "nat i \<le> length ks"
proof -
  have ks: "ks = take (nat i) ks @ drop (nat i) ks" by simp
  have b: "\<forall>y \<in> set (take (nat i) ks). y < x" "\<forall>y \<in> set (drop (nat i) ks). x < y" "nat i \<le> length ks"
    using assms(1) by (auto simp: placed_def)
  show "sorted_wrt (<) (insert_at (nat i) x ks)"
    using assms(2) b by (subst (asm) ks) (auto simp: insert_at_def sorted_wrt_append intro: order.strict_trans)
  show "x \<notin> set ks" using b by (subst ks) (auto simp del: append_take_drop_id)
  show "nat i \<le> length ks" by (rule b(3))
qed

lemma placed_False: "placed ks x (False, i) \<Longrightarrow> sorted_wrt (<) ks \<Longrightarrow> x \<notin> set ks"
  by (rule placed_insert(2))

lemma sorted_delete_at: "sorted_wrt (<) ks \<Longrightarrow> sorted_wrt (<) (delete_at i (ks :: 'a :: linorder list))"
proof -
  assume "sorted_wrt (<) ks"
  then have "sorted_wrt (<) (take i ks @ drop i ks)" by simp
  moreover have "drop (Suc i) ks = drop 1 (drop i ks)" by simp
  moreover have "set (drop (Suc i) ks) \<subseteq> set (drop i ks)" by (rule set_drop_subset_set_drop) simp
  ultimately show ?thesis unfolding delete_at_def sorted_wrt_append by (metis sorted_wrt_drop subsetD)
qed

lemma map_insert_at: "map f (insert_at i x xs) = insert_at i (f x) (map f xs)"
  by (simp add: insert_at_def take_map drop_map)

lemma map_delete_at: "map f (delete_at i xs) = delete_at i (map f xs)"
  by (simp add: delete_at_def take_map drop_map)

lemma set_insert_at: "set (insert_at i x xs) = insert x (set xs)"
proof -
  have "set (take i xs) \<union> set (drop i xs) = set xs" by (metis append_take_drop_id set_append)
  then show ?thesis by (auto simp: insert_at_def)
qed

lemma set_delete_at: "set (delete_at i xs) \<subseteq> set xs"
  by (auto simp: delete_at_def dest: in_set_takeD in_set_dropD)

lemma length_insert_at: "i \<le> length xs \<Longrightarrow> length (insert_at i x xs) = length xs + 1"
  by (simp add: insert_at_def)

lemma length_delete_at: "i < length xs \<Longrightarrow> length (delete_at i xs) = length xs - 1"
  by (simp add: delete_at_def)

text \<open>Sorted lists of pairs are maps.\<close>

lemma map_of_mid: "k \<notin> fst ` set xs \<Longrightarrow> map_of (xs @ (k, v) # ys) = (map_of (xs @ ys))(k \<mapsto> v)"
  by (induction xs) auto

lemma map_of_mid_None:
  "k \<notin> fst ` set xs \<Longrightarrow> k \<notin> fst ` set ys \<Longrightarrow> map_of (xs @ ys) = (map_of (xs @ (k, v) # ys))(k := None)"
  by (induction xs) (auto simp: fun_eq_iff map_of_eq_None_iff)

lemma map_of_insert_at:
  assumes "fst p \<notin> fst ` set ps"
  shows "map_of (insert_at i p ps) = (map_of ps)(fst p \<mapsto> snd p)"
proof -
  have "fst p \<notin> fst ` set (take i ps)" using assms by (auto dest: in_set_takeD)
  then show ?thesis using map_of_mid [of "fst p" "take i ps" "snd p" "drop i ps"] by (simp add: insert_at_def)
qed

lemma nth_unique_key:
  assumes "distinct (map fst ps)" "i < length ps"
  obtains xs ys where "ps = xs @ (fst (ps ! i), snd (ps ! i)) # ys" "xs = take i ps" "ys = drop (Suc i) ps"
    "fst (ps ! i) \<notin> fst ` set xs" "fst (ps ! i) \<notin> fst ` set ys"
proof -
  have ps: "ps = take i ps @ ps ! i # drop (Suc i) ps" using assms(2) by (rule id_take_nth_drop)
  have "distinct (map fst (take i ps @ ps ! i # drop (Suc i) ps))" using assms(1) ps by metis
  then have "fst (ps ! i) \<notin> set (map fst (take i ps))" "fst (ps ! i) \<notin> set (map fst (drop (Suc i) ps))" by simp_all
  then show thesis by (intro that [OF _ refl refl]) (use ps in simp_all)
qed

lemma map_of_delete_at:
  assumes "distinct (map fst ps)" "i < length ps"
  shows "map_of (delete_at i ps) = (map_of ps)(fst (ps ! i) := None)"
proof -
  obtain xs ys where "ps = xs @ (fst (ps ! i), snd (ps ! i)) # ys" "xs = take i ps" "ys = drop (Suc i) ps"
    "fst (ps ! i) \<notin> fst ` set xs" "fst (ps ! i) \<notin> fst ` set ys" using nth_unique_key [OF assms] .
  then show ?thesis using map_of_mid_None [of "fst (ps ! i)" xs ys "snd (ps ! i)"] by (simp add: delete_at_def)
qed

lemma map_of_list_update:
  assumes "distinct (map fst ps)" "i < length ps" "fst p = fst (ps ! i)"
  shows "map_of (ps[i := p]) = (map_of ps)(fst p \<mapsto> snd p)"
proof -
  obtain xs ys where x: "ps = xs @ (fst (ps ! i), snd (ps ! i)) # ys" "xs = take i ps" "ys = drop (Suc i) ps"
    "fst (ps ! i) \<notin> fst ` set xs" "fst (ps ! i) \<notin> fst ` set ys" using nth_unique_key [OF assms(1,2)] .
  have "ps[i := p] = xs @ (fst p, snd p) # ys" using assms(2) x(2,3) by (simp add: upd_conv_take_nth_drop)
  moreover have "map_of ps = (map_of (xs @ ys))(fst p \<mapsto> snd (ps ! i))"
    by (subst x(1)) (use map_of_mid [OF x(4)] assms(3) in simp)
  ultimately show ?thesis using map_of_mid [of "fst p" xs "snd p" ys] x(4) assms(3) by simp
qed

subsection \<open>What marking a key and its notifications leave alone\<close>

definition core :: "key \<Rightarrow> key" where
  "core key = key\<lparr>k_flags := k_flags key AND NOT KEY_DIRTY, k_modif := 0, notify_list := []\<rparr>"

definition same_tree :: "registry \<Rightarrow> registry \<Rightarrow> bool" where
  "same_tree s s' \<longleftrightarrow> (\<forall>k. map_option core (keys s' k) = map_option core (keys s k)) \<and>
     next_key s' = next_key s \<and> root_key s' = root_key s \<and> lowerW s' = lowerW s \<and> now s' = now s"

lemma core_sel:
  assumes "core a = core b"
  shows "k_refs a = k_refs b" "k_name a = k_name b" "k_class a = k_class b" "k_parent a = k_parent b"
    "k_subkeys a = k_subkeys b" "nb_subkeys a = nb_subkeys b" "k_values a = k_values b" "nb_values a = nb_values b"
    "flagged a KEY_DELETED = flagged b KEY_DELETED" "flagged a KEY_VOLATILE = flagged b KEY_VOLATILE"
proof -
  have f: "k_flags a AND NOT KEY_DIRTY = k_flags b AND NOT KEY_DIRTY" using arg_cong [OF assms, of k_flags] by (simp add: core_def)
  have "k_flags c AND KEY_DELETED = (k_flags c AND NOT KEY_DIRTY) AND KEY_DELETED"
    "k_flags c AND KEY_VOLATILE = (k_flags c AND NOT KEY_DIRTY) AND KEY_VOLATILE" for c
    by (simp_all add: and.assoc KEY_DIRTY_def KEY_DELETED_def KEY_VOLATILE_def)
  then show "flagged a KEY_DELETED = flagged b KEY_DELETED" "flagged a KEY_VOLATILE = flagged b KEY_VOLATILE"
    using f unfolding flagged_def by metis+
qed (use assms in \<open>cases a; cases b; simp add: core_def\<close>)+

lemma same_tree_refl [simp]: "same_tree s s"
  by (simp add: same_tree_def)

lemma same_tree_trans [trans]: "same_tree s t \<Longrightarrow> same_tree t u \<Longrightarrow> same_tree s u"
  by (simp add: same_tree_def)

lemma same_tree_Some:
  assumes "same_tree s s'" "keys s k = Some key"
  shows "\<exists>key'. keys s' k = Some key' \<and> core key' = core key"
proof -
  have "map_option core (keys s' k) = Some (core key)" using assms by (simp add: same_tree_def)
  then show ?thesis by (cases "keys s' k") auto
qed

lemma same_tree_sym: "same_tree s s' \<Longrightarrow> same_tree s' s"
  by (simp add: same_tree_def)

lemma same_tree_set_key: "keys s k = Some key \<Longrightarrow> core key' = core key \<Longrightarrow> same_tree s (set_key k key' s)"
  by (simp add: same_tree_def set_key_def)

lemma same_tree_fields [simp]:
  "same_tree s (s\<lparr>signalled := x\<rparr>)" "same_tree s (s\<lparr>mem_oracle := q\<rparr>)" "same_tree s (set_error e s)"
  by (simp_all add: same_tree_def set_error_def)

lemma same_tree_malloc: "malloc s = (b, s') \<Longrightarrow> same_tree s s'"
  by (drule malloc_oracle) auto

lemma same_tree_mem_alloc: "mem_alloc s = (b, s') \<Longrightarrow> same_tree s s'"
  by (auto simp: mem_alloc_def dest!: same_tree_malloc intro: same_tree_trans split: prod.splits if_splits)

lemma same_tree_memdup: "memdup x s = (b, s') \<Longrightarrow> same_tree s s'"
  by (auto simp: memdup_def dest!: same_tree_malloc intro: same_tree_trans split: prod.splits if_splits)

lemma fire_ok: "keys s k \<noteq> None \<Longrightarrow> \<exists>s'. fire P k s = Some s' \<and> same_tree s s'"
  by (auto simp: fire_def same_tree_def set_key_def core_def)

text \<open>Parents exist and are older.\<close>

definition rooted :: "registry \<Rightarrow> bool" where
  "rooted s \<longleftrightarrow> (\<forall>k key p. keys s k = Some key \<longrightarrow> k_parent key = Some p \<longrightarrow> p < k \<and> keys s p \<noteq> None)"

lemma same_tree_rooted: "same_tree s s' \<Longrightarrow> rooted s \<Longrightarrow> rooted s'"
  unfolding rooted_def by (metis core_sel(4) same_tree_Some same_tree_sym not_None_eq)

lemma rooted_parent: "rooted s \<Longrightarrow> keys s k = Some key \<Longrightarrow> k_parent key = Some p \<Longrightarrow> p < k \<and> (\<exists>par. keys s p = Some par)"
  by (auto simp: rooted_def)

lemma or_and_not: "(x OR m) AND NOT m = x AND NOT (m :: 32 word)"
  by (auto simp: bit_eq_iff bit_simps)

lemma make_dirty_from_ok:
  "rooted s \<Longrightarrow> (case k of None \<Rightarrow> True | Some k \<Rightarrow> keys s k \<noteq> None \<and> k < n) \<Longrightarrow>
   \<exists>s'. make_dirty_from n k s = Some s' \<and> same_tree s s'"
proof (induction n k s rule: make_dirty_from.induct)
  case (3 n k s)
  then obtain key where key: "keys s k = Some key" by auto
  show ?case
  proof (cases "flagged key (KEY_DIRTY OR KEY_VOLATILE)")
    case True
    then show ?thesis using key by simp
  next
    case False
    let ?s = "set_key k (key\<lparr>k_flags := k_flags key OR KEY_DIRTY\<rparr>) s"
    have c: "core (key\<lparr>k_flags := k_flags key OR KEY_DIRTY\<rparr>) = core key"
      by (simp add: core_def or_and_not)
    have st: "same_tree s ?s" by (rule same_tree_set_key [OF key c])
    have "case k_parent key of None \<Rightarrow> True | Some p \<Rightarrow> keys ?s p \<noteq> None \<and> p < n"
      using rooted_parent [OF 3(2) key] 3(3) by (auto simp: set_key_def split: option.splits)
    then have "\<exists>s'. make_dirty_from n (k_parent key) ?s = Some s' \<and> same_tree ?s s'"
      using 3(1) [OF key False] same_tree_rooted [OF st 3(2)] by blast
    then show ?thesis using key False st same_tree_trans by auto
  qed
qed auto

lemma notify_parents_ok:
  "rooted s \<Longrightarrow> (case k of None \<Rightarrow> True | Some k \<Rightarrow> keys s k \<noteq> None \<and> k < n) \<Longrightarrow>
   \<exists>s'. notify_parents n k c s = Some s' \<and> same_tree s s'"
proof (induction n k c s rule: notify_parents.induct)
  case (3 n k c s)
  then obtain key where key: "keys s k = Some key" by auto
  obtain s1 where s1: "check_notify k c False s = Some s1" "same_tree s s1"
    using fire_ok [of s k] key unfolding check_notify_def by blast
  obtain key1 where key1: "keys s1 k = Some key1" "core key1 = core key" using same_tree_Some [OF s1(2) key] by blast
  have r: "rooted s1" by (rule same_tree_rooted [OF s1(2) 3(2)])
  have "case k_parent key1 of None \<Rightarrow> True | Some p \<Rightarrow> keys s1 p \<noteq> None \<and> p < n"
    using rooted_parent [OF r key1(1)] 3(3) by (auto split: option.splits)
  then show ?case using 3(1) [OF s1(1) key1(1) r] s1 key1 same_tree_trans by auto
qed auto

lemma touch_key_ok:
  assumes r: "rooted s" and key: "keys s k = Some key"
  shows "\<exists>s'. touch_key k c s = Some s' \<and> same_tree s s'"
proof -
  let ?s = "set_key k (key\<lparr>k_modif := now s\<rparr>) s"
  have s0: "same_tree s ?s" by (rule same_tree_set_key [OF key]) (simp add: core_def)
  have "keys ?s k \<noteq> None" by (simp add: set_key_def)
  then obtain s1 where s1: "make_dirty k ?s = Some s1" "same_tree ?s s1"
    using make_dirty_from_ok [where s = ?s and k = "Some k" and n = "Suc k"] same_tree_rooted [OF s0 r] unfolding make_dirty_def by auto
  have t1: "same_tree s s1" by (rule same_tree_trans [OF s0 s1(2)])
  obtain key1 where "keys s1 k = Some key1" using same_tree_Some [OF t1 key] by blast
  then obtain s2 where s2: "check_notify k c True s1 = Some s2" "same_tree s1 s2"
    using fire_ok [of s1 k] unfolding check_notify_def by blast
  have t2: "same_tree s s2" by (rule same_tree_trans [OF t1 s2(2)])
  obtain key2 where key2: "keys s2 k = Some key2" using same_tree_Some [OF t2 key] by blast
  have r2: "rooted s2" by (rule same_tree_rooted [OF t2 r])
  have "case k_parent key2 of None \<Rightarrow> True | Some p \<Rightarrow> keys s2 p \<noteq> None \<and> p < Suc k"
    using rooted_parent [OF r2 key2] by (auto split: option.splits)
  then obtain s3 where "notify_parents (Suc k) (k_parent key2) (c AND NOT REG_NOTIFY_CHANGE_LAST_SET) s2 = Some s3" "same_tree s2 s3"
    using notify_parents_ok [OF r2] by blast
  then show ?thesis using key s1 s2 key2 t2 same_tree_trans unfolding touch_key_def by auto
qed

end
