(* ===== verification/Registry_Ops.thy ===== *)
theory Registry_Ops
  imports Registry_Values
begin

text \<open>
  The values of a key as a map from names to types and data: finding, setting, reading and deleting a value, on
  every branch.
\<close>

subsection \<open>The values of a key\<close>

definition values_ok :: "registry \<Rightarrow> key \<Rightarrow> bool" where
  "values_ok s key \<longleftrightarrow> sorted_wrt (<) (map (same_name s \<circ> v_name) (k_values key)) \<and> (\<forall>v \<in> set (k_values key). v_type v \<noteq> None) \<and>
     length (k_values key) \<le> nb_values key \<and> (nb_values key = 0 \<or> 8 \<le> nb_values key)"

definition value_map :: "registry \<Rightarrow> key \<Rightarrow> wchar list \<Rightarrow> (16 word option \<times> byte list) option" where
  "value_map s key = map_of (map (\<lambda>v. (same_name s (v_name v), (v_type v, v_data v))) (k_values key))"

text \<open>What a change of the values of \<open>k\<close> leaves alone: the rest of the tree.\<close>

definition blur :: "nat \<Rightarrow> nat \<Rightarrow> key \<Rightarrow> key" where
  "blur k j key = (if j = k then (core key)\<lparr>k_values := [], nb_values := 0\<rparr> else core key)"

definition only_values :: "nat \<Rightarrow> registry \<Rightarrow> registry \<Rightarrow> bool" where
  "only_values k s s' \<longleftrightarrow> (\<forall>j. map_option (blur k j) (keys s' j) = map_option (blur k j) (keys s j)) \<and>
     next_key s' = next_key s \<and> root_key s' = root_key s \<and> lowerW s' = lowerW s \<and> now s' = now s"

lemma only_values_trans [trans]: "only_values k s t \<Longrightarrow> only_values k t u \<Longrightarrow> only_values k s u"
  by (simp add: only_values_def)

lemma map_option_blur: "map_option core a = map_option core b \<Longrightarrow> map_option (blur k j) a = map_option (blur k j) b"
  by (cases a; cases b) (auto simp: blur_def)

lemma same_tree_only_values: "same_tree s s' \<Longrightarrow> only_values k s s'"
  by (auto simp: same_tree_def only_values_def intro: map_option_blur)

lemma only_values_set_key:
  "only_values k s t \<Longrightarrow> keys s k = Some key \<Longrightarrow> core key' = (core key)\<lparr>k_values := vs, nb_values := n\<rparr> \<Longrightarrow>
   only_values k s (set_key k key' t)"
  by (simp add: only_values_def set_key_def blur_def)

lemma only_values_refl [simp]: "only_values k s s"
  by (simp add: only_values_def)

lemma only_values_other: "only_values k s s' \<Longrightarrow> j \<noteq> k \<Longrightarrow> map_option core (keys s' j) = map_option core (keys s j)"
proof -
  assume "only_values k s s'" "j \<noteq> k"
  then have "map_option (blur k j) (keys s' j) = map_option (blur k j) (keys s j)" by (simp add: only_values_def)
  then show ?thesis using \<open>j \<noteq> k\<close> by (cases "keys s' j"; cases "keys s j") (auto simp: blur_def)
qed

lemma values_ok_core:
  assumes "core key' = core key" "lowerW s' = lowerW s"
  shows "values_ok s' key' = values_ok s key" "value_map s' key' = value_map s key"
  using core_sel(7,8) [OF assms(1)] assms(2) by (simp_all add: values_ok_def value_map_def same_name_def comp_def)

lemma value_map_distinct:
  "values_ok s key \<Longrightarrow> distinct (map fst (map (\<lambda>v. (same_name s (v_name v), (v_type v, v_data v))) (k_values key)))"
  by (simp add: values_ok_def comp_def strict_sorted_iff)

lemma find_value_placed:
  assumes "values_ok s key"
  shows "\<exists>r. find_value key name s = Some r \<and> placed (map (same_name s \<circ> v_name) (k_values key)) (same_name s name) r"
proof -
  let ?ks = "map (same_name s \<circ> v_name) (k_values key)"
  have "\<exists>r. search (\<lambda>i. do { v \<leftarrow> read_at (k_values key) i; Some (compare_names (lowerW s) (v_name v) name) }) 0 (int (length ?ks) - 1) = Some r \<and>
      placed ?ks (same_name s name) r"
  proof (rule search_all)
    show "sorted_wrt (<) ?ks" using assms by (simp add: values_ok_def)
  next
    fix i assume i: "0 \<le> i" "i < int (length ?ks)"
    then show "\<exists>c. (do { v \<leftarrow> read_at (k_values key) i; Some (compare_names (lowerW s) (v_name v) name) }) = Some c \<and>
        (c = 0 \<longleftrightarrow> ?ks ! nat i = same_name s name) \<and> (c < 0 \<longleftrightarrow> ?ks ! nat i < same_name s name)"
      by (simp add: read_at_def nat_less_iff same_name_def compare_names_order)
  qed
  then show ?thesis by (simp add: find_value_def)
qed

text \<open>Found or not, in terms of the map.\<close>

lemma find_value_cases:
  assumes "values_ok s key"
  obtains (found) i v t where "find_value key name s = Some (True, int i)" "i < length (k_values key)" "k_values key ! i = v"
      "same_name s (v_name v) = same_name s name" "v_type v = Some t" "value_map s key (same_name s name) = Some (Some t, v_data v)"
  | (missing) i where "find_value key name s = Some (False, int i)" "i \<le> length (k_values key)"
      "placed (map (same_name s \<circ> v_name) (k_values key)) (same_name s name) (False, int i)"
      "value_map s key (same_name s name) = None"
proof -
  obtain b i where f: "find_value key name s = Some (b, i)"
      "placed (map (same_name s \<circ> v_name) (k_values key)) (same_name s name) (b, i)"
    using find_value_placed [OF assms] by (metis surj_pair)
  show thesis
  proof (cases b)
    case True
    then have i: "0 \<le> i" "nat i < length (k_values key)" "same_name s (v_name (k_values key ! nat i)) = same_name s name"
      using f(2) by (auto simp: placed_def)
    have v: "k_values key ! nat i \<in> set (k_values key)" using i(2) by simp
    then obtain t where t: "v_type (k_values key ! nat i) = Some t" using assms by (auto simp: values_ok_def)
    have "(same_name s name, (Some t, v_data (k_values key ! nat i))) \<in>
        set (map (\<lambda>v. (same_name s (v_name v), (v_type v, v_data v))) (k_values key))"
      using v i(3) t by force
    then have "value_map s key (same_name s name) = Some (Some t, v_data (k_values key ! nat i))"
      unfolding value_map_def using value_map_distinct [OF assms] by (rule map_of_is_SomeI [rotated])
    then show thesis using found [of "nat i"] f(1) True i t by simp
  next
    case False
    have p: "placed (map (same_name s \<circ> v_name) (k_values key)) (same_name s name) (False, i)" using f(2) False by simp
    have "same_name s name \<notin> set (map (same_name s \<circ> v_name) (k_values key))"
      by (rule placed_False [OF p]) (use assms in \<open>simp add: values_ok_def\<close>)
    then have "value_map s key (same_name s name) = None" by (auto simp: value_map_def map_of_eq_None_iff)
    moreover have "0 \<le> i" "i \<le> int (length (k_values key))" using p by (auto simp: placed_def)
    ultimately show thesis using missing [of "nat i"] f(1) False p by simp
  qed
qed

subsection \<open>Setting, reading and deleting\<close>

lemma grow_facts:
  assumes "grow nb s = (r, s')"
  shows "same_tree s s'" "mem_oracle s = [] \<Longrightarrow> r \<noteq> None \<and> mem_oracle s' = []" "r = None \<Longrightarrow> get_error s' = STATUS_NO_MEMORY"
    "r = Some n \<Longrightarrow> nb = 0 \<or> 8 \<le> nb \<Longrightarrow> nb < n \<and> 8 \<le> n"
proof -
  show "same_tree s s'" using assms
    by (auto simp: grow_def dest!: same_tree_malloc same_tree_mem_alloc intro: same_tree_trans split: prod.splits if_splits)
  show "mem_oracle s = [] \<Longrightarrow> r \<noteq> None \<and> mem_oracle s' = []" using assms by (auto simp: grow_def split: if_splits)
qed (use assms in \<open>auto simp: grow_def mem_alloc_def split: prod.splits if_splits\<close>)

lemma shrink_facts:
  "shrink used nb s = (n, s') \<Longrightarrow> same_tree s s' \<and> (used \<le> nb \<longrightarrow> used \<le> n) \<and> (nb = 0 \<or> 8 \<le> nb \<longrightarrow> n = 0 \<or> 8 \<le> n)"
  by (auto simp: shrink_def dest!: same_tree_malloc split: prod.splits if_splits)

lemma memdup_name:
  assumes "(if x = [] then (True, s) else case memdup x s of (r, s) \<Rightarrow> (r \<noteq> None, s)) = (ok, s')"
  shows "same_tree s s'" "mem_oracle s = [] \<Longrightarrow> ok \<and> mem_oracle s' = []" "\<not> ok \<Longrightarrow> get_error s' = STATUS_NO_MEMORY"
proof -
  show "same_tree s s'" using assms by (auto dest: same_tree_memdup split: if_splits prod.splits)
qed (use assms in \<open>auto simp: memdup_def split: if_splits prod.splits\<close>)

lemma same_tree_values:
  assumes "same_tree s s'" "keys s k = Some key" "values_ok s key"
  obtains key' where "keys s' k = Some key'" "values_ok s' key'" "value_map s' key' = value_map s key" "k_values key' = k_values key"
    "nb_values key' = nb_values key" "core key' = core key"
proof -
  obtain key' where k: "keys s' k = Some key'" "core key' = core key" using same_tree_Some [OF assms(1,2)] by blast
  have l: "lowerW s' = lowerW s" using assms(1) by (simp add: same_tree_def)
  show thesis by (rule that [OF k(1)]) (use k values_ok_core [OF k(2) l] assms(3) core_sel [OF k(2)] in auto)
qed

text \<open>A new value with an unset type, for the moment between \<^verbatim>\<open>insert_value\<close> and the stores.\<close>

definition with_values :: "key \<Rightarrow> key_value list \<Rightarrow> nat \<Rightarrow> key" where
  "with_values key vs n = (core key)\<lparr>k_values := vs, nb_values := n\<rparr>"

lemma core_with_values [simp]:
  "core (key\<lparr>k_values := vs\<rparr>) = with_values key vs (nb_values key)" "core (key\<lparr>nb_values := n\<rparr>) = with_values key (k_values key) n"
  by (simp_all add: core_def with_values_def)

lemma with_values_core: "core key' = core key \<Longrightarrow> with_values key' = with_values key"
  by (simp add: with_values_def fun_eq_iff)

lemma with_values_again: "core key' = with_values key ws m \<Longrightarrow> with_values key' vs n = with_values key vs n"
  by (simp add: with_values_def)

lemma core_values_nb: "core key' = with_values key vs n \<Longrightarrow> k_values key' = vs \<and> nb_values key' = n"
  by (drule arg_cong [where f = "\<lambda>x. (k_values x, nb_values x)"]) (simp add: with_values_def core_def)

lemma make_room_ok:
  assumes key: "keys s k = Some key" and ok: "values_ok s key"
  shows "\<exists>b s'. (if length (k_values key) = nb_values key then grow_values k s else Some (True, s)) = Some (b, s') \<and>
    (if b then only_values k s s' \<and> (\<exists>key' n. keys s' k = Some key' \<and> core key' = with_values key (k_values key) n \<and> length (k_values key) < n \<and> 8 \<le> n)
     else same_tree s s' \<and> get_error s' = STATUS_NO_MEMORY) \<and> (mem_oracle s = [] \<longrightarrow> b \<and> mem_oracle s' = [])"
proof (cases "length (k_values key) = nb_values key")
  case True
  obtain r t where g: "grow (nb_values key) s = (r, t)" by fastforce
  note f = grow_facts [OF g]
  show ?thesis
  proof (cases r)
    case None
    then show ?thesis using True key g f(1-3) by (intro exI [of _ False] exI [of _ t]) (auto simp: grow_values_def)
  next
    case (Some n)
    have "nb_values key < n" "8 \<le> n" using f(4) [OF Some] ok by (auto simp: values_ok_def)
    moreover have "only_values k s (set_key k (key\<lparr>nb_values := n\<rparr>) t)"
      by (rule only_values_set_key [OF same_tree_only_values [OF f(1)] key]) (simp add: with_values_def)
    ultimately show ?thesis using True key g f(2) Some
      by (intro exI [of _ True] exI [of _ "set_key k (key\<lparr>nb_values := n\<rparr>) t"]) (auto simp: grow_values_def set_key_def)
  qed
next
  case False
  then have "length (k_values key) < nb_values key" "8 \<le> nb_values key" using ok by (auto simp: values_ok_def)
  moreover have "core key = with_values key (k_values key) (nb_values key)" by (simp add: with_values_def core_def)
  ultimately have "\<exists>key' n. keys s k = Some key' \<and> core key' = with_values key (k_values key) n \<and> length (k_values key) < n \<and> 8 \<le> n"
    using key by blast
  then show ?thesis using False by (intro exI [of _ True] exI [of _ s]) simp
qed

text \<open>A new value with an unset type, for the moment between \<^verbatim>\<open>insert_value\<close> and the stores.\<close>

lemma insert_value_ok:
  assumes key: "keys s k = Some key" and ok: "values_ok s key" and i: "i \<le> length (k_values key)"
  shows "\<exists>b s'. insert_value k name (int i) s = Some (b, s') \<and> only_values k s s' \<and>
    (if b then \<exists>key' n. keys s' k = Some key' \<and>
       core key' = with_values key (insert_at i \<lparr>v_name = name, v_type = None, v_data = []\<rparr> (k_values key)) n \<and>
       length (k_values key) < n \<and> 8 \<le> n
     else (\<exists>key' n. keys s' k = Some key' \<and> core key' = with_values key (k_values key) n \<and> length (k_values key) \<le> n \<and> (n = 0 \<or> 8 \<le> n)) \<and>
       get_error s' \<in> {STATUS_NAME_TOO_LONG, STATUS_NO_MEMORY}) \<and>
    (mem_oracle s = [] \<and> length name \<le> MAX_VALUE_LEN \<longrightarrow> b)"
proof -
  have self: "core key = with_values key (k_values key) (nb_values key)" by (simp add: with_values_def core_def)
  have nb: "length (k_values key) \<le> nb_values key" "nb_values key = 0 \<or> 8 \<le> nb_values key" using ok by (auto simp: values_ok_def)
  show ?thesis
  proof (cases "length name > MAX_VALUE_LEN")
    case True
    have "keys (set_error STATUS_NAME_TOO_LONG s) k = Some key" using key by (simp add: set_error_def)
    then show ?thesis using True self nb
      by (intro exI [of _ False] exI [of _ "set_error STATUS_NAME_TOO_LONG s"]) (auto simp: insert_value_def intro: same_tree_only_values)
  next
    case False
    obtain b s1 where r: "(if length (k_values key) = nb_values key then grow_values k s else Some (True, s)) = Some (b, s1)"
        "if b then only_values k s s1 \<and> (\<exists>key' n. keys s1 k = Some key' \<and> core key' = with_values key (k_values key) n \<and> length (k_values key) < n \<and> 8 \<le> n)
         else same_tree s s1 \<and> get_error s1 = STATUS_NO_MEMORY" "mem_oracle s = [] \<longrightarrow> b \<and> mem_oracle s1 = []"
      using make_room_ok [OF key ok] by blast
    show ?thesis
    proof (cases b)
      case False
      then have e: "same_tree s s1" "get_error s1 = STATUS_NO_MEMORY" "mem_oracle s \<noteq> []" using r(2,3) by auto
      obtain key' where k': "keys s1 k = Some key'" "core key' = core key" using same_tree_Some [OF e(1) key] by blast
      have "insert_value k name (int i) s = Some (False, s1)"
        using \<open>\<not> length name > MAX_VALUE_LEN\<close> False r(1) key by (simp add: insert_value_def)
      then show ?thesis using e k' self nb same_tree_only_values [OF e(1)] by (intro exI [of _ False] exI [of _ s1]) auto
    next
      case True
      then obtain key1 n where k1: "only_values k s s1" "keys s1 k = Some key1" "core key1 = with_values key (k_values key) n"
          "length (k_values key) < n" "8 \<le> n" using r(2) by auto
      obtain ok s2 where m: "(if name = [] then (True, s1) else case memdup name s1 of (r, s) \<Rightarrow> (r \<noteq> None, s)) = (ok, s2)" by fastforce
      note mf = memdup_name [OF m]
      obtain key2 where k2: "keys s2 k = Some key2" "core key2 = core key1" using same_tree_Some [OF mf(1) k1(2)] by blast
      have v2: "k_values key2 = k_values key" "nb_values key2 = n" using core_values_nb [of key2 key "k_values key" n] k1(3) k2(2) by auto
      have o2: "only_values k s s2" by (rule only_values_trans [OF k1(1) same_tree_only_values [OF mf(1)]])
      show ?thesis
      proof (cases ok)
        case False
        then have "insert_value k name (int i) s = Some (False, s2)"
          using \<open>\<not> length name > MAX_VALUE_LEN\<close> key r(1) True m by (simp add: insert_value_def)
        moreover have "mem_oracle s \<noteq> []" "get_error s2 = STATUS_NO_MEMORY" using mf(2,3) r(3) False by auto
        moreover have "core key2 = with_values key (k_values key) n" "length (k_values key) \<le> n" using k2 k1 by auto
        ultimately show ?thesis using o2 k2(1) k1(5) by (intro exI [of _ False] exI [of _ s2]) auto
      next
        case True
        define vs where "vs = insert_at i \<lparr>v_name = name, v_type = None, v_data = []\<rparr> (k_values key)"
        define k3 where "k3 = key2\<lparr>k_values := vs\<rparr>"
        define s3 where "s3 = set_key k k3 s2"
        have 1: "insert_value k name (int i) s = Some (True, s3)"
          using \<open>\<not> length name > MAX_VALUE_LEN\<close> key r(1) \<open>b\<close> True m k2(1) v2 k1(4) i
          by (simp add: insert_value_def s3_def k3_def vs_def)
        have 2: "core k3 = with_values key vs n" using v2 k1(3) k2(2) with_values_again [of key2 key "k_values key" n vs n] by (simp add: k3_def)
        have 3: "only_values k s s3" unfolding s3_def
          by (rule only_values_set_key [OF o2 key]) (use 2 in \<open>simp add: with_values_def\<close>)
        have "keys s3 k = Some k3" by (simp add: s3_def set_key_def)
        then have "\<exists>key' n. keys s3 k = Some key' \<and> core key' = with_values key vs n \<and> length (k_values key) < n \<and> 8 \<le> n"
          using 2 k1(4,5) by blast
        then show ?thesis using 1 3 unfolding vs_def by (intro exI [of _ True] exI [of _ s3]) simp
      qed
    qed
  qed
qed

subsection \<open>The map after each operation\<close>

text \<open>A state in which the values of \<open>k\<close> are \<open>vs\<close>, well formed, and the rest is as before.\<close>

definition has_values :: "nat \<Rightarrow> registry \<Rightarrow> registry \<Rightarrow> (wchar list \<Rightarrow> (16 word option \<times> byte list) option) \<Rightarrow> bool" where
  "has_values k s s' m \<longleftrightarrow> only_values k s s' \<and> (\<exists>key'. keys s' k = Some key' \<and> values_ok s' key' \<and> value_map s' key' = m)"

lemma has_values_same:
  "same_tree s s' \<Longrightarrow> keys s k = Some key \<Longrightarrow> values_ok s key \<Longrightarrow> has_values k s s' (value_map s key)"
  unfolding has_values_def by (meson same_tree_only_values same_tree_values)

lemma has_values_then:
  "has_values k s t m \<Longrightarrow> same_tree t s' \<Longrightarrow> has_values k s s' m"
  unfolding has_values_def by (metis only_values_trans same_tree_only_values same_tree_values)

text \<open>The key after a change, by the list of its values.\<close>

lemma has_valuesI:
  assumes o: "only_values k s s'" and k: "keys s' k = Some key'" "core key' = with_values key vs n"
    and ok: "sorted_wrt (<) (map (same_name s \<circ> v_name) vs)" "\<forall>v \<in> set vs. v_type v \<noteq> None" "length vs \<le> n" "n = 0 \<or> 8 \<le> n"
    and m: "map_of (map (\<lambda>v. (same_name s (v_name v), (v_type v, v_data v))) vs) = m"
  shows "has_values k s s' m"
proof -
  have v: "k_values key' = vs" "nb_values key' = n" using core_values_nb [OF k(2)] by auto
  have "same_name s' = same_name s" using o by (simp add: only_values_def same_name_def fun_eq_iff)
  then show ?thesis using o k(1) v ok m unfolding has_values_def values_ok_def value_map_def by auto
qed

lemma store_value_keys:
  assumes "keys s k = Some key" "i < length (k_values key)"
  shows "store_value k (int i) ty data s =
    Some (set_key k (key\<lparr>k_values := (k_values key)[i := (k_values key ! i)\<lparr>v_type := Some ty, v_data := data\<rparr>]\<rparr>) s)"
  using assms by (simp add: store_value_def read_at_def write_at_def)

lemma has_values_keys: "has_values k s t m \<Longrightarrow> rooted s \<Longrightarrow> rooted t"
proof -
  assume h: "has_values k s t m" and r: "rooted s"
  have "\<exists>key. keys s j = Some key \<and> k_parent key = k_parent x" if x: "keys t j = Some x" for j x
  proof -
    have "map_option (blur k j) (keys t j) = map_option (blur k j) (keys s j)" using h by (simp add: has_values_def only_values_def)
    then obtain key where "keys s j = Some key" "blur k j x = blur k j key" using x by (cases "keys s j") auto
    then show ?thesis by (auto simp: blur_def core_def dest!: arg_cong [where f = k_parent] split: if_splits)
  qed
  moreover have "keys t j \<noteq> None" if "keys s j \<noteq> None" for j
  proof -
    have "map_option (blur k j) (keys t j) = map_option (blur k j) (keys s j)" using h by (simp add: has_values_def only_values_def)
    then show ?thesis using that by (cases "keys t j") auto
  qed
  ultimately show "rooted t" using r unfolding rooted_def by metis
qed

lemma store_touch:
  assumes r: "rooted s" and o: "only_values k s t" and t: "keys t k = Some key1" "core key1 = with_values key ws n" "i < length ws"
    and vs: "vs = ws[i := (ws ! i)\<lparr>v_type := Some ty, v_data := data\<rparr>]" and k: "keys s k = Some key"
    and ok: "sorted_wrt (<) (map (same_name s \<circ> v_name) vs)" "\<forall>v \<in> set vs. v_type v \<noteq> None" "length vs \<le> n" "n = 0 \<or> 8 \<le> n"
    and m: "map_of (map (\<lambda>v. (same_name s (v_name v), (v_type v, v_data v))) vs) = m"
  shows "\<exists>s'. (do { s \<leftarrow> store_value k (int i) ty data t; touch_key k c s }) = Some s' \<and> has_values k s s' m"
proof -
  have v1: "k_values key1 = ws" "nb_values key1 = n" using core_values_nb [OF t(2)] by auto
  define k2 where "k2 = key1\<lparr>k_values := vs\<rparr>"
  define t2 where "t2 = set_key k k2 t"
  have s: "store_value k (int i) ty data t = Some t2"
    using store_value_keys [OF t(1), of i ty data] t(3) v1 vs by (simp add: t2_def k2_def)
  have c: "core k2 = with_values key vs n" using v1(2) with_values_again [OF t(2), of vs n] by (simp add: k2_def)
  have "only_values k s t2" unfolding t2_def by (rule only_values_set_key [OF o k]) (use c in \<open>simp add: with_values_def\<close>)
  then have h: "has_values k s t2 m" by (rule has_valuesI [OF _ _ c ok m]) (simp add: t2_def set_key_def)
  obtain s' where "touch_key k c t2 = Some s'" "same_tree t2 s'"
    using touch_key_ok [OF has_values_keys [OF h r], of k k2 c] by (auto simp: t2_def set_key_def)
  then show ?thesis using s has_values_then [OF h] by simp
qed

lemma sorted_map_update:
  "i < length vs \<Longrightarrow> f v = f (vs ! i) \<Longrightarrow> map f (vs[i := v]) = map f vs"
  by (metis list_update_id map_update)

lemma set_value_ok:
  assumes r: "rooted s" and k: "keys s k = Some key" and ok: "values_ok s key"
  shows "\<exists>s'. set_value k name ty data s = Some s' \<and>
    (has_values k s s' ((value_map s key)(same_name s name \<mapsto> (Some (word_of_int ty), data))) \<or>
     has_values k s s' (value_map s key) \<and> get_error s' \<in> {STATUS_NAME_TOO_LONG, STATUS_NO_MEMORY} \<and>
       (mem_oracle s \<noteq> [] \<or> value_map s key (same_name s name) = None \<and> length name > MAX_VALUE_LEN))"
    (is "\<exists>s'. _ \<and> (?done s' \<or> ?failed s')")
proof -
  let ?f = "\<lambda>v. (same_name s (v_name v), (v_type v, v_data v))"
  have vs: "sorted_wrt (<) (map (same_name s \<circ> v_name) (k_values key))" "\<forall>v \<in> set (k_values key). v_type v \<noteq> None"
      "length (k_values key) \<le> nb_values key" "nb_values key = 0 \<or> 8 \<le> nb_values key"
    using ok by (auto simp: values_ok_def)
  obtain mok s1 where m: "(if data = [] then (True, s) else case memdup data s of (r, s) \<Rightarrow> (r \<noteq> None, s)) = (mok, s1)" by fastforce
  note mf = memdup_name [OF m]
  obtain key1 where key1: "keys s1 k = Some key1" "values_ok s1 key1" "value_map s1 key1 = value_map s key" "k_values key1 = k_values key"
      "nb_values key1 = nb_values key" "core key1 = core key"
    using same_tree_values [OF mf(1) k ok] .
  have l1: "same_name s1 = same_name s" using mf(1) by (simp add: same_tree_def same_name_def fun_eq_iff)
  have o1: "only_values k s s1" by (rule same_tree_only_values [OF mf(1)])
  have h1: "has_values k s s1 (value_map s key)" by (rule has_values_same [OF mf(1) k ok])
  show ?thesis
  proof (rule find_value_cases [OF ok, of name])
    fix i v t
    assume found: "find_value key name s = Some (True, int i)" "i < length (k_values key)" "k_values key ! i = v"
      "same_name s (v_name v) = same_name s name" "v_type v = Some t" "value_map s key (same_name s name) = Some (Some t, v_data v)"
    let ?new = "v\<lparr>v_type := Some (word_of_int ty), v_data := data\<rparr>"
    show ?thesis
    proof (cases "uint t = ty \<and> v_data v = data \<and> data \<noteq> []")
      case True
      then have "(value_map s key)(same_name s name \<mapsto> (Some (word_of_int ty), data)) = value_map s key"
        using found(6) by (auto simp: fun_upd_triv)
      then have "?done s" using has_values_same [OF same_tree_refl k ok] by simp
      moreover have "set_value k name ty data s = Some s"
        using k found True by (simp add: set_value_def read_at_def)
      ultimately show ?thesis by blast
    next
      case False
      have start: "set_value k name ty data s = (if \<not> mok then Some s1 else do {
          s \<leftarrow> store_value k (int i) (word_of_int ty) data s1; touch_key k REG_NOTIFY_CHANGE_LAST_SET s })"
        using k found(1-3,5) False m by (simp add: set_value_def read_at_def) blast
      show ?thesis
      proof (cases mok)
        case False
        then have "?failed s1" using h1 mf(2,3) by auto
        then show ?thesis using start False by auto
      next
        case True
        have c: "core key1 = with_values key (k_values key) (nb_values key)" using key1(6) by (simp add: with_values_def core_def)
        have keysame: "map (same_name s \<circ> v_name) ((k_values key)[i := ?new]) = map (same_name s \<circ> v_name) (k_values key)"
          by (rule sorted_map_update) (use found in auto)
        have "map ?f ((k_values key)[i := ?new]) = (map ?f (k_values key))[i := (same_name s name, (Some (word_of_int ty), data))]"
          using found(4) by (simp add: map_update)
        moreover have "map_of \<dots> = (value_map s key)(same_name s name \<mapsto> (Some (word_of_int ty), data))"
          unfolding value_map_def
          by (subst map_of_list_update) (use value_map_distinct [OF ok] found in auto)
        ultimately have mp: "map_of (map ?f ((k_values key)[i := ?new])) = (value_map s key)(same_name s name \<mapsto> (Some (word_of_int ty), data))"
          by simp
        have ty: "\<forall>v \<in> set ((k_values key)[i := ?new]). v_type v \<noteq> None"
          using vs(2) set_update_subset_insert [of "k_values key" i ?new] by auto
        obtain s' where "(do { s \<leftarrow> store_value k (int i) (word_of_int ty) data s1; touch_key k REG_NOTIFY_CHANGE_LAST_SET s }) = Some s'" "?done s'"
        proof -
          have so: "sorted_wrt (<) (map (same_name s \<circ> v_name) ((k_values key)[i := ?new]))" unfolding keysame by (rule vs(1))
          have up: "(k_values key)[i := ?new] = (k_values key)[i := (k_values key ! i)\<lparr>v_type := Some (word_of_int ty), v_data := data\<rparr>]"
            using found(3) by simp
          have ln: "length ((k_values key)[i := ?new]) \<le> nb_values key" using vs(3) by simp
          show thesis using store_touch [OF r o1 key1(1) c found(2) up k so ty ln vs(4) mp] that by blast
        qed
        then show ?thesis using start True by auto
      qed
    qed
  next
    fix i
    assume missing: "find_value key name s = Some (False, int i)" "i \<le> length (k_values key)"
      "placed (map (same_name s \<circ> v_name) (k_values key)) (same_name s name) (False, int i)"
      "value_map s key (same_name s name) = None"
    have start: "set_value k name ty data s = (if \<not> mok then Some s1 else do {
        (ok, s) \<leftarrow> insert_value k name (int i) s1;
        if \<not> ok then Some s else do { s \<leftarrow> store_value k (int i) (word_of_int ty) data s; touch_key k REG_NOTIFY_CHANGE_LAST_SET s } })"
      using k missing m by (simp add: set_value_def)
    show ?thesis
    proof (cases mok)
      case False
      then have "?failed s1" using h1 mf(2,3) by auto
      then show ?thesis using start False by auto
    next
      case True
      obtain b s2 where ins: "insert_value k name (int i) s1 = Some (b, s2)" "only_values k s1 s2"
        "if b then \<exists>key' n. keys s2 k = Some key' \<and>
           core key' = with_values key1 (insert_at i \<lparr>v_name = name, v_type = None, v_data = []\<rparr> (k_values key1)) n \<and>
           length (k_values key1) < n \<and> 8 \<le> n
         else (\<exists>key' n. keys s2 k = Some key' \<and> core key' = with_values key1 (k_values key1) n \<and> length (k_values key1) \<le> n \<and> (n = 0 \<or> 8 \<le> n)) \<and>
           get_error s2 \<in> {STATUS_NAME_TOO_LONG, STATUS_NO_MEMORY}"
        "mem_oracle s1 = [] \<and> length name \<le> MAX_VALUE_LEN \<longrightarrow> b"
        using insert_value_ok [OF key1(1,2), of i name] missing(2) key1(4) by auto
      have o2: "only_values k s s2" by (rule only_values_trans [OF o1 ins(2)])
      have wv: "with_values key1 = with_values key" by (rule with_values_core [OF key1(6)])
      show ?thesis
      proof (cases b)
        case False
        then obtain key' n where "keys s2 k = Some key'" "core key' = with_values key (k_values key) n" "length (k_values key) \<le> n" "n = 0 \<or> 8 \<le> n"
          using ins(3) wv key1(4) by auto
        then have "has_values k s s2 (value_map s key)"
          by (intro has_valuesI [OF o2 _ _ vs(1,2)]) (simp_all add: value_map_def)
        moreover have "mem_oracle s \<noteq> [] \<or> length name > MAX_VALUE_LEN" using ins(4) False mf(2) by auto
        ultimately have "?failed s2" using ins(3) False missing(4) by auto
        then show ?thesis using start True ins(1) False by auto
      next
        case True
        define v0 where "v0 = \<lparr>v_name = name, v_type = None, v_data = []\<rparr>"
        define new where "new = v0\<lparr>v_type := Some (word_of_int ty), v_data := data\<rparr>"
        obtain key' n where k': "keys s2 k = Some key'" "core key' = with_values key (insert_at i v0 (k_values key)) n"
            "length (k_values key) < n" "8 \<le> n"
          using ins(3) True wv key1(4) unfolding v0_def by auto
        have i: "i < length (insert_at i v0 (k_values key))" "insert_at i v0 (k_values key) ! i = v0"
            "(insert_at i v0 (k_values key))[i := new] = insert_at i new (k_values key)"
          using missing(2) by (auto simp: insert_at_def nth_append list_update_append min_def)
        have pl: "sorted_wrt (<) (insert_at i (same_name s name) (map (same_name s \<circ> v_name) (k_values key)))"
            "same_name s name \<notin> set (map (same_name s \<circ> v_name) (k_values key))"
          using placed_insert [OF missing(3) vs(1)] by auto
        have so: "sorted_wrt (<) (map (same_name s \<circ> v_name) (insert_at i new (k_values key)))"
          using pl(1) by (simp add: map_insert_at new_def v0_def)
        have ty: "\<forall>v \<in> set (insert_at i new (k_values key)). v_type v \<noteq> None"
          using vs(2) by (auto simp: set_insert_at new_def)
        have ln: "length (insert_at i new (k_values key)) \<le> n" using k'(3) missing(2) by (simp add: length_insert_at)
        have mp: "map_of (map ?f (insert_at i new (k_values key))) = (value_map s key)(same_name s name \<mapsto> (Some (word_of_int ty), data))"
        proof -
          have "fst (?f new) \<notin> fst ` set (map ?f (k_values key))" using pl(2) by (auto simp: new_def v0_def)
          from map_of_insert_at [OF this, of i] show ?thesis
            by (simp add: map_insert_at value_map_def) (simp add: new_def v0_def)
        qed
        have up: "insert_at i new (k_values key) =
            (insert_at i v0 (k_values key))[i := (insert_at i v0 (k_values key) ! i)\<lparr>v_type := Some (word_of_int ty), v_data := data\<rparr>]"
          using i by (simp add: new_def)
        have n8: "n = 0 \<or> 8 \<le> n" using k'(4) by simp
        obtain s' where "(do { s \<leftarrow> store_value k (int i) (word_of_int ty) data s2; touch_key k REG_NOTIFY_CHANGE_LAST_SET s }) = Some s'" "?done s'"
          using store_touch [OF r o2 k'(1,2) i(1) up k so ty ln n8 mp] by blast
        then show ?thesis using start \<open>mok\<close> ins(1) True by auto
      qed
    qed
  qed
qed

lemma delete_value_ok:
  assumes r: "rooted s" and k: "keys s k = Some key" and ok: "values_ok s key"
  shows "\<exists>s'. delete_value k name s = Some s' \<and>
    (if value_map s key (same_name s name) = None
     then has_values k s s' (value_map s key) \<and> get_error s' = STATUS_OBJECT_NAME_NOT_FOUND
     else has_values k s s' ((value_map s key)(same_name s name := None)))"
proof (rule find_value_cases [OF ok, of name])
  fix i assume "find_value key name s = Some (False, int i)" "value_map s key (same_name s name) = None"
  then show ?thesis using k has_values_same [OF _ k ok, of "set_error STATUS_OBJECT_NAME_NOT_FOUND s"] by (simp add: delete_value_def)
next
  let ?f = "\<lambda>v. (same_name s (v_name v), (v_type v, v_data v))"
  fix i v t
  assume found: "find_value key name s = Some (True, int i)" "i < length (k_values key)" "k_values key ! i = v"
    "same_name s (v_name v) = same_name s name" "value_map s key (same_name s name) = Some (Some t, v_data v)"
  define vs where "vs = delete_at i (k_values key)"
  define t2 where "t2 = set_key k (key\<lparr>k_values := vs\<rparr>) s"
  have old: "sorted_wrt (<) (map (same_name s \<circ> v_name) (k_values key))" "\<forall>v \<in> set (k_values key). v_type v \<noteq> None"
      "length (k_values key) \<le> nb_values key" "nb_values key = 0 \<or> 8 \<le> nb_values key"
    using ok by (auto simp: values_ok_def)
  have so: "sorted_wrt (<) (map (same_name s \<circ> v_name) vs)" using sorted_delete_at [OF old(1)] by (simp add: vs_def map_delete_at)
  have ty: "\<forall>v \<in> set vs. v_type v \<noteq> None" using old(2) set_delete_at by (fastforce simp: vs_def)
  have ln: "length vs \<le> nb_values key" using old(3) found(2) by (simp add: vs_def length_delete_at)
  have mp: "map_of (map ?f vs) = (value_map s key)(same_name s name := None)"
    using map_of_delete_at [OF value_map_distinct [OF ok], of i] found(2-4) by (simp add: vs_def map_delete_at value_map_def)
  have c: "core (key\<lparr>k_values := vs\<rparr>) = with_values key vs (nb_values key)" by simp
  have "only_values k s t2" unfolding t2_def by (rule only_values_set_key [OF only_values_refl k]) (simp add: with_values_def)
  then have h2: "has_values k s t2 ((value_map s key)(same_name s name := None))"
    by (rule has_valuesI [OF _ _ c so ty ln old(4) mp]) (simp add: t2_def set_key_def)
  obtain s3 where s3: "touch_key k REG_NOTIFY_CHANGE_LAST_SET t2 = Some s3" "same_tree t2 s3"
    using touch_key_ok [OF has_values_keys [OF h2 r], of k "key\<lparr>k_values := vs\<rparr>"] by (auto simp: t2_def set_key_def)
  obtain key3 where k3: "keys s3 k = Some key3" "core key3 = core (key\<lparr>k_values := vs\<rparr>)"
    using same_tree_Some [OF s3(2), of k] by (auto simp: t2_def set_key_def)
  have v3: "k_values key3 = vs" "nb_values key3 = nb_values key" using core_values_nb [of key3 key vs] k3(2) by auto
  obtain n s4 where sh: "shrink (length vs) (nb_values key) s3 = (n, s4)" by fastforce
  note f = shrink_facts [OF sh]
  have t4: "same_tree t2 s4" using s3(2) f same_tree_trans by blast
  let ?s' = "set_key k (key3\<lparr>nb_values := n\<rparr>) s4"
  have c4: "core (key3\<lparr>nb_values := n\<rparr>) = with_values key vs n"
    using with_values_again [of key3 key vs "nb_values key" vs n] k3(2) v3 by simp
  have "only_values k s ?s'"
    by (rule only_values_set_key [OF only_values_trans [OF \<open>only_values k s t2\<close> same_tree_only_values [OF t4]] k])
      (use c4 in \<open>simp add: with_values_def\<close>)
  then have "has_values k s ?s' ((value_map s key)(same_name s name := None))"
    by (rule has_valuesI [OF _ _ c4 so ty _ _ mp]) (use f ln old(4) in \<open>auto simp: set_key_def\<close>)
  moreover have "delete_value k name s = Some ?s'"
    using k found(1) s3(1) k3(1) v3 sh by (simp add: delete_value_def vs_def t2_def)
  ultimately show ?thesis using found(5) by auto
qed

lemma set_reply_data_facts:
  "set_reply_data d s = (d', s') \<Longrightarrow> same_tree s s' \<and> (d' = d \<or> d' = [] \<and> mem_oracle s \<noteq> [])"
  by (auto simp: set_reply_data_def dest: same_tree_mem_alloc split: if_splits prod.splits)

lemma get_value_ok:
  assumes k: "keys s k = Some key" and ok: "values_ok s key"
  shows "\<exists>ty n d s'. get_value k name room s = Some (ty, n, d, s') \<and> same_tree s s' \<and>
    (case value_map s key (same_name s name) of
       None \<Rightarrow> ty = -1 \<and> n = 0 \<and> d = [] \<and> get_error s' = STATUS_OBJECT_NAME_NOT_FOUND
     | Some (t, data) \<Rightarrow> t = Some (word_of_int ty) \<and> n = length data \<and> (d = take room data \<or> d = [] \<and> mem_oracle s \<noteq> []))"
proof (rule find_value_cases [OF ok, of name])
  fix i v t
  assume found: "find_value key name s = Some (True, int i)" "i < length (k_values key)" "k_values key ! i = v"
    "v_type v = Some t" "value_map s key (same_name s name) = Some (Some t, v_data v)"
  obtain d s' where d: "set_reply_data (take room (v_data v)) s = (d, s')" by fastforce
  then show ?thesis using k found set_reply_data_facts [OF d] by (simp add: get_value_def read_at_def)
qed (use k in \<open>simp add: get_value_def\<close>)

text \<open>
  C17: the values of a key are a map from names, case ignored: setting a value updates it, unless there is no memory
  or a new name is too long, deleting one removes it, reading one returns what it maps the name to, or the
  error for a missing value.  The array stays sorted and within its allocated length, every value has a type,
  and no other key but for its modification marks and notifications changes.
\<close>

theorem values_refine_map:
  assumes "rooted s" "keys s k = Some key" "values_ok s key"
  shows "(\<exists>s'. set_value k name ty data s = Some s' \<and>
      (has_values k s s' ((value_map s key)(same_name s name \<mapsto> (Some (word_of_int ty), data))) \<or>
       has_values k s s' (value_map s key) \<and> get_error s' \<in> {STATUS_NAME_TOO_LONG, STATUS_NO_MEMORY} \<and>
         (mem_oracle s \<noteq> [] \<or> value_map s key (same_name s name) = None \<and> length name > MAX_VALUE_LEN))) \<and>
    (\<exists>s'. delete_value k name s = Some s' \<and>
      (if value_map s key (same_name s name) = None
       then has_values k s s' (value_map s key) \<and> get_error s' = STATUS_OBJECT_NAME_NOT_FOUND
       else has_values k s s' ((value_map s key)(same_name s name := None)))) \<and>
    (\<exists>ty n d s'. get_value k name room s = Some (ty, n, d, s') \<and> same_tree s s' \<and>
      (case value_map s key (same_name s name) of
         None \<Rightarrow> ty = -1 \<and> n = 0 \<and> d = [] \<and> get_error s' = STATUS_OBJECT_NAME_NOT_FOUND
       | Some (t, data) \<Rightarrow> t = Some (word_of_int ty) \<and> n = length data \<and> (d = take room data \<or> d = [] \<and> mem_oracle s \<noteq> [])))"
  using set_value_ok [OF assms] delete_value_ok [OF assms] get_value_ok [OF assms(2,3)] by blast

end
