(* ===== verification/Registry_Tree.thy ===== *)
theory Registry_Tree
  imports Registry_Ops
begin

text \<open>
  The tree of keys: the invariant of its links, names and reference counts, finding and deleting subkeys.
  \<open>E\<close> is the multiset of the references held by handles and by the code that is running.
\<close>

subsection \<open>The invariant\<close>

definition key_name :: "registry \<Rightarrow> nat \<Rightarrow> wchar list" where
  "key_name s c = (case keys s c of Some x \<Rightarrow> same_name s (k_name x) | None \<Rightarrow> [])"

definition subkeys_ok :: "registry \<Rightarrow> nat \<Rightarrow> key \<Rightarrow> bool" where
  "subkeys_ok s k key \<longleftrightarrow> sorted_wrt (<) (map (key_name s) (k_subkeys key)) \<and>
     (\<forall>c \<in> set (k_subkeys key). k < c \<and> (\<exists>child. keys s c = Some child \<and> k_parent child = Some k)) \<and>
     length (k_subkeys key) \<le> nb_subkeys key \<and> (nb_subkeys key = 0 \<or> 8 \<le> nb_subkeys key)"

definition link_ok :: "registry \<Rightarrow> nat \<Rightarrow> key \<Rightarrow> bool" where
  "link_ok s k key \<longleftrightarrow> (case k_parent key of
      None \<Rightarrow> k = root_key s \<and> \<not> flagged key KEY_DELETED \<or> k \<noteq> root_key s \<and> flagged key KEY_DELETED \<and> k_subkeys key = []
    | Some p \<Rightarrow> k \<noteq> root_key s \<and> \<not> flagged key KEY_DELETED \<and> (\<exists>par. keys s p = Some par \<and> k \<in> set (k_subkeys par)))"

definition refs_ok :: "nat multiset \<Rightarrow> nat \<Rightarrow> key \<Rightarrow> bool" where
  "refs_ok E k key \<longleftrightarrow> k_refs key = count E k + (if k_parent key = None then 0 else 1) \<and> 0 < k_refs key"

definition registry_ok :: "nat multiset \<Rightarrow> registry \<Rightarrow> bool" where
  "registry_ok E s \<longleftrightarrow> (\<forall>k key. keys s k = Some key \<longrightarrow>
      k < next_key s \<and> subkeys_ok s k key \<and> values_ok s key \<and> link_ok s k key \<and> refs_ok E k key) \<and>
    keys s (root_key s) \<noteq> None \<and> (\<forall>k \<in># E. keys s k \<noteq> None)"

lemma registry_okD:
  assumes "registry_ok E s" "keys s k = Some key"
  shows "k < next_key s" "subkeys_ok s k key" "values_ok s key" "link_ok s k key" "refs_ok E k key"
  using assms unfolding registry_ok_def by blast+

lemma registry_ok_rooted: "registry_ok E s \<Longrightarrow> rooted s"
  unfolding rooted_def
proof (intro allI impI)
  fix k key p assume ok: "registry_ok E s" and k: "keys s k = Some key" "k_parent key = Some p"
  obtain par where par: "keys s p = Some par" "k \<in> set (k_subkeys par)"
    using registry_okD(4) [OF ok k(1)] k(2) by (auto simp: link_ok_def)
  then show "p < k \<and> keys s p \<noteq> None" using registry_okD(2) [OF ok par(1)] by (auto simp: subkeys_ok_def)
qed

lemma subkey_parent:
  assumes "registry_ok E s" "keys s k = Some key" "c \<in> set (k_subkeys key)"
  obtains child where "keys s c = Some child" "k_parent child = Some k" "k < c"
  using registry_okD(2) [OF assms(1,2)] assms(3) by (auto simp: subkeys_ok_def)

lemma parent_subkey:
  assumes "registry_ok E s" "keys s c = Some child" "k_parent child = Some k"
  obtains key where "keys s k = Some key" "c \<in> set (k_subkeys key)" "k < c" "c \<noteq> root_key s" "\<not> flagged child KEY_DELETED"
  using registry_okD(4) [OF assms(1,2)] assms(3) registry_ok_rooted [OF assms(1)] assms(2)
  by (auto simp: link_ok_def rooted_def)

lemma subkeys_ok_cong:
  assumes "subkeys_ok s k key" "lowerW s' = lowerW s"
    and "\<And>c x. c \<in> set (k_subkeys key) \<Longrightarrow> keys s c = Some x \<Longrightarrow> \<exists>y. keys s' c = Some y \<and> k_name y = k_name x \<and> k_parent y = k_parent x"
    and "k_subkeys key' = k_subkeys key" "nb_subkeys key' = nb_subkeys key"
  shows "subkeys_ok s' k key'"
proof -
  have "key_name s' c = key_name s c" if c: "c \<in> set (k_subkeys key)" for c
  proof -
    obtain x where x: "keys s c = Some x" using assms(1) c by (auto simp: subkeys_ok_def)
    obtain y where "keys s' c = Some y" "k_name y = k_name x" using assms(3) [OF c x] by auto
    then show ?thesis using assms(2) x by (simp add: key_name_def same_name_def)
  qed
  then have "map (key_name s') (k_subkeys key) = map (key_name s) (k_subkeys key)" by simp
  moreover have "\<forall>c \<in> set (k_subkeys key). k < c \<and> (\<exists>child. keys s' c = Some child \<and> k_parent child = Some k)"
    using assms(1,3) unfolding subkeys_ok_def by metis
  ultimately show ?thesis using assms(1,4,5) unfolding subkeys_ok_def by metis
qed

text \<open>Neither classes nor marks other than \<open>KEY_DELETED\<close> matter to it.\<close>

definition shape :: "key \<Rightarrow> key" where
  "shape key = key\<lparr>k_class := [], k_flags := k_flags key AND KEY_DELETED, k_modif := 0, notify_list := []\<rparr>"

definition same_shape :: "registry \<Rightarrow> registry \<Rightarrow> bool" where
  "same_shape s s' \<longleftrightarrow> (\<forall>k. map_option shape (keys s' k) = map_option shape (keys s k)) \<and>
     next_key s' = next_key s \<and> root_key s' = root_key s \<and> lowerW s' = lowerW s"

lemma shape_sel:
  assumes "shape a = shape b"
  shows "k_refs a = k_refs b" "k_name a = k_name b" "k_parent a = k_parent b" "k_subkeys a = k_subkeys b"
    "nb_subkeys a = nb_subkeys b" "k_values a = k_values b" "nb_values a = nb_values b" "flagged a KEY_DELETED = flagged b KEY_DELETED"
proof -
  show "flagged a KEY_DELETED = flagged b KEY_DELETED" using arg_cong [OF assms, of k_flags] by (simp add: shape_def flagged_def)
qed (use assms in \<open>cases a; cases b; simp add: shape_def\<close>)+

lemma core_shape: "core a = core b \<Longrightarrow> shape a = shape b"
proof -
  assume c: "core a = core b"
  have "k_flags x AND KEY_DELETED = (k_flags x AND NOT KEY_DIRTY) AND KEY_DELETED" for x
    by (simp add: and.assoc KEY_DIRTY_def KEY_DELETED_def)
  moreover have "k_flags a AND NOT KEY_DIRTY = k_flags b AND NOT KEY_DIRTY" using arg_cong [OF c, of k_flags] by (simp add: core_def)
  ultimately have "k_flags a AND KEY_DELETED = k_flags b AND KEY_DELETED" by metis
  then show ?thesis using c by (cases a; cases b) (simp add: core_def shape_def)
qed

lemma same_tree_shape: "same_tree s s' \<Longrightarrow> same_shape s s'"
proof -
  assume st: "same_tree s s'"
  have "map_option shape (keys s' k) = map_option shape (keys s k)" for k
  proof -
    have "map_option core (keys s' k) = map_option core (keys s k)" using st by (simp add: same_tree_def)
    then show ?thesis by (cases "keys s' k"; cases "keys s k") (auto intro: core_shape)
  qed
  then show ?thesis using st by (simp add: same_shape_def same_tree_def)
qed

lemma same_shape_sym: "same_shape s s' \<Longrightarrow> same_shape s' s"
  by (simp add: same_shape_def)

lemma same_shape_Some: "same_shape s s' \<Longrightarrow> keys s k = Some key \<Longrightarrow> \<exists>key'. keys s' k = Some key' \<and> shape key' = shape key"
proof -
  assume "same_shape s s'" "keys s k = Some key"
  then have "map_option shape (keys s' k) = Some (shape key)" by (simp add: same_shape_def)
  then show ?thesis by (cases "keys s' k") auto
qed

lemma same_shape_set_key: "keys s k = Some key \<Longrightarrow> shape key' = shape key \<Longrightarrow> same_shape s (set_key k key' s)"
  by (simp add: same_shape_def set_key_def)

lemma same_shape_ok:
  assumes st: "same_shape s s'" and ok: "registry_ok E s"
  shows "registry_ok E s'"
proof -
  have f: "next_key s' = next_key s" "root_key s' = root_key s" "lowerW s' = lowerW s" using st by (auto simp: same_shape_def)
  have fwd: "\<exists>y. keys s' c = Some y \<and> shape y = shape x" if "keys s c = Some x" for c x using same_shape_Some [OF st that] .
  have bwd: "\<exists>y. keys s c = Some y \<and> shape y = shape x" if "keys s' c = Some x" for c x
    using same_shape_Some [OF same_shape_sym [OF st] that] .
  have "k < next_key s' \<and> subkeys_ok s' k key \<and> values_ok s' key \<and> link_ok s' k key \<and> refs_ok E k key" if key: "keys s' k = Some key" for k key
  proof -
    obtain x where x: "keys s k = Some x" "shape x = shape key" using bwd [OF key] by auto
    note c = shape_sel [OF x(2)]
    note o = registry_okD [OF ok x(1)]
    have "subkeys_ok s' k key"
    proof (rule subkeys_ok_cong [OF o(2) f(3)])
      fix d y assume "keys s d = Some y"
      then obtain z where "keys s' d = Some z" "shape z = shape y" using fwd by blast
      then show "\<exists>z. keys s' d = Some z \<and> k_name z = k_name y \<and> k_parent z = k_parent y" using shape_sel(2,3) by blast
    qed (use c in simp_all)
    moreover have "same_name s' = same_name s" by (simp add: same_name_def f fun_eq_iff)
    then have "values_ok s' key" using o(3) c(6,7) by (simp add: values_ok_def)
    moreover have "link_ok s' k key"
    proof (cases "k_parent key")
      case None
      then show ?thesis using o(4) c(3,4,8) f(2) by (simp add: link_ok_def)
    next
      case (Some p)
      then obtain par where p: "keys s p = Some par" "k \<in> set (k_subkeys par)" using o(4) c(3) by (auto simp: link_ok_def)
      obtain par' where p': "keys s' p = Some par'" "shape par' = shape par" using fwd [OF p(1)] by blast
      then have "k \<in> set (k_subkeys par')" using p(2) shape_sel(4) by metis
      then show ?thesis using o(4) c(3,8) f(2) Some p'(1) by (auto simp: link_ok_def)
    qed
    moreover have "refs_ok E k key" using o(5) unfolding refs_ok_def c(1,3) .
    ultimately show ?thesis using o(1) f(1) by simp
  qed
  then show ?thesis using ok fwd f(2) unfolding registry_ok_def by (metis not_Some_eq)
qed

lemma same_tree_ok: "same_tree s s' \<Longrightarrow> registry_ok E s \<Longrightarrow> registry_ok E s'"
  by (rule same_shape_ok [OF same_tree_shape])

subsection \<open>Finding a subkey\<close>

lemma find_subkey_placed:
  assumes ok: "registry_ok E s" and k: "keys s k = Some key"
  shows "\<exists>b i. placed (map (key_name s) (k_subkeys key)) (same_name s name) (b, i) \<and>
    find_subkey k name s = Some (if b then Some (k_subkeys key ! nat i) else None, i)"
proof -
  let ?ks = "map (key_name s) (k_subkeys key)"
  let ?res = "\<lambda>i. do { c \<leftarrow> read_at (k_subkeys key) i; child \<leftarrow> keys s c; Some (compare_names (lowerW s) (k_name child) name) }"
  have "\<exists>r. search ?res 0 (int (length ?ks) - 1) = Some r \<and> placed ?ks (same_name s name) r"
  proof (rule search_all)
    show "sorted_wrt (<) ?ks" using registry_okD(2) [OF ok k] by (simp add: subkeys_ok_def)
  next
    fix i assume i: "0 \<le> i" "i < int (length ?ks)"
    then have "k_subkeys key ! nat i \<in> set (k_subkeys key)" by (simp add: nat_less_iff)
    then obtain child where "keys s (k_subkeys key ! nat i) = Some child" using subkey_parent [OF ok k] by metis
    then show "\<exists>c. ?res i = Some c \<and> (c = 0 \<longleftrightarrow> ?ks ! nat i = same_name s name) \<and> (c < 0 \<longleftrightarrow> ?ks ! nat i < same_name s name)"
      using i by (simp add: read_at_def nat_less_iff key_name_def same_name_def compare_names_order)
  qed
  then obtain b i where r: "search ?res 0 (int (length (k_subkeys key)) - 1) = Some (b, i)" "placed ?ks (same_name s name) (b, i)" by auto
  show ?thesis
  proof (intro exI conjI)
    show "find_subkey k name s = Some (if b then Some (k_subkeys key ! nat i) else None, i)"
      using k r by (cases b) (auto simp: find_subkey_def placed_def read_at_def)
  qed (rule r(2))
qed

lemma placed_whether:
  assumes "placed ks x (b, i)" "sorted_wrt (<) ks"
  shows "0 \<le> i \<and> b = (x \<in> set ks) \<and>
    (if b then i < int (length ks) \<and> ks ! nat i = x else i \<le> int (length ks) \<and> sorted_wrt (<) (insert_at (nat i) x ks))"
proof (cases b)
  case True
  then have "0 \<le> i" "i < int (length ks)" "ks ! nat i = x" using assms(1) by (auto simp: placed_def)
  then show ?thesis using True nth_mem [of "nat i" ks] by (auto simp: nat_less_iff)
next
  case False
  then have p: "placed ks x (False, i)" using assms(1) by simp
  then have "0 \<le> i" "i \<le> int (length ks)" by (auto simp: placed_def)
  then show ?thesis using False placed_insert [OF p assms(2)] by simp
qed

text \<open>
  C18: the binary searches of the registry answer as a look at every entry would: they find the subkey or the value with
  the name, case ignored, when there is one, and else the place that keeps the array sorted; no read is
  outside of the array.
\<close>

theorem searches_correct:
  assumes "registry_ok E s" "keys s k = Some key"
  shows "(\<exists>c i. find_subkey k name s = Some (c, i) \<and> 0 \<le> i \<and>
      (if \<exists>x \<in> set (k_subkeys key). key_name s x = same_name s name
       then c = Some (k_subkeys key ! nat i) \<and> i < int (length (k_subkeys key)) \<and> key_name s (k_subkeys key ! nat i) = same_name s name
       else c = None \<and> i \<le> int (length (k_subkeys key)) \<and>
         sorted_wrt (<) (insert_at (nat i) (same_name s name) (map (key_name s) (k_subkeys key))))) \<and>
    (\<exists>b i. find_value key name s = Some (b, i) \<and> 0 \<le> i \<and>
      (if \<exists>v \<in> set (k_values key). same_name s (v_name v) = same_name s name
       then b \<and> i < int (length (k_values key)) \<and> same_name s (v_name (k_values key ! nat i)) = same_name s name
       else \<not> b \<and> i \<le> int (length (k_values key)) \<and>
         sorted_wrt (<) (insert_at (nat i) (same_name s name) (map (same_name s \<circ> v_name) (k_values key)))))"
    (is "?keyfound \<and> ?valuefound")
proof
  note o = registry_okD [OF assms]
  let ?ks = "map (key_name s) (k_subkeys key)" and ?vs = "map (same_name s \<circ> v_name) (k_values key)"
  obtain b i where f: "placed ?ks (same_name s name) (b, i)" "find_subkey k name s = Some (if b then Some (k_subkeys key ! nat i) else None, i)"
    using find_subkey_placed [OF assms] by blast
  have "sorted_wrt (<) ?ks" using o(2) by (simp add: subkeys_ok_def)
  note w = placed_whether [OF f(1) this]
  have "same_name s name \<in> set ?ks \<longleftrightarrow> (\<exists>x \<in> set (k_subkeys key). key_name s x = same_name s name)" by force
  then show ?keyfound using w f(2) by (cases b) (auto simp: nat_less_iff)
  obtain b' i' where v: "find_value key name s = Some (b', i')" "placed ?vs (same_name s name) (b', i')"
    using find_value_placed [OF o(3)] by (metis surj_pair)
  have "sorted_wrt (<) ?vs" using o(3) by (simp add: values_ok_def)
  note u = placed_whether [OF v(2) this]
  have "same_name s name \<in> set ?vs \<longleftrightarrow> (\<exists>v \<in> set (k_values key). same_name s (v_name v) = same_name s name)" by force
  then show ?valuefound using u v(1) by (cases b') (auto simp: nat_less_iff)
qed

subsection \<open>A small registry\<close>

text \<open>The root has a subkey ``Soft'', with the value ``Ver'' and the subkey ``Wine'', which is open; the event 7 waits for changes below the root.\<close>

definition ascii_lower :: "wchar \<Rightarrow> wchar" where
  "ascii_lower c = (if 0x41 \<le> c \<and> c \<le> 0x5a then c + 0x20 else c)"

definition sample_root :: key where
  "sample_root = \<lparr>k_refs = 1, k_name = [], k_class = [], k_parent = None, k_subkeys = [1], nb_subkeys = 8, k_values = [], nb_values = 0,
     k_flags = 0, k_modif = 5, notify_list = [\<lparr>n_event = Some 7, n_subtree = True, n_filter = 5, n_hkey = 4, n_process = 0\<rparr>]\<rparr>"

definition sample_soft :: key where
  "sample_soft = \<lparr>k_refs = 1, k_name = [0x53, 0x6f, 0x66, 0x74], k_class = [], k_parent = Some 0, k_subkeys = [2], nb_subkeys = 8,
     k_values = [\<lparr>v_name = [0x56, 0x65, 0x72], v_type = Some 4, v_data = [1, 0, 0, 0]\<rparr>], nb_values = 8, k_flags = 0, k_modif = 5,
     notify_list = []\<rparr>"

definition sample_wine :: key where
  "sample_wine = \<lparr>k_refs = 2, k_name = [0x57, 0x69, 0x6e, 0x65], k_class = [], k_parent = Some 1, k_subkeys = [], nb_subkeys = 0,
     k_values = [], nb_values = 0, k_flags = 0, k_modif = 5, notify_list = []\<rparr>"

definition sample_registry :: registry where
  "sample_registry = \<lparr>current = None, global_error = 0, thread_error = (\<lambda>_. 0), mem_oracle = [], keys = [0 \<mapsto> sample_root, 1 \<mapsto> sample_soft, 2 \<mapsto> sample_wine], next_key = 3, root_key = 0,
     now = 9, lowerW = ascii_lower, signalled = []\<rparr>"

lemma sample_registry_ok: "registry_ok {#0, 2#} sample_registry"
  by (auto simp: registry_ok_def sample_registry_def sample_root_def sample_soft_def sample_wine_def subkeys_ok_def values_ok_def link_ok_def refs_ok_def
      flagged_def key_name_def split: if_splits)

lemma sample_keys [simp]: "keys sample_registry 0 = Some sample_root" "keys sample_registry (Suc 0) = Some sample_soft"
  by (simp_all add: sample_registry_def)

theorem searches_correct_witness:
  "find_subkey 0 [0x73, 0x4f, 0x46, 0x54] sample_registry = Some (Some 1, 0) \<and> find_value sample_soft [0x41] sample_registry = Some (False, 0)"
proof -
  have e: "key_name sample_registry 1 = same_name sample_registry [0x73, 0x4f, 0x46, 0x54]"
    "same_name sample_registry [0x56, 0x65, 0x72] \<noteq> same_name sample_registry [0x41]"
    "same_name sample_registry [0x41] < same_name sample_registry [0x56, 0x65, 0x72]"
    by (simp_all add: key_name_def same_name_def sample_soft_def, simp_all add: sample_registry_def ascii_lower_def)
  have "find_subkey 0 [0x73, 0x4f, 0x46, 0x54] sample_registry = Some (Some 1, 0)"
    using searches_correct [OF sample_registry_ok, of 0 sample_root "[0x73, 0x4f, 0x46, 0x54]"] e(1) by (auto simp: sample_root_def)
  moreover have "find_value sample_soft [0x41] sample_registry = Some (False, 0)"
  proof -
    have vs: "k_values sample_soft = [\<lparr>v_name = [0x56, 0x65, 0x72], v_type = Some 4, v_data = [1, 0, 0, 0]\<rparr>]" by (simp add: sample_soft_def)
    obtain b i where f: "find_value sample_soft [0x41] sample_registry = Some (b, i)" "0 \<le> i" "\<not> b" "i \<le> 1"
        "sorted_wrt (<) (insert_at (nat i) (same_name sample_registry [0x41]) [same_name sample_registry [0x56, 0x65, 0x72]])"
      using searches_correct [OF sample_registry_ok sample_keys(2), of "[0x41]"] e(2) by (auto simp: vs)
    have "i \<noteq> 1" using f(5) e(3) by (auto simp: insert_at_def)
    then have "i = 0" using f(2,4) by linarith
    then show ?thesis using f by simp
  qed
  ultimately show ?thesis by blast
qed

theorem values_refine_map_witness:
  "\<exists>s'. set_value 1 [0x76, 0x65, 0x52] 1 [2] sample_registry = Some s' \<and> 
     has_values 1 sample_registry s' [same_name sample_registry [0x56, 0x65, 0x72] \<mapsto> (Some 1, [2])]"
proof -
  have v: "value_map sample_registry sample_soft = [same_name sample_registry [0x56, 0x65, 0x72] \<mapsto> (Some 4, [1, 0, 0, 0])]"
    by (simp add: value_map_def sample_soft_def)
  have "same_name sample_registry [0x76, 0x65, 0x52] = same_name sample_registry [0x56, 0x65, 0x72]"
    by (simp add: same_name_def sample_registry_def ascii_lower_def)
  moreover have "mem_oracle sample_registry = []" by (simp add: sample_registry_def)
  ultimately show ?thesis
    using values_refine_map [OF registry_ok_rooted [OF sample_registry_ok] sample_keys(2) registry_okD(3) [OF sample_registry_ok sample_keys(2)],
        of "[0x76, 0x65, 0x52]" 1 "[2]" 0] by (auto simp: v)
qed

end
