(* ===== verification/Registry_Delete.thy ===== *)
theory Registry_Delete
  imports Registry_Tree
begin

text \<open>
  Deleting keys: \<^verbatim>\<open>delete_key\<close> ends, keeps the invariant of the tree and takes just the key and what is below it out of it.
\<close>

subsection \<open>Cutting keys out of the tree\<close>

definition links :: "registry \<Rightarrow> (nat \<times> nat) set" where
  "links s = {(p, c). \<exists>child. keys s c = Some child \<and> k_parent child = Some p}"

definition below :: "registry \<Rightarrow> nat \<Rightarrow> nat set" where
  "below s k = {j. (k, j) \<in> (links s)\<^sup>+}"

text \<open>A key without the subkeys in \<open>D\<close>; marks, notifications and the size of the array do not matter.\<close>

definition trimmed :: "nat set \<Rightarrow> key \<Rightarrow> key" where
  "trimmed D key = (core key)\<lparr>k_subkeys := filter (\<lambda>c. c \<notin> D) (k_subkeys key), nb_subkeys := 0\<rparr>"

text \<open>A key that was open when it was deleted.\<close>

definition orphaned :: "key \<Rightarrow> key \<Rightarrow> bool" where
  "orphaned x y \<longleftrightarrow> k_parent y = None \<and> flagged y KEY_DELETED \<and> k_subkeys y = [] \<and> k_name y = k_name x \<and> k_values y = k_values x"

definition cut_off :: "nat multiset \<Rightarrow> nat set \<Rightarrow> registry \<Rightarrow> registry \<Rightarrow> bool" where
  "cut_off E D s s' \<longleftrightarrow> (\<forall>j. j \<notin> D \<longrightarrow> map_option (trimmed {}) (keys s' j) = map_option (trimmed D) (keys s j)) \<and>
     (\<forall>j \<in> D. if j \<in># E then \<exists>x y. keys s j = Some x \<and> keys s' j = Some y \<and> orphaned x y else keys s' j = None) \<and>
     next_key s' = next_key s \<and> root_key s' = root_key s \<and> lowerW s' = lowerW s \<and> now s' = now s"

lemma trimmed_sel:
  assumes "trimmed {} y = trimmed D x"
  shows "k_subkeys y = filter (\<lambda>c. c \<notin> D) (k_subkeys x)" "k_name y = k_name x" "k_values y = k_values x" "k_parent y = k_parent x"
    "flagged y KEY_DELETED = flagged x KEY_DELETED"
proof -
  have "core (y\<lparr>k_subkeys := [], nb_subkeys := 0\<rparr>) = core (x\<lparr>k_subkeys := [], nb_subkeys := 0\<rparr>)"
    using assms by (cases y; cases x) (simp add: trimmed_def core_def)
  from core_sel [OF this] show "k_name y = k_name x" "k_values y = k_values x" "k_parent y = k_parent x"
    "flagged y KEY_DELETED = flagged x KEY_DELETED" by (simp_all add: flagged_def)
  show "k_subkeys y = filter (\<lambda>c. c \<notin> D) (k_subkeys x)" using arg_cong [OF assms, of k_subkeys] by (simp add: trimmed_def)
qed

lemma trimmed_core: "core y = core x \<Longrightarrow> trimmed D y = trimmed D x"
  using core_sel(5) [of y x] by (simp add: trimmed_def)

lemma trimmed_twice: "trimmed {} y = trimmed D x \<Longrightarrow> trimmed D' y = trimmed (D \<union> D') x"
proof -
  assume a: "trimmed {} y = trimmed D x"
  have "trimmed D' y = (trimmed {} y)\<lparr>k_subkeys := filter (\<lambda>c. c \<notin> D') (k_subkeys y)\<rparr>" by (simp add: trimmed_def)
  also have "\<dots> = (trimmed D x)\<lparr>k_subkeys := filter (\<lambda>c. c \<notin> D') (filter (\<lambda>c. c \<notin> D) (k_subkeys x))\<rparr>"
    unfolding a trimmed_sel(1) [OF a] ..
  also have "\<dots> = trimmed (D \<union> D') x" by (simp add: trimmed_def conj_commute cong: conj_cong)
  finally show ?thesis .
qed

lemma cut_outside:
  assumes "cut_off E D s s'" "j \<notin> D"
  shows "(keys s' j = None \<longleftrightarrow> keys s j = None) \<and> (keys s j = Some x \<longrightarrow> (\<exists>y. keys s' j = Some y \<and> trimmed {} y = trimmed D x)) \<and>
    (keys s' j = Some y \<longrightarrow> (\<exists>x. keys s j = Some x \<and> trimmed {} y = trimmed D x))"
proof -
  have "map_option (trimmed {}) (keys s' j) = map_option (trimmed D) (keys s j)" using assms by (simp add: cut_off_def)
  then show ?thesis by (cases "keys s' j"; cases "keys s j") auto
qed

lemma cut_inside:
  assumes "cut_off E D s s'" "j \<in> D" "keys s' j = Some y"
  shows "\<exists>x. keys s j = Some x \<and> orphaned x y"
  using assms by (auto simp: cut_off_def split: if_splits)

lemma cut_orphan:
  assumes "cut_off E D s s'" "j \<in> D" "j \<in># E"
  shows "\<exists>x y. keys s j = Some x \<and> keys s' j = Some y \<and> orphaned x y"
proof -
  have "if j \<in># E then \<exists>x y. keys s j = Some x \<and> keys s' j = Some y \<and> orphaned x y else keys s' j = None"
    using assms(1,2) unfolding cut_off_def by blast
  then show ?thesis using assms(3) by simp
qed

lemma cut_empty [simp]: "cut_off E {} s s"
  by (simp add: cut_off_def)

lemma cut_trans:
  assumes 1: "cut_off E D s t" and 2: "cut_off E D' t u" and dis: "D \<inter> D' = {}"
  shows "cut_off E (D \<union> D') s u"
  unfolding cut_off_def
proof (intro conjI allI impI ballI)
  fix j assume "j \<notin> D \<union> D'"
  then have j: "j \<notin> D" "j \<notin> D'" by auto
  have "map_option (trimmed {}) (keys u j) = map_option (trimmed D') (keys t j)" using 2 j by (simp add: cut_off_def)
  also have "\<dots> = map_option (trimmed (D \<union> D')) (keys s j)"
    using cut_outside [OF 1 j(1)] by (cases "keys s j"; cases "keys t j") (auto intro: trimmed_twice)
  finally show "map_option (trimmed {}) (keys u j) = map_option (trimmed (D \<union> D')) (keys s j)" .
next
  fix j assume j: "j \<in> D \<union> D'"
  show "if j \<in># E then \<exists>x y. keys s j = Some x \<and> keys u j = Some y \<and> orphaned x y else keys u j = None"
  proof (cases "j \<in> D")
    case True
    then have n: "j \<notin> D'" using dis by auto
    show ?thesis
    proof (cases "j \<in># E")
      case False
      then have "keys t j = None" using 1 True by (simp add: cut_off_def)
      then show ?thesis using cut_outside [OF 2 n] False by simp
    next
      case E: True
      then obtain x y where xy: "keys s j = Some x" "keys t j = Some y" "orphaned x y" using cut_orphan [OF 1 True E] by blast
      then obtain z where z: "keys u j = Some z" "trimmed {} z = trimmed D' y" using cut_outside [OF 2 n] by blast
      have "orphaned x z" using xy(3) trimmed_sel [OF z(2)] by (simp add: orphaned_def)
      then show ?thesis using E xy z by simp
    qed
  next
    case False
    then have D': "j \<in> D'" using j by simp
    show ?thesis
    proof (cases "j \<in># E")
      case True
      then obtain y z where yz: "keys t j = Some y" "keys u j = Some z" "orphaned y z" using cut_orphan [OF 2 D' True] by blast
      then obtain x where x: "keys s j = Some x" "trimmed {} y = trimmed D x" using cut_outside [OF 1 False] by blast
      have "orphaned x z" using yz(3) trimmed_sel [OF x(2)] by (simp add: orphaned_def)
      then show ?thesis using True x yz by simp
    qed (use 2 D' in \<open>simp add: cut_off_def\<close>)
  qed
qed (use 1 2 in \<open>simp_all add: cut_off_def\<close>)

lemma cut_then:
  assumes c: "cut_off E D s t" and st: "same_tree t s'"
  shows "cut_off E D s s'"
  unfolding cut_off_def
proof (intro conjI allI impI ballI)
  have k: "map_option core (keys s' j) = map_option core (keys t j)" for j using st by (simp add: same_tree_def)
  fix j
  show "map_option (trimmed {}) (keys s' j) = map_option (trimmed D) (keys s j)" if "j \<notin> D"
  proof -
    have "map_option (trimmed {}) (keys s' j) = map_option (trimmed {}) (keys t j)"
      using k [of j] by (cases "keys s' j"; cases "keys t j") (auto intro: trimmed_core)
    then show ?thesis using c that by (simp add: cut_off_def)
  qed
  show "if j \<in># E then \<exists>x y. keys s j = Some x \<and> keys s' j = Some y \<and> orphaned x y else keys s' j = None" if D: "j \<in> D"
  proof (cases "j \<in># E")
    case True
    then obtain x y where xy: "keys s j = Some x" "keys t j = Some y" "orphaned x y" using cut_orphan [OF c D True] by blast
    then obtain z where z: "keys s' j = Some z" "core z = core y" using same_tree_Some [OF st] by blast
    have "orphaned x z" using xy(3) core_sel [OF z(2)] by (simp add: orphaned_def)
    then show ?thesis using True xy z by simp
  next
    case False
    then have "keys t j = None" using c D by (simp add: cut_off_def)
    then show ?thesis using k [of j] False by simp
  qed
qed (use c st in \<open>simp_all add: cut_off_def same_tree_def\<close>)

subsection \<open>Deleting a key without subkeys\<close>

lemma index_of_facts:
  "k \<in> set ks \<Longrightarrow> index_of k ks < length ks \<and> ks ! index_of k ks = k \<and> delete_at (index_of k ks) ks = remove1 k ks"
  by (induction ks) (auto simp: index_of_def delete_at_def)

lemma subkeys_distinct: "registry_ok E s \<Longrightarrow> keys s k = Some key \<Longrightarrow> distinct (k_subkeys key)"
  using registry_okD(2) unfolding subkeys_ok_def strict_sorted_iff by (metis distinct_map)

definition leaf_out :: "nat multiset \<Rightarrow> nat \<Rightarrow> key \<Rightarrow> nat \<Rightarrow> key \<Rightarrow> nat \<Rightarrow> registry \<Rightarrow> registry" where
  "leaf_out E k key p par n s = s\<lparr>keys := (keys s)(
     p \<mapsto> par\<lparr>k_subkeys := filter (\<lambda>c. c \<noteq> k) (k_subkeys par), nb_subkeys := n\<rparr>,
     k := (if k \<in># E then Some (key\<lparr>k_refs := k_refs key - 1, k_flags := k_flags key OR KEY_DELETED, k_parent := None\<rparr>) else None))\<rparr>"

lemma flagged_deleted [simp]: "flagged (key\<lparr>k_refs := r, k_flags := f OR KEY_DELETED, k_parent := p\<rparr>) KEY_DELETED"
proof -
  have "(f OR m) AND m = m" for m :: "32 word" by (rule bit_eqI) (auto simp: bit_simps)
  then show ?thesis by (simp add: flagged_def) (simp add: KEY_DELETED_def)
qed

lemma leaf_out_ok:
  assumes ok: "registry_ok E s" and key: "keys s k = Some key" "k_parent key = Some p" "k_subkeys key = []" and par: "keys s p = Some par"
    and n: "length (filter (\<lambda>c. c \<noteq> k) (k_subkeys par)) \<le> n" "n = 0 \<or> 8 \<le> n"
  shows "registry_ok E (leaf_out E k key p par n s)" (is "registry_ok E ?s")
proof -
  note okk = registry_okD [OF ok key(1)] and okp = registry_okD [OF ok par]
  have pk: "p < k" "k \<noteq> root_key s" "p \<noteq> k" using parent_subkey [OF ok key(1,2)] par by auto
  have f: "next_key ?s = next_key s" "root_key ?s = root_key s" "lowerW ?s = lowerW s" by (simp_all add: leaf_out_def)
  have at: "keys ?s k = (if k \<in># E then Some (key\<lparr>k_refs := k_refs key - 1, k_flags := k_flags key OR KEY_DELETED, k_parent := None\<rparr>) else None)"
    "keys ?s p = Some (par\<lparr>k_subkeys := filter (\<lambda>c. c \<noteq> k) (k_subkeys par), nb_subkeys := n\<rparr>)"
    "\<And>j. j \<noteq> k \<Longrightarrow> j \<noteq> p \<Longrightarrow> keys ?s j = keys s j" using pk(3) by (simp_all add: leaf_out_def)
  have sn: "same_name ?s = same_name s" by (simp add: same_name_def f fun_eq_iff)
  have name: "key_name ?s c = key_name s c" if "c \<noteq> k" for c
    using that par at by (cases "c = p") (simp_all add: key_name_def sn split: option.split)
  have child: "\<exists>y. keys ?s c = Some y \<and> k_name y = k_name x \<and> k_parent y = k_parent x" if "c \<noteq> k" "keys s c = Some x" for c x
    using that par at by (cases "c = p") auto
  have vals: "values_ok ?s x = values_ok s x" for x by (simp add: values_ok_def sn)
  have linked: "\<exists>q. keys ?s a = Some q \<and> j \<in> set (k_subkeys q)" if "j \<noteq> k" "keys s a = Some q" "j \<in> set (k_subkeys q)" for j a q
  proof (cases "a = p")
    case True
    then have "q = par" using that(2) par by simp
    then show ?thesis using that(1,3) True at(2) by simp
  next
    case False
    have "a \<noteq> k" using that(2,3) key(1,3) by auto
    then show ?thesis using that(2,3) False at(3) by simp
  qed
  have "j < next_key ?s \<and> subkeys_ok ?s j x \<and> values_ok ?s x \<and> link_ok ?s j x \<and> refs_ok E j x" if x: "keys ?s j = Some x" for j x
  proof -
    consider "j = k" | "j = p" | "j \<noteq> k" "j \<noteq> p" by blast
    then show ?thesis
    proof cases
      case 1
      then have x': "k \<in># E" "x = key\<lparr>k_refs := k_refs key - 1, k_flags := k_flags key OR KEY_DELETED, k_parent := None\<rparr>"
        using x at(1) by (auto split: if_splits)
      have "subkeys_ok ?s k x" using okk(2) key(3) x'(2) by (simp add: subkeys_ok_def)
      moreover have "values_ok ?s x" using okk(3) x'(2) by (simp add: values_ok_def sn)
      moreover have "link_ok ?s k x" using pk(2) key(3) f(2) by (simp add: link_ok_def x'(2))
      moreover have "refs_ok E k x" using okk(5) key(2) x' by (simp add: refs_ok_def)
      ultimately show ?thesis using 1 okk(1) f(1) by simp
    next
      case 2
      then have x': "x = par\<lparr>k_subkeys := filter (\<lambda>c. c \<noteq> k) (k_subkeys par), nb_subkeys := n\<rparr>" using x at(2) by simp
      have a: "map (key_name ?s) (k_subkeys x) = map (key_name s) (filter (\<lambda>c. c \<noteq> k) (k_subkeys par))"
        using name by (simp add: x')
      have b: "sorted_wrt (<) (map (key_name s) (filter (\<lambda>c. c \<noteq> k) (k_subkeys par)))"
        using okp(2) by (simp add: subkeys_ok_def sorted_wrt_map sorted_wrt_filter)
      have c: "\<forall>c \<in> set (k_subkeys x). p < c \<and> (\<exists>child. keys ?s c = Some child \<and> k_parent child = Some p)"
      proof
        fix c assume "c \<in> set (k_subkeys x)"
        then have c: "c \<in> set (k_subkeys par)" "c \<noteq> k" by (auto simp: x')
        obtain y where y: "keys s c = Some y" "k_parent y = Some p" "p < c" using subkey_parent [OF ok par c(1)] .
        then show "p < c \<and> (\<exists>child. keys ?s c = Some child \<and> k_parent child = Some p)" using child [OF c(2) y(1)] by auto
      qed
      have "subkeys_ok ?s p x" using b c n unfolding subkeys_ok_def a by (simp add: x')
      moreover have "values_ok ?s x" using okp(3) by (simp add: vals) (simp add: values_ok_def x')
      moreover have "link_ok ?s p x"
      proof (cases "k_parent par")
        case None
        then show ?thesis using okp(4) by (auto simp: link_ok_def x' f flagged_def)
      next
        case (Some q)
        then show ?thesis using okp(4) linked [of p] pk(3) by (auto simp: link_ok_def x' f flagged_def)
      qed
      moreover have "refs_ok E p x"
      proof -
        have "k_refs x = k_refs par" "k_parent x = k_parent par" by (simp_all add: x')
        then show ?thesis using okp(5) unfolding refs_ok_def by metis
      qed
      ultimately show ?thesis using 2 okp(1) f(1) by simp
    next
      case 3
      then have xs: "keys s j = Some x" using x at(3) by simp
      note o = registry_okD [OF ok xs]
      have "k \<notin> set (k_subkeys x)"
      proof
        assume "k \<in> set (k_subkeys x)"
        then show False using subkey_parent [OF ok xs] key(1,2) 3(2) by (metis option.inject)
      qed
      then have "subkeys_ok ?s j x" by (intro subkeys_ok_cong [OF o(2) f(3)] child) auto
      moreover have "link_ok ?s j x"
      proof (cases "k_parent x")
        case None
        then show ?thesis using o(4) by (simp add: link_ok_def f)
      next
        case (Some q)
        then show ?thesis using o(4) linked [OF 3(1)] by (auto simp: link_ok_def f)
      qed
      ultimately show ?thesis using o f(1) by (simp add: vals)
    qed
  qed
  moreover have "keys ?s (root_key ?s) \<noteq> None" using ok pk(2) at by (cases "root_key s = p") (auto simp: registry_ok_def f)
  moreover have "keys ?s j \<noteq> None" if "j \<in># E" for j
    using that ok at by (cases "j = k"; cases "j = p") (auto simp: registry_ok_def)
  ultimately show ?thesis unfolding registry_ok_def by blast
qed

lemma leaf_out_cut:
  assumes ok: "registry_ok E s" and key: "keys s k = Some key" "k_parent key = Some p" "k_subkeys key = []" and par: "keys s p = Some par"
  shows "cut_off E {k} s (leaf_out E k key p par n s)"
proof -
  have pk: "p \<noteq> k" using parent_subkey [OF ok key(1,2)] by auto
  have same: "filter (\<lambda>c. c \<noteq> k) (k_subkeys x) = k_subkeys x" if "j \<noteq> p" "keys s j = Some x" for j x
  proof (rule filter_True, rule ballI, rule notI)
    fix c assume "c \<in> set (k_subkeys x)" "c = k"
    then show False using subkey_parent [OF ok that(2)] key(1,2) that(1) by (metis option.inject)
  qed
  have "map_option (trimmed {}) (keys (leaf_out E k key p par n s) j) = map_option (trimmed {k}) (keys s j)" if "j \<noteq> k" for j
    using that par pk same [of j] by (cases "j = p"; cases "keys s j") (auto simp: leaf_out_def trimmed_def core_def)
  then show ?thesis using key pk by (auto simp: cut_off_def leaf_out_def orphaned_def)
qed

lemma release_leaf:
  assumes "keys s k = Some key" "k_subkeys key = []" "0 < k_refs key"
  shows "\<exists>m. release_key k s = Some (s\<lparr>keys := (keys s)(k := if 1 < k_refs key then Some (key\<lparr>k_refs := k_refs key - 1\<rparr>) else None), signalled := m\<rparr>)"
proof (cases "1 < k_refs key")
  case True
  then have "release_key k s = Some (s\<lparr>keys := (keys s)(k := Some (key\<lparr>k_refs := k_refs key - 1\<rparr>)), signalled := signalled s\<rparr>)"
    using assms by (simp add: release_key_def set_key_def)
  then show ?thesis using True by (intro exI [of _ "signalled s"]) simp
next
  case False
  then have "release_key k s = Some (s\<lparr>keys := (keys s)(k := None), signalled := signalled s @ List.map_filter n_event (notify_list key)\<rparr>)"
    using assms by (simp add: release_key_def set_key_def fire_def)
  then show ?thesis using False by auto
qed

lemma free_leaf_ok:
  assumes ok: "registry_ok E s" and key: "keys s k = Some key" "k_parent key = Some p" "k_subkeys key = []" and par: "keys s p = Some par"
  shows "\<exists>s'. (do { s \<leftarrow> free_subkey p (int (index_of k (k_subkeys par))) s; touch_key p REG_NOTIFY_CHANGE_NAME s }) = Some s' \<and>
    registry_ok E s' \<and> cut_off E {k} s s'"
proof -
  let ?i = "index_of k (k_subkeys par)"
  have k: "k \<in> set (k_subkeys par)" "p \<noteq> k" using parent_subkey [OF ok key(1,2)] par by auto
  note i = index_of_facts [OF k(1)]
  define ks where "ks = filter (\<lambda>c. c \<noteq> k) (k_subkeys par)"
  have ks: "delete_at ?i (k_subkeys par) = ks"
    using i subkeys_distinct [OF ok par] by (simp add: distinct_remove1_removeAll removeAll_filter_not_eq ks_def eq_commute)
  have nb: "length ks \<le> nb_subkeys par" "nb_subkeys par = 0 \<or> 8 \<le> nb_subkeys par"
    using registry_okD(2) [OF ok par] le_trans [OF length_filter_le [of "\<lambda>c. c \<noteq> k" "k_subkeys par"]] by (auto simp: subkeys_ok_def ks_def)
  define key1 where "key1 = key\<lparr>k_flags := k_flags key OR KEY_DELETED, k_parent := None\<rparr>"
  define s1 where "s1 = set_key k key1 (set_key p (par\<lparr>k_subkeys := ks\<rparr>) s)"
  have refs: "k_refs key1 = k_refs key" "k_refs key = count E k + 1" and leaf1: "k_subkeys key1 = []"
    using registry_okD(5) [OF ok key(1)] key(2,3) by (simp_all add: refs_ok_def key1_def)
  have at1: "keys s1 k = Some key1" by (simp add: s1_def set_key_def)
  define ko where "ko = (if 1 < k_refs key1 then Some (key1\<lparr>k_refs := k_refs key1 - 1\<rparr>) else None)"
  obtain m where m: "release_key k s1 = Some (s1\<lparr>keys := (keys s1)(k := ko), signalled := m\<rparr>)"
    using release_leaf [OF at1 leaf1] refs unfolding ko_def by auto
  define s2 where "s2 = s1\<lparr>keys := (keys s1)(k := ko), signalled := m\<rparr>"
  have p2: "keys s2 p = Some (par\<lparr>k_subkeys := ks\<rparr>)" using k(2) by (simp add: s2_def s1_def set_key_def)
  obtain n s3 where sh: "shrink (length ks) (nb_subkeys par) s2 = (n, s3)" by fastforce
  note f = shrink_facts [OF sh]
  define s4 where "s4 = set_key p (par\<lparr>k_subkeys := ks, nb_subkeys := n\<rparr>) s3"
  have "free_subkey p (int ?i) s = do { s \<leftarrow> release_key k s1; par \<leftarrow> keys s p;
      case shrink (length (k_subkeys par)) (nb_subkeys par) s of (nb, s) \<Rightarrow> Some (set_key p (par\<lparr>nb_subkeys := nb\<rparr>) s) }"
    unfolding s1_def key1_def ks [symmetric] using par i key(1) by (simp add: free_subkey_def read_at_def)
  then have free: "free_subkey p (int ?i) s = Some s4" using m [folded s2_def] p2 sh by (simp add: s4_def)
  have one: "ko = (if k \<in># E then Some (key\<lparr>k_refs := k_refs key - 1, k_flags := k_flags key OR KEY_DELETED, k_parent := None\<rparr>) else None)"
    by (simp add: ko_def refs) (simp add: key1_def)
  have "same_tree (leaf_out E k key p par n s) s2'" if "s2' = set_key p (par\<lparr>k_subkeys := ks, nb_subkeys := n\<rparr>) s2" for s2'
    using that k(2) unfolding s2_def s1_def one by (auto simp: same_tree_def leaf_out_def set_key_def ks_def)
  moreover have "same_tree (set_key p (par\<lparr>k_subkeys := ks, nb_subkeys := n\<rparr>) s2) s4"
    using f by (auto simp: same_tree_def s4_def set_key_def)
  ultimately have t4: "same_tree (leaf_out E k key p par n s) s4" using same_tree_trans by blast
  have ok4: "registry_ok E (leaf_out E k key p par n s)"
    by (rule leaf_out_ok [OF ok key par]) (use f nb in \<open>auto simp: ks_def\<close>)
  have r4: "rooted s4" by (rule registry_ok_rooted [OF same_tree_ok [OF t4 ok4]])
  have "keys s4 p = Some (par\<lparr>k_subkeys := ks, nb_subkeys := n\<rparr>)" by (simp add: s4_def set_key_def)
  then obtain s' where s': "touch_key p REG_NOTIFY_CHANGE_NAME s4 = Some s'" "same_tree s4 s'" using touch_key_ok [OF r4] by blast
  have st: "same_tree (leaf_out E k key p par n s) s'" by (rule same_tree_trans [OF t4 s'(2)])
  show ?thesis using free s'(1) same_tree_ok [OF st ok4] cut_then [OF leaf_out_cut [OF ok key par] st] by simp
qed

subsection \<open>Subtrees\<close>

lemma links_cut:
  assumes "cut_off E D s s'"
  shows "(a, b) \<in> links s' \<longleftrightarrow> (a, b) \<in> links s \<and> b \<notin> D"
proof (cases "b \<in> D")
  case True
  then show ?thesis using cut_inside [OF assms] by (force simp: links_def orphaned_def)
next
  case False
  note o = cut_outside [OF assms False]
  show ?thesis
  proof (cases "keys s b")
    case None
    then have "keys s' b = None" using o by blast
    then show ?thesis using None by (simp add: links_def)
  next
    case (Some x)
    then obtain y where y: "keys s' b = Some y" "trimmed {} y = trimmed D x" using o by blast
    then show ?thesis using Some False trimmed_sel(4) [OF y(2)] by (simp add: links_def)
  qed
qed

lemma links_less: "registry_ok E s \<Longrightarrow> (a, b) \<in> links s \<Longrightarrow> a < b"
  using parent_subkey unfolding links_def by blast

lemma below_less: "registry_ok E s \<Longrightarrow> j \<in> below s k \<Longrightarrow> k < j"
  unfolding below_def mem_Collect_eq by (erule trancl_induct) (auto dest: links_less intro: order.strict_trans)

lemma below_subkeys:
  assumes "registry_ok E s" "keys s k = Some key"
  shows "k_subkeys key = [] \<Longrightarrow> below s k = {}" "set (k_subkeys key) \<subseteq> below s k"
proof -
  have l: "(k, c) \<in> links s \<longleftrightarrow> c \<in> set (k_subkeys key)" for c
  proof
    assume "(k, c) \<in> links s"
    then obtain child where "keys s c = Some child" "k_parent child = Some k" by (auto simp: links_def)
    from parent_subkey [OF assms(1) this] show "c \<in> set (k_subkeys key)" using assms(2) by auto
  next
    assume "c \<in> set (k_subkeys key)"
    from subkey_parent [OF assms this] show "(k, c) \<in> links s" by (auto simp: links_def)
  qed
  show "k_subkeys key = [] \<Longrightarrow> below s k = {}" using l by (auto simp: below_def dest!: tranclD)
  show "set (k_subkeys key) \<subseteq> below s k" using l by (auto simp: below_def)
qed

lemma below_split:
  assumes c: "cut_off E D s s'" and D: "D = insert c (below s c)" and l: "(k, c) \<in> links s"
  shows "below s k = D \<union> below s' k" "D \<inter> below s' k = {}"
proof -
  note lc = links_cut [OF c]
  have closed: "b \<in> D" if "a \<in> D" "(a, b) \<in> links s" for a b
    using that by (auto simp: D below_def intro: trancl_into_trancl)
  have fwd: "j \<in> D \<union> below s' k" if "(k, j) \<in> (links s)\<^sup>+" for j
    using that
  proof (induction rule: trancl_induct)
    case (base y)
    then show ?case using lc by (auto simp: below_def)
  next
    case (step y z)
    then show ?case using lc [of y z] closed by (auto simp: below_def intro: trancl_into_trancl)
  qed
  have "links s' \<subseteq> links s" using lc by auto
  then have sub: "below s' k \<subseteq> below s k" unfolding below_def using trancl_mono by blast
  have "D \<subseteq> below s k" using l by (auto simp: D below_def intro: trancl_into_trancl2)
  then show "below s k = D \<union> below s' k" using fwd sub by (auto simp: below_def)
  have "j \<notin> D" if "(k, j) \<in> (links s')\<^sup>+" for j using that by (rule tranclE) (auto simp: lc)
  then show "D \<inter> below s' k = {}" by (auto simp: below_def)
qed

text \<open>The attached keys younger than \<open>k\<close>, which bound the recursion.\<close>

definition younger :: "registry \<Rightarrow> nat \<Rightarrow> nat set" where
  "younger s k = {j. k < j \<and> (\<exists>p. (p, j) \<in> links s)}"

lemma younger_finite: "registry_ok E s \<Longrightarrow> younger s k \<subseteq> {Suc k..<next_key s}"
  using registry_okD(1) by (fastforce simp: younger_def links_def)

lemma younger_subkey: "registry_ok E s \<Longrightarrow> (k, c) \<in> links s \<Longrightarrow> card (younger s c) < card (younger s k)"
proof -
  assume ok: "registry_ok E s" and l: "(k, c) \<in> links s"
  have "k < c" by (rule links_less [OF ok l])
  then have "younger s c \<subset> younger s k" using l by (auto simp: younger_def)
  then show ?thesis using psubset_card_mono finite_subset [OF younger_finite [OF ok]] by blast
qed

lemma younger_cut: "registry_ok E s \<Longrightarrow> cut_off E D s s' \<Longrightarrow> c \<in> D \<Longrightarrow> (k, c) \<in> links s \<Longrightarrow> card (younger s' k) < card (younger s k)"
proof -
  assume ok: "registry_ok E s" and c: "cut_off E D s s'" "c \<in> D" "(k, c) \<in> links s"
  have "k < c" by (rule links_less [OF ok c(3)])
  then have "younger s' k \<subset> younger s k" using c(2,3) links_cut [OF c(1)] by (auto simp: younger_def)
  then show ?thesis using psubset_card_mono finite_subset [OF younger_finite [OF ok]] by blast
qed

subsection \<open>Deleting a subtree\<close>

lemma delete_tree_ok:
  "registry_ok E s \<Longrightarrow> keys s k = Some key \<Longrightarrow>
   (k_parent key \<noteq> None \<longrightarrow> 2 * card (younger s k) + 2 \<le> n \<longrightarrow>
      (\<exists>s'. delete_key_n n k True s = Some (True, s') \<and> registry_ok E s' \<and> cut_off E (insert k (below s k)) s s')) \<and>
   (2 * card (younger s k) + 1 \<le> n \<longrightarrow>
      (\<exists>s'. delete_subkeys n k s = Some (True, s') \<and> registry_ok E s' \<and> cut_off E (below s k) s s'))"
proof (induction n arbitrary: s k key)
  case (Suc n)
  note ok = Suc.prems(1) and key = Suc.prems(2)
  show ?case
  proof (intro conjI impI)
    assume "k_parent key \<noteq> None" and n: "2 * card (younger s k) + 2 \<le> Suc n"
    then obtain p where p: "k_parent key = Some p" by auto
    obtain par where par: "keys s p = Some par" "p < k" "k \<noteq> root_key s" "\<not> flagged key KEY_DELETED"
      using parent_subkey [OF ok key p] by blast
    obtain s1 where s1: "delete_subkeys n k s = Some (True, s1)" "registry_ok E s1" "cut_off E (below s k) s s1"
      using Suc.IH [OF ok key] n by auto
    have out: "k \<notin> below s k" "p \<notin> below s k" using below_less [OF ok] par(2) by (fastforce, fastforce)
    obtain key1 where key1: "keys s1 k = Some key1" "trimmed {} key1 = trimmed (below s k) key" using cut_outside [OF s1(3) out(1)] key by blast
    obtain par1 where par1: "keys s1 p = Some par1" using cut_outside [OF s1(3) out(2)] par(1) by blast
    have p1: "k_parent key1 = Some p" using trimmed_sel(4) [OF key1(2)] p by simp
    have leaf: "k_subkeys key1 = []" using trimmed_sel(1) [OF key1(2)] below_subkeys(2) [OF ok key] by (auto simp: filter_empty_conv)
    have mem: "k \<in> set (k_subkeys par1)" using parent_subkey [OF s1(2) key1(1) p1] par1 by auto
    obtain s' where s': "(do { s \<leftarrow> free_subkey p (int (index_of k (k_subkeys par1))) s1; touch_key p REG_NOTIFY_CHANGE_NAME s }) = Some s'"
        "registry_ok E s'" "cut_off E {k} s1 s'" using free_leaf_ok [OF s1(2) key1(1) p1 leaf par1] by blast
    have "delete_key_n (Suc n) k True s = Some (True, s')"
      using key p par(3,4) s1(1) key1(1) par1 mem leaf s'(1) by (cases "free_subkey p (int (index_of k (k_subkeys par1))) s1") simp_all
    moreover have "cut_off E (insert k (below s k)) s s'" using cut_trans [OF s1(3) s'(3)] out(1) by simp
    ultimately show "\<exists>s'. delete_key_n (Suc n) k True s = Some (True, s') \<and> registry_ok E s' \<and> cut_off E (insert k (below s k)) s s'"
      using s'(2) by blast
  next
    assume n: "2 * card (younger s k) + 1 \<le> Suc n"
    show "\<exists>s'. delete_subkeys (Suc n) k s = Some (True, s') \<and> registry_ok E s' \<and> cut_off E (below s k) s s'"
    proof (cases "k_subkeys key = []")
      case True
      then show ?thesis using key ok below_subkeys(1) [OF ok key True] by simp
    next
      case False
      define c where "c = last (k_subkeys key)"
      obtain child where child: "keys s c = Some child" "k_parent child = Some k" "k < c"
        using subkey_parent [OF ok key, of c] last_in_set [OF False] unfolding c_def by blast
      have l: "(k, c) \<in> links s" using child by (simp add: links_def)
      obtain s1 where s1: "delete_key_n n c True s = Some (True, s1)" "registry_ok E s1" "cut_off E (insert c (below s c)) s s1"
        using Suc.IH [OF ok child(1)] child(2) younger_subkey [OF ok l] n by auto
      have "k \<notin> insert c (below s c)" using below_less [OF ok, of k c] child(3) by auto
      then obtain key1 where key1: "keys s1 k = Some key1" using cut_outside [OF s1(3)] key by blast
      obtain s2 where s2: "delete_subkeys n k s1 = Some (True, s2)" "registry_ok E s2" "cut_off E (below s1 k) s1 s2"
        using Suc.IH [OF s1(2) key1] younger_cut [OF ok s1(3) insertI1 l] n by auto
      note b = below_split [OF s1(3) refl l]
      have "cut_off E (below s k) s s2" using cut_trans [OF s1(3) s2(3) b(2)] b(1) by simp
      then show ?thesis using key False s1(1) s2(1,2) by (simp add: c_def)
    qed
  qed
qed simp

lemma delete_key_ok:
  assumes ok: "registry_ok E s" and key: "keys s k = Some key"
  shows "\<exists>b s'. delete_key k recurse s = Some (b, s') \<and> registry_ok E s' \<and>
    (if k = root_key s then \<not> b \<and> s' = set_error STATUS_ACCESS_DENIED s
     else if flagged key KEY_DELETED then \<not> b \<and> s' = set_error STATUS_KEY_DELETED s
     else if \<not> recurse \<and> k_subkeys key \<noteq> [] then \<not> b \<and> s' = set_error STATUS_ACCESS_DENIED s
     else b \<and> cut_off E (insert k (below s k)) s s')"
proof -
  have err: "registry_ok E (set_error e s)" for e by (rule same_tree_ok [OF same_tree_fields(3) ok])
  note o = registry_okD [OF ok key]
  consider "k = root_key s" | (gone) "k \<noteq> root_key s" "flagged key KEY_DELETED"
    | (live) p par where "k \<noteq> root_key s" "\<not> flagged key KEY_DELETED" "k_parent key = Some p" "keys s p = Some par" "k \<in> set (k_subkeys par)"
    using o(4) by (auto simp: link_ok_def split: option.splits)
  then show ?thesis
  proof cases
    case 1
    then show ?thesis using key err by (intro exI [of _ False]) (simp add: delete_key_def)
  next
    case gone
    then show ?thesis using key err by (intro exI [of _ False]) (simp add: delete_key_def)
  next
    case live
    show ?thesis
    proof (cases recurse)
      case True
      have "card (younger s k) \<le> next_key s" using card_mono [OF _ younger_finite [OF ok, of k]] by simp
      then have "2 * card (younger s k) + 2 \<le> 2 * next_key s + 2" by simp
      then obtain s' where "delete_key_n (2 * next_key s + 2) k True s = Some (True, s')" "registry_ok E s'" "cut_off E (insert k (below s k)) s s'"
        using delete_tree_ok [OF ok key] live(3) by (metis option.distinct(1))
      then show ?thesis using live(1,2) True unfolding delete_key_def by auto
    next
      case False
      have del: "delete_key k False s = (if k_subkeys key \<noteq> [] then Some (False, set_error STATUS_ACCESS_DENIED s)
          else do { s \<leftarrow> free_subkey p (int (index_of k (k_subkeys par))) s; s \<leftarrow> touch_key p REG_NOTIFY_CHANGE_NAME s; Some (True, s) })"
        using key live by (simp add: delete_key_def)
      show ?thesis
      proof (cases "k_subkeys key = []")
        case leaf: True
        obtain s' where s': "(do { s \<leftarrow> free_subkey p (int (index_of k (k_subkeys par))) s; touch_key p REG_NOTIFY_CHANGE_NAME s }) = Some s'"
            "registry_ok E s'" "cut_off E {k} s s'" using free_leaf_ok [OF ok key live(3) leaf live(4)] by blast
        then have "delete_key k False s = Some (True, s')"
          using del leaf by (cases "free_subkey p (int (index_of k (k_subkeys par))) s") simp_all
        then show ?thesis using live(1,2) False leaf s'(2,3) below_subkeys(1) [OF ok key leaf] by (intro exI [of _ True]) simp
      qed (use del live(1,2) False err in \<open>intro exI [of _ False], simp\<close>)
    qed
  qed
qed

text \<open>
  C14: deleting a key always ends, however deep the tree below it is, and keeps the invariant of the registry.  The root
  key and keys that have subkeys (when the deletion does not recurse) are refused, as are keys that are
  deleted already; every other deletion succeeds: the key and, with \<^verbatim>\<open>recurse\<close>, everything below it is out of the
  tree, the keys that are open are marked and keep their values, the others are freed, and the rest of the tree
  is as before.
\<close>

theorem delete_key_correct:
  assumes "registry_ok E s" "keys s k = Some key"
  shows "\<exists>b s'. delete_key k recurse s = Some (b, s') \<and> registry_ok E s' \<and>
    (if k = root_key s then \<not> b \<and> s' = set_error STATUS_ACCESS_DENIED s
     else if flagged key KEY_DELETED then \<not> b \<and> s' = set_error STATUS_KEY_DELETED s
     else if \<not> recurse \<and> k_subkeys key \<noteq> [] then \<not> b \<and> s' = set_error STATUS_ACCESS_DENIED s
     else b \<and> cut_off E (insert k (below s k)) s s')"
  by (rule delete_key_ok [OF assms])

lemma sample_below: "below sample_registry 1 = {2}"
proof -
  have l: "(p, c) \<in> links sample_registry \<longleftrightarrow> p = 0 \<and> c = 1 \<or> p = 1 \<and> c = 2" for p c
  proof -
    have "k_parent sample_root = None" "k_parent sample_soft = Some 0" "k_parent sample_wine = Some 1"
      by (simp_all add: sample_root_def sample_soft_def sample_wine_def)
    moreover have "keys sample_registry = [0 \<mapsto> sample_root, 1 \<mapsto> sample_soft, 2 \<mapsto> sample_wine]" by (simp add: sample_registry_def)
    ultimately show ?thesis by (cases "c = 0"; cases "c = 1"; cases "c = 2") (auto simp: links_def)
  qed
  have "j = 2" if "(1, j) \<in> (links sample_registry)\<^sup>+" for j
    using that
  proof (induction rule: trancl_induct)
    case (base y)
    then show ?case using l [of 1 y] by simp
  next
    case (step y z)
    then show ?case using l [of y z] by simp
  qed
  moreover have "(1, 2) \<in> links sample_registry" using l [of 1 2] by simp
  ultimately show ?thesis unfolding below_def by blast
qed

theorem delete_key_correct_witness:
  "(\<exists>s'. delete_key 1 False sample_registry = Some (False, s') \<and> get_error s' = STATUS_ACCESS_DENIED) \<and>
   (\<exists>s' key. delete_key 1 True sample_registry = Some (True, s') \<and> keys s' 1 = None \<and> keys s' 2 = Some key \<and> flagged key KEY_DELETED \<and>
      registry_ok {#0, 2#} s')"
proof -
  have f: "1 \<noteq> root_key sample_registry" "\<not> flagged sample_soft KEY_DELETED" "k_subkeys sample_soft \<noteq> []"
    by (simp_all add: sample_registry_def sample_soft_def flagged_def)
  have k1: "keys sample_registry 1 = Some sample_soft" by simp
  have sub: "insert 1 (below sample_registry 1) = {1, 2}" unfolding sample_below by (rule refl)
  obtain b s' where s': "delete_key 1 True sample_registry = Some (b, s')" "registry_ok {#0, 2#} s'"
      "b \<and> cut_off {#0, 2#} {1, 2} sample_registry s'"
    using delete_key_correct [OF sample_registry_ok k1, of True] unfolding sub if_not_P [OF f(1)] if_not_P [OF f(2)] by auto
  have cut: "cut_off {#0, 2#} {1, 2} sample_registry s'" and b: "b = True" using s'(3) by simp_all
  have "keys s' 1 = None" using cut by (simp add: cut_off_def)
  moreover have "\<exists>key. keys s' 2 = Some key \<and> flagged key KEY_DELETED"
    using cut_orphan [OF cut, of 2] by (auto simp: orphaned_def)
  moreover obtain b2 t where "delete_key 1 False sample_registry = Some (b2, t)" "\<not> b2 \<and> t = set_error STATUS_ACCESS_DENIED sample_registry"
    using delete_key_correct [OF sample_registry_ok k1, of False] unfolding if_not_P [OF f(1)] if_not_P [OF f(2)] using f(3) by auto
  moreover have "get_error (set_error STATUS_ACCESS_DENIED sample_registry) = STATUS_ACCESS_DENIED" by simp
  ultimately show ?thesis using s'(1,2) b by auto
qed

end
