(* ===== verification/Registry_Create.thy ===== *)
theory Registry_Create
  imports Registry_Delete
begin

text \<open>
  Paths: opening a key follows its tokens from subkey to subkey, creating one adds the keys that are missing.
\<close>

subsection \<open>Following a path\<close>

function tokens :: "wchar list \<Rightarrow> wchar list list" where
  "tokens rest = (case next_token rest of (t, r) \<Rightarrow> if t = [] then [] else t # tokens r)"
  by pat_completeness auto
termination
  by (relation "measure length") (auto dest!: next_token_shorter [OF sym] simp: neq_Nil_conv)

declare tokens.simps [simp del]

definition path_tokens :: "wchar list \<Rightarrow> wchar list list" where
  "path_tokens path = (case token_at path of (t, r) \<Rightarrow> if t = [] then [] else t # tokens r)"

definition child_named :: "registry \<Rightarrow> nat \<Rightarrow> wchar list \<Rightarrow> nat option" where
  "child_named s k name = (case keys s k of None \<Rightarrow> None | Some key \<Rightarrow> find (\<lambda>c. key_name s c = same_name s name) (k_subkeys key))"

fun follow :: "registry \<Rightarrow> nat \<Rightarrow> wchar list list \<Rightarrow> nat option" where
  "follow s k [] = Some k"
| "follow s k (t # ts) = (case child_named s k t of None \<Rightarrow> None | Some c \<Rightarrow> follow s c ts)"

lemma follow_append: "follow s k (ts @ us) = (case follow s k ts of None \<Rightarrow> None | Some c \<Rightarrow> follow s c us)"
  by (induction ts arbitrary: k) (auto split: option.split)

lemma find_distinct:
  "distinct (map f xs) \<Longrightarrow> x \<in> set xs \<Longrightarrow> f x = a \<Longrightarrow> find (\<lambda>c. f c = a) xs = Some x"
  by (induction xs) (auto simp: image_iff)

lemma names_distinct: "registry_ok E s \<Longrightarrow> keys s k = Some key \<Longrightarrow> distinct (map (key_name s) (k_subkeys key))"
  using registry_okD(2) unfolding subkeys_ok_def strict_sorted_iff by blast

lemma links_subkeys: "registry_ok E s \<Longrightarrow> keys s k = Some key \<Longrightarrow> (k, c) \<in> links s \<longleftrightarrow> c \<in> set (k_subkeys key)"
proof
  assume ok: "registry_ok E s" and key: "keys s k = Some key"
  show "c \<in> set (k_subkeys key)" if l: "(k, c) \<in> links s"
  proof -
    obtain child where "keys s c = Some child" "k_parent child = Some k" using l by (auto simp: links_def)
    from parent_subkey [OF ok this] show ?thesis using key by auto
  qed
  show "(k, c) \<in> links s" if "c \<in> set (k_subkeys key)"
    using subkey_parent [OF ok key that] by (auto simp: links_def)
qed

lemma child_named_iff:
  assumes ok: "registry_ok E s"
  shows "child_named s k t = Some c \<longleftrightarrow> (k, c) \<in> links s \<and> key_name s c = same_name s t"
proof (cases "keys s k")
  case None
  have "(k, c) \<notin> links s"
  proof
    assume "(k, c) \<in> links s"
    then obtain child where "keys s c = Some child" "k_parent child = Some k" by (auto simp: links_def)
    from parent_subkey [OF ok this] show False using None by auto
  qed
  then show ?thesis using None by (simp add: child_named_def)
next
  case (Some key)
  have "child_named s k t = find (\<lambda>c. key_name s c = same_name s t) (k_subkeys key)" using Some by (simp add: child_named_def)
  then show ?thesis using links_subkeys [OF ok Some, of c] find_distinct [OF names_distinct [OF ok Some], of c]
    by (auto dest: find_Some_iff [THEN iffD1])
qed

lemma find_subkey_named:
  assumes ok: "registry_ok E s" and key: "keys s k = Some key"
  shows "\<exists>i. find_subkey k name s = Some (child_named s k name, i) \<and>
    (child_named s k name = None \<longrightarrow> placed (map (key_name s) (k_subkeys key)) (same_name s name) (False, i))"
proof -
  obtain b i where f: "placed (map (key_name s) (k_subkeys key)) (same_name s name) (b, i)"
      "find_subkey k name s = Some (if b then Some (k_subkeys key ! nat i) else None, i)"
    using find_subkey_placed [OF ok key] by blast
  have sorted: "sorted_wrt (<) (map (key_name s) (k_subkeys key))" using registry_okD(2) [OF ok key] by (simp add: subkeys_ok_def)
  note w = placed_whether [OF f(1) sorted]
  show ?thesis
  proof (cases b)
    case True
    then have i: "nat i < length (k_subkeys key)" "key_name s (k_subkeys key ! nat i) = same_name s name" using w by (auto simp: nat_less_iff)
    have "child_named s k name = Some (k_subkeys key ! nat i)"
      unfolding child_named_iff [OF ok] links_subkeys [OF ok key] using i by simp
    then show ?thesis using f(2) True by simp
  next
    case False
    have "child_named s k name \<noteq> Some c" for c
      unfolding child_named_iff [OF ok] links_subkeys [OF ok key] using w False by force
    then have "child_named s k name = None" by (cases "child_named s k name") auto
    then show ?thesis using f False by simp
  qed
qed

definition toks :: "wchar list \<Rightarrow> wchar list \<Rightarrow> wchar list list" where
  "toks t r = (if t = [] then [] else t # tokens r)"

lemma tokens_next: "next_token rest = (t, r) \<Longrightarrow> tokens rest = toks t r"
  by (subst tokens.simps) (simp add: toks_def)

text \<open>Keys in the tree: a key that a subkey can be made below.\<close>

definition live :: "registry \<Rightarrow> nat \<Rightarrow> bool" where
  "live s k \<longleftrightarrow> (\<exists>key. keys s k = Some key \<and> \<not> flagged key KEY_DELETED)"

lemma live_child: "registry_ok E s \<Longrightarrow> (k, c) \<in> links s \<Longrightarrow> live s c"
  using parent_subkey [of E s c _ k] unfolding links_def live_def by blast

lemma live_follow: "registry_ok E s \<Longrightarrow> live s k \<Longrightarrow> follow s k ts = Some c \<Longrightarrow> live s c"
  by (induction ts arbitrary: k) (auto simp: child_named_iff dest: live_child split: option.splits)

lemma walk_ok:
  assumes ok: "registry_ok E s"
  shows "keys s k \<noteq> None \<Longrightarrow> \<exists>p t r i. walk k token rest index s = Some (p, t, r, i) \<and> keys s p \<noteq> None \<and> (live s k \<longrightarrow> live s p) \<and>
    (if t = [] then follow s k (toks token rest) = Some p
     else \<exists>ts key. toks token rest = ts @ t # tokens r \<and> follow s k ts = Some p \<and> child_named s p t = None \<and> keys s p = Some key \<and>
       placed (map (key_name s) (k_subkeys key)) (same_name s t) (False, i))"
proof (induction "length token + length rest" arbitrary: k token rest index rule: less_induct)
  case less
  obtain key where key: "keys s k = Some key" using less.prems by auto
  show ?case
  proof (cases "token = []")
    case True
    then show ?thesis using less.prems by (subst walk.simps) (simp add: toks_def)
  next
    case False
    obtain i where f: "find_subkey k token s = Some (child_named s k token, i)"
        "child_named s k token = None \<longrightarrow> placed (map (key_name s) (k_subkeys key)) (same_name s token) (False, i)"
      using find_subkey_named [OF ok key] by blast
    show ?thesis
    proof (cases "child_named s k token")
      case None
      have "walk k token rest index s = Some (k, token, rest, i)" using False f(1) None by (subst walk.simps) simp
      then show ?thesis using False None f(2) key less.prems
        by (intro exI [of _ k] exI [of _ token] exI [of _ rest] exI [of _ i]) (auto simp: toks_def)
    next
      case (Some c)
      obtain t r where nt: "next_token rest = (t, r)" by fastforce
      have w: "walk k token rest index s = walk c t r i s" using False f(1) Some nt by (subst walk.simps) simp
      have c: "live s c" using Some live_child [OF ok] unfolding child_named_iff [OF ok] by blast
      have "length t + length r < length token + length rest" using next_token_shorter [OF nt] False by (cases token) auto
      moreover have ck: "keys s c \<noteq> None" using c by (auto simp: live_def)
      ultimately obtain p t' r' i' where ih: "walk c t r i s = Some (p, t', r', i')" "keys s p \<noteq> None" "live s p"
          "if t' = [] then follow s c (toks t r) = Some p
           else \<exists>ts key. toks t r = ts @ t' # tokens r' \<and> follow s c ts = Some p \<and> child_named s p t' = None \<and> keys s p = Some key \<and>
             placed (map (key_name s) (k_subkeys key)) (same_name s t') (False, i')" using less.hyps [of t r c i] c by blast
      have tk: "toks token rest = token # toks t r" using False tokens_next [OF nt] by (simp add: toks_def)
      show ?thesis
      proof (cases "t' = []")
        case True
        then show ?thesis using w ih tk Some by (intro exI [of _ p] exI [of _ t'] exI [of _ r'] exI [of _ i']) simp
      next
        case t': False
        then obtain ts key' where "toks t r = ts @ t' # tokens r'" "follow s c ts = Some p" "child_named s p t' = None" "keys s p = Some key'"
            "placed (map (key_name s) (k_subkeys key')) (same_name s t') (False, i')" using ih(4) by auto
        then have "toks token rest = (token # ts) @ t' # tokens r' \<and> follow s k (token # ts) = Some p" using tk Some by simp
        then show ?thesis using w ih(1-3) t' \<open>child_named s p t' = None\<close> \<open>keys s p = Some key'\<close>
            \<open>placed (map (key_name s) (k_subkeys key')) (same_name s t') (False, i')\<close>
          by (intro exI [of _ p] exI [of _ t'] exI [of _ r'] exI [of _ i']) auto
      qed
    qed
  qed
qed

subsection \<open>More keys\<close>

definition extends :: "registry \<Rightarrow> registry \<Rightarrow> bool" where
  "extends s s' \<longleftrightarrow> (\<forall>j x. keys s j = Some x \<longrightarrow> (\<exists>y. keys s' j = Some y \<and> k_name y = k_name x \<and> k_parent y = k_parent x \<and>
      k_values y = k_values x \<and> set (k_subkeys x) \<subseteq> set (k_subkeys y) \<and> flagged y KEY_DELETED = flagged x KEY_DELETED)) \<and>
    lowerW s' = lowerW s \<and> root_key s' = root_key s \<and> now s' = now s"

lemma extendsD:
  assumes "extends s s'" "keys s j = Some x"
  shows "\<exists>y. keys s' j = Some y \<and> k_name y = k_name x \<and> k_parent y = k_parent x \<and> k_values y = k_values x \<and>
    set (k_subkeys x) \<subseteq> set (k_subkeys y) \<and> flagged y KEY_DELETED = flagged x KEY_DELETED"
  using assms unfolding extends_def by blast

lemma extends_refl [simp]: "extends s s"
  by (simp add: extends_def)

lemma extends_trans [trans]:
  assumes "extends s t" "extends t u"
  shows "extends s u"
proof -
  have "\<exists>z. keys u j = Some z \<and> k_name z = k_name x \<and> k_parent z = k_parent x \<and> k_values z = k_values x \<and>
      set (k_subkeys x) \<subseteq> set (k_subkeys z) \<and> flagged z KEY_DELETED = flagged x KEY_DELETED" if x: "keys s j = Some x" for j x
  proof -
    obtain y where y: "keys t j = Some y" "k_name y = k_name x" "k_parent y = k_parent x" "k_values y = k_values x"
        "set (k_subkeys x) \<subseteq> set (k_subkeys y)" "flagged y KEY_DELETED = flagged x KEY_DELETED" using extendsD [OF assms(1) x] by blast
    from extendsD [OF assms(2) y(1)] y show ?thesis by auto
  qed
  then show ?thesis using assms by (simp add: extends_def)
qed

lemma same_shape_extends: "same_shape s s' \<Longrightarrow> now s' = now s \<Longrightarrow> extends s s'"
proof -
  assume st: "same_shape s s'" and n: "now s' = now s"
  have "\<exists>y. keys s' j = Some y \<and> k_name y = k_name x \<and> k_parent y = k_parent x \<and> k_values y = k_values x \<and>
      set (k_subkeys x) \<subseteq> set (k_subkeys y) \<and> flagged y KEY_DELETED = flagged x KEY_DELETED" if x: "keys s j = Some x" for j x
  proof -
    obtain y where y: "keys s' j = Some y" "shape y = shape x" using same_shape_Some [OF st x] by blast
    then show ?thesis using shape_sel [OF y(2)] by simp
  qed
  then show ?thesis using st n by (simp add: extends_def same_shape_def)
qed

lemma same_tree_extends: "same_tree s s' \<Longrightarrow> extends s s'"
  using same_shape_extends same_tree_shape by (simp add: same_tree_def)

lemma live_extends: "extends s s' \<Longrightarrow> live s k \<Longrightarrow> live s' k"
  unfolding live_def using extendsD by blast

lemma child_named_extends:
  assumes ok: "registry_ok E s" "registry_ok E' s'" and e: "extends s s'" and c: "child_named s k t = Some c"
  shows "child_named s' k t = Some c"
proof -
  have c: "(k, c) \<in> links s" "key_name s c = same_name s t" using c unfolding child_named_iff [OF ok(1)] by auto
  obtain x where x: "keys s c = Some x" "k_parent x = Some k" using c(1) by (auto simp: links_def)
  obtain y where y: "keys s' c = Some y" "k_name y = k_name x" "k_parent y = k_parent x" using extendsD [OF e x(1)] by blast
  have "same_name s' = same_name s" using e by (simp add: extends_def same_name_def fun_eq_iff)
  then show ?thesis unfolding child_named_iff [OF ok(2)] using c(2) x y by (simp add: links_def key_name_def)
qed

lemma follow_extends:
  "registry_ok E s \<Longrightarrow> registry_ok E' s' \<Longrightarrow> extends s s' \<Longrightarrow> follow s k ts = Some c \<Longrightarrow> follow s' k ts = Some c"
proof (induction ts arbitrary: k)
  case (Cons t ts)
  obtain d where d: "child_named s k t = Some d" "follow s d ts = Some c" using Cons.prems(4) by (auto split: option.splits)
  show ?case using child_named_extends [OF Cons.prems(1-3) d(1)] Cons.IH [OF Cons.prems(1-3) d(2)] by simp
qed simp

subsection \<open>A new subkey\<close>

abbreviation "fresh_key p name modif \<equiv> \<lparr>k_refs = 1, k_name = name, k_class = [], k_parent = Some p, k_subkeys = [], nb_subkeys = 0,
   k_values = [], nb_values = 0, k_flags = 0, k_modif = modif, notify_list = []\<rparr>"

definition with_subkey :: "nat \<Rightarrow> key \<Rightarrow> wchar list \<Rightarrow> nat \<Rightarrow> nat \<Rightarrow> int \<Rightarrow> registry \<Rightarrow> registry" where
  "with_subkey p par name i n modif s = s\<lparr>next_key := next_key s + 1, keys := (keys s)(next_key s \<mapsto> fresh_key p name modif,
     p \<mapsto> par\<lparr>nb_subkeys := n, k_subkeys := insert_at i (next_key s) (k_subkeys par)\<rparr>)\<rparr>"

lemma next_key_free: "registry_ok E s \<Longrightarrow> keys s (next_key s) = None \<and> next_key s \<notin># E \<and> next_key s \<noteq> root_key s"
  unfolding registry_ok_def by (metis not_None_eq order.irrefl)

lemma with_subkey_ok:
  assumes ok: "registry_ok E s" and par: "keys s p = Some par" "\<not> flagged par KEY_DELETED"
    and i: "placed (map (key_name s) (k_subkeys par)) (same_name s name) (False, int i)"
    and n: "length (k_subkeys par) < n" "8 \<le> n"
  shows "registry_ok E (with_subkey p par name i n modif s)" (is "registry_ok E ?s")
proof -
  define c where "c = next_key s"
  note free = next_key_free [OF ok, folded c_def]
  note okp = registry_okD [OF ok par(1)]
  have pc: "p < c" using okp(1) by (simp add: c_def)
  have f: "next_key ?s = c + 1" "root_key ?s = root_key s" "lowerW ?s = lowerW s" by (simp_all add: with_subkey_def c_def)
  have at: "keys ?s c = Some (fresh_key p name modif)"
    "keys ?s p = Some (par\<lparr>nb_subkeys := n, k_subkeys := insert_at i c (k_subkeys par)\<rparr>)"
    "\<And>j. j \<noteq> c \<Longrightarrow> j \<noteq> p \<Longrightarrow> keys ?s j = keys s j" using pc by (simp_all add: with_subkey_def c_def)
  have sn: "same_name ?s = same_name s" by (simp add: same_name_def f fun_eq_iff)
  have name: "key_name ?s j = key_name s j" if "j \<noteq> c" for j
    using that par(1) at by (cases "j = p") (simp_all add: key_name_def sn split: option.split)
  have new: "key_name ?s c = same_name s name" using at(1) by (simp add: key_name_def sn)
  have child: "\<exists>y. keys ?s j = Some y \<and> k_name y = k_name x \<and> k_parent y = k_parent x" if "keys s j = Some x" for j x
    using that par(1) at free by (cases "j = c"; cases "j = p") auto
  have linked: "\<exists>q. keys ?s a = Some q \<and> j \<in> set (k_subkeys q)" if "keys s a = Some q" "j \<in> set (k_subkeys q)" for j a q
  proof (cases "a = p")
    case True
    then have "q = par" using that(1) par(1) by simp
    then show ?thesis using that(2) True at(2) by (simp add: set_insert_at)
  next
    case False
    have "a \<noteq> c" using that(1) free by auto
    then show ?thesis using that False at(3) by simp
  qed
  have out: "c \<notin> set (k_subkeys q)" if "keys s a = Some q" for a q
    using subkey_parent [OF ok that, of c] free by auto
  have linkok: "link_ok ?s j x" if "keys s j = Some y" "k_parent x = k_parent y" "k_flags x = k_flags y" "k_parent y = None \<Longrightarrow> flagged y KEY_DELETED \<Longrightarrow> k_subkeys x = []" for j x y
    using registry_okD(4) [OF ok that(1)] linked that(2-4) by (auto simp: link_ok_def f flagged_def split: option.splits)
  have "j < next_key ?s \<and> subkeys_ok ?s j x \<and> values_ok ?s x \<and> link_ok ?s j x \<and> refs_ok E j x" if x: "keys ?s j = Some x" for j x
  proof -
    consider "j = c" | "j = p" | "j \<noteq> c" "j \<noteq> p" by blast
    then show ?thesis
    proof cases
      case 1
      then have x': "x = fresh_key p name modif" using x at(1) by simp
      have "link_ok ?s c x" using free at(2) by (simp add: link_ok_def x' f flagged_def set_insert_at)
      moreover have "count E c = 0" using free by (simp add: not_in_iff)
      ultimately show ?thesis using 1 f by (simp add: subkeys_ok_def values_ok_def refs_ok_def x')
    next
      case 2
      then have x': "x = par\<lparr>nb_subkeys := n, k_subkeys := insert_at i c (k_subkeys par)\<rparr>" using x at(2) by simp
      have old: "map (key_name ?s) (k_subkeys par) = map (key_name s) (k_subkeys par)"
        using name out [OF par(1)] by (intro map_cong refl) metis
      have sorted: "sorted_wrt (<) (map (key_name s) (k_subkeys par))" using okp(2) by (simp add: subkeys_ok_def)
      have a: "sorted_wrt (<) (map (key_name ?s) (k_subkeys x))"
        using placed_insert(1) [OF i sorted] by (simp add: x' map_insert_at old new)
      have b: "\<forall>d \<in> set (k_subkeys x). p < d \<and> (\<exists>child. keys ?s d = Some child \<and> k_parent child = Some p)"
      proof
        fix d assume "d \<in> set (k_subkeys x)"
        then consider "d = c" | "d \<in> set (k_subkeys par)" by (auto simp: x' set_insert_at)
        then show "p < d \<and> (\<exists>child. keys ?s d = Some child \<and> k_parent child = Some p)"
        proof cases
          case 2
          obtain y where "keys s d = Some y" "k_parent y = Some p" "p < d" using subkey_parent [OF ok par(1) 2] .
          then show ?thesis using child by fastforce
        qed (use pc at(1) in simp)
      qed
      have "length (k_subkeys x) \<le> n" using n(1) placed_insert(3) [OF i sorted] by (simp add: x' length_insert_at)
      then have "subkeys_ok ?s p x" using a b n(2) unfolding subkeys_ok_def by (simp add: x')
      moreover have "values_ok ?s x" using okp(3) by (simp add: values_ok_def sn x')
      moreover have "link_ok ?s p x" by (rule linkok [OF par(1)]) (use par(2) in \<open>simp_all add: x'\<close>)
      moreover have "k_refs x = k_refs par" "k_parent x = k_parent par" by (simp_all add: x')
      then have "refs_ok E p x" using okp(5) unfolding refs_ok_def by metis
      ultimately show ?thesis using 2 pc f(1) by simp
    next
      case 3
      then have xs: "keys s j = Some x" using x at(3) by simp
      note o = registry_okD [OF ok xs]
      have "subkeys_ok ?s j x" by (intro subkeys_ok_cong [OF o(2) f(3)] child) auto
      moreover have "link_ok ?s j x" by (rule linkok [OF xs]) (use o(4) in \<open>auto simp: link_ok_def\<close>)
      moreover have "values_ok ?s x" using o(3) by (simp add: values_ok_def sn)
      ultimately show ?thesis using o(1,5) f(1) by (simp add: c_def)
    qed
  qed
  moreover have old: "keys ?s j \<noteq> None" if "keys s j \<noteq> None" for j using that child by blast
  have "keys ?s (root_key ?s) \<noteq> None" using ok old unfolding registry_ok_def f(2) by blast
  moreover have "keys ?s j \<noteq> None" if "j \<in># E" for j using that ok old unfolding registry_ok_def by blast
  ultimately show ?thesis unfolding registry_ok_def by blast
qed

lemma with_subkey_extends:
  assumes ok: "registry_ok E s" and par: "keys s p = Some par"
  shows "extends s (with_subkey p par name i n modif s)"
  using next_key_free [OF ok] par by (auto simp: extends_def with_subkey_def set_insert_at flagged_def)

lemma alloc_subkey_eq:
  assumes m: "mem_oracle s = []" and l: "length name \<le> MAX_NAME_LEN" and par: "keys s p = Some par" and p: "p \<noteq> next_key s"
    and n: "n = (if length (k_subkeys par) = nb_subkeys par then if nb_subkeys par = 0 then 8 else nb_subkeys par + nb_subkeys par div 2 else nb_subkeys par)"
    and i: "i \<le> length (k_subkeys par)" "length (k_subkeys par) < n"
  shows "alloc_subkey p name (int i) modif s = Some (Some (next_key s), with_subkey p par name i n modif s)"
proof -
  define s1 where "s1 = set_key p (par\<lparr>nb_subkeys := n\<rparr>) s"
  have m1: "mem_oracle s1 = []" "next_key s1 = next_key s" "keys s1 p = Some (par\<lparr>nb_subkeys := n\<rparr>)" by (simp_all add: s1_def set_key_def m)
  have same: "set_key p (par\<lparr>nb_subkeys := nb_subkeys par\<rparr>) s = s" using par by (simp add: set_key_def fun_upd_idem)
  have room: "(if length (k_subkeys par) = nb_subkeys par then grow_subkeys p s else Some (True, s)) = Some (True, s1)"
    using m par n same by (auto simp: grow_subkeys_def grow_def s1_def)
  define s2 where "s2 = s1\<lparr>next_key := next_key s + 1, keys := (keys s1)(next_key s \<mapsto> (fresh_key p name modif)\<lparr>k_parent := None\<rparr>)\<rparr>"
  have key: "alloc_key name modif s1 = (Some (next_key s), s2)"
    using m1 by (simp add: alloc_key_def s2_def)
  have at2: "keys s2 (next_key s) = Some ((fresh_key p name modif)\<lparr>k_parent := None\<rparr>)" "keys s2 p = Some (par\<lparr>nb_subkeys := n\<rparr>)"
    using p m1(3) by (simp_all add: s2_def)
  have "alloc_subkey p name (int i) modif s = Some (Some (next_key s), set_key p (par\<lparr>nb_subkeys := n, k_subkeys := insert_at i (next_key s) (k_subkeys par)\<rparr>)
      (set_key (next_key s) (fresh_key p name modif) s2))"
    unfolding alloc_subkey_def using l par room key at2 i by simp
  also have "set_key p (par\<lparr>nb_subkeys := n, k_subkeys := insert_at i (next_key s) (k_subkeys par)\<rparr>) (set_key (next_key s) (fresh_key p name modif) s2) =
      with_subkey p par name i n modif s"
    using p by (simp add: with_subkey_def s2_def s1_def set_key_def fun_upd_twist)
  finally show ?thesis .
qed

lemma alloc_subkey_ok:
  assumes ok: "registry_ok E s" and par: "keys s p = Some par" "\<not> flagged par KEY_DELETED"
    and i: "placed (map (key_name s) (k_subkeys par)) (same_name s name) (False, index)"
    and l: "length name \<le> MAX_NAME_LEN" and m: "mem_oracle s = []"
  shows "\<exists>c s' x. alloc_subkey p name index modif s = Some (Some c, s') \<and> registry_ok E s' \<and> extends s s' \<and> mem_oracle s' = [] \<and>
    keys s' c = Some x \<and> k_subkeys x = [] \<and> \<not> flagged x KEY_DELETED \<and> child_named s' p name = Some c"
proof -
  have sub: "length (k_subkeys par) \<le> nb_subkeys par" "nb_subkeys par = 0 \<or> 8 \<le> nb_subkeys par" "sorted_wrt (<) (map (key_name s) (k_subkeys par))"
    using registry_okD(2) [OF ok par(1)] by (auto simp: subkeys_ok_def)
  define n where "n = (if length (k_subkeys par) = nb_subkeys par then if nb_subkeys par = 0 then 8 else nb_subkeys par + nb_subkeys par div 2 else nb_subkeys par)"
  have n: "length (k_subkeys par) < n" "8 \<le> n" using sub(1,2) by (auto simp: n_def)
  have ii: "index = int (nat index)" "nat index \<le> length (k_subkeys par)" using i by (auto simp: placed_def)
  define s' where "s' = with_subkey p par name (nat index) n modif s"
  have p: "p \<noteq> next_key s" using registry_okD(1) [OF ok par(1)] by simp
  have eq: "alloc_subkey p name index modif s = Some (Some (next_key s), s')"
    using alloc_subkey_eq [OF m l par(1) p n_def ii(2) n(1), of modif] ii(1) unfolding s'_def by simp
  have ok': "registry_ok E s'" unfolding s'_def using with_subkey_ok [OF ok par _ n] i ii(1) by simp
  have new: "keys s' (next_key s) = Some (fresh_key p name modif)" using p by (simp add: s'_def with_subkey_def)
  have sn: "same_name s' = same_name s" by (simp add: same_name_def s'_def with_subkey_def fun_eq_iff)
  have "(p, next_key s) \<in> links s' \<and> key_name s' (next_key s) = same_name s' name" using new by (simp add: links_def key_name_def)
  then have "child_named s' p name = Some (next_key s)" unfolding child_named_iff [OF ok'] .
  moreover have "extends s s'" unfolding s'_def by (rule with_subkey_extends [OF ok par(1)])
  moreover have "mem_oracle s' = []" by (simp add: s'_def with_subkey_def m)
  ultimately show ?thesis using eq ok' new by (auto simp: flagged_def)
qed

lemma or_deleted: "flags AND KEY_DELETED = 0 \<Longrightarrow> (f OR flags) AND KEY_DELETED = f AND KEY_DELETED"
  by (simp add: bit.conj_disj_distrib2)

lemma create_rest_ok:
  "registry_ok E s \<Longrightarrow> keys s k = Some key \<Longrightarrow> \<not> flagged key KEY_DELETED \<Longrightarrow> k_subkeys key = [] \<Longrightarrow> mem_oracle s = [] \<Longrightarrow>
   \<forall>t \<in> set (tokens rest). length t \<le> MAX_NAME_LEN \<Longrightarrow> flags AND KEY_DELETED = 0 \<Longrightarrow>
   \<exists>c s'. create_rest k flags rest modif s = Some (Some c, s') \<and> registry_ok E s' \<and> extends s s' \<and> mem_oracle s' = [] \<and>
     live s' c \<and> follow s' k (tokens rest) = Some c"
proof (induction "length rest" arbitrary: k key rest s rule: less_induct)
  case less
  note ok = less.prems(1) and key = less.prems(2)
  define key1 where "key1 = key\<lparr>k_flags := k_flags key OR flags\<rparr>"
  define s1 where "s1 = set_key k key1 s"
  have sh: "shape key1 = shape key" by (simp add: key1_def shape_def or_deleted [OF less.prems(7)])
  have st: "same_shape s s1" unfolding s1_def by (rule same_shape_set_key [OF key sh])
  have ok1: "registry_ok E s1" by (rule same_shape_ok [OF st ok])
  have e1: "extends s s1" by (rule same_shape_extends [OF st]) (simp add: s1_def set_key_def)
  have key1: "keys s1 k = Some key1" "\<not> flagged key1 KEY_DELETED" "k_subkeys key1 = []" "mem_oracle s1 = []"
    using less.prems(3-5) shape_sel [OF sh] by (simp_all add: s1_def set_key_def)
  obtain t r where nt: "next_token rest = (t, r)" by fastforce
  have tk: "tokens rest = toks t r" by (rule tokens_next [OF nt])
  show ?case
  proof (cases "t = []")
    case True
    have "create_rest k flags rest modif s = Some (Some k, s1)"
      using key nt True by (subst create_rest.simps) (simp add: s1_def key1_def)
    then show ?thesis using ok1 e1 key1 tk True by (auto simp: toks_def live_def)
  next
    case False
    have tokens: "tokens rest = t # tokens r" using tk False by (simp add: toks_def)
    then have l: "length t \<le> MAX_NAME_LEN" "\<forall>t \<in> set (tokens r). length t \<le> MAX_NAME_LEN" using less.prems(6) by auto
    have "placed (map (key_name s1) (k_subkeys key1)) (same_name s1 t) (False, 0)" by (simp add: key1(3) placed_def)
    from alloc_subkey_ok [OF ok1 key1(1,2) this l(1) key1(4)]
    obtain c s2 x where c: "alloc_subkey k t 0 modif s1 = Some (Some c, s2)" "registry_ok E s2" "extends s1 s2" "mem_oracle s2 = []"
      "keys s2 c = Some x" "k_subkeys x = []" "\<not> flagged x KEY_DELETED" "child_named s2 k t = Some c" by blast
    have "length r < length rest" using next_token_shorter [OF nt] False by (cases t) auto
    from less.hyps [OF this c(2,5,7,6,4) l(2) less.prems(7)]
    obtain d s3 where d: "create_rest c flags r modif s2 = Some (Some d, s3)" "registry_ok E s3" "extends s2 s3" "mem_oracle s3 = []"
      "live s3 d" "follow s3 c (tokens r) = Some d" by blast
    have "create_rest k flags rest modif s = Some (Some d, s3)"
      using key nt False c(1) d(1) by (subst create_rest.simps) (simp add: s1_def key1_def)
    moreover have "extends s s3" using e1 c(3) d(3) extends_trans by blast
    moreover have "child_named s3 k t = Some c" by (rule child_named_extends [OF c(2) d(2,3) c(8)])
    ultimately show ?thesis using d tokens by simp
  qed
qed

subsection \<open>References\<close>

lemma grab_key_ok:
  assumes ok: "registry_ok E s" and x: "keys s c = Some x"
  shows "\<exists>s'. grab_key c s = Some s' \<and> registry_ok (add_mset c E) s' \<and> extends s s'"
proof -
  define x' where "x' = x\<lparr>k_refs := k_refs x + 1\<rparr>"
  define s' where "s' = set_key c x' s"
  have at: "keys s' c = Some x'" "\<And>j. j \<noteq> c \<Longrightarrow> keys s' j = keys s j" by (simp_all add: s'_def set_key_def)
  have f: "next_key s' = next_key s" "root_key s' = root_key s" "lowerW s' = lowerW s" "now s' = now s" by (simp_all add: s'_def set_key_def)
  have sel: "k_name x' = k_name x" "k_parent x' = k_parent x" "k_values x' = k_values x" "k_subkeys x' = k_subkeys x" "nb_subkeys x' = nb_subkeys x"
    "nb_values x' = nb_values x" "flagged x' m = flagged x m" "k_refs x' = k_refs x + 1" for m by (simp_all add: x'_def flagged_def)
  have fwd: "\<exists>y. keys s' j = Some y \<and> k_name y = k_name z \<and> k_parent y = k_parent z \<and> k_values y = k_values z \<and> k_subkeys y = k_subkeys z \<and>
      flagged y KEY_DELETED = flagged z KEY_DELETED" if "keys s j = Some z" for j z
    using that x at sel by (cases "j = c") auto
  have sn: "same_name s' = same_name s" by (simp add: same_name_def f fun_eq_iff)
  have "j < next_key s' \<and> subkeys_ok s' j y \<and> values_ok s' y \<and> link_ok s' j y \<and> refs_ok (add_mset c E) j y" if y: "keys s' j = Some y" for j y
  proof -
    obtain z where z: "keys s j = Some z" "k_subkeys y = k_subkeys z" "nb_subkeys y = nb_subkeys z" "k_values y = k_values z"
        "nb_values y = nb_values z" "k_parent y = k_parent z" "flagged y KEY_DELETED = flagged z KEY_DELETED"
        "k_refs y = k_refs z + (if j = c then 1 else 0)"
      using y x at sel by (cases "j = c") auto
    note o = registry_okD [OF ok z(1)]
    have "subkeys_ok s' j y" by (rule subkeys_ok_cong [OF o(2) f(3) _ z(2,3)]) (use fwd in blast)
    moreover have "values_ok s' y" using o(3) z(4,5) by (simp add: values_ok_def sn)
    moreover have "link_ok s' j y"
    proof (cases "k_parent z")
      case None
      then show ?thesis using o(4) z f by (simp add: link_ok_def)
    next
      case (Some p)
      then obtain par where "keys s p = Some par" "j \<in> set (k_subkeys par)" using o(4) by (auto simp: link_ok_def)
      moreover then obtain par' where "keys s' p = Some par'" "k_subkeys par' = k_subkeys par" using fwd by blast
      ultimately show ?thesis using o(4) z(6,7) f Some by (auto simp: link_ok_def)
    qed
    moreover have "refs_ok (add_mset c E) j y" using o(5) z(6,8) unfolding refs_ok_def by auto
    ultimately show ?thesis using o(1) f(1) by simp
  qed
  moreover have old: "keys s' j \<noteq> None" if "keys s j \<noteq> None" for j using that fwd by blast
  have "keys s' (root_key s') \<noteq> None" using ok old unfolding registry_ok_def f(2) by blast
  moreover have "\<forall>j \<in># add_mset c E. keys s' j \<noteq> None" using ok old at(1) unfolding registry_ok_def by auto
  ultimately have "registry_ok (add_mset c E) s'" unfolding registry_ok_def by blast
  moreover have "extends s s'"
    unfolding extends_def using f fwd by (intro conjI allI impI) (metis order_refl, simp_all)
  moreover have "grab_key c s = Some s'" using x by (simp add: grab_key_def s'_def x'_def)
  ultimately show ?thesis by blast
qed

lemma set_class_ok:
  assumes "keys s k = Some key" "mem_oracle s = []"
  shows "\<exists>s'. set_class k cls s = Some s' \<and> same_shape s s' \<and> now s' = now s"
proof (cases "cls = []")
  case True
  then show ?thesis by (simp add: set_class_def same_shape_def)
next
  case False
  define s' where "s' = set_key k (key\<lparr>k_class := take (2 * length cls mod 2 ^ 16 div 2) cls\<rparr>) s"
  have "set_class k cls s = Some s'" using assms False by (simp add: set_class_def s'_def)
  moreover have "same_shape s s'" unfolding s'_def by (rule same_shape_set_key [OF assms(1)]) (simp add: shape_def)
  moreover have "now s' = now s" by (simp add: s'_def set_key_def)
  ultimately show ?thesis by blast
qed

lemma finish_ok:
  assumes ok: "registry_ok E s" and live: "live s c" and m: "mem_oracle s = []"
  shows "\<exists>s'. (do { s \<leftarrow> set_class c cls s; grab_key c s }) = Some s' \<and> registry_ok (add_mset c E) s' \<and> extends s s'"
proof -
  obtain x where x: "keys s c = Some x" using live by (auto simp: live_def)
  obtain s1 where s1: "set_class c cls s = Some s1" "same_shape s s1" "now s1 = now s" using set_class_ok [OF x m] by blast
  obtain x1 where x1: "keys s1 c = Some x1" using same_shape_Some [OF s1(2) x] by blast
  obtain s' where "grab_key c s1 = Some s'" "registry_ok (add_mset c E) s'" "extends s1 s'"
    using grab_key_ok [OF same_shape_ok [OF s1(2) ok] x1] by blast
  then show ?thesis using s1 extends_trans [OF same_shape_extends [OF s1(2,3)]] by auto
qed

lemma make_dirty_from_oracle: "make_dirty_from n k s = Some s' \<Longrightarrow> mem_oracle s' = mem_oracle s"
  by (induction n k s rule: make_dirty_from.induct) (auto simp: set_key_def split: if_splits bind_splits)

subsection \<open>Opening and creating\<close>

lemma first_token_path:
  "first_token path s = (if path \<noteq> [] \<and> hd path = 0x5c then (None, set_error STATUS_OBJECT_PATH_INVALID s)
     else (Some (token_at path), s))"
  "path_tokens path = toks (fst (token_at path)) (snd (token_at path))"
  by (simp_all add: first_token_def path_tokens_def toks_def split: prod.split)

lemma open_key_ok:
  assumes ok: "registry_ok E s" and key: "keys s k = Some key"
  shows "\<exists>r s'. open_key k path s = Some (r, s') \<and>
    (if path \<noteq> [] \<and> hd path = 0x5c then r = None \<and> s' = set_error STATUS_OBJECT_PATH_INVALID s
     else case follow s k (path_tokens path) of None \<Rightarrow> r = None \<and> s' = set_error STATUS_OBJECT_NAME_NOT_FOUND s
       | Some c \<Rightarrow> r = Some c \<and> registry_ok (add_mset c E) s' \<and> extends s s')"
proof (cases "path \<noteq> [] \<and> hd path = 0x5c")
  case True
  then show ?thesis by (simp add: open_key_def first_token_path(1))
next
  case False
  obtain t0 r0 where tk: "token_at path = (t0, r0)" by fastforce
  have pt: "path_tokens path = toks t0 r0" by (simp add: first_token_path(2) tk)
  obtain p t r i where w: "walk k t0 r0 0 s = Some (p, t, r, i)" "keys s p \<noteq> None"
      "if t = [] then follow s k (toks t0 r0) = Some p
       else \<exists>ts key. toks t0 r0 = ts @ t # tokens r \<and> follow s k ts = Some p \<and> child_named s p t = None \<and> keys s p = Some key \<and>
         placed (map (key_name s) (k_subkeys key)) (same_name s t) (False, i)"
    using walk_ok [OF ok, of k t0 r0 0] key by auto
  have op: "open_key k path s = (if t \<noteq> [] then Some (None, set_error STATUS_OBJECT_NAME_NOT_FOUND s)
      else do { s \<leftarrow> grab_key p s; Some (Some p, s) })"
    unfolding open_key_def first_token_path(1) if_not_P [OF False] using w(1) by (simp add: tk)
  show ?thesis
  proof (cases "t = []")
    case True
    obtain x where "keys s p = Some x" using w(2) by auto
    then obtain s' where "grab_key p s = Some s'" "registry_ok (add_mset p E) s'" "extends s s'" using grab_key_ok [OF ok] by blast
    then show ?thesis unfolding if_not_P [OF False] pt using op True w(3) by simp
  next
    case t: False
    then obtain ts where "toks t0 r0 = ts @ t # tokens r" "follow s k ts = Some p" "child_named s p t = None" using w(3) by auto
    then have "follow s k (toks t0 r0) = None" by (simp add: follow_append)
    then show ?thesis unfolding if_not_P [OF False] pt using op t by simp
  qed
qed

text \<open>The part of \<^verbatim>\<open>create_key\<close> behind its tests and its walk.\<close>

definition create_below :: "nat \<Rightarrow> wchar list \<Rightarrow> wchar list \<Rightarrow> int \<Rightarrow> wchar list \<Rightarrow> 32 word \<Rightarrow> int \<Rightarrow> registry \<Rightarrow> (nat option \<times> bool \<times> registry) option" where
  "create_below p t r i cls flags modif s =
     (if t = [] then do { s \<leftarrow> set_class p cls s; s \<leftarrow> grab_key p s; Some (Some p, False, s) }
      else do {
        s \<leftarrow> (if flags AND KEY_DIRTY \<noteq> 0 then make_dirty p s else Some s);
        (base, s) \<leftarrow> alloc_subkey p t i modif s;
        case base of None \<Rightarrow> Some (None, True, s)
        | Some base \<Rightarrow> do {
            (c, s) \<leftarrow> create_rest base flags r modif s;
            case c of None \<Rightarrow> do { s \<leftarrow> free_subkey base i s; Some (None, True, s) }
            | Some c \<Rightarrow> do { s \<leftarrow> set_class c cls s; s \<leftarrow> grab_key c s; Some (Some c, True, s) } } })"

lemma create_key_walk:
  assumes ok: "registry_ok E s" and key: "keys s k = Some key"
    and good: "\<not> flagged key KEY_DELETED" "\<not> (flags AND KEY_VOLATILE = 0 \<and> flagged key KEY_VOLATILE)" "\<not> (path \<noteq> [] \<and> hd path = 0x5c)"
  shows "\<exists>p t r i mo. create_key k path cls flags modif s = create_below p t r i cls flags mo s \<and> live s p \<and>
    (if t = [] then follow s k (path_tokens path) = Some p
     else \<exists>ts key. path_tokens path = ts @ t # tokens r \<and> follow s k ts = Some p \<and> child_named s p t = None \<and> keys s p = Some key \<and>
       placed (map (key_name s) (k_subkeys key)) (same_name s t) (False, i))"
proof -
  define mo where "mo = (if modif = 0 then now s else modif)"
  obtain t0 r0 where tk: "token_at path = (t0, r0)" by fastforce
  have pt: "path_tokens path = toks t0 r0" by (simp add: first_token_path(2) tk)
  have live: "live s k" using key good(1) by (simp add: live_def)
  obtain p t r i where w: "walk k t0 r0 0 s = Some (p, t, r, i)" "live s p"
      "if t = [] then follow s k (toks t0 r0) = Some p
       else \<exists>ts key. toks t0 r0 = ts @ t # tokens r \<and> follow s k ts = Some p \<and> child_named s p t = None \<and> keys s p = Some key \<and>
         placed (map (key_name s) (k_subkeys key)) (same_name s t) (False, i)"
    using walk_ok [OF ok, of k t0 r0 0] key live by auto
  have "create_key k path cls flags modif s = create_below p t r i cls flags mo s"
    unfolding create_key_def create_below_def Let_def mo_def [symmetric] first_token_path(1) key Option.bind.simps
      if_not_P [OF good(1)] if_not_P [OF good(2)] if_not_P [OF good(3)] by (simp add: tk w(1))
  then show ?thesis using w(2,3) unfolding pt by blast
qed

lemma create_base_ok:
  assumes ok: "registry_ok E s" and m: "mem_oracle s = []" and p: "live s p" "keys s p = Some par"
    and place: "placed (map (key_name s) (k_subkeys par)) (same_name s t) (False, i)" and len: "length t \<le> MAX_NAME_LEN"
  shows "\<exists>s1 base s2 x. (if flags AND KEY_DIRTY \<noteq> 0 then make_dirty p s else Some s) = Some s1 \<and>
    alloc_subkey p t i mo s1 = Some (Some base, s2) \<and> registry_ok E s2 \<and> extends s s2 \<and> mem_oracle s2 = [] \<and>
    keys s2 base = Some x \<and> k_subkeys x = [] \<and> \<not> flagged x KEY_DELETED \<and> child_named s2 p t = Some base"
proof -
  obtain s1 where s1: "(if flags AND KEY_DIRTY \<noteq> 0 then make_dirty p s else Some s) = Some s1" "same_tree s s1" "mem_oracle s1 = []"
  proof (cases "flags AND KEY_DIRTY \<noteq> 0")
    case True
    obtain s1 where "make_dirty p s = Some s1" "same_tree s s1"
      using make_dirty_from_ok [OF registry_ok_rooted [OF ok], where k = "Some p" and n = "Suc p"] p(2) unfolding make_dirty_def by auto
    moreover then have "mem_oracle s1 = []" using make_dirty_from_oracle m unfolding make_dirty_def by metis
    ultimately show ?thesis using that True by simp
  qed (use that [of s] m in simp)
  have ok1: "registry_ok E s1" by (rule same_tree_ok [OF s1(2) ok])
  obtain par1 where par1: "keys s1 p = Some par1" "core par1 = core par" using same_tree_Some [OF s1(2) p(2)] by blast
  have kn: "key_name s1 j = key_name s j" for j
  proof -
    have "map_option core (keys s1 j) = map_option core (keys s j)" "lowerW s1 = lowerW s" using s1(2) by (simp_all add: same_tree_def)
    then show ?thesis by (cases "keys s1 j"; cases "keys s j") (auto simp: key_name_def same_name_def dest: core_sel(2))
  qed
  have "same_name s1 = same_name s" using s1(2) by (simp add: same_tree_def same_name_def fun_eq_iff)
  then have pl: "placed (map (key_name s1) (k_subkeys par1)) (same_name s1 t) (False, i)"
    using place core_sel(5) [OF par1(2)] by (simp add: kn cong: map_cong)
  have "\<not> flagged par1 KEY_DELETED" using p core_sel(9) [OF par1(2)] by (simp add: live_def)
  from alloc_subkey_ok [OF ok1 par1(1) this pl len s1(3), of mo] s1(1) extends_trans [OF same_tree_extends [OF s1(2)]]
  show ?thesis by blast
qed

lemma create_key_ok:
  assumes ok: "registry_ok E s" and key: "keys s k = Some key" and m: "mem_oracle s = []"
    and l: "\<forall>t \<in> set (path_tokens path). length t \<le> MAX_NAME_LEN" and fl: "flags AND KEY_DELETED = 0"
  shows "\<exists>r b s'. create_key k path cls flags modif s = Some (r, b, s') \<and>
    (if flagged key KEY_DELETED then r = None \<and> s' = set_error STATUS_KEY_DELETED s
     else if flags AND KEY_VOLATILE = 0 \<and> flagged key KEY_VOLATILE then r = None \<and> s' = set_error STATUS_CHILD_MUST_BE_VOLATILE s
     else if path \<noteq> [] \<and> hd path = 0x5c then r = None \<and> s' = set_error STATUS_OBJECT_PATH_INVALID s
     else \<exists>c. r = Some c \<and> b = (follow s k (path_tokens path) = None) \<and> follow s' k (path_tokens path) = Some c \<and>
       registry_ok (add_mset c E) s' \<and> extends s s')"
proof -
  consider "flagged key KEY_DELETED" | "\<not> flagged key KEY_DELETED" "flags AND KEY_VOLATILE = 0 \<and> flagged key KEY_VOLATILE"
    | "\<not> flagged key KEY_DELETED" "\<not> (flags AND KEY_VOLATILE = 0 \<and> flagged key KEY_VOLATILE)" "path \<noteq> [] \<and> hd path = 0x5c"
    | (good) "\<not> flagged key KEY_DELETED" "\<not> (flags AND KEY_VOLATILE = 0 \<and> flagged key KEY_VOLATILE)" "\<not> (path \<noteq> [] \<and> hd path = 0x5c)" by blast
  then show ?thesis
  proof cases
    case good
    obtain p t r i mo where cr: "create_key k path cls flags modif s = create_below p t r i cls flags mo s" and p: "live s p"
      and w: "if t = [] then follow s k (path_tokens path) = Some p
         else \<exists>ts key. path_tokens path = ts @ t # tokens r \<and> follow s k ts = Some p \<and> child_named s p t = None \<and> keys s p = Some key \<and>
           placed (map (key_name s) (k_subkeys key)) (same_name s t) (False, i)"
      using create_key_walk [OF ok key good, of cls modif] by blast
    have goal: ?thesis if "create_key k path cls flags modif s = Some (Some c, follow s k (path_tokens path) = None, s')"
        "follow s' k (path_tokens path) = Some c" "registry_ok (add_mset c E) s'" "extends s s'" for c s'
      unfolding if_not_P [OF good(1)] if_not_P [OF good(2)] if_not_P [OF good(3)] using that by auto
    show ?thesis
    proof (cases "t = []")
      case True
      obtain s' where s': "(do { s \<leftarrow> set_class p cls s; grab_key p s }) = Some s'" "registry_ok (add_mset p E) s'" "extends s s'"
        using finish_ok [OF ok p m] by blast
      have f: "follow s k (path_tokens path) = Some p" using w True by simp
      have "create_key k path cls flags modif s = Some (Some p, False, s')"
        using cr True s'(1) by (cases "set_class p cls s") (simp_all add: create_below_def)
      then show ?thesis using goal [of p s'] f s' follow_extends [OF ok s'(2,3) f] by simp
    next
      case False
      then obtain ts par where tt: "path_tokens path = ts @ t # tokens r" "follow s k ts = Some p" "child_named s p t = None" "keys s p = Some par"
          "placed (map (key_name s) (k_subkeys par)) (same_name s t) (False, i)" using w by auto
      have none: "follow s k (path_tokens path) = None" using tt(1-3) by (simp add: follow_append)
      have len: "length t \<le> MAX_NAME_LEN" "\<forall>t \<in> set (tokens r). length t \<le> MAX_NAME_LEN" using l unfolding tt(1) by auto
      obtain s1 base s2 x where b: "(if flags AND KEY_DIRTY \<noteq> 0 then make_dirty p s else Some s) = Some s1"
        "alloc_subkey p t i mo s1 = Some (Some base, s2)" "registry_ok E s2" "extends s s2" "mem_oracle s2 = []"
        "keys s2 base = Some x" "k_subkeys x = []" "\<not> flagged x KEY_DELETED" "child_named s2 p t = Some base"
        using create_base_ok [OF ok m p tt(4,5) len(1), of flags mo] by blast
      obtain c s3 where c: "create_rest base flags r mo s2 = Some (Some c, s3)" "registry_ok E s3" "extends s2 s3" "mem_oracle s3 = []"
        "live s3 c" "follow s3 base (tokens r) = Some c" using create_rest_ok [OF b(3,6,8,7,5) len(2) fl, of mo] by blast
      obtain s' where s': "(do { s \<leftarrow> set_class c cls s3; grab_key c s }) = Some s'" "registry_ok (add_mset c E) s'" "extends s3 s'"
        using finish_ok [OF c(2,5,4)] by blast
      have "create_key k path cls flags modif s = Some (Some c, True, s')"
        using cr False b(1,2) c(1) s'(1) by (cases "set_class c cls s3") (simp_all add: create_below_def)
      moreover have e2: "extends s2 s'" by (rule extends_trans [OF c(3) s'(3)])
      moreover have e: "extends s s'" by (rule extends_trans [OF b(4) e2])
      moreover have "follow s' k (path_tokens path) = Some c"
        using follow_extends [OF ok s'(2) e tt(2)] child_named_extends [OF b(3) s'(2) e2 b(9)] follow_extends [OF c(2) s'(2,3) c(6)]
        by (simp add: tt(1) follow_append)
      ultimately show ?thesis using goal [of c s'] none s'(2) by simp
    qed
  next
    case 1
    then show ?thesis using key by (intro exI [of _ None] exI [of _ False]) (simp add: create_key_def)
  next
    case 2
    then show ?thesis using key by (intro exI [of _ None] exI [of _ False]) (simp add: create_key_def)
  next
    case 3
    then show ?thesis using key unfolding if_not_P [OF 3(1)] if_not_P [OF 3(2)]
      by (intro exI [of _ None] exI [of _ False]) (auto simp: create_key_def first_token_path(1) Let_def)
  qed
qed

text \<open>
  When a token behind the first new key is too long, \<^verbatim>\<open>free_subkey( base, index )\<close> looks for the new key among its own
  subkeys and the assertion of \<^verbatim>\<open>free_subkey\<close> fails, so that a request of a client ends the server.
\<close>

lemma first_missing:
  "follow s k ts = Some p \<Longrightarrow> child_named s p t = None \<Longrightarrow> follow s k us = Some q \<Longrightarrow> child_named s q u = None \<Longrightarrow>
   ts @ t # vs = us @ u # ws \<Longrightarrow> ts = us"
proof (induction ts arbitrary: k us)
  case Nil
  then show ?case by (cases us) (auto split: option.splits)
next
  case (Cons a ts)
  then show ?case by (cases us) (auto split: option.splits)
qed

lemma create_key_aborts:
  assumes ok: "registry_ok E s" and key: "keys s k = Some key" and m: "mem_oracle s = []"
    and good: "\<not> flagged key KEY_DELETED" "\<not> (flags AND KEY_VOLATILE = 0 \<and> flagged key KEY_VOLATILE)" "\<not> (path \<noteq> [] \<and> hd path = 0x5c)"
    and path: "path_tokens path = ts @ t # u # us" "follow s k ts = Some p" "child_named s p t = None"
    and len: "length t \<le> MAX_NAME_LEN" "length u > MAX_NAME_LEN"
  shows "create_key k path cls flags modif s = None"
proof -
  obtain p' t' r i mo where cr: "create_key k path cls flags modif s = create_below p' t' r i cls flags mo s" and p: "live s p'"
    and w: "if t' = [] then follow s k (path_tokens path) = Some p'
       else \<exists>ts key. path_tokens path = ts @ t' # tokens r \<and> follow s k ts = Some p' \<and> child_named s p' t' = None \<and> keys s p' = Some key \<and>
         placed (map (key_name s) (k_subkeys key)) (same_name s t') (False, i)"
    using create_key_walk [OF ok key good, of cls modif] by blast
  have "follow s k (path_tokens path) = None" using path by (simp add: follow_append)
  then have t': "t' \<noteq> []" using w by auto
  then obtain ts' par where tt: "path_tokens path = ts' @ t' # tokens r" "follow s k ts' = Some p'" "child_named s p' t' = None"
      "keys s p' = Some par" "placed (map (key_name s) (k_subkeys par)) (same_name s t') (False, i)" using w by auto
  have "ts = ts'" by (rule first_missing [OF path(2,3) tt(2,3), where vs = "u # us" and ws = "tokens r"]) (use path(1) tt(1) in simp)
  then have eq: "t' = t" "tokens r = u # us" using path(1) tt(1) by auto
  obtain s1 base s2 x where b: "(if flags AND KEY_DIRTY \<noteq> 0 then make_dirty p' s else Some s) = Some s1"
    "alloc_subkey p' t' i mo s1 = Some (Some base, s2)" "keys s2 base = Some x" "k_subkeys x = []"
    using create_base_ok [OF ok m p tt(4,5), of flags mo] len(1) eq(1) by blast
  obtain r' where nt: "next_token r = (u, r')"
    using eq(2) by (subst (asm) tokens.simps) (auto split: prod.splits if_splits)
  have "u \<noteq> []" using len(2) by auto
  define s3 where "s3 = set_error STATUS_NAME_TOO_LONG (set_key base (x\<lparr>k_flags := k_flags x OR flags\<rparr>) s2)"
  have rest: "create_rest base flags r mo s2 = Some (None, s3)"
    using b(3) nt \<open>u \<noteq> []\<close> len(2) by (subst create_rest.simps) (simp add: alloc_subkey_def s3_def)
  have at3: "keys s3 base = Some (x\<lparr>k_flags := k_flags x OR flags\<rparr>)" by (simp add: s3_def set_key_def set_error_def)
  have "read_at ([] :: nat list) i = None" by (auto simp: read_at_def)
  then have "free_subkey base i s3 = None" using b(4) at3 by (simp add: free_subkey_def)
  then show ?thesis using cr t' b(1,2) rest by (simp add: create_below_def)
qed

text \<open>A key that is not volatile can be made below one that is, if the creation starts higher up: the test is of the key it starts at.\<close>

lemma create_key_below_volatile:
  assumes "registry_ok E s" "keys s k = Some key" "mem_oracle s = []" "\<not> flagged key KEY_DELETED" "\<not> flagged key KEY_VOLATILE"
    "follow s k [t] = Some p" "keys s p = Some par" "flagged par KEY_VOLATILE"
    "path_tokens path = [t, u]" "length t \<le> MAX_NAME_LEN" "length u \<le> MAX_NAME_LEN" "\<not> (path \<noteq> [] \<and> hd path = 0x5c)"
  shows "\<exists>c b s'. create_key k path cls KEY_DIRTY modif s = Some (Some c, b, s') \<and> follow s' k [t, u] = Some c"
proof -
  have "KEY_DIRTY AND KEY_DELETED = 0" by (simp add: KEY_DIRTY_def KEY_DELETED_def)
  then show ?thesis using create_key_ok [OF assms(1-3), of path KEY_DIRTY cls modif] assms(4,5,9-12) by auto
qed



subsection \<open>On the small registry\<close>

text \<open>The path \<^verbatim>\<open>soft\wine\<close>, and the path \<^verbatim>\<open>soft\new\key\<close>.\<close>

definition soft_wine :: "wchar list" where
  "soft_wine = [0x73, 0x6f, 0x66, 0x74, 0x5c, 0x77, 0x69, 0x6e, 0x65]"

definition soft_new :: "wchar list" where
  "soft_new = [0x73, 0x6f, 0x66, 0x74, 0x5c, 0x6e, 0x65, 0x77, 0x5c, 0x5c, 0x6b]"

lemma soft_tokens:
  "path_tokens soft_wine = [[0x73, 0x6f, 0x66, 0x74], [0x77, 0x69, 0x6e, 0x65]]"
  "path_tokens soft_new = [[0x73, 0x6f, 0x66, 0x74], [0x6e, 0x65, 0x77], [0x6b]]"
  by (simp_all add: path_tokens_def soft_wine_def soft_new_def token_at_def tokens.simps next_token_def)

lemma sample_follow: "follow sample_registry 0 [[0x73, 0x6f, 0x66, 0x74], [0x77, 0x69, 0x6e, 0x65]] = Some 2"
  "follow sample_registry 0 [[0x73, 0x6f, 0x66, 0x74], [0x6e, 0x65, 0x77], [0x6b]] = None"
  by (simp_all add: child_named_def key_name_def same_name_def sample_registry_def sample_root_def sample_soft_def sample_wine_def ascii_lower_def)



end
