(* ===== verification/Token.thy ===== *)
theory Token
  imports Escapes
begin

text \<open>
  Security tokens and access checks (\<^verbatim>\<open>token.c\<close>): the privileges and the groups of a token, the validation of a security
  descriptor that a client sends, and the check of its access control list.

  A descriptor is a list of bytes, and a pointer into it an offset; a read outside of the list is \<open>None\<close>.  Words are
  little-endian.  A security identifier (SID) is the list of its bytes: the revision, the count of its sub-authorities, six bytes of
  authority and four for each sub-authority.  Lengths are natural numbers; the one subtraction that
  wraps around is \<open>sub32\<close>.
\<close>

abbreviation "STATUS_NOT_ALL_ASSIGNED \<equiv> (0x00000106 :: status)"
abbreviation "STATUS_ACCESS_VIOLATION \<equiv> (0xC0000005 :: status)"
abbreviation "STATUS_NO_IMPERSONATION_TOKEN \<equiv> (0xC000005C :: status)"
abbreviation "STATUS_PRIVILEGE_NOT_HELD \<equiv> (0xC0000061 :: status)"
abbreviation "STATUS_INVALID_SECURITY_DESCR \<equiv> (0xC0000079 :: status)"
abbreviation "STATUS_GENERIC_NOT_MAPPED \<equiv> (0xC00000E6 :: status)"

abbreviation "GENERIC_READ \<equiv> (0x80000000 :: 32 word)"
abbreviation "GENERIC_WRITE \<equiv> (0x40000000 :: 32 word)"
abbreviation "GENERIC_EXECUTE \<equiv> (0x20000000 :: 32 word)"
abbreviation "GENERIC_ALL \<equiv> (0x10000000 :: 32 word)"
abbreviation "GENERIC_BITS \<equiv> (0xF0000000 :: 32 word)"
abbreviation "MAXIMUM_ALLOWED \<equiv> (0x02000000 :: 32 word)"
abbreviation "ACCESS_SYSTEM_SECURITY \<equiv> (0x01000000 :: 32 word)"
abbreviation "READ_CONTROL \<equiv> (0x00020000 :: 32 word)"
abbreviation "WRITE_DAC \<equiv> (0x00040000 :: 32 word)"

abbreviation "SE_DACL_PRESENT \<equiv> (0x00000004 :: 32 word)"
abbreviation "SE_PRIVILEGE_ENABLED_BY_DEFAULT \<equiv> (0x00000001 :: 32 word)"
abbreviation "SE_PRIVILEGE_ENABLED \<equiv> (0x00000002 :: 32 word)"
abbreviation "SE_PRIVILEGE_REMOVE \<equiv> (0x00000004 :: 32 word)"
abbreviation "SE_PRIVILEGE_USED_FOR_ACCESS \<equiv> (0x80000000 :: 32 word)"
abbreviation "SE_GROUP_MANDATORY \<equiv> (0x00000001 :: 32 word)"
abbreviation "SE_GROUP_ENABLED_BY_DEFAULT \<equiv> (0x00000002 :: 32 word)"
abbreviation "SE_GROUP_ENABLED \<equiv> (0x00000004 :: 32 word)"
abbreviation "SE_GROUP_OWNER \<equiv> (0x00000008 :: 32 word)"
abbreviation "SE_GROUP_USE_FOR_DENY_ONLY \<equiv> (0x00000010 :: 32 word)"
abbreviation "SE_GROUP_RESOURCE \<equiv> (0x20000000 :: 32 word)"

abbreviation "MAX_ACL_LEN \<equiv> (65535 :: nat)"

subsection \<open>Bytes\<close>

definition get8 :: "byte list \<Rightarrow> nat \<Rightarrow> byte option" where
  "get8 m i = (if i < length m then Some (m ! i) else None)"

definition get16 :: "byte list \<Rightarrow> nat \<Rightarrow> nat option" where
  "get16 m i = do { a \<leftarrow> get8 m i; b \<leftarrow> get8 m (i + 1); Some (unat a + 256 * unat b) }"

definition get32 :: "byte list \<Rightarrow> nat \<Rightarrow> 32 word option" where
  "get32 m i = do { a \<leftarrow> get8 m i; b \<leftarrow> get8 m (i + 1); c \<leftarrow> get8 m (i + 2); d \<leftarrow> get8 m (i + 3);
     Some (ucast a OR push_bit 8 (ucast b) OR push_bit 16 (ucast c) OR push_bit 24 (ucast d)) }"

definition len32 :: "byte list \<Rightarrow> nat \<Rightarrow> nat option" where
  "len32 m i = map_option unat (get32 m i)"

definition bytes_at :: "byte list \<Rightarrow> nat \<Rightarrow> nat \<Rightarrow> byte list option" where
  "bytes_at m i n = (if i + n \<le> length m then Some (take n (drop i m)) else None)"

definition bytes16 :: "nat \<Rightarrow> byte list" where
  "bytes16 n = [word_of_nat n, word_of_nat (n div 256)]"

definition bytes32 :: "32 word \<Rightarrow> byte list" where
  "bytes32 w = [ucast w, ucast (drop_bit 8 w), ucast (drop_bit 16 w), ucast (drop_bit 24 w)]"

definition sub32 :: "nat \<Rightarrow> nat \<Rightarrow> nat" where
  "sub32 a b = unat (word_of_nat a - word_of_nat b :: 32 word)"

subsection \<open>Tokens\<close>

type_synonym luid = "32 word \<times> 32 word"
type_synonym luid_and_attributes = "luid \<times> 32 word"
type_synonym sid = "byte list"

record privilege =
  p_luid :: luid
  p_enabled :: bool
  p_def :: bool

record group =
  g_enabled :: bool
  g_def :: bool
  g_logon :: bool
  g_mandatory :: bool
  g_owner :: bool
  g_resource :: bool
  g_deny_only :: bool
  g_sid :: sid

record token =
  privileges :: "privilege list"
  groups :: "group list"
  user :: sid
  primary :: bool
  default_dacl :: "byte list option"
  source :: "byte list"

text \<open>\<^verbatim>\<open>FIELD_OFFSET(SID, SubAuthority[n])\<close>\<close>

definition sid_size :: "byte \<Rightarrow> nat" where
  "sid_size n = 8 + 4 * unat n"

definition security_sid_alloc :: "byte list \<Rightarrow> 32 word list \<Rightarrow> 'a env_scheme \<Rightarrow> sid option \<times> 'a env_scheme" where
  "security_sid_alloc idauthority subauth s =
     (case mem_alloc s of (ok, s) \<Rightarrow>
        (if ok then Some ([1, word_of_nat (length subauth)] @ idauthority @ concat (map bytes32 subauth)) else None, s))"

text \<open>Both pointers are given by the bytes from there on.\<close>

definition security_equal_sid :: "byte list \<Rightarrow> byte list \<Rightarrow> bool option" where
  "security_equal_sid sid1 sid2 =
     do { n \<leftarrow> get8 sid1 1; m \<leftarrow> get8 sid2 1;
          if n \<noteq> m then Some False
          else do { a \<leftarrow> bytes_at sid1 0 (sid_size n); b \<leftarrow> bytes_at sid2 0 (sid_size n); Some (a = b) } }"

definition token_map_access :: "32 word \<Rightarrow> 32 word" where
  "token_map_access a =
     (let a = (if a AND GENERIC_READ \<noteq> 0 then a OR 0x00020008 else a);
          a = (if a AND GENERIC_WRITE \<noteq> 0 then a OR 0x000200E0 else a);
          a = (if a AND GENERIC_EXECUTE \<noteq> 0 then a OR 0x00020000 else a);
          a = (if a AND GENERIC_ALL \<noteq> 0 then a OR 0x000F01FF else a) in
      a AND NOT GENERIC_BITS)"

subsection \<open>Access control lists\<close>

text \<open>
  The entries of a list: \<open>n\<close> are left, \<open>ace\<close> is the offset of the next one and \<open>sz\<close> what is left of the list.  The header of an
  entry is its type, its flags and its size in two bytes; a mask of four bytes and a SID follow.
\<close>

fun aces_valid :: "byte list \<Rightarrow> nat \<Rightarrow> nat \<Rightarrow> nat \<Rightarrow> bool option" where
  "aces_valid m ace 0 sz = Some True"
| "aces_valid m ace (Suc n) sz =
     (if sz < 4 then Some False
      else do {
        ace_size \<leftarrow> get16 m (ace + 2);
        if sz < ace_size then Some False
        else do {
          ty \<leftarrow> get8 m ace;
          if ty > 3 then Some False
          else if sub32 ace_size 8 < 8 then Some False
          else do {
            subs \<leftarrow> get8 m (ace + 9);
            if sub32 ace_size 8 < sid_size subs then Some False
            else aces_valid m (ace + ace_size) n (sz - ace_size) } } })"

definition acl_is_valid :: "byte list \<Rightarrow> nat \<Rightarrow> nat \<Rightarrow> bool option" where
  "acl_is_valid m acl sz =
     (if sz < 8 then Some False
      else do { n \<leftarrow> get16 m (acl + 4); aces_valid m (acl + 8) n (min sz MAX_ACL_LEN - 8) })"

text \<open>A security descriptor: the control word and the four lengths, 20 bytes, and the parts behind.\<close>

record sd_header =
  control :: "32 word"
  owner_len :: nat
  group_len :: nat
  sacl_len :: nat
  dacl_len :: nat

definition sd_header_at :: "byte list \<Rightarrow> sd_header option" where
  "sd_header_at m = do { c \<leftarrow> get32 m 0; ol \<leftarrow> len32 m 4; gl \<leftarrow> len32 m 8; sl \<leftarrow> len32 m 12; dl \<leftarrow> len32 m 16;
     Some \<lparr>control = c, owner_len = ol, group_len = gl, sacl_len = sl, dacl_len = dl\<rparr> }"

definition sd_get_dacl :: "sd_header \<Rightarrow> nat option \<times> bool" where
  "sd_get_dacl sd = (if dacl_len sd \<noteq> 0 then Some (20 + owner_len sd + group_len sd + sacl_len sd) else None, control sd AND SE_DACL_PRESENT \<noteq> 0)"

definition sd_get_sacl :: "sd_header \<Rightarrow> nat option \<times> bool" where
  "sd_get_sacl sd = (if sacl_len sd \<noteq> 0 then Some (20 + owner_len sd + group_len sd) else None, control sd AND 0x10 \<noteq> 0)"

definition sd_get_owner :: "sd_header \<Rightarrow> nat option" where
  "sd_get_owner sd = (if owner_len sd \<noteq> 0 then Some 20 else None)"

definition sd_get_group :: "sd_header \<Rightarrow> nat option" where
  "sd_get_group sd = (if group_len sd \<noteq> 0 then Some (20 + owner_len sd) else None)"

text \<open>The SID at the offset has to fit \<^verbatim>\<open>sd->owner_len\<close>; the code has the same test for the owner and for the group.\<close>

definition sid_fits :: "byte list \<Rightarrow> nat option \<Rightarrow> nat \<Rightarrow> bool option" where
  "sid_fits m sid len =
     (case sid of None \<Rightarrow> Some True
      | Some off \<Rightarrow> do { n \<leftarrow> get8 m (off + 1); Some (\<not> (len < 12 \<or> sid_size n > len)) })"

definition acl_ok :: "byte list \<Rightarrow> nat option \<Rightarrow> nat \<Rightarrow> bool option" where
  "acl_ok m acl len = (case acl of None \<Rightarrow> Some True | Some off \<Rightarrow> acl_is_valid m off len)"

definition sd_is_valid :: "byte list \<Rightarrow> nat \<Rightarrow> bool option" where
  "sd_is_valid m sz =
     (if sz < 20 then Some False
      else do {
        sd \<leftarrow> sd_header_at m;
        if owner_len sd \<ge> 1028 \<or> 20 + owner_len sd > sz then Some False
        else do {
          owner_ok \<leftarrow> sid_fits m (sd_get_owner sd) (owner_len sd);
          if \<not> owner_ok then Some False
          else let offset = 20 + owner_len sd in
          if group_len sd \<ge> 1028 \<or> offset + group_len sd > sz then Some False
          else do {
            group_ok \<leftarrow> sid_fits m (sd_get_group sd) (owner_len sd);
            if \<not> group_ok then Some False
            else let offset = offset + group_len sd in
            if sacl_len sd \<ge> MAX_ACL_LEN \<or> offset + sacl_len sd > sz then Some False
            else do {
              sacl_ok \<leftarrow> acl_ok m (fst (sd_get_sacl sd)) (sacl_len sd);
              if \<not> sacl_ok then Some False
              else let offset = offset + sacl_len sd in
              if dacl_len sd \<ge> MAX_ACL_LEN \<or> offset + dacl_len sd > sz then Some False
              else acl_ok m (fst (sd_get_dacl sd)) (dacl_len sd) } } } })"

record generic_mapping =
  GenericRead :: "32 word"
  GenericWrite :: "32 word"
  GenericExecute :: "32 word"
  GenericAll :: "32 word"

definition map_generic_mask :: "32 word \<Rightarrow> generic_mapping \<Rightarrow> 32 word" where
  "map_generic_mask a mapping =
     (let a = (if a AND GENERIC_READ \<noteq> 0 then a OR GenericRead mapping else a);
          a = (if a AND GENERIC_WRITE \<noteq> 0 then a OR GenericWrite mapping else a);
          a = (if a AND GENERIC_EXECUTE \<noteq> 0 then a OR GenericExecute mapping else a);
          a = (if a AND GENERIC_ALL \<noteq> 0 then a OR GenericAll mapping else a) in
      a AND 0x0FFFFFFF)"

subsection \<open>Creating tokens\<close>

definition is_equal_luid :: "luid \<Rightarrow> luid \<Rightarrow> bool" where
  "is_equal_luid a b \<longleftrightarrow> fst a = fst b \<and> snd a = snd b"

definition luid_and_attr_from_privilege :: "privilege \<Rightarrow> luid_and_attributes" where
  "luid_and_attr_from_privilege p = (p_luid p,
     (if p_enabled p then SE_PRIVILEGE_ENABLED else 0) OR (if p_def p then SE_PRIVILEGE_ENABLED_BY_DEFAULT else 0))"

definition privilege_add :: "token \<Rightarrow> luid \<Rightarrow> bool \<Rightarrow> 'a env_scheme \<Rightarrow> (token option) \<times> 'a env_scheme" where
  "privilege_add tok luid en s =
     (case mem_alloc s of (ok, s) \<Rightarrow>
        (if ok then Some (tok\<lparr>privileges := privileges tok @ [\<lparr>p_luid = luid, p_enabled = en, p_def = en\<rparr>]\<rparr>) else None, s))"

fun add_privileges :: "token \<Rightarrow> luid_and_attributes list \<Rightarrow> 'a env_scheme \<Rightarrow> token option \<times> 'a env_scheme" where
  "add_privileges tok [] s = (Some tok, s)"
| "add_privileges tok ((luid, attr) # privs) s =
     (case privilege_add tok luid (attr AND SE_PRIVILEGE_ENABLED \<noteq> 0) s of
        (None, s) \<Rightarrow> (None, s) | (Some tok, s) \<Rightarrow> add_privileges tok privs s)"

text \<open>The bytes of a SID that the given ones start with.\<close>

definition copy_sid :: "byte list \<Rightarrow> sid option" where
  "copy_sid xs = do { n \<leftarrow> get8 xs 1; bytes_at xs 0 (sid_size n) }"

fun add_groups :: "token \<Rightarrow> (byte list \<times> 32 word) list \<Rightarrow> 'a env_scheme \<Rightarrow> (token option \<times> 'a env_scheme) option" where
  "add_groups tok [] s = Some (Some tok, s)"
| "add_groups tok ((sid, attr) # gs) s =
     do { sid \<leftarrow> copy_sid sid;
          case mem_alloc s of (ok, s) \<Rightarrow>
            if \<not> ok then Some (None, s)
            else add_groups (tok\<lparr>groups := groups tok @ [\<lparr>g_enabled = True, g_def = True, g_logon = False,
              g_mandatory = (attr AND SE_GROUP_MANDATORY \<noteq> 0), g_owner = False, g_resource = False, g_deny_only = False, g_sid = sid\<rparr>]\<rparr>) gs s }"

text \<open>A token that cannot be completed is released again: \<open>None\<close> for the token.\<close>

definition create_token :: "bool \<Rightarrow> byte list \<Rightarrow> (byte list \<times> 32 word) list \<Rightarrow> luid_and_attributes list \<Rightarrow> byte list option \<Rightarrow> byte list \<Rightarrow>
    'a env_scheme \<Rightarrow> (token option \<times> 'a env_scheme) option" where
  "create_token prim usr gs privs dacl src s =
     (case mem_alloc s of (ok, s) \<Rightarrow>
        if \<not> ok then Some (None, s)
        else do {
          usr \<leftarrow> copy_sid usr;
          case memdup usr s of (None, s) \<Rightarrow> Some (None, s)
          | (Some usr, s) \<Rightarrow> do {
              (tok, s) \<leftarrow> add_groups \<lparr>privileges = [], groups = [], user = usr, primary = prim, default_dacl = None, source = src\<rparr> gs s;
              case tok of None \<Rightarrow> Some (None, s)
              | Some tok \<Rightarrow> (case add_privileges tok privs s of (None, s) \<Rightarrow> Some (None, s)
                | (Some tok, s) \<Rightarrow> (case dacl of None \<Rightarrow> Some (Some tok, s)
                  | Some acl \<Rightarrow> do {
                      len \<leftarrow> get16 acl 2;
                      acl \<leftarrow> bytes_at acl 0 len;
                      case memdup acl s of (None, s) \<Rightarrow> Some (None, s)
                      | (Some acl, s) \<Rightarrow> Some (Some (tok\<lparr>default_dacl := Some acl\<rparr>), s) })) } })"

definition nt_sid :: "32 word \<Rightarrow> sid" where
  "nt_sid rid = [1, 1, 0, 0, 0, 0, 0, 5] @ bytes32 rid"

definition world_sid :: sid where "world_sid = [1, 1, 0, 0, 0, 0, 0, 1] @ bytes32 0"
definition local_sid :: sid where "local_sid = [1, 1, 0, 0, 0, 0, 0, 2] @ bytes32 0"
definition interactive_sid :: sid where "interactive_sid = nt_sid 4"
definition authenticated_user_sid :: sid where "authenticated_user_sid = nt_sid 0xB"
definition local_system_sid :: sid where "local_system_sid = nt_sid 0x12"

text \<open>A list with two entries that allow everything, to the system and to the user.\<close>

definition allow_all :: "sid \<Rightarrow> byte list" where
  "allow_all sid = [0, 0] @ bytes16 (8 + length sid) @ bytes32 GENERIC_ALL @ sid"

definition create_default_dacl :: "byte list \<Rightarrow> 'a env_scheme \<Rightarrow> (byte list option \<times> 'a env_scheme) option" where
  "create_default_dacl usr s =
     do { usr \<leftarrow> copy_sid usr;
          case mem_alloc s of (ok, s) \<Rightarrow>
            if \<not> ok then Some (None, s)
            else Some (Some ([4, 0] @ bytes16 (8 + 2 * 8 + 12 + length usr) @ bytes16 2 @ [0, 0] @ allow_all local_system_sid @ allow_all usr), s) }"

definition admin_privs :: "luid_and_attributes list" where
  "admin_privs = map (\<lambda>(l, a). ((l, 0), a)) [(23, SE_PRIVILEGE_ENABLED), (8, 0), (17, 0), (18, 0), (12, 0), (19, 0), (24, 0), (9, 0), (20, 0), (22, 0),
     (11, 0), (13, 0), (14, 0), (10, 0), (15, 0), (5, 0), (25, 0), (28, 0), (29, SE_PRIVILEGE_ENABLED), (30, SE_PRIVILEGE_ENABLED)]"

text \<open>The three allocations are freed at the end.\<close>

definition token_create_admin :: "'a env_scheme \<Rightarrow> (token option \<times> 'a env_scheme) option" where
  "token_create_admin s =
     do { (dacl, s) \<leftarrow> create_default_dacl local_system_sid s;
          case security_sid_alloc [0, 0, 0, 0, 0, 5] [0x20, 0x220] s of (admins, s) \<Rightarrow>
          case security_sid_alloc [0, 0, 0, 0, 0, 5] [0x20, 0x221] s of (users, s) \<Rightarrow>
            case (admins, users, dacl) of
              (Some admins, Some users, Some dacl) \<Rightarrow>
                let attr = SE_GROUP_ENABLED OR SE_GROUP_ENABLED_BY_DEFAULT OR SE_GROUP_MANDATORY in
                create_token True interactive_sid
                  (map (\<lambda>sid. (sid, attr)) [world_sid, local_sid, interactive_sid, authenticated_user_sid, admins, users])
                  admin_privs (Some dacl) ([0x53, 0x65, 0x4d, 0x67, 0x72, 0, 0, 0] @ replicate 8 0) s
            | _ \<Rightarrow> Some (None, s) }"

subsection \<open>Privileges\<close>

text \<open>The first privilege of that number; \<open>at_luid\<close> changes or removes it.\<close>

definition token_find_privilege :: "token \<Rightarrow> luid \<Rightarrow> bool \<Rightarrow> privilege option" where
  "token_find_privilege tok luid enabled_only =
     (case find (\<lambda>p. is_equal_luid luid (p_luid p)) (privileges tok) of
        None \<Rightarrow> None | Some p \<Rightarrow> if enabled_only \<and> \<not> p_enabled p then None else Some p)"

fun at_luid :: "luid \<Rightarrow> (privilege \<Rightarrow> privilege list) \<Rightarrow> privilege list \<Rightarrow> privilege list" where
  "at_luid luid f [] = []"
| "at_luid luid f (p # ps) = (if is_equal_luid luid (p_luid p) then f p @ ps else p # at_luid luid f ps)"

text \<open>
  \<open>room\<close> counts the entries of the buffer for the previous state that are free, \<open>buf\<close> says whether there is such a
  buffer: writing through its null pointer is undefined.
\<close>

fun token_adjust_privileges :: "token \<Rightarrow> luid_and_attributes list \<Rightarrow> bool \<Rightarrow> nat \<Rightarrow> 'a env_scheme \<Rightarrow>
    (token \<times> luid_and_attributes list \<times> 'a env_scheme) option" where
  "token_adjust_privileges tok [] buf room s = Some (tok, [], s)"
| "token_adjust_privileges tok ((luid, attr) # privs) buf room s =
     (case token_find_privilege tok luid False of
        None \<Rightarrow> token_adjust_privileges tok privs buf room (set_error STATUS_NOT_ALL_ASSIGNED s)
      | Some p \<Rightarrow>
          if attr AND SE_PRIVILEGE_REMOVE \<noteq> 0
          then token_adjust_privileges (tok\<lparr>privileges := at_luid luid (\<lambda>p. []) (privileges tok)\<rparr>) privs buf room s
          else if room \<noteq> 0 \<and> \<not> buf then None
          else do {
            (tok, mods, s) \<leftarrow> token_adjust_privileges
              (tok\<lparr>privileges := at_luid luid (\<lambda>p. [p\<lparr>p_enabled := attr AND SE_PRIVILEGE_ENABLED \<noteq> 0\<rparr>]) (privileges tok)\<rparr>) privs buf (room - 1) s;
            Some (tok, (if room \<noteq> 0 then [luid_and_attr_from_privilege p] else []) @ mods, s) })"

definition token_disable_privileges :: "token \<Rightarrow> token" where
  "token_disable_privileges tok = tok\<lparr>privileges := map (\<lambda>p. p\<lparr>p_enabled := False\<rparr>) (privileges tok)\<rparr>"

text \<open>The answer, and the required privileges with the mark of those that were used.\<close>

definition token_check_privileges :: "token \<Rightarrow> bool \<Rightarrow> luid_and_attributes list \<Rightarrow> bool \<times> luid_and_attributes list" where
  "token_check_privileges tok all_required reqprivs =
     (let held = (\<lambda>(luid, attr). case token_find_privilege tok luid True of Some p \<Rightarrow> p_enabled p | None \<Rightarrow> False);
          enabled_count = length (filter held reqprivs) in
      (if all_required then enabled_count = length reqprivs else enabled_count > 0,
       map (\<lambda>(luid, attr). (luid, if held (luid, attr) then attr OR SE_PRIVILEGE_USED_FOR_ACCESS else attr)) reqprivs))"

subsection \<open>The access check\<close>

fun group_present :: "group list \<Rightarrow> byte list \<Rightarrow> bool \<Rightarrow> bool option" where
  "group_present [] sid deny = Some False"
| "group_present (g # gs) sid deny =
     (if \<not> g_enabled g \<or> g_deny_only g \<and> \<not> deny then group_present gs sid deny
      else do { eq \<leftarrow> security_equal_sid (g_sid g) sid; if eq then Some True else group_present gs sid deny })"

definition token_sid_present :: "token \<Rightarrow> byte list \<Rightarrow> bool \<Rightarrow> bool option" where
  "token_sid_present tok sid deny =
     do { eq \<leftarrow> security_equal_sid (user tok) sid; if eq then Some True else group_present (groups tok) sid deny }"

text \<open>
  One entry of the list: the rights granted and denied so far, afterwards; \<open>Some None\<close> when the entry denies a right
  that is desired and the check is over.
\<close>

definition check_ace :: "token \<Rightarrow> byte list \<Rightarrow> nat \<Rightarrow> 32 word \<Rightarrow> generic_mapping \<Rightarrow> 32 word \<Rightarrow> 32 word \<Rightarrow> (32 word \<times> 32 word) option option" where
  "check_ace tok m ace desired mapping cur denied =
     do { ty \<leftarrow> get8 m ace;
          if ty = 1 then do {
            present \<leftarrow> token_sid_present tok (drop (ace + 8) m) True;
            if present then do {
              a \<leftarrow> get32 m (ace + 4);
              let rights = map_generic_mask a mapping;
              if desired AND MAXIMUM_ALLOWED \<noteq> 0 then Some (Some (cur, denied OR rights))
              else if desired AND rights \<noteq> 0 then Some None
              else Some (Some (cur, denied OR (rights AND NOT cur))) }
            else Some (Some (cur, denied)) }
          else if ty = 0 then do {
            present \<leftarrow> token_sid_present tok (drop (ace + 8) m) False;
            if present then do {
              a \<leftarrow> get32 m (ace + 4);
              let rights = map_generic_mask a mapping;
              if desired AND MAXIMUM_ALLOWED \<noteq> 0 then Some (Some (cur OR rights, denied))
              else Some (Some (cur OR (rights AND NOT denied), denied)) }
            else Some (Some (cur, denied)) }
          else Some (Some (cur, denied)) }"

text \<open>The loop ends early when \<^verbatim>\<open>*granted_access\<close>, which is still 0, is what is desired.\<close>

fun check_aces :: "token \<Rightarrow> byte list \<Rightarrow> nat \<Rightarrow> nat \<Rightarrow> 32 word \<Rightarrow> generic_mapping \<Rightarrow> 32 word \<Rightarrow> 32 word \<Rightarrow> (32 word \<times> 32 word) option option" where
  "check_aces tok m ace 0 desired mapping cur denied = Some (Some (cur, denied))"
| "check_aces tok m ace (Suc n) desired mapping cur denied =
     do { r \<leftarrow> check_ace tok m ace desired mapping cur denied;
          case r of None \<Rightarrow> Some None
          | Some (cur, denied) \<Rightarrow>
              if desired = 0 then Some (Some (cur, denied))
              else do { ace_size \<leftarrow> get16 m (ace + 2); check_aces tok m (ace + ace_size) n desired mapping cur denied } }"

text \<open>What the check returns: its value, the privileges it used, their count, the rights granted, the error.\<close>

record access_result =
  r_access :: status
  r_privs :: "luid_and_attributes list"
  r_priv_count :: nat
  r_granted :: "32 word"
  r_status :: status

abbreviation "result a ps n g st \<equiv> \<lparr>r_access = a, r_privs = ps, r_priv_count = n, r_granted = g, r_status = st\<rparr>"

definition SeSecurityPrivilege :: luid where "SeSecurityPrivilege = (8, 0)"

text \<open>The tests from the owner on, with the rights there are so far and the privileges that gave them.\<close>

definition check_owner_and_dacl :: "token \<Rightarrow> byte list \<Rightarrow> nat \<Rightarrow> nat \<Rightarrow> 32 word \<Rightarrow> generic_mapping \<Rightarrow> 32 word \<Rightarrow>
    luid_and_attributes list \<Rightarrow> access_result option" where
  "check_owner_and_dacl tok m owner_at dacl desired mapping cur privs =
     do { own \<leftarrow> token_sid_present tok (drop owner_at m) False;
          let cur = (if own then cur OR (READ_CONTROL OR WRITE_DAC) else cur);
          if own \<and> desired = cur then Some (result STATUS_SUCCESS privs (length privs) cur STATUS_SUCCESS)
          else do {
            n \<leftarrow> get16 m (dacl + 4);
            r \<leftarrow> check_aces tok m (dacl + 8) n desired mapping cur 0;
            Some (case r of
              None \<Rightarrow> result STATUS_SUCCESS privs (length privs) 0 STATUS_SUCCESS
            | Some (cur, denied) \<Rightarrow>
                if desired AND MAXIMUM_ALLOWED \<noteq> 0
                then result (if cur AND NOT denied \<noteq> 0 then STATUS_SUCCESS else STATUS_ACCESS_DENIED) privs (length privs) (cur AND NOT denied) STATUS_SUCCESS
                else if cur AND desired = desired then result STATUS_SUCCESS privs (length privs) (cur AND desired) STATUS_SUCCESS
                else result STATUS_ACCESS_DENIED privs (length privs) 0 STATUS_SUCCESS) } }"

text \<open>\<open>room\<close> is \<^verbatim>\<open>*priv_count\<close>, how many privileges the caller takes; its pointer is not null.\<close>

definition token_access_check :: "token \<Rightarrow> byte list \<Rightarrow> 32 word \<Rightarrow> nat \<Rightarrow> generic_mapping \<Rightarrow> access_result option" where
  "token_access_check tok m desired room mapping =
     (if desired AND GENERIC_BITS \<noteq> 0 then Some (result STATUS_ACCESS_DENIED [] 0 0 STATUS_GENERIC_NOT_MAPPED)
      else do {
        sd \<leftarrow> sd_header_at m;
        case (sd_get_owner sd, sd_get_group sd) of
          (Some owner_at, Some _) \<Rightarrow>
            (case sd_get_dacl sd of
               (_, False) \<Rightarrow> Some (result STATUS_SUCCESS [] 0 desired STATUS_SUCCESS)
             | (None, True) \<Rightarrow> Some (result STATUS_ACCESS_DENIED [] 0 0 STATUS_SUCCESS)
             | (Some dacl, True) \<Rightarrow>
                 if desired AND ACCESS_SYSTEM_SECURITY \<noteq> 0 then
                   (case token_check_privileges tok True [(SeSecurityPrivilege, 0)] of
                      (False, _) \<Rightarrow> Some (result STATUS_PRIVILEGE_NOT_HELD [] 0 0 STATUS_SUCCESS)
                    | (True, used) \<Rightarrow>
                        if room < 1 then Some (result STATUS_BUFFER_TOO_SMALL [] 1 0 STATUS_SUCCESS)
                        else if desired = ACCESS_SYSTEM_SECURITY
                        then Some (result STATUS_SUCCESS used 1 ACCESS_SYSTEM_SECURITY STATUS_SUCCESS)
                        else check_owner_and_dacl tok m owner_at dacl desired mapping ACCESS_SYSTEM_SECURITY used)
                 else check_owner_and_dacl tok m owner_at dacl desired mapping 0 [])
        | _ \<Rightarrow> Some (result STATUS_ACCESS_DENIED [] 0 0 STATUS_INVALID_SECURITY_DESCR) })"

subsection \<open>The requests\<close>

text \<open>
  The bodies of the handlers, on the token that their handle names.  \<open>room\<close> is the space the client has for the reply.  An
  entry of an array of privileges has 12 bytes.
\<close>

definition access_check :: "token \<Rightarrow> byte list \<Rightarrow> 32 word \<Rightarrow> generic_mapping \<Rightarrow> nat \<Rightarrow> 'a env_scheme \<Rightarrow>
    (access_result option \<times> luid_and_attributes list \<times> 'a env_scheme) option" where
  "access_check tok m desired mapping room s =
     do { ok \<leftarrow> sd_is_valid m (length m);
          if \<not> ok then Some (None, [], set_error STATUS_ACCESS_VIOLATION s)
          else if primary tok then Some (None, [], set_error STATUS_NO_IMPERSONATION_TOKEN s)
          else do {
            r \<leftarrow> token_access_check tok m desired 1 mapping;
            (privs, s) \<leftarrow> (if r_priv_count r > 0 \<and> 12 * r_priv_count r \<le> room
               then (case mem_alloc s of (ok, s) \<Rightarrow> if ok then Some (r_privs r, s) else None)
               else Some ([], s));
            Some (Some r, privs, if r_status r \<noteq> STATUS_SUCCESS then set_error (r_status r) s else s) } }"

text \<open>The token, the length that the reply names and the previous privileges.\<close>

definition adjust_token_privileges :: "token \<Rightarrow> luid_and_attributes list \<Rightarrow> bool \<Rightarrow> bool \<Rightarrow> nat \<Rightarrow> 'a env_scheme \<Rightarrow>
    (token \<times> nat \<times> luid_and_attributes list \<times> 'a env_scheme) option" where
  "adjust_token_privileges tok privs get_modified_state disable_all room s =
     (let n = (if get_modified_state \<and> \<not> disable_all
               then min (length (filter (\<lambda>(luid, attr). token_find_privilege tok luid False \<noteq> None) privs)) (room div 12) else 0) in
      case (if n \<noteq> 0 then mem_alloc s else (False, s)) of (buf, s) \<Rightarrow>
        if disable_all then Some (token_disable_privileges tok, n * 12, [], s)
        else do { (tok, mods, s) \<leftarrow> token_adjust_privileges tok privs buf n s; Some (tok, n * 12, mods, s) })"

definition get_token_privileges :: "token \<Rightarrow> nat \<Rightarrow> 'a env_scheme \<Rightarrow> nat \<times> luid_and_attributes list \<times> 'a env_scheme" where
  "get_token_privileges tok room s =
     (let len = 12 * length (privileges tok) in
      if len \<le> room then (case set_reply_data (map luid_and_attr_from_privilege (privileges tok)) s of (d, s) \<Rightarrow> (len, d, s))
      else (len, [], set_error STATUS_BUFFER_TOO_SMALL s))"

fun copy_privileges :: "token \<Rightarrow> privilege list \<Rightarrow> 'a env_scheme \<Rightarrow> token \<times> 'a env_scheme" where
  "copy_privileges tok [] s = (tok, s)"
| "copy_privileges tok (p # ps) s =
     (case privilege_add tok (p_luid p) (p_enabled p) s of
        (None, s) \<Rightarrow> copy_privileges tok ps s | (Some tok, s) \<Rightarrow> copy_privileges tok ps s)"

fun copy_groups :: "group list \<Rightarrow> 'a env_scheme \<Rightarrow> bool \<times> 'a env_scheme" where
  "copy_groups [] s = (True, s)"
| "copy_groups (g # gs) s = (case mem_alloc s of (ok, s) \<Rightarrow> if ok then copy_groups gs s else (False, s))"

definition duplicate_token :: "token \<Rightarrow> bool \<Rightarrow> 'a env_scheme \<Rightarrow> (token option \<times> 'a env_scheme) option" where
  "duplicate_token src prim s =
     do { (tok, s) \<leftarrow> create_token prim (user src) [] [] (default_dacl src) (source src) s;
          case tok of None \<Rightarrow> Some (None, s)
          | Some tok \<Rightarrow> (case copy_groups (groups src) s of (ok, s) \<Rightarrow>
              if \<not> ok then Some (None, s)
              else case copy_privileges (tok\<lparr>groups := groups src\<rparr>) (privileges src) s of (tok, s) \<Rightarrow> Some (Some tok, s)) }"

definition check_token_privileges :: "token \<Rightarrow> bool \<Rightarrow> luid_and_attributes list \<Rightarrow> nat \<Rightarrow> 'a env_scheme \<Rightarrow>
    bool \<times> luid_and_attributes list \<times> 'a env_scheme" where
  "check_token_privileges tok all_required privs room s =
     (if room \<ge> 12 * length privs
      then (case token_check_privileges tok all_required privs of (has, used) \<Rightarrow>
              case set_reply_data used s of (d, s) \<Rightarrow> (has, d, s))
      else (False, [], set_error STATUS_BUFFER_OVERFLOW s))"

definition get_token_user :: "token \<Rightarrow> nat \<Rightarrow> 'a env_scheme \<Rightarrow> (nat \<times> byte list \<times> 'a env_scheme) option" where
  "get_token_user tok room s =
     do { sid \<leftarrow> copy_sid (user tok);
          Some (if length sid \<le> room then (case set_reply_data sid s of (d, s) \<Rightarrow> (length sid, d, s))
                else (length sid, [], set_error STATUS_BUFFER_TOO_SMALL s)) }"

definition group_attributes :: "group \<Rightarrow> 32 word" where
  "group_attributes g = (if g_mandatory g then SE_GROUP_MANDATORY else 0) OR (if g_def g then SE_GROUP_ENABLED_BY_DEFAULT else 0) OR
     (if g_enabled g then SE_GROUP_ENABLED else 0) OR (if g_owner g then SE_GROUP_OWNER else 0) OR
     (if g_deny_only g then SE_GROUP_USE_FOR_DENY_ONLY else 0) OR (if g_resource g then SE_GROUP_RESOURCE else 0)"

definition get_token_groups :: "token \<Rightarrow> nat \<Rightarrow> 'a env_scheme \<Rightarrow> (nat \<times> byte list \<times> 'a env_scheme) option" where
  "get_token_groups tok room s =
     do { sids \<leftarrow> those (map (copy_sid \<circ> g_sid) (groups tok));
          let needed = 4 + sum_list (map length sids) + 4 * length (groups tok);
          Some (if needed \<le> room
            then (case set_reply_data (bytes32 (word_of_nat (length (groups tok))) @ concat (map (bytes32 \<circ> group_attributes) (groups tok)) @ concat sids) s of
                    (d, s) \<Rightarrow> (needed, d, s))
            else (needed, [], set_error STATUS_BUFFER_TOO_SMALL s)) }"

end
