(* ===== verification/Token_Correct.thy ===== *)
theory Token_Correct
  imports Token
begin

text \<open>
  The access check against a reference that reads the descriptor first and decides without looking at the order of
  the entries, what the validation of a descriptor guarantees, and the invariant of tokens.
\<close>

subsection \<open>Well-formed tokens\<close>

definition sid_ok :: "sid \<Rightarrow> bool" where
  "sid_ok sid \<longleftrightarrow> 2 \<le> length sid \<and> length sid = sid_size (sid ! 1)"

definition token_ok :: "token \<Rightarrow> bool" where
  "token_ok tok \<longleftrightarrow> sid_ok (user tok) \<and> (\<forall>g \<in> set (groups tok). sid_ok (g_sid g)) \<and>
     (case default_dacl tok of None \<Rightarrow> True | Some acl \<Rightarrow> get16 acl 2 = Some (length acl))"

text \<open>Is the SID one of the token's?\<close>

definition has_sid :: "token \<Rightarrow> bool \<Rightarrow> sid \<Rightarrow> bool" where
  "has_sid tok deny sid \<longleftrightarrow> user tok = sid \<or> (\<exists>g \<in> set (groups tok). g_enabled g \<and> (g_deny_only g \<longrightarrow> deny) \<and> g_sid g = sid)"

lemma copy_sid_ok: "copy_sid xs = Some sid \<Longrightarrow> sid_ok sid \<and> get8 xs 1 = Some (sid ! 1) \<and> bytes_at xs 0 (length sid) = Some sid"
  by (auto simp: copy_sid_def get8_def bytes_at_def sid_ok_def sid_size_def split: bind_splits if_splits)

lemma sid_ok_copy: "sid_ok sid \<Longrightarrow> copy_sid sid = Some sid"
  by (auto simp: copy_sid_def get8_def bytes_at_def sid_ok_def)

lemma security_equal_sid_ok:
  assumes a: "sid_ok a" and x: "copy_sid b = Some x"
  shows "security_equal_sid a b = Some (a = x)"
proof -
  have g: "get8 a 1 = Some (a ! 1)" using a by (simp add: get8_def sid_ok_def)
  have sa: "bytes_at a 0 (sid_size (a ! 1)) = Some a" using a by (simp add: bytes_at_def sid_ok_def)
  note f = copy_sid_ok [OF x]
  then have sx: "bytes_at b 0 (sid_size (x ! 1)) = Some x" unfolding sid_ok_def by metis
  show ?thesis
  proof (cases "a ! 1 = x ! 1")
    case True
    then show ?thesis using g sa sx f by (simp add: security_equal_sid_def)
  next
    case False
    then show ?thesis using g f by (auto simp: security_equal_sid_def)
  qed
qed

lemma group_present_ok:
  "\<forall>g \<in> set gs. sid_ok (g_sid g) \<Longrightarrow> copy_sid b = Some x \<Longrightarrow>
   group_present gs b deny = Some (\<exists>g \<in> set gs. g_enabled g \<and> (g_deny_only g \<longrightarrow> deny) \<and> g_sid g = x)"
  by (induction gs) (auto simp: security_equal_sid_ok)

lemma token_sid_present_ok: "token_ok tok \<Longrightarrow> copy_sid b = Some x \<Longrightarrow> token_sid_present tok b deny = Some (has_sid tok deny x)"
  by (auto simp: token_sid_present_def token_ok_def security_equal_sid_ok group_present_ok has_sid_def)

subsection \<open>Reading a descriptor\<close>

type_synonym ace = "byte \<times> 32 word \<times> sid"

definition ace_at :: "byte list \<Rightarrow> nat \<Rightarrow> ace option" where
  "ace_at m off = do { ty \<leftarrow> get8 m off; a \<leftarrow> get32 m (off + 4); sid \<leftarrow> copy_sid (drop (off + 8) m); Some (ty, a, sid) }"

fun aces_at :: "byte list \<Rightarrow> nat \<Rightarrow> nat \<Rightarrow> ace list option" where
  "aces_at m off 0 = Some []"
| "aces_at m off (Suc n) = do { x \<leftarrow> ace_at m off; sz \<leftarrow> get16 m (off + 2); xs \<leftarrow> aces_at m (off + sz) n; Some (x # xs) }"

definition acl_at :: "byte list \<Rightarrow> nat \<Rightarrow> ace list option" where
  "acl_at m off = do { n \<leftarrow> get16 m (off + 4); aces_at m (off + 8) n }"

record descriptor =
  d_owner :: "sid option"
  d_group :: bool
  d_present :: bool
  d_aces :: "ace list option"

definition descriptor_at :: "byte list \<Rightarrow> descriptor option" where
  "descriptor_at m = do { sd \<leftarrow> sd_header_at m;
     own \<leftarrow> (case sd_get_owner sd of None \<Rightarrow> Some None | Some off \<Rightarrow> map_option Some (copy_sid (drop off m)));
     aces \<leftarrow> (case fst (sd_get_dacl sd) of None \<Rightarrow> Some None | Some off \<Rightarrow> map_option Some (acl_at m off));
     Some \<lparr>d_owner = own, d_group = (sd_get_group sd \<noteq> None), d_present = snd (sd_get_dacl sd), d_aces = aces\<rparr> }"

text \<open>The entries that the code visits are not shorter than their fixed part.\<close>

fun no_tiny :: "byte list \<Rightarrow> nat \<Rightarrow> nat \<Rightarrow> bool" where
  "no_tiny m off 0 \<longleftrightarrow> True"
| "no_tiny m off (Suc n) \<longleftrightarrow> (case get16 m (off + 2) of None \<Rightarrow> True | Some sz \<Rightarrow> 8 \<le> sz \<and> no_tiny m (off + sz) n)"

definition no_tiny_acl :: "byte list \<Rightarrow> nat option \<Rightarrow> bool" where
  "no_tiny_acl m acl \<longleftrightarrow> (case acl of None \<Rightarrow> True
     | Some off \<Rightarrow> (case get16 m (off + 4) of None \<Rightarrow> True | Some n \<Rightarrow> no_tiny m (off + 8) n))"

text \<open>What the code relies on and does not test: no entry is tiny, and the counts of the two SIDs are in the message.\<close>

definition sd_clean :: "byte list \<Rightarrow> bool" where
  "sd_clean m \<longleftrightarrow> (case sd_header_at m of None \<Rightarrow> True
     | Some sd \<Rightarrow> no_tiny_acl m (fst (sd_get_sacl sd)) \<and> no_tiny_acl m (fst (sd_get_dacl sd)) \<and>
         (\<forall>off \<in> set_option (sd_get_owner sd) \<union> set_option (sd_get_group sd). off + 1 < length m))"

lemma get_Some: "i < length m \<Longrightarrow> get8 m i = Some (m ! i)"
  "i + 1 < length m \<Longrightarrow> \<exists>n. get16 m i = Some n \<and> n < 65536"
  "i + 3 < length m \<Longrightarrow> \<exists>w. get32 m i = Some w"
proof -
  have "unat a < 256" for a :: byte by (rule order.strict_trans2 [OF unsigned_less]) simp
  then have w: "unat a + 256 * unat b < 65536" for a b :: byte
  proof -
    assume l: "\<And>a :: byte. unat a < 256"
    show ?thesis using l [of a] l [of b] by simp
  qed
  then show "i + 1 < length m \<Longrightarrow> \<exists>n. get16 m i = Some n \<and> n < 65536" by (simp add: get16_def get8_def)
qed (auto simp: get8_def get32_def)

lemma sub32_le: "b \<le> a \<Longrightarrow> a < 2 ^ 32 \<Longrightarrow> sub32 a b = a - b"
  by (simp add: sub32_def unat_sub_if' word_le_nat_alt unat_of_nat take_bit_nat_eq_self)

lemma copy_sid_Some: "2 \<le> length xs \<Longrightarrow> sid_size (xs ! 1) \<le> length xs \<Longrightarrow> \<exists>sid. copy_sid xs = Some sid"
  by (simp add: copy_sid_def get8_def bytes_at_def)

lemma aces_valid_ok:
  "off + sz \<le> length m \<Longrightarrow> no_tiny m off n \<Longrightarrow> \<exists>b. aces_valid m off n sz = Some b \<and> (b \<longrightarrow> (\<exists>aces. aces_at m off n = Some aces))"
proof (induction n arbitrary: off sz)
  case (Suc n)
  show ?case
  proof (cases "sz < 4")
    case False
    then obtain as where as: "get16 m (off + 2) = Some as" "as < 65536" using get_Some(2) [of "off + 2" m] Suc.prems(1) by auto
    then have t: "8 \<le> as" "no_tiny m (off + as) n" using Suc.prems(2) by auto
    have ty: "get8 m off = Some (m ! off)" using False Suc.prems(1) by (simp add: get8_def)
    have sub: "sub32 as 8 = as - 8" using sub32_le t(1) as(2) by simp
    show ?thesis
    proof (cases "sz < as \<or> m ! off > 3 \<or> as < 16")
      case True
      then show ?thesis using False as(1) ty sub t(1) by auto
    next
      case sz: False
      then have in': "off + 9 < length m" "16 \<le> as" "as \<le> sz" using Suc.prems(1) by auto
      then have subs: "get8 m (off + 9) = Some (m ! (off + 9))" by (simp add: get8_def)
      show ?thesis
      proof (cases "as - 8 < sid_size (m ! (off + 9))")
        case True
        then show ?thesis using False as(1) ty sub sz in'(2) subs by auto
      next
        case fits: False
        have "off + as + (sz - as) \<le> length m" using Suc.prems(1) in'(3) by simp
        from Suc.IH [OF this t(2)] obtain b where b: "aces_valid m (off + as) n (sz - as) = Some b"
            "b \<longrightarrow> (\<exists>aces. aces_at m (off + as) n = Some aces)" by blast
        have nth: "drop (off + 8) m ! 1 = m ! (off + 9)" using in'(1) by (simp add: nth_drop add.commute)
        have "2 \<le> length (drop (off + 8) m)" "sid_size (drop (off + 8) m ! 1) \<le> length (drop (off + 8) m)"
          unfolding nth length_drop using fits in' Suc.prems(1) by linarith+
        then obtain sid where "copy_sid (drop (off + 8) m) = Some sid" using copy_sid_Some by blast
        moreover obtain a where "get32 m (off + 4) = Some a" using get_Some(3) [of "off + 4" m] in'(1) by auto
        ultimately have "ace_at m off = Some (m ! off, a, sid)" using ty by (simp add: ace_at_def)
        then show ?thesis using b False as(1) ty sub sz in'(2) subs fits by auto
      qed
    qed
  qed (auto intro: exI [of _ False])
qed (auto intro: exI [of _ True])

lemma acl_ok_sound:
  assumes "off + len \<le> length m" "no_tiny_acl m (Some off)"
  shows "\<exists>b. acl_ok m (Some off) len = Some b \<and> (b \<longrightarrow> (\<exists>aces. acl_at m off = Some aces))"
proof (cases "len < 8")
  case False
  then obtain n where n: "get16 m (off + 4) = Some n" using get_Some(2) [of "off + 4" m] assms(1) by auto
  have "\<exists>b. aces_valid m (off + 8) n (min len MAX_ACL_LEN - 8) = Some b \<and> (b \<longrightarrow> (\<exists>aces. aces_at m (off + 8) n = Some aces))"
    by (rule aces_valid_ok) (use assms n False in \<open>auto simp: no_tiny_acl_def\<close>)
  then show ?thesis using n False by (auto simp: acl_ok_def acl_is_valid_def acl_at_def)
qed (auto simp: acl_ok_def acl_is_valid_def)

subsection \<open>The decision\<close>

definition allowed_bits :: "token \<Rightarrow> generic_mapping \<Rightarrow> ace list \<Rightarrow> 32 word" where
  "allowed_bits tok mapping aces =
     foldr (\<lambda>(ty, a, sid) bits. if ty = 0 \<and> has_sid tok False sid then map_generic_mask a mapping OR bits else bits) aces 0"

definition denied_bits :: "token \<Rightarrow> generic_mapping \<Rightarrow> ace list \<Rightarrow> 32 word" where
  "denied_bits tok mapping aces =
     foldr (\<lambda>(ty, a, sid) bits. if ty = 1 \<and> has_sid tok True sid then map_generic_mask a mapping OR bits else bits) aces 0"

text \<open>
  What the check returns: its value, the rights granted and the error.  The order of the entries does not matter.
\<close>

definition decide_dacl :: "token \<Rightarrow> generic_mapping \<Rightarrow> 32 word \<Rightarrow> 32 word \<Rightarrow> sid \<Rightarrow> ace list \<Rightarrow> status \<times> 32 word \<times> status" where
  "decide_dacl tok mapping desired base own aces =
     (let owns = has_sid tok False own;
          base = (if owns then base OR (READ_CONTROL OR WRITE_DAC) else base);
          allowed = base OR allowed_bits tok mapping aces;
          denied = denied_bits tok mapping aces in
      if owns \<and> desired = base then (STATUS_SUCCESS, desired, STATUS_SUCCESS)
      else if desired AND MAXIMUM_ALLOWED \<noteq> 0
      then (if allowed AND NOT denied \<noteq> 0 then STATUS_SUCCESS else STATUS_ACCESS_DENIED, allowed AND NOT denied, STATUS_SUCCESS)
      else if desired AND denied \<noteq> 0 then (STATUS_SUCCESS, 0, STATUS_SUCCESS)
      else if allowed AND desired = desired then (STATUS_SUCCESS, desired, STATUS_SUCCESS)
      else (STATUS_ACCESS_DENIED, 0, STATUS_SUCCESS))"

definition decide :: "token \<Rightarrow> generic_mapping \<Rightarrow> 32 word \<Rightarrow> descriptor \<Rightarrow> status \<times> 32 word \<times> status" where
  "decide tok mapping desired d =
     (if desired AND GENERIC_BITS \<noteq> 0 then (STATUS_ACCESS_DENIED, 0, STATUS_GENERIC_NOT_MAPPED)
      else case d_owner d of None \<Rightarrow> (STATUS_ACCESS_DENIED, 0, STATUS_INVALID_SECURITY_DESCR)
      | Some own \<Rightarrow>
          if \<not> d_group d then (STATUS_ACCESS_DENIED, 0, STATUS_INVALID_SECURITY_DESCR)
          else if \<not> d_present d then (STATUS_SUCCESS, desired, STATUS_SUCCESS)
          else case d_aces d of None \<Rightarrow> (STATUS_ACCESS_DENIED, 0, STATUS_SUCCESS)
          | Some aces \<Rightarrow>
              if desired AND ACCESS_SYSTEM_SECURITY = 0 then decide_dacl tok mapping desired 0 own aces
              else if \<not> fst (token_check_privileges tok True [(SeSecurityPrivilege, 0)]) then (STATUS_PRIVILEGE_NOT_HELD, 0, STATUS_SUCCESS)
              else if desired = ACCESS_SYSTEM_SECURITY then (STATUS_SUCCESS, desired, STATUS_SUCCESS)
              else decide_dacl tok mapping desired ACCESS_SYSTEM_SECURITY own aces)"

lemma bits_Cons:
  "allowed_bits tok mapping ((ty, a, sid) # aces) =
     (if ty = 0 \<and> has_sid tok False sid then map_generic_mask a mapping else 0) OR allowed_bits tok mapping aces"
  "denied_bits tok mapping ((ty, a, sid) # aces) =
     (if ty = 1 \<and> has_sid tok True sid then map_generic_mask a mapping else 0) OR denied_bits tok mapping aces"
  by (simp_all add: allowed_bits_def denied_bits_def)

lemma bits_Nil [simp]: "allowed_bits tok mapping [] = 0" "denied_bits tok mapping [] = 0"
  by (simp_all add: allowed_bits_def denied_bits_def)

lemma check_ace_ok:
  assumes tok: "token_ok tok" and ace: "ace_at m off = Some (ty, a, sid)"
  shows "check_ace tok m off desired mapping cur denied =
    (let g = (if ty = 0 \<and> has_sid tok False sid then map_generic_mask a mapping else 0);
         d = (if ty = 1 \<and> has_sid tok True sid then map_generic_mask a mapping else 0) in
     if desired AND MAXIMUM_ALLOWED \<noteq> 0 then Some (Some (cur OR g, denied OR d))
     else if desired AND d \<noteq> 0 then Some None
     else Some (Some (cur OR (g AND NOT denied), denied OR (d AND NOT cur))))"
proof -
  have f: "get8 m off = Some ty" "get32 m (off + 4) = Some a" "copy_sid (drop (off + 8) m) = Some sid"
    using ace by (auto simp: ace_at_def split: bind_splits)
  show ?thesis using f token_sid_present_ok [OF tok f(3)] by (simp add: check_ace_def Let_def)
qed

lemma check_aces_maximum:
  "token_ok tok \<Longrightarrow> aces_at m off n = Some aces \<Longrightarrow> desired AND MAXIMUM_ALLOWED \<noteq> 0 \<Longrightarrow>
   check_aces tok m off n desired mapping cur denied =
     Some (Some (cur OR allowed_bits tok mapping aces, denied OR denied_bits tok mapping aces))"
proof (induction n arbitrary: off aces cur denied)
  case (Suc n)
  obtain ty a sid sz xs where x: "ace_at m off = Some (ty, a, sid)" "get16 m (off + 2) = Some sz" "aces_at m (off + sz) n = Some xs"
      "aces = (ty, a, sid) # xs" using Suc.prems(2) by (auto split: bind_splits)
  have "desired \<noteq> 0" using Suc.prems(3) by auto
  then show ?case using x(2,4) Suc.IH [OF Suc.prems(1) x(3) Suc.prems(3)] Suc.prems(3)
    by (simp add: check_ace_ok [OF Suc.prems(1) x(1)] Let_def bits_Cons or.assoc)
qed simp

lemma and_or_zero: "x AND (a OR b) = 0 \<longleftrightarrow> x AND a = 0 \<and> x AND (b :: 32 word) = 0"
  by (simp add: bit.conj_disj_distrib or_eq_0_iff)

lemma check_aces_desired:
  "token_ok tok \<Longrightarrow> aces_at m off n = Some aces \<Longrightarrow> desired AND MAXIMUM_ALLOWED = 0 \<Longrightarrow> desired AND denied = 0 \<Longrightarrow>
   \<exists>cur' denied'. check_aces tok m off n desired mapping cur denied =
       Some (if desired AND denied_bits tok mapping aces \<noteq> 0 then None else Some (cur', denied')) \<and>
     (desired AND denied_bits tok mapping aces = 0 \<longrightarrow> cur' AND desired = (cur OR allowed_bits tok mapping aces) AND desired)"
proof (induction n arbitrary: off aces cur denied)
  case (Suc n)
  obtain ty a sid sz xs where x: "ace_at m off = Some (ty, a, sid)" "get16 m (off + 2) = Some sz" "aces_at m (off + sz) n = Some xs"
      "aces = (ty, a, sid) # xs" using Suc.prems(2) by (auto split: bind_splits)
  define g where "g = (if ty = 0 \<and> has_sid tok False sid then map_generic_mask a mapping else 0)"
  define d where "d = (if ty = 1 \<and> has_sid tok True sid then map_generic_mask a mapping else 0)"
  have ace: "check_ace tok m off desired mapping cur denied = (if desired AND d \<noteq> 0 then Some None
      else Some (Some (cur OR (g AND NOT denied), denied OR (d AND NOT cur))))"
    using check_ace_ok [OF Suc.prems(1) x(1), of desired mapping cur denied] Suc.prems(3) by (simp add: Let_def g_def d_def)
  have bits: "allowed_bits tok mapping aces = g OR allowed_bits tok mapping xs" "denied_bits tok mapping aces = d OR denied_bits tok mapping xs"
    unfolding x(4) bits_Cons g_def d_def by simp_all
  show ?case
  proof (cases "desired AND d = 0")
    case False
    then have "desired AND denied_bits tok mapping aces \<noteq> 0" by (simp add: bits and_or_zero)
    then show ?thesis using ace False by simp
  next
    case True
    show ?thesis
    proof (cases "desired = 0")
      case True
      then show ?thesis using ace by simp
    next
      case False
      have "desired AND (denied OR (d AND NOT cur)) = 0" using Suc.prems(4) True by (simp add: and_or_zero and.assoc [symmetric])
      from Suc.IH [OF Suc.prems(1) x(3) Suc.prems(3) this, of "cur OR (g AND NOT denied)"]
      obtain c' d' where c: "check_aces tok m (off + sz) n desired mapping (cur OR (g AND NOT denied)) (denied OR (d AND NOT cur)) =
           Some (if desired AND denied_bits tok mapping xs \<noteq> 0 then None else Some (c', d'))"
         "desired AND denied_bits tok mapping xs = 0 \<longrightarrow>
           c' AND desired = ((cur OR (g AND NOT denied)) OR allowed_bits tok mapping xs) AND desired" by blast
      have sub: "(g AND NOT denied) AND desired = g AND desired"
      proof (rule bit_eqI)
        fix i assume p: "possible_bit TYPE(32 word) i"
        have "\<not> (bit desired i \<and> bit denied i)" using arg_cong [OF Suc.prems(4), of "\<lambda>w. bit w i"] by (simp add: bit_and_iff)
        with p show "bit ((g AND NOT denied) AND desired) i = bit (g AND desired) i" by (auto simp: bit_simps)
      qed
      have "((cur OR (g AND NOT denied)) OR allowed_bits tok mapping xs) AND desired = (cur OR allowed_bits tok mapping aces) AND desired"
        unfolding bits(1) bit.conj_disj_distrib2 sub by (simp add: or.assoc)
      then show ?thesis using c ace True False x(2) by (auto simp: bits(2) and_or_zero)
    qed
  qed
qed auto

lemma check_owner_and_dacl_ok:
  assumes tok: "token_ok tok" and own: "copy_sid (drop owner_at m) = Some own" and acl: "acl_at m dacl = Some aces"
  shows "\<exists>r. check_owner_and_dacl tok m owner_at dacl desired mapping base privs = Some r \<and>
    (r_access r, r_granted r, r_status r) = decide_dacl tok mapping desired base own aces \<and> r_privs r = privs \<and> r_priv_count r = length privs"
proof -
  define owns where "owns = has_sid tok False own"
  define cur where "cur = (if owns then base OR (READ_CONTROL OR WRITE_DAC) else base)"
  have present: "token_sid_present tok (drop owner_at m) False = Some owns" using token_sid_present_ok [OF tok own] by (simp add: owns_def)
  obtain n where n: "get16 m (dacl + 4) = Some n" "aces_at m (dacl + 8) n = Some aces" using acl by (auto simp: acl_at_def split: bind_splits)
  show ?thesis
  proof (cases "owns \<and> desired = cur")
    case True
    then have "check_owner_and_dacl tok m owner_at dacl desired mapping base privs = Some (result STATUS_SUCCESS privs (length privs) cur STATUS_SUCCESS)"
      using present unfolding check_owner_and_dacl_def cur_def by simp
    moreover have "decide_dacl tok mapping desired base own aces = (STATUS_SUCCESS, cur, STATUS_SUCCESS)"
      using True unfolding decide_dacl_def Let_def owns_def [symmetric] cur_def [symmetric] by simp
    ultimately show ?thesis by simp
  next
    case False
    obtain r where r: "check_aces tok m (dacl + 8) n desired mapping cur 0 = Some r"
        "desired AND MAXIMUM_ALLOWED \<noteq> 0 \<Longrightarrow> r = Some (cur OR allowed_bits tok mapping aces, denied_bits tok mapping aces)"
        "desired AND MAXIMUM_ALLOWED = 0 \<Longrightarrow> desired AND denied_bits tok mapping aces \<noteq> 0 \<Longrightarrow> r = None"
        "desired AND MAXIMUM_ALLOWED = 0 \<Longrightarrow> desired AND denied_bits tok mapping aces = 0 \<Longrightarrow>
           \<exists>c d. r = Some (c, d) \<and> c AND desired = (cur OR allowed_bits tok mapping aces) AND desired"
    proof (cases "desired AND MAXIMUM_ALLOWED = 0")
      case True
      then show ?thesis using check_aces_desired [OF tok n(2) True, of 0 mapping cur] that by (auto split: if_splits)
    next
      case False
      then show ?thesis using check_aces_maximum [OF tok n(2) False, of mapping cur 0] that by auto
    qed
    have run: "check_owner_and_dacl tok m owner_at dacl desired mapping base privs = Some (case r of
        None \<Rightarrow> result STATUS_SUCCESS privs (length privs) 0 STATUS_SUCCESS
      | Some (cur, denied) \<Rightarrow>
          if desired AND MAXIMUM_ALLOWED \<noteq> 0
          then result (if cur AND NOT denied \<noteq> 0 then STATUS_SUCCESS else STATUS_ACCESS_DENIED) privs (length privs) (cur AND NOT denied) STATUS_SUCCESS
          else if cur AND desired = desired then result STATUS_SUCCESS privs (length privs) (cur AND desired) STATUS_SUCCESS
          else result STATUS_ACCESS_DENIED privs (length privs) 0 STATUS_SUCCESS)"
      unfolding check_owner_and_dacl_def present Option.bind.simps Let_def cur_def [symmetric] if_not_P [OF False] using n(1) r(1) by simp
    have dec: "decide_dacl tok mapping desired base own aces =
       (let allowed = cur OR allowed_bits tok mapping aces; denied = denied_bits tok mapping aces in
        if desired AND MAXIMUM_ALLOWED \<noteq> 0
        then (if allowed AND NOT denied \<noteq> 0 then STATUS_SUCCESS else STATUS_ACCESS_DENIED, allowed AND NOT denied, STATUS_SUCCESS)
        else if desired AND denied \<noteq> 0 then (STATUS_SUCCESS, 0, STATUS_SUCCESS)
        else if allowed AND desired = desired then (STATUS_SUCCESS, desired, STATUS_SUCCESS)
        else (STATUS_ACCESS_DENIED, 0, STATUS_SUCCESS))"
      unfolding decide_dacl_def Let_def owns_def [symmetric] cur_def [symmetric] if_not_P [OF False] by (rule refl)
    consider "desired AND MAXIMUM_ALLOWED \<noteq> 0" | "desired AND MAXIMUM_ALLOWED = 0" "desired AND denied_bits tok mapping aces \<noteq> 0"
      | "desired AND MAXIMUM_ALLOWED = 0" "desired AND denied_bits tok mapping aces = 0" by blast
    then show ?thesis
    proof cases
      case 1
      then show ?thesis using run dec r(2) by (simp add: Let_def)
    next
      case 2
      then show ?thesis using run dec r(3) by (simp add: Let_def)
    next
      case 3
      then obtain c d where c: "r = Some (c, d)" "c AND desired = (cur OR allowed_bits tok mapping aces) AND desired" using r(4) by blast
      then show ?thesis using run dec 3 by (simp add: Let_def)
    qed
  qed
qed

lemma token_access_check_ok:
  assumes tok: "token_ok tok" and d: "descriptor_at m = Some d"
  shows "\<exists>r. token_access_check tok m desired 1 mapping = Some r \<and> (r_access r, r_granted r, r_status r) = decide tok mapping desired d \<and>
    r_priv_count r = length (r_privs r)"
proof -
  obtain sd own aces where sd: "sd_header_at m = Some sd"
    and own: "(case sd_get_owner sd of None \<Rightarrow> Some None | Some off \<Rightarrow> map_option Some (copy_sid (drop off m))) = Some own"
    and aces: "(case fst (sd_get_dacl sd) of None \<Rightarrow> Some None | Some off \<Rightarrow> map_option Some (acl_at m off)) = Some aces"
    and d': "d = \<lparr>d_owner = own, d_group = (sd_get_group sd \<noteq> None), d_present = snd (sd_get_dacl sd), d_aces = aces\<rparr>"
    using d by (auto simp: descriptor_at_def split: bind_splits)
  show ?thesis
  proof (cases "desired AND GENERIC_BITS \<noteq> 0 \<or> own = None \<or> sd_get_group sd = None \<or> \<not> snd (sd_get_dacl sd) \<or> aces = None")
    case True
    then show ?thesis using sd own aces
      by (cases "sd_get_owner sd"; cases "sd_get_group sd"; cases "sd_get_dacl sd")
        (auto simp: token_access_check_def decide_def d' split: option.splits bool.splits)
  next
    case False
    then obtain o1 g where og: "sd_get_owner sd = Some o1" "sd_get_group sd = Some g" "own \<noteq> None" using own by (cases "sd_get_owner sd") auto
    then obtain sid where sid: "own = Some sid" "copy_sid (drop o1 m) = Some sid" using own by auto
    obtain acl es where acl: "sd_get_dacl sd = (Some acl, True)" "aces = Some es" "acl_at m acl = Some es"
      using False aces by (cases "sd_get_dacl sd"; cases "fst (sd_get_dacl sd)") auto
    obtain held used where priv: "token_check_privileges tok True [(SeSecurityPrivilege, 0)] = (held, used)" by fastforce
    have used: "length used = 1" using priv by (auto simp: token_check_privileges_def Let_def)
    have run: "token_access_check tok m desired 1 mapping =
        (if desired AND ACCESS_SYSTEM_SECURITY \<noteq> 0 then
           if \<not> held then Some (result STATUS_PRIVILEGE_NOT_HELD [] 0 0 STATUS_SUCCESS)
           else if desired = ACCESS_SYSTEM_SECURITY then Some (result STATUS_SUCCESS used 1 ACCESS_SYSTEM_SECURITY STATUS_SUCCESS)
           else check_owner_and_dacl tok m o1 acl desired mapping ACCESS_SYSTEM_SECURITY used
         else check_owner_and_dacl tok m o1 acl desired mapping 0 [])"
      using False sd og(1,2) acl(1) priv by (simp add: token_access_check_def split: bool.split)
    have dec: "decide tok mapping desired d =
        (if desired AND ACCESS_SYSTEM_SECURITY = 0 then decide_dacl tok mapping desired 0 sid es
         else if \<not> held then (STATUS_PRIVILEGE_NOT_HELD, 0, STATUS_SUCCESS)
         else if desired = ACCESS_SYSTEM_SECURITY then (STATUS_SUCCESS, desired, STATUS_SUCCESS)
         else decide_dacl tok mapping desired ACCESS_SYSTEM_SECURITY sid es)"
      using False sid(1) acl(2) priv by (simp add: decide_def d')
    have c: "\<exists>r. check_owner_and_dacl tok m o1 acl desired mapping base privs = Some r \<and>
        (r_access r, r_granted r, r_status r) = decide_dacl tok mapping desired base sid es \<and> r_priv_count r = length (r_privs r)" for base privs
      using check_owner_and_dacl_ok [OF tok sid(2) acl(3), of desired mapping base privs] by auto
    consider "desired AND ACCESS_SYSTEM_SECURITY = 0" | "desired AND ACCESS_SYSTEM_SECURITY \<noteq> 0" "\<not> held \<or> desired = ACCESS_SYSTEM_SECURITY"
      | "desired AND ACCESS_SYSTEM_SECURITY \<noteq> 0" "held" "desired \<noteq> ACCESS_SYSTEM_SECURITY" by blast
    then show ?thesis
    proof cases
      case 1
      then show ?thesis unfolding run dec using c by simp
    next
      case 2
      then show ?thesis unfolding run dec using used by auto
    next
      case 3
      then show ?thesis unfolding run dec using c by simp
    qed
  qed
qed

subsection \<open>The validation and the request\<close>

lemma sid_fits_sound:
  assumes "off + len \<le> length m" "off + 1 < length m"
  shows "\<exists>b. sid_fits m (Some off) len2 = Some b \<and> (b \<and> len2 = len \<longrightarrow> (\<exists>sid. copy_sid (drop off m) = Some sid))"
proof -
  have g: "get8 m (off + 1) = Some (m ! (off + 1))" using assms(2) by (simp add: get8_def)
  have nth: "drop off m ! 1 = m ! (off + 1)" using assms(2) by (simp add: nth_drop)
  have "\<exists>sid. copy_sid (drop off m) = Some sid" if "12 \<le> len" "sid_size (m ! (off + 1)) \<le> len"
  proof (rule copy_sid_Some)
    show "2 \<le> length (drop off m)" using assms(1) that(1) by simp
    show "sid_size (drop off m ! 1) \<le> length (drop off m)" unfolding nth using assms(1) that(2) by simp
  qed
  then show ?thesis using g by (auto simp: sid_fits_def)
qed

lemma sd_header_Some: "20 \<le> length m \<Longrightarrow> \<exists>sd. sd_header_at m = Some sd"
proof -
  assume l: "20 \<le> length m"
  have w: "\<exists>w. get32 m i = Some w" if "i \<le> 16" for i using get_Some(3) [of i m] l that by simp
  obtain a b c d e where "get32 m 0 = Some a" "get32 m 4 = Some b" "get32 m 8 = Some c" "get32 m 12 = Some d" "get32 m 16 = Some e"
    using w [of 0] w [of 4] w [of 8] w [of 12] w [of 16] by auto
  then show ?thesis by (simp add: sd_header_at_def len32_def)
qed

lemma sd_is_valid_sound:
  assumes clean: "sd_clean m"
  shows "\<exists>b. sd_is_valid m (length m) = Some b \<and> (b \<longrightarrow> (\<exists>d. descriptor_at m = Some d))"
proof (cases "length m < 20")
  case True
  then show ?thesis by (auto simp: sd_is_valid_def)
next
  case False
  then obtain sd where sd: "sd_header_at m = Some sd" using sd_header_Some by (metis not_less)
  have c: "no_tiny_acl m (fst (sd_get_sacl sd))" "no_tiny_acl m (fst (sd_get_dacl sd))"
      "\<And>off. sd_get_owner sd = Some off \<Longrightarrow> off + 1 < length m" "\<And>off. sd_get_group sd = Some off \<Longrightarrow> off + 1 < length m"
    using clean sd by (auto simp: sd_clean_def)
  let ?o1 = "20 + owner_len sd" let ?o2 = "?o1 + group_len sd" let ?o3 = "?o2 + sacl_len sd"
  show ?thesis
  proof (cases "owner_len sd \<ge> 1028 \<or> ?o1 > length m")
    case True
    then show ?thesis using False sd by (auto simp: sd_is_valid_def)
  next
    case l1: False
    have "\<exists>b. sid_fits m (sd_get_owner sd) (owner_len sd) = Some b \<and>
        (b \<longrightarrow> (\<exists>own. (case sd_get_owner sd of None \<Rightarrow> Some None | Some off \<Rightarrow> map_option Some (copy_sid (drop off m))) = Some own))"
    proof (cases "sd_get_owner sd")
      case (Some off)
      then have "off + owner_len sd \<le> length m" using l1 by (auto simp: sd_get_owner_def split: if_splits)
      then show ?thesis using sid_fits_sound [OF _ c(3) [OF Some], of "owner_len sd" "owner_len sd"] Some by auto
    qed (auto simp: sid_fits_def)
    then obtain b1 where b1: "sid_fits m (sd_get_owner sd) (owner_len sd) = Some b1"
      "b1 \<Longrightarrow> \<exists>own. (case sd_get_owner sd of None \<Rightarrow> Some None | Some off \<Rightarrow> map_option Some (copy_sid (drop off m))) = Some own" by blast
    show ?thesis
    proof (cases "\<not> b1 \<or> group_len sd \<ge> 1028 \<or> ?o2 > length m")
      case True
      then show ?thesis using False sd l1 b1(1) by (auto simp: sd_is_valid_def Let_def)
    next
      case l2: False
      have "\<exists>b2. sid_fits m (sd_get_group sd) (owner_len sd) = Some b2"
        using c(4) by (cases "sd_get_group sd") (auto simp: sid_fits_def get8_def)
      then obtain b2 where b2: "sid_fits m (sd_get_group sd) (owner_len sd) = Some b2" by blast
      show ?thesis
      proof (cases "\<not> b2 \<or> sacl_len sd \<ge> MAX_ACL_LEN \<or> ?o3 > length m")
        case True
        then show ?thesis using False sd l1 b1(1) l2 b2 by (auto simp: sd_is_valid_def Let_def)
      next
        case l3: False
        have acl: "\<exists>b. acl_ok m a len = Some b \<and> (b \<longrightarrow>
            (\<exists>aces. (case a of None \<Rightarrow> Some None | Some off \<Rightarrow> map_option Some (acl_at m off)) = Some aces))"
          if "no_tiny_acl m a" "\<And>off. a = Some off \<Longrightarrow> off + len \<le> length m" for a len
        proof (cases a)
          case (Some off)
          then show ?thesis using acl_ok_sound [of off len m] that by auto
        qed (auto simp: acl_ok_def)
        have "off + sacl_len sd \<le> length m" if "fst (sd_get_sacl sd) = Some off" for off
          using l3 that by (auto simp: sd_get_sacl_def split: if_splits)
        then obtain b3 where b3: "acl_ok m (fst (sd_get_sacl sd)) (sacl_len sd) = Some b3"
          using acl [OF c(1), of "sacl_len sd"] by blast
        show ?thesis
        proof (cases "\<not> b3 \<or> dacl_len sd \<ge> MAX_ACL_LEN \<or> ?o3 + dacl_len sd > length m")
          case True
          then show ?thesis using False sd l1 b1(1) l2 b2 l3 b3 by (auto simp: sd_is_valid_def Let_def)
        next
          case l4: False
          have "off + dacl_len sd \<le> length m" if "fst (sd_get_dacl sd) = Some off" for off
            using l4 that by (auto simp: sd_get_dacl_def split: if_splits)
          then obtain b4 where b4: "acl_ok m (fst (sd_get_dacl sd)) (dacl_len sd) = Some b4"
            "b4 \<Longrightarrow> \<exists>aces. (case fst (sd_get_dacl sd) of None \<Rightarrow> Some None | Some off \<Rightarrow> map_option Some (acl_at m off)) = Some aces"
            using acl [OF c(2), of "dacl_len sd"] by blast
          have "sd_is_valid m (length m) = Some b4" using False sd l1 b1(1) l2 b2 l3 b3 l4 b4(1) by (simp add: sd_is_valid_def Let_def)
          moreover have "\<exists>d. descriptor_at m = Some d" if b4
            using sd b1(2) b4(2) [OF that] l2 by (fastforce simp: descriptor_at_def)
          ultimately show ?thesis by blast
        qed
      qed
    qed
  qed
qed

lemma access_check_ok:
  assumes tok: "token_ok tok" and clean: "sd_clean m" and mem: "mem_oracle s = []"
  shows "\<exists>b. sd_is_valid m (length m) = Some b \<and>
    (if \<not> b then access_check tok m desired mapping room s = Some (None, [], set_error STATUS_ACCESS_VIOLATION s)
     else if primary tok then access_check tok m desired mapping room s = Some (None, [], set_error STATUS_NO_IMPERSONATION_TOKEN s)
     else \<exists>d r privs s'. descriptor_at m = Some d \<and> access_check tok m desired mapping room s = Some (Some r, privs, s') \<and>
       (r_access r, r_granted r, r_status r) = decide tok mapping desired d \<and>
       (r_status r \<noteq> STATUS_SUCCESS \<longrightarrow> get_error s' = r_status r))"
proof -
  obtain b where b: "sd_is_valid m (length m) = Some b" "b \<longrightarrow> (\<exists>d. descriptor_at m = Some d)" using sd_is_valid_sound [OF clean] by blast
  show ?thesis
  proof (cases "\<not> b \<or> primary tok")
    case True
    then show ?thesis using b(1) by (intro exI [of _ b]) (auto simp: access_check_def)
  next
    case False
    then obtain d where d: "descriptor_at m = Some d" using b(2) by blast
    obtain r where r: "token_access_check tok m desired 1 mapping = Some r" "(r_access r, r_granted r, r_status r) = decide tok mapping desired d"
      using token_access_check_ok [OF tok d] by blast
    define privs where "privs = (if r_priv_count r > 0 \<and> 12 * r_priv_count r \<le> room then r_privs r else [])"
    define s' where "s' = (if r_status r \<noteq> STATUS_SUCCESS then set_error (r_status r) s else s)"
    have "access_check tok m desired mapping room s = Some (Some r, privs, s')"
      using b(1) False r(1) mem by (simp add: access_check_def privs_def s'_def)
    moreover have "r_status r \<noteq> STATUS_SUCCESS \<longrightarrow> get_error s' = r_status r" by (simp add: s'_def)
    ultimately have "\<exists>d r privs s'. descriptor_at m = Some d \<and> access_check tok m desired mapping room s = Some (Some r, privs, s') \<and>
       (r_access r, r_granted r, r_status r) = decide tok mapping desired d \<and>
       (r_status r \<noteq> STATUS_SUCCESS \<longrightarrow> get_error s' = r_status r)" using d r(2) by blast
    then show ?thesis using b(1) False by (intro exI [of _ True]) simp
  qed
qed


subsection \<open>Messages\<close>

text \<open>A descriptor with the owner and the group \<open>interactive_sid\<close> and a list of entries.\<close>

definition message :: "byte list \<Rightarrow> byte list" where
  "message dacl = bytes32 SE_DACL_PRESENT @ bytes32 12 @ bytes32 12 @ bytes32 0 @ bytes32 (word_of_nat (length dacl)) @
     interactive_sid @ interactive_sid @ dacl"

definition sample_token :: token where
  "sample_token = \<lparr>privileges = [\<lparr>p_luid = (23, 0), p_enabled = True, p_def = True\<rparr>],
     groups = [\<lparr>g_enabled = True, g_def = True, g_logon = False, g_mandatory = True, g_owner = False, g_resource = False, g_deny_only = False,
       g_sid = world_sid\<rparr>], user = local_system_sid, primary = False, default_dacl = None, source = []\<rparr>"

text \<open>Reading (1) and writing (2) are allowed to the system, writing is denied to the world.\<close>

definition sample_dacl :: "byte list" where
  "sample_dacl = [4, 0, 48, 0, 2, 0, 0, 0] @ ([0, 0, 20, 0] @ bytes32 3 @ local_system_sid) @ ([1, 0, 20, 0] @ bytes32 2 @ world_sid)"

definition sample_mapping :: generic_mapping where
  "sample_mapping = \<lparr>GenericRead = 1, GenericWrite = 2, GenericExecute = 1, GenericAll = 3\<rparr>"

definition sample_env :: "unit env_scheme" where
  "sample_env = \<lparr>current = None, global_error = 0, thread_error = (\<lambda>_. 0), mem_oracle = []\<rparr>"

lemma sample_token_ok: "token_ok sample_token"
  by (simp add: token_ok_def sample_token_def sid_ok_def sid_size_def local_system_sid_def nt_sid_def world_sid_def bytes32_def)

lemma sample_bytes: "message sample_dacl =
    [4, 0, 0, 0, 12, 0, 0, 0, 12, 0, 0, 0, 0, 0, 0, 0, 48, 0, 0, 0] @ [1, 1, 0, 0, 0, 0, 0, 5, 4, 0, 0, 0] @ [1, 1, 0, 0, 0, 0, 0, 5, 4, 0, 0, 0] @
    [4, 0, 48, 0, 2, 0, 0, 0] @ [0, 0, 20, 0, 3, 0, 0, 0, 1, 1, 0, 0, 0, 0, 0, 5, 18, 0, 0, 0] @ [1, 0, 20, 0, 2, 0, 0, 0, 1, 1, 0, 0, 0, 0, 0, 1, 0, 0, 0, 0]"
  by (simp add: message_def sample_dacl_def bytes32_def interactive_sid_def local_system_sid_def nt_sid_def world_sid_def)

lemma sample_sd: "sd_header_at (message sample_dacl) = Some \<lparr>control = 4, owner_len = 12, group_len = 12, sacl_len = 0, dacl_len = 48\<rparr>"
  unfolding sample_bytes by (simp add: sd_header_at_def get32_def get8_def len32_def)


lemma two_entries:
  "no_tiny m off 2 \<longleftrightarrow> no_tiny m off (Suc (Suc 0))" "aces_at m off 2 = aces_at m off (Suc (Suc 0))"
  by (simp_all only: numeral_2_eq_2)

lemma sample_clean: "sd_clean (message sample_dacl)"
  unfolding sd_clean_def sample_sd
  by (simp add: sd_get_sacl_def sd_get_dacl_def sd_get_owner_def sd_get_group_def no_tiny_acl_def sample_bytes get16_def get8_def two_entries)

lemma sample_aces:
  "acl_at (message sample_dacl) 44 = Some [(0, 3, local_system_sid), (1, 2, world_sid)]"
  "copy_sid (drop 20 (message sample_dacl)) = Some interactive_sid"
  unfolding sample_bytes
  by (simp_all add: acl_at_def ace_at_def copy_sid_def bytes_at_def sid_size_def get16_def get8_def get32_def two_entries
      interactive_sid_def local_system_sid_def nt_sid_def world_sid_def bytes32_def)

lemma sample_descriptor: "descriptor_at (message sample_dacl) = Some \<lparr>d_owner = Some interactive_sid, d_group = True, d_present = True,
    d_aces = Some [(0, 3, local_system_sid), (1, 2, world_sid)]\<rparr>"
  unfolding descriptor_at_def sample_sd by (simp add: sd_get_dacl_def sd_get_owner_def sd_get_group_def sample_aces)

lemma two_entries_valid: "aces_valid m off 2 sz = aces_valid m off (Suc (Suc 0)) sz"
  by (simp only: numeral_2_eq_2)

lemma sample_valid: "sd_is_valid (message sample_dacl) (length (message sample_dacl)) = Some True"
  unfolding sd_is_valid_def sample_sd
  by (simp add: sid_fits_def sd_get_owner_def sd_get_group_def sd_get_sacl_def sd_get_dacl_def acl_ok_def acl_is_valid_def sample_bytes
      get16_def get8_def sid_size_def two_entries_valid sub32_def)

lemma sample_has_sid: "has_sid sample_token deny local_system_sid" "has_sid sample_token deny world_sid" "\<not> has_sid sample_token deny interactive_sid"
  by (simp_all add: has_sid_def sample_token_def interactive_sid_def local_system_sid_def nt_sid_def world_sid_def bytes32_def)

lemma sample_decide:
  "decide sample_token sample_mapping 1 \<lparr>d_owner = Some interactive_sid, d_group = True, d_present = True,
     d_aces = Some [(0, 3, local_system_sid), (1, 2, world_sid)]\<rparr> = (STATUS_SUCCESS, 1, STATUS_SUCCESS)"
  "decide sample_token sample_mapping 2 \<lparr>d_owner = Some interactive_sid, d_group = True, d_present = True,
     d_aces = Some [(0, 3, local_system_sid), (1, 2, world_sid)]\<rparr> = (STATUS_SUCCESS, 0, STATUS_SUCCESS)"
  by (simp_all add: decide_def decide_dacl_def sample_has_sid bits_Cons map_generic_mask_def)


subsection \<open>What the code does not do\<close>

text \<open>
  The right to write, which the first entry allows, is lost to the second, and the refusal is reported as success.  An entry
  of four bytes makes the validation read behind the message, and a group of one byte passes it as its SID is
  measured by the length of the owner.
\<close>

lemma access_check_denied:
  "\<exists>r privs s'. access_check sample_token (message sample_dacl) 2 sample_mapping 0 sample_env = Some (Some r, privs, s') \<and>
     r_access r = STATUS_SUCCESS \<and> r_granted r = 0"
proof -
  have "mem_oracle sample_env = []" "\<not> primary sample_token" by (simp_all add: sample_env_def sample_token_def)
  then show ?thesis
    using access_check_ok [OF sample_token_ok sample_clean, of sample_env 2 sample_mapping 0] sample_valid
    by (auto simp: sample_descriptor sample_decide(2))
qed

lemma tiny_ace_read_outside:
  "sd_is_valid (message [4, 0, 12, 0, 1, 0, 0, 0, 0, 0, 4, 0]) (length (message [4, 0, 12, 0, 1, 0, 0, 0, 0, 0, 4, 0])) = None"
  by (simp add: message_def interactive_sid_def nt_sid_def bytes32_def sd_is_valid_def sd_header_at_def len32_def get32_def
      sid_fits_def sd_get_owner_def sd_get_group_def sd_get_sacl_def sd_get_dacl_def acl_ok_def acl_is_valid_def
      get16_def get8_def sid_size_def sub32_def)

definition short_group :: "byte list" where
  "short_group = bytes32 SE_DACL_PRESENT @ bytes32 12 @ bytes32 1 @ bytes32 0 @ bytes32 8 @ interactive_sid @ [1] @ [1, 0, 8, 0, 0, 0, 0, 0]"

lemma short_group_accepted: "sd_is_valid short_group (length short_group) = Some True \<and> copy_sid (drop 32 short_group) = None"
  by (simp add: short_group_def interactive_sid_def nt_sid_def bytes32_def sd_is_valid_def sd_header_at_def len32_def get32_def
      sid_fits_def sd_get_owner_def sd_get_group_def sd_get_sacl_def sd_get_dacl_def acl_ok_def acl_is_valid_def
      get16_def get8_def sid_size_def sub32_def copy_sid_def bytes_at_def)

text \<open>When there is no memory for the reply the handlers write through its null pointer.\<close>

lemma adjust_null_reply:
  "adjust_token_privileges sample_token [((23, 0), 0)] True False 12 (sample_env\<lparr>mem_oracle := [False]\<rparr>) = None"
  by (simp add: adjust_token_privileges_def sample_token_def token_find_privilege_def is_equal_luid_def mem_alloc_def malloc_def)

end
