(* ===== verification/Token_Invariant.thy ===== *)
theory Token_Invariant
  imports Token_Correct
begin

text \<open>Every token the code makes or changes is well formed, and no change gives it a privilege that it did not have.\<close>

lemma mem_alloc_result: "mem_alloc s = (ok, s') \<Longrightarrow> mem_oracle s = [] \<Longrightarrow> ok \<and> mem_oracle s' = []"
  by simp

text \<open>A step that may make a token: it does when there is memory, and a token it makes has the property.\<close>

definition makes :: "(token \<Rightarrow> bool) \<Rightarrow> token option \<Rightarrow> 'a env_scheme \<Rightarrow> 'a env_scheme \<Rightarrow> bool" where
  "makes P r s s' \<longleftrightarrow> (mem_oracle s = [] \<longrightarrow> r \<noteq> None \<and> mem_oracle s' = []) \<and> (\<forall>t. r = Some t \<longrightarrow> P t)"

lemma makes_None: "mem_oracle s \<noteq> [] \<Longrightarrow> makes P None s s'"
  by (simp add: makes_def)

lemma makes_Some: "P t \<Longrightarrow> (mem_oracle s = [] \<Longrightarrow> mem_oracle s' = []) \<Longrightarrow> makes P (Some t) s s'"
  by (simp add: makes_def)

lemma makes_from: "makes P r t s' \<Longrightarrow> (mem_oracle s = [] \<Longrightarrow> mem_oracle t = []) \<Longrightarrow> makes P r s s'"
  by (simp add: makes_def)

lemma makes_mono: "makes P r s s' \<Longrightarrow> (\<And>t. P t \<Longrightarrow> Q t) \<Longrightarrow> makes Q r s s'"
  by (simp add: makes_def)

lemma makes_token: "makes P (Some t) s s' \<Longrightarrow> P t \<and> (mem_oracle s = [] \<longrightarrow> mem_oracle s' = [])"
  by (simp add: makes_def)

lemma makes_no_token: "makes P None s s' \<Longrightarrow> mem_oracle s \<noteq> []"
  by (auto simp: makes_def)

text \<open>What the building of a token leaves alone.\<close>

definition same_but_groups :: "token \<Rightarrow> token \<Rightarrow> bool" where
  "same_but_groups a b \<longleftrightarrow> user b = user a \<and> primary b = primary a \<and> privileges b = privileges a \<and> default_dacl b = default_dacl a"

definition same_but_privileges :: "token \<Rightarrow> token \<Rightarrow> bool" where
  "same_but_privileges a b \<longleftrightarrow> user b = user a \<and> primary b = primary a \<and> groups b = groups a \<and> default_dacl b = default_dacl a"

lemma same_but_privileges_ok: "same_but_privileges a b \<Longrightarrow> token_ok a \<Longrightarrow> token_ok b"
  by (simp add: same_but_privileges_def token_ok_def)

lemma same_but_privileges_refl [simp]: "same_but_privileges a a" "same_but_privileges a (a\<lparr>privileges := ps\<rparr>)"
  by (simp_all add: same_but_privileges_def)

lemma same_but_privileges_trans [trans]: "same_but_privileges a b \<Longrightarrow> same_but_privileges b c \<Longrightarrow> same_but_privileges a c"
  by (simp add: same_but_privileges_def)

abbreviation "sids gs \<equiv> map (\<lambda>g. the (copy_sid (fst g))) gs"

lemma add_groups_ok:
  "token_ok tok \<Longrightarrow> \<forall>g \<in> set gs. copy_sid (fst g) \<noteq> None \<Longrightarrow>
   \<exists>r s'. add_groups tok gs s = Some (r, s') \<and>
     makes (\<lambda>t. token_ok t \<and> same_but_groups tok t \<and> map g_sid (groups t) = map g_sid (groups tok) @ sids gs) r s s'"
proof (induction gs arbitrary: tok s)
  case Nil
  then show ?case by (simp add: makes_Some same_but_groups_def)
next
  case (Cons g gs)
  obtain b attr where g: "g = (b, attr)" by (cases g)
  obtain sid where sid: "copy_sid b = Some sid" using Cons.prems(2) g by auto
  obtain ok s1 where m: "mem_alloc s = (ok, s1)" by fastforce
  show ?case
  proof (cases ok)
    case False
    then have "mem_oracle s \<noteq> []" using m by auto
    then show ?thesis using False g sid m by (simp add: makes_None)
  next
    case True
    define t1 where "t1 = tok\<lparr>groups := groups tok @ [\<lparr>g_enabled = True, g_def = True, g_logon = False,
      g_mandatory = (attr AND SE_GROUP_MANDATORY \<noteq> 0), g_owner = False, g_resource = False, g_deny_only = False, g_sid = sid\<rparr>]\<rparr>"
    have ok1: "token_ok t1" using Cons.prems(1) copy_sid_ok [OF sid] by (auto simp: token_ok_def t1_def)
    have f: "same_but_groups tok t1" "map g_sid (groups t1) = map g_sid (groups tok) @ [sid]" by (simp_all add: t1_def same_but_groups_def)
    have "\<forall>g \<in> set gs. copy_sid (fst g) \<noteq> None" using Cons.prems(2) by simp
    from Cons.IH [OF ok1 this, of s1] obtain r s' where r: "add_groups t1 gs s1 = Some (r, s')"
      "makes (\<lambda>t. token_ok t \<and> same_but_groups t1 t \<and> map g_sid (groups t) = map g_sid (groups t1) @ sids gs) r s1 s'" by blast
    have "makes (\<lambda>t. token_ok t \<and> same_but_groups tok t \<and> map g_sid (groups t) = map g_sid (groups tok) @ sids (g # gs)) r s1 s'"
      by (rule makes_mono [OF r(2)]) (use f g sid in \<open>auto simp: same_but_groups_def\<close>)
    then have "makes (\<lambda>t. token_ok t \<and> same_but_groups tok t \<and> map g_sid (groups t) = map g_sid (groups tok) @ sids (g # gs)) r s s'"
      by (rule makes_from) (use m in auto)
    moreover have "add_groups tok (g # gs) s = Some (r, s')" using True g sid m r(1) by (simp add: t1_def)
    ultimately show ?thesis by blast
  qed
qed

lemma add_privileges_ok:
  "add_privileges tok privs s = (r, s') \<Longrightarrow>
   makes (\<lambda>t. same_but_privileges tok t \<and> map p_luid (privileges t) = map p_luid (privileges tok) @ map fst privs) r s s'"
proof (induction privs arbitrary: tok s)
  case Nil
  then show ?case by (auto intro: makes_Some)
next
  case (Cons p privs)
  obtain l a where p: "p = (l, a)" by (cases p)
  obtain ok s1 where m: "mem_alloc s = (ok, s1)" by fastforce
  show ?case
  proof (cases ok)
    case False
    then have "mem_oracle s \<noteq> []" using m by auto
    then show ?thesis using Cons.prems False p m by (auto simp: privilege_add_def makes_None)
  next
    case True
    define t1 where "t1 = tok\<lparr>privileges := privileges tok @ [\<lparr>p_luid = l, p_enabled = (a AND SE_PRIVILEGE_ENABLED \<noteq> 0),
      p_def = (a AND SE_PRIVILEGE_ENABLED \<noteq> 0)\<rparr>]\<rparr>"
    have f: "same_but_privileges tok t1" "map p_luid (privileges t1) = map p_luid (privileges tok) @ [l]" by (simp_all add: t1_def)
    have "add_privileges t1 privs s1 = (r, s')" using Cons.prems True p m by (simp add: privilege_add_def t1_def)
    note makes_mono [OF Cons.IH [OF this], where Q = "\<lambda>t. same_but_privileges tok t \<and> map p_luid (privileges t) = map p_luid (privileges tok) @ map fst (p # privs)"]
    then have "makes (\<lambda>t. same_but_privileges tok t \<and> map p_luid (privileges t) = map p_luid (privileges tok) @ map fst (p # privs)) r s1 s'"
      using f p same_but_privileges_trans [OF f(1)] by simp
    then show ?thesis by (rule makes_from) (use m in auto)
  qed
qed

abbreviation "built u prim dacl gs privs t \<equiv> token_ok t \<and> user t = u \<and> primary t = prim \<and> default_dacl t = dacl \<and>
  map g_sid (groups t) = sids gs \<and> map p_luid (privileges t) = map fst privs"

lemma create_token_ok:
  assumes usr: "copy_sid usr = Some u" and gs: "\<forall>g \<in> set gs. copy_sid (fst g) \<noteq> None"
    and dacl: "\<And>acl. dacl = Some acl \<Longrightarrow> get16 acl 2 = Some (length acl)"
  shows "\<exists>r s'. create_token prim usr gs privs dacl src s = Some (r, s') \<and> makes (built u prim dacl gs privs) r s s'"
proof -
  obtain ok s1 where m: "mem_alloc s = (ok, s1)" by fastforce
  obtain ru s2 where mu: "memdup u s1 = (ru, s2)" by fastforce
  show ?thesis
  proof (cases "\<not> ok \<or> ru = None")
    case True
    then have "mem_oracle s \<noteq> []" using m mu by auto
    then show ?thesis using True usr m mu by (auto simp: create_token_def makes_None)
  next
    case False
    then have ru: "ru = Some u" using memdup_SomeD mu by fastforce
    have m2: "mem_oracle s = [] \<Longrightarrow> mem_oracle s2 = []" using m mu by auto
    define t0 where "t0 = \<lparr>privileges = [], groups = [], user = u, primary = prim, default_dacl = None, source = src\<rparr>"
    have ok0: "token_ok t0" using copy_sid_ok [OF usr] by (simp add: token_ok_def t0_def)
    have f0: "user t0 = u" "primary t0 = prim" "privileges t0 = []" "groups t0 = []" "default_dacl t0 = None" by (simp_all add: t0_def)
    obtain rg s3 where g: "add_groups t0 gs s2 = Some (rg, s3)"
        "makes (\<lambda>t. token_ok t \<and> same_but_groups t0 t \<and> map g_sid (groups t) = map g_sid (groups t0) @ sids gs) rg s2 s3"
      using add_groups_ok [OF ok0 gs] by blast
    have c1: "create_token prim usr gs privs dacl src s = (case rg of None \<Rightarrow> Some (None, s3)
      | Some tok \<Rightarrow> (case add_privileges tok privs s3 of (None, s) \<Rightarrow> Some (None, s)
        | (Some tok, s) \<Rightarrow> (case dacl of None \<Rightarrow> Some (Some tok, s)
          | Some acl \<Rightarrow> do { len \<leftarrow> get16 acl 2; acl \<leftarrow> bytes_at acl 0 len;
              case memdup acl s of (None, s) \<Rightarrow> Some (None, s)
              | (Some acl, s) \<Rightarrow> Some (Some (tok\<lparr>default_dacl := Some acl\<rparr>), s) })))"
      using False usr m mu ru g(1) by (simp add: create_token_def t0_def)
    show ?thesis
    proof (cases rg)
      case None
      then have "mem_oracle s \<noteq> []" using makes_no_token g(2) m2 by blast
      then show ?thesis using c1 None makes_None by simp
    next
      case (Some t1)
      then have t1: "token_ok t1" "same_but_groups t0 t1" "map g_sid (groups t1) = sids gs" "mem_oracle s2 = [] \<longrightarrow> mem_oracle s3 = []"
        using makes_token g(2) f0 by auto
      obtain rp s4 where p: "add_privileges t1 privs s3 = (rp, s4)" by fastforce
      note pf = add_privileges_ok [OF p]
      show ?thesis
      proof (cases rp)
        case None
        then have "mem_oracle s \<noteq> []" using makes_no_token pf t1(4) m2 by blast
        then show ?thesis using c1 Some p None makes_None by simp
      next
        case t2: (Some t2)
        then have t: "same_but_privileges t1 t2" "map p_luid (privileges t2) = map p_luid (privileges t1) @ map fst privs"
            "mem_oracle s3 = [] \<longrightarrow> mem_oracle s4 = []" using makes_token pf by blast+
        have ok2: "token_ok t2" by (rule same_but_privileges_ok [OF t(1) t1(1)])
        have fin: "user t2 = u" "primary t2 = prim" "default_dacl t2 = None" "map g_sid (groups t2) = sids gs" "map p_luid (privileges t2) = map fst privs"
          using t(1,2) t1(2,3) f0 by (simp_all add: same_but_privileges_def same_but_groups_def)
        have m4: "mem_oracle s = [] \<Longrightarrow> mem_oracle s4 = []" using m2 t1(4) t(3) by blast
        show ?thesis
        proof (cases dacl)
          case None
          then show ?thesis using c1 Some p t2 ok2 fin m4 by (auto intro: makes_Some)
        next
          case acl: (Some acl)
          have len: "get16 acl 2 = Some (length acl)" "bytes_at acl 0 (length acl) = Some acl" using dacl [OF acl] by (auto simp: bytes_at_def)
          obtain ra s5 where a: "memdup acl s4 = (ra, s5)" by fastforce
          show ?thesis
          proof (cases ra)
            case None
            then have "mem_oracle s \<noteq> []" using a m4 by auto
            then show ?thesis using None c1 Some p t2 acl len a makes_None by simp
          next
            case ra: (Some acl')
            then have "acl' = acl" using memdup_SomeD a by blast
            then have "create_token prim usr gs privs dacl src s = Some (Some (t2\<lparr>default_dacl := Some acl\<rparr>), s5)"
              using c1 Some p t2 acl len a ra by simp
            moreover have "token_ok (t2\<lparr>default_dacl := Some acl\<rparr>)" using ok2 len(1) by (simp add: token_ok_def)
            moreover have "mem_oracle s5 = []" if "mem_oracle s = []" using a m4 [OF that] by auto
            ultimately show ?thesis using fin acl by (auto intro: makes_Some)
          qed
        qed
      qed
    qed
  qed
qed

subsection \<open>The tokens of the server\<close>

lemma sids_copy:
  "copy_sid world_sid = Some world_sid" "copy_sid local_sid = Some local_sid" "copy_sid interactive_sid = Some interactive_sid"
  "copy_sid authenticated_user_sid = Some authenticated_user_sid" "copy_sid local_system_sid = Some local_system_sid"
  by (simp_all add: copy_sid_def get8_def bytes_at_def sid_size_def world_sid_def local_sid_def interactive_sid_def
      authenticated_user_sid_def local_system_sid_def nt_sid_def bytes32_def)

definition alias_sid :: "32 word \<Rightarrow> sid" where
  "alias_sid rid = [1, 2, 0, 0, 0, 0, 0, 5] @ bytes32 0x20 @ bytes32 rid"

lemma alias_sid_copy: "copy_sid (alias_sid rid) = Some (alias_sid rid)"
  by (simp add: copy_sid_def get8_def bytes_at_def sid_size_def alias_sid_def bytes32_def)

lemma security_sid_alloc_alias:
  "security_sid_alloc [0, 0, 0, 0, 0, 5] [0x20, rid] s = (case mem_alloc s of (ok, s) \<Rightarrow> (if ok then Some (alias_sid rid) else None, s))"
  by (simp add: security_sid_alloc_def alias_sid_def split: prod.split)

definition system_dacl :: "byte list" where
  "system_dacl = [4, 0] @ bytes16 48 @ bytes16 2 @ [0, 0] @ allow_all local_system_sid @ allow_all local_system_sid"

lemma create_default_dacl_system:
  "create_default_dacl local_system_sid s = Some (case mem_alloc s of (ok, s) \<Rightarrow> (if ok then Some system_dacl else None, s))"
  "get16 system_dacl 2 = Some (length system_dacl)"
proof -
  have l: "length local_system_sid = 12" by (simp add: local_system_sid_def nt_sid_def bytes32_def)
  then have "length (allow_all local_system_sid) = 20" by (simp add: allow_all_def bytes16_def bytes32_def)
  then have "length system_dacl = 48" by (simp add: system_dacl_def bytes16_def)
  moreover have "get16 system_dacl 2 = Some 48" by (simp add: system_dacl_def get16_def get8_def bytes16_def)
  ultimately show "get16 system_dacl 2 = Some (length system_dacl)" by simp
  show "create_default_dacl local_system_sid s = Some (case mem_alloc s of (ok, s) \<Rightarrow> (if ok then Some system_dacl else None, s))"
    using l by (simp add: create_default_dacl_def sids_copy system_dacl_def split: prod.split)
qed

lemma token_create_admin_ok:
  "\<exists>r s'. token_create_admin s = Some (r, s') \<and>
     makes (\<lambda>t. token_ok t \<and> primary t \<and> user t = interactive_sid \<and> map p_luid (privileges t) = map fst admin_privs) r s s'"
proof -
  obtain ok1 s1 where m1: "mem_alloc s = (ok1, s1)" by fastforce
  obtain ok2 s2 where m2: "mem_alloc s1 = (ok2, s2)" by fastforce
  obtain ok3 s3 where m3: "mem_alloc s2 = (ok3, s3)" by fastforce
  note unf = token_create_admin_def create_default_dacl_system(1) security_sid_alloc_alias m1 m2 m3
  show ?thesis
  proof (cases "ok1 \<and> ok2 \<and> ok3")
    case False
    then have "mem_oracle s \<noteq> []" using m1 m2 m3 by auto
    moreover have "token_create_admin s = Some (None, s3)" using False by (auto simp: unf)
    ultimately show ?thesis using makes_None by blast
  next
    case True
    define attr where "attr = SE_GROUP_ENABLED OR SE_GROUP_ENABLED_BY_DEFAULT OR SE_GROUP_MANDATORY"
    define gs where "gs = map (\<lambda>sid. (sid, attr)) [world_sid, local_sid, interactive_sid, authenticated_user_sid, alias_sid 0x220, alias_sid 0x221]"
    define src :: "byte list" where "src = [0x53, 0x65, 0x4d, 0x67, 0x72, 0, 0, 0] @ replicate 8 0"
    have c: "token_create_admin s = create_token True interactive_sid gs admin_privs (Some system_dacl) src s3"
      using True by (simp add: unf attr_def gs_def src_def Let_def)
    have "\<forall>g \<in> set gs. copy_sid (fst g) \<noteq> None" by (auto simp: gs_def sids_copy alias_sid_copy)
    moreover have "get16 acl 2 = Some (length acl)" if "Some system_dacl = Some acl" for acl using that create_default_dacl_system(2) by simp
    ultimately obtain r s' where r: "create_token True interactive_sid gs admin_privs (Some system_dacl) src s3 = Some (r, s')"
      "makes (built interactive_sid True (Some system_dacl) gs admin_privs) r s3 s'"
      using create_token_ok [OF sids_copy(3), where gs = gs and dacl = "Some system_dacl"] by blast
    have m: "makes (built interactive_sid True (Some system_dacl) gs admin_privs) r s s'"
      by (rule makes_from [OF r(2)]) (use m1 m2 m3 in auto)
    have "makes (\<lambda>t. token_ok t \<and> primary t \<and> user t = interactive_sid \<and> map p_luid (privileges t) = map fst admin_privs) r s s'"
      by (rule makes_mono [OF m]) blast
    then show ?thesis using c r(1) by auto
  qed
qed

lemma copy_groups_memory: "copy_groups gs s = (ok, s') \<Longrightarrow> mem_oracle s = [] \<Longrightarrow> ok \<and> mem_oracle s' = []"
  by (induction gs arbitrary: s) auto

text \<open>Copying the privileges forgets those there is no memory for.\<close>

lemma copy_privileges_ok:
  "copy_privileges tok ps s = (t, s') \<Longrightarrow> same_but_privileges tok t \<and>
     p_luid ` set (privileges t) \<subseteq> p_luid ` set (privileges tok) \<union> p_luid ` set ps \<and>
     (mem_oracle s = [] \<longrightarrow> mem_oracle s' = [] \<and>
        map (\<lambda>p. (p_luid p, p_enabled p)) (privileges t) = map (\<lambda>p. (p_luid p, p_enabled p)) (privileges tok @ ps))"
proof (induction ps arbitrary: tok s)
  case (Cons p ps)
  obtain ok s1 where m: "mem_alloc s = (ok, s1)" by fastforce
  show ?case
  proof (cases ok)
    case False
    then have "mem_oracle s \<noteq> []" using m by auto
    have "copy_privileges tok ps s1 = (t, s')" using Cons.prems m False by (simp add: privilege_add_def)
    from Cons.IH [OF this] show ?thesis using \<open>mem_oracle s \<noteq> []\<close> by auto
  next
    case True
    define t1 where "t1 = tok\<lparr>privileges := privileges tok @ [\<lparr>p_luid = p_luid p, p_enabled = p_enabled p, p_def = p_enabled p\<rparr>]\<rparr>"
    have f: "same_but_privileges tok t1" "privileges t1 = privileges tok @ [\<lparr>p_luid = p_luid p, p_enabled = p_enabled p, p_def = p_enabled p\<rparr>]"
      by (simp_all add: t1_def)
    have "copy_privileges t1 ps s1 = (t, s')" using Cons.prems m True by (simp add: privilege_add_def t1_def)
    note ih = Cons.IH [OF this]
    have "same_but_privileges tok t" using ih f(1) same_but_privileges_trans by blast
    moreover have "mem_oracle s1 = []" if "mem_oracle s = []" using m that by simp
    ultimately show ?thesis using ih f(2) by auto
  qed
qed simp

lemma duplicate_token_ok:
  assumes src: "token_ok src"
  shows "\<exists>r s'. duplicate_token src prim s = Some (r, s') \<and>
    makes (\<lambda>t. token_ok t \<and> user t = user src \<and> primary t = prim \<and> groups t = groups src \<and> default_dacl t = default_dacl src \<and>
      p_luid ` set (privileges t) \<subseteq> p_luid ` set (privileges src) \<and>
      (mem_oracle s = [] \<longrightarrow> map (\<lambda>p. (p_luid p, p_enabled p)) (privileges t) = map (\<lambda>p. (p_luid p, p_enabled p)) (privileges src))) r s s'"
proof -
  have usr: "copy_sid (user src) = Some (user src)" using src by (simp add: sid_ok_copy token_ok_def)
  have acl: "get16 acl 2 = Some (length acl)" if "default_dacl src = Some acl" for acl using src that by (simp add: token_ok_def)
  have "\<exists>r s1. create_token prim (user src) [] [] (default_dacl src) (source src) s = Some (r, s1) \<and>
      makes (built (user src) prim (default_dacl src) ([] :: (byte list \<times> 32 word) list) ([] :: luid_and_attributes list)) r s s1"
    by (rule create_token_ok [OF usr]) (use acl in simp_all)
  then obtain r s1 where r: "create_token prim (user src) [] [] (default_dacl src) (source src) s = Some (r, s1)"
    "makes (built (user src) prim (default_dacl src) ([] :: (byte list \<times> 32 word) list) ([] :: luid_and_attributes list)) r s s1" by blast
  show ?thesis
  proof (cases r)
    case None
    then have "mem_oracle s \<noteq> []" using r(2) makes_no_token by blast
    then show ?thesis using r(1) None by (simp add: duplicate_token_def makes_None)
  next
    case (Some t0)
    then have t0: "token_ok t0" "user t0 = user src" "primary t0 = prim" "default_dacl t0 = default_dacl src" "privileges t0 = []"
        "mem_oracle s = [] \<longrightarrow> mem_oracle s1 = []" using makes_token r(2) by auto
    obtain ok s2 where g: "copy_groups (groups src) s1 = (ok, s2)" by fastforce
    show ?thesis
    proof (cases ok)
      case False
      then have "mem_oracle s \<noteq> []" using copy_groups_memory [OF g] t0(6) by auto
      then show ?thesis using r(1) Some g False makes_None by (simp add: duplicate_token_def)
    next
      case True
      define t1 where "t1 = t0\<lparr>groups := groups src\<rparr>"
      have ok1: "token_ok t1" using t0(1) src by (simp add: token_ok_def t1_def)
      have f: "user t1 = user src" "primary t1 = prim" "default_dacl t1 = default_dacl src" "privileges t1 = []" "groups t1 = groups src"
        using t0 by (simp_all add: t1_def)
      obtain t s3 where p: "copy_privileges t1 (privileges src) s2 = (t, s3)" by fastforce
      note pf = copy_privileges_ok [OF p]
      have "duplicate_token src prim s = Some (Some t, s3)" using r(1) Some g True p by (simp add: duplicate_token_def t1_def)
      moreover have "token_ok t" using same_but_privileges_ok [OF _ ok1] pf by blast
      moreover have "mem_oracle s2 = []" if "mem_oracle s = []" using copy_groups_memory [OF g] t0(6) that by blast
      ultimately show ?thesis using pf f by (auto simp: same_but_privileges_def intro!: makes_Some)
    qed
  qed
qed

subsection \<open>Adjusting privileges\<close>

lemma at_luid_luids:
  "p_luid ` set (at_luid l (\<lambda>p. []) ps) \<subseteq> p_luid ` set ps"
  "map p_luid (at_luid l (\<lambda>p. [p\<lparr>p_enabled := b\<rparr>]) ps) = map p_luid ps"
  by (induction ps) auto

lemma token_adjust_privileges_ok:
  "buf \<or> room = 0 \<Longrightarrow> \<exists>t mods s'. token_adjust_privileges tok privs buf room s = Some (t, mods, s') \<and> same_but_privileges tok t \<and>
     p_luid ` set (privileges t) \<subseteq> p_luid ` set (privileges tok) \<and> length mods \<le> room \<and> length mods \<le> length privs \<and> mem_oracle s' = mem_oracle s"
proof (induction privs arbitrary: tok room s)
  case (Cons q privs)
  obtain l a where q: "q = (l, a)" by (cases q)
  show ?case
  proof (cases "token_find_privilege tok l False")
    case None
    then show ?thesis using Cons.IH [OF Cons.prems, of tok "set_error STATUS_NOT_ALL_ASSIGNED s"] q by auto
  next
    case (Some p)
    show ?thesis
    proof (cases "a AND SE_PRIVILEGE_REMOVE = 0")
      case False
      define t1 where "t1 = tok\<lparr>privileges := at_luid l (\<lambda>p. []) (privileges tok)\<rparr>"
      have f: "same_but_privileges tok t1" "p_luid ` set (privileges t1) \<subseteq> p_luid ` set (privileges tok)"
        using at_luid_luids(1) by (simp_all add: t1_def)
      obtain t mods s' where t: "token_adjust_privileges t1 privs buf room s = Some (t, mods, s')" "same_but_privileges t1 t"
        "p_luid ` set (privileges t) \<subseteq> p_luid ` set (privileges t1)" "length mods \<le> room" "length mods \<le> length privs" "mem_oracle s' = mem_oracle s"
        using Cons.IH [OF Cons.prems] by blast
      have "token_adjust_privileges tok (q # privs) buf room s = Some (t, mods, s')" using q Some False t(1) by (simp add: t1_def)
      moreover have "same_but_privileges tok t" by (rule same_but_privileges_trans [OF f(1) t(2)])
      ultimately show ?thesis using f(2) t(3-6) by auto
    next
      case True
      define t1 where "t1 = tok\<lparr>privileges := at_luid l (\<lambda>p. [p\<lparr>p_enabled := a AND SE_PRIVILEGE_ENABLED \<noteq> 0\<rparr>]) (privileges tok)\<rparr>"
      have "map p_luid (privileges t1) = map p_luid (privileges tok)" using at_luid_luids(2) by (simp add: t1_def)
      then have f: "same_but_privileges tok t1" "p_luid ` set (privileges t1) = p_luid ` set (privileges tok)"
        unfolding set_map [symmetric] by (simp_all add: t1_def)
      have "buf \<or> room - 1 = 0" using Cons.prems by auto
      from Cons.IH [OF this, of t1 s] obtain t mods s' where t: "token_adjust_privileges t1 privs buf (room - 1) s = Some (t, mods, s')"
        "same_but_privileges t1 t" "p_luid ` set (privileges t) \<subseteq> p_luid ` set (privileges t1)" "length mods \<le> room - 1"
        "length mods \<le> length privs" "mem_oracle s' = mem_oracle s" by blast
      define mods' where "mods' = (if room \<noteq> 0 then [luid_and_attr_from_privilege p] else []) @ mods"
      have "token_adjust_privileges tok (q # privs) buf room s = Some (t, mods', s')"
        using q Some True t(1) Cons.prems by (auto simp: t1_def mods'_def)
      moreover have "length mods' \<le> room" "length mods' \<le> length (q # privs)" using t(4,5) by (auto simp: mods'_def)
      moreover have "same_but_privileges tok t" by (rule same_but_privileges_trans [OF f(1) t(2)])
      ultimately show ?thesis using f(2) t(3,6) by auto
    qed
  qed
qed simp

lemma adjust_token_privileges_ok:
  assumes "mem_oracle s = []"
  shows "\<exists>t n mods s'. adjust_token_privileges tok privs get_mod disable_all room s = Some (t, n, mods, s') \<and> same_but_privileges tok t \<and>
    p_luid ` set (privileges t) \<subseteq> p_luid ` set (privileges tok) \<and> 12 * length mods \<le> room \<and> n \<le> room"
proof -
  define k where "k = (if get_mod \<and> \<not> disable_all
    then min (length (filter (\<lambda>(luid, attr). token_find_privilege tok luid False \<noteq> None) privs)) (room div 12) else 0)"
  have k: "k * 12 \<le> room" by (auto simp: k_def)
  have m: "(if k \<noteq> 0 then mem_alloc s else (False, s)) = (k \<noteq> 0, s)" using assms by simp
  have unf: "adjust_token_privileges tok privs get_mod disable_all room s =
      (if disable_all then Some (token_disable_privileges tok, k * 12, [], s)
       else do { (tok, mods, s) \<leftarrow> token_adjust_privileges tok privs (k \<noteq> 0) k s; Some (tok, k * 12, mods, s) })"
    unfolding adjust_token_privileges_def Let_def k_def [symmetric] m by simp
  show ?thesis
  proof (cases disable_all)
    case True
    then show ?thesis using unf k by (auto simp: token_disable_privileges_def)
  next
    case False
    obtain t mods s' where t: "token_adjust_privileges tok privs (k \<noteq> 0) k s = Some (t, mods, s')" "same_but_privileges tok t"
      "p_luid ` set (privileges t) \<subseteq> p_luid ` set (privileges tok)" "length mods \<le> k"
      using token_adjust_privileges_ok [of "k \<noteq> 0" k tok privs s] by blast
    then have "12 * length mods \<le> room" using k by simp
    then show ?thesis using unf False t k by auto
  qed
qed



end
