(* ===== verification/Spec2Isabelle.thy ===== *)
theory Spec2Isabelle
  imports Region_Ops Requests Create_Correct Ptids Users Atoms Locks_Safe Escapes_Correct Registry_Create Token_Invariant
begin

text \<open>
  The wineserver of Wine 0.9.19, the process that holds what Windows programs share: kernel objects,
  handles, waits, files, regions, atoms, the registry, tokens.  The sources are in \<^verbatim>\<open>server/\<close>; each theory below names
  the functions it models, and the definitions have their names and their order.

  \<^bold>\<open>How the code is modelled.\<close>  The server is one process with one thread, so that a request is a function from a
  state to a state.  A C function that can go wrong in a way C does not define (a failed assertion, a freed or
  null pointer, an index outside of an array, an unbounded recursion) returns an option, and \<open>None\<close> is
  this outcome; a theorem that says that a result is \<open>Some\<close> says that none of this happens.  Error returns are
  values: \<open>set_error\<close> stores the status code in the error word of the current thread.  Machine integers that
  can wrap are words of their width; \<^verbatim>\<open>int\<close>s that must not overflow are guarded by \<open>int32_ok\<close>.  Lists of the code
  (\<^verbatim>\<open>struct list\<close>) are lists of object numbers, arrays are lists of their allocated length.  The C allocator
  is an oracle in the state, the list of the outcomes of its coming calls: a theorem about every state is about
  every pattern of failures.  System calls (\<^verbatim>\<open>fcntl\<close>), the client's answers and the case tables of Unicode are
  such oracles or parameters too.

  \<^bold>\<open>The parts.\<close>
  \<^item> \<open>Prelude\<close>: the error word, the allocator, status codes, arrays.
  \<^item> \<open>Region\<close> (every function of \<^verbatim>\<open>region.c\<close>): rectangle arrays and the sweep \<^verbatim>\<open>region_op\<close> with its callbacks.
    \<open>Region_Correct\<close> has the contract of the callbacks (locale \<open>banded_op\<close>, interpreted for union, intersection and
    difference) and proves the sweep; \<open>Region_Ops\<close> shows that each operation computes its set of points, for equal
    pointers too, that the bands and the extents stay right, and that it fails on allocation failure only.
  \<^item> \<open>Server\<close>, \<open>Objects\<close>, \<open>Waits\<close>, \<open>Release\<close>, \<open>Handles\<close>, \<open>Directory\<close>, \<open>Sync\<close>, \<open>Threads\<close>: the kernel objects on
    one store of numbered objects with reference counts: names and their hash tables (\<^verbatim>\<open>object.c\<close>, \<^verbatim>\<open>directory.c\<close>,
    \<^verbatim>\<open>symlink.c\<close>), waits, wake-ups and timeouts (\<^verbatim>\<open>thread.c\<close>, \<^verbatim>\<open>fd.c\<close>), the destructors, handle tables (\<^verbatim>\<open>handle.c\<close>),
    events, mutexes, semaphores, timers, asynchronous calls, threads and processes.
  \<^item> \<open>Server_Inv\<close> states the invariant of the store, \<open>server_ok E\<close>: each reference count is the number of references in
    the store and in \<open>E\<close>, and queues, waits, owners, names and timeouts agree.  \<open>E\<close> is the multiset of the references
    held from outside of the store: by the connection of each running thread, by the C code that is
    running, by the permanent objects.
    \<open>Release_Correct\<close>, \<open>Handles_Correct\<close>, \<open>Handles_Ops\<close>, \<open>Create_Correct\<close>, \<open>Wait_Correct\<close>, \<open>Wake\<close>, \<open>Wake_Ops\<close>, \<open>Sync_Ops\<close>,
    \<open>Thread_Ops\<close> prove that the operations keep it and what they do.  Waking needs more than
    the invariant (\<open>wakeable\<close>: each waiting thread has a reference of its own, no thread waits twice
    for one object, no mutex count can wrap); \<open>settled\<close> says that no thread waits that could go on.
    \<open>Requests\<close> puts the parts together: a request of a client (look up a handle, work on the object, give
    the reference back) is defined and leads from a \<open>good\<close> state to a \<open>good\<close> state.
    \<open>Sample\<close> is a small server on which the theorems are evaluated.
  \<^item> \<open>Id_Table\<close> is the contract (a locale) of a table that gives out numbers for pointers.  \<open>Ptids\<close> (\<^verbatim>\<open>process.c\<close>) and
    \<open>Users\<close> (\<^verbatim>\<open>user.c\<close>) provide it and are its interpretations.
  \<^item> \<open>Atoms\<close> (\<^verbatim>\<open>atom.c\<close>): hash tables of counted strings, refined to a map of atoms.
  \<^item> \<open>Locks\<close>, \<open>Locks_Correct\<close>, \<open>Locks_Safe\<close> (\<^verbatim>\<open>fd.c\<close>): byte range locks with the Unix locks behind them, sharing modes.
  \<^item> \<open>Escapes\<close>, \<open>Escapes_Correct\<close> (\<^verbatim>\<open>unicode.c\<close>, \<^verbatim>\<open>registry.c\<close>): the strings in the files of the registry, written and read.
  \<^item> \<open>Registry\<close> (\<^verbatim>\<open>registry.c\<close>): the tree of keys.  \<open>Registry_Values\<close> has the order of names, the binary search and what marking a
    key and its notifications leave alone, \<open>Registry_Ops\<close> the refinement of the values of a key to a map, \<open>Registry_Tree\<close> the
    invariant \<open>registry_ok E\<close> of links, sorted arrays and reference counts, \<open>Registry_Delete\<close> the deletion of subtrees,
    \<open>Registry_Create\<close> paths, the opening and the creation of keys.
  \<^item> \<open>Token\<close> (\<^verbatim>\<open>token.c\<close>): security tokens; a security descriptor is the bytes of the message it is in.  \<open>Token_Correct\<close>
    compares the access check, its validation included, with a reference that reads the descriptor first and then decides without
    looking at the order of the entries; \<open>Token_Invariant\<close> proves that tokens stay well formed.

  \<^bold>\<open>Fuel.\<close>  \<open>release_object\<close> and the walks over wait queues recurse through the store.  Their fuel is a number computed
  from the state, the number of live objects or of waits, that every step lowers; the theorems prove the result
  \<open>Some\<close>, so that it is enough.  The walk over the holes of a file (\<open>Locks.punch\<close>) has one step for each node of its buffer
  and is proved to need no more for lists of locks that are sorted.  In the registry a loop up the tree from key \<open>k\<close> has \<open>k + 1\<close>
  steps, as a parent is older than its subkeys, and a recursion down has one for each key there ever was; deleting has two,
  one for the call and one for its loop.

  \<^bold>\<open>Not modelled.\<close>  Reading requests, polling, signals, \<^verbatim>\<open>ptrace\<close>, opening files, sockets and pipes: what these do is
  system calls.  Of threads and processes the fields for debugging, consoles, message queues, windows and tokens; the
  creation of processes and threads, which hangs on sockets.  Message queues, windows, hooks and the clipboard.  Of the registry the
  files and their periodic saving.  Of the requests on keys and tokens the lookup of their handles; which token a
  thread or a process has (\<^verbatim>\<open>security_set_thread_token\<close>, \<^verbatim>\<open>open_token\<close>).  The
  code outside of \<^verbatim>\<open>server/\<close>: the dynamic libraries are clients of the server, the loader and the tools are
  system programming.  The case tables of \<^verbatim>\<open>libs/wine/casemap.c\<close> are parameters.
\<close>

end
